(* ===== verification/Soc_Prelude.thy ===== *)
theory Soc_Prelude
  imports Complex_Main "HOL-Library.Sublist" "HOL-Library.Char_ord" "HOL-Library.List_Lexorder"
begin

text \<open>
  Shared vocabulary of the development: Python strings, insertion-ordered dictionaries,
  first-hit scans and the lemmas on them that every component uses.

  Strings are lists of ASCII characters; \<open>lower\<close>, the whitespace test and the digit test
  are Python's on ASCII text. Dictionaries (\<open>dict\<close>, \<open>OrderedDict\<close>) are association
  lists in insertion order with distinct keys, which is what Python guarantees.
\<close>

named_theorems dict_simps "lookup, membership and length of dictionary operations"
named_theorems str_simps "facts about the string operations"

section \<open>Characters and strings\<close>

type_synonym str = string

definition code_of :: "char \<Rightarrow> nat" where
  "code_of c = of_char c"

definition is_space :: "char \<Rightarrow> bool" where
  "is_space c \<longleftrightarrow> (9 \<le> code_of c \<and> code_of c \<le> 13) \<or> (28 \<le> code_of c \<and> code_of c \<le> 32)"

definition is_upper :: "char \<Rightarrow> bool" where
  "is_upper c \<longleftrightarrow> 65 \<le> code_of c \<and> code_of c \<le> 90"

definition is_lower :: "char \<Rightarrow> bool" where
  "is_lower c \<longleftrightarrow> 97 \<le> code_of c \<and> code_of c \<le> 122"

definition is_alpha :: "char \<Rightarrow> bool" where
  "is_alpha c \<longleftrightarrow> is_upper c \<or> is_lower c"

definition is_digit :: "char \<Rightarrow> bool" where
  "is_digit c \<longleftrightarrow> 48 \<le> code_of c \<and> code_of c \<le> 57"

definition lower_char :: "char \<Rightarrow> char" where
  "lower_char c = (if is_upper c then char_of (code_of c + 32) else c)"

definition upper_char :: "char \<Rightarrow> char" where
  "upper_char c = (if is_lower c then char_of (code_of c - 32) else c)"

definition lower :: "str \<Rightarrow> str" where
  "lower s = map lower_char s"

definition upper :: "str \<Rightarrow> str" where
  "upper s = map upper_char s"

lemmas char_class_defs = code_of_def is_space_def is_upper_def is_lower_def is_alpha_def is_digit_def

lemma code_of_inj: "code_of c = code_of d \<longleftrightarrow> c = d"
  unfolding code_of_def by (metis char_of_char)

lemma code_of_newline: "code_of c = 10 \<longleftrightarrow> c = CHR 0x0A"
  by (simp add: code_of_inj [of c "CHR 0x0A", symmetric]) (simp add: code_of_def)

lemma code_of_lower_char: "code_of (lower_char c) = (if is_upper c then code_of c + 32 else code_of c)"
  by (simp add: lower_char_def code_of_def is_upper_def of_char_of take_bit_eq_mod)

lemma lower_char_idem [simp]: "lower_char (lower_char c) = lower_char c"
proof -
  have "\<not> is_upper (lower_char c)"
    unfolding is_upper_def code_of_lower_char by (auto simp: is_upper_def)
  then show ?thesis by (simp add: lower_char_def [of "lower_char c"])
qed

lemma lower_idem [simp, str_simps]: "lower (lower s) = lower s"
  by (simp add: lower_def)

lemma lower_append [simp, str_simps]: "lower (s @ t) = lower s @ lower t"
  by (simp add: lower_def)

lemma lower_Nil [simp]: "lower [] = []" and lower_eq_Nil [simp]: "lower s = [] \<longleftrightarrow> s = []"
  by (simp_all add: lower_def)

lemma length_lower [simp]: "length (lower s) = length s"
  by (simp add: lower_def)

lemma lower_char_eq_iff: "\<not> is_lower d \<Longrightarrow> \<not> is_upper d \<Longrightarrow> lower_char c = d \<longleftrightarrow> c = d"
proof -
  assume d: "\<not> is_lower d" "\<not> is_upper d"
  have "is_upper c \<Longrightarrow> is_lower (lower_char c)"
    by (simp add: is_lower_def code_of_lower_char) (simp add: is_upper_def)
  with d show ?thesis by (auto simp: lower_char_def)
qed

lemma is_space_lower_char [simp]: "is_space (lower_char c) = is_space c"
  by (auto simp: is_space_def code_of_lower_char is_upper_def)

lemma lower_char_dot_iff [simp]: "lower_char c = CHR ''.'' \<longleftrightarrow> c = CHR ''.''"
  by (rule lower_char_eq_iff) (simp_all add: is_lower_def is_upper_def code_of_def)

subsection \<open>Stripping\<close>

definition lstrip_by :: "(char \<Rightarrow> bool) \<Rightarrow> str \<Rightarrow> str" where
  "lstrip_by P s = dropWhile P s"

definition rstrip_by :: "(char \<Rightarrow> bool) \<Rightarrow> str \<Rightarrow> str" where
  "rstrip_by P s = rev (dropWhile P (rev s))"

definition strip :: "str \<Rightarrow> str" where
  "strip s = rstrip_by is_space (lstrip_by is_space s)"

lemma rstrip_by_Nil [simp]: "rstrip_by P [] = []"
  by (simp add: rstrip_by_def)

lemma rstrip_by_snoc: "rstrip_by P (s @ [c]) = (if P c then rstrip_by P s else s @ [c])"
  by (simp add: rstrip_by_def)

lemma rstrip_by_last: "rstrip_by P s \<noteq> [] \<Longrightarrow> \<not> P (last (rstrip_by P s))"
  unfolding rstrip_by_def by (simp add: last_rev hd_dropWhile)

lemma rstrip_by_id: "s = [] \<or> \<not> P (last s) \<Longrightarrow> rstrip_by P s = s"
  by (cases s rule: rev_cases) (auto simp: rstrip_by_snoc)

lemma rstrip_by_idem [simp]: "rstrip_by P (rstrip_by P s) = rstrip_by P s"
  by (rule rstrip_by_id) (auto dest: rstrip_by_last)

lemma lstrip_by_id: "s = [] \<or> \<not> P (hd s) \<Longrightarrow> lstrip_by P s = s"
  by (cases s) (auto simp: lstrip_by_def)

lemma rstrip_by_prefix: "prefix (rstrip_by P s) s"
  unfolding rstrip_by_def prefix_def
  by (metis rev_append rev_rev_ident takeWhile_dropWhile_id)

lemma hd_rstrip_by: "rstrip_by P s \<noteq> [] \<Longrightarrow> hd (rstrip_by P s) = hd s"
  using rstrip_by_prefix [of P s] by (cases "rstrip_by P s") (auto simp: prefix_def)

lemma strip_hd_last:
  assumes "strip s \<noteq> []"
  shows "\<not> is_space (hd (strip s))" and "\<not> is_space (last (strip s))"
proof -
  let ?t = "lstrip_by is_space s"
  from assms have t: "rstrip_by is_space ?t \<noteq> []" by (simp add: strip_def)
  then have "?t \<noteq> []" by auto
  then have "\<not> is_space (hd ?t)" by (simp add: lstrip_by_def hd_dropWhile)
  with t show "\<not> is_space (hd (strip s))" by (simp add: strip_def hd_rstrip_by)
  from t show "\<not> is_space (last (strip s))" by (simp add: strip_def rstrip_by_last)
qed

lemma set_rstrip_by: "set (rstrip_by P s) \<subseteq> set s"
  using set_mono_prefix [OF rstrip_by_prefix] .

lemma set_lstrip_by: "set (lstrip_by P s) \<subseteq> set s"
  by (auto simp: lstrip_by_def dest: set_dropWhileD)

lemma set_strip: "set (strip s) \<subseteq> set s"
  using set_rstrip_by [of is_space "lstrip_by is_space s"] set_lstrip_by [of is_space s] unfolding strip_def by (rule order_trans)

lemma strip_id: "s = [] \<or> \<not> is_space (hd s) \<and> \<not> is_space (last s) \<Longrightarrow> strip s = s"
  by (auto simp: strip_def lstrip_by_id rstrip_by_id)

lemma strip_idem [simp]: "strip (strip s) = strip s"
  by (rule strip_id) (auto dest: strip_hd_last)

lemma dropWhile_map_inv: "(\<And>c. P (f c) = P c) \<Longrightarrow> dropWhile P (map f s) = map f (dropWhile P s)"
  by (induction s) auto

lemma strip_lower [str_simps]: "strip (lower s) = lower (strip s)"
  by (simp add: strip_def rstrip_by_def lstrip_by_def lower_def dropWhile_map_inv rev_map)

subsection \<open>Splitting and joining\<close>

text \<open>\<open>s.split(c)\<close>: always at least one piece.\<close>

fun split_on :: "char \<Rightarrow> str \<Rightarrow> str list" where
  "split_on c [] = [[]]"
| "split_on c (x # xs) =
     (if x = c then [] # split_on c xs
      else (case split_on c xs of p # ps \<Rightarrow> (x # p) # ps | [] \<Rightarrow> [[x]]))"

text \<open>\<open>c.join(pieces)\<close> with a one-character separator.\<close>

fun join_with :: "char \<Rightarrow> str list \<Rightarrow> str" where
  "join_with c [] = []"
| "join_with c [p] = p"
| "join_with c (p # ps) = p @ c # join_with c ps"

text \<open>\<open>s.split()\<close>: the maximal runs of non-blank characters.\<close>

fun split_ws_aux :: "str \<Rightarrow> str \<Rightarrow> str list" where
  "split_ws_aux acc [] = (if acc = [] then [] else [rev acc])"
| "split_ws_aux acc (x # xs) =
     (if is_space x then (if acc = [] then split_ws_aux [] xs else rev acc # split_ws_aux [] xs)
      else split_ws_aux (x # acc) xs)"

definition split_ws :: "str \<Rightarrow> str list" where
  "split_ws s = split_ws_aux [] s"

text \<open>\<open>s.split(c, 1)[0]\<close>: everything before the first separator.\<close>

definition before :: "char \<Rightarrow> str \<Rightarrow> str" where
  "before c s = takeWhile (\<lambda>x. x \<noteq> c) s"

text \<open>\<open>s.splitlines()\<close> on ASCII text; a carriage return and line feed pair is one break.\<close>

definition is_line_break :: "char \<Rightarrow> bool" where
  "is_line_break c \<longleftrightarrow> (10 \<le> code_of c \<and> code_of c \<le> 13) \<or> (28 \<le> code_of c \<and> code_of c \<le> 30)"

fun splitlines_aux :: "str \<Rightarrow> bool \<Rightarrow> str \<Rightarrow> str list" where
  "splitlines_aux acc cr [] = (if acc = [] then [] else [rev acc])"
| "splitlines_aux acc cr (x # xs) =
     (if cr \<and> code_of x = 10 then splitlines_aux acc False xs
      else if is_line_break x then rev acc # splitlines_aux [] (code_of x = 13) xs
      else splitlines_aux (x # acc) False xs)"

definition splitlines :: "str \<Rightarrow> str list" where
  "splitlines s = splitlines_aux [] False s"

text \<open>\<open>$\<close> in a Python regular expression also matches just before one final newline.\<close>

definition re_dollar :: "(str \<Rightarrow> bool) \<Rightarrow> str \<Rightarrow> bool" where
  "re_dollar P s \<longleftrightarrow> P s \<or> (s \<noteq> [] \<and> code_of (last s) = 10 \<and> P (butlast s))"

lemma split_on_not_Nil [simp]: "split_on c s \<noteq> []"
  by (induction s) (auto split: list.splits)

lemma join_with_Cons: "ps \<noteq> [] \<Longrightarrow> join_with c (p # ps) = p @ c # join_with c ps"
  by (cases ps) auto

lemma join_split [simp, str_simps]: "join_with c (split_on c s) = s"
proof (induction s)
  case (Cons x xs)
  then show ?case
    by (cases "split_on c xs"; cases "tl (split_on c xs)") (auto simp: join_with_Cons)
qed simp

lemma split_on_no_sep: "p \<in> set (split_on c s) \<Longrightarrow> c \<notin> set p"
proof (induction s arbitrary: p)
  case (Cons x xs)
  then show ?case by (auto split: list.splits if_splits)
qed simp

lemma split_on_sep_free: "c \<notin> set p \<Longrightarrow> split_on c p = [p]"
  by (induction p) auto

lemma split_on_append_sep: "split_on c (p @ c # s) = split_on c p @ split_on c s"
  by (induction p) (auto split: list.splits)

lemma set_split_ws_aux: "t \<in> set (split_ws_aux acc s) \<Longrightarrow> set t \<subseteq> set acc \<union> set s"
proof (induction acc s arbitrary: t rule: split_ws_aux.induct)
  case (2 acc x xs)
  show ?case
  proof (cases "is_space x")
    case True
    with 2 show ?thesis by (cases "acc = []") (fastforce+)
  next
    case False
    with "2.IH"(3) [OF False, of t] "2.prems" show ?thesis by auto
  qed
qed (auto split: if_splits)

lemma set_split_ws: "t \<in> set (split_ws s) \<Longrightarrow> set t \<subseteq> set s"
  using set_split_ws_aux [of t "[]" s] by (simp add: split_ws_def)

lemma set_split_on: "p \<in> set (split_on c s) \<Longrightarrow> set p \<subseteq> set s"
proof (induction s arbitrary: p)
  case (Cons x xs)
  obtain q qs where q: "split_on c xs = q # qs" by (cases "split_on c xs") simp_all
  with Cons.IH [of p] Cons.IH [of q] Cons.prems show ?case by (auto split: if_splits)
qed simp

subsection \<open>Line feeds\<close>

lemma lower_char_newline: "lower_char c = CHR 0x0A \<longleftrightarrow> c = CHR 0x0A"
  by (rule lower_char_eq_iff) (simp_all add: is_lower_def is_upper_def code_of_def)

lemma newline_lower: "CHR 0x0A \<in> set (lower s) \<longleftrightarrow> CHR 0x0A \<in> set s"
  unfolding lower_def by (metis (no_types, lifting) image_iff list.set_map lower_char_newline)

lemma set_before: "set (before c s) \<subseteq> set s"
  by (auto simp: before_def dest: set_takeWhileD)

lemma splitlines_no_newline: "l \<in> set (splitlines_aux acc cr s) \<Longrightarrow> CHR 0x0A \<notin> set acc \<Longrightarrow> CHR 0x0A \<notin> set l"
proof (induction acc cr s rule: splitlines_aux.induct)
  case (2 acc cr x xs)
  have x: "\<not> is_line_break x \<Longrightarrow> x \<noteq> CHR 0x0A"
    by (auto simp: is_line_break_def code_of_def)
  from 2 show ?case by (auto split: if_splits dest: x)
qed (auto split: if_splits)

section \<open>First-hit scans\<close>

text \<open>A loop that returns at the first element for which \<open>f\<close> has an answer.\<close>

fun first_some :: "('a \<Rightarrow> 'b option) \<Rightarrow> 'a list \<Rightarrow> 'b option" where
  "first_some f [] = None"
| "first_some f (x # xs) = (case f x of Some y \<Rightarrow> Some y | None \<Rightarrow> first_some f xs)"

lemma first_some_None [simp]: "first_some f xs = None \<longleftrightarrow> (\<forall>x\<in>set xs. f x = None)"
  by (induction xs) (auto split: option.splits)

lemma first_some_eq_Some:
  "first_some f xs = Some y \<longleftrightarrow>
     (\<exists>us x vs. xs = us @ x # vs \<and> f x = Some y \<and> (\<forall>u\<in>set us. f u = None))"
proof
  show "first_some f xs = Some y \<Longrightarrow>
      \<exists>us x vs. xs = us @ x # vs \<and> f x = Some y \<and> (\<forall>u\<in>set us. f u = None)"
  proof (induction xs)
    case (Cons a xs)
    show ?case
    proof (cases "f a")
      case None
      with Cons obtain us x vs where "xs = us @ x # vs" "f x = Some y" "\<forall>u\<in>set us. f u = None"
        by auto
      with None show ?thesis by (intro exI [of _ "a # us"] exI [of _ x] exI [of _ vs]) simp
    next
      case (Some b)
      with Cons.prems show ?thesis by (intro exI [of _ "[]"] exI [of _ a] exI [of _ xs]) simp
    qed
  qed simp
next
  assume "\<exists>us x vs. xs = us @ x # vs \<and> f x = Some y \<and> (\<forall>u\<in>set us. f u = None)"
  then obtain us x vs where "xs = us @ x # vs" "f x = Some y" "\<forall>u\<in>set us. f u = None" by blast
  then show "first_some f xs = Some y" by (induction us arbitrary: xs) auto
qed

lemma first_some_in: "first_some f xs = Some y \<Longrightarrow> \<exists>x\<in>set xs. f x = Some y"
  by (auto simp: first_some_eq_Some)

lemma first_some_cong: "(\<And>x. x \<in> set xs \<Longrightarrow> f x = g x) \<Longrightarrow> first_some f xs = first_some g xs"
  by (induction xs) (auto split: option.splits)

lemma first_some_append:
  "first_some f (xs @ ys) = (case first_some f xs of Some y \<Rightarrow> Some y | None \<Rightarrow> first_some f ys)"
proof (induction xs)
  case (Cons x xs)
  then show ?case by (cases "f x") simp_all
qed simp

lemma find_Some_D: "List.find P xs = Some x \<Longrightarrow> P x \<and> x \<in> set xs"
  by (induction xs) (auto split: if_splits)

section \<open>Rounding\<close>

text \<open>Python's \<open>round\<close>: to the nearest integer, halves to the even one.\<close>

definition py_round :: "real \<Rightarrow> int" where
  "py_round x =
     (let f = \<lfloor>x\<rfloor>; r = x - of_int f
      in if r < 1 / 2 then f else if 1 / 2 < r then f + 1 else if even f then f else f + 1)"

lemma py_round_bounds: "of_int (py_round x) - 1 / 2 \<le> x \<and> x \<le> of_int (py_round x) + 1 / 2"
  by (auto simp: py_round_def Let_def; linarith)

lemma py_round_int [simp]: "py_round (of_int n) = n"
  by (simp add: py_round_def)

lemma py_round_mono: "x \<le> y \<Longrightarrow> py_round x \<le> py_round y"
proof (rule ccontr)
  assume xy: "x \<le> y" and "\<not> py_round x \<le> py_round y"
  then have less: "py_round y + 1 \<le> py_round x" by simp
  have bx: "of_int (py_round x) - 1 / 2 \<le> x" and "y \<le> of_int (py_round y) + 1 / 2"
    using py_round_bounds by blast+
  moreover have "real_of_int (py_round y) + 1 \<le> of_int (py_round x)" using less by linarith
  ultimately have "x = y" using xy by linarith
  with less show False by simp
qed

lemma py_round_le: "x \<le> of_int n \<Longrightarrow> py_round x \<le> n"
  using py_round_mono [of x "of_int n"] by simp

text \<open>Python's \<open>int(x)\<close> on a float: towards zero.\<close>

definition float_int :: "real \<Rightarrow> int" where
  "float_int x = (if 0 \<le> x then \<lfloor>x\<rfloor> else \<lceil>x\<rceil>)"

lemma float_int_mono: "x \<le> y \<Longrightarrow> float_int x \<le> float_int y"
  unfolding float_int_def by (auto simp: floor_mono ceiling_mono) (metis ceiling_le_zero le_floor_iff
    linear of_int_0 order_trans)

section \<open>Insertion-ordered dictionaries\<close>

type_synonym ('k, 'v) dict = "('k \<times> 'v) list"

definition dget :: "('k, 'v) dict \<Rightarrow> 'k \<Rightarrow> 'v option" where
  "dget d k = map_of d k"

text \<open>\<open>d[k] = v\<close>: an existing key keeps its position, a new key goes to the end.\<close>

fun dset :: "'k \<Rightarrow> 'v \<Rightarrow> ('k, 'v) dict \<Rightarrow> ('k, 'v) dict" where
  "dset k v [] = [(k, v)]"
| "dset k v ((k', v') # d) = (if k' = k then (k, v) # d else (k', v') # dset k v d)"

text \<open>\<open>d.pop(k, None)\<close> and \<open>del d[k]\<close> for a present key.\<close>

definition ddel :: "'k \<Rightarrow> ('k, 'v) dict \<Rightarrow> ('k, 'v) dict" where
  "ddel k d = filter (\<lambda>(k', v). k' \<noteq> k) d"

text \<open>\<open>d.setdefault(k, v)\<close>, for its effect on the dictionary.\<close>

definition dsetdefault :: "'k \<Rightarrow> 'v \<Rightarrow> ('k, 'v) dict \<Rightarrow> ('k, 'v) dict" where
  "dsetdefault k v d = (case dget d k of None \<Rightarrow> dset k v d | Some _ \<Rightarrow> d)"

text \<open>\<open>OrderedDict.move_to_end(k)\<close>.\<close>

definition dmove_to_end :: "'k \<Rightarrow> ('k, 'v) dict \<Rightarrow> ('k, 'v) dict" where
  "dmove_to_end k d = (case dget d k of None \<Rightarrow> d | Some v \<Rightarrow> ddel k d @ [(k, v)])"

definition dkeys :: "('k, 'v) dict \<Rightarrow> 'k list" where
  "dkeys d = map fst d"

definition dwf :: "('k, 'v) dict \<Rightarrow> bool" where
  "dwf d \<longleftrightarrow> distinct (dkeys d)"

lemma dget_Nil [simp, dict_simps]: "dget [] k = None"
  by (simp add: dget_def)

lemma dget_Cons [dict_simps]: "dget ((k', v) # d) k = (if k' = k then Some v else dget d k)"
  by (simp add: dget_def)

lemma dget_dset [simp, dict_simps]: "dget (dset k v d) k' = (if k' = k then Some v else dget d k')"
  by (induction k v d rule: dset.induct) (auto simp: dget_Cons)

lemma dget_ddel [simp, dict_simps]: "dget (ddel k d) k' = (if k' = k then None else dget d k')"
  by (induction d) (auto simp: ddel_def dget_Cons)

lemma dget_None_iff: "dget d k = None \<longleftrightarrow> k \<notin> set (dkeys d)"
  by (simp add: dget_def dkeys_def map_of_eq_None_iff)

lemma dget_Some_in: "dget d k = Some v \<Longrightarrow> (k, v) \<in> set d"
  by (simp add: dget_def map_of_SomeD)

lemma dget_in_dwf: "dwf d \<Longrightarrow> (k, v) \<in> set d \<Longrightarrow> dget d k = Some v"
  by (simp add: dget_def dwf_def dkeys_def)

lemma dget_append [dict_simps]: "dget (d @ e) k = (case dget d k of Some v \<Rightarrow> Some v | None \<Rightarrow> dget e k)"
  by (induction d) (auto simp: dget_Cons)

lemma dget_dmove_to_end [simp, dict_simps]: "dget (dmove_to_end k d) k' = dget d k'"
  by (auto simp: dmove_to_end_def dget_append dget_Cons split: option.splits)

lemma dget_dsetdefault [simp, dict_simps]:
  "dget (dsetdefault k v d) k' = (if k' = k \<and> dget d k = None then Some v else dget d k')"
  by (auto simp: dsetdefault_def split: option.splits)

lemma set_dkeys_dset [simp, dict_simps]: "set (dkeys (dset k v d)) = insert k (set (dkeys d))"
  by (induction k v d rule: dset.induct) (auto simp: dkeys_def)

lemma dkeys_dset_present: "k \<in> set (dkeys d) \<Longrightarrow> dkeys (dset k v d) = dkeys d"
  by (induction k v d rule: dset.induct) (auto simp: dkeys_def)

lemma dset_absent: "k \<notin> set (dkeys d) \<Longrightarrow> dset k v d = d @ [(k, v)]"
  by (induction k v d rule: dset.induct) (auto simp: dkeys_def)

lemma dkeys_ddel: "dkeys (ddel k d) = filter (\<lambda>k'. k' \<noteq> k) (dkeys d)"
  by (induction d) (auto simp: dkeys_def ddel_def)

lemma dwf_Nil [simp]: "dwf []"
  by (simp add: dwf_def dkeys_def)

lemma dwf_dset [simp, intro]: "dwf d \<Longrightarrow> dwf (dset k v d)"
  by (cases "k \<in> set (dkeys d)") (simp_all add: dwf_def dkeys_dset_present, simp add: dset_absent dkeys_def)

lemma dwf_ddel [simp, intro]: "dwf d \<Longrightarrow> dwf (ddel k d)"
  by (simp add: dwf_def dkeys_ddel)

lemma dwf_dmove_to_end [simp, intro]: "dwf d \<Longrightarrow> dwf (dmove_to_end k d)"
  by (auto simp: dwf_def dmove_to_end_def dkeys_ddel split: option.splits)
    (auto simp: dkeys_def ddel_def distinct_map_filter)

lemma dwf_dsetdefault [simp, intro]: "dwf d \<Longrightarrow> dwf (dsetdefault k v d)"
  by (auto simp: dsetdefault_def split: option.splits)

lemma dwf_filter [intro]: "dwf d \<Longrightarrow> dwf (filter P d)"
  by (simp add: dwf_def dkeys_def distinct_map_filter)

lemma length_dset: "length (dset k v d) = (if k \<in> set (dkeys d) then length d else Suc (length d))"
  by (induction k v d rule: dset.induct) (auto simp: dkeys_def)

lemma ddel_absent: "k \<notin> set (dkeys d) \<Longrightarrow> ddel k d = d"
  by (induction d) (auto simp: ddel_def dkeys_def)

lemma set_dset_subset: "set (dset k v d) \<subseteq> insert (k, v) (set d)"
  by (induction k v d rule: dset.induct) auto

lemma ddel_dset [simp, dict_simps]: "ddel k (dset k v d) = ddel k d"
  by (induction k v d rule: dset.induct) (auto simp: ddel_def)

lemma length_ddel: "dwf d \<Longrightarrow> k \<in> set (dkeys d) \<Longrightarrow> Suc (length (ddel k d)) = length d"
proof (induction d)
  case (Cons x d)
  show ?case
  proof (cases "fst x = k")
    case True
    with Cons.prems have "k \<notin> set (dkeys d)" by (auto simp: dwf_def dkeys_def)
    then have "ddel k d = d" by (rule ddel_absent)
    with True show ?thesis by (simp add: ddel_def case_prod_unfold)
  next
    case False
    with Cons show ?thesis by (auto simp: ddel_def case_prod_unfold dwf_def dkeys_def)
  qed
qed (simp add: dkeys_def)

lemma length_dmove_to_end [simp]:
  assumes "dwf d" shows "length (dmove_to_end k d) = length d"
proof (cases "dget d k")
  case (Some v)
  then have "k \<in> set (dkeys d)" by (metis dget_None_iff option.distinct(1))
  with assms Some show ?thesis by (simp add: dmove_to_end_def length_ddel)
qed (simp add: dmove_to_end_def)

subsection \<open>Grouping\<close>

text \<open>\<open>d.setdefault(k, []).append(v)\<close>, and the loop that groups a list by a key.\<close>

definition dappend :: "'k \<Rightarrow> 'v \<Rightarrow> ('k, 'v list) dict \<Rightarrow> ('k, 'v list) dict" where
  "dappend k v d = dset k ((case dget d k of None \<Rightarrow> [] | Some l \<Rightarrow> l) @ [v]) d"

definition group_by :: "('a \<Rightarrow> 'k) \<Rightarrow> 'a list \<Rightarrow> ('k, 'a list) dict" where
  "group_by f xs = fold (\<lambda>x d. dappend (f x) x d) xs []"

lemma group_by_snoc: "group_by f (xs @ [x]) = dappend (f x) x (group_by f xs)"
  by (simp add: group_by_def)

lemma dwf_group_by [simp]: "dwf (group_by f xs)"
  by (induction xs rule: rev_induct) (simp_all add: group_by_snoc dappend_def, simp add: group_by_def)

lemma dkeys_group_by [simp]: "set (dkeys (group_by f xs)) = f ` set xs"
  by (induction xs rule: rev_induct) (simp_all add: group_by_snoc dappend_def, simp add: group_by_def dkeys_def)

lemma dget_group_by:
  "dget (group_by f xs) k = (if k \<in> f ` set xs then Some (filter (\<lambda>x. f x = k) xs) else None)"
proof (induction xs rule: rev_induct)
  case (snoc x xs)
  have "k \<notin> f ` set xs \<Longrightarrow> filter (\<lambda>x. f x = k) xs = []" by (auto simp: filter_empty_conv)
  with snoc show ?case by (auto simp: group_by_snoc dappend_def)
qed (simp add: group_by_def)

subsection \<open>The dictionary interface\<close>

text \<open>
  What the components rely on when they keep a table keyed by name: what a lookup returns after
  a store or a removal, and that both keep the table well formed. The two loops below are the
  code's: a \<open>setdefault\<close> loop (the first writer wins) and an assignment loop (the last wins).
\<close>

locale keyed_table =
  fixes lookup :: "'t \<Rightarrow> 'k \<Rightarrow> 'v option"
    and store :: "'k \<Rightarrow> 'v \<Rightarrow> 't \<Rightarrow> 't"
    and remove :: "'k \<Rightarrow> 't \<Rightarrow> 't"
    and wf :: "'t \<Rightarrow> bool"
  assumes lookup_store: "lookup (store k v t) k' = (if k' = k then Some v else lookup t k')"
    and lookup_remove: "lookup (remove k t) k' = (if k' = k then None else lookup t k')"
    and wf_store: "wf t \<Longrightarrow> wf (store k v t)"
    and wf_remove: "wf t \<Longrightarrow> wf (remove k t)"
begin

lemma store_store_lookup: "lookup (store k v (store k u t)) = lookup (store k v t)"
  by (rule ext) (simp add: lookup_store)

lemma remove_store_lookup: "lookup t k = None \<Longrightarrow> lookup (remove k (store k v t)) = lookup t"
  by (rule ext) (auto simp: lookup_store lookup_remove)

lemma setdefault_loop:
  "lookup (fold (\<lambda>(k, v) t. case lookup t k of None \<Rightarrow> store k v t | Some _ \<Rightarrow> t) kvs t) k' =
     (case lookup t k' of Some v \<Rightarrow> Some v | None \<Rightarrow> map_of kvs k')"
proof (induction kvs arbitrary: t)
  case (Cons kv kvs)
  obtain k v where kv: "kv = (k, v)" by force
  show ?case
    by (simp only: kv fold_simps split_conv comp_def id_apply Cons.IH)
      (auto simp: lookup_store split: option.splits)
qed (auto split: option.splits)

lemma assign_loop:
  "lookup (fold (\<lambda>(k, v) t. store k v t) kvs t) k' =
     (case map_of (rev kvs) k' of Some v \<Rightarrow> Some v | None \<Rightarrow> lookup t k')"
proof (induction kvs arbitrary: t)
  case (Cons kv kvs)
  obtain k v where kv: "kv = (k, v)" by force
  show ?case
    by (simp only: kv fold_simps split_conv comp_def id_apply Cons.IH)
      (auto simp: lookup_store map_add_def split: option.splits)
qed simp

lemma wf_assign_loop: "wf t \<Longrightarrow> wf (fold (\<lambda>(k, v) t. store k v t) kvs t)"
  by (induction kvs arbitrary: t) (auto simp: wf_store split: prod.splits)

lemma remove_loop:
  "lookup (fold remove ks t) k' = (if k' \<in> set ks then None else lookup t k')"
  by (induction ks arbitrary: t) (auto simp: lookup_remove)

lemma wf_remove_loop: "wf t \<Longrightarrow> wf (fold remove ks t)"
  by (induction ks arbitrary: t) (auto simp: wf_remove)

end

interpretation od: keyed_table dget dset ddel dwf
  by unfold_locales auto

end
