(* ===== verification/Py_Net.thy ===== *)
theory Py_Net
  imports Soc_Prelude
begin

text \<open>
  The parts of Python's \<open>ipaddress\<close> and \<open>urllib.parse\<close> the program uses: the address
  grammar (dotted quads without leading zeros, IPv6 with one \<open>::\<close> and an optional IPv4
  tail or scope), the global/private/multicast tables, and \<open>urlsplit(url).hostname\<close>.
  An address is its integer; a \<open>ValueError\<close> is \<open>None\<close>.
\<close>

section \<open>Number parsing\<close>

definition digit_val :: "char \<Rightarrow> nat" where
  "digit_val c = code_of c - 48"

definition dec_val :: "str \<Rightarrow> nat" where
  "dec_val s = fold (\<lambda>c n. 10 * n + digit_val c) s 0"

text \<open>\<open>isdigit\<close>.\<close>

definition all_digits :: "str \<Rightarrow> bool" where
  "all_digits t \<longleftrightarrow> t \<noteq> [] \<and> list_all is_digit t"

text \<open>The decimal text of a number.\<close>

fun dec_digits :: "nat \<Rightarrow> str" where
  "dec_digits n = (if n < 10 then [char_of (48 + n)] else dec_digits (n div 10) @ [char_of (48 + n mod 10)])"

declare dec_digits.simps [simp del]

definition is_hex :: "char \<Rightarrow> bool" where
  "is_hex c \<longleftrightarrow> is_digit c \<or> (97 \<le> code_of c \<and> code_of c \<le> 102) \<or> (65 \<le> code_of c \<and> code_of c \<le> 70)"

definition hex_digit_val :: "char \<Rightarrow> nat" where
  "hex_digit_val c = (if is_digit c then code_of c - 48
     else if 97 \<le> code_of c then code_of c - 87 else code_of c - 55)"

definition hex_val :: "str \<Rightarrow> nat" where
  "hex_val s = fold (\<lambda>c n. 16 * n + hex_digit_val c) s 0"

section \<open>IPv4\<close>

definition parse_octet :: "str \<Rightarrow> nat option" where
  "parse_octet s =
     (if s = [] then None
      else if \<not> list_all is_digit s then None
      else if 3 < length s then None
      else if s \<noteq> ''0'' \<and> hd s = CHR ''0'' then None
      else if 255 < dec_val s then None
      else Some (dec_val s))"

definition parse_ipv4 :: "str \<Rightarrow> nat option" where
  "parse_ipv4 s =
     (if CHR ''/'' \<in> set s then None
      else case map parse_octet (split_on CHR ''.'' s) of
        [Some a, Some b, Some c, Some d] \<Rightarrow> Some (((a * 256 + b) * 256 + c) * 256 + d)
      | _ \<Rightarrow> None)"

section \<open>IPv6\<close>

definition parse_hextet :: "str \<Rightarrow> nat option" where
  "parse_hextet s = (if s = [] \<or> \<not> list_all is_hex s \<or> 4 < length s then None else Some (hex_val s))"

fun hextets :: "nat \<Rightarrow> str list \<Rightarrow> nat option" where
  "hextets acc [] = Some acc"
| "hextets acc (p # ps) = (case parse_hextet p of None \<Rightarrow> None | Some h \<Rightarrow> hextets (acc * 65536 + h) ps)"

text \<open>Indices of the empty parts strictly inside the list: where \<open>::\<close> stands.\<close>

definition skip_indices :: "str list \<Rightarrow> nat list" where
  "skip_indices ps = filter (\<lambda>i. ps ! i = []) [1..<length ps - 1]"

text \<open>
  \<open>_ip_int_from_string\<close> once an IPv4 tail has been replaced by its two 16-bit parts. A part
  that came from an IPv4 tail is given as its value, the others as text; here the tail's parts are
  appended as numbers, so \<open>tail\<close> is the list of already parsed last parts (empty or two).
\<close>

definition ipv6_of_parts :: "str list \<Rightarrow> nat list \<Rightarrow> nat option" where
  "ipv6_of_parts ps tail =
     (let n = length ps + length tail;
          skips = filter (\<lambda>i. i < length ps \<and> ps ! i = []) [1..<n - 1];
          push = (\<lambda>acc. fold (\<lambda>h a. a * 65536 + h) tail acc);
          last_empty = (tail = [] \<and> ps \<noteq> [] \<and> last ps = [])
      in if 9 < n then None
         else case skips of
           [] \<Rightarrow> (if n \<noteq> 8 \<or> (ps \<noteq> [] \<and> hd ps = []) \<or> last_empty then None
                  else map_option push (hextets 0 ps))
         | [k] \<Rightarrow>
             (let hi = (if hd ps = [] then k - 1 else k);
                  lo = (if last_empty then n - k - 2 else n - k - 1)
              in if hd ps = [] \<and> hi \<noteq> 0 then None
                 else if last_empty \<and> lo \<noteq> 0 then None
                 else if 8 \<le> hi + lo then None
                 else case hextets 0 (take hi ps) of
                   None \<Rightarrow> None
                 | Some h \<Rightarrow> map_option push
                     (hextets (h * 65536 ^ (8 - (hi + lo)))
                        (if lo = 0 then [] else drop (k + 1) ps)))
         | _ \<Rightarrow> None)"

definition parse_ipv6 :: "str \<Rightarrow> nat option" where
  "parse_ipv6 s =
     (if CHR ''/'' \<in> set s then None
      else case split_on CHR ''%'' s of
        [addr] \<Rightarrow>
          (let ps = split_on CHR '':'' addr
           in if length ps < 3 then None
              else if CHR ''.'' \<in> set (last ps)
                then (case parse_ipv4 (last ps) of
                        None \<Rightarrow> None
                      | Some v \<Rightarrow> ipv6_of_parts (butlast ps) [v div 65536, v mod 65536])
              else ipv6_of_parts ps [])
      | [addr, scope] \<Rightarrow>
          (let ps = split_on CHR '':'' addr
           in if scope = [] \<or> length ps < 3 then None
              else if CHR ''.'' \<in> set (last ps)
                then (case parse_ipv4 (last ps) of
                        None \<Rightarrow> None
                      | Some v \<Rightarrow> ipv6_of_parts (butlast ps) [v div 65536, v mod 65536])
              else ipv6_of_parts ps [])
      | _ \<Rightarrow> None)"

datatype ip = V4 nat | V6 nat

definition ip_address :: "str \<Rightarrow> ip option" where
  "ip_address s = (case parse_ipv4 s of Some v \<Rightarrow> Some (V4 v) | None \<Rightarrow> map_option V6 (parse_ipv6 s))"

section \<open>Address classes\<close>

text \<open>Membership of a \<open>w\<close>-bit address in \<open>base/len\<close>.\<close>

definition in_net :: "nat \<Rightarrow> nat \<Rightarrow> nat \<Rightarrow> nat \<Rightarrow> bool" where
  "in_net w base len a \<longleftrightarrow> a div 2 ^ (w - len) = base div 2 ^ (w - len)"

abbreviation quad :: "nat \<Rightarrow> nat \<Rightarrow> nat \<Rightarrow> nat \<Rightarrow> nat" where
  "quad a b c d \<equiv> ((a * 256 + b) * 256 + c) * 256 + d"

definition v4_private_nets :: "(nat \<times> nat) list" where
  "v4_private_nets =
     [(quad 0 0 0 0, 8), (quad 10 0 0 0, 8), (quad 127 0 0 0, 8), (quad 169 254 0 0, 16),
      (quad 172 16 0 0, 12), (quad 192 0 0 0, 24), (quad 192 0 0 170, 31), (quad 192 0 2 0, 24),
      (quad 192 168 0 0, 16), (quad 198 18 0 0, 15), (quad 198 51 100 0, 24),
      (quad 203 0 113 0, 24), (quad 240 0 0 0, 4), (quad 255 255 255 255, 32)]"

definition v4_private_exceptions :: "(nat \<times> nat) list" where
  "v4_private_exceptions = [(quad 192 0 0 9, 32), (quad 192 0 0 10, 32)]"

definition v4_is_private :: "nat \<Rightarrow> bool" where
  "v4_is_private a \<longleftrightarrow>
     list_ex (\<lambda>(b, l). in_net 32 b l a) v4_private_nets \<and>
     \<not> list_ex (\<lambda>(b, l). in_net 32 b l a) v4_private_exceptions"

definition v4_is_global :: "nat \<Rightarrow> bool" where
  "v4_is_global a \<longleftrightarrow> \<not> in_net 32 (quad 100 64 0 0) 10 a \<and> \<not> v4_is_private a"

definition v4_is_multicast :: "nat \<Rightarrow> bool" where
  "v4_is_multicast a \<longleftrightarrow> in_net 32 (quad 224 0 0 0) 4 a"

text \<open>An IPv6 network is given by its leading 16-bit groups; the rest is zero.\<close>

definition groups :: "nat list \<Rightarrow> nat" where
  "groups gs = fold (\<lambda>g a. a * 65536 + g) gs 0 * 65536 ^ (8 - length gs)"

definition v6_private_nets :: "(nat \<times> nat) list" where
  "v6_private_nets =
     [(1, 128), (0, 128), (0xffff * 2 ^ 32, 96), (groups [0x64, 0xff9b, 1], 48),
      (groups [0x100], 64), (groups [0x2001], 23), (groups [0x2001, 0xdb8], 32),
      (groups [0x2002], 16), (groups [0xfc00], 7), (groups [0xfe80], 10)]"

definition v6_private_exceptions :: "(nat \<times> nat) list" where
  "v6_private_exceptions =
     [(groups [0x2001, 1] + 1, 128), (groups [0x2001, 1] + 2, 128), (groups [0x2001, 3], 32),
      (groups [0x2001, 4, 0x112], 48), (groups [0x2001, 0x20], 28), (groups [0x2001, 0x30], 28)]"

definition v6_ipv4_mapped :: "nat \<Rightarrow> nat option" where
  "v6_ipv4_mapped a = (if a div 2 ^ 32 = 0xffff then Some (a mod 2 ^ 32) else None)"

definition v6_is_private :: "nat \<Rightarrow> bool" where
  "v6_is_private a \<longleftrightarrow>
     (case v6_ipv4_mapped a of
        Some v \<Rightarrow> v4_is_private v
      | None \<Rightarrow>
          list_ex (\<lambda>(b, l). in_net 128 b l a) v6_private_nets \<and>
          \<not> list_ex (\<lambda>(b, l). in_net 128 b l a) v6_private_exceptions)"

definition v6_is_global :: "nat \<Rightarrow> bool" where
  "v6_is_global a \<longleftrightarrow> \<not> v6_is_private a"

definition v6_is_multicast :: "nat \<Rightarrow> bool" where
  "v6_is_multicast a \<longleftrightarrow> in_net 128 (groups [0xff00]) 8 a"

definition ip_is_global :: "ip \<Rightarrow> bool" where
  "ip_is_global x = (case x of V4 a \<Rightarrow> v4_is_global a | V6 a \<Rightarrow> v6_is_global a)"

definition ip_is_multicast :: "ip \<Rightarrow> bool" where
  "ip_is_multicast x = (case x of V4 a \<Rightarrow> v4_is_multicast a | V6 a \<Rightarrow> v6_is_multicast a)"

definition ip_is_private :: "ip \<Rightarrow> bool" where
  "ip_is_private x = (case x of V4 a \<Rightarrow> v4_is_private a | V6 a \<Rightarrow> v6_is_private a)"

definition v4_is_loopback :: "nat \<Rightarrow> bool" where
  "v4_is_loopback a \<longleftrightarrow> in_net 32 (quad 127 0 0 0) 8 a"

definition v4_is_link_local :: "nat \<Rightarrow> bool" where
  "v4_is_link_local a \<longleftrightarrow> in_net 32 (quad 169 254 0 0) 16 a"

definition ip_is_loopback :: "ip \<Rightarrow> bool" where
  "ip_is_loopback x = (case x of
     V4 a \<Rightarrow> v4_is_loopback a
   | V6 a \<Rightarrow> (case v6_ipv4_mapped a of Some v \<Rightarrow> v4_is_loopback v | None \<Rightarrow> a = 1))"

definition ip_is_link_local :: "ip \<Rightarrow> bool" where
  "ip_is_link_local x = (case x of
     V4 a \<Rightarrow> v4_is_link_local a
   | V6 a \<Rightarrow> (case v6_ipv4_mapped a of
       Some v \<Rightarrow> v4_is_link_local v | None \<Rightarrow> in_net 128 (groups [0xfe80]) 10 a))"

section \<open>The text of an address\<close>

definition hex_char :: "nat \<Rightarrow> char" where
  "hex_char n = (if n < 10 then char_of (48 + n) else char_of (87 + n))"

fun hex_digits :: "nat \<Rightarrow> str" where
  "hex_digits n = (if n < 16 then [hex_char n] else hex_digits (n div 16) @ [hex_char (n mod 16)])"

declare hex_digits.simps [simp del]

definition v4_text :: "nat \<Rightarrow> str" where
  "v4_text a = join_with CHR ''.'' (map (\<lambda>i. dec_digits (a div 256 ^ i mod 256)) [3, 2, 1, 0])"

text \<open>\<open>_compress_hextets\<close>: the first longest run of two or more zero groups becomes empty.\<close>

fun longest_zeros :: "nat \<Rightarrow> nat \<Rightarrow> nat \<Rightarrow> nat \<Rightarrow> str list \<Rightarrow> nat \<times> nat" where
  "longest_zeros i run bstart blen [] = (bstart, blen)"
| "longest_zeros i run bstart blen (h # hs) =
     (if h = ''0''
      then if blen < run + 1 then longest_zeros (i + 1) (run + 1) (i - run) (run + 1) hs
           else longest_zeros (i + 1) (run + 1) bstart blen hs
      else longest_zeros (i + 1) 0 bstart blen hs)"

definition compress_hextets :: "str list \<Rightarrow> str list" where
  "compress_hextets hs =
     (case longest_zeros 0 0 0 0 hs of (s, n) \<Rightarrow>
        if n \<le> 1 then hs
        else (if s = 0 then [[]] else []) @ take s hs @ [[]] @ drop (s + n) hs @
             (if s + n = length hs then [[]] else []))"

definition v6_text :: "nat \<Rightarrow> str" where
  "v6_text a = join_with CHR '':''
     (compress_hextets (map (\<lambda>i. hex_digits (a div 65536 ^ i mod 65536)) [7, 6, 5, 4, 3, 2, 1, 0]))"

text \<open>\<open>str(ip_network(f"{addr}/{bits}", strict=False))\<close>: the host bits are cleared.\<close>

definition network_text :: "ip \<Rightarrow> nat \<Rightarrow> str" where
  "network_text x bits =
     (case x of V4 a \<Rightarrow> v4_text (a div 2 ^ (32 - bits) * 2 ^ (32 - bits))
      | V6 a \<Rightarrow> v6_text (a div 2 ^ (128 - bits) * 2 ^ (128 - bits))) @ ''/'' @ dec_digits bits"

section \<open>\<open>urlsplit(url).hostname\<close>\<close>

definition is_c0_or_space :: "char \<Rightarrow> bool" where
  "is_c0_or_space c \<longleftrightarrow> code_of c \<le> 32"

definition scheme_char :: "char \<Rightarrow> bool" where
  "scheme_char c \<longleftrightarrow> is_alpha c \<or> is_digit c \<or> c \<in> {CHR ''+'', CHR ''-'', CHR ''.''}"

definition drop_scheme :: "str \<Rightarrow> str" where
  "drop_scheme u =
     (let s = before CHR '':'' u
      in if CHR '':'' \<in> set u \<and> s \<noteq> [] \<and> is_alpha (hd s) \<and> list_all scheme_char s
         then drop (length s + 1) u else u)"

definition after_last :: "char \<Rightarrow> str \<Rightarrow> str" where
  "after_last c s = last (split_on c s)"

definition after_first :: "char \<Rightarrow> str \<Rightarrow> str" where
  "after_first c s = drop 1 (dropWhile (\<lambda>x. x \<noteq> c) s)"

text \<open>\<open>_check_bracketed_host\<close>: an IPvFuture form or an IPv6 literal.\<close>

definition bracket_ok :: "str \<Rightarrow> bool" where
  "bracket_ok h =
     (if prefix ''v'' h
      then (let hx = takeWhile is_hex (tl h); r = dropWhile is_hex (tl h)
            in hx \<noteq> [] \<and> prefix ''.'' r \<and> 2 \<le> length r)
      else case ip_address h of Some (V6 _) \<Rightarrow> True | _ \<Rightarrow> False)"

datatype url_host = UrlError | NoHost | Host str

text \<open>The exception, an absent host, or the host in lower case (an IPv6 zone keeps its case).\<close>

definition url_hostname :: "str \<Rightarrow> url_host" where
  "url_hostname url =
     (let u = filter (\<lambda>c. code_of c \<notin> {9, 10, 13}) (lstrip_by is_c0_or_space url);
          r = drop_scheme u;
          netloc = (if prefix ''//'' r
                    then takeWhile (\<lambda>c. c \<notin> {CHR ''/'', CHR ''?'', CHR ''#''}) (drop 2 r) else []);
          ob = CHR ''['' \<in> set netloc; cb = CHR '']'' \<in> set netloc
      in if ob \<noteq> cb then UrlError
         else if ob \<and> \<not> bracket_ok (before CHR '']'' (after_first CHR ''['' netloc)) then UrlError
         else
           (let hi = after_last CHR ''@'' netloc;
                h = (if CHR ''['' \<in> set hi then before CHR '']'' (after_first CHR ''['' hi)
                     else before CHR '':'' hi)
            in if h = [] then NoHost
               else Host (lower (before CHR ''%'' h) @ dropWhile (\<lambda>c. c \<noteq> CHR ''%'') h)))"

section \<open>Facts\<close>

lemma dec_val_bound: "parse_octet s = Some v \<Longrightarrow> v \<le> 255"
  by (auto simp: parse_octet_def split: if_splits)

lemma parse_ipv4_bound: "parse_ipv4 s = Some v \<Longrightarrow> v < 2 ^ 32"
  by (auto simp: parse_ipv4_def split: if_splits list.splits option.splits dest!: dec_val_bound)

text \<open>A dotted quad never contains a colon, and an IPv6 literal always does.\<close>

lemma parse_ipv4_chars:
  assumes "parse_ipv4 s = Some v" shows "set s \<subseteq> {c. is_digit c} \<union> {CHR ''.''}"
proof -
  from assms obtain a b c d where
    pieces: "map parse_octet (split_on CHR ''.'' s) = [Some a, Some b, Some c, Some d]"
    by (auto simp: parse_ipv4_def split: if_splits list.splits option.splits)
  have "\<forall>p\<in>set (split_on CHR ''.'' s). parse_octet p \<noteq> None"
  proof
    fix p assume "p \<in> set (split_on CHR ''.'' s)"
    then have "parse_octet p \<in> set (map parse_octet (split_on CHR ''.'' s))" by auto
    then show "parse_octet p \<noteq> None" unfolding pieces by auto
  qed
  then have digits: "\<forall>p\<in>set (split_on CHR ''.'' s). set p \<subseteq> {c. is_digit c}"
    by (auto simp: parse_octet_def list_all_iff split: if_splits)
  have "set (join_with c ps) \<subseteq> (\<Union>p\<in>set ps. set p) \<union> {c}" for c and ps :: "str list"
    by (induction c ps rule: join_with.induct) auto
  from this [of "CHR ''.''" "split_on CHR ''.'' s"] digits show ?thesis by fastforce
qed

lemma length_split_on: "length (split_on c s) = Suc (count_list s c)"
  by (induction s) (auto split: list.splits)

lemma parse_ipv6_colon: "parse_ipv6 s = Some v \<Longrightarrow> CHR '':'' \<in> set s"
proof -
  assume a: "parse_ipv6 s = Some v"
  then obtain addr where addr: "addr \<in> set (split_on CHR ''%'' s)"
    and len: "\<not> length (split_on CHR '':'' addr) < 3"
    by (auto simp: parse_ipv6_def Let_def split: if_splits list.splits)
  from len have "CHR '':'' \<in> set addr"
    by (metis One_nat_def count_notin length_split_on numeral_3_eq_3 less_Suc_eq lessI)
  with addr set_split_on show ?thesis by blast
qed

lemma url_hostname_no_newline:
  assumes "url_hostname u = Host h" shows "CHR 0x0A \<notin> set h"
proof -
  let ?f = "filter (\<lambda>c. code_of c \<notin> {9, 10, 13}) (lstrip_by is_c0_or_space u)"
  let ?r = "drop_scheme ?f"
  let ?net = "if prefix ''//'' ?r then takeWhile (\<lambda>c. c \<notin> {CHR ''/'', CHR ''?'', CHR ''#''}) (drop 2 ?r) else []"
  let ?hi = "after_last CHR ''@'' ?net"
  let ?h = "if CHR ''['' \<in> set ?hi then before CHR '']'' (after_first CHR ''['' ?hi) else before CHR '':'' ?hi"
  have h: "h = lower (before CHR ''%'' ?h) @ dropWhile (\<lambda>c. c \<noteq> CHR ''%'') ?h"
    using assms by (simp add: url_hostname_def Let_def split: if_splits)
  have "CHR 0x0A \<notin> set ?f" by (auto simp: code_of_def)
  moreover have "set ?r \<subseteq> set ?f"
    by (auto simp: drop_scheme_def Let_def simp del: set_filter dest: in_set_dropD)
  moreover have "set ?net \<subseteq> set ?r" by (auto dest: set_takeWhileD in_set_dropD)
  moreover have "set ?hi \<subseteq> set ?net"
    unfolding after_last_def by (rule set_split_on [of _ "CHR ''@''"]) (rule last_in_set, rule split_on_not_Nil)
  moreover have "set (after_first c s) \<subseteq> set s" for c s
    by (auto simp: after_first_def dest: in_set_dropD set_dropWhileD)
  then have "set ?h \<subseteq> set ?hi" using set_before by (auto split: if_splits) blast+
  ultimately have "CHR 0x0A \<notin> set ?h" by blast
  then show ?thesis
    unfolding h using set_before [of "CHR ''%''" ?h] by (auto simp: newline_lower dest: set_dropWhileD)
qed

end
