(* ===== verification/Dns_Policy.thy ===== *)
theory Dns_Policy
  imports Py_Net
begin

text \<open>
  The blocking policy, \<open>homesoc/dnsfilter/policy.py\<close>: the suffix walk, the list-line parser,
  the overrides table, the policy object with its reloads, and \<open>decide\<close>.

  Stored time stamps are seconds since the epoch (the program writes them as fixed-width ISO text
  whose order is the order of the instants). The filesystem and the database are values: the
  record \<open>policy_env\<close> holds what a reload reads. \<open>None\<close> for a table is a
  \<open>sqlite3.Error\<close> while reading it.
\<close>

section \<open>Names and suffixes\<close>

definition RELOAD_CHECK_SECONDS :: real where "RELOAD_CHECK_SECONDS = 60"
definition STALE_LIST_DAYS :: real where "STALE_LIST_DAYS = 3"
definition MAX_LINE :: nat where "MAX_LINE = 253"

definition SKIP_HOSTS :: "str set" where
  "SKIP_HOSTS =
     {''localhost'', ''localhost.localdomain'', ''local'', ''broadcasthost'', ''ip6-localhost'',
      ''ip6-loopback'', ''ip6-localnet'', ''ip6-mcastprefix'', ''ip6-allnodes'', ''ip6-allrouters'',
      ''ip6-allhosts'', ''0.0.0.0''}"

definition NEVER_BLOCK_SUFFIXES :: "str set" where
  "NEVER_BLOCK_SUFFIXES =
     {''localhost'', ''local'', ''arpa'', ''home.arpa'', ''lan'', ''home'', ''internal'',
      ''localdomain'', ''intranet'', ''corp'', ''private''}"

record decision =
  action :: str
  reason :: str
  matched :: "str option"

definition blocked_decision :: "decision \<Rightarrow> bool" where
  "blocked_decision d \<longleftrightarrow> action d = ''block''"

definition normalize_name :: "str \<Rightarrow> str" where
  "normalize_name name = lower (rstrip_by (\<lambda>c. c = CHR ''.'') (strip name))"

definition iter_suffixes :: "str \<Rightarrow> str list" where
  "iter_suffixes name =
     (let labels = split_on CHR ''.'' name
      in map (\<lambda>i. join_with CHR ''.'' (drop i labels)) [0..<length labels])"

text \<open>The domain grammar (\<open>_DOMAIN_RE\<close>): two or more labels, at most 253 characters.\<close>

definition label_edge :: "char \<Rightarrow> bool" where
  "label_edge c \<longleftrightarrow> is_lower c \<or> is_digit c \<or> c = CHR ''_''"

definition label_inner :: "char \<Rightarrow> bool" where
  "label_inner c \<longleftrightarrow> label_edge c \<or> c = CHR ''-''"

definition label_ok :: "nat \<Rightarrow> str \<Rightarrow> bool" where
  "label_ok n l \<longleftrightarrow> l \<noteq> [] \<and> length l \<le> n \<and> label_edge (hd l) \<and> label_edge (last l) \<and> list_all label_inner l"

definition domain_full :: "str \<Rightarrow> bool" where
  "domain_full s \<longleftrightarrow>
     1 \<le> length s \<and> length s \<le> 253 \<and>
     2 \<le> length (split_on CHR ''.'' s) \<and> list_all (label_ok 64) (split_on CHR ''.'' s)"

definition DOMAIN_RE :: "str \<Rightarrow> bool" where
  "DOMAIN_RE s = re_dollar domain_full s"

definition looks_like_ip :: "str \<Rightarrow> bool" where
  "looks_like_ip token \<longleftrightarrow> ip_address token \<noteq> None"

section \<open>List parsing\<close>

text \<open>The four ways a line names a domain; \<open>None\<close> is an early return.\<close>

definition list_line_body :: "str \<Rightarrow> str option" where
  "list_line_body s =
     (if prefix ''||'' s
      then Some (fold before [CHR ''^'', CHR ''/'', CHR ''$'', CHR ''|''] (drop 2 s))
      else if sublist ''://'' s
      then (case url_hostname s of UrlError \<Rightarrow> None | NoHost \<Rightarrow> Some [] | Host h \<Rightarrow> Some h)
      else (case split_ws s of
              p0 # p1 # _ \<Rightarrow> if looks_like_ip p0 then Some p1 else None
            | _ \<Rightarrow> Some s))"

definition parse_list_line :: "str \<Rightarrow> str option" where
  "parse_list_line line =
     (let s = strip line
      in if s = [] \<or> 2048 < length s then None
         else if hd s \<in> {CHR ''#'', CHR ''!'', CHR '';'', CHR ''[''} then None
         else let s = (if CHR ''#'' \<in> set s then strip (before CHR ''#'' s) else s)
      in if s = [] then None
         else if prefix ''@@'' s then None
         else case list_line_body s of None \<Rightarrow> None | Some s \<Rightarrow>
           (let s = (if prefix ''*.'' s then drop 2 s else s);
                s = (if prefix ''.'' s then drop 1 s else s);
                s = lower (rstrip_by (\<lambda>c. c = CHR ''.'') s)
            in if s = [] \<or> MAX_LINE < length s \<or> s \<in> SKIP_HOSTS then None
               else if CHR '':'' \<in> set s \<or> looks_like_ip s then None
               else if \<not> DOMAIN_RE s then None
               else Some s))"

text \<open>A set of domains, as the list of its members in order of first appearance.\<close>

fun collect_lines :: "str list \<Rightarrow> str list \<Rightarrow> str list" where
  "collect_lines out [] = out"
| "collect_lines out (line # lines) =
     (case parse_list_line line of
        Some d \<Rightarrow> collect_lines (if d \<in> set out then out else out @ [d]) lines
      | None \<Rightarrow> collect_lines out lines)"

definition parse_list_text :: "str \<Rightarrow> str list" where
  "parse_list_text text = collect_lines [] (splitlines text)"

section \<open>Locating and loading list files\<close>

text \<open>
  What the filesystem and the feeds package answer during a reload. \<open>registry\<close> is the set of
  known feeds (\<open>None\<close>: the registry cannot be imported); \<open>feed_path\<close> is the updater's
  path for a feed (\<open>None\<close>: it raised); \<open>stat_mtime p = None\<close> is an \<open>OSError\<close>.
\<close>

record list_fs =
  registry :: "str set option"
  feed_path :: "str \<Rightarrow> str option"
  feeds_dir :: str
  is_file :: "str \<Rightarrow> bool"
  resolves_within :: "str \<Rightarrow> str \<Rightarrow> bool"
  parent_of :: "str \<Rightarrow> str"
  stat_mtime :: "str \<Rightarrow> real option"
  file_size :: "str \<Rightarrow> nat"
  file_lines :: "str \<Rightarrow> str list option"

definition LIST_NAME_RE :: "str \<Rightarrow> bool" where
  "LIST_NAME_RE = re_dollar (\<lambda>s. 1 \<le> length s \<and> length s \<le> 64 \<and>
     (is_lower (hd s) \<or> is_digit (hd s)) \<and>
     list_all (\<lambda>c. is_lower c \<or> is_digit c \<or> c = CHR ''_'' \<or> c = CHR ''-'') (tl s))"

definition valid_list_name :: "list_fs \<Rightarrow> str \<Rightarrow> str option \<Rightarrow> bool" where
  "valid_list_name fs name list_dir =
     (if \<not> LIST_NAME_RE name then False
      else if list_dir \<noteq> None then True
      else case registry fs of None \<Rightarrow> True | Some feeds \<Rightarrow> name \<in> feeds)"

definition join_path :: "str \<Rightarrow> str \<Rightarrow> str" where
  "join_path base name = base @ ''/'' @ name"

definition find_list_file :: "list_fs \<Rightarrow> str \<Rightarrow> str option \<Rightarrow> str option" where
  "find_list_file fs name list_dir =
     (if \<not> valid_list_name fs name list_dir then None
      else
        (let from_feed =
               (if list_dir = None
                then (case feed_path fs name of
                        Some p \<Rightarrow> if is_file fs p \<and> resolves_within fs p (parent_of fs p) then Some p else None
                      | None \<Rightarrow> None)
                else None);
             base = (case list_dir of Some d \<Rightarrow> d | None \<Rightarrow> feeds_dir fs)
         in case from_feed of
              Some p \<Rightarrow> Some p
            | None \<Rightarrow>
                List.find (\<lambda>c. is_file fs c \<and> resolves_within fs c base)
                  [join_path base name, join_path base (name @ ''.txt''),
                   join_path base (name @ ''.list''), join_path base (name @ ''.hosts'')]))"

datatype list_error = InvalidName | FileNotFound | LoadFailed

definition MAX_LIST_BYTES :: nat where "MAX_LIST_BYTES = 256 * 1024 * 1024"

definition load_list_file :: "list_fs \<Rightarrow> str \<Rightarrow> list_error + str list" where
  "load_list_file fs path =
     (if MAX_LIST_BYTES < file_size fs path then Inl LoadFailed
      else case file_lines fs path of
        None \<Rightarrow> Inl LoadFailed
      | Some lines \<Rightarrow> Inr (collect_lines [] lines))"

section \<open>The overrides table\<close>

type_synonym stamp = int

record override_row =
  ov_domain :: str
  ov_action :: str
  ov_note :: "str option"
  ov_created_at :: stamp

datatype override_error = BadAction | BadDomain

fun upsert_override :: "override_row \<Rightarrow> override_row list \<Rightarrow> override_row list" where
  "upsert_override r [] = [r]"
| "upsert_override r (q # qs) =
     (if ov_domain q = ov_domain r then r # qs else q # upsert_override r qs)"

definition add_override ::
  "override_row list \<Rightarrow> str \<Rightarrow> str \<Rightarrow> str option \<Rightarrow> stamp \<Rightarrow> override_error + (str \<times> override_row list)" where
  "add_override tab domain act note now =
     (let d = normalize_name domain
      in if act \<notin> {''allow'', ''deny''} then Inl BadAction
         else if d = [] \<or> (d \<noteq> ''localhost'' \<and> \<not> DOMAIN_RE d) then Inl BadDomain
         else Inr (d, upsert_override
                \<lparr>ov_domain = d, ov_action = act, ov_note = note, ov_created_at = now\<rparr> tab))"

definition remove_override :: "override_row list \<Rightarrow> str \<Rightarrow> bool \<times> override_row list" where
  "remove_override tab domain =
     (let d = normalize_name domain
      in (\<exists>r\<in>set tab. ov_domain r = d, filter (\<lambda>r. ov_domain r \<noteq> d) tab))"

definition list_overrides :: "override_row list \<Rightarrow> override_row list" where
  "list_overrides tab = sort_key (\<lambda>r. - ov_created_at r) (sort_key ov_domain tab)"

section \<open>The policy object\<close>

record list_status =
  ls_path :: "str option"
  ls_entries :: nat
  ls_mtime :: "real option"
  ls_loaded :: bool
  ls_error :: "list_error option"

definition fresh_status :: list_status where
  "fresh_status = \<lparr>ls_path = None, ls_entries = 0, ls_mtime = None, ls_loaded = False, ls_error = None\<rparr>"

record policy =
  list_names :: "str list"
  never_block :: "str set"
  min_malicious_votes :: int
  reputation_ttl_hours :: real
  list_dir :: "str option"
  blocked :: "(str, str) dict"
  overrides :: "(str, str) dict"
  override_sig :: "(nat \<times> stamp option) option"
  malicious :: "str set"
  lists :: "(str, list_status) dict"
  last_check :: real
  loaded_at :: "real option"

definition new_policy :: "str list \<Rightarrow> str list \<Rightarrow> int \<Rightarrow> real \<Rightarrow> str option \<Rightarrow> policy" where
  "new_policy names never votes ttl dir =
     (let ns = filter (\<lambda>n. n \<noteq> []) names
      in \<lparr>list_names = ns,
          never_block = NEVER_BLOCK_SUFFIXES \<union> normalize_name ` set (filter (\<lambda>n. n \<noteq> []) never),
          min_malicious_votes = max 1 votes, reputation_ttl_hours = ttl, list_dir = dir,
          blocked = [], overrides = [], override_sig = None, malicious = {},
          lists = fold (\<lambda>n d. dset n fresh_status d) ns [],
          last_check = 0, loaded_at = None\<rparr>)"

text \<open>The override loop of \<open>decide\<close>: an allow wins at once, the first deny is remembered.\<close>

fun scan_overrides :: "(str, str) dict \<Rightarrow> str option \<Rightarrow> str list \<Rightarrow> decision option" where
  "scan_overrides ov deny_hit [] =
     map_option (\<lambda>s. \<lparr>action = ''block'', reason = ''override:deny'', matched = Some s\<rparr>) deny_hit"
| "scan_overrides ov deny_hit (s # ss) =
     (let act = dget ov s
      in if act = Some ''allow''
         then Some \<lparr>action = ''allow'', reason = ''override:allow'', matched = Some s\<rparr>
         else scan_overrides ov
                (if act = Some ''deny'' \<and> deny_hit = None then Some s else deny_hit) ss)"

definition allow_default :: decision where
  "allow_default = \<lparr>action = ''allow'', reason = ''default'', matched = None\<rparr>"

definition decide :: "policy \<Rightarrow> str \<Rightarrow> decision" where
  "decide p qname =
     (let name = normalize_name qname
      in if name = [] then allow_default
         else case (if overrides p = [] then None else scan_overrides (overrides p) None (iter_suffixes name)) of
           Some d \<Rightarrow> d
         | None \<Rightarrow>
         (case first_some (\<lambda>s. if s \<in> never_block p then Some s else None) (iter_suffixes name) of
           Some s \<Rightarrow> \<lparr>action = ''allow'', reason = ''never_block'', matched = Some s\<rparr>
         | None \<Rightarrow>
         (case first_some (\<lambda>s. map_option (Pair s) (dget (blocked p) s)) (iter_suffixes name) of
           Some (s, src) \<Rightarrow> \<lparr>action = ''block'', reason = ''list:'' @ src, matched = Some s\<rparr>
         | None \<Rightarrow>
         (case first_some (\<lambda>s. if s \<in> malicious p then Some s else None) (iter_suffixes name) of
           Some s \<Rightarrow> \<lparr>action = ''block'', reason = ''reputation'', matched = Some s\<rparr>
         | None \<Rightarrow> allow_default))))"

definition is_never_block :: "policy \<Rightarrow> str \<Rightarrow> bool" where
  "is_never_block p qname = list_ex (\<lambda>s. s \<in> never_block p) (iter_suffixes (normalize_name qname))"

section \<open>Reloading\<close>

record reputation_row =
  rr_domain :: str
  rr_verdict :: str
  rr_malicious :: int
  rr_checked_at :: stamp

text \<open>What a reload reads: the files and, with a connection, the two tables and the clock.\<close>

record policy_env =
  env_fs :: list_fs
  env_conn :: bool
  env_overrides :: "override_row list option"
  env_reputation :: "reputation_row list option"
  env_utcnow :: real

definition locate :: "list_fs \<Rightarrow> policy \<Rightarrow> str \<Rightarrow> str option \<times> real option" where
  "locate fs p name =
     (case find_list_file fs name (list_dir p) of
        None \<Rightarrow> (None, None)
      | Some path \<Rightarrow> (case stat_mtime fs path of None \<Rightarrow> (None, None) | Some m \<Rightarrow> (Some path, Some m)))"

definition status_of :: "policy \<Rightarrow> str \<Rightarrow> list_status" where
  "status_of p name = (case dget (lists p) name of Some st \<Rightarrow> st | None \<Rightarrow> fresh_status)"

definition list_changed :: "list_fs \<Rightarrow> policy \<Rightarrow> str \<Rightarrow> bool" where
  "list_changed fs p name =
     (let (path, mtime) = locate fs p name; st = status_of p name
      in path \<noteq> ls_path st \<or> mtime \<noteq> ls_mtime st \<or> (path \<noteq> None \<and> \<not> ls_loaded st))"

text \<open>One list of the merge loop: its new status and what it adds to the merged dictionary.\<close>

definition merge_list ::
  "list_fs \<Rightarrow> policy \<Rightarrow> str \<Rightarrow> (str, str) dict \<times> (str, list_status) dict \<Rightarrow> (str, str) dict \<times> (str, list_status) dict" where
  "merge_list fs p name acc =
     (let (merged, sts) = acc;
          (path, mtime) = locate fs p name
      in case path of
           None \<Rightarrow>
             (merged, dset name \<lparr>ls_path = None, ls_entries = 0, ls_mtime = mtime, ls_loaded = False,
                ls_error = Some (if valid_list_name fs name (list_dir p) then FileNotFound else InvalidName)\<rparr> sts)
         | Some f \<Rightarrow>
             (case load_list_file fs f of
                Inl e \<Rightarrow>
                  (merged, dset name \<lparr>ls_path = path, ls_entries = 0, ls_mtime = mtime,
                     ls_loaded = False, ls_error = Some e\<rparr> sts)
              | Inr entries \<Rightarrow>
                  (fold (\<lambda>(d, n) m. case dget m d of None \<Rightarrow> dset d n m | Some _ \<Rightarrow> m)
                     (map (\<lambda>d. (d, name)) entries) merged,
                   dset name \<lparr>ls_path = path, ls_entries = length entries, ls_mtime = mtime,
                     ls_loaded = True, ls_error = None\<rparr> sts)))"

definition reload_lists :: "list_fs \<Rightarrow> bool \<Rightarrow> policy \<Rightarrow> bool \<times> policy" where
  "reload_lists fs force p =
     (if \<not> (force \<or> list_ex (list_changed fs p) (list_names p)) then (False, p)
      else (let (merged, sts) = fold (merge_list fs p) (list_names p) ([], lists p)
            in (True, p\<lparr>blocked := merged, lists := sts\<rparr>)))"

definition override_dict :: "override_row list \<Rightarrow> (str, str) dict" where
  "override_dict rows =
     fold (\<lambda>(k, v) d. dset k v d)
       (map (\<lambda>r. (normalize_name (ov_domain r), ov_action r))
          (filter (\<lambda>r. ov_action r \<in> {''allow'', ''deny''}) rows)) []"

definition reload_overrides_table :: "policy_env \<Rightarrow> policy \<Rightarrow> policy" where
  "reload_overrides_table env p =
     (if \<not> env_conn env then p
      else case env_overrides env of None \<Rightarrow> p | Some rows \<Rightarrow> p\<lparr>overrides := override_dict rows\<rparr>)"

definition overrides_signature :: "policy_env \<Rightarrow> (nat \<times> stamp option) option" where
  "overrides_signature env =
     (if \<not> env_conn env then None
      else case env_overrides env of
        None \<Rightarrow> None
      | Some rows \<Rightarrow>
          Some (length rows, if rows = [] then None else Some (Max (set (map ov_created_at rows)))))"

definition reload_overrides :: "policy_env \<Rightarrow> policy \<Rightarrow> policy" where
  "reload_overrides env p = (reload_overrides_table env p)\<lparr>override_sig := overrides_signature env\<rparr>"

definition refresh_overrides_if_changed :: "policy_env \<Rightarrow> policy \<Rightarrow> bool \<times> policy" where
  "refresh_overrides_if_changed env p =
     (let sig = overrides_signature env
      in if sig = override_sig p then (False, p)
         else (True, reload_overrides_table env (p\<lparr>override_sig := sig\<rparr>)))"

definition reload_reputation :: "policy_env \<Rightarrow> policy \<Rightarrow> policy" where
  "reload_reputation env p =
     (if \<not> env_conn env then p
      else case env_reputation env of
        None \<Rightarrow> p
      | Some rows \<Rightarrow>
          (let cutoff = \<lfloor>env_utcnow env - reputation_ttl_hours p * 3600\<rfloor>
           in p\<lparr>malicious := set (map (\<lambda>r. normalize_name (rr_domain r))
                (filter (\<lambda>r. rr_verdict r = ''malicious'' \<and> min_malicious_votes p \<le> rr_malicious r \<and>
                   cutoff \<le> rr_checked_at r) rows))\<rparr>))"

text \<open>\<open>reload\<close>; \<open>busy\<close> says that another thread holds the reload lock.\<close>

definition reload :: "policy_env \<Rightarrow> bool \<Rightarrow> bool \<Rightarrow> real \<Rightarrow> policy \<Rightarrow> bool \<times> policy" where
  "reload env busy force now p =
     (if busy then (False, p)
      else
        (let (changed, p) = reload_lists (env_fs env) force (p\<lparr>last_check := now\<rparr>);
             p = reload_overrides_table env p;
             p = p\<lparr>override_sig := overrides_signature env\<rparr>;
             p = reload_reputation env p
         in (changed, if changed then p\<lparr>loaded_at := Some now\<rparr> else p)))"

definition maybe_reload :: "policy_env \<Rightarrow> bool \<Rightarrow> bool \<Rightarrow> real \<Rightarrow> policy \<Rightarrow> bool \<times> policy" where
  "maybe_reload env busy force now p =
     (if \<not> force \<and> now - last_check p < RELOAD_CHECK_SECONDS then (False, p)
      else reload env busy force now p)"

definition mark_malicious :: "policy \<Rightarrow> str \<Rightarrow> policy" where
  "mark_malicious p domain = p\<lparr>malicious := insert (normalize_name domain) (malicious p)\<rparr>"

definition lists_loaded :: "policy \<Rightarrow> nat" where
  "lists_loaded p = length (filter (\<lambda>(n, s). ls_loaded s) (lists p))"

definition stale_lists :: "real \<Rightarrow> real \<Rightarrow> policy \<Rightarrow> str list" where
  "stale_lists max_age_days now p =
     map fst (filter (\<lambda>(n, s). case ls_mtime s of None \<Rightarrow> True | Some m \<Rightarrow> max_age_days * 86400 < now - m) (lists p))"

text \<open>
  \<open>Policy.load\<close>: the upstreams' host names join the never-block set, so a blocklist entry can
  never cut the resolver off from its own upstream.
\<close>

definition upstream_host :: "str \<Rightarrow> str" where
  "upstream_host u =
     (if count_list u CHR '':'' = 1 then before CHR '':'' u
      else rstrip_by (\<lambda>c. c \<in> {CHR ''['', CHR '']''}) (lstrip_by (\<lambda>c. c \<in> {CHR ''['', CHR '']''}) u))"

definition upstream_never :: "str list \<Rightarrow> str \<Rightarrow> str list" where
  "upstream_never upstreams doh =
     filter (\<lambda>h. h \<noteq> [] \<and> \<not> looks_like_ip h) (map upstream_host upstreams) @
     (if doh = [] then [] else case url_hostname doh of Host h \<Rightarrow> [h] | _ \<Rightarrow> [])"

definition load_policy ::
  "str list \<Rightarrow> str list \<Rightarrow> str \<Rightarrow> int \<Rightarrow> real \<Rightarrow> str option \<Rightarrow> policy_env \<Rightarrow> real \<Rightarrow> policy" where
  "load_policy names upstreams doh votes ttl dir env now =
     snd (reload env False True now
       (new_policy names (upstream_never upstreams doh)
          (if votes = 0 then 2 else votes) (if ttl = 0 then 72 else ttl) dir))"


section \<open>The suffix walk\<close>

text \<open>\<open>name\<close> is \<open>base\<close> itself or one of its subdomains: the relation all list entries are matched by.\<close>

definition within_domain :: "str \<Rightarrow> str \<Rightarrow> bool" where
  "within_domain name base \<longleftrightarrow> name = base \<or> suffix (CHR ''.'' # base) name"

lemma iter_suffixes_Nil: "iter_suffixes [] = [[]]"
  by (simp add: iter_suffixes_def)

lemma iter_suffixes_hd: "iter_suffixes n = n # tl (iter_suffixes n)"
proof -
  obtain m where "length (split_on CHR ''.'' n) = Suc m"
    by (metis length_split_on)
  then show ?thesis by (simp add: iter_suffixes_def Let_def upt_rec)
qed

lemma tl_iter_suffixes_Cons:
  "tl (iter_suffixes (x # xs)) = (if x = CHR ''.'' then iter_suffixes xs else tl (iter_suffixes xs))"
proof -
  obtain p ps where ps: "split_on CHR ''.'' xs = p # ps" by (cases "split_on CHR ''.'' xs") simp_all
  show ?thesis by (simp add: iter_suffixes_def Let_def ps map_upt_Suc del: upt_Suc)
qed

lemma set_tl_iter_suffixes: "set (tl (iter_suffixes n)) = {s. suffix (CHR ''.'' # s) n}"
proof (induction n)
  case (Cons x xs)
  have "set (iter_suffixes xs) = insert xs {s. suffix (CHR ''.'' # s) xs}"
    by (subst iter_suffixes_hd) (simp add: Cons.IH)
  with Cons.IH show ?case by (auto simp: tl_iter_suffixes_Cons suffix_Cons)
qed (simp add: iter_suffixes_Nil)

lemma set_iter_suffixes: "s \<in> set (iter_suffixes n) \<longleftrightarrow> within_domain n s"
  by (subst iter_suffixes_hd) (auto simp: set_tl_iter_suffixes within_domain_def)

lemma within_domain_refl [simp]: "within_domain n n"
  by (simp add: within_domain_def)

lemma within_domain_trans: "within_domain a b \<Longrightarrow> within_domain b c \<Longrightarrow> within_domain a c"
  unfolding within_domain_def
  by (metis suffix_ConsD suffix_order.order_trans)

lemma iter_suffixes_shrink: "sorted_wrt (\<lambda>a b. length b < length a) (iter_suffixes n)"
proof (induction n)
  case (Cons x xs)
  have tl: "sorted_wrt (\<lambda>a b. length b < length a) (tl (iter_suffixes xs))"
    using Cons.IH by (metis iter_suffixes_hd sorted_wrt.simps(2))
  have "\<forall>s\<in>set (tl (iter_suffixes (x # xs))). length s < length (x # xs)"
    by (auto simp: set_tl_iter_suffixes dest!: suffix_length_le)
  then show ?case
    by (subst iter_suffixes_hd) (simp add: tl_iter_suffixes_Cons Cons.IH tl)
qed (simp add: iter_suffixes_Nil)

section \<open>What \<open>decide\<close> computes\<close>

lemma scan_overrides_None:
  "scan_overrides ov h ss = None \<longleftrightarrow>
     h = None \<and> (\<forall>s\<in>set ss. dget ov s \<noteq> Some ''allow'' \<and> dget ov s \<noteq> Some ''deny'')"
  by (induction ov h ss rule: scan_overrides.induct) (auto simp: Let_def)

lemma scan_overrides_blocked:
  "scan_overrides ov h ss = Some d \<Longrightarrow>
     blocked_decision d \<longleftrightarrow> (\<forall>s\<in>set ss. dget ov s \<noteq> Some ''allow'')"
proof (induction ov h ss rule: scan_overrides.induct)
  case (2 ov h s ss)
  then show ?case
    by (cases "dget ov s = Some ''allow''") (auto simp: Let_def blocked_decision_def)
qed (auto simp: blocked_decision_def)

definition has_override :: "policy \<Rightarrow> str \<Rightarrow> str \<Rightarrow> bool" where
  "has_override p name act \<longleftrightarrow> (\<exists>s. within_domain name s \<and> dget (overrides p) s = Some act)"

definition listed :: "policy \<Rightarrow> str \<Rightarrow> bool" where
  "listed p name \<longleftrightarrow> (\<exists>s. within_domain name s \<and> (dget (blocked p) s \<noteq> None \<or> s \<in> malicious p))"

definition exempt :: "policy \<Rightarrow> str \<Rightarrow> bool" where
  "exempt p name \<longleftrightarrow> (\<exists>s. within_domain name s \<and> s \<in> never_block p)"

lemmas policy_hits = has_override_def listed_def exempt_def set_iter_suffixes

lemma override_scan_cases:
  assumes "r = (if overrides p = [] then None else scan_overrides (overrides p) None (iter_suffixes n))"
  shows "r = None \<longleftrightarrow> \<not> has_override p n ''allow'' \<and> \<not> has_override p n ''deny''"
    and "r = Some d \<Longrightarrow> blocked_decision d \<longleftrightarrow> \<not> has_override p n ''allow''"
    and "r = Some d \<Longrightarrow> has_override p n ''allow'' \<or> has_override p n ''deny''"
proof -
  show none: "r = None \<longleftrightarrow> \<not> has_override p n ''allow'' \<and> \<not> has_override p n ''deny''"
    using assms by (auto simp: scan_overrides_None policy_hits)
  show "r = Some d \<Longrightarrow> has_override p n ''allow'' \<or> has_override p n ''deny''"
    using none by force
  show "r = Some d \<Longrightarrow> blocked_decision d \<longleftrightarrow> \<not> has_override p n ''allow''"
    using assms by (auto simp: policy_hits scan_overrides_blocked split: if_splits)
qed

lemma decide_blocked:
  "blocked_decision (decide p q) \<longleftrightarrow>
     normalize_name q \<noteq> [] \<and> \<not> has_override p (normalize_name q) ''allow'' \<and>
     (has_override p (normalize_name q) ''deny'' \<or>
      (\<not> exempt p (normalize_name q) \<and> listed p (normalize_name q)))"
proof (cases "normalize_name q = []")
  case False
  define n where "n = normalize_name q"
  define r where "r = (if overrides p = [] then None else scan_overrides (overrides p) None (iter_suffixes n))"
  note ov = override_scan_cases [OF r_def]
  show ?thesis
  proof (cases r)
    case (Some d)
    then have "decide p q = d"
      using False by (simp add: decide_def Let_def flip: n_def r_def)
    with ov(2,3) [OF Some] False show ?thesis by (auto simp flip: n_def)
  next
    case None
    with ov(1) have no: "\<not> has_override p n ''allow''" "\<not> has_override p n ''deny''" by simp_all
    have "blocked_decision (decide p q) \<longleftrightarrow> \<not> exempt p n \<and> listed p n"
      using False None unfolding decide_def Let_def n_def [symmetric] r_def [symmetric]
      by (auto simp: policy_hits blocked_decision_def allow_default_def
          split: option.splits if_splits dest!: first_some_in)
    with no False show ?thesis by (simp flip: n_def)
  qed
qed (simp add: decide_def Let_def allow_default_def blocked_decision_def)

text \<open>
  C1. \<open>decide\<close> blocks a query exactly when its name is not empty, the owner has not allowed the
  name or a parent of it, and either the owner denied it, or it is outside the never-block set and
  one of its suffixes is on a blocklist or has a malicious verdict. So an allow beats every deny,
  even a more specific one, and the never-block set beats lists and reputation but not a deny.
\<close>

theorem decide_blocked_iff:
  "blocked_decision (decide p q) \<longleftrightarrow>
     normalize_name q \<noteq> [] \<and> \<not> has_override p (normalize_name q) ''allow'' \<and>
     (has_override p (normalize_name q) ''deny'' \<or>
      (\<not> exempt p (normalize_name q) \<and> listed p (normalize_name q)))"
  by (rule decide_blocked)

text \<open>A small policy used by the witnesses: one list, one allow and one deny override.\<close>

definition example_policy :: policy where
  "example_policy =
     (new_policy [''ads''] [''dns.example.net''] 2 72 None)
       \<lparr>blocked := [(''ads.example'', ''ads''), (''net'', ''ads'')],
        overrides := [(''ok.ads.example'', ''allow''), (''bad.org'', ''deny'')]\<rparr>"

theorem decide_blocked_iff_witness:
  "blocked_decision (decide example_policy ''X.Ads.Example.'') \<and>
   \<not> has_override example_policy ''x.ads.example'' ''allow''"
proof -
  have n: "normalize_name ''X.Ads.Example.'' = ''x.ads.example''" by code_simp
  have "blocked_decision (decide example_policy ''X.Ads.Example.'')" by code_simp
  with decide_blocked_iff [of example_policy "''X.Ads.Example.''"] show ?thesis
    by (simp add: n)
qed


section \<open>Reloads\<close>

text \<open>Which configured list a domain is attributed to: the first one whose file has it.\<close>

definition list_entries_of :: "list_fs \<Rightarrow> policy \<Rightarrow> str \<Rightarrow> str list" where
  "list_entries_of fs p name =
     (case fst (locate fs p name) of
        None \<Rightarrow> []
      | Some f \<Rightarrow> (case load_list_file fs f of Inl _ \<Rightarrow> [] | Inr es \<Rightarrow> es))"

lemma map_of_map_Pair: "map_of (map (\<lambda>d. (d, n)) es) d = (if d \<in> set es then Some n else None)"
  by (induction es) auto

lemma merge_list_lookup:
  "dget (fst (merge_list fs p n acc)) d =
     (case dget (fst acc) d of Some m \<Rightarrow> Some m
      | None \<Rightarrow> if d \<in> set (list_entries_of fs p n) then Some n else None)"
proof -
  obtain path mt where loc: "locate fs p n = (path, mt)" by force
  show ?thesis
    by (cases path; cases "load_list_file fs (the path)")
      (simp_all add: merge_list_def list_entries_of_def loc case_prod_unfold map_of_map_Pair
        od.setdefault_loop [unfolded case_prod_unfold] split: option.splits)
qed

lemma fold_merge_list_lookup:
  "dget (fst (fold (merge_list fs p) ns acc)) d =
     (case dget (fst acc) d of Some m \<Rightarrow> Some m
      | None \<Rightarrow> List.find (\<lambda>n. d \<in> set (list_entries_of fs p n)) ns)"
  by (induction ns arbitrary: acc) (auto simp: merge_list_lookup split: option.splits)

lemma reload_overrides_table_frame [simp]:
  "blocked (reload_overrides_table env p) = blocked p"
  "malicious (reload_overrides_table env p) = malicious p"
  "never_block (reload_overrides_table env p) = never_block p"
  by (auto simp: reload_overrides_table_def split: option.splits)

lemma reload_reputation_frame [simp]:
  "blocked (reload_reputation env p) = blocked p"
  "overrides (reload_reputation env p) = overrides p"
  "never_block (reload_reputation env p) = never_block p"
  by (auto simp: reload_reputation_def Let_def split: option.splits)

lemma locate_cong: "list_dir p = list_dir p' \<Longrightarrow> locate fs p = locate fs p'"
  by (rule ext) (simp add: locate_def)

lemma merge_list_last_check [simp]: "merge_list fs (p\<lparr>last_check := t\<rparr>) = merge_list fs p"
  by (intro ext) (simp add: merge_list_def locate_cong [of "p\<lparr>last_check := t\<rparr>" p])

text \<open>
  After a forced reload the blocklist dictionary attributes a domain to the first configured
  list whose located file loads and names it, and holds no other domain: later lists never
  overwrite an earlier attribution, and a list that is missing, invalid or unreadable adds nothing.
\<close>

theorem reload_attribution:
  "dget (blocked (snd (reload env False True now p))) d =
     List.find (\<lambda>n. d \<in> set (list_entries_of (env_fs env) p n)) (list_names p)"
  by (simp add: reload_def reload_lists_def case_prod_unfold Let_def fold_merge_list_lookup)

text \<open>
  A reload that finds no list file new, changed, removed or still unloaded leaves the
  blocklists and their status as they were: the periodic check never re-reads unchanged files.
\<close>

theorem reload_unchanged:
  assumes "\<not> list_ex (list_changed (env_fs env) p) (list_names p)"
  shows "fst (reload env busy False now p) = False \<and>
    blocked (snd (reload env busy False now p)) = blocked p \<and>
    lists (snd (reload env busy False now p)) = lists p"
proof -
  have "list_changed fs (p\<lparr>last_check := t\<rparr>) = list_changed fs p" for fs t
    by (rule ext) (simp add: list_changed_def status_of_def locate_cong [of "p\<lparr>last_check := t\<rparr>" p])
  with assms show ?thesis
    by (auto simp: reload_def reload_lists_def Let_def reload_overrides_table_def
        reload_reputation_def split: option.splits)
qed

definition empty_fs :: list_fs where
  "empty_fs = \<lparr>registry = Some {}, feed_path = (\<lambda>_. None), feeds_dir = ''feeds'', is_file = (\<lambda>_. False),
     resolves_within = (\<lambda>_ _. False), parent_of = id, stat_mtime = (\<lambda>_. None), file_size = (\<lambda>_. 0),
     file_lines = (\<lambda>_. None)\<rparr>"

definition empty_env :: policy_env where
  "empty_env = \<lparr>env_fs = empty_fs, env_conn = False, env_overrides = None, env_reputation = None,
     env_utcnow = 0\<rparr>"

theorem reload_unchanged_witness:
  "fst (reload empty_env False False 5 example_policy) = False"
proof -
  have "find_list_file empty_fs n None = None" for n
    by (simp add: find_list_file_def valid_list_name_def empty_fs_def)
  then have "\<not> list_ex (list_changed (env_fs empty_env) example_policy) (list_names example_policy)"
    by (simp add: list_changed_def locate_def empty_env_def example_policy_def new_policy_def
        status_of_def fresh_status_def dget_Cons)
  then show ?thesis using reload_unchanged by blast
qed

section \<open>Overrides take effect\<close>

lemma upsert_override_spec:
  "r' \<in> set (upsert_override r tab) \<Longrightarrow> r' = r \<or> r' \<in> set tab"
  by (induction r tab rule: upsert_override.induct) (auto split: if_splits)

lemma upsert_override_domains:
  "distinct (map ov_domain tab) \<Longrightarrow>
     distinct (map ov_domain (upsert_override r tab)) \<and>
     set (map ov_domain (upsert_override r tab)) = insert (ov_domain r) (set (map ov_domain tab))"
  by (induction r tab rule: upsert_override.induct) auto

lemma upsert_override_in: "r \<in> set (upsert_override r tab)"
  by (induction r tab rule: upsert_override.induct) auto

text \<open>Every stored row is normalised and carries one of the two actions: what \<open>add_override\<close> guarantees.\<close>

definition overrides_ok :: "override_row list \<Rightarrow> bool" where
  "overrides_ok tab \<longleftrightarrow> distinct (map ov_domain tab) \<and>
     (\<forall>r\<in>set tab. normalize_name (ov_domain r) = ov_domain r \<and> ov_action r \<in> {''allow'', ''deny''})"

lemma label_inner_char:
  "label_inner c \<Longrightarrow> \<not> is_space c \<and> lower_char c = c \<and> c \<noteq> CHR ''.''"
  by (auto simp: label_inner_def label_edge_def is_lower_def is_digit_def is_space_def lower_char_def
      is_upper_def code_of_def)

lemma split_on_snoc: "split_on c (s @ [c]) = split_on c s @ [[]]"
  using split_on_append_sep [of c s "[]"] by simp

lemma domain_full_chars:
  assumes "domain_full s"
  shows "s \<noteq> []" and "\<forall>c\<in>set s. \<not> is_space c \<and> lower_char c = c" and "last s \<noteq> CHR ''.''"
proof -
  from assms show "s \<noteq> []" by (auto simp: domain_full_def)
  have "c \<in> set s \<Longrightarrow> c = CHR ''.'' \<or> (\<exists>l\<in>set (split_on CHR ''.'' s). c \<in> set l)" for c
    by (induction s) (auto split: list.splits if_splits)
  moreover from assms have "\<forall>l\<in>set (split_on CHR ''.'' s). \<forall>c\<in>set l. label_inner c"
    by (auto simp: domain_full_def label_ok_def list_all_iff)
  ultimately have "c \<in> set s \<Longrightarrow> c = CHR ''.'' \<or> label_inner c" for c by blast
  moreover have "\<not> is_space CHR ''.'' \<and> lower_char CHR ''.'' = CHR ''.''" by code_simp
  ultimately show "\<forall>c\<in>set s. \<not> is_space c \<and> lower_char c = c"
    using label_inner_char by metis
  show "last s \<noteq> CHR ''.''"
  proof
    assume "last s = CHR ''.''"
    with \<open>s \<noteq> []\<close> obtain t where "s = t @ [CHR ''.'']" by (metis append_butlast_last_id)
    with assms show False by (simp add: domain_full_def split_on_snoc label_ok_def)
  qed
qed

lemma domain_full_normal:
  assumes "domain_full s" shows "normalize_name s = s"
proof -
  note chars = domain_full_chars [OF assms]
  from chars(1,2) have "strip s = s" by (intro strip_id) auto
  moreover from chars(3) have "rstrip_by (\<lambda>c. c = CHR ''.'') s = s" by (simp add: rstrip_by_id)
  moreover from chars(2) have "lower s = s" by (auto simp: lower_def intro: map_idI)
  ultimately show ?thesis by (simp add: normalize_name_def)
qed

lemma DOMAIN_RE_no_newline: "CHR 0x0A \<notin> set s \<Longrightarrow> DOMAIN_RE s = domain_full s"
  unfolding DOMAIN_RE_def re_dollar_def code_of_newline by (metis last_in_set)

lemma normalize_no_newline: "CHR 0x0A \<notin> set s \<Longrightarrow> CHR 0x0A \<notin> set (normalize_name s)"
  unfolding normalize_name_def newline_lower
  using set_rstrip_by [of "\<lambda>c. c = CHR ''.''" "strip s"] set_strip [of s] by blast

lemma add_override_Inr:
  assumes "add_override tab nm act note now = Inr (d, tab')" and "CHR 0x0A \<notin> set nm"
  shows "d = normalize_name nm" and "normalize_name d = d" and "act \<in> {''allow'', ''deny''}"
    and "tab' = upsert_override \<lparr>ov_domain = d, ov_action = act, ov_note = note, ov_created_at = now\<rparr> tab"
proof -
  from assms(1) show d: "d = normalize_name nm" and "act \<in> {''allow'', ''deny''}"
    and "tab' = upsert_override \<lparr>ov_domain = d, ov_action = act, ov_note = note, ov_created_at = now\<rparr> tab"
    by (auto simp: add_override_def Let_def split: if_splits)
  have loc: "normalize_name ''localhost'' = ''localhost''" by code_simp
  from assms(1) have "d = ''localhost'' \<or> DOMAIN_RE d"
    by (auto simp: add_override_def Let_def split: if_splits)
  with assms(2) d show "normalize_name d = d"
    using loc by (auto simp: DOMAIN_RE_no_newline normalize_no_newline domain_full_normal)
qed

lemma override_dict_lookup:
  assumes "overrides_ok tab" and "r \<in> set tab"
  shows "dget (override_dict tab) (ov_domain r) = Some (ov_action r)"
proof -
  have keys: "map (\<lambda>r. (normalize_name (ov_domain r), ov_action r))
      (filter (\<lambda>r. ov_action r \<in> {''allow'', ''deny''}) tab) = map (\<lambda>r. (ov_domain r, ov_action r)) tab"
    using assms(1) by (auto simp: overrides_ok_def filter_id_conv[THEN iffD2] intro!: map_cong)
  have "distinct (map fst (rev (map (\<lambda>r. (ov_domain r, ov_action r)) tab)))"
    using assms(1) by (simp add: overrides_ok_def rev_map [symmetric] comp_def)
  then have "map_of (rev (map (\<lambda>r. (ov_domain r, ov_action r)) tab)) (ov_domain r) = Some (ov_action r)"
    using assms(2) by (intro map_of_is_SomeI) auto
  then show ?thesis
    unfolding override_dict_def keys by (simp add: od.assign_loop)
qed

lemma add_override_ok:
  assumes "overrides_ok tab" and "CHR 0x0A \<notin> set nm"
    and add: "add_override tab nm act note now = Inr (d, tab')"
  shows "overrides_ok tab'"
proof -
  let ?r = "\<lparr>ov_domain = d, ov_action = act, ov_note = note, ov_created_at = now\<rparr>"
  from add_override_Inr [OF add assms(2)] have d: "normalize_name d = d" "act \<in> {''allow'', ''deny''}"
    and tab': "tab' = upsert_override ?r tab" by simp_all
  from assms(1) have "distinct (map ov_domain tab)" by (simp add: overrides_ok_def)
  then have "distinct (map ov_domain tab')" unfolding tab' by (simp add: upsert_override_domains)
  moreover have "r \<in> set tab' \<Longrightarrow> normalize_name (ov_domain r) = ov_domain r \<and> ov_action r \<in> {''allow'', ''deny''}" for r
    using assms(1) d unfolding tab' overrides_ok_def by (auto dest!: upsert_override_spec)
  ultimately show ?thesis unfolding overrides_ok_def by blast
qed

text \<open>
  The overrides table keeps its invariant: one row per normalised domain, each an allow or a
  deny. Adding replaces the row of the same domain and never creates a second one; removing
  keeps the rest.
\<close>

theorem overrides_table_invariant:
  assumes "overrides_ok tab" and "CHR 0x0A \<notin> set nm"
  shows "(\<forall>d tab'. add_override tab nm act note now = Inr (d, tab') \<longrightarrow> overrides_ok tab') \<and>
    overrides_ok (snd (remove_override tab nm))"
proof (intro conjI allI impI)
  fix d tab' assume "add_override tab nm act note now = Inr (d, tab')"
  then show "overrides_ok tab'" by (rule add_override_ok [OF assms])
next
  show "overrides_ok (snd (remove_override tab nm))"
    using assms(1) by (auto simp: overrides_ok_def remove_override_def Let_def distinct_map_filter)
qed

definition example_rows :: "override_row list" where
  "example_rows = [\<lparr>ov_domain = ''bad.org'', ov_action = ''allow'', ov_note = None, ov_created_at = 10\<rparr>]"

lemma example_rows_ok: "overrides_ok example_rows"
  unfolding overrides_ok_def example_rows_def by code_simp

definition example_rows' :: "override_row list" where
  "example_rows' = [\<lparr>ov_domain = ''bad.org'', ov_action = ''deny'', ov_note = None, ov_created_at = 11\<rparr>]"

lemma example_add: "add_override example_rows ''Bad.ORG.'' ''deny'' None 11 = Inr (''bad.org'', example_rows')"
  unfolding example_rows_def example_rows'_def by code_simp

theorem overrides_table_invariant_witness: "overrides_ok example_rows'"
proof -
  have "CHR 0x0A \<notin> set ''Bad.ORG.''" by simp
  from overrides_table_invariant [OF example_rows_ok this] example_add show ?thesis by blast
qed

text \<open>
  C2. An override takes effect on the next reload the dashboard asks for: after
  \<open>add_override\<close> stored domain \<open>d\<close>, every query for \<open>d\<close> or a subdomain of it sees the
  override, so an allow is never blocked, and a deny is blocked unless the name is allowed.
\<close>

theorem override_takes_effect:
  assumes "overrides_ok tab" and "CHR 0x0A \<notin> set nm"
    and "add_override tab nm act note now = Inr (d, tab')"
    and "env_conn env" and "env_overrides env = Some tab'"
    and "within_domain (normalize_name q) d"
  shows "has_override (reload_overrides env p) (normalize_name q) act \<and>
    (act = ''allow'' \<longrightarrow> \<not> blocked_decision (decide (reload_overrides env p) q)) \<and>
    (act = ''deny'' \<longrightarrow> (blocked_decision (decide (reload_overrides env p) q) \<longleftrightarrow>
       normalize_name q \<noteq> [] \<and> \<not> has_override (reload_overrides env p) (normalize_name q) ''allow''))"
proof -
  let ?r = "\<lparr>ov_domain = d, ov_action = act, ov_note = note, ov_created_at = now\<rparr>"
  have ok: "overrides_ok tab'" using add_override_ok [OF assms(1,2,3)] .
  have "?r \<in> set tab'"
    using add_override_Inr(4) [OF assms(3,2)] by (simp add: upsert_override_in)
  with ok have "dget (override_dict tab') d = Some act"
    using override_dict_lookup [of tab' ?r] by simp
  then have "has_override (reload_overrides env p) (normalize_name q) act"
    using assms(4,5,6) by (auto simp: has_override_def reload_overrides_def reload_overrides_table_def)
  then show ?thesis by (auto simp: decide_blocked)
qed

definition example_env :: policy_env where
  "example_env = empty_env\<lparr>env_conn := True, env_overrides := Some example_rows'\<rparr>"

theorem override_takes_effect_witness:
  "has_override (reload_overrides example_env example_policy) ''www.bad.org'' ''deny''"
proof -
  have n: "normalize_name ''WWW.Bad.Org'' = ''www.bad.org''" by code_simp
  have "within_domain (normalize_name ''WWW.Bad.Org'') ''bad.org''"
    unfolding n within_domain_def by code_simp
  from override_takes_effect [OF example_rows_ok _ example_add _ _ this, of example_env example_policy]
  show ?thesis by (simp add: n example_env_def)
qed


section \<open>The resolver's own upstreams\<close>

lemma never_block_reload: "never_block (snd (reload env busy force now p)) = never_block p"
  by (auto simp: reload_def reload_lists_def Let_def case_prod_unfold)

lemma before_dropWhile_nonempty: "h \<noteq> [] \<Longrightarrow> lower (before c h) @ dropWhile (\<lambda>x. x \<noteq> c) h \<noteq> []"
  unfolding before_def by (metis append_is_Nil_conv lower_eq_Nil takeWhile_dropWhile_id)

lemma url_hostname_nonempty: "url_hostname u = Host h \<Longrightarrow> h \<noteq> []"
  unfolding url_hostname_def Let_def using before_dropWhile_nonempty
  by (simp only: split: if_splits url_host.splits) blast+

text \<open>
  A policy loaded from the configuration never lets a blocklist or a reputation verdict cut
  the resolver off from its own upstreams: a name at or under a configured upstream host is blocked
  only if the owner denied it.
\<close>

theorem upstream_blocked_only_by_deny:
  assumes "h \<in> set (upstream_never ups doh)"
    and "within_domain (normalize_name q) (normalize_name h)"
    and "blocked_decision (decide (load_policy names ups doh votes ttl dir env now) q)"
  shows "has_override (load_policy names ups doh votes ttl dir env now) (normalize_name q) ''deny''"
proof -
  have "h \<noteq> []"
    using assms(1) url_hostname_nonempty [of doh]
    by (cases "url_hostname doh") (auto simp: upstream_never_def split: if_splits)
  with assms(1) have "normalize_name h \<in> never_block (load_policy names ups doh votes ttl dir env now)"
    by (simp add: load_policy_def never_block_reload new_policy_def Let_def)
  with assms(2) have "exempt (load_policy names ups doh votes ttl dir env now) (normalize_name q)"
    by (auto simp: exempt_def)
  with assms(3) show ?thesis by (simp add: decide_blocked)
qed

theorem upstream_blocked_only_by_deny_witness:
  "has_override (load_policy [] [''bad.org:53''] [] 2 72 None example_env 0) ''bad.org'' ''deny''"
proof -
  let ?p = "load_policy [] [''bad.org:53''] [] 2 72 None example_env 0"
  have n: "normalize_name ''bad.org'' = ''bad.org''" by code_simp
  have suf: "iter_suffixes ''bad.org'' = [''bad.org'', ''org'']" by code_simp
  have up: "''bad.org'' \<in> set (upstream_never [''bad.org:53''] [])" by code_simp
  have "overrides ?p = [(''bad.org'', ''deny'')]"
    by (simp add: load_policy_def reload_def reload_lists_def new_policy_def Let_def
        reload_overrides_table_def reload_reputation_def example_env_def empty_env_def
        override_dict_def example_rows'_def n)
  then have "blocked_decision (decide ?p ''bad.org'')"
    by (simp add: decide_def n suf dget_Cons blocked_decision_def)
  from upstream_blocked_only_by_deny [OF up _ this] show ?thesis by (simp add: n)
qed

section \<open>What the list parser lets through\<close>

lemma set_fold_before: "set (fold before cs s) \<subseteq> set s"
proof (induction cs arbitrary: s)
  case (Cons c cs)
  then show ?case using set_before [of c s] by fastforce
qed simp

lemma list_line_body_no_newline:
  assumes "list_line_body s = Some b" and "CHR 0x0A \<notin> set s" shows "CHR 0x0A \<notin> set b"
  using assms(1)
proof (cases "prefix ''||'' s")
  case True
  with assms show ?thesis
    using set_fold_before [of "[CHR ''^'', CHR ''/'', CHR ''$'', CHR ''|'']" "drop 2 s"]
    by (auto simp: list_line_body_def dest!: in_set_dropD)
next
  case False
  with assms show ?thesis
    using set_split_ws_aux [of b "[]" s]
    by (auto simp: list_line_body_def split_ws_def dest: url_hostname_no_newline
        split: if_splits url_host.splits list.splits)
qed

lemma parse_list_line_sound:
  assumes "parse_list_line line = Some d" and "CHR 0x0A \<notin> set line"
  shows "domain_full d \<and> \<not> looks_like_ip d \<and> d \<notin> SKIP_HOSTS"
proof -
  let ?s = "strip line"
  let ?s2 = "if CHR ''#'' \<in> set ?s then strip (before CHR ''#'' ?s) else ?s"
  from assms(1) obtain b where b: "list_line_body ?s2 = Some b"
    and d: "let s = (if prefix ''*.'' b then drop 2 b else b);
                s = (if prefix ''.'' s then drop 1 s else s)
            in d = lower (rstrip_by (\<lambda>c. c = CHR ''.'') s)"
    and ok: "DOMAIN_RE d" "\<not> looks_like_ip d" "d \<notin> SKIP_HOSTS"
    by (auto simp: parse_list_line_def Let_def split: if_splits option.splits)
  have "CHR 0x0A \<notin> set ?s2"
    using assms(2) set_strip [of line] set_strip [of "before CHR ''#'' ?s"] set_before [of "CHR ''#''" ?s]
    by (cases "CHR ''#'' \<in> set ?s") auto
  from list_line_body_no_newline [OF b this] have "CHR 0x0A \<notin> set b" .
  with d have "CHR 0x0A \<notin> set d"
    by (auto simp: Let_def newline_lower dest!: set_rstrip_by [THEN subsetD] in_set_dropD split: if_splits)
  with ok show ?thesis by (simp add: DOMAIN_RE_no_newline)
qed

lemma collect_lines_sound:
  "d \<in> set (collect_lines out lines) \<Longrightarrow> \<forall>l\<in>set lines. CHR 0x0A \<notin> set l \<Longrightarrow>
     d \<in> set out \<or> domain_full d \<and> \<not> looks_like_ip d \<and> d \<notin> SKIP_HOSTS"
  by (induction out lines rule: collect_lines.induct)
    (auto split: option.splits if_splits dest: parse_list_line_sound)

lemma collect_lines_distinct: "distinct out \<Longrightarrow> distinct (collect_lines out lines)"
  by (induction out lines rule: collect_lines.induct) (auto split: option.splits)

text \<open>
  Whatever a downloaded list contains, every entry parsed from it is a well-formed domain of
  at least two labels and at most 253 characters, never an address or a loopback name, already in
  the normal form \<open>decide\<close> looks up; and no entry appears twice.
\<close>

theorem parse_list_text_sound:
  "distinct (parse_list_text text) \<and>
   (\<forall>d\<in>set (parse_list_text text).
      domain_full d \<and> normalize_name d = d \<and> \<not> looks_like_ip d \<and> d \<notin> SKIP_HOSTS)"
proof -
  have "\<forall>l\<in>set (splitlines text). CHR 0x0A \<notin> set l"
    by (auto simp: splitlines_def dest: splitlines_no_newline)
  then have "d \<in> set (parse_list_text text) \<Longrightarrow> domain_full d \<and> \<not> looks_like_ip d \<and> d \<notin> SKIP_HOSTS" for d
    unfolding parse_list_text_def by (auto dest: collect_lines_sound)
  then show ?thesis
    by (auto simp: parse_list_text_def collect_lines_distinct intro: domain_full_normal)
qed

theorem parse_list_text_sound_witness: "domain_full ''ads.example.com''"
proof -
  have "''ads.example.com'' \<in> set (parse_list_text ''# ads||Ads.Example.com^'')
        \<or> ''ads.example.com'' \<in> set (parse_list_text ''0.0.0.0 Ads.Example.com # x'')" by code_simp
  then show ?thesis using parse_list_text_sound by blast
qed

end
