(* ===== verification/Dns_Limits.thy ===== *)
theory Dns_Limits
  imports Py_Net
begin

text \<open>
  Who may ask the resolver, and how often: the per-source rate limiter and the local-source check of
  \<open>homesoc/dnsfilter/server.py\<close>, and the inventory addresses of \<open>homesoc/dnsfilter/clients.py\<close>.
  Times are real seconds of the monotonic clock; a method that takes the lock is one step.
\<close>

section \<open>Local sources\<close>

definition client_is_local :: "str \<Rightarrow> bool" where
  "client_is_local client =
     (case ip_address (before CHR ''%'' client) of
        None \<Rightarrow> False
      | Some a \<Rightarrow> ip_is_private a \<or> ip_is_loopback a \<or> ip_is_link_local a \<or> \<not> ip_is_global a)"

section \<open>The rate limiter\<close>

definition RATE_LIMIT_QPS :: int where "RATE_LIMIT_QPS = 300"
definition GLOBAL_RATE_LIMIT_QPS :: int where "GLOBAL_RATE_LIMIT_QPS = 3000"
definition GLOBAL_CLIENT_KEY :: str where "GLOBAL_CLIENT_KEY = ''*''"
definition RATE_LIMIT_MAX_KEYS :: int where "RATE_LIMIT_MAX_KEYS = 65536"

text \<open>A bucket is the second it counts and the queries seen in it.\<close>

record rate_limiter =
  max_qps :: nat
  max_keys :: nat
  buckets :: "(str, int \<times> nat) dict"
  purged_sec :: "int option"
  dropped :: nat

definition new_limiter :: "int \<Rightarrow> int \<Rightarrow> rate_limiter" where
  "new_limiter qps keys =
     \<lparr>max_qps = nat (max 1 qps), max_keys = nat (max 1 keys), buckets = [], purged_sec = None, dropped = 0\<rparr>"

definition prefix_key :: "str \<Rightarrow> str" where
  "prefix_key client =
     (case ip_address (before CHR ''%'' client) of
        None \<Rightarrow> ''net:'' @ take 64 client
      | Some a \<Rightarrow> ''net:'' @ network_text a (case a of V4 _ \<Rightarrow> 24 | V6 _ \<Rightarrow> 64))"

text \<open>The sweep of buckets of earlier seconds, at most once per second.\<close>

definition purge :: "int \<Rightarrow> rate_limiter \<Rightarrow> rate_limiter" where
  "purge sec l =
     (if purged_sec l \<noteq> Some sec
      then l\<lparr>purged_sec := Some sec, buckets := filter (\<lambda>(c, v). fst v = sec) (buckets l)\<rparr>
      else l)"

text \<open>The limiter and the bucket a query of \<open>client\<close> is charged to.\<close>

definition charged :: "str \<Rightarrow> int \<Rightarrow> rate_limiter \<Rightarrow> rate_limiter \<times> str" where
  "charged client sec l =
     (if dget (buckets l) client = None \<and> max_keys l \<le> length (buckets l)
      then (let l = purge sec l; p = prefix_key client
            in if max_keys l \<le> length (buckets l)
               then (l, if dget (buckets l) p = None \<and> 2 * max_keys l \<le> length (buckets l)
                        then ''overflow'' else p)
               else (l, client))
      else (l, client))"

definition allow :: "str \<Rightarrow> real \<Rightarrow> rate_limiter \<Rightarrow> bool \<times> rate_limiter" where
  "allow client now l =
     (let sec = float_int now; (l, k) = charged client sec l
      in case dget (buckets l) k of
           None \<Rightarrow> (True, l\<lparr>buckets := dset k (sec, 1) (buckets l)\<rparr>)
         | Some (s, n) \<Rightarrow>
             if s \<noteq> sec then (True, l\<lparr>buckets := dset k (sec, 1) (buckets l)\<rparr>)
             else if max_qps l < n + 1
             then (False, l\<lparr>buckets := dset k (s, n + 1) (buckets l), dropped := dropped l + 1\<rparr>)
             else (True, l\<lparr>buckets := dset k (s, n + 1) (buckets l)\<rparr>))"

definition cleanup :: "real \<Rightarrow> rate_limiter \<Rightarrow> rate_limiter" where
  "cleanup now l = l\<lparr>buckets := filter (\<lambda>(c, b). \<not> 2 < float_int now - fst b) (buckets l)\<rparr>"

subsection \<open>Runs\<close>

text \<open>
  The limiter's life under a monotonic clock, with the second, the bucket and the verdict of every
  query, latest first.
\<close>

inductive lim_run :: "rate_limiter \<Rightarrow> int \<Rightarrow> (int \<times> str \<times> bool) list \<Rightarrow> rate_limiter \<Rightarrow> bool"
  for l0 where
  lim_start: "lim_run l0 cur [] l0"
| lim_allow: "lim_run l0 (float_int now) ((float_int now, snd (charged client (float_int now) l), fst (allow client now l)) # tr)
      (snd (allow client now l))"
  if "lim_run l0 cur tr l" and "cur \<le> float_int now"
| lim_cleanup: "lim_run l0 (float_int now) tr (cleanup now l)"
  if "lim_run l0 cur tr l" and "cur \<le> float_int now"

text \<open>How many queries a bucket let through in a second.\<close>

definition admitted :: "int \<Rightarrow> str \<Rightarrow> (int \<times> str \<times> bool) list \<Rightarrow> nat" where
  "admitted sec k tr = length (filter (\<lambda>(s, b, verdict). s = sec \<and> b = k \<and> verdict) tr)"

lemma admitted_Cons:
  "admitted sec k ((s, b, v) # tr) = (if s = sec \<and> b = k \<and> v then 1 else 0) + admitted sec k tr"
  by (simp add: admitted_def)

subsection \<open>The table stays bounded\<close>

definition limiter_ok :: "rate_limiter \<Rightarrow> bool" where
  "limiter_ok l \<longleftrightarrow> 1 \<le> max_keys l \<and> 1 \<le> max_qps l \<and> dwf (buckets l) \<and>
     length (ddel ''overflow'' (buckets l)) \<le> 2 * max_keys l"

lemma ddel_filter: "ddel k (filter P d) = filter P (ddel k d)"
  by (simp add: ddel_def conj_commute)

lemma length_ddel_le: "length (ddel k d) \<le> length d"
  by (simp add: ddel_def)

lemma ddel_dset_other: "k \<noteq> k' \<Longrightarrow> ddel k (dset k' v d) = dset k' v (ddel k d)"
  by (induction k' v d rule: dset.induct) (auto simp: ddel_def)

lemma limiter_ok_filter: "limiter_ok l \<Longrightarrow> limiter_ok (l\<lparr>buckets := filter P (buckets l)\<rparr>)"
  by (auto simp: limiter_ok_def ddel_filter intro: order_trans [OF length_filter_le])

lemma purge_ok: "limiter_ok l \<Longrightarrow> limiter_ok (purge sec l)"
  by (simp add: purge_def limiter_ok_filter [unfolded limiter_ok_def] limiter_ok_def)
    (auto simp: ddel_filter intro: order_trans [OF length_filter_le])

lemma charged_ok: "limiter_ok l \<Longrightarrow> limiter_ok (fst (charged client sec l))"
  by (auto simp: charged_def Let_def purge_ok)

lemma charged_frame [simp]:
  "max_qps (fst (charged client sec l)) = max_qps l" "max_keys (fst (charged client sec l)) = max_keys l"
  "dropped (fst (charged client sec l)) = dropped l"
  by (auto simp: charged_def purge_def Let_def)

text \<open>A bucket is new only below a bound: the source's own below \<open>max_keys\<close>, a prefix below twice it.\<close>

lemma charged_new:
  assumes "1 \<le> max_keys l" and "dget (buckets (fst (charged client sec l))) (snd (charged client sec l)) = None"
    and "snd (charged client sec l) \<noteq> ''overflow''"
  shows "length (buckets (fst (charged client sec l))) < 2 * max_keys l"
  using assms by (auto simp: charged_def purge_def Let_def not_le split: if_splits)

lemma allow_frame:
  "max_qps (snd (allow client now l)) = max_qps l" "max_keys (snd (allow client now l)) = max_keys l"
  by (auto simp: allow_def Let_def case_prod_unfold split: option.splits)

lemma allow_buckets:
  "\<exists>v. buckets (snd (allow client now l)) =
     dset (snd (charged client (float_int now) l)) v (buckets (fst (charged client (float_int now) l)))"
  by (auto simp: allow_def Let_def case_prod_unfold split: option.splits)

lemma allow_ok:
  assumes "limiter_ok l" shows "limiter_ok (snd (allow client now l))"
proof -
  let ?l = "fst (charged client (float_int now) l)" and ?k = "snd (charged client (float_int now) l)"
  have ok: "limiter_ok ?l" using assms by (rule charged_ok)
  obtain v where b: "buckets (snd (allow client now l)) = dset ?k v (buckets ?l)"
    using allow_buckets by blast
  have "length (ddel ''overflow'' (dset ?k v (buckets ?l))) \<le> 2 * max_keys l"
  proof (cases "?k = ''overflow'' \<or> ?k \<in> set (dkeys (buckets ?l))")
    case True
    then have "length (ddel ''overflow'' (dset ?k v (buckets ?l))) \<le> length (ddel ''overflow'' (buckets ?l))"
      by (cases "?k = ''overflow''") (auto simp: ddel_dset_other length_dset dkeys_ddel)
    with ok show ?thesis by (simp add: limiter_ok_def)
  next
    case False
    then have "length (buckets ?l) < 2 * max_keys l"
      using assms by (intro charged_new) (auto simp: dget_None_iff limiter_ok_def)
    with False show ?thesis
      using length_ddel_le [of "''overflow''" "buckets ?l"]
      by (simp add: ddel_dset_other [OF not_sym] length_dset dkeys_ddel)
  qed
  with ok b show ?thesis by (simp add: limiter_ok_def allow_frame)
qed

lemma limiter_ok_length:
  assumes "limiter_ok l" shows "length (buckets l) \<le> 2 * max_keys l + 1"
proof (cases "''overflow'' \<in> set (dkeys (buckets l))")
  case True
  then show ?thesis using assms length_ddel [of "buckets l" "''overflow''"] by (simp add: limiter_ok_def)
next
  case False
  then show ?thesis using assms by (simp add: limiter_ok_def ddel_absent)
qed

subsection \<open>The rate is kept\<close>

text \<open>
  What the trace says of the buckets at the second \<open>cur\<close>: no bucket of an earlier second let too
  many through, and one of the current second counts at least what it let through.
\<close>

definition counted_now :: "int \<Rightarrow> (str, int \<times> nat) dict \<Rightarrow> str \<Rightarrow> nat" where
  "counted_now cur d k = (case dget d k of Some (s, n) \<Rightarrow> if s = cur then n else 0 | None \<Rightarrow> 0)"

definition rate_ok :: "int \<Rightarrow> (int \<times> str \<times> bool) list \<Rightarrow> rate_limiter \<Rightarrow> bool" where
  "rate_ok cur tr l \<longleftrightarrow>
     (\<forall>s k. admitted s k tr \<le> max_qps l) \<and>
     (\<forall>s k. cur < s \<longrightarrow> admitted s k tr = 0) \<and>
     (\<forall>k. admitted cur k tr \<le> counted_now cur (buckets l) k)"

lemma rate_ok_later: "rate_ok cur tr l \<Longrightarrow> cur \<le> sec \<Longrightarrow> rate_ok sec tr l"
  unfolding rate_ok_def by (cases "cur = sec") auto

lemma dget_filter_dwf:
  assumes "dwf d" shows "dget (filter P d) k = (case dget d k of None \<Rightarrow> None | Some v \<Rightarrow> if P (k, v) then Some v else None)"
  using assms
proof (induction d)
  case (Cons x d)
  obtain a b where x: "x = (a, b)" by force
  show ?case
  proof (cases "k = a")
    case True
    with Cons.prems x have "dget d k = None"
      by (simp add: dwf_def dkeys_def dget_def map_of_eq_None_iff)
    with Cons x True show ?thesis by (auto simp: dget_Cons dwf_def dkeys_def)
  next
    case False
    with Cons x show ?thesis by (auto simp: dget_Cons dwf_def dkeys_def)
  qed
qed simp

lemma counted_now_filter:
  assumes "dwf d" and "\<And>c n. P (c, (cur, n))"
  shows "counted_now cur (filter P d) k = counted_now cur d k"
  using assms by (auto simp: counted_now_def dget_filter_dwf split: option.splits)

lemma counted_now_dset: "counted_now cur (dset k (cur, n) d) k' = (if k' = k then n else counted_now cur d k')"
  by (simp add: counted_now_def)

lemma rate_ok_filter:
  assumes "rate_ok cur tr l" and "dwf (buckets l)" and "\<And>c n. P (c, (cur, n))"
  shows "rate_ok cur tr (l\<lparr>buckets := filter P (buckets l)\<rparr>)"
  using assms counted_now_filter [of "buckets l" P cur] by (simp add: rate_ok_def)

lemma rate_ok_purged_sec [simp]: "rate_ok cur tr (l\<lparr>purged_sec := v\<rparr>) = rate_ok cur tr l"
  by (simp add: rate_ok_def)

lemma purge_rate: "rate_ok cur tr l \<Longrightarrow> dwf (buckets l) \<Longrightarrow> rate_ok cur tr (purge cur l)"
  using rate_ok_filter [of cur tr "l\<lparr>purged_sec := Some cur\<rparr>" "\<lambda>(c, v). fst v = cur"]
  by (simp add: purge_def)

lemma charged_rate:
  "rate_ok cur tr l \<Longrightarrow> limiter_ok l \<Longrightarrow> rate_ok cur tr (fst (charged client cur l))"
  by (auto simp: charged_def Let_def purge_rate limiter_ok_def)

text \<open>One query: the bucket's count in this second before it, and the verdict.\<close>

lemma allow_counts:
  defines "m \<equiv> \<lambda>client now l. fst (charged client (float_int now) l)"
    and "k \<equiv> \<lambda>client now l. snd (charged client (float_int now) l)"
  assumes "1 \<le> max_qps l"
  shows "fst (allow client now l) \<longleftrightarrow>
      counted_now (float_int now) (buckets (m client now l)) (k client now l) < max_qps l"
    and "buckets (snd (allow client now l)) =
      dset (k client now l)
        (float_int now, counted_now (float_int now) (buckets (m client now l)) (k client now l) + 1)
        (buckets (m client now l))"
  using assms
  by (auto simp: allow_def Let_def case_prod_unfold counted_now_def m_def k_def split: option.splits)

lemma allow_rate:
  assumes r: "rate_ok cur tr l" and ok: "limiter_ok l" and cur: "cur \<le> float_int now"
  shows "rate_ok (float_int now)
    ((float_int now, snd (charged client (float_int now) l), fst (allow client now l)) # tr) (snd (allow client now l))"
proof -
  let ?m = "fst (charged client (float_int now) l)"
  have "rate_ok (float_int now) tr ?m"
    using r ok cur by (intro charged_rate rate_ok_later [OF r])
  moreover from ok have "1 \<le> max_qps l" by (simp add: limiter_ok_def)
  note c = allow_counts [OF this, of client now]
  ultimately show ?thesis
    using c(1) by (auto simp: rate_ok_def admitted_Cons allow_frame c(2) counted_now_dset Suc_le_eq
        intro: le_SucI order.strict_trans1)
qed

lemma cleanup_rate:
  assumes "rate_ok cur tr l" and "limiter_ok l" and "cur \<le> float_int now"
  shows "rate_ok (float_int now) tr (cleanup now l)"
  unfolding cleanup_def using assms
  by (intro rate_ok_filter rate_ok_later [OF assms(1)]) (auto simp: limiter_ok_def)

lemma new_limiter_ok: "limiter_ok (new_limiter q n)"
  by (simp add: limiter_ok_def new_limiter_def ddel_def le_nat_iff)

lemma lim_run_inv:
  assumes "lim_run (new_limiter q n) cur tr l"
  shows "limiter_ok l \<and> rate_ok cur tr l \<and> max_qps l = nat (max 1 q) \<and> max_keys l = nat (max 1 n)"
  using assms
proof (induction rule: lim_run.induct)
  case lim_start
  show ?case by (simp add: new_limiter_ok rate_ok_def admitted_def) (simp add: new_limiter_def)
next
  case (lim_allow cur tr l now client)
  then show ?case using allow_rate [of cur tr l now client] by (simp add: allow_ok allow_frame)
next
  case (lim_cleanup cur tr l now)
  have "limiter_ok (cleanup now l)" "max_qps (cleanup now l) = max_qps l" "max_keys (cleanup now l) = max_keys l"
    using lim_cleanup by (simp_all add: cleanup_def limiter_ok_filter)
  with lim_cleanup cleanup_rate [of cur tr l now] show ?case by simp
qed

text \<open>
  The limiter keeps its rate and its size. Under any sequence of queries and clean-ups with a
  clock that does not run backwards, no bucket lets more than the configured number of queries (at
  least one) through in one second, however the sweeps interleave with them, and the table never
  holds more than twice the configured number of sources plus the overflow bucket, however many
  sources are forged.
\<close>

theorem rate_limiter_bounds:
  assumes "lim_run (new_limiter q n) cur tr l"
  shows "admitted sec k tr \<le> nat (max 1 q) \<and> length (buckets l) \<le> 2 * nat (max 1 n) + 1"
  using lim_run_inv [OF assms] limiter_ok_length [of l] by (auto simp: rate_ok_def)

theorem rate_limiter_bounds_witness:
  "admitted 5 ''10.0.0.7'' [(5, ''10.0.0.7'', fst (allow ''10.0.0.7'' 5 (new_limiter 300 65536)))] = 1"
proof -
  let ?l = "new_limiter 300 65536"
  have f: "float_int 5 = 5" by (simp add: float_int_def)
  have c: "snd (charged ''10.0.0.7'' 5 ?l) = ''10.0.0.7''"
    by (simp add: charged_def new_limiter_def)
  have a: "fst (allow ''10.0.0.7'' 5 ?l)" by (simp add: allow_def charged_def new_limiter_def Let_def)
  from rate_limiter_bounds [OF lim_allow [where now = 5 and client = "''10.0.0.7''", OF lim_start]] f c a
  show ?thesis by (simp add: admitted_def)
qed

section \<open>Known clients\<close>

definition REFRESH_SECONDS :: real where "REFRESH_SECONDS = 60"
definition MAX_KNOWN :: nat where "MAX_KNOWN = 1024"
definition MAX_AGE_DAYS :: int where "MAX_AGE_DAYS = 30"
definition ALWAYS_KNOWN :: "str set" where "ALWAYS_KNOWN = {''127.0.0.1'', ''::1''}"

text \<open>A row of \<open>devices\<close>, for the columns read here; stamps are whole UTC seconds.\<close>

record device_addr =
  da_ip :: "str option"
  da_last_seen :: "int option"

record known_clients =
  kc_addresses :: "str set"
  kc_refreshed_at :: "real option"

definition new_known :: "str list \<Rightarrow> known_clients" where
  "new_known addresses = \<lparr>kc_addresses = ALWAYS_KNOWN \<union> set addresses, kc_refreshed_at = None\<rparr>"

definition kc_contains :: "known_clients \<Rightarrow> str \<Rightarrow> bool" where
  "kc_contains k client \<longleftrightarrow> client \<in> kc_addresses k"

definition kc_set :: "str list \<Rightarrow> known_clients \<Rightarrow> known_clients" where
  "kc_set addresses k = k\<lparr>kc_addresses := ALWAYS_KNOWN \<union> set (take MAX_KNOWN addresses)\<rparr>"

text \<open>The query: addresses of devices seen in the last month, the latest first.\<close>

definition inventory_rows :: "int \<Rightarrow> device_addr list \<Rightarrow> device_addr list" where
  "inventory_rows cutoff tab =
     take MAX_KNOWN
       (sort_key (\<lambda>r. - the (da_last_seen r))
          (filter (\<lambda>r. da_ip r \<noteq> None \<and> da_ip r \<noteq> Some [] \<and>
                      (case da_last_seen r of None \<Rightarrow> False | Some t \<Rightarrow> cutoff \<le> t)) tab))"

text \<open>No connection, an unreadable table (\<open>sqlite3.Error\<close>), or its rows.\<close>

datatype inventory = NoConn | Unreadable | Rows "device_addr list"

definition kc_refresh :: "inventory \<Rightarrow> int \<Rightarrow> real \<Rightarrow> known_clients \<Rightarrow> bool \<times> known_clients" where
  "kc_refresh inven utcnow now k =
     (let k = k\<lparr>kc_refreshed_at := Some now\<rparr>
      in case inven of
           Rows tab \<Rightarrow>
             (True, k\<lparr>kc_addresses := ALWAYS_KNOWN \<union>
                set (filter (\<lambda>a. a \<noteq> [])
                  (map (\<lambda>r. strip (the (da_ip r))) (inventory_rows (utcnow - MAX_AGE_DAYS * 86400) tab)))\<rparr>)
         | _ \<Rightarrow> (False, k))"

definition kc_maybe_refresh :: "inventory \<Rightarrow> int \<Rightarrow> real \<Rightarrow> known_clients \<Rightarrow> bool \<times> known_clients" where
  "kc_maybe_refresh inven utcnow now k =
     (case kc_refreshed_at k of
        Some t \<Rightarrow> if now - t < REFRESH_SECONDS then (False, k) else kc_refresh inven utcnow now k
      | None \<Rightarrow> kc_refresh inven utcnow now k)"

text \<open>
  Forged packets cannot enter the set: an address becomes known only through the inventory, and the
  set stays within the two loopback addresses and \<open>MAX_KNOWN\<close> devices.
\<close>

lemma kc_refresh_known:
  assumes "kc_contains (snd (kc_refresh (Rows tab) utcnow now k)) a" and "a \<notin> ALWAYS_KNOWN"
  obtains r where "r \<in> set tab" and "da_ip r \<noteq> None" and "a = strip (the (da_ip r))"
proof -
  from assms obtain r where "r \<in> set (inventory_rows (utcnow - MAX_AGE_DAYS * 86400) tab)"
    and "a = strip (the (da_ip r))"
    by (auto simp: kc_refresh_def kc_contains_def Let_def)
  moreover from this(1) have "r \<in> set tab \<and> da_ip r \<noteq> None"
    by (auto simp: inventory_rows_def dest!: in_set_takeD)
  ultimately show thesis using that by blast
qed

lemma kc_refresh_size: "card (kc_addresses (snd (kc_refresh (Rows tab) utcnow now k))) \<le> MAX_KNOWN + 2"
proof -
  let ?as = "filter (\<lambda>a. a \<noteq> []) (map (\<lambda>r. strip (the (da_ip r)))
      (inventory_rows (utcnow - MAX_AGE_DAYS * 86400) tab))"
  have "length ?as \<le> MAX_KNOWN"
    by (rule order_trans [OF length_filter_le]) (simp add: inventory_rows_def)
  then have "card (set ?as) \<le> MAX_KNOWN" using card_length le_trans by blast
  moreover have "card ALWAYS_KNOWN \<le> 2" by (simp add: ALWAYS_KNOWN_def)
  ultimately show ?thesis
    using card_Un_le [of ALWAYS_KNOWN "set ?as"] by (simp add: kc_refresh_def Let_def)
qed

end
