(* ===== verification/Dns_Cache.thy ===== *)
theory Dns_Cache
  imports Soc_Prelude
begin

text \<open>
  The answer cache, \<open>homesoc/dnsfilter/cache.py\<close>: an LRU keyed by (name, type) in an
  \<open>OrderedDict\<close> (oldest first), with clamped lifetimes. Packets belong to \<open>dnslib\<close>, which is
  not part of the repository: \<open>pack\<close> and \<open>parse\<close> are parameters (\<open>None\<close>: they raised).
  Times are real seconds; a method that takes the lock is one atomic operation.
\<close>

section \<open>Replies\<close>

record rr =
  rname :: str
  rtype :: nat
  rclass :: nat
  ttl :: int
  rdata :: str

record reply =
  rcode :: nat
  tc :: bool
  rrs :: "rr list"
  auth :: "rr list"
  ar :: "rr list"

definition NOERROR :: nat where "NOERROR = 0"
definition NXDOMAIN :: nat where "NXDOMAIN = 3"
definition OPT :: nat where "OPT = 41"

section \<open>The cache\<close>

definition DEFAULT_MIN_TTL :: int where "DEFAULT_MIN_TTL = 30"
definition DEFAULT_NEGATIVE_TTL :: int where "DEFAULT_NEGATIVE_TTL = 60"
definition DEFAULT_MAX_ENTRIES :: int where "DEFAULT_MAX_ENTRIES = 20000"
definition DEFAULT_MAX_TTL :: int where "DEFAULT_MAX_TTL = 3600"

record 'w cache_entry =
  wire :: 'w
  stored_at :: real
  expires_at :: real

type_synonym key = "str \<times> str"

record 'w dns_cache =
  max_entries :: nat
  min_ttl :: int
  negative_ttl :: int
  max_ttl :: int
  entries :: "(key, 'w cache_entry) dict"
  hits :: nat
  misses :: nat

definition cache_key :: "str \<Rightarrow> str \<Rightarrow> key" where
  "cache_key qname qtype = (lower (rstrip_by (\<lambda>c. c = CHR ''.'') qname), upper qtype)"

definition new_cache :: "int \<Rightarrow> int \<Rightarrow> int \<Rightarrow> int \<Rightarrow> 'w dns_cache" where
  "new_cache n mn neg mx =
     \<lparr>max_entries = nat (max 1 n), min_ttl = mn, negative_ttl = neg, max_ttl = max mn mx,
      entries = [], hits = 0, misses = 0\<rparr>"

definition age_rr :: "int \<Rightarrow> rr \<Rightarrow> rr" where
  "age_rr elapsed r = (if rtype r = OPT then r else r\<lparr>ttl := max 1 (ttl r - elapsed)\<rparr>)"

definition age_reply :: "int \<Rightarrow> reply \<Rightarrow> reply" where
  "age_reply elapsed r =
     (if 0 < elapsed
      then r\<lparr>rrs := map (age_rr elapsed) (rrs r), auth := map (age_rr elapsed) (auth r),
             ar := map (age_rr elapsed) (ar r)\<rparr>
      else r)"

definition cache_get ::
  "('w \<Rightarrow> reply option) \<Rightarrow> 'w dns_cache \<Rightarrow> str \<Rightarrow> str \<Rightarrow> real \<Rightarrow> reply option \<times> 'w dns_cache" where
  "cache_get parse c qname qtype now =
     (let k = cache_key qname qtype
      in case dget (entries c) k of
        None \<Rightarrow> (None, c\<lparr>misses := misses c + 1\<rparr>)
      | Some e \<Rightarrow>
          if expires_at e \<le> now
          then (None, c\<lparr>entries := ddel k (entries c), misses := misses c + 1\<rparr>)
          else
            (let c = c\<lparr>entries := dmove_to_end k (entries c), hits := hits c + 1\<rparr>
             in case parse (wire e) of
                  None \<Rightarrow> (None, c\<lparr>entries := ddel k (entries c)\<rparr>)
                | Some r \<Rightarrow> (Some (age_reply (float_int (now - stored_at e)) r), c)))"

definition ttl_for :: "'w dns_cache \<Rightarrow> reply \<Rightarrow> int option" where
  "ttl_for c r =
     (if rcode r = NXDOMAIN then Some (negative_ttl c)
      else if rcode r \<noteq> NOERROR then None
      else if tc r then None
      else (let answers = filter (\<lambda>a. rtype a \<noteq> OPT) (rrs r)
            in if answers = [] then Some (negative_ttl c)
               else Some (min (max_ttl c) (max (min_ttl c) (Min (set (map ttl answers)))))))"

text \<open>\<open>while len(entries) > max_entries: entries.popitem(last=False)\<close>.\<close>

fun evict_to :: "nat \<Rightarrow> ('k, 'v) dict \<Rightarrow> ('k, 'v) dict" where
  "evict_to m [] = []"
| "evict_to m (x # d) = (if m < length (x # d) then evict_to m d else x # d)"

definition cache_put ::
  "(reply \<Rightarrow> 'w option) \<Rightarrow> 'w dns_cache \<Rightarrow> str \<Rightarrow> str \<Rightarrow> reply \<Rightarrow> real \<Rightarrow> bool \<times> 'w dns_cache" where
  "cache_put pack c qname qtype r now =
     (case ttl_for c r of
        None \<Rightarrow> (False, c)
      | Some t \<Rightarrow>
          (let k = cache_key qname qtype
           in case pack r of
                None \<Rightarrow> (False, c)
              | Some w \<Rightarrow>
                  (let e = \<lparr>wire = w, stored_at = now, expires_at = now + of_int t\<rparr>;
                       d = dmove_to_end k (dset k e (entries c))
                   in (True, c\<lparr>entries := evict_to (max_entries c) d\<rparr>))))"

definition under_name :: "str \<Rightarrow> str \<Rightarrow> bool" where
  "under_name name n \<longleftrightarrow> n = name \<or> suffix (CHR ''.'' # name) n"

definition cache_invalidate :: "'w dns_cache \<Rightarrow> str \<Rightarrow> str option \<Rightarrow> nat \<times> 'w dns_cache" where
  "cache_invalidate c qname qtype =
     (let name = lower (rstrip_by (\<lambda>c. c = CHR ''.'') qname);
          ks = filter (\<lambda>k. under_name name (fst k) \<and> (case qtype of None \<Rightarrow> True | Some t \<Rightarrow> snd k = upper t))
                 (dkeys (entries c))
      in (length ks, c\<lparr>entries := fold ddel ks (entries c)\<rparr>))"

definition cache_clear :: "'w dns_cache \<Rightarrow> 'w dns_cache" where
  "cache_clear c = c\<lparr>entries := []\<rparr>"

definition purge_expired :: "'w dns_cache \<Rightarrow> real \<Rightarrow> nat \<times> 'w dns_cache" where
  "purge_expired c now =
     (let dead = map fst (filter (\<lambda>(k, e). expires_at e \<le> now) (entries c))
      in (length dead, c\<lparr>entries := fold ddel dead (entries c)\<rparr>))"

definition cache_size :: "'w dns_cache \<Rightarrow> nat" where
  "cache_size c = length (entries c)"

section \<open>Invariant\<close>

text \<open>
  Never over capacity, one entry per key, and every entry's lifetime is a lifetime the cache
  may assign: the negative one or one between the minimum and the maximum.
\<close>

definition life_ok :: "'w dns_cache \<Rightarrow> real \<Rightarrow> bool" where
  "life_ok c l \<longleftrightarrow> l = of_int (negative_ttl c) \<or> (of_int (min_ttl c) \<le> l \<and> l \<le> of_int (max_ttl c))"

definition cache_inv :: "'w dns_cache \<Rightarrow> bool" where
  "cache_inv c \<longleftrightarrow>
     1 \<le> max_entries c \<and> min_ttl c \<le> max_ttl c \<and>
     length (entries c) \<le> max_entries c \<and> dwf (entries c) \<and>
     (\<forall>(k, e)\<in>set (entries c). life_ok c (expires_at e - stored_at e))"

lemma evict_to_drop: "evict_to m d = drop (length d - m) d"
  by (induction m d rule: evict_to.induct) (auto simp: Suc_diff_le)

lemma set_evict_to: "set (evict_to m d) \<subseteq> set d"
  unfolding evict_to_drop by (rule set_drop_subset)

lemma dwf_drop [intro]: "dwf d \<Longrightarrow> dwf (drop n d)"
  by (simp add: dwf_def dkeys_def flip: drop_map)

lemma dwf_sublist: "dwf d \<Longrightarrow> dwf (filter P d)"
  by (rule dwf_filter)

lemma set_dmove_to_end: "set (dmove_to_end k d) \<subseteq> set d"
  by (auto simp: dmove_to_end_def ddel_def dest: dget_Some_in split: option.splits)

lemma set_dset: "set (dset k v d) \<subseteq> insert (k, v) (set d)"
  by (induction k v d rule: dset.induct) auto

lemma fold_ddel_filter: "fold ddel ks d = filter (\<lambda>(k, v). k \<notin> set ks) d"
proof (induction ks arbitrary: d)
  case (Cons k ks)
  then show ?case by (auto simp: ddel_def intro!: filter_cong)
qed simp

lemma length_dset_le: "length (dset k v d) \<le> Suc (length d)"
  by (simp add: length_dset)

lemma ttl_for_life_ok:
  assumes "min_ttl c \<le> max_ttl c" and "ttl_for c r = Some t" shows "life_ok c (of_int t)"
  using assms by (auto simp: ttl_for_def life_ok_def Let_def split: if_splits)

lemma cache_inv_keep:
  assumes "cache_inv c" and "set d \<subseteq> set (entries c)" and "dwf d" and "length d \<le> length (entries c)"
  shows "cache_inv (c\<lparr>entries := d\<rparr>)"
  using assms unfolding cache_inv_def life_ok_def by fastforce

lemma cache_inv_counters [simp]:
  "cache_inv (c\<lparr>hits := h\<rparr>) = cache_inv c" "cache_inv (c\<lparr>misses := m\<rparr>) = cache_inv c"
  by (simp_all add: cache_inv_def life_ok_def)

lemma cache_inv_filter: "cache_inv c \<Longrightarrow> cache_inv (c\<lparr>entries := filter P (entries c)\<rparr>)"
  by (rule cache_inv_keep) (auto simp: cache_inv_def)

lemma cache_inv_ddel: "cache_inv c \<Longrightarrow> cache_inv (c\<lparr>entries := ddel k (entries c)\<rparr>)"
  unfolding ddel_def by (rule cache_inv_filter)

lemma cache_inv_touch: "cache_inv c \<Longrightarrow> cache_inv (c\<lparr>entries := dmove_to_end k (entries c)\<rparr>)"
  by (rule cache_inv_keep [OF _ set_dmove_to_end]) (auto simp: cache_inv_def)

lemma cache_get_inv:
  assumes "cache_inv c" shows "cache_inv (snd (cache_get parse c q t now))"
proof -
  let ?k = "cache_key q t"
  let ?c = "c\<lparr>entries := dmove_to_end ?k (entries c), hits := hits c + 1\<rparr>"
  have touched: "cache_inv ?c"
    using cache_inv_touch [OF assms, of ?k] by (simp add: cache_inv_def life_ok_def)
  from cache_inv_ddel [OF touched, of ?k] touched cache_inv_ddel [OF assms, of ?k] assms
  show ?thesis
    by (auto simp: cache_get_def Let_def cache_inv_def life_ok_def split: option.splits)
qed

lemma cache_put_inv:
  assumes "cache_inv c" shows "cache_inv (snd (cache_put pack c q t r now))"
proof (cases "fst (cache_put pack c q t r now)")
  case False
  then show ?thesis using assms by (auto simp: cache_put_def Let_def split: option.splits)
next
  case True
  then obtain l w where l: "ttl_for c r = Some l" and w: "pack r = Some w"
    by (auto simp: cache_put_def Let_def split: option.splits)
  let ?e = "\<lparr>wire = w, stored_at = now, expires_at = now + of_int l\<rparr>"
  let ?d = "dmove_to_end (cache_key q t) (dset (cache_key q t) ?e (entries c))"
  have "set (evict_to (max_entries c) ?d) \<subseteq> insert (cache_key q t, ?e) (set (entries c))"
    using set_evict_to set_dmove_to_end set_dset by fast
  moreover have "life_ok c (of_int l)"
    using assms l by (intro ttl_for_life_ok) (simp_all add: cache_inv_def)
  moreover have "dwf (evict_to (max_entries c) ?d)"
    using assms by (auto simp: evict_to_drop cache_inv_def)
  ultimately show ?thesis
    using assms l w
    by (fastforce simp: cache_put_def Let_def cache_inv_def life_ok_def evict_to_drop)
qed

section \<open>Runs of the cache\<close>

text \<open>Every operation of the class, as the steps of one machine.\<close>

inductive cache_step ::
  "(reply \<Rightarrow> 'w option) \<Rightarrow> ('w \<Rightarrow> reply option) \<Rightarrow> 'w dns_cache \<Rightarrow> 'w dns_cache \<Rightarrow> bool"
  for pack parse where
  step_get: "cache_step pack parse c (snd (cache_get parse c q t now))"
| step_put: "cache_step pack parse c (snd (cache_put pack c q t r now))"
| step_invalidate: "cache_step pack parse c (snd (cache_invalidate c q qt))"
| step_clear: "cache_step pack parse c (cache_clear c)"
| step_purge: "cache_step pack parse c (snd (purge_expired c now))"

inductive_cases cache_stepE: "cache_step pack parse c c'"

inductive cache_run ::
  "(reply \<Rightarrow> 'w option) \<Rightarrow> ('w \<Rightarrow> reply option) \<Rightarrow> 'w dns_cache \<Rightarrow> 'w dns_cache \<Rightarrow> bool"
  for pack parse c0 where
  run_refl: "cache_run pack parse c0 c0"
| run_step: "cache_run pack parse c0 c \<Longrightarrow> cache_step pack parse c c' \<Longrightarrow> cache_run pack parse c0 c'"

lemma cache_step_inv: "cache_step pack parse c c' \<Longrightarrow> cache_inv c \<Longrightarrow> cache_inv c'"
proof (induction rule: cache_step.induct)
  case (step_invalidate c q qt)
  then show ?case by (simp add: cache_invalidate_def Let_def fold_ddel_filter cache_inv_filter)
next
  case (step_purge c now)
  then show ?case by (simp add: purge_expired_def Let_def fold_ddel_filter cache_inv_filter)
next
  case (step_clear c)
  then show ?case by (simp add: cache_clear_def cache_inv_def)
qed (simp_all add: cache_get_inv cache_put_inv)

lemma new_cache_inv: "cache_inv (new_cache n mn neg mx)"
  by (simp add: new_cache_def cache_inv_def)

text \<open>
  C4. Whatever sequence of lookups, stores, invalidations, purges and clears the threads run, the
  cache built by the constructor never holds more than \<open>max_entries\<close> entries, holds one entry
  per name and type, and keeps no entry longer than the configured lifetimes allow.
\<close>

theorem cache_run_invariant:
  assumes "cache_run pack parse (new_cache n mn neg mx) c"
  shows "cache_inv c \<and> cache_size c \<le> nat (max 1 n)"
proof -
  have "cache_inv c \<and> max_entries c = nat (max 1 n)"
    using assms
  proof (induction rule: cache_run.induct)
    case (run_step c c')
    have "max_entries c' = max_entries c"
      using run_step.hyps(2)
      by (auto elim!: cache_stepE simp: cache_get_def cache_put_def cache_invalidate_def cache_clear_def
          purge_expired_def Let_def split: option.splits)
    with run_step show ?case by (auto dest: cache_step_inv)
  next
    case run_refl
    show ?case by (simp add: new_cache_inv) (simp add: new_cache_def)
  qed
  then show ?thesis
    by (auto simp: cache_inv_def cache_size_def)
qed

definition example_reply :: reply where
  "example_reply = \<lparr>rcode = 0, tc = False, rrs = [\<lparr>rname = ''a.b.'', rtype = 1, rclass = 1, ttl = 300, rdata = ''192.0.2.1''\<rparr>],
     auth = [], ar = [\<lparr>rname = ''.'', rtype = 41, rclass = 1232, ttl = 0, rdata = []\<rparr>]\<rparr>"

theorem cache_run_invariant_witness:
  "cache_inv (snd (cache_put Some (new_cache 2 30 60 3600) ''a.b'' ''A'' example_reply 0))"
  using cache_run_invariant [of Some Some, OF run_step [OF run_refl step_put]] by blast

section \<open>What a lookup returns\<close>

lemma cache_put_frame:
  "max_entries (snd (cache_put pack c q t r now)) = max_entries c"
  "min_ttl (snd (cache_put pack c q t r now)) = min_ttl c"
  "negative_ttl (snd (cache_put pack c q t r now)) = negative_ttl c"
  "max_ttl (snd (cache_put pack c q t r now)) = max_ttl c"
  by (cases "ttl_for c r"; cases "pack r"; simp add: cache_put_def Let_def)+

lemma ttl_for_put: "ttl_for (snd (cache_put pack c q t r now)) r' = ttl_for c r'"
  unfolding ttl_for_def cache_put_frame ..

lemma dget_evict_other:
  assumes "dwf d" and "dget (evict_to m d) k = Some v" shows "dget d k = Some v"
  using assms by (auto intro!: dget_in_dwf dest!: dget_Some_in set_evict_to [THEN subsetD])

lemma dmove_dset_snoc: "dmove_to_end k (dset k v d) = ddel k (dset k v d) @ [(k, v)]"
  by (simp add: dmove_to_end_def)

lemma ddel_wf: "dwf d \<Longrightarrow> dwf (ddel k d @ [(k, v)])"
  by (auto simp: dwf_def dkeys_def ddel_def distinct_map_filter)

lemma evict_to_snoc: "1 \<le> m \<Longrightarrow> evict_to m (d @ [x]) = evict_to (m - 1) d @ [x]"
  by (simp add: evict_to_drop Suc_diff_le)

text \<open>The entries after a store: the most recently used last, the oldest ones dropped.\<close>

lemma cache_put_entries:
  assumes "1 \<le> max_entries c" and "ttl_for c r = Some l" and "pack r = Some w"
  shows "cache_put pack c q t r now =
    (True, c\<lparr>entries := evict_to (max_entries c - 1) (ddel (cache_key q t) (entries c)) @
       [(cache_key q t, \<lparr>wire = w, stored_at = now, expires_at = now + of_int l\<rparr>)]\<rparr>)"
  using assms by (simp add: cache_put_def Let_def dmove_dset_snoc evict_to_snoc)

lemma dget_evict_ddel: "dget (evict_to m (ddel k d)) k = None"
  unfolding dget_None_iff evict_to_drop
  by (auto simp: dkeys_def ddel_def dest: in_set_dropD)

lemma get_after_put_expr:
  assumes inv: "cache_inv c" and codec: "\<And>r. \<exists>w. pack r = Some w \<and> parse w = Some r"
    and ttl: "ttl_for c r = Some l" and same: "cache_key q' t' = cache_key q t"
  shows "fst (cache_get parse (snd (cache_put pack c q t r now)) q' t' now') =
           (if now + of_int l \<le> now' then None else Some (age_reply (float_int (now' - now)) r))"
proof -
  from codec obtain w where w: "pack r = Some w" "parse w = Some r" by blast
  from inv have m: "1 \<le> max_entries c" by (simp add: cache_inv_def)
  note put = cache_put_entries [where c = c and r = r and pack = pack and w = w and l = l, OF m ttl w(1), of q t now]
  show ?thesis
    by (simp add: put cache_get_def Let_def same dget_append dget_evict_ddel dget_Cons w(2))
qed

text \<open>
  Storing then asking: an answer the cache accepted is returned for the same name in any
  case and with or without a final dot, until its lifetime ends and never after. What is returned is
  the stored reply with every time to live lowered by the whole seconds spent in the cache.
\<close>

theorem get_after_put:
  assumes inv: "cache_inv c" and codec: "\<And>r. \<exists>w. pack r = Some w \<and> parse w = Some r"
    and ttl: "ttl_for c r = Some l" and same: "cache_key q' t' = cache_key q t"
  shows "fst (cache_put pack c q t r now) \<and>
    fst (cache_get parse (snd (cache_put pack c q t r now)) q' t' now') =
      (if now + of_int l \<le> now' then None else Some (age_reply (float_int (now' - now)) r))"
proof
  from codec obtain w where "pack r = Some w" by blast
  with ttl show "fst (cache_put pack c q t r now)" by (simp add: cache_put_def Let_def)
qed (rule get_after_put_expr [OF inv codec ttl same])

theorem get_after_put_witness:
  "fst (cache_get Some (snd (cache_put Some (new_cache 2 30 60 3600) ''A.b.'' ''a'' example_reply 10)) ''a.B'' ''A'' 20)
     = Some (age_reply 10 example_reply)"
proof -
  have k: "cache_key ''a.B'' ''A'' = cache_key ''A.b.'' ''a''" by code_simp
  have l: "ttl_for (new_cache 2 30 60 3600) example_reply = Some 300"
    by (simp add: ttl_for_def new_cache_def example_reply_def NOERROR_def NXDOMAIN_def OPT_def)
  from get_after_put [OF new_cache_inv _ l k, of Some Some 10 20] show ?thesis
    by (simp add: float_int_def)
qed

lemma age_reply_ttl:
  assumes "i < length (rrs r)" and "rtype (rrs r ! i) \<noteq> OPT"
  shows "ttl (rrs (age_reply e r) ! i) \<le> max 1 (ttl (rrs r ! i))"
  using assms by (auto simp: age_reply_def age_rr_def)

lemma age_reply_shape: "map rtype (rrs (age_reply e r)) = map rtype (rrs r)" "rcode (age_reply e r) = rcode r"
  by (auto simp: age_reply_def age_rr_def)

text \<open>
  No client is told to keep an answer longer than its origin said: a reply served from the
  cache has the records of the stored reply in order, and each answer's time to live is at most
  the original one (one second when that has run out). The OPT pseudo-record is left alone.
\<close>

theorem served_ttl_never_exceeds_origin:
  assumes "cache_inv c" and "\<And>r. \<exists>w. pack r = Some w \<and> parse w = Some r"
    and "ttl_for c r = Some l" and "cache_key q' t' = cache_key q t"
    and "fst (cache_get parse (snd (cache_put pack c q t r now)) q' t' now') = Some r'"
  shows "map rtype (rrs r') = map rtype (rrs r) \<and>
    (\<forall>i<length (rrs r). rtype (rrs r ! i) \<noteq> OPT \<longrightarrow> ttl (rrs r' ! i) \<le> max 1 (ttl (rrs r ! i)))"
proof -
  have "r' = age_reply (float_int (now' - now)) r"
    using assms(5) unfolding get_after_put_expr [OF assms(1,2,3,4)] by (simp split: if_splits)
  then show ?thesis by (simp add: age_reply_shape age_reply_ttl)
qed

theorem served_ttl_never_exceeds_origin_witness:
  "\<exists>r'. fst (cache_get Some (snd (cache_put Some (new_cache 2 30 60 3600) ''a.b'' ''A'' example_reply 10)) ''a.b'' ''A'' 20) = Some r'
     \<and> ttl (rrs r' ! 0) \<le> 300"
proof -
  have l: "ttl_for (new_cache 2 30 60 3600) example_reply = Some 300"
    by (simp add: ttl_for_def new_cache_def example_reply_def NOERROR_def NXDOMAIN_def OPT_def)
  have got: "fst (cache_get Some (snd (cache_put Some (new_cache 2 30 60 3600) ''a.b'' ''A'' example_reply 10)) ''a.b'' ''A'' 20)
      = Some (age_reply 10 example_reply)"
    unfolding get_after_put_expr [OF new_cache_inv _ l refl, of Some Some "''a.b''" "''A''" 10 20, simplified]
    by (simp add: float_int_def)
  from served_ttl_never_exceeds_origin [OF new_cache_inv _ l refl got]
  have "ttl (rrs (age_reply 10 example_reply) ! 0) \<le> 300" by (simp add: example_reply_def OPT_def)
  with got show ?thesis by blast
qed

section \<open>Invalidation and eviction\<close>

lemma entries_update_entries: "entries (c\<lparr>entries := d\<rparr>) = d"
  by simp

text \<open>
  Invalidating a name drops that name and all its subdomains, for the given type or for
  every type, drops nothing else, and reports how many entries went.
\<close>

theorem invalidate_exact:
  assumes "dwf (entries c)"
  shows "dget (entries (snd (cache_invalidate c q qt))) k =
      (if under_name (fst (cache_key q [])) (fst k) \<and> (\<forall>t. qt = Some t \<longrightarrow> snd k = upper t)
       then None else dget (entries c) k) \<and>
    fst (cache_invalidate c q qt) + cache_size (snd (cache_invalidate c q qt)) = cache_size c"
proof
  show "dget (entries (snd (cache_invalidate c q qt))) k =
      (if under_name (fst (cache_key q [])) (fst k) \<and> (\<forall>t. qt = Some t \<longrightarrow> snd k = upper t)
       then None else dget (entries c) k)"
    by (cases qt) (auto simp: cache_invalidate_def Let_def od.remove_loop cache_key_def
        dget_None_iff [symmetric])
  let ?P = "\<lambda>k. under_name (lower (rstrip_by (\<lambda>c. c = CHR ''.'') q)) (fst k)
      \<and> (case qt of None \<Rightarrow> True | Some t \<Rightarrow> snd k = upper t)"
  have "filter (\<lambda>(k, v). k \<notin> set (filter ?P (dkeys (entries c)))) (entries c)
      = filter (\<lambda>x. \<not> ?P (fst x)) (entries c)"
    by (rule filter_cong) (auto simp: dkeys_def case_prod_unfold)
  moreover have "length (filter ?P (dkeys (entries c))) = length (filter (\<lambda>x. ?P (fst x)) (entries c))"
    by (simp add: dkeys_def filter_map comp_def)
  ultimately show "fst (cache_invalidate c q qt) + cache_size (snd (cache_invalidate c q qt)) = cache_size c"
    using sum_length_filter_compl [of "\<lambda>x. ?P (fst x)" "entries c"]
    unfolding cache_invalidate_def Let_def fst_conv snd_conv cache_size_def fold_ddel_filter
    by (simp only: entries_update_entries)
qed

theorem invalidate_exact_witness:
  "dget (entries (snd (cache_invalidate
      (snd (cache_put Some (new_cache 2 30 60 3600) ''cdn.bad.org'' ''A'' example_reply 0)) ''Bad.org.'' None)))
     (''cdn.bad.org'', ''A'') = None"
proof -
  let ?c = "snd (cache_put Some (new_cache 2 30 60 3600) ''cdn.bad.org'' ''A'' example_reply 0)"
  have "dwf (entries ?c)"
    using cache_put_inv [OF new_cache_inv, of Some 2 30 60 3600] unfolding cache_inv_def by blast
  moreover have "under_name (fst (cache_key ''Bad.org.'' [])) ''cdn.bad.org''" by code_simp
  ultimately show ?thesis by (simp add: invalidate_exact [THEN conjunct1])
qed

text \<open>
  The cache evicts the least recently used entry: storing a new key appends it as the most
  recent, drops the front of the order only when the cache is full, and keeps every other entry
  in order; a hit moves its key to the back and changes nothing else.
\<close>

theorem lru_order:
  assumes inv: "cache_inv c" and ttl: "ttl_for c r = Some l" and pack: "pack r = Some w"
  shows "(cache_key q t \<notin> set (dkeys (entries c)) \<longrightarrow>
           entries (snd (cache_put pack c q t r now)) =
             (if cache_size c < max_entries c then entries c else tl (entries c)) @
               [(cache_key q t, \<lparr>wire = w, stored_at = now, expires_at = now + of_int l\<rparr>)]) \<and>
    (fst (cache_get parse c q t now') = Some r' \<longrightarrow>
           (\<exists>e. dget (entries c) (cache_key q t) = Some e \<and> now' < expires_at e \<and>
               entries (snd (cache_get parse c q t now')) =
                 filter (\<lambda>x. fst x \<noteq> cache_key q t) (entries c) @ [(cache_key q t, e)]))"
proof -
  from inv have m: "1 \<le> max_entries c" and len: "length (entries c) \<le> max_entries c"
    by (simp_all add: cache_inv_def)
  note put = cache_put_entries [where c = c and r = r and pack = pack and w = w and l = l, OF m ttl pack, of q t now]
  have "cache_key q t \<notin> set (dkeys (entries c)) \<Longrightarrow>
           entries (snd (cache_put pack c q t r now)) =
             (if cache_size c < max_entries c then entries c else tl (entries c)) @
               [(cache_key q t, \<lparr>wire = w, stored_at = now, expires_at = now + of_int l\<rparr>)]"
    using m len by (auto simp: put ddel_absent evict_to_drop cache_size_def drop_Suc
        not_less dest!: le_antisym)
  moreover have "fst (cache_get parse c q t now') = Some r' \<Longrightarrow>
           \<exists>e. dget (entries c) (cache_key q t) = Some e \<and> now' < expires_at e \<and>
               entries (snd (cache_get parse c q t now')) =
                 filter (\<lambda>x. fst x \<noteq> cache_key q t) (entries c) @ [(cache_key q t, e)]"
    by (auto simp: cache_get_def Let_def dmove_to_end_def ddel_def case_prod_unfold
        split: option.splits if_splits)
  ultimately show ?thesis by blast
qed

theorem lru_order_witness:
  "dkeys (entries (snd (cache_put Some (snd (cache_put Some (new_cache 1 30 60 3600) ''a.b'' ''A'' example_reply 0))
       ''c.d'' ''A'' example_reply 1))) = [cache_key ''c.d'' ''A'']"
proof -
  let ?start = "new_cache 1 30 60 3600 :: reply dns_cache"
  let ?c = "snd (cache_put Some ?start ''a.b'' ''A'' example_reply 0)"
  have l0: "ttl_for ?start example_reply = Some 300"
    by (simp add: ttl_for_def new_cache_def example_reply_def NOERROR_def NXDOMAIN_def OPT_def)
  have m: "max_entries ?c = 1" unfolding cache_put_frame by (simp add: new_cache_def)
  have n0: "entries ?start = []" "1 \<le> max_entries ?start" by (simp_all add: new_cache_def)
  have e: "entries ?c = [(cache_key ''a.b'' ''A'', \<lparr>wire = example_reply, stored_at = 0, expires_at = 300\<rparr>)]"
    using cache_put_entries [where pack = Some and w = example_reply and q = "''a.b''" and t = "''A''"
      and now = 0, OF n0(2) l0 refl] by (simp add: n0(1) ddel_def)
  have l: "ttl_for ?c example_reply = Some 300"
    unfolding ttl_for_put by (rule l0)
  have k: "cache_key ''c.d'' ''A'' \<noteq> cache_key ''a.b'' ''A''" by code_simp
  have inv: "cache_inv ?c" by (rule cache_put_inv [OF new_cache_inv])
  have "entries (snd (cache_put Some ?c ''c.d'' ''A'' example_reply 1)) =
      (if cache_size ?c < max_entries ?c then entries ?c else tl (entries ?c)) @
        [(cache_key ''c.d'' ''A'', \<lparr>wire = example_reply, stored_at = 1, expires_at = 1 + of_int 300\<rparr>)]"
    using lru_order [OF inv l, of Some example_reply "''c.d''" "''A''" 1 Some 1 example_reply] k by (simp add: e dkeys_def)
  then show ?thesis by (simp add: e m cache_size_def dkeys_def)
qed

end
