(* ===== verification/Dns_Guard.thy ===== *)
theory Dns_Guard
  imports Py_Net Dns_Cache
begin

text \<open>
  \<open>_UpstreamGuard\<close> and \<open>_zone_of\<close> of \<open>homesoc/dnsfilter/server.py\<close>: the short memory of
  failed names and zones and the slots that cap concurrent upstream work, with
  \<open>registrable_domain\<close> of \<open>homesoc/dnsfilter/reputation.py\<close>. The counters that the guard and the
  connection table keep per key share one interface, \<open>counter_table\<close>.
\<close>

section \<open>Counters per key\<close>

text \<open>\<open>d[k] = d.get(k, 0) + 1\<close>, and its inverse, which drops a counter that reaches zero.\<close>

definition dcount :: "('k, nat) dict \<Rightarrow> 'k \<Rightarrow> nat" where
  "dcount d k = (case dget d k of None \<Rightarrow> 0 | Some n \<Rightarrow> n)"

definition dinc :: "'k \<Rightarrow> ('k, nat) dict \<Rightarrow> ('k, nat) dict" where
  "dinc k d = dset k (dcount d k + 1) d"

definition ddec :: "'k \<Rightarrow> ('k, nat) dict \<Rightarrow> ('k, nat) dict" where
  "ddec k d = (let n = dcount d k - 1 in if 0 < n then dset k n d else ddel k d)"

locale counter_table =
  fixes cnt :: "'t \<Rightarrow> 'k \<Rightarrow> nat" and inc :: "'k \<Rightarrow> 't \<Rightarrow> 't" and dec :: "'k \<Rightarrow> 't \<Rightarrow> 't"
  assumes cnt_inc: "cnt (inc k t) k' = cnt t k' + (if k' = k then 1 else 0)"
    and cnt_dec: "cnt (dec k t) k' = cnt t k' - (if k' = k then 1 else 0)"
begin

text \<open>The table counts, for each key, the members of a list with that key.\<close>

definition tallies :: "'t \<Rightarrow> ('x \<Rightarrow> 'k) \<Rightarrow> 'x list \<Rightarrow> bool" where
  "tallies t f xs \<longleftrightarrow> (\<forall>k. cnt t k = length (filter (\<lambda>x. f x = k) xs))"

lemma tallies_add: "tallies t f xs \<Longrightarrow> tallies (inc (f x) t) f (x # xs)"
  by (auto simp: tallies_def cnt_inc)

lemma tallies_snoc: "tallies t f xs \<Longrightarrow> tallies (inc (f x) t) f (xs @ [x])"
  by (auto simp: tallies_def cnt_inc)

lemma length_filter_remove1:
  "x \<in> set xs \<Longrightarrow> length (filter P (remove1 x xs)) = length (filter P xs) - (if P x then 1 else 0)"
  by (auto simp: filter_remove1 length_remove1)

lemma tallies_remove:
  assumes "tallies t f xs" and "x \<in> set xs" shows "tallies (dec (f x) t) f (remove1 x xs)"
  using assms by (auto simp: tallies_def cnt_dec length_filter_remove1)

end

interpretation ct: counter_table dcount dinc ddec
  by unfold_locales (auto simp: dcount_def dinc_def ddec_def Let_def split: option.splits)

section \<open>Zones\<close>

definition TWO_LEVEL_SUFFIXES :: "str set" where
  "TWO_LEVEL_SUFFIXES = {
    ''co.uk'', ''org.uk'', ''ac.uk'', ''gov.uk'', ''me.uk'', ''net.uk'', ''ltd.uk'', ''plc.uk'', ''com.au'',
    ''net.au'', ''org.au'', ''edu.au'', ''gov.au'', ''co.nz'', ''net.nz'', ''org.nz'', ''co.jp'', ''ne.jp'',
    ''or.jp'', ''ac.jp'', ''go.jp'', ''com.br'', ''net.br'', ''org.br'', ''gov.br'', ''com.mx'', ''org.mx'',
    ''gob.mx'', ''co.za'', ''org.za'', ''com.ar'', ''com.co'', ''com.pe'', ''com.ve'', ''com.ec'',
    ''com.uy'', ''com.cn'', ''net.cn'', ''org.cn'', ''gov.cn'', ''com.tw'', ''com.hk'', ''co.kr'',
    ''or.kr'', ''co.in'', ''net.in'', ''org.in'', ''com.sg'', ''com.my'', ''co.id'', ''com.ph'', ''com.vn'',
    ''com.tr'', ''co.il'', ''com.eg'', ''com.sa'', ''com.pk'', ''com.ng'', ''co.ke'', ''com.ua'',
    ''com.pl'', ''co.th'', ''com.bd'', ''com.np'', ''com.lk''}"

abbreviation is_dot :: "char \<Rightarrow> bool" where "is_dot c \<equiv> c = CHR ''.''"

text \<open>\<open>xs[-n:]\<close>.\<close>

definition last_n :: "nat \<Rightarrow> 'a list \<Rightarrow> 'a list" where
  "last_n n xs = drop (length xs - n) xs"

definition registrable_domain :: "str \<Rightarrow> str" where
  "registrable_domain name =
     (let n = lower (rstrip_by is_dot (strip name))
      in if n = [] then n
         else if ip_address n \<noteq> None then n
         else
           (let labels = split_on CHR ''.'' n
            in if length labels \<le> 2 then n
               else if join_with CHR ''.'' (last_n 2 labels) \<in> TWO_LEVEL_SUFFIXES
               then join_with CHR ''.'' (last_n 3 labels)
               else join_with CHR ''.'' (last_n 2 labels)))"

definition zone_of :: "str \<Rightarrow> str" where
  "zone_of qname =
     (let name = rstrip_by is_dot (lower qname); labels = split_on CHR ''.'' name;
          kept = (\<lambda>n. if n < length labels then join_with CHR ''.'' (last_n n labels) else name)
      in if suffix ''.arpa'' name
         then if suffix ''.in-addr.arpa'' name then kept 4
              else if suffix ''.ip6.arpa'' name then kept 10
              else if 2 < count_list name CHR ''.'' then after_first CHR ''.'' name else name
         else (let z = registrable_domain name in if z = [] then ''.'' else z))"

lemma zone_of_lower: "lower q = lower q' \<Longrightarrow> zone_of q = zone_of q'"
  by (simp add: zone_of_def)

section \<open>The guard\<close>

definition FAIL_CACHE_SECONDS :: real where "FAIL_CACHE_SECONDS = 5"
definition ZONE_FAIL_THRESHOLD :: nat where "ZONE_FAIL_THRESHOLD = 3"
definition ZONE_FAIL_WINDOW :: real where "ZONE_FAIL_WINDOW = 30"
definition ZONE_HOLD_SECONDS :: real where "ZONE_HOLD_SECONDS = 30"
definition UPSTREAM_INFLIGHT_PER_CLIENT :: nat where "UPSTREAM_INFLIGHT_PER_CLIENT = 32"
definition UPSTREAM_INFLIGHT_PER_ZONE :: nat where "UPSTREAM_INFLIGHT_PER_ZONE = 32"
definition UPSTREAM_INFLIGHT_TOTAL :: nat where "UPSTREAM_INFLIGHT_TOTAL = 256"
definition GUARD_MAX_ENTRIES :: nat where "GUARD_MAX_ENTRIES = 10000"

record upstream_guard =
  failed_names :: "(str \<times> str, real) dict"
  zone_failures :: "(str, real list) dict"
  zone_hold :: "(str, real) dict"
  inflight_client :: "(str, nat) dict"
  inflight_zone :: "(str, nat) dict"
  inflight :: nat
  inflight_udp :: nat
  fast_failed :: nat
  busy_rejected :: nat

definition new_guard :: upstream_guard where
  "new_guard = \<lparr>failed_names = [], zone_failures = [], zone_hold = [], inflight_client = [],
     inflight_zone = [], inflight = 0, inflight_udp = 0, fast_failed = 0, busy_rejected = 0\<rparr>"

definition bounded_set :: "'k \<Rightarrow> 'v \<Rightarrow> ('k, 'v) dict \<Rightarrow> ('k, 'v) dict" where
  "bounded_set k v d = evict_to GUARD_MAX_ENTRIES (dmove_to_end k (dset k v d))"

text \<open>Whether a name or its zone is failed locally: the reason, or \<open>None\<close> when it may go upstream.\<close>

definition guard_check :: "str \<Rightarrow> str \<Rightarrow> str \<Rightarrow> real \<Rightarrow> upstream_guard \<Rightarrow> str option \<times> upstream_guard" where
  "guard_check qname qtype zone now g =
     (let k = (lower qname, qtype);
          by_zone = (\<lambda>g. case dget (zone_hold g) zone of
              None \<Rightarrow> (None, g)
            | Some h \<Rightarrow> if now < h then (Some ''upstream:zone-failing'', g\<lparr>fast_failed := fast_failed g + 1\<rparr>)
                else (None, g\<lparr>zone_hold := ddel zone (zone_hold g)\<rparr>))
      in case dget (failed_names g) k of
           None \<Rightarrow> by_zone g
         | Some e \<Rightarrow> if now < e then (Some ''upstream:recent-failure'', g\<lparr>fast_failed := fast_failed g + 1\<rparr>)
             else by_zone (g\<lparr>failed_names := ddel k (failed_names g)\<rparr>))"

definition ckey :: "bool \<Rightarrow> str \<Rightarrow> str" where
  "ckey tcp client = (if tcp then ''tcp:'' else ''udp:'') @ client"

definition guard_acquire :: "str \<Rightarrow> str \<Rightarrow> bool \<Rightarrow> upstream_guard \<Rightarrow> bool \<times> upstream_guard" where
  "guard_acquire client zone tcp g =
     (if (\<not> tcp \<and> UPSTREAM_INFLIGHT_TOTAL \<le> inflight_udp g) \<or>
         UPSTREAM_INFLIGHT_PER_CLIENT \<le> dcount (inflight_client g) (ckey tcp client) \<or>
         UPSTREAM_INFLIGHT_PER_ZONE \<le> dcount (inflight_zone g) zone
      then (False, g\<lparr>busy_rejected := busy_rejected g + 1\<rparr>)
      else (True, g\<lparr>inflight := inflight g + 1,
                    inflight_udp := (if tcp then inflight_udp g else inflight_udp g + 1),
                    inflight_client := dinc (ckey tcp client) (inflight_client g),
                    inflight_zone := dinc zone (inflight_zone g)\<rparr>))"

definition guard_release :: "str \<Rightarrow> str \<Rightarrow> bool \<Rightarrow> upstream_guard \<Rightarrow> upstream_guard" where
  "guard_release client zone tcp g =
     g\<lparr>inflight := inflight g - 1,
       inflight_udp := (if tcp then inflight_udp g else inflight_udp g - 1),
       inflight_client := ddec (ckey tcp client) (inflight_client g),
       inflight_zone := ddec zone (inflight_zone g)\<rparr>"

text \<open>The failures of the zone within the window, this one included.\<close>

definition recent_failures :: "str \<Rightarrow> real \<Rightarrow> upstream_guard \<Rightarrow> real list" where
  "recent_failures zone now g =
     filter (\<lambda>t. now - t < ZONE_FAIL_WINDOW)
       (case dget (zone_failures g) zone of None \<Rightarrow> [] | Some ts \<Rightarrow> ts) @ [now]"

definition note_failure :: "str \<Rightarrow> str \<Rightarrow> str \<Rightarrow> real \<Rightarrow> upstream_guard \<Rightarrow> upstream_guard" where
  "note_failure qname qtype zone now g =
     (let g = g\<lparr>failed_names := bounded_set (lower qname, qtype) (now + FAIL_CACHE_SECONDS) (failed_names g)\<rparr>;
          times = recent_failures zone now g
      in if ZONE_FAIL_THRESHOLD \<le> length times
         then g\<lparr>zone_failures := ddel zone (zone_failures g),
                zone_hold := bounded_set zone (now + ZONE_HOLD_SECONDS) (zone_hold g)\<rparr>
         else g\<lparr>zone_failures := bounded_set zone times (zone_failures g)\<rparr>)"

definition guard_stats :: "upstream_guard \<Rightarrow> (str \<times> nat) list" where
  "guard_stats g = [(''inflight'', inflight g), (''inflight_udp'', inflight_udp g),
     (''fast_failed'', fast_failed g), (''busy_rejected'', busy_rejected g),
     (''zones_held'', length (zone_hold g))]"

section \<open>Slots\<close>

text \<open>What holds a slot: its client, its zone and whether it came over TCP.\<close>

type_synonym slot = "str \<times> str \<times> bool"

definition slot_client :: "slot \<Rightarrow> str" where "slot_client s = (case s of (c, z, tcp) \<Rightarrow> ckey tcp c)"
definition slot_zone :: "slot \<Rightarrow> str" where "slot_zone s = (case s of (c, z, tcp) \<Rightarrow> z)"
definition slot_udp :: "slot \<Rightarrow> bool" where "slot_udp s = (case s of (c, z, tcp) \<Rightarrow> \<not> tcp)"

lemmas slot_defs = slot_client_def slot_zone_def slot_udp_def

text \<open>The counters are exactly the slots held, and no cap is exceeded.\<close>

definition holds_slots :: "upstream_guard \<Rightarrow> slot list \<Rightarrow> bool" where
  "holds_slots g ws \<longleftrightarrow>
     inflight g = length ws \<and> inflight_udp g = length (filter slot_udp ws) \<and>
     ct.tallies (inflight_client g) slot_client ws \<and> ct.tallies (inflight_zone g) slot_zone ws"

definition within_caps :: "slot list \<Rightarrow> bool" where
  "within_caps ws \<longleftrightarrow>
     length (filter slot_udp ws) \<le> UPSTREAM_INFLIGHT_TOTAL \<and>
     (\<forall>k. length (filter (\<lambda>w. slot_client w = k) ws) \<le> UPSTREAM_INFLIGHT_PER_CLIENT) \<and>
     (\<forall>z. length (filter (\<lambda>w. slot_zone w = z) ws) \<le> UPSTREAM_INFLIGHT_PER_ZONE)"

lemma new_guard_slots: "holds_slots new_guard []"
  by (simp add: holds_slots_def new_guard_def ct.tallies_def dcount_def)

lemma acquire_slots:
  assumes "holds_slots g ws" and "within_caps ws" and "fst (guard_acquire c z tcp g)"
  shows "holds_slots (snd (guard_acquire c z tcp g)) ((c, z, tcp) # ws)" and "within_caps ((c, z, tcp) # ws)"
proof -
  from assms(3) have free: "\<not> (\<not> tcp \<and> UPSTREAM_INFLIGHT_TOTAL \<le> inflight_udp g)"
    "\<not> UPSTREAM_INFLIGHT_PER_CLIENT \<le> dcount (inflight_client g) (ckey tcp c)"
    "\<not> UPSTREAM_INFLIGHT_PER_ZONE \<le> dcount (inflight_zone g) z"
    by (auto simp: guard_acquire_def split: if_splits)
  have key: "slot_client (c, z, tcp) = ckey tcp c" "slot_zone (c, z, tcp) = z"
    "slot_udp (c, z, tcp) \<longleftrightarrow> \<not> tcp"
    by (simp_all add: slot_defs)
  show "holds_slots (snd (guard_acquire c z tcp g)) ((c, z, tcp) # ws)"
  proof -
    have "ct.tallies (dinc (ckey tcp c) (inflight_client g)) slot_client ((c, z, tcp) # ws)"
      "ct.tallies (dinc z (inflight_zone g)) slot_zone ((c, z, tcp) # ws)"
      using assms(1) ct.tallies_add [of _ slot_client ws "(c, z, tcp)", unfolded key]
        ct.tallies_add [of _ slot_zone ws "(c, z, tcp)", unfolded key]
      by (simp_all add: holds_slots_def)
    with assms(1) free show ?thesis
      by (auto simp: holds_slots_def guard_acquire_def key)
  qed
  show "within_caps ((c, z, tcp) # ws)"
    using assms(1,2) free by (auto simp: holds_slots_def within_caps_def key ct.tallies_def)
qed

lemma acquire_refused: "\<not> fst (guard_acquire c z tcp g) \<Longrightarrow> holds_slots (snd (guard_acquire c z tcp g)) ws = holds_slots g ws"
  by (auto simp: guard_acquire_def holds_slots_def split: if_splits)

lemma within_caps_remove1: "within_caps ws \<Longrightarrow> within_caps (remove1 w ws)"
  unfolding within_caps_def filter_remove1 [symmetric]
  by (auto simp: filter_remove1 length_remove1 intro: le_trans [OF diff_le_self])

lemma release_slots:
  assumes "holds_slots g ws" and "(c, z, tcp) \<in> set ws"
  shows "holds_slots (guard_release c z tcp g) (remove1 (c, z, tcp) ws)"
proof -
  have key: "slot_client (c, z, tcp) = ckey tcp c" "slot_zone (c, z, tcp) = z"
    "slot_udp (c, z, tcp) \<longleftrightarrow> \<not> tcp"
    by (simp_all add: slot_defs)
  from assms ct.tallies_remove [OF _ assms(2), of _ slot_client, unfolded key]
    ct.tallies_remove [OF _ assms(2), of _ slot_zone, unfolded key]
  show ?thesis
    by (simp add: holds_slots_def guard_release_def key length_remove1 ct.length_filter_remove1)
qed

lemma check_slots [simp]: "holds_slots (snd (guard_check q t z now g)) ws = holds_slots g ws"
  by (auto simp: guard_check_def Let_def holds_slots_def split: option.splits)

lemma note_failure_slots [simp]: "holds_slots (note_failure q t z now g) ws = holds_slots g ws"
  by (auto simp: note_failure_def Let_def holds_slots_def)

section \<open>Failures stay where they belong\<close>

lemma dget_bounded_set:
  assumes "dwf d" and "dget (bounded_set k v d) k' = Some u" and "k' \<noteq> k" shows "dget d k' = Some u"
proof -
  have "dwf (dmove_to_end k (dset k v d))" using assms(1) by auto
  from dget_evict_other [OF this assms(2) [unfolded bounded_set_def]] assms(3) show ?thesis by simp
qed

text \<open>The tables are dictionaries and bounded.\<close>

definition guard_ok :: "upstream_guard \<Rightarrow> bool" where
  "guard_ok g \<longleftrightarrow> dwf (failed_names g) \<and> dwf (zone_failures g) \<and> dwf (zone_hold g) \<and>
     length (failed_names g) \<le> GUARD_MAX_ENTRIES \<and> length (zone_failures g) \<le> GUARD_MAX_ENTRIES \<and>
     length (zone_hold g) \<le> GUARD_MAX_ENTRIES"

lemma new_guard_ok: "guard_ok new_guard"
  by (simp add: guard_ok_def new_guard_def)

lemma bounded_set_ok:
  "dwf d \<Longrightarrow> dwf (bounded_set k v d)" "length (bounded_set k v d) \<le> GUARD_MAX_ENTRIES"
  by (auto simp: bounded_set_def evict_to_drop)

lemma length_ddel_trans: "length d \<le> m \<Longrightarrow> length (ddel k d) \<le> m"
  by (auto simp: ddel_def intro: order_trans [OF length_filter_le])

lemma note_failure_ok: "guard_ok g \<Longrightarrow> guard_ok (note_failure q t z now g)"
  by (simp add: guard_ok_def note_failure_def Let_def bounded_set_ok length_ddel_trans dwf_ddel)

lemma check_ok: "guard_ok g \<Longrightarrow> guard_ok (snd (guard_check q t z now g))"
  by (auto simp: guard_ok_def guard_check_def Let_def length_ddel_trans split: option.splits)

lemma guard_slots_ok [simp]:
  "guard_ok (snd (guard_acquire c z tcp g)) = guard_ok g" "guard_ok (guard_release c z tcp g) = guard_ok g"
  by (simp_all add: guard_ok_def guard_acquire_def guard_release_def)

lemma check_refuses:
  "fst (guard_check q t z now g) \<noteq> None \<longleftrightarrow>
     (\<exists>e. dget (failed_names g) (lower q, t) = Some e \<and> now < e) \<or>
     (\<exists>h. dget (zone_hold g) z = Some h \<and> now < h)"
  by (auto simp: guard_check_def Let_def split: option.splits)

text \<open>Which names a noted failure can newly refuse.\<close>

lemma failure_local:
  assumes ok: "guard_ok g"
    and refused: "fst (guard_check q' t' (zone_of q') now' (note_failure q t (zone_of q) now g)) \<noteq> None"
    and before: "fst (guard_check q' t' (zone_of q') now' g) = None"
  shows "zone_of q' = zone_of q \<and>
    (ZONE_FAIL_THRESHOLD \<le> length (recent_failures (zone_of q) now g) \<and> now' < now + ZONE_HOLD_SECONDS \<or>
     lower q' = lower q \<and> t' = t \<and> now' < now + FAIL_CACHE_SECONDS)"
proof -
  let ?g = "note_failure q t (zone_of q) now g"
  have wf: "dwf (failed_names g)" "dwf (zone_hold g)" using ok by (simp_all add: guard_ok_def)
  have recent [simp]: "recent_failures z now (g\<lparr>failed_names := d\<rparr>) = recent_failures z now g" for z d
    by (simp add: recent_failures_def)
  from refused [unfolded check_refuses] show ?thesis
  proof (elim disjE exE conjE)
    fix e assume e: "dget (failed_names ?g) (lower q', t') = Some e" "now' < e"
    have fn: "failed_names ?g = bounded_set (lower q, t) (now + FAIL_CACHE_SECONDS) (failed_names g)"
      by (simp add: note_failure_def Let_def)
    show ?thesis
    proof (cases "(lower q', t') = (lower q, t)")
      case True
      then have "e = now + FAIL_CACHE_SECONDS"
        using e(1) unfolding fn bounded_set_def dmove_dset_snoc
        by (auto dest!: dget_Some_in set_evict_to [THEN subsetD] simp: ddel_def)
      with True e(2) zone_of_lower [of q' q] show ?thesis by simp
    next
      case False
      with dget_bounded_set [OF wf(1) e(1) [unfolded fn]] e(2) before check_refuses [of q' t' _ now' g]
      show ?thesis by blast
    qed
  next
    fix h assume h: "dget (zone_hold ?g) (zone_of q') = Some h" "now' < h"
    show ?thesis
    proof (cases "ZONE_FAIL_THRESHOLD \<le> length (recent_failures (zone_of q) now g) \<and> zone_of q' = zone_of q")
      case True
      then have zh: "zone_hold ?g = bounded_set (zone_of q) (now + ZONE_HOLD_SECONDS) (zone_hold g)"
        by (simp add: note_failure_def Let_def)
      have "h = now + ZONE_HOLD_SECONDS"
        using h(1) True unfolding zh bounded_set_def dmove_dset_snoc
        by (auto dest!: dget_Some_in set_evict_to [THEN subsetD] simp: ddel_def)
      with True h(2) show ?thesis by simp
    next
      case False
      with h(1) have "dget (zone_hold g) (zone_of q') = Some h"
        by (auto simp: note_failure_def Let_def split: if_splits dest: dget_bounded_set [OF wf(2)])
      with h(2) before check_refuses [of q' t' _ now' g] show ?thesis by blast
    qed
  qed
qed

text \<open>
  C24. A failing name or zone costs nobody else: whatever the guard remembers, noting the failure of
  one query never makes a name of another zone be refused that was not refused before. In its own zone
  another name (or type) is newly refused only from the third failure within the window on, and then
  for the hold time at most; the failed name itself for \<open>FAIL_CACHE_SECONDS\<close> at most.
\<close>

theorem failure_is_local:
  assumes "guard_ok g"
    and "fst (guard_check q' t' (zone_of q') now' (note_failure q t (zone_of q) now g)) \<noteq> None"
    and "fst (guard_check q' t' (zone_of q') now' g) = None"
  shows "zone_of q' = zone_of q \<and>
    (ZONE_FAIL_THRESHOLD \<le> length (recent_failures (zone_of q) now g) \<and> now' < now + ZONE_HOLD_SECONDS \<or>
     lower q' = lower q \<and> t' = t \<and> now' < now + FAIL_CACHE_SECONDS)"
  using assms by (rule failure_local)

definition example_guard :: upstream_guard where
  "example_guard = note_failure ''x.evil.com'' ''A'' ''evil.com'' 2
     (note_failure ''y.evil.com'' ''A'' ''evil.com'' 1 new_guard)"

lemma example_guard_eval:
  "zone_hold example_guard = []" "dget (zone_failures example_guard) ''evil.com'' = Some [1, 2]"
  "dget (failed_names example_guard) (''b.evil.com'', ''A'') = None"
  by (simp_all add: example_guard_def note_failure_def new_guard_def recent_failures_def Let_def bounded_set_def
      dmove_to_end_def ddel_def dget_Cons dict_simps ZONE_FAIL_THRESHOLD_def ZONE_FAIL_WINDOW_def GUARD_MAX_ENTRIES_def
      lower_def lower_char_def is_upper_def code_of_def)

theorem failure_is_local_witness:
  "ZONE_FAIL_THRESHOLD \<le> length (recent_failures (zone_of ''z.evil.com'') 3 example_guard)"
proof -
  have z: "zone_of ''b.evil.com'' = ''evil.com''" "zone_of ''z.evil.com'' = ''evil.com''" by code_simp+
  have l: "lower ''b.evil.com'' = ''b.evil.com''" "lower ''z.evil.com'' = ''z.evil.com''" by code_simp+
  have ok: "guard_ok example_guard" by (simp add: example_guard_def note_failure_ok new_guard_ok)
  have r: "recent_failures ''evil.com'' 3 example_guard = [1, 2, 3]"
    by (simp add: recent_failures_def example_guard_eval ZONE_FAIL_WINDOW_def)
  have h: "dget (zone_hold (note_failure ''z.evil.com'' ''A'' ''evil.com'' 3 example_guard)) ''evil.com'' = Some 33"
    using r by (simp add: note_failure_def Let_def recent_failures_def example_guard_eval ZONE_FAIL_THRESHOLD_def
        bounded_set_def dmove_to_end_def ddel_def ZONE_HOLD_SECONDS_def GUARD_MAX_ENTRIES_def dget_Cons)
  have "fst (guard_check ''b.evil.com'' ''A'' (zone_of ''b.evil.com'') 10
      (note_failure ''z.evil.com'' ''A'' (zone_of ''z.evil.com'') 3 example_guard)) \<noteq> None"
    unfolding check_refuses z using h by auto
  moreover have "fst (guard_check ''b.evil.com'' ''A'' (zone_of ''b.evil.com'') 10 example_guard) = None"
    using check_refuses [of "''b.evil.com''" "''A''" "''evil.com''" 10 example_guard]
    unfolding z l example_guard_eval by auto
  ultimately show ?thesis using failure_is_local [OF ok, of "''b.evil.com''" "''A''" 10 "''z.evil.com''" "''A''" 3] l
    by simp
qed

end
