(* ===== verification/Dns_Upstream.thy ===== *)
theory Dns_Upstream
  imports Dns_Guard
begin

text \<open>
  Upstream forwarding, \<open>homesoc/dnsfilter/upstream.py\<close>: the order of the paths, which datagram is
  accepted as the answer, the 0x20 case pattern and its exclusions, and the circuit breaker with its
  canary. Sockets are arguments: the datagrams that arrive on a UDP socket with their times, what the
  TCP and DoH exchanges return. The bootstrap of the DoH address and TLS pinning are not modelled.
\<close>

section \<open>Messages and addresses\<close>

record question =
  q_name :: str
  q_type :: nat
  q_class :: nat

record message =
  m_id :: nat
  m_questions :: "question list"
  m_body :: reply

record upstream_address =
  ua_host :: str
  ua_port :: nat

definition port_of :: "str \<Rightarrow> nat" where
  "port_of s = (if all_digits s then dec_val s else 53)"

definition parse_upstream :: "str \<Rightarrow> upstream_address" where
  "parse_upstream spec =
     (let s = strip spec
      in if prefix ''['' s
         then (let rest = after_first CHR '']'' (tl s)
               in \<lparr>ua_host = before CHR '']'' (tl s),
                   ua_port = (if prefix '':'' rest then port_of (tl rest) else 53)\<rparr>)
         else if count_list s CHR '':'' = 1
         then \<lparr>ua_host = before CHR '':'' s, ua_port = port_of (after_first CHR '':'' s)\<rparr>
         else \<lparr>ua_host = s, ua_port = 53\<rparr>)"

definition ua_label :: "upstream_address \<Rightarrow> str" where
  "ua_label a = (if ua_port a \<noteq> 53 then ua_host a @ '':'' @ dec_digits (ua_port a) else ua_host a)"

definition same_question :: "message \<Rightarrow> message \<Rightarrow> bool" where
  "same_question rq pq =
     (case (m_questions rq, m_questions pq) of
        (a # _, b # _) \<Rightarrow>
          lower (rstrip_by is_dot (q_name a)) = lower (rstrip_by is_dot (q_name b)) \<and>
          q_type a = q_type b \<and> q_class a = q_class b
      | _ \<Rightarrow> False)"

definition same_question_exact :: "message \<Rightarrow> message \<Rightarrow> bool" where
  "same_question_exact rq pq \<longleftrightarrow>
     same_question rq pq \<and> q_name (hd (m_questions rq)) = q_name (hd (m_questions pq))"

section \<open>The case pattern\<close>

text \<open>One random bit per character; a letter whose bit is set changes case.\<close>

definition flip_char :: "char \<Rightarrow> char" where
  "flip_char c = (if is_upper c then lower_char c else if is_lower c then upper_char c else c)"

fun randomize_case :: "bool list \<Rightarrow> str \<Rightarrow> str" where
  "randomize_case (b # bs) (c # cs) = (if b then flip_char c else c) # randomize_case bs cs"
| "randomize_case _ cs = cs"

definition restore_rr :: "str \<Rightarrow> rr \<Rightarrow> rr" where
  "restore_rr qname r = (if lower (rname r) = lower qname then r\<lparr>rname := qname\<rparr> else r)"

definition restore_case :: "message \<Rightarrow> message \<Rightarrow> message" where
  "restore_case reply original =
     (case (m_questions original, m_questions reply) of
        (a # _, b # _) \<Rightarrow>
          if q_name b = q_name a then reply
          else (let f = map (restore_rr (q_name a)); body = m_body reply
                in reply\<lparr>m_questions := map (\<lambda>q. q\<lparr>q_name := q_name a\<rparr>) (m_questions reply),
                         m_body := body\<lparr>rrs := f (rrs body), auth := f (auth body), ar := f (ar body)\<rparr>\<rparr>)
      | _ \<Rightarrow> reply)"

section \<open>State\<close>

definition BREAKER_PROBE_SECONDS :: real where "BREAKER_PROBE_SECONDS = 5"
definition RECENT_SUCCESS_SECONDS :: real where "RECENT_SUCCESS_SECONDS = 2"
definition CASE_MATCH_GRACE :: real where "CASE_MATCH_GRACE = 1 / 5"
definition CASE_EXCLUDE_FIRST :: real where "CASE_EXCLUDE_FIRST = 60"
definition CASE_EXCLUDE_MAX :: real where "CASE_EXCLUDE_MAX = 3600"

record upstream =
  up_addresses :: "upstream_address list"
  up_doh :: bool
  up_randomize :: bool
  up_ok :: bool
  last_ok_at :: "real option"
  failing_since :: "real option"
  consecutive_failures :: nat
  last_upstream :: "str option"
  per_upstream_failures :: "(str, nat) dict"
  next_probe_at :: real
  breaker_rejections :: nat
  canary_at :: "real option"
  canary_ok :: bool
  canary_runs :: nat
  case_normalizing :: "(str, real) dict"
  case_strikes :: "(str, nat) dict"

definition new_upstream :: "str list \<Rightarrow> str \<Rightarrow> bool \<Rightarrow> upstream" where
  "new_upstream specs doh randomize =
     \<lparr>up_addresses = map parse_upstream (filter (\<lambda>s. strip s \<noteq> []) specs), up_doh = (strip doh \<noteq> []),
      up_randomize = randomize, up_ok = True, last_ok_at = None, failing_since = None,
      consecutive_failures = 0, last_upstream = None, per_upstream_failures = [], next_probe_at = 0,
      breaker_rejections = 0, canary_at = None, canary_ok = True, canary_runs = 0,
      case_normalizing = [], case_strikes = []\<rparr>"

definition failing_for :: "real \<Rightarrow> upstream \<Rightarrow> real" where
  "failing_for now u =
     (if up_ok u then 0 else case failing_since u of None \<Rightarrow> 0 | Some t \<Rightarrow> max 0 (now - t))"

definition note_success :: "str \<Rightarrow> real \<Rightarrow> upstream \<Rightarrow> upstream" where
  "note_success label now u =
     u\<lparr>up_ok := True, last_ok_at := Some now, failing_since := None, consecutive_failures := 0,
       last_upstream := Some label, per_upstream_failures := dset label 0 (per_upstream_failures u),
       next_probe_at := 0\<rparr>"

definition note_path_failure :: "str \<Rightarrow> upstream \<Rightarrow> upstream" where
  "note_path_failure label u =
     u\<lparr>per_upstream_failures := dset label (dcount (per_upstream_failures u) label + 1) (per_upstream_failures u)\<rparr>"

definition mark_all_failed :: "real \<Rightarrow> upstream \<Rightarrow> upstream" where
  "mark_all_failed now u =
     (let u = u\<lparr>consecutive_failures := consecutive_failures u + 1\<rparr>
      in if up_ok u then u\<lparr>up_ok := False, failing_since := Some now\<rparr> else u)"

definition close_breaker :: "real \<Rightarrow> upstream \<Rightarrow> upstream" where
  "close_breaker now u =
     (let u = u\<lparr>last_ok_at := Some now\<rparr>
      in if up_ok u then u
         else u\<lparr>up_ok := True, failing_since := None, consecutive_failures := 0, next_probe_at := 0\<rparr>)"

definition breaker_allows :: "real \<Rightarrow> upstream \<Rightarrow> bool \<times> upstream" where
  "breaker_allows now u =
     (if up_ok u then (True, u)
      else if next_probe_at u \<le> now then (True, u\<lparr>next_probe_at := now + BREAKER_PROBE_SECONDS\<rparr>)
      else (False, u\<lparr>breaker_rejections := breaker_rejections u + 1\<rparr>))"

definition case_excluded :: "str \<Rightarrow> real \<Rightarrow> upstream \<Rightarrow> bool \<times> upstream" where
  "case_excluded label now u =
     (case dget (case_normalizing u) label of
        None \<Rightarrow> (False, u)
      | Some t \<Rightarrow> if now < t then (True, u) else (False, u\<lparr>case_normalizing := ddel label (case_normalizing u)\<rparr>))"

definition case_hold :: "nat \<Rightarrow> real" where
  "case_hold strikes = min CASE_EXCLUDE_MAX (CASE_EXCLUDE_FIRST * 2 ^ min (strikes - 1) 16)"

definition note_case_soft :: "str \<Rightarrow> real \<Rightarrow> upstream \<Rightarrow> upstream" where
  "note_case_soft label now u =
     (let n = dcount (case_strikes u) label + 1
      in u\<lparr>case_strikes := dset label n (case_strikes u),
           case_normalizing := dset label (now + case_hold n) (case_normalizing u)\<rparr>)"

definition note_case_exact :: "str \<Rightarrow> upstream \<Rightarrow> upstream" where
  "note_case_exact label u = u\<lparr>case_strikes := ddel label (case_strikes u)\<rparr>"

section \<open>One UDP exchange\<close>

text \<open>What a socket receives: too short to be a reply, unparsable, or a message.\<close>

datatype datagram = Runt | Unparsable nat | Datagram message

datatype udp_result = UdpTimeout | Exact message | Soft message real

text \<open>
  The receive loop: the datagrams in order of arrival, the deadline and the first reply that matched
  all but the case. A soft reply shortens the deadline; it is returned when the deadline passes.
\<close>

fun udp_wait :: "message \<Rightarrow> bool \<Rightarrow> real \<Rightarrow> message option \<Rightarrow> (real \<times> datagram) list \<Rightarrow> udp_result" where
  "udp_wait rq strict deadline soft [] = (case soft of None \<Rightarrow> UdpTimeout | Some r \<Rightarrow> Soft r deadline)"
| "udp_wait rq strict deadline soft ((t, d) # ds) =
     (if deadline \<le> t then (case soft of None \<Rightarrow> UdpTimeout | Some r \<Rightarrow> Soft r deadline)
      else case d of
        Datagram r \<Rightarrow>
          if m_id r \<noteq> m_id rq \<or> \<not> same_question rq r then udp_wait rq strict deadline soft ds
          else if \<not> strict \<or> same_question_exact rq r then Exact r
          else if soft = None then udp_wait rq strict (min deadline (t + CASE_MATCH_GRACE)) (Some r) ds
          else udp_wait rq strict deadline soft ds
      | _ \<Rightarrow> udp_wait rq strict deadline soft ds)"

text \<open>The exchange with its effect on the case bookkeeping (\<open>start\<close>: when the query was sent).\<close>

definition query_udp ::
  "str \<Rightarrow> real \<Rightarrow> real \<Rightarrow> message \<Rightarrow> bool \<Rightarrow> (real \<times> datagram) list \<Rightarrow> upstream \<Rightarrow> message option \<times> upstream" where
  "query_udp label timeout start rq strict ds u =
     (case udp_wait rq strict (start + timeout) None ds of
        UdpTimeout \<Rightarrow> (None, u)
      | Exact r \<Rightarrow> (Some r, if strict then note_case_exact label u else u)
      | Soft r t \<Rightarrow> (Some r, note_case_soft label t u))"

section \<open>The paths\<close>

text \<open>
  The network as a query meets it: the random bits of the case pattern, the datagrams and the TCP
  reply of each address (\<open>None\<close>: an error), and the DoH reply.
\<close>

record network =
  n_bits :: "bool list"
  n_udp :: "upstream_address \<Rightarrow> message \<Rightarrow> (real \<times> datagram) list"
  n_tcp :: "upstream_address \<Rightarrow> message \<Rightarrow> message option"
  n_doh :: "message \<Rightarrow> message option"

definition probe_for :: "bool list \<Rightarrow> upstream_address \<Rightarrow> message \<Rightarrow> real \<Rightarrow> upstream \<Rightarrow> (message \<times> bool) \<times> upstream" where
  "probe_for bits a rq now u =
     (if \<not> up_randomize u \<or> m_questions rq = [] then ((rq, False), u)
      else (let (ex, u) = case_excluded (ua_label a) now u
            in if ex then ((rq, False), u)
               else (let q = hd (m_questions rq)
                     in ((rq\<lparr>m_questions := q\<lparr>q_name := randomize_case bits (q_name q)\<rparr> # tl (m_questions rq)\<rparr>, True), u))))"

definition ask_address ::
  "network \<Rightarrow> real \<Rightarrow> bool \<Rightarrow> upstream_address \<Rightarrow> message \<Rightarrow> real \<Rightarrow> upstream \<Rightarrow> message option \<times> upstream" where
  "ask_address net timeout tcp_only a rq now u =
     (let ((probe, strict), u) = probe_for (n_bits net) a rq now u
      in if tcp_only then (n_tcp net a probe, u)
         else (case query_udp (ua_label a) timeout now probe strict (n_udp net a probe) u of
                 (None, u) \<Rightarrow> (None, u)
               | (Some r, u) \<Rightarrow> (if tc (m_body r) then n_tcp net a probe else Some r, u)))"

definition answers :: "message \<Rightarrow> message \<Rightarrow> bool" where
  "answers rq r \<longleftrightarrow> m_id r = m_id rq \<and> same_question rq r"

text \<open>Every address in order, then DoH; \<open>track\<close> is off for the canary.\<close>

fun try_addresses ::
  "network \<Rightarrow> real \<Rightarrow> bool \<Rightarrow> bool \<Rightarrow> upstream_address list \<Rightarrow> message \<Rightarrow> real \<Rightarrow> upstream \<Rightarrow> message option \<times> upstream" where
  "try_addresses net timeout tcp_only track [] rq now u = (None, u)"
| "try_addresses net timeout tcp_only track (a # as) rq now u =
     (let fail = (\<lambda>u. if track then note_path_failure (ua_label a) u else u)
      in case ask_address net timeout tcp_only a rq now u of
           (None, u) \<Rightarrow> try_addresses net timeout tcp_only track as rq now (fail u)
         | (Some r, u) \<Rightarrow>
             if \<not> answers rq r then try_addresses net timeout tcp_only track as rq now (fail u)
             else (Some (restore_case r rq), if track then note_success (ua_label a) now u else u))"

definition resolve_paths ::
  "network \<Rightarrow> real \<Rightarrow> bool \<Rightarrow> bool \<Rightarrow> message \<Rightarrow> real \<Rightarrow> upstream \<Rightarrow> message option \<times> upstream" where
  "resolve_paths net timeout tcp_only track rq now u =
     (case try_addresses net timeout tcp_only track (up_addresses u) rq now u of
        (Some r, u) \<Rightarrow> (Some r, u)
      | (None, u) \<Rightarrow>
          if \<not> up_doh u then (None, u)
          else (case n_doh net rq of
                  Some r \<Rightarrow>
                    if answers rq r then (Some r, if track then note_success ''doh'' now u else u)
                    else (None, if track then note_path_failure ''doh'' u else u)
                | None \<Rightarrow> (None, if track then note_path_failure ''doh'' u else u)))"

datatype resolve_error = CircuitOpen | AllPathsFailed

definition resolve ::
  "network \<Rightarrow> real \<Rightarrow> bool \<Rightarrow> message \<Rightarrow> real \<Rightarrow> upstream \<Rightarrow> (resolve_error + message) \<times> upstream" where
  "resolve net timeout tcp_only rq now u =
     (let (go, u) = breaker_allows now u
      in if \<not> go then (Inl CircuitOpen, u)
         else (case resolve_paths net timeout tcp_only True rq now u of
                 (Some r, u) \<Rightarrow> (Inr r, u)
               | (None, u) \<Rightarrow> (Inl AllPathsFailed, u)))"

definition canary_question :: message where
  "canary_question = \<lparr>m_id = 0, m_questions = [\<lparr>q_name = ''.'', q_type = 2, q_class = 1\<rparr>],
     m_body = \<lparr>rcode = 0, tc = False, rrs = [], auth = [], ar = []\<rparr>\<rparr>"

definition run_canary :: "network \<Rightarrow> real \<Rightarrow> nat \<Rightarrow> real \<Rightarrow> upstream \<Rightarrow> bool \<times> upstream" where
  "run_canary net timeout ident now u =
     (case resolve_paths net timeout False False (canary_question\<lparr>m_id := ident\<rparr>) now u of
        (Some r, u) \<Rightarrow> (rcode (m_body r) \<in> {NOERROR, NXDOMAIN}, u)
      | (None, u) \<Rightarrow> (False, u))"

text \<open>\<open>note_query_failure\<close>; \<open>asking\<close> says that another thread is asking the canary.\<close>

definition note_query_failure :: "network \<Rightarrow> real \<Rightarrow> nat \<Rightarrow> bool \<Rightarrow> real \<Rightarrow> upstream \<Rightarrow> bool \<times> upstream" where
  "note_query_failure net timeout ident asking now u =
     (if up_ok u \<and> (case last_ok_at u of None \<Rightarrow> False | Some t \<Rightarrow> now - t < RECENT_SUCCESS_SECONDS)
      then (False, u)
      else
        (let fresh = (case canary_at u of None \<Rightarrow> False | Some t \<Rightarrow> now - t < BREAKER_PROBE_SECONDS)
         in if \<not> fresh \<and> asking then (\<not> up_ok u, u)
            else
              (let (verdict, u) = (if fresh then (canary_ok u, u)
                     else (let (v, u) = run_canary net timeout ident now u
                           in (v, u\<lparr>canary_at := Some now, canary_ok := v, canary_runs := canary_runs u + 1\<rparr>)))
               in if verdict then (False, close_breaker now u) else (True, mark_all_failed now u))))"


section \<open>Whose answer is accepted\<close>

lemma flip_char_lower [simp]: "lower_char (flip_char c) = lower_char c"
proof -
  have "code_of (lower_char (upper_char c)) = code_of c" if "is_lower c"
  proof -
    have "code_of c - 32 < 256" using that unfolding is_lower_def by linarith
    then have "code_of (upper_char c) = code_of c - 32"
      using that by (simp add: upper_char_def code_of_def)
    moreover from this that have "is_upper (upper_char c)" unfolding is_lower_def is_upper_def by linarith
    ultimately show ?thesis using that by (simp add: code_of_lower_char is_lower_def)
  qed
  moreover have "lower_char c = c" if "is_lower c"
    using that by (simp add: lower_char_def is_lower_def is_upper_def)
  ultimately show ?thesis by (auto simp: flip_char_def code_of_inj)
qed

lemma lower_randomize [simp]: "lower (randomize_case bs s) = lower s"
  by (induction bs s rule: randomize_case.induct) (auto simp: lower_def)

lemma length_randomize [simp]: "length (randomize_case bs s) = length s"
  by (induction bs s rule: randomize_case.induct) auto

text \<open>The name sent is the name asked, in any case pattern: the probe asks the client's question.\<close>

lemma lower_rstrip_dot: "lower (rstrip_by is_dot s) = rstrip_by is_dot (lower s)"
  by (simp add: rstrip_by_def lower_def rev_map dropWhile_map_inv)

lemma probe_asks_question: "m_questions rq \<noteq> [] \<Longrightarrow> same_question rq (fst (fst (probe_for bits a rq now u)))"
  by (cases "m_questions rq") (auto simp: probe_for_def same_question_def Let_def lower_rstrip_dot split: prod.splits)

lemma answers_restore: "answers rq r \<Longrightarrow> answers rq (restore_case r rq)"
  by (auto simp: answers_def same_question_def restore_case_def Let_def split: list.splits)

lemma try_addresses_answers:
  "try_addresses net to tcp track as rq now u = (Some r, u') \<Longrightarrow> answers rq r \<and> (track \<longrightarrow> up_ok u')"
  by (induction as arbitrary: u)
    (auto simp: Let_def note_success_def intro: answers_restore split: prod.splits option.splits if_splits)

lemma resolve_paths_answers:
  "resolve_paths net to tcp track rq now u = (Some r, u') \<Longrightarrow> answers rq r \<and> (track \<longrightarrow> up_ok u')"
  by (auto simp: resolve_paths_def note_success_def dest: try_addresses_answers
      split: prod.splits option.splits if_splits)

text \<open>
  Only an answer to the question is ever handed on. Whatever the addresses, the TCP connections
  and the DoH server send, a successful resolution returns a message with the identifier of the request
  and its question (name in any case, type and class), and leaves the upstreams marked healthy.
\<close>

theorem resolve_answers_question:
  assumes "resolve net to tcp_only rq now u = (Inr r, u')"
  shows "m_id r = m_id rq \<and> same_question rq r \<and> up_ok u'"
  using assms
  by (auto simp: resolve_def answers_def dest: resolve_paths_answers split: prod.splits option.splits if_splits)

definition example_network :: "message \<Rightarrow> network" where
  "example_network r = \<lparr>n_bits = [], n_udp = (\<lambda>a m. [(1, Datagram r)]), n_tcp = (\<lambda>a m. None), n_doh = (\<lambda>m. None)\<rparr>"

definition example_question :: message where
  "example_question = \<lparr>m_id = 7, m_questions = [\<lparr>q_name = ''a.b.'', q_type = 1, q_class = 1\<rparr>],
     m_body = \<lparr>rcode = 0, tc = False, rrs = [], auth = [], ar = []\<rparr>\<rparr>"

lemma example_resolves:
  "fst (resolve (example_network example_question) 2 False example_question 0 (new_upstream [''1.1.1.1''] [] False))
     = Inr example_question"
proof -
  have p: "parse_upstream ''1.1.1.1'' = \<lparr>ua_host = ''1.1.1.1'', ua_port = 53\<rparr>" "strip ''1.1.1.1'' \<noteq> []"
    by code_simp+
  have s: "same_question example_question example_question" by code_simp
  have o: "m_questions example_question \<noteq> []" "\<not> tc (m_body example_question)"
    "m_questions example_question = [\<lparr>q_name = ''a.b.'', q_type = 1, q_class = 1\<rparr>]"
    by (simp_all add: example_question_def)
  show ?thesis
    by (simp add: resolve_def breaker_allows_def resolve_paths_def ask_address_def probe_for_def query_udp_def
        new_upstream_def p example_network_def s answers_def o restore_case_def)
qed

theorem resolve_answers_question_witness: "same_question example_question example_question"
proof -
  obtain u' where "resolve (example_network example_question) 2 False example_question 0
      (new_upstream [''1.1.1.1''] [] False) = (Inr example_question, u')"
    using example_resolves by (metis prod.collapse)
  from resolve_answers_question [OF this] show ?thesis by simp
qed

section \<open>The case pattern is honoured\<close>

definition right_case :: "message \<Rightarrow> datagram \<Rightarrow> bool" where
  "right_case rq d \<longleftrightarrow> (case d of Datagram r \<Rightarrow> m_id r = m_id rq \<and> same_question_exact rq r | _ \<Rightarrow> False)"

lemma udp_wait_soft:
  assumes "udp_wait rq True dl soft ds = Soft r t" and "sorted (map fst ds)"
  shows "t \<le> dl \<and> list_all (\<lambda>(t', d). right_case rq d \<longrightarrow> t \<le> t') ds \<and>
    (soft = Some r \<and> t = dl \<or>
     soft = None \<and> (\<exists>t0. (t0, Datagram r) \<in> set ds \<and> t = min dl (t0 + CASE_MATCH_GRACE)))"
  using assms
proof (induction ds arbitrary: dl soft)
  case Nil
  then show ?case by (auto split: option.splits)
next
  case (Cons x ds)
  obtain t1 d where x: "x = (t1, d)" by force
  show ?case
  proof (cases "dl \<le> t1")
    case True
    with Cons.prems x have "soft = Some r" "t = dl" by (auto split: option.splits)
    moreover have "dl \<le> fst y" if "y \<in> set (x # ds)" for y
      using Cons.prems(2) that True x by (auto intro: order_trans)
    then have "list_all (\<lambda>(t', d). right_case rq d \<longrightarrow> dl \<le> t') (x # ds)"
      unfolding list_all_iff by fastforce
    ultimately show ?thesis by simp
  next
    case False
    with Cons.prems x have nr: "\<not> right_case rq d"
      by (auto simp: right_case_def same_question_exact_def split: datagram.splits if_splits)
    have sorted: "sorted (map fst ds)" using Cons.prems(2) by simp
    consider "udp_wait rq True dl soft ds = Soft r t"
      | r0 where "soft = None" "d = Datagram r0"
        "udp_wait rq True (min dl (t1 + CASE_MATCH_GRACE)) (Some r0) ds = Soft r t"
      using Cons.prems(1) x False by (auto split: datagram.splits if_splits)
    then show ?thesis
    proof cases
      case 1
      from Cons.IH [OF 1 sorted] nr x show ?thesis by auto
    next
      case 2
      from Cons.IH [OF 2(3) sorted] nr x 2(1,2) show ?thesis by auto
    qed
  qed
qed

text \<open>
  A forged reply with the wrong case pattern never wins against the real one. When the name was
  sent in a random case and a reply in another case is accepted, it had arrived within the deadline,
  and no reply in the right case arrived in the grace period after it: every right-case reply comes no
  earlier than the end of that period (or of the whole wait).
\<close>

theorem wrong_case_waits_for_right_case:
  assumes "udp_wait rq True dl None ds = Soft r t" and "sorted (map fst ds)"
  shows "list_all (\<lambda>(t', d). right_case rq d \<longrightarrow> t \<le> t') ds \<and>
    (\<exists>t0. (t0, Datagram r) \<in> set ds \<and> t = min dl (t0 + CASE_MATCH_GRACE))"
  using udp_wait_soft [OF assms] by auto

definition wrong_case_reply :: message where
  "wrong_case_reply = example_question\<lparr>m_questions := [\<lparr>q_name = ''A.b.'', q_type = 1, q_class = 1\<rparr>]\<rparr>"

theorem wrong_case_waits_for_right_case_witness:
  "list_all (\<lambda>(t', d). right_case example_question d \<longrightarrow> (6 / 5 :: real) \<le> t')
     [(1, Datagram wrong_case_reply), (3 / 2, Datagram example_question)]"
proof -
  have e: "same_question example_question wrong_case_reply" by code_simp
  have n: "\<not> same_question_exact example_question wrong_case_reply" by code_simp
  have i: "m_id wrong_case_reply = m_id example_question" by (simp add: wrong_case_reply_def)
  have "udp_wait example_question True 2 None [(1, Datagram wrong_case_reply), (3 / 2, Datagram example_question)]
      = Soft wrong_case_reply (6 / 5)"
    by (simp add: e n i CASE_MATCH_GRACE_def)
  from wrong_case_waits_for_right_case [OF this] show ?thesis by simp
qed

section \<open>The breaker\<close>

lemma breaker_allows_frame: "up_ok (snd (breaker_allows now u)) = up_ok u"
  by (simp add: breaker_allows_def)

lemma case_excluded_frame: "up_ok (snd (case_excluded l now u)) = up_ok u"
  "canary_at (snd (case_excluded l now u)) = canary_at u"
  by (auto simp: case_excluded_def split: option.splits)

lemma probe_for_frame: "up_ok (snd (probe_for bits a rq now u)) = up_ok u"
  by (auto simp: probe_for_def Let_def case_prod_unfold case_excluded_frame)

lemma query_udp_frame: "up_ok (snd (query_udp l to st rq s ds u)) = up_ok u"
  by (auto simp: query_udp_def note_case_soft_def note_case_exact_def Let_def split: udp_result.splits)

lemma ask_address_frame: "up_ok (snd (ask_address net to tcp a rq now u)) = up_ok u"
proof -
  obtain pr st u1 where p: "probe_for (n_bits net) a rq now u = ((pr, st), u1)" by (metis surj_pair)
  obtain mo u2 where q: "query_udp (ua_label a) to now pr st (n_udp net a pr) u1 = (mo, u2)" by force
  from p q probe_for_frame [of "n_bits net" a rq now u] query_udp_frame [of "ua_label a" to now pr st "n_udp net a pr" u1]
  show ?thesis by (auto simp: ask_address_def split: option.splits)
qed

lemma try_addresses_untracked: "up_ok (snd (try_addresses net to tcp False as rq now u)) = up_ok u"
proof (induction as arbitrary: u)
  case (Cons a as)
  obtain mo u1 where q: "ask_address net to tcp a rq now u = (mo, u1)" by force
  then have "up_ok u1 = up_ok u" using ask_address_frame [of net to tcp a rq now u] by simp
  with q Cons.IH [of u1] show ?case by (cases mo) simp_all
qed simp

lemma run_canary_frame: "up_ok (snd (run_canary net to i now u)) = up_ok u"
proof -
  obtain mo u1 where q: "try_addresses net to False False (up_addresses u) (canary_question\<lparr>m_id := i\<rparr>) now u = (mo, u1)"
    by force
  then have "up_ok u1 = up_ok u"
    using try_addresses_untracked [of net to False "up_addresses u" "canary_question\<lparr>m_id := i\<rparr>" now u] by simp
  with q show ?thesis by (auto simp: run_canary_def resolve_paths_def split: option.splits)
qed

lemma breaker_opens:
  assumes "up_ok u" and "\<not> up_ok (snd (note_query_failure net to i asking now u))"
  shows "(case canary_at u of None \<Rightarrow> False | Some t \<Rightarrow> now - t < BREAKER_PROBE_SECONDS) \<and> \<not> canary_ok u \<or>
    \<not> asking \<and> \<not> fst (run_canary net to i now u)"
  using assms run_canary_frame [of net to i now u]
  by (auto simp: note_query_failure_def close_breaker_def mark_all_failed_def Let_def case_prod_unfold
      split: option.splits if_splits)

text \<open>
  A client's failing name never opens the breaker by itself. When noting a failed query turns the
  upstreams from healthy to down, no query succeeded within the last two seconds and the resolver's own
  canary has failed: just now, or within the last five seconds. While the breaker is open a second
  probe is let through only five seconds after the one before it.
\<close>

theorem breaker_needs_canary:
  assumes "up_ok u" and "note_query_failure net to i asking now u = (opened, u')" and "\<not> up_ok u'"
  shows "opened \<and>
    (case last_ok_at u of None \<Rightarrow> True | Some t \<Rightarrow> RECENT_SUCCESS_SECONDS \<le> now - t) \<and>
    ((case canary_at u of None \<Rightarrow> False | Some t \<Rightarrow> now - t < BREAKER_PROBE_SECONDS) \<and> \<not> canary_ok u \<or>
     \<not> fst (run_canary net to i now u)) \<and>
    (\<forall>t t' v. breaker_allows t u' = (True, v) \<and> fst (breaker_allows t' v) \<longrightarrow> t + BREAKER_PROBE_SECONDS \<le> t')"
proof -
  have u': "u' = snd (note_query_failure net to i asking now u)" using assms(2) by simp
  from assms(1) assms(3) breaker_opens [of u net to i asking now] have "(case canary_at u of None \<Rightarrow> False
      | Some t \<Rightarrow> now - t < BREAKER_PROBE_SECONDS) \<and> \<not> canary_ok u \<or> \<not> fst (run_canary net to i now u)"
    unfolding u' by blast
  moreover have "opened \<and> (case last_ok_at u of None \<Rightarrow> True | Some t \<Rightarrow> RECENT_SUCCESS_SECONDS \<le> now - t)"
    using assms by (auto simp: note_query_failure_def close_breaker_def Let_def case_prod_unfold
        split: option.splits if_splits)
  moreover have "t + BREAKER_PROBE_SECONDS \<le> t'" if "breaker_allows t u' = (True, v)" "fst (breaker_allows t' v)" for t t' v
    using that assms(3) by (auto simp: breaker_allows_def split: if_splits)
  ultimately show ?thesis by blast
qed

theorem breaker_needs_canary_witness:
  "\<not> fst (run_canary (example_network example_question) 2 9 50 (new_upstream [''1.1.1.1''] [] False))"
proof -
  let ?net = "example_network example_question" and ?u = "new_upstream [''1.1.1.1''] [] False"
  have p: "parse_upstream ''1.1.1.1'' = \<lparr>ua_host = ''1.1.1.1'', ua_port = 53\<rparr>" "strip ''1.1.1.1'' \<noteq> []"
    by code_simp+
  have "m_id example_question = 7" by (simp add: example_question_def)
  then have c: "\<not> fst (run_canary ?net 2 9 50 ?u)"
    by (simp add: run_canary_def resolve_paths_def ask_address_def probe_for_def query_udp_def new_upstream_def p
        example_network_def canary_question_def)
  obtain v u1 where r: "run_canary ?net 2 9 50 ?u = (v, u1)" by force
  have ok: "up_ok ?u" by (simp add: new_upstream_def)
  obtain opened u' where n: "note_query_failure ?net 2 9 False 50 ?u = (opened, u')" by force
  moreover from this r c have "\<not> up_ok u'"
    by (auto simp: note_query_failure_def new_upstream_def [of _ _ False] mark_all_failed_def Let_def split: if_splits)
  ultimately show ?thesis using breaker_needs_canary [OF ok n] by (simp add: new_upstream_def)
qed

end
