(* ===== verification/Dns_Wire.thy ===== *)
theory Dns_Wire
  imports Dns_Upstream "HOL-Library.Word"
begin

unbundle bit_operations_syntax

text \<open>
  The wire helpers of \<open>homesoc/dnsfilter/server.py\<close> that work on raw bytes, without a parser: the bare
  truncated answer and the format error. A byte is an 8-bit word.
\<close>

type_synonym byte = "8 word"

definition OPCODE_QUERY :: byte where "OPCODE_QUERY = 0"

text \<open>
  The position after the question's name, from position \<open>i\<close>: \<open>None\<close> when the labels run past the end or
  past 255 bytes, or use a compression pointer or an extended label type.
\<close>

function name_end :: "byte list \<Rightarrow> nat \<Rightarrow> nat option" where
  "name_end data i =
     (if length data \<le> i \<or> 255 < i - 12 then None
      else (let n = data ! i
            in if n = 0 then Some (i + 1)
               else if n AND 0xC0 \<noteq> 0 then None
               else name_end data (i + 1 + unat n)))"
  by pat_completeness auto

termination
  by (relation "measure (\<lambda>(data, i). length data - i)") auto

declare name_end.simps [simp del]

definition truncated_bytes :: "byte list \<Rightarrow> byte list option" where
  "truncated_bytes data =
     (if length data < 12 \<or> data ! 2 AND 0x80 \<noteq> 0 \<or> drop_bit 3 (data ! 2) AND 0x0F \<noteq> OPCODE_QUERY then None
      else if take 2 (drop 4 data) \<noteq> [0, 1] then None
      else case name_end data 12 of
        None \<Rightarrow> None
      | Some i \<Rightarrow>
          if length data < i + 4 then None
          else Some (take 2 data @ [0x80 OR (data ! 2 AND 0x79) OR 0x02, 0x80] @
                     [0, 1, 0, 0, 0, 0, 0, 0] @ drop 12 (take (i + 4) data)))"

definition formerr_bytes :: "byte list \<Rightarrow> byte list option" where
  "formerr_bytes data =
     (if length data < 12 then None
      else Some (take 2 data @ [data ! 2 AND 0x78 OR 0x80, 0x01] @ replicate 8 0))"

lemma name_end_bounds: "name_end data i = Some j \<Longrightarrow> i < j \<and> j \<le> length data"
  by (induction data i rule: name_end.induct)
    (subst (asm) (2) name_end.simps, fastforce simp: Let_def split: if_splits)

lemma truncated_Some:
  assumes "truncated_bytes data = Some r"
  obtains i where "12 < i" "i + 4 \<le> length data"
    "r = take 2 data @ [0x80 OR (data ! 2 AND 0x79) OR 0x02, 0x80] @ [0, 1, 0, 0, 0, 0, 0, 0] @
      drop 12 (take (i + 4) data)"
  using assms by (auto simp: truncated_bytes_def dest!: name_end_bounds split: if_splits option.splits)

lemma formerr_small: "formerr_bytes data = Some r \<Longrightarrow> length r = 12 \<and> length r \<le> length data \<and> take 2 r = take 2 data"
  by (auto simp: formerr_bytes_def split: if_splits)

text \<open>
  What a source over its limit gets back is never worth forging for: the bare truncated answer is
  never longer than the datagram it answers, carries its identifier, has the response and the truncation
  bit set and no answer, authority or additional record, and repeats the question byte for byte.
\<close>

theorem slip_answer_never_amplifies:
  assumes "truncated_bytes data = Some r"
  shows "length r \<le> length data \<and> take 2 r = take 2 data \<and> r ! 2 AND 0x80 = 0x80 \<and> r ! 2 AND 0x02 = 0x02 \<and>
    take 6 (drop 6 r) = replicate 6 0 \<and> prefix (drop 12 r) (drop 12 data)"
proof -
  from assms obtain i where i: "12 < i" "i + 4 \<le> length data" and
    r: "r = take 2 data @ [0x80 OR (data ! 2 AND 0x79) OR 0x02, 0x80] @ [0, 1, 0, 0, 0, 0, 0, 0] @
      drop 12 (take (i + 4) data)"
    by (rule truncated_Some)
  have two: "length (take 2 data) = 2" "min (length data) 2 = 2" using i by simp_all
  have n: "length r = i + 4" using i by (simp add: r)
  have f: "r ! 2 = 0x80 OR (data ! 2 AND 0x79) OR 0x02" unfolding r by (simp add: nth_append two)
  have bits: "(0x80 OR (x AND 0x79) OR 0x02) AND 0x80 = (0x80 :: byte)"
    "(0x80 OR (x AND 0x79) OR 0x02) AND 0x02 = (0x02 :: byte)" for x :: byte
    by (simp_all add: bit.conj_disj_distrib2 and.assoc)
  have zeros: "take 6 (drop 6 r) = replicate 6 0" unfolding r using two by (simp add: numeral_eq_Suc)
  have "drop 12 r = drop 12 (take (i + 4) data)" unfolding r using two by simp
  then have "prefix (drop 12 r) (drop 12 data)" by (simp add: drop_take take_is_prefix)
  moreover have "take 2 r = take 2 data" unfolding r using two by simp
  moreover have "length r \<le> length data" using n i(2) by simp
  moreover have "r ! 2 AND 0x80 = 0x80" "r ! 2 AND 0x02 = 0x02" unfolding f using bits by blast+
  ultimately show ?thesis using zeros by blast
qed

definition example_query :: "byte list" where
  "example_query = [0x12, 0x34, 1, 0, 0, 1, 0, 0, 0, 0, 0, 0, 1, 97, 0, 0, 1, 0, 1]"

theorem slip_answer_never_amplifies_witness:
  "map_option length (truncated_bytes example_query) = Some 19 \<and> length (the (truncated_bytes example_query)) \<le> 19"
proof -
  have t: "truncated_bytes example_query =
      Some [0x12, 0x34, 0x83, 0x80, 0, 1, 0, 0, 0, 0, 0, 0, 1, 97, 0, 0, 1, 0, 1]"
    by code_simp
  from slip_answer_never_amplifies [OF t] t show ?thesis by (simp add: example_query_def)
qed

end
