(* ===== verification/Dns_Querylog.thy ===== *)
theory Dns_Querylog
  imports Dns_Guard
begin

text \<open>
  The query log, \<open>homesoc/dnsfilter/querylog.py\<close>: the budgets that decide which lookups become rows,
  the buffered flush, and the hourly rollup, retention and row cap over the two tables. Time stamps are
  whole UTC seconds, an hour key (\<open>ts[:13] + ":00"\<close>) is the number of the hour; the monotonic clock is
  real. The set of inventory addresses (\<open>client in known\<close>) is an argument; so is whether an SQL write
  succeeded.
\<close>

section \<open>State\<close>

definition BATCH_SIZE :: nat where "BATCH_SIZE = 500"
definition LOG_BUDGET_PER_CLIENT :: int where "LOG_BUDGET_PER_CLIENT = 600"
definition LOG_BUDGET_TOTAL :: int where "LOG_BUDGET_TOTAL = 30000"
definition LOG_BUDGET_MAX_CLIENTS :: nat where "LOG_BUDGET_MAX_CLIENTS = 4096"
definition OVERFLOW_EVENT_SECONDS :: real where "OVERFLOW_EVENT_SECONDS = 3600"
definition OVERFLOW_SAMPLE :: nat where "OVERFLOW_SAMPLE = 8"
definition MAX_QNAME_LOG :: nat where "MAX_QNAME_LOG = 255"
definition MAX_LOG_ROWS :: int where "MAX_LOG_ROWS = 2000000"
definition ROW_CAP_CHUNK :: int where "ROW_CAP_CHUNK = 50000"
definition BUDGET_EVENTS_PER_HOUR :: nat where "BUDGET_EVENTS_PER_HOUR = 20"

record query_record =
  q_ts :: int
  q_client :: str
  q_qname :: str
  q_qtype :: str
  q_action :: str
  q_reason :: "str option"

record query_log =
  ql_enabled :: bool
  batch_size :: nat
  client_budget :: nat
  total_budget :: nat
  ql_queue :: "query_record list"
  ql_recent :: "(int \<times> nat) list"
  budget_minute :: "int option"
  budget_used :: "(str, nat) dict"
  budget_total :: nat
  known_used :: "(str, nat) dict"
  over_budget :: "(str, nat) dict"
  budget_events :: "(str, real) dict"
  overflow_rows :: nat
  overflow_sample :: "str list"
  overflow_event_at :: "real option"
  overflowed :: nat
  last_overflow_sample :: "str list"
  ql_total :: nat
  ql_dropped :: nat
  ql_suppressed :: nat

definition new_log :: "bool \<Rightarrow> nat \<Rightarrow> int \<Rightarrow> int \<Rightarrow> query_log" where
  "new_log enabled batch per_client per_minute =
     \<lparr>ql_enabled = enabled, batch_size = batch, client_budget = nat (max 1 per_client),
      total_budget = nat (max 1 per_minute), ql_queue = [], ql_recent = [], budget_minute = None,
      budget_used = [], budget_total = 0, known_used = [], over_budget = [], budget_events = [],
      overflow_rows = 0, overflow_sample = [], overflow_event_at = None, overflowed = 0,
      last_overflow_sample = [], ql_total = 0, ql_dropped = 0, ql_suppressed = 0\<rparr>"

section \<open>Recording\<close>

text \<open>The new minute's clean slate.\<close>

definition roll_minute :: "real \<Rightarrow> query_log \<Rightarrow> query_log" where
  "roll_minute now l =
     (let minute = \<lfloor>now / 60\<rfloor>
      in if Some minute \<noteq> budget_minute l
         then l\<lparr>budget_minute := Some minute, budget_used := [], known_used := [], budget_total := 0\<rparr>
         else l)"

definition within_budget :: "str set \<Rightarrow> str \<Rightarrow> real \<Rightarrow> query_log \<Rightarrow> bool \<times> query_log" where
  "within_budget known client now l =
     (let l = roll_minute now l
      in if client \<in> known
         then (let n = dcount (known_used l) client
               in if client_budget l \<le> n then (False, l\<lparr>over_budget := dinc client (over_budget l)\<rparr>)
                  else (True, l\<lparr>known_used := dset client (n + 1) (known_used l)\<rparr>))
         else if dget (budget_used l) client = None \<and> LOG_BUDGET_MAX_CLIENTS \<le> length (budget_used l)
         then (False, l\<lparr>overflow_rows := overflow_rows l + 1, overflowed := overflowed l + 1,
                        overflow_sample := (if length (overflow_sample l) < OVERFLOW_SAMPLE
                          then overflow_sample l @ [take 64 client] else overflow_sample l)\<rparr>)
         else
           (let n = dcount (budget_used l) client
            in if client_budget l \<le> n \<or> total_budget l \<le> budget_total l
               then (False,
                     if length (over_budget l) < LOG_BUDGET_MAX_CLIENTS \<or> client \<in> set (dkeys (over_budget l))
                     then l\<lparr>over_budget := dinc client (over_budget l)\<rparr> else l)
               else (True, l\<lparr>budget_used := dset client (n + 1) (budget_used l),
                             budget_total := budget_total l + 1\<rparr>)))"

definition trim_recent :: "real \<Rightarrow> (int \<times> nat) list \<Rightarrow> (int \<times> nat) list" where
  "trim_recent now rs = dropWhile (\<lambda>(s, n). 60 < now - of_int s) rs"

definition count_recent :: "real \<Rightarrow> (int \<times> nat) list \<Rightarrow> (int \<times> nat) list" where
  "count_recent now rs =
     (let sec = float_int now
      in trim_recent now
           (if rs \<noteq> [] \<and> fst (last rs) = sec then butlast rs @ [(sec, snd (last rs) + 1)] else rs @ [(sec, 1)]))"

definition qps_1m :: "real \<Rightarrow> query_log \<Rightarrow> real" where
  "qps_1m now l = of_int (py_round (of_nat (sum_list (map snd (trim_recent now (ql_recent l)))) / 60 * 1000)) / 1000"

text \<open>\<open>record\<close>; the wake-up of the flush thread is left to the scheduler of the steps.\<close>

definition record_query ::
  "str set \<Rightarrow> str \<Rightarrow> str \<Rightarrow> str \<Rightarrow> str \<Rightarrow> str option \<Rightarrow> int \<Rightarrow> real \<Rightarrow> query_log \<Rightarrow> query_log" where
  "record_query known client qname qtype action reason ts now l =
     (let l = l\<lparr>ql_recent := count_recent now (ql_recent l), ql_total := ql_total l + 1\<rparr>
      in if \<not> ql_enabled l then l
         else
           (let (ok, l) = within_budget known client now l
            in if \<not> ok then l\<lparr>ql_suppressed := ql_suppressed l + 1\<rparr>
               else if batch_size l * 20 \<le> length (ql_queue l) then l\<lparr>ql_dropped := ql_dropped l + 1\<rparr>
               else l\<lparr>ql_queue := ql_queue l @
                 [\<lparr>q_ts = ts, q_client = take 64 client, q_qname = take MAX_QNAME_LOG qname,
                   q_qtype = take 16 qtype, q_action = action, q_reason = map_option (take 200) reason\<rparr>]\<rparr>))"

section \<open>Flushing\<close>

datatype log_event = OverBudget str nat | Overflowed nat "str list"

definition report_overflow :: "nat \<Rightarrow> str list \<Rightarrow> real \<Rightarrow> query_log \<Rightarrow> log_event list \<times> query_log" where
  "report_overflow n smp now l =
     (case overflow_event_at l of
        Some t \<Rightarrow> if now - t < OVERFLOW_EVENT_SECONDS then ([], l)
          else ([Overflowed n smp], l\<lparr>overflow_event_at := Some now\<rparr>)
      | None \<Rightarrow> ([Overflowed n smp], l\<lparr>overflow_event_at := Some now\<rparr>))"

text \<open>The noisy clients, the noisiest first: at most one event each per hour and 20 in all.\<close>

fun report_clients :: "real \<Rightarrow> (str \<times> nat) list \<Rightarrow> (str, real) dict \<Rightarrow> log_event list \<times> (str, real) dict" where
  "report_clients now [] evs = ([], evs)"
| "report_clients now ((c, n) # over) evs =
     (if c \<in> set (dkeys evs) \<or> BUDGET_EVENTS_PER_HOUR \<le> length evs then report_clients now over evs
      else (let (out, evs) = report_clients now over (dset c now evs) in (OverBudget c n # out, evs)))"

definition report_over_budget :: "real \<Rightarrow> query_log \<Rightarrow> log_event list \<times> query_log" where
  "report_over_budget now l =
     (let over = over_budget l; n = overflow_rows l; smp = overflow_sample l;
          l = l\<lparr>over_budget := [], overflow_rows := 0, overflow_sample := []\<rparr>;
          (e1, l) = (if n = 0 then ([], l)
             else report_overflow n smp now (if smp = [] then l else l\<lparr>last_overflow_sample := smp\<rparr>))
      in if over = [] then (e1, l)
         else
           (let evs = filter (\<lambda>(c, t). \<not> 3600 \<le> now - t) (budget_events l);
                (e2, evs) = report_clients now (sort_key (\<lambda>kv. - int (snd kv)) over) evs
            in (e1 @ e2, l\<lparr>budget_events := evs\<rparr>)))"

text \<open>
  The rows of \<open>dns_queries\<close> with their ids (the rowid: one more than the largest present), and
  \<open>dns_hourly\<close> keyed by hour and client.
\<close>

record log_db =
  db_rows :: "(int \<times> query_record) list"
  db_hourly :: "(int \<times> str, int \<times> int) dict"

definition next_id :: "(int \<times> query_record) list \<Rightarrow> int" where
  "next_id rows = fold max (map fst rows) 0 + 1"

definition insert_rows :: "query_record list \<Rightarrow> log_db \<Rightarrow> log_db" where
  "insert_rows qs db = db\<lparr>db_rows := fold (\<lambda>q rows. rows @ [(next_id rows, q)]) qs (db_rows db)\<rparr>"

text \<open>\<open>flush\<close>; \<open>wrote\<close> says that the insert did not raise.\<close>

definition flush_log :: "bool \<Rightarrow> real \<Rightarrow> query_log \<Rightarrow> log_db \<Rightarrow> nat \<times> log_event list \<times> query_log \<times> log_db" where
  "flush_log wrote now l db =
     (let (evs, l) = report_over_budget now l; rows = ql_queue l
      in if rows = [] then (0, evs, l, db)
         else (let l = l\<lparr>ql_queue := []\<rparr>
               in if wrote then (length rows, evs, l, insert_rows rows db)
                  else (0, evs, l\<lparr>ql_dropped := ql_dropped l + length rows\<rparr>, db)))"

section \<open>Maintenance\<close>

definition hour_of :: "int \<Rightarrow> int" where
  "hour_of ts = ts div 3600"

text \<open>The groups of the \<open>SELECT\<close>: total and blocked rows per hour and client.\<close>

definition tally_rows :: "query_record list \<Rightarrow> int \<times> int" where
  "tally_rows qs = (int (length qs), int (length (filter (\<lambda>q. q_action q = ''block'') qs)))"

definition rollup_groups :: "int \<Rightarrow> log_db \<Rightarrow> (int \<times> str, int \<times> int) dict" where
  "rollup_groups since db =
     map (\<lambda>(k, qs). (k, tally_rows qs))
       (group_by (\<lambda>q. (hour_of (q_ts q), q_client q)) (filter (\<lambda>q. since \<le> q_ts q) (map snd (db_rows db))))"

definition rollup :: "int \<Rightarrow> int \<Rightarrow> log_db \<Rightarrow> nat \<times> log_db" where
  "rollup hours_back utcnow db =
     (let gs = rollup_groups (utcnow - hours_back * 3600) db
      in (length gs, db\<lparr>db_hourly := fold (\<lambda>(k, v) d. dset k v d) gs (db_hourly db)\<rparr>))"

definition purge_log :: "int \<Rightarrow> int \<Rightarrow> log_db \<Rightarrow> nat \<times> log_db" where
  "purge_log retention_days utcnow db =
     (let days = max 1 retention_days; raw = utcnow - days * 24 * 3600;
          hourly = hour_of (utcnow - days * 24 * 4 * 3600)
      in (length (filter (\<lambda>(i, q). q_ts q < raw) (db_rows db)),
          db\<lparr>db_rows := filter (\<lambda>(i, q). \<not> q_ts q < raw) (db_rows db),
             db_hourly := filter (\<lambda>((h, c), v). \<not> h < hourly) (db_hourly db)\<rparr>))"

text \<open>The deletes of \<open>enforce_row_cap\<close>, one chunk of ids at a time.\<close>

function delete_chunks :: "int \<Rightarrow> int \<Rightarrow> int \<Rightarrow> (int \<times> query_record) list \<Rightarrow> (int \<times> query_record) list" where
  "delete_chunks chunk lo cutoff rows =
     (if cutoff < lo then rows
      else (let up = min cutoff (lo + max 1 chunk - 1)
            in delete_chunks chunk (up + 1) cutoff (filter (\<lambda>(i, q). \<not> (lo \<le> i \<and> i \<le> up)) rows)))"
  by pat_completeness auto

termination
  by (relation "measure (\<lambda>(chunk, lo, cutoff, rows). nat (cutoff + 1 - lo))") auto

declare delete_chunks.simps [simp del]

definition enforce_row_cap :: "int \<Rightarrow> int \<Rightarrow> log_db \<Rightarrow> nat \<times> log_db" where
  "enforce_row_cap max_rows chunk db =
     (case db_rows db of
        [] \<Rightarrow> (0, db)
      | _ \<Rightarrow>
          (let ids = map fst (db_rows db); lo = Min (set ids); cutoff = Max (set ids) - max 1 max_rows
           in if cutoff < lo then (0, db)
              else (length (filter (\<lambda>(i, q). i \<le> cutoff) (db_rows db)),
                    db\<lparr>db_rows := delete_chunks chunk lo cutoff (db_rows db)\<rparr>)))"

definition log_maintenance :: "int \<Rightarrow> int \<Rightarrow> log_db \<Rightarrow> (nat \<times> nat) \<times> log_db" where
  "log_maintenance retention_days utcnow db =
     (let (written, db) = rollup 48 utcnow db;
          (purged, db) = purge_log (if retention_days = 0 then 14 else retention_days) utcnow db;
          (evicted, db) = enforce_row_cap MAX_LOG_ROWS ROW_CAP_CHUNK db
      in ((written, purged), db))"

section \<open>Dashboard aggregates\<close>

definition log_summary :: "int \<Rightarrow> log_db \<Rightarrow> int \<times> int \<times> nat" where
  "log_summary cutoff db =
     (let qs = filter (\<lambda>q. cutoff \<le> q_ts q) (map snd (db_rows db)); (n, b) = tally_rows qs
      in (n, b, length (remdups (map q_client qs))))"

definition distinct_clients :: "int \<Rightarrow> log_db \<Rightarrow> nat" where
  "distinct_clients cutoff db = snd (snd (log_summary cutoff db))"

definition top_clients :: "int \<Rightarrow> nat \<Rightarrow> log_db \<Rightarrow> (str \<times> int \<times> int) list" where
  "top_clients cutoff n_max db =
     take n_max
       (sort_key (\<lambda>(c, n, b). - n)
         (sort_key fst
           (map (\<lambda>(c, qs). (c, tally_rows qs))
             (group_by q_client (filter (\<lambda>q. cutoff \<le> q_ts q) (map snd (db_rows db)))))))"

definition top_blocked :: "int \<Rightarrow> nat \<Rightarrow> log_db \<Rightarrow> (str \<times> nat \<times> str option) list" where
  "top_blocked cutoff n_max db =
     take n_max
       (sort_key (\<lambda>(d, n, r). - int n)
         (sort_key fst
           (map (\<lambda>(d, qs). (d, length qs,
               let rs = map (the \<circ> q_reason) (filter (\<lambda>q. q_reason q \<noteq> None) qs)
               in if rs = [] then None else Some (last (sort rs))))
             (group_by q_qname
               (filter (\<lambda>q. q_action q = ''block'' \<and> cutoff \<le> q_ts q) (map snd (db_rows db)))))))"

definition recent_queries :: "int \<Rightarrow> str \<Rightarrow> str \<Rightarrow> log_db \<Rightarrow> (int \<times> query_record) list" where
  "recent_queries n_max client action db =
     take (nat (max 1 (min n_max 5000)))
       (sort_key (\<lambda>(i, q). - i)
         (filter (\<lambda>(i, q). (client = [] \<or> q_client q = client) \<and> (action = [] \<or> q_action q = action)) (db_rows db)))"

text \<open>\<open>series\<close>: the last hours, zero filled; raw rows replace the rolled-up counts of their hour.\<close>

definition hourly_sum :: "int \<Rightarrow> (int \<times> str, int \<times> int) dict \<Rightarrow> (int \<times> int) option" where
  "hourly_sum h d =
     (let vs = map snd (filter (\<lambda>((h', c), v). h' = h) d)
      in if vs = [] then None else Some (sum_list (map fst vs), sum_list (map snd vs)))"

definition series :: "int \<Rightarrow> int \<Rightarrow> log_db \<Rightarrow> (int \<times> int \<times> int) list" where
  "series hours utcnow db =
     (let n = max 1 hours; start = hour_of utcnow - (n - 1);
          raw = filter (\<lambda>q. start * 3600 \<le> q_ts q) (map snd (db_rows db))
      in map (\<lambda>h. let qs = filter (\<lambda>q. hour_of (q_ts q) = h) raw
                  in (h, if qs \<noteq> [] then tally_rows qs
                         else case hourly_sum h (db_hourly db) of None \<Rightarrow> (0, 0) | Some v \<Rightarrow> v))
             [start..hour_of utcnow])"


section \<open>A real device's lookups are always logged\<close>

text \<open>The budget checks of a sequence of lookups (source and time), and the verdicts in order.\<close>

fun budget_run :: "str set \<Rightarrow> (str \<times> real) list \<Rightarrow> query_log \<Rightarrow> bool list \<times> query_log" where
  "budget_run known [] l = ([], l)"
| "budget_run known ((c, now) # qs) l =
     (let (ok, l) = within_budget known c now l; (oks, l) = budget_run known qs l in (ok # oks, l))"

definition minute_of :: "real \<Rightarrow> int" where "minute_of t = \<lfloor>t / 60\<rfloor>"

lemma minute_mono: "t \<le> u \<Longrightarrow> minute_of t \<le> minute_of u"
  unfolding minute_of_def by (intro floor_mono divide_right_mono) auto

definition used_in :: "int \<Rightarrow> str \<Rightarrow> query_log \<Rightarrow> nat" where
  "used_in m c l = (if budget_minute l = Some m then dcount (known_used l) c else 0)"

definition own_queries :: "int \<Rightarrow> str \<Rightarrow> (str \<times> real) list \<Rightarrow> nat" where
  "own_queries m c qs = length (filter (\<lambda>(c', t). c' = c \<and> minute_of t = m) qs)"

lemma roll_minute_used: "dcount (known_used (roll_minute now l)) c = used_in (minute_of now) c l"
  by (auto simp: roll_minute_def used_in_def minute_of_def dcount_def Let_def)

lemma roll_minute_frame [simp]:
  "client_budget (roll_minute now l) = client_budget l" "total_budget (roll_minute now l) = total_budget l"
  "budget_minute (roll_minute now l) = Some (minute_of now)"
  by (auto simp: roll_minute_def Let_def minute_of_def)

lemma within_budget_known:
  assumes "c \<in> known"
  shows "fst (within_budget known c now l) \<longleftrightarrow> used_in (minute_of now) c l < client_budget l"
  using assms by (auto simp: within_budget_def Let_def roll_minute_used)

lemma dcount_dset: "dcount (dset k v d) k' = (if k' = k then v else dcount d k')"
  by (simp add: dcount_def)

lemma within_budget_minute: "budget_minute (snd (within_budget known c now l)) = Some (minute_of now)"
  by (auto simp: within_budget_def Let_def)

lemma within_budget_known_used:
  "known_used (snd (within_budget known c now l)) =
     (if c \<in> known \<and> used_in (minute_of now) c l < client_budget l
      then dset c (used_in (minute_of now) c l + 1) (known_used (roll_minute now l))
      else known_used (roll_minute now l))"
  by (auto simp: within_budget_def Let_def roll_minute_used)

lemma within_budget_used:
  assumes "c \<in> known"
  shows "used_in m c (snd (within_budget known c' now l)) =
    (if m \<noteq> minute_of now then 0
     else if c' = c \<and> used_in m c l < client_budget l then used_in m c l + 1 else used_in m c l)"
  using assms unfolding used_in_def [of m c "snd _"] within_budget_minute within_budget_known_used
  by (auto simp: dcount_dset roll_minute_used)

lemma within_budget_frame [simp]: "client_budget (snd (within_budget known c now l)) = client_budget l"
  by (auto simp: within_budget_def Let_def)

lemma budget_run_snoc:
  "budget_run known (qs @ [(c, now)]) l =
     (fst (budget_run known qs l) @ [fst (within_budget known c now (snd (budget_run known qs l)))],
      snd (within_budget known c now (snd (budget_run known qs l))))"
  by (induction qs arbitrary: l) (auto simp: Let_def case_prod_unfold)

lemma budget_run_length [simp]: "length (fst (budget_run known qs l)) = length qs"
  by (induction qs arbitrary: l) (auto simp: Let_def case_prod_unfold)

lemma budget_run_frame [simp]: "client_budget (snd (budget_run known qs l)) = client_budget l"
  by (induction qs rule: rev_induct) (auto simp: budget_run_snoc)

lemma budget_run_used:
  assumes "c \<in> known" and "sorted (map snd qs)" and "\<And>q. q \<in> set qs \<Longrightarrow> minute_of (snd q) \<le> m"
    and "known_used l = []"
  shows "used_in m c (snd (budget_run known qs l)) = min (client_budget l) (own_queries m c qs)"
  using assms(2,3)
proof (induction qs rule: rev_induct)
  case Nil
  then show ?case using assms(4) by (simp add: used_in_def own_queries_def dcount_def)
next
  case (snoc q qs)
  obtain c' t where q: "q = (c', t)" by force
  show ?case
  proof (cases "m = minute_of t")
    case True
    with snoc q show ?thesis
      by (auto simp: budget_run_snoc within_budget_used [OF assms(1)] own_queries_def sorted_append)
  next
    case False
    with snoc.prems q have less: "minute_of t < m" by fastforce
    have "minute_of (snd x) \<noteq> m" if "x \<in> set (qs @ [q])" for x
      using snoc.prems(1) that q minute_mono [of "snd x" t] less by (auto simp: sorted_append)
    then have "filter (\<lambda>(c', t). c' = c \<and> minute_of t = m) (qs @ [q]) = []"
      unfolding filter_empty_conv by fastforce
    then have "own_queries m c (qs @ [q]) = 0" unfolding own_queries_def by (simp only: list.size)
    with False q show ?thesis by (simp add: budget_run_snoc within_budget_used [OF assms(1)])
  qed
qed

lemma known_verdict:
  assumes "sorted (map snd qs)" and "i < length qs" and "fst (qs ! i) \<in> known" and "known_used l = []"
    and "0 < client_budget l"
  shows "fst (budget_run known qs l) ! i \<longleftrightarrow>
    own_queries (minute_of (snd (qs ! i))) (fst (qs ! i)) (take i qs) < client_budget l"
  using assms(1,2,3)
proof (induction qs rule: rev_induct)
  case (snoc q qs)
  obtain c t where q: "q = (c, t)" by force
  show ?case
  proof (cases "i < length qs")
    case True
    with snoc q show ?thesis by (simp add: budget_run_snoc nth_append sorted_append)
  next
    case False
    with snoc.prems have i: "i = length qs" by simp
    with snoc.prems q have c: "c \<in> known" by simp
    have "used_in (minute_of t) c (snd (budget_run known qs l)) = min (client_budget l) (own_queries (minute_of t) c qs)"
      using snoc.prems(1) q c assms(4) by (intro budget_run_used) (auto simp: sorted_append intro: minute_mono)
    with i q c show ?thesis by (simp add: budget_run_snoc nth_append within_budget_known min_less_iff_disj)
  qed
qed simp

text \<open>
  A device of the inventory cannot be pushed out of the log. In any sequence of lookups in the
  order of the clock, from any sources, however many and however many forged, a lookup by a known
  device is within budget exactly when that device itself made fewer lookups than its own allowance in
  the same minute before it: nobody else's traffic plays a part.
\<close>

theorem known_device_logged:
  assumes "sorted (map snd qs)" and "i < length qs" and "fst (qs ! i) \<in> known"
  shows "fst (budget_run known qs (new_log True batch per_client per_minute)) ! i \<longleftrightarrow>
    own_queries (minute_of (snd (qs ! i))) (fst (qs ! i)) (take i qs) < nat (max 1 per_client)"
  using known_verdict [OF assms, of "new_log True batch per_client per_minute"] by (simp add: new_log_def)

theorem known_device_logged_witness:
  "fst (budget_run {''10.0.0.2''} [(''6.6.6.6'', 1), (''10.0.0.2'', 2)] (new_log True 500 1 1)) ! 1"
  using known_device_logged [of "[(''6.6.6.6'', 1), (''10.0.0.2'', 2)]" 1 "{''10.0.0.2''}" 500 1 1]
  by (simp add: own_queries_def)

section \<open>The tables\<close>

lemma dget_map_values: "dget (map (\<lambda>(k, v). (k, f v)) d) k = map_option f (dget d k)"
  by (induction d) (auto simp: dget_Cons)

lemma dwf_map_values [simp]: "dwf (map (\<lambda>(k, v). (k, f v)) d) = dwf d"
  by (simp add: dwf_def dkeys_def case_prod_unfold comp_def)

lemma dget_rev: assumes "dwf d" shows "dget (rev d) k = dget d k"
proof (cases "dget d k")
  case None
  then have "dget (rev d) k = None" by (simp add: dget_None_iff dkeys_def)
  with None show ?thesis by simp
next
  case (Some v)
  have "dwf (rev d)" using assms by (simp add: dwf_def dkeys_def flip: rev_map)
  with Some show ?thesis by (auto intro!: dget_in_dwf dest: dget_Some_in)
qed

lemma dget_assign: "dwf kvs \<Longrightarrow>
    dget (fold (\<lambda>(k, v) d. dset k v d) kvs d) k = (case dget kvs k of Some v \<Rightarrow> Some v | None \<Rightarrow> dget d k)"
  using od.assign_loop [of kvs d k] dget_rev [of kvs k] by (simp add: dget_def)

definition raw_rows :: "int \<Rightarrow> str \<Rightarrow> log_db \<Rightarrow> query_record list" where
  "raw_rows h c db = filter (\<lambda>q. hour_of (q_ts q) = h \<and> q_client q = c) (map snd (db_rows db))"

text \<open>
  What a rollup writes: for an hour and client with a raw row inside the window the counts of
  exactly those rows, and every other entry is left alone. So an hour that lies wholly inside the
  window gets its true counts, however often the job runs.
\<close>

theorem rollup_exact:
  "dget (db_hourly (snd (rollup hours_back utcnow db))) (h, c) =
     (let qs = filter (\<lambda>q. utcnow - hours_back * 3600 \<le> q_ts q) (raw_rows h c db)
      in if qs = [] then dget (db_hourly db) (h, c) else Some (tally_rows qs))"
proof -
  let ?since = "utcnow - hours_back * 3600"
  let ?qs = "filter (\<lambda>q. ?since \<le> q_ts q) (map snd (db_rows db))"
  have qs: "filter (\<lambda>q. ?since \<le> q_ts q) (raw_rows h c db) =
      filter (\<lambda>q. (hour_of (q_ts q), q_client q) = (h, c)) ?qs"
    unfolding raw_rows_def by (auto simp: filter_filter intro!: filter_cong)
  have "(h, c) \<in> (\<lambda>q. (hour_of (q_ts q), q_client q)) ` set ?qs \<longleftrightarrow>
      filter (\<lambda>q. (hour_of (q_ts q), q_client q) = (h, c)) ?qs \<noteq> []"
    unfolding filter_empty_conv by force
  then show ?thesis
    unfolding rollup_def Let_def rollup_groups_def qs
    by (simp add: dget_assign dget_map_values dget_group_by)
qed

text \<open>
  The job truncates history: when the window starts in the middle of an hour that the client was active
  in both before and after that instant, the counts already kept for the hour are replaced by those of
  its later part.
\<close>

lemma rollup_undercounts_edge_hour:
  assumes "q1 \<in> set (raw_rows h c db)" and "q2 \<in> set (raw_rows h c db)"
    and "q_ts q1 < utcnow - hours_back * 3600" and "utcnow - hours_back * 3600 \<le> q_ts q2"
  shows "\<exists>n b. dget (db_hourly (snd (rollup hours_back utcnow db))) (h, c) = Some (n, b) \<and>
    n < int (length (raw_rows h c db))"
proof -
  let ?P = "\<lambda>q. utcnow - hours_back * 3600 \<le> q_ts q"
  have "filter ?P (raw_rows h c db) \<noteq> []" using assms(2,4) by (auto simp: filter_empty_conv)
  moreover have "length (filter ?P (raw_rows h c db)) < length (raw_rows h c db)"
    using assms(1,3) by (intro length_filter_less) auto
  ultimately show ?thesis by (simp add: rollup_exact tally_rows_def)
qed

lemma delete_chunks_eq:
  "delete_chunks chunk lo cutoff rows = filter (\<lambda>(i, q). \<not> (lo \<le> i \<and> i \<le> cutoff)) rows"
proof (induction chunk lo cutoff rows rule: delete_chunks.induct)
  case (1 chunk lo cutoff rows)
  show ?case
  proof (cases "cutoff < lo")
    case True
    then have "\<not> (lo \<le> i \<and> i \<le> cutoff)" for i :: int by linarith
    with True show ?thesis by (simp add: delete_chunks.simps)
  next
    case False
    let ?up = "min cutoff (lo + max 1 chunk - 1)"
    have "delete_chunks chunk lo cutoff rows =
        delete_chunks chunk (?up + 1) cutoff (filter (\<lambda>(i, q). \<not> (lo \<le> i \<and> i \<le> ?up)) rows)"
      using False by (subst delete_chunks.simps) (simp only: if_False Let_def)
    also have "\<dots> = filter (\<lambda>(i, q). \<not> (?up + 1 \<le> i \<and> i \<le> cutoff)) (filter (\<lambda>(i, q). \<not> (lo \<le> i \<and> i \<le> ?up)) rows)"
      using False by (rule 1) simp
    also have "\<dots> = filter (\<lambda>(i, q). \<not> (lo \<le> i \<and> i \<le> cutoff)) rows"
      unfolding filter_filter using False by (intro filter_cong) auto
    finally show ?thesis .
  qed
qed

lemma distinct_int_bound:
  fixes xs :: "int list"
  assumes "distinct xs" and "\<And>x. x \<in> set xs \<Longrightarrow> a < x \<and> x \<le> b" shows "int (length xs) \<le> max 0 (b - a)"
proof -
  have "set xs \<subseteq> {a<..b}" using assms(2) by auto
  then have "card (set xs) \<le> card {a<..b}" by (intro card_mono) auto
  with assms(1) show ?thesis by (simp add: distinct_card)
qed

lemma row_cap_rows:
  assumes "db_rows db \<noteq> []" and "rows = db_rows db"
  shows "db_rows (snd (enforce_row_cap max_rows chunk db)) =
    (if Max (set (map fst rows)) - max 1 max_rows < Min (set (map fst rows)) then rows
     else delete_chunks chunk (Min (set (map fst rows))) (Max (set (map fst rows)) - max 1 max_rows) rows)"
  using assms by (cases "db_rows db") (auto simp: enforce_row_cap_def Let_def)

text \<open>
  The disk stays bounded: the row cap, deleting in chunks, ends with exactly the rows whose id is
  within the last \<open>max_rows\<close> ids, so with at most that many rows, and the ones it evicts are the oldest.
\<close>

theorem row_cap_keeps_newest:
  assumes "distinct (map fst (db_rows db))"
  shows "db_rows (snd (enforce_row_cap max_rows chunk db)) =
      filter (\<lambda>(i, q). Max (set (map fst (db_rows db))) - max 1 max_rows < i) (db_rows db) \<and>
    int (length (db_rows (snd (enforce_row_cap max_rows chunk db)))) \<le> max 1 max_rows"
proof -
  let ?rows = "db_rows db"
  let ?top = "Max (set (map fst ?rows))"
  have eq: "db_rows (snd (enforce_row_cap max_rows chunk db)) = filter (\<lambda>(i, q). ?top - max 1 max_rows < i) ?rows"
  proof (cases ?rows)
    case (Cons r rs)
    have lo: "Min (set (map fst ?rows)) \<le> fst x" if "x \<in> set ?rows" for x using that by simp
    show ?thesis
    proof (cases "?top - max 1 max_rows < Min (set (map fst ?rows))")
      case True
      have "?top - max 1 max_rows < fst x" if "x \<in> set ?rows" for x
        by (rule less_le_trans [OF True lo [OF that]])
      then have "filter (\<lambda>x. ?top - max 1 max_rows < fst x) ?rows = ?rows"
        by (rule filter_True [OF ballI])
      then have "filter (\<lambda>(i, q). ?top - max 1 max_rows < i) ?rows = ?rows"
        by (simp only: case_prod_unfold)
      with row_cap_rows [OF _ refl, of db max_rows chunk] True Cons show ?thesis
        by (simp only: if_True list.distinct not_False_eq_True)
    next
      case False
      then have "db_rows (snd (enforce_row_cap max_rows chunk db)) =
          delete_chunks chunk (Min (set (map fst ?rows))) (?top - max 1 max_rows) ?rows"
        using row_cap_rows [OF _ refl, of db max_rows chunk] Cons
        by (simp only: if_False list.distinct not_False_eq_True)
      also have "\<dots> = filter (\<lambda>(i, q). ?top - max 1 max_rows < i) ?rows"
        unfolding delete_chunks_eq case_prod_unfold by (intro filter_cong) (auto simp only: lo not_le simp_thms)
      finally show ?thesis .
    qed
  qed (simp add: enforce_row_cap_def)
  have "int (length (map fst (filter (\<lambda>(i, q). ?top - max 1 max_rows < i) ?rows))) \<le> max 0 (?top - (?top - max 1 max_rows))"
    using assms by (intro distinct_int_bound) (auto simp: distinct_map_filter intro!: Max_ge image_eqI)
  with eq show ?thesis by simp
qed

definition example_log_db :: log_db where
  "example_log_db = \<lparr>db_rows = map (\<lambda>i. (i, \<lparr>q_ts = i, q_client = ''c'', q_qname = ''a.b'', q_qtype = ''A'',
     q_action = ''allow'', q_reason = None\<rparr>)) [1, 2, 5], db_hourly = []\<rparr>"

theorem row_cap_keeps_newest_witness:
  "length (db_rows (snd (enforce_row_cap 2 1 example_log_db))) \<le> 2"
  using row_cap_keeps_newest [of example_log_db 2 1] by (simp add: example_log_db_def)

end
