(* ===== verification/Dns_Reputation.thy ===== *)
theory Dns_Reputation
  imports Dns_Policy Dns_Guard
begin

text \<open>
  Domain reputation, \<open>homesoc/dnsfilter/reputation.py\<close>: the daily quota, the lookup that combines
  VirusTotal and URLhaus into a verdict and stores it, the two-lane worker queue and the quota shares.
  What the two services answer is an argument (no answer, or a status and a parsed body); the table is
  a list of rows, stamps are whole UTC seconds. The raw JSON kept beside a verdict is not modelled.
\<close>

section \<open>Names\<close>

definition SEEN_WINDOW_HOURS :: real where "SEEN_WINDOW_HOURS = 24"
definition NO_VERDICT_RETRY_HOURS :: real where "NO_VERDICT_RETRY_HOURS = 1"
definition FINDING_DEDUPE_HOURS :: real where "FINDING_DEDUPE_HOURS = 24"
definition QUEUE_MAX :: nat where "QUEUE_MAX = 5000"
definition QUEUE_PER_CLIENT_MAX :: nat where "QUEUE_PER_CLIENT_MAX = 500"
definition KNOWN_LANE_PER_CLIENT :: nat where "KNOWN_LANE_PER_CLIENT = 50"
definition VT_PER_MINUTE :: int where "VT_PER_MINUTE = 4"
definition VT_CLIENT_SHARE :: real where "VT_CLIENT_SHARE = 1 / 10"
definition VT_UNKNOWN_SHARE :: real where "VT_UNKNOWN_SHARE = 1 / 2"
definition SEEN_MAX :: nat where "SEEN_MAX = 50000"
definition EMITTED_MAX :: nat where "EMITTED_MAX = 10000"
definition VERDICTS :: "str list" where
  "VERDICTS = [''malicious'', ''suspicious'', ''clean'', ''unknown'']"

definition WELL_KNOWN :: "str set" where
  "WELL_KNOWN = {
    ''google.com'', ''googleapis.com'', ''gstatic.com'', ''googleusercontent.com'', ''googlevideo.com'',
    ''youtube.com'', ''ytimg.com'', ''ggpht.com'', ''gvt1.com'', ''gvt2.com'', ''google-analytics.com'',
    ''googletagmanager.com'', ''doubleclick.net'', ''googlesyndication.com'', ''googleadservices.com'',
    ''android.com'', ''goo.gl'', ''gmail.com'', ''googleapis.cn'', ''firebaseio.com'', ''crashlytics.com'',
    ''microsoft.com'', ''microsoftonline.com'', ''live.com'', ''office.com'', ''office365.com'', ''office.net'',
    ''outlook.com'', ''hotmail.com'', ''windows.com'', ''windowsupdate.com'', ''msftconnecttest.com'',
    ''msftncsi.com'', ''msn.com'', ''bing.com'', ''azure.com'', ''azureedge.net'', ''azure.net'',
    ''windows.net'', ''msedge.net'', ''skype.com'', ''xbox.com'', ''xboxlive.com'', ''onedrive.com'',
    ''sharepoint.com'', ''visualstudio.com'', ''microsoftstore.com'', ''msauth.net'', ''msecnd.net'',
    ''trafficmanager.net'', ''aka.ms'', ''mp.microsoft.com'', ''apple.com'', ''icloud.com'',
    ''icloud-content.com'', ''mzstatic.com'', ''apple-dns.net'', ''aaplimg.com'', ''itunes.com'',
    ''cdn-apple.com'', ''apple.news'', ''push.apple.com'', ''akadns.net'', ''akamai.net'', ''akamaiedge.net'',
    ''akamaihd.net'', ''akamaized.net'', ''edgesuite.net'', ''edgekey.net'', ''cloudfront.net'',
    ''amazonaws.com'', ''amazon.com'', ''amazon.co.uk'', ''amazon.de'', ''amazon.ca'', ''amazon.com.au'',
    ''amazon.in'', ''amazon.co.jp'', ''amazon.fr'', ''amazon.it'', ''amazon.es'', ''media-amazon.com'',
    ''ssl-images-amazon.com'', ''a2z.com'', ''amazonvideo.com'', ''primevideo.com'', ''alexa.com'',
    ''images-amazon.com'', ''amazontrust.com'', ''awsstatic.com'', ''facebook.com'', ''fbcdn.net'', ''fb.com'',
    ''instagram.com'', ''cdninstagram.com'', ''whatsapp.com'', ''whatsapp.net'', ''messenger.com'',
    ''meta.com'', ''oculus.com'', ''twitter.com'', ''twimg.com'', ''x.com'', ''t.co'', ''linkedin.com'',
    ''licdn.com'', ''reddit.com'', ''redd.it'', ''redditstatic.com'', ''redditmedia.com'', ''pinterest.com'',
    ''pinimg.com'', ''tumblr.com'', ''snapchat.com'', ''sc-cdn.net'', ''tiktok.com'', ''tiktokcdn.com'',
    ''tiktokv.com'', ''byteoversea.com'', ''discord.com'', ''discordapp.com'', ''discord.gg'',
    ''discordapp.net'', ''telegram.org'', ''signal.org'', ''slack.com'', ''slack-edge.com'', ''zoom.us'',
    ''teams.microsoft.com'', ''webex.com'', ''netflix.com'', ''nflxvideo.net'', ''nflximg.net'',
    ''nflxext.com'', ''nflxso.net'', ''hulu.com'', ''disneyplus.com'', ''disney.com'', ''bamgrid.com'',
    ''spotify.com'', ''scdn.co'', ''spotifycdn.com'', ''twitch.tv'', ''ttvnw.net'', ''jtvnw.net'', ''roku.com'',
    ''sonos.com'', ''plex.tv'', ''hbomax.com'', ''paramountplus.com'', ''peacocktv.com'', ''pandora.com'',
    ''soundcloud.com'', ''vimeo.com'', ''vimeocdn.com'', ''dailymotion.com'', ''cloudflare.com'',
    ''cloudflare-dns.com'', ''cloudflareinsights.com'', ''cloudflare.net'', ''one.one.one.one'', ''quad9.net'',
    ''fastly.net'', ''fastlylb.net'', ''jsdelivr.net'', ''unpkg.com'', ''cdnjs.com'', ''bootstrapcdn.com'',
    ''jquery.com'', ''gstatic.cn'', ''github.com'', ''githubusercontent.com'', ''github.io'',
    ''githubassets.com'', ''gitlab.com'', ''bitbucket.org'', ''atlassian.com'', ''atlassian.net'',
    ''npmjs.org'', ''npmjs.com'', ''pypi.org'', ''pythonhosted.org'', ''python.org'', ''nodejs.org'',
    ''rubygems.org'', ''docker.com'', ''docker.io'', ''ubuntu.com'', ''canonical.com'', ''debian.org'',
    ''fedoraproject.org'', ''redhat.com'', ''centos.org'', ''archlinux.org'', ''kernel.org'', ''mozilla.org'',
    ''mozilla.net'', ''mozilla.com'', ''firefox.com'', ''cdn.mozilla.net'', ''wikipedia.org'',
    ''wikimedia.org'', ''wiktionary.org'', ''stackoverflow.com'', ''stackexchange.com'', ''medium.com'',
    ''wordpress.com'', ''wordpress.org'', ''wp.com'', ''gravatar.com'', ''squarespace.com'', ''wix.com'',
    ''shopify.com'', ''shopifycdn.com'', ''ebay.com'', ''ebaystatic.com'', ''paypal.com'',
    ''paypalobjects.com'', ''stripe.com'', ''walmart.com'', ''target.com'', ''bestbuy.com'', ''costco.com'',
    ''homedepot.com'', ''etsy.com'', ''aliexpress.com'', ''alibaba.com'', ''alicdn.com'', ''nytimes.com'',
    ''washingtonpost.com'', ''cnn.com'', ''bbc.co.uk'', ''bbc.com'', ''theguardian.com'', ''reuters.com'',
    ''bloomberg.com'', ''wsj.com'', ''forbes.com'', ''yahoo.com'', ''yimg.com'', ''aol.com'', ''att.com'',
    ''verizon.com'', ''t-mobile.com'', ''comcast.net'', ''xfinity.com'', ''spectrum.net'', ''cox.net'',
    ''adobe.com'', ''adobe.io'', ''typekit.net'', ''dropbox.com'', ''dropboxapi.com'', ''box.com'',
    ''salesforce.com'', ''force.com'', ''hubspot.com'', ''zendesk.com'', ''intercom.io'', ''mailchimp.com'',
    ''sendgrid.net'', ''cloudflare-ipfs.com'', ''nvidia.com'', ''intel.com'', ''amd.com'', ''dell.com'',
    ''lenovo.com'', ''hp.com'', ''logitech.com'', ''samsung.com'', ''lg.com'', ''sony.com'',
    ''playstation.com'', ''playstation.net'', ''nintendo.com'', ''nintendo.net'', ''steampowered.com'',
    ''steamcommunity.com'', ''steamstatic.com'', ''epicgames.com'', ''unrealengine.com'', ''ea.com'',
    ''origin.com'', ''blizzard.com'', ''battle.net'', ''riotgames.com'', ''ubisoft.com'', ''minecraft.net'',
    ''mojang.com'', ''ntp.org'', ''pool.ntp.org'', ''time.windows.com'', ''time.apple.com'',
    ''time.google.com'', ''nist.gov'', ''letsencrypt.org'', ''digicert.com'', ''globalsign.com'',
    ''sectigo.com'', ''godaddy.com'', ''identrust.com'', ''ocsp.apple.com'', ''pki.goog'', ''duckduckgo.com'',
    ''brave.com'', ''opera.com'', ''vivaldi.com'', ''protonmail.com'', ''proton.me'', ''tutanota.com'',
    ''grammarly.com'', ''grammarly.io'', ''notion.so'', ''figma.com'', ''canva.com'', ''trello.com'',
    ''asana.com''}"

definition is_well_known :: "str \<Rightarrow> bool" where
  "is_well_known name \<longleftrightarrow> registrable_domain name \<in> WELL_KNOWN"

definition is_ip :: "str \<Rightarrow> bool" where
  "is_ip token \<longleftrightarrow> ip_address token \<noteq> None"

definition worst_verdict :: "str list \<Rightarrow> str" where
  "worst_verdict vs = (case List.find (\<lambda>v. v \<in> set vs) VERDICTS of Some v \<Rightarrow> v | None \<Rightarrow> ''unknown'')"

definition bounded_put :: "'k \<Rightarrow> 'v \<Rightarrow> nat \<Rightarrow> ('k, 'v) dict \<Rightarrow> ('k, 'v) dict" where
  "bounded_put k v cap d = evict_to cap (dmove_to_end k (dset k v d))"

section \<open>The daily quota\<close>

text \<open>\<open>b_settings\<close> is what the \<open>vt.budget.<date>\<close> settings hold; a date is its text.\<close>

record budget =
  daily_limit :: int
  per_minute :: int
  tokens :: real
  last_refill :: real
  b_date :: str
  b_used :: int
  b_settings :: "(str, int) dict"

definition load_used :: "(str, int) dict \<Rightarrow> str \<Rightarrow> int" where
  "load_used settings date = (case dget settings date of None \<Rightarrow> 0 | Some n \<Rightarrow> n)"

definition new_budget :: "(str, int) dict \<Rightarrow> int \<Rightarrow> int \<Rightarrow> str \<Rightarrow> real \<Rightarrow> budget" where
  "new_budget settings limit per_min today now =
     \<lparr>daily_limit = max 0 limit, per_minute = max 1 per_min, tokens = of_int (max 1 per_min),
      last_refill = now, b_date = today, b_used = load_used settings today, b_settings = settings\<rparr>"

definition roll_day :: "str \<Rightarrow> budget \<Rightarrow> budget" where
  "roll_day today b =
     (if today \<noteq> b_date b then b\<lparr>b_date := today, b_used := load_used (b_settings b) today\<rparr> else b)"

definition refill :: "real \<Rightarrow> budget \<Rightarrow> budget" where
  "refill now b =
     b\<lparr>tokens := min (of_int (per_minute b)) (tokens b + max 0 (now - last_refill b) * of_int (per_minute b) / 60),
       last_refill := now\<rparr>"

definition try_acquire :: "str \<Rightarrow> real \<Rightarrow> budget \<Rightarrow> bool \<times> budget" where
  "try_acquire today now b =
     (let b = refill now (roll_day today b)
      in if daily_limit b \<le> b_used b \<or> tokens b < 1 then (False, b)
         else (let n = b_used b + 1
               in (True, b\<lparr>tokens := tokens b - 1, b_used := n, b_settings := dset (b_date b) n (b_settings b)\<rparr>)))"

definition used_today :: "str \<Rightarrow> budget \<Rightarrow> int \<times> budget" where
  "used_today today b = (let b = roll_day today b in (b_used b, b))"

definition remaining_today :: "str \<Rightarrow> budget \<Rightarrow> int \<times> budget" where
  "remaining_today today b = (let (n, b) = used_today today b in (max 0 (daily_limit b - n), b))"

section \<open>Lookups\<close>

text \<open>No response (the request raised), or a status and the body, \<open>None\<close> when too large or unparsable.\<close>

datatype 'b http = NoResponse | Response nat "'b option"

text \<open>The malicious and suspicious votes of a VirusTotal answer.\<close>

definition vt_lookup :: "str \<Rightarrow> (int \<times> int) http \<Rightarrow> (int \<times> int) option" where
  "vt_lookup domain h =
     (if \<not> DOMAIN_RE domain then None
      else case h of
        NoResponse \<Rightarrow> None
      | Response status body \<Rightarrow>
          if status = 404 then Some (0, 0) else if status \<noteq> 200 then None else body)"

text \<open>A URLhaus body that is an object: its query status and the status of each listed URL.\<close>

datatype uh_body = NotObject | UhBody str "str option list"

record uh_answer =
  uh_listed :: bool
  uh_online :: nat
  uh_offline :: nat

definition urlhaus_lookup :: "str \<Rightarrow> uh_body http \<Rightarrow> uh_answer option" where
  "urlhaus_lookup domain h =
     (if \<not> DOMAIN_RE domain then None
      else case h of
        NoResponse \<Rightarrow> None
      | Response status body \<Rightarrow>
          if status \<noteq> 200 then None
          else case body of
            None \<Rightarrow> None
          | Some NotObject \<Rightarrow> None
          | Some (UhBody qs urls) \<Rightarrow>
              if qs \<noteq> ''ok'' then Some \<lparr>uh_listed = False, uh_online = 0, uh_offline = 0\<rparr>
              else (let ss = map (lower \<circ> the) (filter (\<lambda>u. u \<noteq> None) urls)
                    in Some \<lparr>uh_listed = True, uh_online = length (filter (\<lambda>s. s = ''online'') ss),
                             uh_offline = length (filter (\<lambda>s. s \<noteq> ''online'') ss)\<rparr>))"

record rep_row = reputation_row +
  rr_source :: str
  rr_suspicious :: int

record rep_result =
  re_domain :: str
  re_verdict :: str
  re_malicious :: int
  re_suspicious :: int
  re_source :: str
  re_cached :: bool
  re_checked_at :: int

definition cached_result :: "rep_row list \<Rightarrow> str \<Rightarrow> real \<Rightarrow> real \<Rightarrow> rep_result option" where
  "cached_result tab domain ttl_hours utcnow =
     (case List.find (\<lambda>r. rr_domain r = domain) tab of
        None \<Rightarrow> None
      | Some r \<Rightarrow>
          if rr_checked_at r < \<lfloor>utcnow - ttl_hours * 3600\<rfloor> then None
          else if rr_source r = ''none'' \<and> rr_checked_at r < \<lfloor>utcnow - NO_VERDICT_RETRY_HOURS * 3600\<rfloor> then None
          else Some \<lparr>re_domain = domain, re_verdict = rr_verdict r, re_malicious = rr_malicious r,
                     re_suspicious = rr_suspicious r, re_source = rr_source r, re_cached = True,
                     re_checked_at = rr_checked_at r\<rparr>)"

definition row_of_result :: "rep_result \<Rightarrow> rep_row" where
  "row_of_result r = \<lparr>rr_domain = re_domain r, rr_verdict = re_verdict r, rr_malicious = re_malicious r,
     rr_checked_at = re_checked_at r, rr_source = re_source r, rr_suspicious = re_suspicious r\<rparr>"

fun store_row :: "rep_row \<Rightarrow> rep_row list \<Rightarrow> rep_row list" where
  "store_row r [] = [r]"
| "store_row r (x # xs) = (if rr_domain x = rr_domain r then r # xs else x # store_row r xs)"

definition store_result :: "rep_result \<Rightarrow> rep_row list \<Rightarrow> rep_row list" where
  "store_result r tab = store_row (row_of_result r) tab"

text \<open>The configuration a lookup reads, with the defaults of zero or missing values applied.\<close>

record rep_cfg =
  cfg_ttl_hours :: real
  cfg_min_votes :: int
  cfg_api_key :: bool

definition combine_verdict :: "int \<Rightarrow> int \<Rightarrow> int \<Rightarrow> bool \<Rightarrow> str" where
  "combine_verdict min_votes mal susp answered =
     (if min_votes \<le> mal then ''malicious''
      else if 0 < mal \<or> 0 < susp then ''suspicious''
      else if answered then ''clean'' else ''unknown'')"

text \<open>The fresh result from what the two services said (\<open>None\<close>: not asked, or no usable answer).\<close>

definition fresh_result ::
  "int \<Rightarrow> str \<Rightarrow> (int \<times> int) option \<Rightarrow> uh_answer option \<Rightarrow> real \<Rightarrow> rep_result" where
  "fresh_result min_votes d vt uh utcnow =
     (let (mal, susp) = (case vt of None \<Rightarrow> (0, 0) | Some (m, s) \<Rightarrow> (max 0 m, max 0 s));
          (mal, susp) = (case uh of
              None \<Rightarrow> (mal, susp)
            | Some u \<Rightarrow> if 0 < uh_online u then (max mal min_votes, susp)
                        else if uh_listed u then (mal, max susp 1) else (mal, susp));
          src = (if vt \<noteq> None then ''virustotal'' else []) @
                (if vt \<noteq> None \<and> uh \<noteq> None then ''+'' else []) @ (if uh \<noteq> None then ''urlhaus'' else [])
      in \<lparr>re_domain = d, re_verdict = combine_verdict min_votes mal susp (vt \<noteq> None \<or> uh \<noteq> None),
          re_malicious = mal, re_suspicious = susp, re_source = (if src = [] then ''none'' else src),
          re_cached = False, re_checked_at = \<lfloor>utcnow\<rfloor>\<rparr>)"

definition lookup_name :: "str \<Rightarrow> str" where
  "lookup_name domain = lower (rstrip_by is_dot (strip domain))"

text \<open>\<open>acquire\<close> draws on the quota; \<open>stored\<close> says that the write did not raise.\<close>

definition lookup_domain_detail ::
  "rep_cfg \<Rightarrow> ('q \<Rightarrow> bool \<times> 'q) \<Rightarrow> (int \<times> int) http \<Rightarrow> uh_body http \<Rightarrow> real \<Rightarrow> bool \<Rightarrow> bool \<Rightarrow> str \<Rightarrow>
   'q \<Rightarrow> rep_row list \<Rightarrow> rep_result \<times> 'q \<times> rep_row list" where
  "lookup_domain_detail cfg acquire vt_http uh_http utcnow stored force domain q tab =
     (let d = lookup_name domain
      in case (if force then None else cached_result tab d (cfg_ttl_hours cfg) utcnow) of
           Some hit \<Rightarrow> (hit, q, tab)
         | None \<Rightarrow>
             (let (granted, q) = (if cfg_api_key cfg then acquire q else (False, q));
                  vt = (if granted then vt_lookup d vt_http else None);
                  r = fresh_result (cfg_min_votes cfg) d vt (urlhaus_lookup d uh_http) utcnow
              in (r, q, if stored then store_result r tab else tab)))"

section \<open>Retention\<close>

definition verdict_rank :: "str \<Rightarrow> nat" where
  "verdict_rank v = (if v = ''malicious'' then 2 else if v = ''suspicious'' then 1 else 0)"

definition prune_reputation :: "int \<Rightarrow> int \<Rightarrow> real \<Rightarrow> rep_row list \<Rightarrow> nat \<times> rep_row list" where
  "prune_reputation max_age_days max_rows utcnow tab =
     (let cutoff = \<lfloor>utcnow - of_int (max 1 max_age_days) * 86400\<rfloor>;
          left = filter (\<lambda>r. \<not> (rr_verdict r \<in> {''clean'', ''unknown''} \<and> rr_checked_at r < cutoff)) tab;
          excess = int (length left) - max 1 max_rows;
          gone = map rr_domain (take (nat excess)
            (sort_key (\<lambda>r. verdict_rank (rr_verdict r)) (sort_key rr_checked_at left)));
          kept = (if 0 < excess then filter (\<lambda>r. rr_domain r \<notin> set gone) left else left)
      in (length tab - length kept, kept))"

definition list_reputation :: "nat \<Rightarrow> rep_row list \<Rightarrow> rep_row list" where
  "list_reputation n_max tab =
     take n_max (sort_key (\<lambda>r. 2 - verdict_rank (rr_verdict r)) (sort_key (\<lambda>r. - rr_checked_at r) tab))"

section \<open>Findings\<close>

type_synonym emitted = "(str \<times> str, real) dict"

definition emit :: "str \<Rightarrow> str \<Rightarrow> real \<Rightarrow> emitted \<Rightarrow> bool \<times> emitted" where
  "emit client domain now e =
     (case dget e (client, domain) of
        Some t \<Rightarrow> if now - t < FINDING_DEDUPE_HOURS * 3600 then (False, e)
          else (True, bounded_put (client, domain) now EMITTED_MAX e)
      | None \<Rightarrow> (True, bounded_put (client, domain) now EMITTED_MAX e))"

section \<open>The worker\<close>

datatype lane = Known | Shared

record job_item =
  it_reg :: str
  it_qname :: str
  it_client :: str
  it_lane :: lane

record worker =
  w_enabled :: bool
  known_lane :: "job_item list"
  shared_lane :: "job_item list"
  seen :: "(str, real) dict"
  pending_by_client :: "(str, nat) dict"
  pending_known :: "(str, nat) dict"
  vt_day :: "str option"
  vt_by_client :: "(str, nat) dict"
  vt_unknown :: nat
  w_emitted :: emitted
  looked_up :: nat
  malicious_found :: nat
  w_dropped :: nat

definition new_worker :: "bool \<Rightarrow> worker" where
  "new_worker en = \<lparr>w_enabled = en, known_lane = [], shared_lane = [], seen = [], pending_by_client = [],
     pending_known = [], vt_day = None, vt_by_client = [], vt_unknown = 0, w_emitted = [], looked_up = 0,
     malicious_found = 0, w_dropped = 0\<rparr>"

text \<open>\<open>skip\<close> is the policy's never-block test.\<close>

definition should_lookup :: "(str \<Rightarrow> bool) \<Rightarrow> str \<Rightarrow> real \<Rightarrow> worker \<Rightarrow> str option \<times> worker" where
  "should_lookup skip qname now w =
     (let name = lookup_name qname
      in if name = [] \<or> CHR ''.'' \<notin> set name \<or> \<not> DOMAIN_RE name then (None, w)
         else (let reg = registrable_domain name
               in if reg \<in> WELL_KNOWN \<or> is_ip reg \<or> \<not> DOMAIN_RE reg then (None, w)
                  else if skip name then (None, w)
                  else case dget (seen w) reg of
                    Some t \<Rightarrow> if now - t < SEEN_WINDOW_HOURS * 3600 then (None, w)
                      else (Some reg, w\<lparr>seen := bounded_put reg now SEEN_MAX (seen w)\<rparr>)
                  | None \<Rightarrow> (Some reg, w\<lparr>seen := bounded_put reg now SEEN_MAX (seen w)\<rparr>)))"

definition forget_seen :: "str \<Rightarrow> worker \<Rightarrow> worker" where
  "forget_seen reg w = w\<lparr>seen := ddel reg (seen w)\<rparr>"

definition release_slot :: "str \<Rightarrow> lane \<Rightarrow> worker \<Rightarrow> worker" where
  "release_slot client lane w =
     (case lane of
        Known \<Rightarrow> w\<lparr>pending_known := ddec client (pending_known w)\<rparr>
      | Shared \<Rightarrow> w\<lparr>pending_by_client := ddec client (pending_by_client w)\<rparr>)"

text \<open>\<open>_Lanes.put_nowait\<close>: \<open>None\<close> is \<open>queue.Full\<close>.\<close>

definition put_item :: "job_item \<Rightarrow> worker \<Rightarrow> worker option" where
  "put_item it w =
     (case it_lane it of
        Known \<Rightarrow> Some (w\<lparr>known_lane := known_lane w @ [it]\<rparr>)
      | Shared \<Rightarrow> if QUEUE_MAX \<le> length (shared_lane w) then None
                  else Some (w\<lparr>shared_lane := shared_lane w @ [it]\<rparr>))"

definition enqueue :: "(str \<Rightarrow> bool) \<Rightarrow> str set \<Rightarrow> str \<Rightarrow> str \<Rightarrow> real \<Rightarrow> worker \<Rightarrow> bool \<times> worker" where
  "enqueue skip known qname client now w =
     (if \<not> w_enabled w then (False, w)
      else case should_lookup skip qname now w of
        (None, w) \<Rightarrow> (False, w)
      | (Some reg, w) \<Rightarrow>
          if client \<in> known \<and> dcount (pending_known w) client < KNOWN_LANE_PER_CLIENT
          then (let w = w\<lparr>pending_known := dinc client (pending_known w)\<rparr>
                in case put_item \<lparr>it_reg = reg, it_qname = qname, it_client = client, it_lane = Known\<rparr> w of
                     Some w \<Rightarrow> (True, w) | None \<Rightarrow> (False, w))
          else if QUEUE_PER_CLIENT_MAX \<le> dcount (pending_by_client w) client
          then (False, (forget_seen reg w)\<lparr>w_dropped := w_dropped w + 1\<rparr>)
          else (let w = w\<lparr>pending_by_client := dinc client (pending_by_client w)\<rparr>
                in case put_item \<lparr>it_reg = reg, it_qname = qname, it_client = client, it_lane = Shared\<rparr> w of
                     Some w \<Rightarrow> (True, w)
                   | None \<Rightarrow> (False, (release_slot client Shared (forget_seen reg w))\<lparr>w_dropped := w_dropped w + 1\<rparr>)))"

text \<open>\<open>get_nowait\<close> with the slot given back: inventory devices first.\<close>

definition take_item :: "worker \<Rightarrow> job_item option \<times> worker" where
  "take_item w =
     (case known_lane w of
        it # rest \<Rightarrow> (Some it, release_slot (it_client it) (it_lane it) (w\<lparr>known_lane := rest\<rparr>))
      | [] \<Rightarrow>
          (case shared_lane w of
             it # rest \<Rightarrow> (Some it, release_slot (it_client it) (it_lane it) (w\<lparr>shared_lane := rest\<rparr>))
           | [] \<Rightarrow> (None, w)))"

definition pending :: "worker \<Rightarrow> nat" where
  "pending w = length (known_lane w) + length (shared_lane w)"

section \<open>Quota shares\<close>

definition vt_roll_day :: "str \<Rightarrow> worker \<Rightarrow> worker" where
  "vt_roll_day today w =
     (if Some today \<noteq> vt_day w then w\<lparr>vt_day := Some today, vt_by_client := [], vt_unknown := 0\<rparr> else w)"

definition share_cap :: "real \<Rightarrow> int \<Rightarrow> nat" where
  "share_cap share n = nat (max 1 (float_int (of_int n * share)))"

definition vt_share_ok :: "int \<Rightarrow> str \<Rightarrow> bool \<Rightarrow> str \<Rightarrow> worker \<Rightarrow> bool \<times> worker" where
  "vt_share_ok n_daily client known today w =
     (let w = vt_roll_day today w
      in (\<not> share_cap VT_CLIENT_SHARE n_daily \<le> dcount (vt_by_client w) client \<and>
          (known \<or> \<not> share_cap VT_UNKNOWN_SHARE n_daily \<le> vt_unknown w), w))"

definition vt_drawn :: "str \<Rightarrow> bool \<Rightarrow> str \<Rightarrow> worker \<Rightarrow> worker" where
  "vt_drawn client known today w =
     (let w = vt_roll_day today w
      in w\<lparr>vt_by_client := dinc client (vt_by_client w),
           vt_unknown := (if known then vt_unknown w else vt_unknown w + 1)\<rparr>)"

text \<open>\<open>_ClientBudget.try_acquire\<close> over the worker and the shared quota.\<close>

definition client_acquire :: "str \<Rightarrow> bool \<Rightarrow> str \<Rightarrow> real \<Rightarrow> worker \<times> budget \<Rightarrow> bool \<times> worker \<times> budget" where
  "client_acquire client known today now wb =
     (case wb of (w, b) \<Rightarrow>
        (let (ok, w) = vt_share_ok (daily_limit b) client known today w
         in if \<not> ok then (False, w, b)
            else (let (ok, b) = try_acquire today now b
                  in if ok then (True, vt_drawn client known today w, b) else (False, w, b))))"

section \<open>One unit of work\<close>

text \<open>
  \<open>process\<close>: the result, whether a finding is emitted, the worker, quota and table. The callback a
  malicious verdict triggers belongs to the resolver.
\<close>

definition process_item ::
  "rep_cfg \<Rightarrow> str set \<Rightarrow> (int \<times> int) http \<Rightarrow> uh_body http \<Rightarrow> real \<Rightarrow> str \<Rightarrow> real \<Rightarrow> bool \<Rightarrow> str \<Rightarrow> str \<Rightarrow>
   worker \<Rightarrow> budget \<Rightarrow> rep_row list \<Rightarrow> rep_result \<times> bool \<times> worker \<times> budget \<times> rep_row list" where
  "process_item cfg known vt_http uh_http utcnow today now stored reg client w b tab =
     (let (r, (w, b), tab) = lookup_domain_detail cfg (client_acquire client (client \<in> known) today now)
            vt_http uh_http utcnow stored False reg (w, b) tab;
          w = w\<lparr>looked_up := looked_up w + 1\<rparr>;
          w = (if re_source r = ''none''
               then w\<lparr>seen := bounded_put reg (utcnow - (SEEN_WINDOW_HOURS - NO_VERDICT_RETRY_HOURS) * 3600)
                          SEEN_MAX (seen w)\<rparr>
               else w)
      in if re_verdict r = ''malicious''
         then (let (out, e) = emit client (re_domain r) utcnow (w_emitted w)
               in (r, out, w\<lparr>malicious_found := malicious_found w + 1, w_emitted := e\<rparr>, b, tab))
         else (r, False, w, b, tab))"


section \<open>The queue is fair\<close>

definition held :: "str \<Rightarrow> job_item list \<Rightarrow> nat" where
  "held client items = length (filter (\<lambda>it. it_client it = client) items)"

definition worker_ok :: "worker \<Rightarrow> bool" where
  "worker_ok w \<longleftrightarrow>
     ct.tallies (pending_known w) it_client (known_lane w) \<and>
     ct.tallies (pending_by_client w) it_client (shared_lane w) \<and>
     (\<forall>it\<in>set (known_lane w). it_lane it = Known) \<and> (\<forall>it\<in>set (shared_lane w). it_lane it = Shared) \<and>
     length (shared_lane w) \<le> QUEUE_MAX \<and>
     (\<forall>c. held c (known_lane w) \<le> KNOWN_LANE_PER_CLIENT) \<and>
     (\<forall>c. held c (shared_lane w) \<le> QUEUE_PER_CLIENT_MAX)"

lemma worker_counts:
  assumes "worker_ok w"
  shows "dcount (pending_known w) c = held c (known_lane w)"
    and "dcount (pending_by_client w) c = held c (shared_lane w)"
  using assms by (simp_all add: worker_ok_def ct.tallies_def held_def)

lemma worker_ok_counters [simp]:
  "worker_ok (w\<lparr>seen := d\<rparr>) = worker_ok w" "worker_ok (w\<lparr>w_dropped := n\<rparr>) = worker_ok w"
  by (simp_all add: worker_ok_def)

lemma should_lookup_worker: "\<exists>d. snd (should_lookup skip q now w) = w\<lparr>seen := d\<rparr>"
proof -
  have "\<exists>d. w = w\<lparr>seen := d\<rparr>" by (rule exI [of _ "seen w"]) simp
  then show ?thesis by (auto simp: should_lookup_def Let_def split: option.splits)
qed

lemma ddec_dinc: "ct.tallies t f xs \<Longrightarrow> ct.tallies (ddec k (dinc k t)) f xs"
  by (auto simp: ct.tallies_def ct.cnt_dec ct.cnt_inc)

lemma enqueue_known_ok:
  assumes "worker_ok w" and "held c (known_lane w) < KNOWN_LANE_PER_CLIENT"
  shows "worker_ok (w\<lparr>pending_known := dinc c (pending_known w),
    known_lane := known_lane w @ [\<lparr>it_reg = r, it_qname = q, it_client = c, it_lane = Known\<rparr>]\<rparr>)"
proof -
  let ?it = "\<lparr>it_reg = r, it_qname = q, it_client = c, it_lane = Known\<rparr>"
  have "ct.tallies (dinc c (pending_known w)) it_client (known_lane w @ [?it])"
    using assms(1) ct.tallies_snoc [of "pending_known w" it_client "known_lane w" ?it] by (simp add: worker_ok_def)
  with assms show ?thesis by (auto simp: worker_ok_def held_def)
qed

lemma enqueue_shared_ok:
  assumes "worker_ok w" and "held c (shared_lane w) < QUEUE_PER_CLIENT_MAX" and "length (shared_lane w) < QUEUE_MAX"
  shows "worker_ok (w\<lparr>pending_by_client := dinc c (pending_by_client w),
    shared_lane := shared_lane w @ [\<lparr>it_reg = r, it_qname = q, it_client = c, it_lane = Shared\<rparr>]\<rparr>)"
proof -
  let ?it = "\<lparr>it_reg = r, it_qname = q, it_client = c, it_lane = Shared\<rparr>"
  have "ct.tallies (dinc c (pending_by_client w)) it_client (shared_lane w @ [?it])"
    using assms(1) ct.tallies_snoc [of "pending_by_client w" it_client "shared_lane w" ?it]
    by (simp add: worker_ok_def)
  with assms show ?thesis by (auto simp: worker_ok_def held_def)
qed

lemma enqueue_full_ok:
  assumes "worker_ok w"
  shows "worker_ok (w\<lparr>pending_by_client := ddec c (dinc c (pending_by_client w))\<rparr>)"
  using assms by (simp add: worker_ok_def ddec_dinc)

lemma enqueue_ok:
  assumes "worker_ok w" shows "worker_ok (snd (enqueue skip known q c now w))"
proof (cases "w_enabled w")
  case True
  obtain d where w': "snd (should_lookup skip q now w) = w\<lparr>seen := d\<rparr>"
    using should_lookup_worker by blast
  define u where "u = w\<lparr>seen := d\<rparr>"
  have u: "worker_ok u" using assms by (simp add: u_def)
  show ?thesis
  proof (cases "fst (should_lookup skip q now w)")
    case None
    with True w' u show ?thesis
      by (cases "should_lookup skip q now w") (simp add: enqueue_def u_def)
  next
    case (Some reg)
    then have s: "should_lookup skip q now w = (Some reg, u)" using w' by (simp add: u_def prod_eq_iff)
    consider "c \<in> known \<and> held c (known_lane u) < KNOWN_LANE_PER_CLIENT"
      | "\<not> (c \<in> known \<and> held c (known_lane u) < KNOWN_LANE_PER_CLIENT)"
        "QUEUE_PER_CLIENT_MAX \<le> held c (shared_lane u)"
      | "\<not> (c \<in> known \<and> held c (known_lane u) < KNOWN_LANE_PER_CLIENT)"
        "held c (shared_lane u) < QUEUE_PER_CLIENT_MAX"
      by linarith
    then show ?thesis
    proof cases
      case 1
      with True s enqueue_known_ok [OF u, of c reg q] show ?thesis
        by (simp add: enqueue_def worker_counts [OF u] put_item_def Let_def)
    next
      case 2
      with True s u show ?thesis by (auto simp: enqueue_def worker_counts [OF u] forget_seen_def)
    next
      case 3
      show ?thesis
      proof (cases "QUEUE_MAX \<le> length (shared_lane u)")
        case full: True
        from 3 True s full enqueue_full_ok [OF u, of c] show ?thesis
          by (auto simp: enqueue_def worker_counts [OF u] put_item_def Let_def release_slot_def forget_seen_def worker_ok_def)
      next
        case False
        with 3 True s enqueue_shared_ok [OF u, of c reg q] show ?thesis
          by (auto simp: enqueue_def worker_counts [OF u] put_item_def Let_def)
      qed
    qed
  qed
qed (simp add: enqueue_def assms)

lemma held_tl: "held c xs \<le> n \<Longrightarrow> held c (tl xs) \<le> n"
  by (cases xs) (auto simp: held_def split: if_splits)

lemma tallies_tl: "ct.tallies t f (x # xs) \<Longrightarrow> ct.tallies (ddec (f x) t) f xs"
  using ct.tallies_remove [of t f "x # xs" x] by simp

lemma take_item_ok:
  assumes "worker_ok w" shows "worker_ok (snd (take_item w))"
proof (cases "known_lane w")
  case (Cons it rest)
  with assms have "ct.tallies (ddec (it_client it) (pending_known w)) it_client rest" "it_lane it = Known"
    by (simp_all add: worker_ok_def tallies_tl)
  moreover have "held c rest \<le> KNOWN_LANE_PER_CLIENT" for c
    using assms held_tl [of c "known_lane w"] Cons by (simp add: worker_ok_def)
  ultimately show ?thesis using assms Cons by (simp add: take_item_def release_slot_def worker_ok_def)
next
  case Nil
  show ?thesis
  proof (cases "shared_lane w")
    case (Cons it rest)
    with assms have "ct.tallies (ddec (it_client it) (pending_by_client w)) it_client rest" "it_lane it = Shared"
      by (simp_all add: worker_ok_def tallies_tl)
    moreover have "held c rest \<le> QUEUE_PER_CLIENT_MAX" for c
      using assms held_tl [of c "shared_lane w"] Cons by (simp add: worker_ok_def)
    ultimately show ?thesis using assms Cons Nil by (simp add: take_item_def release_slot_def worker_ok_def)
  qed (simp add: take_item_def Nil assms)
qed

inductive worker_step :: "(str \<Rightarrow> bool) \<Rightarrow> worker \<Rightarrow> worker \<Rightarrow> bool" for skip where
  step_enqueue: "worker_step skip w (snd (enqueue skip known q c now w))"
| step_take: "worker_step skip w (snd (take_item w))"

lemma worker_step_ok: "worker_step skip w w' \<Longrightarrow> worker_ok w \<Longrightarrow> worker_ok w'"
  by (induction rule: worker_step.induct) (simp_all add: enqueue_ok take_item_ok)

lemma new_worker_ok: "worker_ok (new_worker en)"
  by (simp add: worker_ok_def new_worker_def ct.tallies_def dcount_def held_def)

lemma worker_run_ok: "(worker_step skip)\<^sup>*\<^sup>* (new_worker en) w \<Longrightarrow> worker_ok w"
  by (induction rule: rtranclp_induct) (auto simp: new_worker_ok worker_step_ok)

lemma enqueue_known_accepted:
  assumes "worker_ok w" and "w_enabled w" and "c \<in> known" and "held c (known_lane w) < KNOWN_LANE_PER_CLIENT"
    and "fst (should_lookup skip q now w) = Some reg"
  shows "fst (enqueue skip known q c now w) \<and>
    known_lane (snd (enqueue skip known q c now w)) =
      known_lane w @ [\<lparr>it_reg = reg, it_qname = q, it_client = c, it_lane = Known\<rparr>]"
proof -
  obtain d where "snd (should_lookup skip q now w) = w\<lparr>seen := d\<rparr>" using should_lookup_worker by blast
  with assms(5) have s: "should_lookup skip q now w = (Some reg, w\<lparr>seen := d\<rparr>)" by (simp add: prod_eq_iff)
  from assms show ?thesis by (simp add: enqueue_def s put_item_def Let_def worker_counts)
qed

text \<open>
  Forged sources cannot crowd out a real device's reputation checks. In every reachable state of
  the queue, however full the shared lane is, an inventory device with fewer than its own 50 slots
  taken gets its new domain queued, in the lane that is served before the shared one; and the lanes
  stay bounded, 5000 shared slots in all, 500 per source and 50 per device.
\<close>

theorem known_lane_reserved:
  assumes "(worker_step skip)\<^sup>*\<^sup>* (new_worker True) w" and "w_enabled w" and "c \<in> known"
    and "held c (known_lane w) < KNOWN_LANE_PER_CLIENT"
    and "fst (should_lookup skip q now w) = Some reg" and "enqueue skip known q c now w = (accepted, w')"
  shows "accepted \<and> fst (take_item w') = Some (hd (known_lane w')) \<and> it_lane (hd (known_lane w')) = Known \<and>
    length (shared_lane w') \<le> QUEUE_MAX \<and>
    (\<forall>c. held c (known_lane w') \<le> KNOWN_LANE_PER_CLIENT \<and> held c (shared_lane w') \<le> QUEUE_PER_CLIENT_MAX)"
proof -
  have ok: "worker_ok w" using assms(1) by (rule worker_run_ok)
  note acc = enqueue_known_accepted [OF ok assms(2-5)]
  have ok': "worker_ok w'" using enqueue_ok [OF ok, of skip known q c now] assms(6) by simp
  from acc assms(6) obtain it rest where k: "known_lane w' = it # rest" by (cases "known_lane w'") auto
  have "accepted" using acc assms(6) by simp
  with ok' k show ?thesis by (simp add: worker_ok_def take_item_def)
qed

theorem known_lane_reserved_witness:
  "fst (enqueue (\<lambda>n. False) {''10.0.0.2''} ''a.b.evil.xyz'' ''10.0.0.2'' 0 (new_worker True))"
proof -
  obtain a w' where e: "enqueue (\<lambda>n. False) {''10.0.0.2''} ''a.b.evil.xyz'' ''10.0.0.2'' 0 (new_worker True) = (a, w')"
    by force
  have l: "lookup_name ''a.b.evil.xyz'' = ''a.b.evil.xyz''" and r: "registrable_domain ''a.b.evil.xyz'' = ''evil.xyz''"
    and d: "DOMAIN_RE ''a.b.evil.xyz''" "DOMAIN_RE ''evil.xyz''" "\<not> is_ip ''evil.xyz''"
    by code_simp+
  have "fst (should_lookup (\<lambda>n. False) ''a.b.evil.xyz'' 0 (new_worker True)) = Some ''evil.xyz''"
    by (simp add: should_lookup_def l r d WELL_KNOWN_def new_worker_def Let_def)
  from known_lane_reserved [OF _ _ _ _ this e] e show ?thesis
    by (simp add: new_worker_def held_def KNOWN_LANE_PER_CLIENT_def)
qed


section \<open>The quota holds across restarts\<close>

text \<open>
  The life of the daily quota: requests on any date and clock, and restarts of the process, which load
  the persisted settings again. The ghost list holds the dates of the granted requests.
\<close>

inductive budget_run_to :: "budget \<Rightarrow> budget \<Rightarrow> str list \<Rightarrow> bool" for b0 where
  br_start: "budget_run_to b0 b0 []"
| br_acquire: "budget_run_to b0 (snd (try_acquire today now b)) (if fst (try_acquire today now b) then today # ds else ds)"
  if "budget_run_to b0 b ds"
| br_restart: "budget_run_to b0 (new_budget (b_settings b) (daily_limit b) (per_minute b) today now) ds"
  if "budget_run_to b0 b ds"

definition budget_ok :: "int \<Rightarrow> budget \<Rightarrow> str list \<Rightarrow> bool" where
  "budget_ok n b ds \<longleftrightarrow> daily_limit b = n \<and> 0 \<le> n \<and> b_used b = load_used (b_settings b) (b_date b) \<and>
     (\<forall>d. int (count_list ds d) = load_used (b_settings b) d) \<and> (\<forall>d. load_used (b_settings b) d \<le> n)"

lemma load_used_dset: "load_used (dset d n s) d' = (if d' = d then n else load_used s d')"
  by (simp add: load_used_def)

lemma budget_ok_acquire:
  assumes "budget_ok n b ds"
  shows "budget_ok n (snd (try_acquire today now b)) (if fst (try_acquire today now b) then today # ds else ds)"
proof -
  have "budget_ok n (refill now (roll_day today b)) ds" "b_date (refill now (roll_day today b)) = today"
    using assms by (auto simp: budget_ok_def refill_def roll_day_def)
  then show ?thesis
    unfolding try_acquire_def Let_def by (auto simp: budget_ok_def load_used_dset)
qed

lemma budget_run_ok:
  assumes "budget_run_to (new_budget [] n per_min today0 now0) b ds" shows "budget_ok (max 0 n) b ds"
  using assms
proof (induction rule: budget_run_to.induct)
  case br_start
  show ?case by (simp add: budget_ok_def new_budget_def load_used_def)
next
  case (br_acquire b ds today now)
  then show ?case by (intro budget_ok_acquire)
next
  case (br_restart b ds today now)
  then show ?case by (auto simp: budget_ok_def new_budget_def)
qed



section \<open>A verdict survives the policy's reloads\<close>

lemma store_row_in: "r \<in> set (store_row r tab)"
  by (induction r tab rule: store_row.induct) auto

lemma lookup_malicious_votes:
  assumes "re_verdict (fresh_result m d vt uh now) = ''malicious''"
  shows "m \<le> re_malicious (fresh_result m d vt uh now)"
  using assms by (auto simp: fresh_result_def combine_verdict_def Let_def case_prod_unfold split: if_splits)

lemma fresh_lookup:
  assumes "lookup_domain_detail cfg acquire vt_http uh_http utcnow True force domain q tab = (r, q', tab')"
    and "\<not> re_cached r"
  obtains vt uh where "r = fresh_result (cfg_min_votes cfg) (lookup_name domain) vt uh utcnow"
    and "tab' = store_result r tab"
  using assms by (auto simp: lookup_domain_detail_def Let_def cached_result_def case_prod_unfold
      split: option.splits if_splits)

lemma fresh_row_reloads:
  assumes l: "lookup_domain_detail cfg acquire vt_http uh_http utcnow True force domain q tab = (r, q', tab')"
    and fresh: "\<not> re_cached r" and bad: "re_verdict r = ''malicious''"
    and votes: "min_malicious_votes p = cfg_min_votes cfg"
    and env: "env_conn env" "env_reputation env = Some (map reputation_row.truncate tab')"
    and age: "env_utcnow env \<le> of_int (re_checked_at r) + reputation_ttl_hours p * 3600"
  shows "normalize_name (lookup_name domain) \<in> malicious (reload_reputation env p)"
proof -
  from l fresh obtain vt uh where r: "r = fresh_result (cfg_min_votes cfg) (lookup_name domain) vt uh utcnow"
    and t: "tab' = store_result r tab"
    by (rule fresh_lookup)
  have d: "re_domain r = lookup_name domain" by (simp add: r fresh_result_def Let_def case_prod_unfold)
  let ?row = "reputation_row.truncate (row_of_result r)"
  have "?row \<in> set (map reputation_row.truncate tab')"
    unfolding t store_result_def set_map by (rule imageI [OF store_row_in])
  moreover have "rr_verdict ?row = ''malicious''" "min_malicious_votes p \<le> rr_malicious ?row"
    "rr_domain ?row = lookup_name domain" "rr_checked_at ?row = re_checked_at r"
    using bad lookup_malicious_votes [of "cfg_min_votes cfg" "lookup_name domain" vt uh utcnow] d votes
    by (simp_all add: row_of_result_def reputation_row.truncate_def flip: r)
  moreover have "\<lfloor>env_utcnow env - reputation_ttl_hours p * 3600\<rfloor> \<le> re_checked_at r"
    using age by (simp add: floor_le_iff)
  ultimately show ?thesis
    by (auto simp: reload_reputation_def env Let_def intro!: image_eqI [of _ _ ?row])
qed

text \<open>
  C22. A malicious verdict sticks. Once a fresh lookup of a domain returns \<open>malicious\<close> and is stored,
  every reload of the policy from that table within the verdict's lifetime blocks every name at or
  under the domain, unless the owner allowed it or it is never to be blocked: the vote threshold the
  policy applies to stored rows cannot undo the verdict the lookup gave.
\<close>

theorem malicious_verdict_sticks:
  assumes "lookup_domain_detail cfg acquire vt_http uh_http utcnow True force domain q tab = (r, q', tab')"
    and "\<not> re_cached r" and "re_verdict r = ''malicious''" and "min_malicious_votes p = cfg_min_votes cfg"
    and "env_conn env" and "env_reputation env = Some (map reputation_row.truncate tab')"
    and "env_utcnow env \<le> of_int (re_checked_at r) + reputation_ttl_hours p * 3600"
    and "normalize_name name \<noteq> []" and "within_domain (normalize_name name) (normalize_name (lookup_name domain))"
    and "\<not> has_override p (normalize_name name) ''allow''" and "\<not> exempt p (normalize_name name)"
  shows "blocked_decision (decide (reload_reputation env p) name)"
proof -
  have m: "normalize_name (lookup_name domain) \<in> malicious (reload_reputation env p)"
    using assms(1-7) by (rule fresh_row_reloads)
  let ?p = "reload_reputation env p"
  have "listed ?p (normalize_name name)" using m assms(9) by (auto simp: listed_def)
  moreover have "\<not> exempt ?p (normalize_name name)" "\<not> has_override ?p (normalize_name name) ''allow''"
    using assms(10,11) by (simp_all add: exempt_def has_override_def)
  ultimately show ?thesis using assms(8) by (simp add: decide_blocked)
qed

definition example_result :: rep_result where
  "example_result = \<lparr>re_domain = ''evil.xyz'', re_verdict = ''malicious'', re_malicious = 2, re_suspicious = 0,
     re_source = ''urlhaus'', re_cached = False, re_checked_at = 1000\<rparr>"

lemma example_lookup:
  "lookup_domain_detail \<lparr>cfg_ttl_hours = 72, cfg_min_votes = 2, cfg_api_key = False\<rparr> (Pair True) NoResponse
     (Response 200 (Some (UhBody ''ok'' [Some ''online'']))) 1000 True False ''evil.xyz'' () [] =
   (example_result, (), [row_of_result example_result])"
proof -
  have e: "lookup_name ''evil.xyz'' = ''evil.xyz''" "DOMAIN_RE ''evil.xyz''" "lower ''online'' = ''online''"
    by code_simp+
  show ?thesis
    by (simp add: lookup_domain_detail_def e cached_result_def urlhaus_lookup_def fresh_result_def
        combine_verdict_def store_result_def example_result_def Let_def)
qed

theorem malicious_verdict_sticks_witness:
  "blocked_decision (decide (reload_reputation (empty_env\<lparr>env_conn := True,
     env_reputation := Some [reputation_row.truncate (row_of_result example_result)], env_utcnow := 1000\<rparr>)
     (new_policy [] [] 2 72 None)) ''cdn.evil.xyz'')"
proof -
  have n: "normalize_name ''cdn.evil.xyz'' = ''cdn.evil.xyz''" "normalize_name ''evil.xyz'' = ''evil.xyz''"
    "lookup_name ''evil.xyz'' = ''evil.xyz''"
    by code_simp+
  have nb: "never_block (new_policy [] [] 2 72 None) = NEVER_BLOCK_SUFFIXES" "overrides (new_policy [] [] 2 72 None) = []"
    "min_malicious_votes (new_policy [] [] 2 72 None) = 2" "reputation_ttl_hours (new_policy [] [] 2 72 None) = 72"
    by (simp_all add: new_policy_def Let_def)
  have "list_all (\<lambda>s. s \<notin> NEVER_BLOCK_SUFFIXES) (iter_suffixes ''cdn.evil.xyz'')" by code_simp
  then have ex: "\<not> exempt (new_policy [] [] 2 72 None) ''cdn.evil.xyz''"
    unfolding exempt_def nb set_iter_suffixes [symmetric] list_all_iff by blast
  show ?thesis
    by (rule malicious_verdict_sticks [OF example_lookup])
      (simp_all add: example_result_def n nb ex empty_env_def has_override_def within_domain_def suffix_def)
qed

end
