(* ===== verification/Dns_Server.thy ===== *)
theory Dns_Server
  imports Dns_Policy Dns_Limits Dns_Wire Dns_Querylog Dns_Reputation
begin

text \<open>
  The resolver itself, \<open>DnsServer\<close> of \<open>homesoc/dnsfilter/server.py\<close>: the pipeline a query runs through,
  split into its local part and its upstream part as the threads run them, the UDP listener's queue, the
  reputation callback and the housekeeping tick, over the models of the policy, the cache, the guard, the
  limiters, the upstreams, the query log and the reputation worker. \<open>dnslib\<close> is an argument; so are the
  network and the clock readings of a step. The machine at the end interleaves the steps of all threads.
\<close>

section \<open>Messages\<close>

text \<open>A parsed query, and a message with the header fields that \<open>_finalize\<close> sets.\<close>

record request = message +
  rq_qr :: bool
  rq_opcode :: nat
  rq_rd :: bool

record response = message +
  rp_qr :: bool
  rp_ra :: bool
  rp_aa :: bool
  rp_rd :: bool

text \<open>
  The third-party library: parsing a query and packing a response (\<open>None\<close>: it raised), the empty reply
  \<open>request.reply(ra=1, aa=0)\<close>, the cache's packing and parsing, and the names of record types.
\<close>

record dnslib =
  dl_parse :: "byte list \<Rightarrow> request option"
  dl_pack :: "response \<Rightarrow> byte list option"
  dl_reply :: "request \<Rightarrow> response"
  dl_store :: "reply \<Rightarrow> byte list option"
  dl_load :: "byte list \<Rightarrow> reply option"
  dl_qtype :: "nat \<Rightarrow> str option"

definition qtype_name :: "dnslib \<Rightarrow> nat \<Rightarrow> str" where
  "qtype_name L t = (case dl_qtype L t of Some n \<Rightarrow> n | None \<Rightarrow> ''TYPE'' @ dec_digits t)"

definition qname_text :: "question \<Rightarrow> str" where
  "qname_text q = (let n = rstrip_by is_dot (q_name q) in if n = [] then ''.'' else n)"

definition BLOCK_TTL :: int where "BLOCK_TTL = 60"
definition EDNS_UDP_SIZE :: nat where "EDNS_UDP_SIZE = 1232"
definition MIN_UDP_SIZE :: nat where "MIN_UDP_SIZE = 512"
definition MAX_UDP_SIZE :: nat where "MAX_UDP_SIZE = EDNS_UDP_SIZE"
definition UDP_QUEUE_MAX :: nat where "UDP_QUEUE_MAX = 1024"
definition HEALTH_INTERVAL :: real where "HEALTH_INTERVAL = 60"
definition FLOOD_FINDING_SECONDS :: real where "FLOOD_FINDING_SECONDS = 24 * 3600"
definition UPSTREAM_FAIL_SECONDS :: real where "UPSTREAM_FAIL_SECONDS = 60"
definition CLIENTS_CHECK_MIN_UPTIME :: real where "CLIENTS_CHECK_MIN_UPTIME = 3600"

definition edns_rr :: rr where
  "edns_rr = \<lparr>rname = ''.'', rtype = OPT, rclass = EDNS_UDP_SIZE, ttl = 0, rdata = []\<rparr>"

definition upstream_request :: "nat \<Rightarrow> question \<Rightarrow> message" where
  "upstream_request ident q =
     \<lparr>m_id = ident, m_questions = [q],
      m_body = \<lparr>rcode = NOERROR, tc = False, rrs = [], auth = [], ar = [edns_rr]\<rparr>\<rparr>"

definition client_opt :: "request \<Rightarrow> rr option" where
  "client_opt rq = List.find (\<lambda>r. rtype r = OPT) (ar (m_body rq))"

definition with_rcode :: "dnslib \<Rightarrow> nat \<Rightarrow> request \<Rightarrow> reply" where
  "with_rcode L rc rq = (m_body (dl_reply L rq))\<lparr>rcode := rc\<rparr>"

definition servfail :: "dnslib \<Rightarrow> request \<Rightarrow> reply" where
  "servfail L rq = with_rcode L 2 rq"

definition truncated_reply :: "dnslib \<Rightarrow> request \<Rightarrow> reply" where
  "truncated_reply L rq = (m_body (dl_reply L rq))\<lparr>tc := True\<rparr>"

definition rcode_reply :: "dnslib \<Rightarrow> request \<Rightarrow> nat \<Rightarrow> byte list option" where
  "rcode_reply L rq rc = (let r = dl_reply L rq in dl_pack L (r\<lparr>m_body := (m_body r)\<lparr>rcode := rc\<rparr>\<rparr>))"

definition block_reply :: "dnslib \<Rightarrow> bool \<Rightarrow> request \<Rightarrow> str \<Rightarrow> reply" where
  "block_reply L nxdomain rq qtype =
     (let r = m_body (dl_reply L rq); name = q_name (hd (m_questions rq))
      in if nxdomain then r\<lparr>rcode := NXDOMAIN\<rparr>
         else if qtype = ''A''
         then r\<lparr>rrs := rrs r @ [\<lparr>rname = name, rtype = 1, rclass = 1, ttl = BLOCK_TTL, rdata = ''0.0.0.0''\<rparr>]\<rparr>
         else if qtype = ''AAAA''
         then r\<lparr>rrs := rrs r @ [\<lparr>rname = name, rtype = 28, rclass = 1, ttl = BLOCK_TTL, rdata = ''::''\<rparr>]\<rparr>
         else r)"

section \<open>State\<close>

record work =
  wk_request :: request
  wk_client :: str
  wk_tcp :: bool
  wk_qname :: str
  wk_qtype :: str
  wk_zone :: str
  wk_reason :: "str option"

record outcome =
  oc_action :: str
  oc_reason :: "str option"
  oc_reply :: "reply option"

record server =
  sv_policy :: policy
  sv_cache :: "byte list dns_cache"
  sv_upstream :: upstream
  sv_known :: known_clients
  sv_log :: query_log
  sv_worker :: "worker option"
  sv_budget :: budget
  sv_rep :: "rep_row list"
  sv_udp_limit :: rate_limiter
  sv_tcp_limit :: rate_limiter
  sv_global_limit :: rate_limiter
  sv_guard :: upstream_guard
  sv_nxdomain :: bool
  sv_slipped :: nat
  sv_foreign :: nat
  sv_queries :: nat
  sv_blocked :: nat
  sv_queue :: "(byte list \<times> str) list"
  sv_shed :: nat
  sv_overflow_seen :: nat
  sv_overflow_at :: "real option"
  sv_not_logged :: nat
  sv_last_health :: real

definition new_server ::
  "policy \<Rightarrow> upstream \<Rightarrow> int \<Rightarrow> known_clients \<Rightarrow> query_log \<Rightarrow> bool \<Rightarrow> budget \<Rightarrow> rep_row list \<Rightarrow> str \<Rightarrow> server" where
  "new_server p u cache_max k l reputation b rep block_mode =
     \<lparr>sv_policy = p, sv_cache = new_cache (if cache_max = 0 then 20000 else cache_max) DEFAULT_MIN_TTL DEFAULT_NEGATIVE_TTL DEFAULT_MAX_TTL,
      sv_upstream = u, sv_known = k, sv_log = l,
      sv_worker = (if reputation then Some (new_worker True) else None), sv_budget = b, sv_rep = rep,
      sv_udp_limit = new_limiter RATE_LIMIT_QPS RATE_LIMIT_MAX_KEYS,
      sv_tcp_limit = new_limiter RATE_LIMIT_QPS RATE_LIMIT_MAX_KEYS,
      sv_global_limit = new_limiter GLOBAL_RATE_LIMIT_QPS RATE_LIMIT_MAX_KEYS,
      sv_guard = new_guard, sv_nxdomain = (lower block_mode = ''nxdomain''), sv_slipped = 0, sv_foreign = 0,
      sv_queries = 0, sv_blocked = 0, sv_queue = [], sv_shed = 0, sv_overflow_seen = 0,
      sv_overflow_at = None, sv_not_logged = 0, sv_last_health = 0\<rparr>"

text \<open>The clock readings of a step: monotonic and wall time.\<close>

record clock =
  ck_now :: real
  ck_wall :: real

section \<open>Answers\<close>

text \<open>What a step returns: bytes to send (\<open>None\<close>: nothing), an escaped exception, or upstream work.\<close>

datatype step = Done "byte list option" | Raised | Work work

definition sendable :: "byte list option \<Rightarrow> step" where
  "sendable b = (case b of None \<Rightarrow> Raised | Some bs \<Rightarrow> Done (Some bs))"

definition finalized :: "request \<Rightarrow> reply \<Rightarrow> response" where
  "finalized rq body =
     \<lparr>m_id = m_id rq, m_questions = m_questions rq,
      m_body = body\<lparr>ar := filter (\<lambda>r. rtype r \<noteq> OPT) (ar body) @ (if client_opt rq = None then [] else [edns_rr])\<rparr>,
      rp_qr = True, rp_ra = True, rp_aa = False, rp_rd = rq_rd rq\<rparr>"

definition cut_short :: "response \<Rightarrow> response" where
  "cut_short r =
     r\<lparr>m_body := (m_body r)\<lparr>tc := True, rrs := [], auth := [], ar := filter (\<lambda>x. rtype x = OPT) (ar (m_body r))\<rparr>\<rparr>"

definition max_udp :: "request \<Rightarrow> nat" where
  "max_udp rq = (case client_opt rq of None \<Rightarrow> MIN_UDP_SIZE | Some r \<Rightarrow> max MIN_UDP_SIZE (min MAX_UDP_SIZE (rclass r)))"

definition finalize :: "dnslib \<Rightarrow> request \<Rightarrow> reply \<Rightarrow> bool \<Rightarrow> clock \<Rightarrow> server \<Rightarrow> step \<times> server" where
  "finalize L rq body tcp ck sv =
     (let r = finalized rq body
      in case dl_pack L r of
           None \<Rightarrow> (Raised, sv)
         | Some packed \<Rightarrow>
             if tcp then (Done (Some packed), sv)
             else if max_udp rq < length packed then (sendable (dl_pack L (cut_short r)), sv)
             else if length packed \<le> MIN_UDP_SIZE then (Done (Some packed), sv)
             else (let (ok, l) = allow GLOBAL_CLIENT_KEY (ck_now ck) (sv_global_limit sv);
                       sv = sv\<lparr>sv_global_limit := l\<rparr>
                   in (if ok then Done (Some packed) else sendable (dl_pack L (cut_short r)), sv)))"

definition log_query :: "dnslib \<Rightarrow> request \<Rightarrow> str \<Rightarrow> outcome \<Rightarrow> clock \<Rightarrow> server \<Rightarrow> server" where
  "log_query L rq client oc ck sv =
     (let q = hd (m_questions rq)
      in sv\<lparr>sv_log := record_query (kc_addresses (sv_known sv)) client (qname_text q) (qtype_name L (q_type q))
               (oc_action oc) (oc_reason oc) \<lfloor>ck_wall ck\<rfloor> (ck_now ck) (sv_log sv)\<rparr>)"

definition respond :: "dnslib \<Rightarrow> request \<Rightarrow> str \<Rightarrow> outcome \<Rightarrow> bool \<Rightarrow> clock \<Rightarrow> server \<Rightarrow> step \<times> server" where
  "respond L rq client oc tcp ck sv =
     (let sv = sv\<lparr>sv_queries := sv_queries sv + 1,
                  sv_blocked := (if oc_action oc = ''block'' then sv_blocked sv + 1 else sv_blocked sv)\<rparr>;
          sv = (if oc_action oc \<noteq> ''refused'' then log_query L rq client oc ck sv else sv)
      in case oc_reply oc of
           None \<Rightarrow> (Done None, sv)
         | Some body \<Rightarrow> finalize L rq body tcp ck sv)"

section \<open>The local part\<close>

datatype local_step = Outcome outcome | Upstream work

definition process_local ::
  "dnslib \<Rightarrow> request \<Rightarrow> str \<Rightarrow> bool \<Rightarrow> clock \<Rightarrow> server \<Rightarrow> local_step \<times> server" where
  "process_local L rq client tcp ck sv =
     (let q = hd (m_questions rq); qname = qname_text q; qtype = qtype_name L (q_type q)
      in if q_class q \<noteq> 1 \<or> qtype = ''ANY''
         then (Outcome \<lparr>oc_action = ''refused'', oc_reason = Some ''class/any'', oc_reply = Some (with_rcode L 5 rq)\<rparr>, sv)
         else
           (let d = decide (sv_policy sv) qname
            in if blocked_decision d
               then (Outcome \<lparr>oc_action = ''block'', oc_reason = Some (reason d),
                              oc_reply = Some (block_reply L (sv_nxdomain sv) rq qtype)\<rparr>, sv)
               else
                 (let (hit, c) = cache_get (dl_load L) (sv_cache sv) qname qtype (ck_now ck);
                      sv = sv\<lparr>sv_cache := c\<rparr>
                  in case hit of
                       Some r \<Rightarrow> (Outcome \<lparr>oc_action = ''cache'', oc_reason = None, oc_reply = Some r\<rparr>, sv)
                     | None \<Rightarrow>
                         (let zone = zone_of qname;
                              (refusal, g) = guard_check qname qtype zone (ck_now ck) (sv_guard sv)
                          in case refusal of
                               Some why \<Rightarrow>
                                 (Outcome \<lparr>oc_action = ''error'', oc_reason = Some why,
                                           oc_reply = Some (servfail L rq)\<rparr>, sv\<lparr>sv_guard := g\<rparr>)
                             | None \<Rightarrow>
                                 (let (ok, g) = guard_acquire client zone tcp g; sv = sv\<lparr>sv_guard := g\<rparr>
                                  in if \<not> ok
                                     then (Outcome \<lparr>oc_action = ''error'', oc_reason = Some ''upstream:busy'',
                                            oc_reply = Some (if tcp then servfail L rq else truncated_reply L rq)\<rparr>, sv)
                                     else (Upstream \<lparr>wk_request = rq, wk_client = client, wk_tcp = tcp,
                                             wk_qname = qname, wk_qtype = qtype, wk_zone = zone,
                                             wk_reason = (if reason d = ''default'' then None else Some (reason d))\<rparr>, sv))))))"

definition begin_query ::
  "dnslib \<Rightarrow> byte list \<Rightarrow> str \<Rightarrow> bool \<Rightarrow> bool \<Rightarrow> clock \<Rightarrow> server \<Rightarrow> step \<times> server" where
  "begin_query L data client tcp queued ck sv =
     (if \<not> queued \<and> \<not> client_is_local client then (Done None, sv\<lparr>sv_foreign := sv_foreign sv + 1\<rparr>)
      else
        (let (ok, sv) =
           (if queued then (True, sv)
            else if tcp
            then (let (ok, l) = allow client (ck_now ck) (sv_tcp_limit sv) in (ok, sv\<lparr>sv_tcp_limit := l\<rparr>))
            else (let (ok, l) = allow client (ck_now ck) (sv_udp_limit sv) in (ok, sv\<lparr>sv_udp_limit := l\<rparr>)))
         in if \<not> ok
            then if tcp then (Done None, sv)
                 else (Done (truncated_bytes data), sv\<lparr>sv_slipped := sv_slipped sv + 1\<rparr>)
            else case dl_parse L data of
                None \<Rightarrow> (Done (formerr_bytes data), sv)
              | Some rq \<Rightarrow>
                  if rq_qr rq then (Done None, sv)
                  else if m_questions rq = [] then (sendable (rcode_reply L rq 1), sv)
                  else if rq_opcode rq \<noteq> 0 then (sendable (rcode_reply L rq 4), sv)
                  else (case process_local L rq client tcp ck sv of
                          (Upstream w, sv) \<Rightarrow> (Work w, sv)
                        | (Outcome oc, sv) \<Rightarrow> respond L rq client oc tcp ck sv)))"

section \<open>The upstream part\<close>

text \<open>
  What the call of \<open>upstream.resolve\<close> meets: the network, the identifier of the request, whether another
  thread is asking the canary, and whether something else than an \<open>UpstreamError\<close> was raised.
\<close>

record upstream_world =
  uw_net :: network
  uw_id :: nat
  uw_asking :: bool
  uw_crash :: bool

definition DEFAULT_TIMEOUT :: real where "DEFAULT_TIMEOUT = 2"

definition process_upstream :: "dnslib \<Rightarrow> upstream_world \<Rightarrow> work \<Rightarrow> clock \<Rightarrow> server \<Rightarrow> outcome \<times> server" where
  "process_upstream L uw w ck sv =
     (let rq = wk_request w;
          (res, u) = resolve (uw_net uw) DEFAULT_TIMEOUT False
             (upstream_request (uw_id uw) (hd (m_questions rq))) (ck_now ck) (sv_upstream sv);
          sv = sv\<lparr>sv_guard := guard_release (wk_client w) (wk_zone w) (wk_tcp w) (sv_guard sv)\<rparr>
      in if uw_crash uw
         then (\<lparr>oc_action = ''error'', oc_reason = Some ''internal'', oc_reply = Some (servfail L rq)\<rparr>, sv)
         else case res of
           Inl err \<Rightarrow>
             (let fail = \<lparr>oc_action = ''error'', oc_reason = Some ''upstream'', oc_reply = Some (servfail L rq)\<rparr>;
                  sv = sv\<lparr>sv_upstream := u\<rparr>
              in if err = CircuitOpen then (fail, sv)
                 else
                   (let (down, u) = note_query_failure (uw_net uw) DEFAULT_TIMEOUT (uw_id uw) (uw_asking uw) (ck_now ck) u;
                        sv = sv\<lparr>sv_upstream := u\<rparr>
                    in (fail, if down then sv
                          else sv\<lparr>sv_guard := note_failure (wk_qname w) (wk_qtype w) (wk_zone w) (ck_now ck) (sv_guard sv)\<rparr>)))
         | Inr r \<Rightarrow>
             (let c = snd (cache_put (dl_store L) (sv_cache sv) (wk_qname w) (wk_qtype w) (m_body r) (ck_now ck));
                  wkr = (case sv_worker sv of
                      None \<Rightarrow> None
                    | Some wk \<Rightarrow> Some (if rcode (m_body r) = NOERROR
                        then snd (enqueue (is_never_block (sv_policy sv)) (kc_addresses (sv_known sv)) (wk_qname w)
                                   (wk_client w) (ck_wall ck) wk)
                        else wk))
              in (\<lparr>oc_action = ''allow'', oc_reason = wk_reason w, oc_reply = Some (m_body r)\<rparr>,
                  sv\<lparr>sv_upstream := u, sv_cache := c, sv_worker := wkr\<rparr>)))"

definition finish_query :: "dnslib \<Rightarrow> upstream_world \<Rightarrow> work \<Rightarrow> clock \<Rightarrow> server \<Rightarrow> step \<times> server" where
  "finish_query L uw w ck sv =
     (let (oc, sv) = process_upstream L uw w ck sv in respond L (wk_request w) (wk_client w) oc (wk_tcp w) ck sv)"

definition abandon :: "work \<Rightarrow> server \<Rightarrow> server" where
  "abandon w sv = sv\<lparr>sv_guard := guard_release (wk_client w) (wk_zone w) (wk_tcp w) (sv_guard sv)\<rparr>"

definition handle_query ::
  "dnslib \<Rightarrow> upstream_world \<Rightarrow> byte list \<Rightarrow> str \<Rightarrow> bool \<Rightarrow> clock \<Rightarrow> clock \<Rightarrow> server \<Rightarrow> step \<times> server" where
  "handle_query L uw data client tcp ck ck' sv =
     (case begin_query L data client tcp False ck sv of
        (Work w, sv) \<Rightarrow> finish_query L uw w ck' sv
      | (st, sv) \<Rightarrow> (st, sv))"

section \<open>The UDP listener\<close>

text \<open>A datagram: its source checked, its rate charged, and queued unless the queue is full.\<close>

definition udp_receive :: "byte list \<Rightarrow> str \<Rightarrow> clock \<Rightarrow> server \<Rightarrow> byte list option \<times> server" where
  "udp_receive data client ck sv =
     (if \<not> client_is_local client then (None, sv\<lparr>sv_foreign := sv_foreign sv + 1\<rparr>)
      else
        (let (ok, l) = allow client (ck_now ck) (sv_udp_limit sv); sv = sv\<lparr>sv_udp_limit := l\<rparr>
         in if \<not> ok then (truncated_bytes data, sv\<lparr>sv_slipped := sv_slipped sv + 1\<rparr>)
            else if UDP_QUEUE_MAX \<le> length (sv_queue sv)
            then (truncated_bytes data, sv\<lparr>sv_shed := sv_shed sv + 1\<rparr>)
            else (None, sv\<lparr>sv_queue := sv_queue sv @ [(data, client)]\<rparr>)))"

text \<open>A worker takes the oldest datagram; its upstream work, if any, goes to the pool.\<close>

definition udp_worker :: "dnslib \<Rightarrow> clock \<Rightarrow> server \<Rightarrow> step \<times> server" where
  "udp_worker L ck sv =
     (case sv_queue sv of
        [] \<Rightarrow> (Done None, sv)
      | (data, client) # rest \<Rightarrow> begin_query L data client False True ck (sv\<lparr>sv_queue := rest\<rparr>))"

section \<open>Reputation and housekeeping\<close>

definition server_malicious :: "str \<Rightarrow> server \<Rightarrow> server" where
  "server_malicious domain sv =
     sv\<lparr>sv_policy := mark_malicious (sv_policy sv) domain,
        sv_cache := snd (cache_invalidate (sv_cache sv) domain None)\<rparr>"

text \<open>One turn of the reputation worker, with the callback a malicious verdict triggers.\<close>

definition reputation_turn ::
  "rep_cfg \<Rightarrow> (int \<times> int) http \<Rightarrow> uh_body http \<Rightarrow> str \<Rightarrow> bool \<Rightarrow> clock \<Rightarrow> server \<Rightarrow> server" where
  "reputation_turn cfg vt_http uh_http today stored ck sv =
     (case sv_worker sv of
        None \<Rightarrow> sv
      | Some wk \<Rightarrow>
          (case take_item wk of
             (None, wk) \<Rightarrow> sv\<lparr>sv_worker := Some wk\<rparr>
           | (Some it, wk) \<Rightarrow>
               (let (r, out, wk, b, tab) = process_item cfg (kc_addresses (sv_known sv)) vt_http uh_http (ck_wall ck)
                      today (ck_now ck) stored (it_reg it) (it_client it) wk (sv_budget sv) (sv_rep sv);
                    sv = sv\<lparr>sv_worker := Some wk, sv_budget := b, sv_rep := tab\<rparr>
                in if re_verdict r = ''malicious'' then server_malicious (it_reg it) sv else sv)))"

text \<open>The findings the health check reports, with the evidence that varies.\<close>

datatype health_draft = LogFlood nat | UpstreamsDown int | ListsStale "str list" | FewClients nat | NoFirewallRule

definition flood_draft :: "real \<Rightarrow> server \<Rightarrow> health_draft option \<times> server" where
  "flood_draft now sv =
     (let total = overflowed (sv_log sv);
          old = (case sv_overflow_at sv of None \<Rightarrow> True | Some t \<Rightarrow> FLOOD_FINDING_SECONDS \<le> now - t);
          sv = (if sv_overflow_seen sv < total
                then sv\<lparr>sv_not_logged := (if old then 0 else sv_not_logged sv) + (total - sv_overflow_seen sv),
                        sv_overflow_at := Some now\<rparr>
                else sv)\<lparr>sv_overflow_seen := total\<rparr>
      in case sv_overflow_at sv of
           None \<Rightarrow> (None, sv)
         | Some t \<Rightarrow> (if FLOOD_FINDING_SECONDS \<le> now - t then None else Some (LogFlood (sv_not_logged sv)), sv))"

text \<open>What else the check reads: uptime (\<open>None\<close>: not running), the log's clients, the firewall probe.\<close>

record health_world =
  hw_uptime :: "real option"
  hw_clients :: "nat option"
  hw_firewall :: "bool option"
  hw_listen :: str

definition health_findings :: "health_world \<Rightarrow> clock \<Rightarrow> server \<Rightarrow> health_draft list \<times> server" where
  "health_findings hw ck sv =
     (let (flood, sv) = flood_draft (ck_now ck) sv;
          failing = failing_for (ck_now ck) (sv_upstream sv);
          stale = stale_lists STALE_LIST_DAYS (ck_wall ck) (sv_policy sv)
      in ((case flood of None \<Rightarrow> [] | Some d \<Rightarrow> [d]) @
          (if UPSTREAM_FAIL_SECONDS \<le> failing then [UpstreamsDown (float_int failing)] else []) @
          (if stale \<noteq> [] \<and> list_names (sv_policy sv) \<noteq> [] then [ListsStale stale] else []) @
          (case (hw_uptime hw, hw_clients hw) of
             (Some t, Some n) \<Rightarrow> if CLIENTS_CHECK_MIN_UPTIME \<le> t \<and> n < 2 then [FewClients n] else []
           | _ \<Rightarrow> []) @
          (if hw_uptime hw \<noteq> None \<and> hw_firewall hw = Some False \<and> \<not> prefix ''127.'' (hw_listen hw)
           then [NoFirewallRule] else []), sv))"

text \<open>The tick; \<open>busy\<close> says that another thread holds the policy's reload lock.\<close>

definition housekeeping ::
  "policy_env \<Rightarrow> inventory \<Rightarrow> health_world \<Rightarrow> bool \<Rightarrow> bool \<Rightarrow> clock \<Rightarrow> server \<Rightarrow> health_draft list \<times> server" where
  "housekeeping env inven hw busy force ck sv =
     (let now = ck_now ck;
          sv = sv\<lparr>sv_known := snd (kc_maybe_refresh inven \<lfloor>ck_wall ck\<rfloor> now (sv_known sv))\<rparr>;
          (lists_changed, p) = maybe_reload env busy False now (sv_policy sv);
          (overrides_changed, p) = refresh_overrides_if_changed env p;
          sv = sv\<lparr>sv_policy := p,
                  sv_cache := (if lists_changed \<or> overrides_changed then cache_clear (sv_cache sv) else sv_cache sv),
                  sv_udp_limit := cleanup now (sv_udp_limit sv), sv_tcp_limit := cleanup now (sv_tcp_limit sv),
                  sv_global_limit := cleanup now (sv_global_limit sv)\<rparr>
      in if force \<or> HEALTH_INTERVAL \<le> now - sv_last_health sv
         then health_findings hw ck
                (sv\<lparr>sv_last_health := now, sv_cache := snd (purge_expired (sv_cache sv) now)\<rparr>)
         else ([], sv))"


section \<open>The machine\<close>

text \<open>
  All threads together: the state with the upstream work in flight. A TCP handler or a UDP worker runs
  the local part and may leave work; the pool, the handler or a shutdown ends it, in any order; the
  reputation worker, its callback and housekeeping run in between. \<open>E\<close> limits what a reload reads.
\<close>

definition add_work :: "step \<Rightarrow> work list \<Rightarrow> work list" where
  "add_work st ws = (case st of Work w \<Rightarrow> w # ws | _ \<Rightarrow> ws)"

inductive srv_step ::
  "dnslib \<Rightarrow> (policy_env \<Rightarrow> bool) \<Rightarrow> server \<times> work list \<Rightarrow> server \<times> work list \<Rightarrow> bool"
  for L E where
  srv_receive: "srv_step L E (sv, ws) (snd (udp_receive data client ck sv), ws)"
| srv_worker: "srv_step L E (sv, ws) (snd (udp_worker L ck sv), add_work (fst (udp_worker L ck sv)) ws)"
| srv_begin: "srv_step L E (sv, ws)
    (snd (begin_query L data client tcp False ck sv), add_work (fst (begin_query L data client tcp False ck sv)) ws)"
| srv_finish: "srv_step L E (sv, xs @ w # ys) (snd (finish_query L uw w ck sv), xs @ ys)"
| srv_abandon: "srv_step L E (sv, xs @ w # ys) (abandon w sv, xs @ ys)"
| srv_reputation: "srv_step L E (sv, ws) (reputation_turn cfg vt_http uh_http today stored ck sv, ws)"
| srv_malicious: "srv_step L E (sv, ws) (server_malicious domain sv, ws)"
| srv_housekeeping: "srv_step L E (sv, ws) (snd (housekeeping env inven hw busy force ck sv), ws)"
  if "E env"

section \<open>What the parts leave alone\<close>

definition slot_of :: "work \<Rightarrow> slot" where
  "slot_of w = (wk_client w, wk_zone w, wk_tcp w)"

definition slots_ok :: "server \<Rightarrow> work list \<Rightarrow> bool" where
  "slots_ok sv ws \<longleftrightarrow> holds_slots (sv_guard sv) (map slot_of ws) \<and> within_caps (map slot_of ws)"

definition rest_ok :: "server \<Rightarrow> bool" where
  "rest_ok sv \<longleftrightarrow> guard_ok (sv_guard sv) \<and> cache_inv (sv_cache sv) \<and> limiter_ok (sv_udp_limit sv) \<and>
     limiter_ok (sv_tcp_limit sv) \<and> limiter_ok (sv_global_limit sv) \<and> length (sv_queue sv) \<le> UDP_QUEUE_MAX \<and>
     (\<forall>wk. sv_worker sv = Some wk \<longrightarrow> worker_ok wk)"

lemma finalize_state:
  "\<exists>l. snd (finalize L rq body tcp ck sv) = sv\<lparr>sv_global_limit := l\<rparr> \<and>
     (limiter_ok (sv_global_limit sv) \<longrightarrow> limiter_ok l)"
proof -
  have same: "\<exists>l. sv = sv\<lparr>sv_global_limit := l\<rparr> \<and> (limiter_ok (sv_global_limit sv) \<longrightarrow> limiter_ok l)"
    by (rule exI [of _ "sv_global_limit sv"]) simp
  show ?thesis
    using same allow_ok [of "sv_global_limit sv" GLOBAL_CLIENT_KEY "ck_now ck"]
    by (auto simp: finalize_def Let_def case_prod_unfold split: option.splits)
qed

lemma respond_state:
  "\<exists>q b lg l. snd (respond L rq client oc tcp ck sv) =
       sv\<lparr>sv_queries := q, sv_blocked := b, sv_log := lg, sv_global_limit := l\<rparr> \<and>
     (limiter_ok (sv_global_limit sv) \<longrightarrow> limiter_ok l)"
proof -
  define sv1 where "sv1 = sv\<lparr>sv_queries := sv_queries sv + 1,
      sv_blocked := (if oc_action oc = ''block'' then sv_blocked sv + 1 else sv_blocked sv)\<rparr>"
  define sv2 where "sv2 = (if oc_action oc \<noteq> ''refused'' then log_query L rq client oc ck sv1 else sv1)"
  have "sv2 = sv\<lparr>sv_queries := sv_queries sv2, sv_blocked := sv_blocked sv2, sv_log := sv_log sv2\<rparr>"
    by (simp add: sv2_def sv1_def log_query_def Let_def)
  then obtain q b lg where sv2: "sv2 = sv\<lparr>sv_queries := q, sv_blocked := b, sv_log := lg\<rparr>" by blast
  have g: "sv_global_limit sv2 = sv_global_limit sv" by (simp add: sv2)
  have r: "snd (respond L rq client oc tcp ck sv) =
      (case oc_reply oc of None \<Rightarrow> sv2 | Some body \<Rightarrow> snd (finalize L rq body tcp ck sv2))"
    by (simp add: respond_def sv1_def sv2_def Let_def split: option.split)
  show ?thesis
  proof (cases "oc_reply oc")
    case None
    then have "snd (respond L rq client oc tcp ck sv) =
        sv\<lparr>sv_queries := q, sv_blocked := b, sv_log := lg, sv_global_limit := sv_global_limit sv\<rparr>"
      using r sv2 by simp
    then show ?thesis by blast
  next
    case (Some body)
    obtain l where "snd (finalize L rq body tcp ck sv2) = sv2\<lparr>sv_global_limit := l\<rparr>"
      "limiter_ok (sv_global_limit sv) \<longrightarrow> limiter_ok l"
      using finalize_state [of L rq body tcp ck sv2] g by auto
    with r Some show ?thesis by (auto simp: sv2)
  qed
qed

lemma respond_keeps:
  "rest_ok sv \<Longrightarrow> rest_ok (snd (respond L rq client oc tcp ck sv))"
  "slots_ok (snd (respond L rq client oc tcp ck sv)) ws = slots_ok sv ws"
  "sv_policy (snd (respond L rq client oc tcp ck sv)) = sv_policy sv"
  using respond_state [of L rq client oc tcp ck sv] by (auto simp: rest_ok_def slots_ok_def)

text \<open>The local part changes the cache and the guard only, and leaves work exactly with a slot taken.\<close>

lemma process_local_keeps:
  assumes "process_local L rq client tcp ck sv = (st, sv')" and "rest_ok sv"
  shows "rest_ok sv' \<and> sv_policy sv' = sv_policy sv"
proof -
  have c: "cache_inv (snd (cache_get (dl_load L) (sv_cache sv) q t n))" for q t n
    using assms(2) by (intro cache_get_inv) (simp add: rest_ok_def)
  have g: "guard_ok (snd (guard_check q t z n (sv_guard sv)))" for q t z n
    using assms(2) by (intro check_ok) (simp add: rest_ok_def)
  from assms c g show ?thesis
    by (auto simp: process_local_def Let_def rest_ok_def case_prod_unfold split: if_splits option.splits)
qed

lemma process_local_slots:
  assumes "process_local L rq client tcp ck sv = (st, sv')" and "slots_ok sv ws"
  shows "slots_ok sv' (case st of Upstream w \<Rightarrow> w # ws | Outcome oc \<Rightarrow> ws)"
proof -
  define z where "z = zone_of (qname_text (hd (m_questions rq)))"
  define g where "g = snd (guard_check (qname_text (hd (m_questions rq))) (qtype_name L (q_type (hd (m_questions rq)))) z (ck_now ck) (sv_guard sv))"
  have h: "holds_slots g (map slot_of ws)" "within_caps (map slot_of ws)"
    using assms(2) by (simp_all add: g_def slots_ok_def)
  note a = acquire_slots [OF h, of client z tcp] and r = acquire_refused [of client z tcp g "map slot_of ws"]
  show ?thesis
    using assms h a r
    by (auto simp: process_local_def Let_def slots_ok_def case_prod_unfold slot_of_def g_def z_def
        split: if_splits option.splits)
qed

text \<open>What remains after the admission checks.\<close>

definition answer_parsed :: "dnslib \<Rightarrow> byte list \<Rightarrow> str \<Rightarrow> bool \<Rightarrow> clock \<Rightarrow> server \<Rightarrow> step \<times> server" where
  "answer_parsed L data client tcp ck sv =
     (case dl_parse L data of
        None \<Rightarrow> (Done (formerr_bytes data), sv)
      | Some rq \<Rightarrow>
          if rq_qr rq then (Done None, sv)
          else if m_questions rq = [] then (sendable (rcode_reply L rq 1), sv)
          else if rq_opcode rq \<noteq> 0 then (sendable (rcode_reply L rq 4), sv)
          else (case process_local L rq client tcp ck sv of
                  (Upstream w, sv) \<Rightarrow> (Work w, sv)
                | (Outcome oc, sv) \<Rightarrow> respond L rq client oc tcp ck sv))"

lemma add_work_sendable [simp]: "add_work (sendable b) ws = ws" "add_work (Done b) ws = ws" "add_work Raised ws = ws"
  by (auto simp: add_work_def sendable_def split: option.splits)

lemma finalize_no_work: "add_work (fst (finalize L rq body tcp ck sv)) ws = ws"
  by (auto simp: finalize_def Let_def case_prod_unfold split: option.splits)

lemma respond_no_work: "add_work (fst (respond L rq client oc tcp ck sv)) ws = ws"
  by (auto simp: respond_def Let_def finalize_no_work split: option.splits)

lemma answer_parsed_keeps:
  assumes "rest_ok sv"
  shows "rest_ok (snd (answer_parsed L data client tcp ck sv)) \<and>
    sv_policy (snd (answer_parsed L data client tcp ck sv)) = sv_policy sv \<and>
    (slots_ok sv ws \<longrightarrow> slots_ok (snd (answer_parsed L data client tcp ck sv))
       (add_work (fst (answer_parsed L data client tcp ck sv)) ws))"
proof (cases "dl_parse L data")
  case (Some rq)
  show ?thesis
  proof (cases "rq_qr rq \<or> m_questions rq = [] \<or> rq_opcode rq \<noteq> 0")
    case True
    with assms Some show ?thesis by (auto simp: answer_parsed_def)
  next
    case False
    obtain st sv1 where l: "process_local L rq client tcp ck sv = (st, sv1)" by force
    note k = process_local_keeps [OF l assms] and sl = process_local_slots [OF l]
    show ?thesis
    proof (cases st)
      case (Upstream w)
      with Some False l k sl [of ws] show ?thesis by (auto simp: answer_parsed_def add_work_def)
    next
      case (Outcome oc)
      have "answer_parsed L data client tcp ck sv = respond L rq client oc tcp ck sv1"
        using Some False l Outcome by (simp add: answer_parsed_def)
      with Outcome k sl [of ws] show ?thesis by (simp add: respond_keeps respond_no_work)
    qed
  qed
qed (simp add: answer_parsed_def assms)

lemma begin_query_keeps:
  assumes "rest_ok sv"
  shows "rest_ok (snd (begin_query L data client tcp queued ck sv)) \<and>
    sv_policy (snd (begin_query L data client tcp queued ck sv)) = sv_policy sv \<and>
    (slots_ok sv ws \<longrightarrow> slots_ok (snd (begin_query L data client tcp queued ck sv))
       (add_work (fst (begin_query L data client tcp queued ck sv)) ws))"
proof -
  define adm where "adm =
    (if queued then (True, sv)
     else if tcp
     then (let (ok, l) = allow client (ck_now ck) (sv_tcp_limit sv) in (ok, sv\<lparr>sv_tcp_limit := l\<rparr>))
     else (let (ok, l) = allow client (ck_now ck) (sv_udp_limit sv) in (ok, sv\<lparr>sv_udp_limit := l\<rparr>)))"
  obtain ok sv1 where adm': "adm = (ok, sv1)" by force
  have lim: "limiter_ok (sv_tcp_limit sv)" "limiter_ok (sv_udp_limit sv)" using assms by (simp_all add: rest_ok_def)
  have one: "rest_ok sv1 \<and> sv_policy sv1 = sv_policy sv \<and> slots_ok sv1 ws = slots_ok sv ws"
    using assms adm' allow_ok [OF lim(1), of client "ck_now ck"] allow_ok [OF lim(2), of client "ck_now ck"]
    by (auto simp: adm_def rest_ok_def slots_ok_def case_prod_unfold Let_def split: if_splits)
  have b: "begin_query L data client tcp queued ck sv =
      (if \<not> queued \<and> \<not> client_is_local client then (Done None, sv\<lparr>sv_foreign := sv_foreign sv + 1\<rparr>)
       else if \<not> ok
       then if tcp then (Done None, sv1) else (Done (truncated_bytes data), sv1\<lparr>sv_slipped := sv_slipped sv1 + 1\<rparr>)
       else answer_parsed L data client tcp ck sv1)"
    unfolding begin_query_def adm_def [symmetric] adm' answer_parsed_def by simp
  have frame: "rest_ok (t\<lparr>sv_foreign := n\<rparr>) = rest_ok t" "rest_ok (t\<lparr>sv_slipped := n\<rparr>) = rest_ok t"
    "slots_ok (t\<lparr>sv_foreign := n\<rparr>) ws = slots_ok t ws" "slots_ok (t\<lparr>sv_slipped := n\<rparr>) ws = slots_ok t ws" for t n
    by (simp_all add: rest_ok_def slots_ok_def)
  from one answer_parsed_keeps [of sv1 L data client tcp ck ws] assms show ?thesis
    unfolding b by (auto simp: frame)
qed

lemma holds_slots_front: "holds_slots g (xs @ s # ys) = holds_slots g (s # xs @ ys)"
  by (auto simp: holds_slots_def ct.tallies_def)

lemma within_caps_drop: "within_caps (xs @ s # ys) \<Longrightarrow> within_caps (xs @ ys)"
  unfolding within_caps_def by (auto split: if_splits dest: Suc_leD)

lemma release_work:
  assumes "slots_ok sv (xs @ w # ys)"
    and "sv_guard sv' = guard_release (wk_client w) (wk_zone w) (wk_tcp w) (sv_guard sv)"
  shows "slots_ok sv' (xs @ ys)"
proof -
  have "holds_slots (sv_guard sv) (slot_of w # map slot_of (xs @ ys))"
    using assms(1) by (simp add: slots_ok_def holds_slots_front [of _ "map slot_of xs"])
  then have "holds_slots (sv_guard sv') (remove1 (slot_of w) (slot_of w # map slot_of (xs @ ys)))"
    unfolding assms(2) by (simp only: slot_of_def) (rule release_slots, simp_all)
  then have "holds_slots (sv_guard sv') (map slot_of (xs @ ys))" by simp
  moreover have "within_caps (map slot_of (xs @ ys))"
    using assms(1) within_caps_drop [of "map slot_of xs" "slot_of w" "map slot_of ys"] by (simp add: slots_ok_def)
  ultimately show ?thesis by (simp add: slots_ok_def)
qed

lemma slots_ok_guard: "(\<And>ws. holds_slots (sv_guard sv') ws = holds_slots (sv_guard sv) ws) \<Longrightarrow> slots_ok sv' ws = slots_ok sv ws"
  by (simp add: slots_ok_def)

text \<open>The upstream part gives the slot back on every path, the crash included.\<close>

lemma process_upstream_keeps:
  assumes "rest_ok sv"
  shows "rest_ok (snd (process_upstream L uw w ck sv))"
    and "sv_policy (snd (process_upstream L uw w ck sv)) = sv_policy sv"
    and "slots_ok sv (xs @ w # ys) \<Longrightarrow> slots_ok (snd (process_upstream L uw w ck sv)) (xs @ ys)"
proof -
  define sv1 where "sv1 = sv\<lparr>sv_guard := guard_release (wk_client w) (wk_zone w) (wk_tcp w) (sv_guard sv)\<rparr>"
  have one: "rest_ok sv1" "sv_policy sv1 = sv_policy sv" using assms by (simp_all add: sv1_def rest_ok_def)
  obtain res u where res: "resolve (uw_net uw) DEFAULT_TIMEOUT False
      (upstream_request (uw_id uw) (hd (m_questions (wk_request w)))) (ck_now ck) (sv_upstream sv) = (res, u)"
    by force
  obtain down u' where nf: "note_query_failure (uw_net uw) DEFAULT_TIMEOUT (uw_id uw) (uw_asking uw) (ck_now ck) u = (down, u')"
    by force
  let ?t = "snd (process_upstream L uw w ck sv)"
  have up: "rest_ok (sv1\<lparr>sv_upstream := x\<rparr>) \<and> sv_policy (sv1\<lparr>sv_upstream := x\<rparr>) = sv_policy sv" for x
    using one by (simp add: rest_ok_def)
  have noted: "rest_ok (sv1\<lparr>sv_upstream := x, sv_guard := note_failure q t z n (sv_guard sv1)\<rparr>)" for x q t z n
    using one by (simp add: rest_ok_def note_failure_ok)
  have stored: "rest_ok (sv1\<lparr>sv_upstream := x, sv_cache := snd (cache_put (dl_store L) (sv_cache sv) q t r n),
      sv_worker := (case sv_worker sv of None \<Rightarrow> None | Some wk \<Rightarrow> Some (if b then snd (enqueue sk kn q c m wk) else wk))\<rparr>)"
    for x q t r n b sk kn c m
    using assms by (auto simp: rest_ok_def sv1_def cache_put_inv enqueue_ok split: option.splits)
  have t: "?t = (if uw_crash uw then sv1
      else case res of
        Inl err \<Rightarrow> if err = CircuitOpen then sv1\<lparr>sv_upstream := u\<rparr>
          else if down then sv1\<lparr>sv_upstream := u'\<rparr>
          else sv1\<lparr>sv_upstream := u', sv_guard := note_failure (wk_qname w) (wk_qtype w) (wk_zone w) (ck_now ck) (sv_guard sv1)\<rparr>
      | Inr r \<Rightarrow> sv1\<lparr>sv_upstream := u,
          sv_cache := snd (cache_put (dl_store L) (sv_cache sv) (wk_qname w) (wk_qtype w) (m_body r) (ck_now ck)),
          sv_worker := (case sv_worker sv of None \<Rightarrow> None
            | Some wk \<Rightarrow> Some (if rcode (m_body r) = NOERROR
                then snd (enqueue (is_never_block (sv_policy sv)) (kc_addresses (sv_known sv)) (wk_qname w)
                           (wk_client w) (ck_wall ck) wk) else wk))\<rparr>)"
    by (simp add: process_upstream_def res nf Let_def sv1_def split: sum.split option.split)
  show "rest_ok ?t"
    unfolding t using one up noted stored by (simp split: sum.split)
  show "sv_policy ?t = sv_policy sv"
    unfolding t using one by (simp split: sum.split)
  have "holds_slots (sv_guard ?t) ws = holds_slots (sv_guard sv1) ws" for ws
    unfolding t by (simp split: sum.split)
  then have "slots_ok ?t (xs @ ys) = slots_ok sv1 (xs @ ys)" by (rule slots_ok_guard)
  then show "slots_ok sv (xs @ w # ys) \<Longrightarrow> slots_ok ?t (xs @ ys)"
    using release_work [of sv xs w ys sv1] by (simp add: sv1_def)
qed

lemma finish_query_keeps:
  assumes "rest_ok sv"
  shows "rest_ok (snd (finish_query L uw w ck sv))"
    and "sv_policy (snd (finish_query L uw w ck sv)) = sv_policy sv"
    and "slots_ok sv (xs @ w # ys) \<Longrightarrow> slots_ok (snd (finish_query L uw w ck sv)) (xs @ ys)"
  using process_upstream_keeps [OF assms, where L = L and uw = uw and w = w and ck = ck]
  by (simp_all add: finish_query_def case_prod_unfold respond_keeps Let_def)

lemma udp_receive_keeps:
  assumes "rest_ok sv"
  shows "rest_ok (snd (udp_receive data client ck sv))"
    and "sv_policy (snd (udp_receive data client ck sv)) = sv_policy sv"
    and "slots_ok (snd (udp_receive data client ck sv)) ws = slots_ok sv ws"
  using assms allow_ok [of "sv_udp_limit sv" client "ck_now ck"]
  by (auto simp: udp_receive_def Let_def case_prod_unfold rest_ok_def slots_ok_def)

lemma udp_worker_keeps:
  assumes "rest_ok sv"
  shows "rest_ok (snd (udp_worker L ck sv)) \<and> sv_policy (snd (udp_worker L ck sv)) = sv_policy sv \<and>
    (slots_ok sv ws \<longrightarrow> slots_ok (snd (udp_worker L ck sv)) (add_work (fst (udp_worker L ck sv)) ws))"
proof (cases "sv_queue sv")
  case (Cons dc rest)
  obtain d c where dc: "dc = (d, c)" by force
  have "rest_ok (sv\<lparr>sv_queue := rest\<rparr>)" "slots_ok (sv\<lparr>sv_queue := rest\<rparr>) ws = slots_ok sv ws"
    using assms Cons by (simp_all add: rest_ok_def slots_ok_def)
  with begin_query_keeps [of "sv\<lparr>sv_queue := rest\<rparr>" L d c False True ck ws] Cons dc show ?thesis
    by (simp add: udp_worker_def)
qed (simp add: udp_worker_def assms)

lemma server_malicious_keeps:
  assumes "rest_ok sv"
  shows "rest_ok (server_malicious d sv)" "slots_ok (server_malicious d sv) ws = slots_ok sv ws"
  using assms
  by (simp_all add: server_malicious_def rest_ok_def slots_ok_def cache_invalidate_def Let_def fold_ddel_filter
      cache_inv_filter)

lemma vt_frame:
  "worker_ok (vt_roll_day t w) = worker_ok w" "worker_ok (vt_drawn c k t w) = worker_ok w"
  by (simp_all add: worker_ok_def vt_roll_day_def vt_drawn_def Let_def)

lemma client_acquire_ok: "worker_ok w \<Longrightarrow> worker_ok (fst (snd (client_acquire c k t n (w, b))))"
  by (simp add: client_acquire_def vt_share_ok_def Let_def case_prod_unfold vt_frame)

lemma process_item_ok:
  assumes "worker_ok w"
  shows "worker_ok (fst (snd (snd (process_item cfg known vt uh utc today now st reg c w b tab))))"
proof -
  obtain r w1 b1 tab1 where l: "lookup_domain_detail cfg (client_acquire c (c \<in> known) today now) vt uh utc st False reg (w, b) tab
      = (r, (w1, b1), tab1)"
    by (metis surj_pair)
  have "worker_ok w1"
    using l assms client_acquire_ok [of w c "c \<in> known" today now b]
    by (auto simp: lookup_domain_detail_def Let_def case_prod_unfold split: option.splits if_splits)
  then show ?thesis by (simp add: process_item_def l case_prod_unfold Let_def worker_ok_def)
qed

lemma reputation_turn_keeps:
  assumes "rest_ok sv"
  shows "rest_ok (reputation_turn cfg vt uh today st ck sv)"
    and "slots_ok (reputation_turn cfg vt uh today st ck sv) ws = slots_ok sv ws"
    and "sv_policy (reputation_turn cfg vt uh today st ck sv) = sv_policy sv \<or>
      (\<exists>d. sv_policy (reputation_turn cfg vt uh today st ck sv) = mark_malicious (sv_policy sv) d)"
proof -
  have base: "rest_ok (sv\<lparr>sv_worker := Some wk, sv_budget := b, sv_rep := tab\<rparr>) \<and>
      slots_ok (sv\<lparr>sv_worker := Some wk, sv_budget := b, sv_rep := tab\<rparr>) ws = slots_ok sv ws" if "worker_ok wk" for wk b tab
    using assms that by (simp add: rest_ok_def slots_ok_def)
  have all: "rest_ok (reputation_turn cfg vt uh today st ck sv) \<and>
      slots_ok (reputation_turn cfg vt uh today st ck sv) ws = slots_ok sv ws \<and>
      (sv_policy (reputation_turn cfg vt uh today st ck sv) = sv_policy sv \<or>
        (\<exists>d. sv_policy (reputation_turn cfg vt uh today st ck sv) = mark_malicious (sv_policy sv) d))"
  proof (cases "sv_worker sv")
    case (Some wk)
    obtain it wk1 where t: "take_item wk = (it, wk1)" by force
    have ok1: "worker_ok wk1" using take_item_ok [of wk] assms Some t by (simp add: rest_ok_def)
    show ?thesis
    proof (cases it)
      case None
      with Some t ok1 assms show ?thesis by (simp add: reputation_turn_def rest_ok_def slots_ok_def)
    next
      case (Some i)
      obtain r out wk2 b tab where p: "process_item cfg (kc_addresses (sv_known sv)) vt uh (ck_wall ck) today (ck_now ck) st
          (it_reg i) (it_client i) wk1 (sv_budget sv) (sv_rep sv) = (r, out, wk2, b, tab)"
        by (metis surj_pair)
      have "worker_ok wk2" using process_item_ok [OF ok1] p by (metis fst_conv snd_conv)
      note base [OF this, where b = b and tab = tab]
      moreover have "reputation_turn cfg vt uh today st ck sv =
          (let sv1 = sv\<lparr>sv_worker := Some wk2, sv_budget := b, sv_rep := tab\<rparr>
           in if re_verdict r = ''malicious'' then server_malicious (it_reg i) sv1 else sv1)"
        using \<open>sv_worker sv = Some wk\<close> t Some p by (simp add: reputation_turn_def)
      ultimately show ?thesis
        by (cases "re_verdict r = ''malicious''")
          (simp_all add: Let_def server_malicious_keeps, auto simp: server_malicious_def)
    qed
  qed (simp add: reputation_turn_def assms)
  show "rest_ok (reputation_turn cfg vt uh today st ck sv)"
    "slots_ok (reputation_turn cfg vt uh today st ck sv) ws = slots_ok sv ws"
    "sv_policy (reputation_turn cfg vt uh today st ck sv) = sv_policy sv \<or>
      (\<exists>d. sv_policy (reputation_turn cfg vt uh today st ck sv) = mark_malicious (sv_policy sv) d)"
    using all by blast+
qed

text \<open>A tick changes the policy through its reloads only.\<close>

definition tick_policy :: "policy_env \<Rightarrow> bool \<Rightarrow> real \<Rightarrow> policy \<Rightarrow> policy" where
  "tick_policy env busy now p = snd (refresh_overrides_if_changed env (snd (maybe_reload env busy False now p)))"

lemma flood_draft_frame:
  "rest_ok (snd (flood_draft now sv)) = rest_ok sv" "sv_policy (snd (flood_draft now sv)) = sv_policy sv"
  "sv_guard (snd (flood_draft now sv)) = sv_guard sv"
  by (auto simp: flood_draft_def Let_def rest_ok_def split: option.splits)

lemma health_findings_state: "snd (health_findings hw ck sv) = snd (flood_draft (ck_now ck) sv)"
  by (simp add: health_findings_def Let_def case_prod_unfold)

lemma cleanup_ok: "limiter_ok l \<Longrightarrow> limiter_ok (cleanup now l)"
  by (simp add: cleanup_def limiter_ok_filter)

lemma housekeeping_keeps:
  assumes "rest_ok sv"
  shows "rest_ok (snd (housekeeping env inven hw busy force ck sv)) \<and>
    slots_ok (snd (housekeeping env inven hw busy force ck sv)) ws = slots_ok sv ws \<and>
    sv_policy (snd (housekeeping env inven hw busy force ck sv)) = tick_policy env busy (ck_now ck) (sv_policy sv)"
proof -
  define now where "now = ck_now ck"
  define ch where "ch = (fst (maybe_reload env busy False now (sv_policy sv)) \<or>
      fst (refresh_overrides_if_changed env (snd (maybe_reload env busy False now (sv_policy sv)))))"
  define sv1 where "sv1 = sv\<lparr>sv_known := snd (kc_maybe_refresh inven \<lfloor>ck_wall ck\<rfloor> now (sv_known sv)),
      sv_policy := tick_policy env busy now (sv_policy sv),
      sv_cache := (if ch then cache_clear (sv_cache sv) else sv_cache sv),
      sv_udp_limit := cleanup now (sv_udp_limit sv), sv_tcp_limit := cleanup now (sv_tcp_limit sv),
      sv_global_limit := cleanup now (sv_global_limit sv)\<rparr>"
  have one: "rest_ok sv1" "sv_guard sv1 = sv_guard sv" "sv_policy sv1 = tick_policy env busy now (sv_policy sv)"
    using assms by (auto simp: sv1_def rest_ok_def cleanup_ok cache_clear_def cache_inv_def)
  have two: "rest_ok (sv1\<lparr>sv_last_health := now, sv_cache := snd (purge_expired (sv_cache sv1) now)\<rparr>)"
    using one(1) by (simp add: rest_ok_def purge_expired_def Let_def fold_ddel_filter cache_inv_filter)
  have h: "snd (housekeeping env inven hw busy force ck sv) =
      (if force \<or> HEALTH_INTERVAL \<le> now - sv_last_health sv1
       then snd (health_findings hw ck
              (sv1\<lparr>sv_last_health := now, sv_cache := snd (purge_expired (sv_cache sv1) now)\<rparr>))
       else sv1)"
    by (simp add: housekeeping_def Let_def case_prod_unfold sv1_def now_def ch_def tick_policy_def)
  from one two show ?thesis
    unfolding h by (auto simp: health_findings_state flood_draft_frame slots_ok_def now_def)
qed

section \<open>Every reachable state\<close>

lemma srv_step_ok:
  "srv_step L E s s' \<Longrightarrow> rest_ok (fst s) \<and> slots_ok (fst s) (snd s) \<Longrightarrow> rest_ok (fst s') \<and> slots_ok (fst s') (snd s')"
proof (induction rule: srv_step.induct)
  case (srv_receive sv ws data client ck)
  then show ?case by (simp add: udp_receive_keeps)
next
  case (srv_worker sv ws ck)
  then show ?case using udp_worker_keeps [of sv L ck ws] by simp
next
  case (srv_begin sv ws data client tcp ck)
  then show ?case using begin_query_keeps [of sv L data client tcp False ck ws] by simp
next
  case (srv_finish sv xs w ys uw ck)
  then show ?case by (simp add: finish_query_keeps)
next
  case (srv_abandon sv xs w ys)
  then have "rest_ok (abandon w sv)" by (simp add: abandon_def rest_ok_def)
  moreover have "slots_ok (abandon w sv) (xs @ ys)"
    using srv_abandon by (intro release_work [of sv xs w ys]) (simp_all add: abandon_def)
  ultimately show ?case by simp
next
  case (srv_reputation sv ws cfg vt_http uh_http today stored ck)
  then show ?case by (simp add: reputation_turn_keeps)
next
  case (srv_malicious sv ws domain)
  then show ?case by (simp add: server_malicious_keeps)
next
  case (srv_housekeeping env sv ws inven hw busy force ck)
  then show ?case using housekeeping_keeps [of sv env inven hw busy force ck ws] by simp
qed

lemma new_server_ok:
  "rest_ok (new_server p u n k l r b rep bm) \<and> slots_ok (new_server p u n k l r b rep bm) []"
  by (simp add: rest_ok_def slots_ok_def new_server_def new_guard_ok new_guard_slots new_cache_inv new_limiter_ok
      new_worker_ok within_caps_def)

lemma srv_reachable_ok:
  assumes "(srv_step L E)\<^sup>*\<^sup>* (new_server p u n k l r b rep bm, []) (sv, ws)"
  shows "rest_ok sv \<and> slots_ok sv ws"
proof -
  have "rest_ok (fst s) \<and> slots_ok (fst s) (snd s)"
    if "(srv_step L E)\<^sup>*\<^sup>* (new_server p u n k l r b rep bm, []) s" for s
    using that by (induction rule: rtranclp_induct) (simp add: new_server_ok, erule (1) srv_step_ok)
  from this [OF assms] show ?thesis by simp
qed

lemma ckey_inj: "ckey b c = ckey b' c' \<longleftrightarrow> b = b' \<and> c = c'"
  by (auto simp: ckey_def)

text \<open>
  C20. Slots and bounds in every reachable state, however the listener, the workers, the pool, the TCP
  handlers, the reputation worker and housekeeping interleave: the guard's counter is exactly the number
  of upstream queries in flight, so an idle resolver holds no slot and none leaks, on any error path;
  at most 256 of them came over UDP, at most 32 from one client over the same transport and at most 32
  are for one zone; the UDP queue and the cache stay within their bounds.
\<close>

theorem server_resources_exact:
  assumes "(srv_step L E)\<^sup>*\<^sup>* (new_server p u n k l r b rep bm, []) (sv, ws)"
  shows "inflight (sv_guard sv) = length ws \<and>
    inflight_udp (sv_guard sv) = length (filter (\<lambda>w. \<not> wk_tcp w) ws) \<and>
    length (filter (\<lambda>w. \<not> wk_tcp w) ws) \<le> UPSTREAM_INFLIGHT_TOTAL \<and>
    (\<forall>c t. length (filter (\<lambda>w. wk_client w = c \<and> wk_tcp w = t) ws) \<le> UPSTREAM_INFLIGHT_PER_CLIENT) \<and>
    (\<forall>z. length (filter (\<lambda>w. wk_zone w = z) ws) \<le> UPSTREAM_INFLIGHT_PER_ZONE) \<and>
    length (sv_queue sv) \<le> UDP_QUEUE_MAX \<and> cache_inv (sv_cache sv)"
proof -
  have ok: "rest_ok sv" "slots_ok sv ws" using srv_reachable_ok [OF assms] by simp_all
  have udp: "length (filter slot_udp (map slot_of ws)) = length (filter (\<lambda>w. \<not> wk_tcp w) ws)"
    by (simp add: filter_map comp_def slot_defs slot_of_def)
  have client: "length (filter (\<lambda>w. slot_client w = ckey t c) (map slot_of ws)) =
      length (filter (\<lambda>w. wk_client w = c \<and> wk_tcp w = t) ws)" for c t
    by (simp add: filter_map comp_def slot_defs slot_of_def ckey_inj conj_commute)
  have zone: "length (filter (\<lambda>w. slot_zone w = z) (map slot_of ws)) = length (filter (\<lambda>w. wk_zone w = z) ws)" for z
    by (simp add: filter_map comp_def slot_defs slot_of_def)
  show ?thesis
    using ok unfolding slots_ok_def within_caps_def holds_slots_def rest_ok_def
    unfolding udp client [symmetric] zone [symmetric] by simp
qed

section \<open>A malicious domain is never resolved again\<close>

text \<open>A reload that keeps the verdict: the table still has a row that counts, or could not be read.\<close>

definition keeps_verdict :: "str \<Rightarrow> policy_env \<Rightarrow> bool" where
  "keeps_verdict d env \<longleftrightarrow> (\<forall>p. normalize_name d \<in> malicious p \<longrightarrow> normalize_name d \<in> malicious (reload_reputation env p))"

lemma reload_lists_malicious: "malicious (snd (reload_lists fs force p)) = malicious p"
  by (auto simp: reload_lists_def case_prod_unfold Let_def)

lemma reload_overrides_malicious: "malicious (reload_overrides_table env p) = malicious p"
  by (auto simp: reload_overrides_table_def split: option.splits)

lemma tick_keeps_verdict:
  assumes "keeps_verdict d env" and "normalize_name d \<in> malicious p"
  shows "normalize_name d \<in> malicious (tick_policy env busy now p)"
proof -
  have "normalize_name d \<in> malicious (snd (reload env busy force now p))" for force
    using assms
    by (auto simp: reload_def case_prod_unfold Let_def keeps_verdict_def reload_overrides_malicious reload_lists_malicious)
  then have "normalize_name d \<in> malicious (snd (maybe_reload env busy False now p))"
    using assms(2) by (simp add: maybe_reload_def)
  then show ?thesis
    by (simp add: tick_policy_def refresh_overrides_if_changed_def Let_def reload_overrides_malicious)
qed

lemma srv_step_verdict:
  assumes "srv_step L E s s'" and "rest_ok (fst s)" and "\<And>env. E env \<Longrightarrow> keeps_verdict d env"
    and "normalize_name d \<in> malicious (sv_policy (fst s))"
  shows "normalize_name d \<in> malicious (sv_policy (fst s'))"
  using assms
proof (induction rule: srv_step.induct)
  case (srv_receive sv ws data client ck)
  then show ?case by (simp add: udp_receive_keeps)
next
  case (srv_worker sv ws ck)
  then show ?case using udp_worker_keeps [of sv L ck] by simp
next
  case (srv_begin sv ws data client tcp ck)
  then show ?case using begin_query_keeps [of sv L data client tcp False ck] by simp
next
  case (srv_finish sv xs w ys uw ck)
  then show ?case by (simp add: finish_query_keeps)
next
  case (srv_abandon sv xs w ys)
  then show ?case by (simp add: abandon_def)
next
  case (srv_reputation sv ws cfg vt_http uh_http today stored ck)
  then show ?case using reputation_turn_keeps(3) [of sv cfg vt_http uh_http today stored ck]
    by (auto simp: mark_malicious_def)
next
  case (srv_malicious sv ws domain)
  then show ?case by (simp add: server_malicious_def mark_malicious_def)
next
  case (srv_housekeeping env sv ws inven hw busy force ck)
  then show ?case using housekeeping_keeps [of sv env inven hw busy force ck] by (simp add: tick_keeps_verdict)
qed

lemma srv_run_verdict:
  assumes "(srv_step L E)\<^sup>*\<^sup>* s s'" and "rest_ok (fst s) \<and> slots_ok (fst s) (snd s)"
    and "\<And>env. E env \<Longrightarrow> keeps_verdict d env" and "normalize_name d \<in> malicious (sv_policy (fst s))"
  shows "normalize_name d \<in> malicious (sv_policy (fst s'))"
proof -
  have "(rest_ok (fst s') \<and> slots_ok (fst s') (snd s')) \<and> normalize_name d \<in> malicious (sv_policy (fst s'))"
    using assms(1)
  proof (induction rule: rtranclp_induct)
    case base
    then show ?case using assms(2,4) by simp
  next
    case (step y z)
    from step.IH srv_step_ok [OF step.hyps(2)] srv_step_verdict [OF step.hyps(2) _ assms(3)] show ?case
      by simp
  qed
  then show ?thesis by simp
qed

lemma process_local_blocked:
  assumes "q_class (hd (m_questions rq)) = 1" and "qtype_name L (q_type (hd (m_questions rq))) \<noteq> ''ANY''"
    and "blocked_decision (decide (sv_policy sv) (qname_text (hd (m_questions rq))))"
  shows "process_local L rq client tcp ck sv =
    (Outcome \<lparr>oc_action = ''block'', oc_reason = Some (reason (decide (sv_policy sv) (qname_text (hd (m_questions rq))))),
       oc_reply = Some (block_reply L (sv_nxdomain sv) rq (qtype_name L (q_type (hd (m_questions rq)))))\<rparr>, sv)"
  using assms by (simp add: process_local_def Let_def)


section \<open>Sizes\<close>

text \<open>
  A UDP answer is the whole reply within the size the client advertised, clamped to 512..1232 bytes,
  and above 512 bytes only when the global ceiling admits it; or it is the truncated reply without records.
\<close>

lemma udp_answer_bounded:
  assumes "finalize L rq body False ck sv = (Done (Some bytes), sv')"
  shows "dl_pack L (cut_short (finalized rq body)) = Some bytes \<or>
    dl_pack L (finalized rq body) = Some bytes \<and> length bytes \<le> max_udp rq \<and> max_udp rq \<le> EDNS_UDP_SIZE \<and>
    (MIN_UDP_SIZE < length bytes \<longrightarrow> fst (allow GLOBAL_CLIENT_KEY (ck_now ck) (sv_global_limit sv)))"
proof -
  have m: "max_udp rq \<le> EDNS_UDP_SIZE"
    by (auto simp: max_udp_def MAX_UDP_SIZE_def EDNS_UDP_SIZE_def MIN_UDP_SIZE_def split: option.splits)
  show ?thesis
    using assms m by (auto simp: finalize_def Let_def case_prod_unfold sendable_def split: option.splits if_splits)
qed

section \<open>Examples\<close>

definition example_request :: "str \<Rightarrow> request" where
  "example_request name = \<lparr>m_id = 7, m_questions = [\<lparr>q_name = name, q_type = 1, q_class = 1\<rparr>],
     m_body = \<lparr>rcode = 0, tc = False, rrs = [], auth = [], ar = []\<rparr>, rq_qr = False, rq_opcode = 0, rq_rd = True\<rparr>"

definition example_dnslib :: "str \<Rightarrow> dnslib" where
  "example_dnslib name = \<lparr>dl_parse = (\<lambda>_. Some (example_request name)), dl_pack = (\<lambda>_. Some example_query),
     dl_reply = (\<lambda>rq. \<lparr>m_id = m_id rq, m_questions = m_questions rq, m_body = m_body rq, rp_qr = True,
       rp_ra = True, rp_aa = False, rp_rd = rq_rd rq\<rparr>),
     dl_store = (\<lambda>_. None), dl_load = (\<lambda>_. None), dl_qtype = (\<lambda>t. Some ''A'')\<rparr>"

abbreviation example_server :: server where
  "example_server \<equiv> new_server (new_policy [] [] 2 72 None) (new_upstream [''1.1.1.1''] [] False) 0 (new_known [])
     (new_log True 500 600 30000) True (new_budget [] 400 4 ''2026-01-01'' 0) [] ''null''"

lemma example_local: "client_is_local ''10.0.0.2''"
proof -
  have a: "map parse_octet (split_on CHR ''.'' ''10.0.0.2'') = [Some 10, Some 0, Some 0, Some 2]" by code_simp
  have p: "parse_ipv4 ''10.0.0.2'' = Some (quad 10 0 0 2)" unfolding parse_ipv4_def a by simp
  show ?thesis
    by (simp add: client_is_local_def before_def ip_address_def p ip_is_private_def v4_is_private_def
        v4_private_nets_def in_net_def v4_private_exceptions_def)
qed

lemma example_begin:
  "\<exists>w. fst (begin_query (example_dnslib ''a.b.'') [] ''10.0.0.2'' True False \<lparr>ck_now = 1, ck_wall = 1\<rparr> example_server) = Work w"
proof -
  have l: "fst (allow c t (new_limiter RATE_LIMIT_QPS RATE_LIMIT_MAX_KEYS))" for c t
    by (simp add: allow_def charged_def new_limiter_def Let_def RATE_LIMIT_MAX_KEYS_def)
  have "rstrip_by is_dot ''a.b.'' = ''a.b''" by code_simp
  then have q: "qname_text r = ''a.b''" if "q_name r = ''a.b.''" for r by (simp add: qname_text_def that)
  have d: "decide (new_policy [] [] 2 72 None) ''a.b'' = allow_default" by code_simp
  show ?thesis
    by (simp add: begin_query_def example_local l case_prod_unfold Let_def new_server_def example_dnslib_def example_request_def
        process_local_def qtype_name_def q d blocked_decision_def allow_default_def cache_get_def new_cache_def
        guard_check_def new_guard_def guard_acquire_def dcount_def UPSTREAM_INFLIGHT_PER_CLIENT_def
        UPSTREAM_INFLIGHT_PER_ZONE_def)
qed

theorem server_resources_exact_witness:
  "inflight (sv_guard (snd (begin_query (example_dnslib ''a.b.'') [] ''10.0.0.2'' True False
     \<lparr>ck_now = 1, ck_wall = 1\<rparr> example_server))) = 1"
proof -
  obtain w where w: "fst (begin_query (example_dnslib ''a.b.'') [] ''10.0.0.2'' True False
      \<lparr>ck_now = 1, ck_wall = 1\<rparr> example_server) = Work w"
    using example_begin by blast
  have "(srv_step (example_dnslib ''a.b.'') (\<lambda>_. True))\<^sup>*\<^sup>* (example_server, [])
      (snd (begin_query (example_dnslib ''a.b.'') [] ''10.0.0.2'' True False \<lparr>ck_now = 1, ck_wall = 1\<rparr> example_server),
       add_work (Work w) [])"
    using srv_begin [of "example_dnslib ''a.b.''" "\<lambda>_. True" example_server "[]" "[]" "''10.0.0.2''" True
      "\<lparr>ck_now = 1, ck_wall = 1\<rparr>"] unfolding w by (rule r_into_rtranclp)
  from server_resources_exact [OF this] show ?thesis by (simp add: add_work_def)
qed


end
