(* ===== verification/Dns_Tcp.thy ===== *)
theory Dns_Tcp
  imports Dns_Limits Dns_Guard
begin

text \<open>
  The connection table of \<open>_TcpServer\<close>, \<open>homesoc/dnsfilter/server.py\<close>: at most
  \<open>TCP_MAX_CONNECTIONS\<close> connections, \<open>TCP_MAX_CONNECTIONS_PER_CLIENT\<close> per source, and the idle
  connection of the greediest source closed to make room. A socket is an identity (Python compares
  socket objects by identity), every method that takes the lock one step.
\<close>

section \<open>The table\<close>

definition TCP_IDLE_TIMEOUT :: real where "TCP_IDLE_TIMEOUT = 10"
definition TCP_IDLE_TIMEOUT_BUSY :: real where "TCP_IDLE_TIMEOUT_BUSY = 2"
definition TCP_MAX_CONNECTIONS :: nat where "TCP_MAX_CONNECTIONS = 64"
definition TCP_MAX_CONNECTIONS_PER_CLIENT :: nat where "TCP_MAX_CONNECTIONS_PER_CLIENT = 8"

type_synonym socket = nat

record tcp_conn =
  conn_client :: str
  conn_last :: real
  conn_busy :: bool

record tcp_table =
  conn_by_client :: "(str, nat) dict"
  conns :: "(socket, tcp_conn) dict"
  active_connections :: nat
  refused_connections :: nat
  evicted_connections :: nat

definition new_tcp :: tcp_table where
  "new_tcp = \<lparr>conn_by_client = [], conns = [], active_connections = 0, refused_connections = 0,
     evicted_connections = 0\<rparr>"

text \<open>\<open>min(xs, key=f)\<close>: the first element with the least key.\<close>

fun min_by :: "('a \<Rightarrow> 'b :: linorder) \<Rightarrow> 'a list \<Rightarrow> 'a option" where
  "min_by f [] = None"
| "min_by f (x # xs) = (case min_by f xs of None \<Rightarrow> Some x | Some y \<Rightarrow> if f y < f x then Some y else Some x)"

text \<open>The tuple \<open>(-connections of the client, last)\<close>, compared lexicographically.\<close>

definition idle_conns :: "tcp_table \<Rightarrow> (socket \<times> tcp_conn) list" where
  "idle_conns t = filter (\<lambda>(s, c). \<not> conn_busy c) (conns t)"

definition greed :: "tcp_table \<Rightarrow> socket \<times> tcp_conn \<Rightarrow> int" where
  "greed t sc = - int (dcount (conn_by_client t) (conn_client (snd sc)))"

definition pick_evictee :: "tcp_table \<Rightarrow> (socket \<times> tcp_conn) option" where
  "pick_evictee t =
     (let idle = idle_conns t; worst = min_by (greed t) idle
      in case worst of
           None \<Rightarrow> None
         | Some w \<Rightarrow> min_by (\<lambda>sc. conn_last (snd sc)) (filter (\<lambda>sc. greed t sc = greed t w) idle))"

definition forget :: "socket \<Rightarrow> tcp_table \<Rightarrow> bool \<times> tcp_table" where
  "forget s t =
     (case dget (conns t) s of
        None \<Rightarrow> (False, t)
      | Some c \<Rightarrow> (True, t\<lparr>conns := ddel s (conns t), active_connections := active_connections t - 1,
                           conn_by_client := ddec (conn_client c) (conn_by_client t)\<rparr>))"

definition add_conn :: "socket \<Rightarrow> str \<Rightarrow> real \<Rightarrow> tcp_table \<Rightarrow> tcp_table" where
  "add_conn s client now t =
     t\<lparr>conns := dset s \<lparr>conn_client = client, conn_last = now, conn_busy = False\<rparr> (conns t),
       active_connections := active_connections t + 1,
       conn_by_client := dinc client (conn_by_client t)\<rparr>"

text \<open>Accepted or not, the connection shut down to make room, and the table.\<close>

definition verify_tcp :: "socket \<Rightarrow> str \<Rightarrow> real \<Rightarrow> tcp_table \<Rightarrow> bool \<times> socket option \<times> tcp_table" where
  "verify_tcp s client now t =
     (if \<not> client_is_local client then (False, None, t)
      else if TCP_MAX_CONNECTIONS_PER_CLIENT \<le> dcount (conn_by_client t) client
      then (False, None, t\<lparr>refused_connections := refused_connections t + 1\<rparr>)
      else if TCP_MAX_CONNECTIONS \<le> active_connections t
      then (case pick_evictee t of
              None \<Rightarrow> (False, None, t\<lparr>refused_connections := refused_connections t + 1\<rparr>)
            | Some (v, _) \<Rightarrow>
                (let t = snd (forget v t); t = t\<lparr>evicted_connections := evicted_connections t + 1\<rparr>
                 in (True, Some v, add_conn s client now t)))
      else (True, None, add_conn s client now t))"

definition is_live :: "socket \<Rightarrow> tcp_table \<Rightarrow> bool" where
  "is_live s t \<longleftrightarrow> s \<in> set (dkeys (conns t))"

definition mark_busy :: "socket \<Rightarrow> real \<Rightarrow> tcp_table \<Rightarrow> bool \<times> tcp_table" where
  "mark_busy s now t =
     (case dget (conns t) s of
        None \<Rightarrow> (False, t)
      | Some c \<Rightarrow> (True, t\<lparr>conns := dset s (c\<lparr>conn_busy := True, conn_last := now\<rparr>) (conns t)\<rparr>))"

definition mark_idle :: "socket \<Rightarrow> real \<Rightarrow> tcp_table \<Rightarrow> tcp_table" where
  "mark_idle s now t =
     (case dget (conns t) s of
        None \<Rightarrow> t
      | Some c \<Rightarrow> t\<lparr>conns := dset s (c\<lparr>conn_busy := False, conn_last := now\<rparr>) (conns t)\<rparr>)"

definition idle_timeout :: "tcp_table \<Rightarrow> real" where
  "idle_timeout t =
     (if TCP_MAX_CONNECTIONS < active_connections t * 2 then min TCP_IDLE_TIMEOUT TCP_IDLE_TIMEOUT_BUSY
      else TCP_IDLE_TIMEOUT)"

section \<open>The invariant\<close>

definition client_of :: "socket \<times> tcp_conn \<Rightarrow> str" where
  "client_of sc = conn_client (snd sc)"

definition conns_of :: "tcp_table \<Rightarrow> str \<Rightarrow> nat" where
  "conns_of t client = length (filter (\<lambda>sc. client_of sc = client) (conns t))"

definition tcp_ok :: "tcp_table \<Rightarrow> bool" where
  "tcp_ok t \<longleftrightarrow>
     dwf (conns t) \<and> active_connections t = length (conns t) \<and>
     ct.tallies (conn_by_client t) client_of (conns t) \<and>
     length (conns t) \<le> TCP_MAX_CONNECTIONS \<and>
     (\<forall>k. conns_of t k \<le> TCP_MAX_CONNECTIONS_PER_CLIENT)"

lemma by_client: "tcp_ok t \<Longrightarrow> dcount (conn_by_client t) k = conns_of t k"
  by (simp add: tcp_ok_def ct.tallies_def conns_of_def)

lemma min_by_None [simp]: "min_by f xs = None \<longleftrightarrow> xs = []"
  by (induction xs) (auto split: option.splits)

lemma min_by_Some: "min_by f xs = Some y \<Longrightarrow> y \<in> set xs \<and> (\<forall>x\<in>set xs. f y \<le> f x)"
  by (induction xs arbitrary: y) (auto split: option.splits if_splits)

text \<open>The evictee is idle, of a source that holds the most connections, and the longest quiet of those.\<close>

lemma pick_evictee_Some:
  assumes "pick_evictee t = Some sc"
  shows "sc \<in> set (conns t) \<and> \<not> conn_busy (snd sc) \<and>
    (\<forall>d\<in>set (idle_conns t). greed t sc < greed t d \<or>
       greed t sc = greed t d \<and> conn_last (snd sc) \<le> conn_last (snd d))"
proof -
  from assms obtain w where w: "min_by (greed t) (idle_conns t) = Some w"
    and sc: "min_by (\<lambda>sc. conn_last (snd sc)) (filter (\<lambda>sc. greed t sc = greed t w) (idle_conns t)) = Some sc"
    by (auto simp: pick_evictee_def Let_def split: option.splits)
  from min_by_Some [OF w] min_by_Some [OF sc] show ?thesis
    by (auto simp: idle_conns_def case_prod_unfold) (metis order_le_less)+
qed

lemma pick_evictee_None: "pick_evictee t = None \<longleftrightarrow> idle_conns t = []"
proof (cases "min_by (greed t) (idle_conns t)")
  case (Some w)
  then have w: "w \<in> set (idle_conns t)" using min_by_Some by fastforce
  then have "filter (\<lambda>sc. greed t sc = greed t w) (idle_conns t) \<noteq> []"
    unfolding filter_empty_conv by blast
  moreover from w have "idle_conns t \<noteq> []" by auto
  moreover note Some
  ultimately show ?thesis by (simp add: pick_evictee_def Let_def)
qed (simp add: pick_evictee_def Let_def)

lemma ddel_remove1:
  assumes "dwf d" and "dget d s = Some c" shows "ddel s d = remove1 (s, c) d"
proof -
  have "distinct d" using assms(1) by (simp add: dwf_def dkeys_def distinct_map)
  then have "remove1 (s, c) d = filter (\<lambda>x. (s, c) \<noteq> x) d"
    by (simp add: distinct_remove1_removeAll removeAll_filter_not_eq)
  moreover have "(k, v) \<in> set d \<Longrightarrow> k = s \<Longrightarrow> v = c" for k v
    using dget_in_dwf [OF assms(1)] assms(2) by fastforce
  ultimately show ?thesis unfolding ddel_def by (auto intro!: filter_cong)
qed

lemma forget_ok:
  assumes "tcp_ok t" shows "tcp_ok (snd (forget s t))"
proof (cases "dget (conns t) s")
  case (Some c)
  have d: "ddel s (conns t) = remove1 (s, c) (conns t)"
    using assms Some by (intro ddel_remove1) (simp_all add: tcp_ok_def)
  have mem: "(s, c) \<in> set (conns t)" using Some by (rule dget_Some_in)
  from assms mem ct.tallies_remove [OF _ mem, of _ client_of] show ?thesis
    by (auto simp: tcp_ok_def forget_def Some d length_remove1 conns_of_def ct.length_filter_remove1 client_of_def
        dwf_ddel [of "conns t" s, unfolded d] intro: le_trans [OF diff_le_self])
qed (simp add: forget_def assms)

lemma add_conn_ok:
  assumes "tcp_ok t" and "dget (conns t) s = None" and "length (conns t) < TCP_MAX_CONNECTIONS"
    and "conns_of t client < TCP_MAX_CONNECTIONS_PER_CLIENT"
  shows "tcp_ok (add_conn s client now t)"
proof -
  let ?c = "\<lparr>conn_client = client, conn_last = now, conn_busy = False\<rparr>"
  have d: "dset s ?c (conns t) = conns t @ [(s, ?c)]"
    using assms(2) by (simp add: dset_absent dget_None_iff)
  from assms ct.tallies_snoc [of _ client_of "conns t" "(s, ?c)"] show ?thesis
    by (auto simp: tcp_ok_def add_conn_def d conns_of_def client_of_def dwf_dset [of "conns t" s ?c, unfolded d])
qed

lemma conns_of_forget:
  assumes "dwf (conns t)" and "dget (conns t) v = Some c"
  shows "conns_of (snd (forget v t)) k = conns_of t k - (if k = conn_client c then 1 else 0)"
  using assms dget_Some_in [OF assms(2)]
  by (auto simp: forget_def conns_of_def ddel_remove1 ct.length_filter_remove1 client_of_def)

lemma counters_ok [simp]:
  "tcp_ok (t\<lparr>refused_connections := n\<rparr>) = tcp_ok t" "tcp_ok (t\<lparr>evicted_connections := n\<rparr>) = tcp_ok t"
  "conns_of (t\<lparr>refused_connections := n\<rparr>) k = conns_of t k" "conns_of (t\<lparr>evicted_connections := n\<rparr>) k = conns_of t k"
  by (simp_all add: tcp_ok_def conns_of_def)

lemma verify_ok:
  assumes ok: "tcp_ok t" and fresh: "\<not> is_live s t"
  shows "tcp_ok (snd (snd (verify_tcp s client now t)))"
proof (cases "client_is_local client \<and> \<not> TCP_MAX_CONNECTIONS_PER_CLIENT \<le> dcount (conn_by_client t) client")
  case False
  then show ?thesis using ok by (auto simp: verify_tcp_def)
next
  case True
  then have room: "conns_of t client < TCP_MAX_CONNECTIONS_PER_CLIENT" using by_client [OF ok] by simp
  from fresh have none: "dget (conns t) s = None" by (simp add: is_live_def dget_None_iff)
  have len: "active_connections t = length (conns t)" "length (conns t) \<le> TCP_MAX_CONNECTIONS" "dwf (conns t)"
    using ok by (simp_all add: tcp_ok_def)
  show ?thesis
  proof (cases "TCP_MAX_CONNECTIONS \<le> active_connections t")
    case False
    with True len none room ok show ?thesis by (simp add: verify_tcp_def add_conn_ok)
  next
    case full: True
    show ?thesis
    proof (cases "pick_evictee t")
      case None
      with True full ok show ?thesis by (simp add: verify_tcp_def)
    next
      case (Some vc)
      obtain v c where vc: "vc = (v, c)" by force
      from pick_evictee_Some [OF Some] vc have mem: "(v, c) \<in> set (conns t)" by simp
      then have g: "dget (conns t) v = Some c" using len(3) by (rule dget_in_dwf [rotated])
      let ?t = "(snd (forget v t))\<lparr>evicted_connections := evicted_connections (snd (forget v t)) + 1\<rparr>"
      have "tcp_ok ?t" using forget_ok [OF ok] by simp
      moreover have "dget (conns ?t) s = None" using none g by (simp add: forget_def)
      moreover have "length (conns ?t) < TCP_MAX_CONNECTIONS"
        using length_ddel [OF len(3), of v] dget_None_iff [of "conns t" v] g len(2) by (auto simp: forget_def)
      moreover have "conns_of ?t client < TCP_MAX_CONNECTIONS_PER_CLIENT"
        using conns_of_forget [OF len(3) g, of client] room by simp
      ultimately have "tcp_ok (add_conn s client now ?t)" by (rule add_conn_ok)
      with True full Some vc show ?thesis by (simp add: verify_tcp_def Let_def)
    qed
  qed
qed

lemma map_client_dset:
  assumes "dget d s = Some c" and "conn_client c' = conn_client c"
  shows "map client_of (dset s c' d) = map client_of d"
  using assms by (induction s c' d rule: dset.induct) (auto simp: dget_Cons client_of_def)

lemma tcp_ok_same_clients:
  assumes "tcp_ok t" and "map client_of d = map client_of (conns t)" and "dwf d"
  shows "tcp_ok (t\<lparr>conns := d\<rparr>)"
proof -
  have "length (filter (\<lambda>x. client_of x = k) d) = length (filter (\<lambda>x. client_of x = k) (conns t))" for k
    using arg_cong [OF assms(2), of "\<lambda>xs. length (filter (\<lambda>x. x = k) xs)"] by (simp add: filter_map comp_def)
  moreover have "length d = length (conns t)" using arg_cong [OF assms(2), of length] by simp
  ultimately show ?thesis using assms by (simp add: tcp_ok_def ct.tallies_def conns_of_def)
qed

lemma mark_ok: "tcp_ok t \<Longrightarrow> tcp_ok (snd (mark_busy s now t))" "tcp_ok t \<Longrightarrow> tcp_ok (mark_idle s now t)"
  by (auto simp: mark_busy_def mark_idle_def map_client_dset tcp_ok_def [of t]
      intro!: tcp_ok_same_clients split: option.splits)

section \<open>Runs\<close>

text \<open>
  The life of the table: the listener accepts a fresh socket, the handlers mark their connection busy
  and idle, and every handler releases its socket when it ends, evicted or not.
\<close>

inductive tcp_step :: "tcp_table \<Rightarrow> tcp_table \<Rightarrow> bool" where
  tcp_accept: "\<not> is_live s t \<Longrightarrow> tcp_step t (snd (snd (verify_tcp s client now t)))"
| tcp_busy: "tcp_step t (snd (mark_busy s now t))"
| tcp_idle: "tcp_step t (mark_idle s now t)"
| tcp_release: "tcp_step t (snd (forget s t))"

inductive_cases tcp_stepE: "tcp_step t t'"

lemma tcp_step_ok: "tcp_step t t' \<Longrightarrow> tcp_ok t \<Longrightarrow> tcp_ok t'"
  by (induction rule: tcp_step.induct) (auto simp: verify_ok mark_ok forget_ok)

definition tcp_reachable :: "tcp_table \<Rightarrow> bool" where
  "tcp_reachable t \<longleftrightarrow> tcp_step\<^sup>*\<^sup>* new_tcp t"

lemma new_tcp_ok: "tcp_ok new_tcp"
  by (simp add: tcp_ok_def new_tcp_def ct.tallies_def dcount_def conns_of_def)

lemma tcp_reachable_ok: "tcp_reachable t \<Longrightarrow> tcp_ok t"
  unfolding tcp_reachable_def by (induction rule: rtranclp_induct) (auto simp: new_tcp_ok tcp_step_ok)


section \<open>Fairness\<close>

lemma busy_kept:
  assumes ok: "tcp_ok t" and fresh: "\<not> is_live s t" and c: "dget (conns t) v = Some c" "conn_busy c"
  shows "dget (conns (snd (snd (verify_tcp s client now t)))) v = Some c"
proof -
  have "v \<noteq> s" using fresh c(1) dget_None_iff [of "conns t" s] by (auto simp: is_live_def)
  moreover have "fst vc \<noteq> v" if "pick_evictee t = Some vc" for vc
  proof
    assume "fst vc = v"
    with pick_evictee_Some [OF that] have "dget (conns t) v = Some (snd vc)"
      using ok by (cases vc) (auto simp: tcp_ok_def dest: dget_in_dwf)
    with c pick_evictee_Some [OF that] show False by simp
  qed
  ultimately show ?thesis
    using c(1) by (auto simp: verify_tcp_def forget_def add_conn_def Let_def split: option.splits prod.splits)
qed

lemma idle_conns_Nil: "dwf (conns t) \<Longrightarrow> idle_conns t = [] \<longleftrightarrow> (\<forall>v c. dget (conns t) v = Some c \<longrightarrow> conn_busy c)"
  unfolding idle_conns_def filter_empty_conv by (fastforce dest: dget_in_dwf dget_Some_in)

lemma refused_iff:
  assumes "tcp_ok t"
  shows "fst (verify_tcp s client now t) \<longleftrightarrow>
    client_is_local client \<and> conns_of t client < TCP_MAX_CONNECTIONS_PER_CLIENT \<and>
    (length (conns t) < TCP_MAX_CONNECTIONS \<or> (\<exists>v c. dget (conns t) v = Some c \<and> \<not> conn_busy c))"
proof -
  have len: "active_connections t = length (conns t)" "dwf (conns t)" using assms by (simp_all add: tcp_ok_def)
  note none = pick_evictee_None [of t] idle_conns_Nil [OF len(2)]
  show ?thesis
  proof (cases "pick_evictee t")
    case None
    with none show ?thesis by (auto simp: verify_tcp_def by_client [OF assms] len)
  next
    case (Some vc)
    obtain v c where "vc = (v, c)" by force
    moreover have "\<exists>v c. dget (conns t) v = Some c \<and> \<not> conn_busy c" using none Some by auto
    ultimately show ?thesis using Some by (auto simp: verify_tcp_def by_client [OF assms] len Let_def)
  qed
qed

lemma victim_greediest:
  assumes "tcp_ok t" and "fst (snd (verify_tcp s client now t)) = Some v"
    and "dget (conns t) u = Some d" and "\<not> conn_busy d"
  shows "\<exists>c. dget (conns t) v = Some c \<and> \<not> conn_busy c \<and>
    conns_of t (conn_client d) \<le> conns_of t (conn_client c)"
proof -
  from assms(2) obtain c where p: "pick_evictee t = Some (v, c)"
    by (auto simp: verify_tcp_def Let_def split: if_splits option.splits)
  have "(u, d) \<in> set (idle_conns t)" using assms(3,4) by (auto simp: idle_conns_def dest: dget_Some_in)
  with pick_evictee_Some [OF p] have "greed t (v, c) \<le> greed t (u, d)" by fastforce
  moreover have "dget (conns t) v = Some c"
    using pick_evictee_Some [OF p] assms(1) by (auto simp: tcp_ok_def dest: dget_in_dwf)
  ultimately show ?thesis
    using pick_evictee_Some [OF p] by (auto simp: greed_def by_client [OF assms(1)])
qed

text \<open>
  C25. The connection table is bounded and fair. In every reachable state an arriving connection
  leaves at most 64 connections in all and 8 per source; no connection the resolver is working for is
  ever closed to make room; the connection that is closed belongs to a source holding at least as many
  connections as the source of any other idle one; and a local source below its own limit is turned
  away only when all 64 connections are busy.
\<close>

theorem tcp_table_fair:
  assumes "tcp_reachable t" and "\<not> is_live s t" and "verify_tcp s client now t = (accepted, victim, t')"
  shows "active_connections t' = length (conns t') \<and> length (conns t') \<le> TCP_MAX_CONNECTIONS \<and>
    (\<forall>k. conns_of t' k \<le> TCP_MAX_CONNECTIONS_PER_CLIENT) \<and>
    (\<forall>v c. dget (conns t) v = Some c \<and> conn_busy c \<longrightarrow> dget (conns t') v = Some c) \<and>
    (\<forall>v u d. victim = Some v \<and> dget (conns t) u = Some d \<and> \<not> conn_busy d \<longrightarrow>
       (\<exists>c. dget (conns t) v = Some c \<and> \<not> conn_busy c \<and>
          conns_of t (conn_client d) \<le> conns_of t (conn_client c))) \<and>
    (accepted \<longleftrightarrow> client_is_local client \<and> conns_of t client < TCP_MAX_CONNECTIONS_PER_CLIENT \<and>
       (length (conns t) < TCP_MAX_CONNECTIONS \<or> (\<exists>v c. dget (conns t) v = Some c \<and> \<not> conn_busy c)))"
proof -
  have ok: "tcp_ok t" using assms(1) by (rule tcp_reachable_ok)
  have t': "tcp_ok t'" using verify_ok [OF ok assms(2), of client now] assms(3) by simp
  from t' busy_kept [OF ok assms(2), of _ _ client now] victim_greediest [OF ok, of s client now]
    refused_iff [OF ok, of s client now] assms(3)
  show ?thesis unfolding tcp_ok_def by (simp, blast)
qed

theorem tcp_table_fair_witness:
  "length (conns (snd (snd (verify_tcp 1 ''192.168.1.9'' 0 new_tcp)))) \<le> TCP_MAX_CONNECTIONS"
proof -
  obtain a v t' where v: "verify_tcp 1 ''192.168.1.9'' 0 new_tcp = (a, v, t')" using prod_cases3 by blast
  have "tcp_reachable new_tcp" by (simp add: tcp_reachable_def)
  moreover have "\<not> is_live 1 new_tcp" by (simp add: is_live_def new_tcp_def dkeys_def)
  ultimately show ?thesis using tcp_table_fair [OF _ _ v] v by simp
qed

end
