(* ===== verification/Feeds_Parsers.thy ===== *)
theory Feeds_Parsers
  imports Py_Net
begin

text \<open>
  The feed parsers (\<open>homesoc/feeds/parsers.py\<close>): bounded line reading, the domain list formats,
  address lists, the KEV document, EPSS rows and the OUI table.

  A JSON document is its value (\<open>json.loads\<close> raising is \<open>None\<close>), a CSV file its rows
  (\<open>csv.reader\<close>, a \<open>csv.Error\<close> row is \<open>None\<close>); Python's \<open>str()\<close> on a JSON value and
  \<open>float()\<close> on text are arguments. A generator is the list of what it yields.
\<close>

section \<open>Lines\<close>

definition MAX_LINE_CHARS :: nat where "MAX_LINE_CHARS = 4096"

text \<open>
  \<open>fh.readline(n)\<close> of a text file opened with \<open>newline=''\<close>: up to and with the next line
  ending, at most \<open>n\<close> characters.
\<close>

fun line_end :: "str \<Rightarrow> nat" where
  "line_end [] = 0"
| "line_end (c # s) =
     (if code_of c = 10 then 1
      else if code_of c = 13 then (if s \<noteq> [] \<and> code_of (hd s) = 10 then 2 else 1)
      else Suc (line_end s))"

definition readline :: "nat \<Rightarrow> str \<Rightarrow> str \<times> str" where
  "readline n s = (let k = min n (line_end s) in (take k s, drop k s))"

definition ends_line :: "str \<Rightarrow> bool" where
  "ends_line l \<longleftrightarrow> l \<noteq> [] \<and> code_of (last l) \<in> {10, 13}"

lemma line_end_pos: "s \<noteq> [] \<Longrightarrow> 0 < line_end s"
  by (cases s) auto

lemma line_end_le: "line_end s \<le> length s"
  by (induction s) (auto simp: Suc_le_eq)

lemma readline_shorter: "0 < n \<Longrightarrow> s \<noteq> [] \<Longrightarrow> length (snd (readline n s)) < length s"
  using line_end_pos [of s] by (auto simp: readline_def Let_def)

text \<open>The inner loop of \<open>bounded_lines\<close>: discard the rest of an over-long line.\<close>

function drain :: "nat \<Rightarrow> str \<Rightarrow> str" where
  "drain m s =
     (let (rest, s') = readline (m + 1) s
      in if rest = [] \<or> ends_line rest then s' else drain m s')"
  by pat_completeness auto
termination
proof (relation "measure (length \<circ> snd)")
  fix m s x rest s'
  assume x: "x = readline (m + 1) s" "(rest, s') = x" "\<not> (rest = [] \<or> ends_line rest)"
  then have "s \<noteq> []" by (auto simp: readline_def Let_def)
  then show "((m, s'), m, s) \<in> measure (length \<circ> snd)"
    using readline_shorter [of "m + 1" s] x by (metis (no_types) Suc_eq_plus1 comp_apply in_measure snd_conv zero_less_Suc)
qed simp

declare drain.simps [simp del]

lemma drain_le: "length (drain m s) \<le> length s"
proof (induction m s rule: drain.induct)
  case (1 m s)
  obtain rest s' where r: "readline (m + 1) s = (rest, s')" by force
  then have "length s' \<le> length s" by (auto simp: readline_def Let_def)
  with 1 [OF r [symmetric] refl] r show ?case by (auto simp: drain.simps [of m s])
qed

function bounded_lines :: "nat \<Rightarrow> str \<Rightarrow> str list" where
  "bounded_lines m s =
     (let (line, s') = readline (m + 1) s
      in if line = [] then []
         else if m < length line \<and> \<not> ends_line line then bounded_lines m (drain m s')
         else line # bounded_lines m s')"
  by pat_completeness auto
termination
proof (relation "measure (length \<circ> snd)")
  fix m s x line s'
  assume x: "x = readline (m + 1) s" "(line, s') = x" "line \<noteq> []"
  then have "s \<noteq> []" by (auto simp: readline_def Let_def)
  then have "length s' < length s" using readline_shorter [of "m + 1" s] x by (metis snd_conv zero_less_Suc Suc_eq_plus1)
  then show "((m, s'), m, s) \<in> measure (length \<circ> snd)" and "((m, drain m s'), m, s) \<in> measure (length \<circ> snd)"
    using drain_le [of m s'] by simp_all
qed simp

declare bounded_lines.simps [simp del]

definition COMMENT_PREFIXES :: "str list" where
  "COMMENT_PREFIXES = [''#'', ''!'', '';'', ''//'']"

text \<open>\<open>_lines\<close>, on the raw lines of the text or of the iterable.\<close>

definition clean_line :: "str \<Rightarrow> str option" where
  "clean_line raw =
     (if MAX_LINE_CHARS + 2 < length raw then None
      else let line = strip raw
           in if line = [] \<or> list_ex (\<lambda>p. prefix p line) COMMENT_PREFIXES then None else Some line)"

definition lines :: "str list \<Rightarrow> str list" where
  "lines raws = List.map_filter clean_line raws"

definition first_token :: "str \<Rightarrow> str" where
  "first_token line = (case split_ws line of [] \<Rightarrow> [] | t # _ \<Rightarrow> t)"

text \<open>\<open>line[:line.find(m)]\<close> when the marker occurs.\<close>

fun cut_at :: "str \<Rightarrow> str \<Rightarrow> str" where
  "cut_at m [] = []"
| "cut_at m (c # s) = (if prefix m (c # s) then [] else c # cut_at m s)"

definition strip_inline_comment :: "str \<Rightarrow> str" where
  "strip_inline_comment line = strip (fold cut_at ['' #'', [CHR 0x09] @ ''#'', '' ;'', [CHR 0x09] @ '';''] line)"

section \<open>Domains\<close>

definition HOSTS_NOISE :: "str list" where
  "HOSTS_NOISE = [''localhost'', ''localhost.localdomain'', ''local'', ''broadcasthost'', ''ip6-localhost'',
     ''ip6-loopback'', ''ip6-localnet'', ''ip6-mcastprefix'', ''ip6-allnodes'', ''ip6-allrouters'',
     ''ip6-allhosts'', ''0.0.0.0'']"

definition MAX_DOMAIN_LEN :: nat where "MAX_DOMAIN_LEN = 253"

text \<open>\<open>_LABEL_RE\<close>.\<close>

definition edge_char :: "char \<Rightarrow> bool" where
  "edge_char c \<longleftrightarrow> is_lower c \<or> is_digit c \<or> c = CHR ''_''"

definition label_full :: "str \<Rightarrow> bool" where
  "label_full l \<longleftrightarrow> l \<noteq> [] \<and> length l \<le> 63 \<and> edge_char (hd l) \<and> edge_char (last l) \<and>
     list_all (\<lambda>c. edge_char c \<or> c = CHR ''-'') l"

definition LABEL_RE :: "str \<Rightarrow> bool" where
  "LABEL_RE l = re_dollar label_full l"

text \<open>\<open>value.strip().strip('.').lower()\<close>\<close>

definition domain_text :: "str \<Rightarrow> str" where
  "domain_text value = lower (rstrip_by (\<lambda>c. c = CHR ''.'') (lstrip_by (\<lambda>c. c = CHR ''.'') (strip value)))"

definition normalize_domain :: "str \<Rightarrow> str option" where
  "normalize_domain value =
     (if value = [] then None
      else let dom = domain_text value;
               labels = split_on CHR ''.'' dom
           in if dom = [] \<or> MAX_DOMAIN_LEN < length dom then None
              else if length labels < 2 then None
              else if list_all (\<lambda>l. l \<noteq> [] \<and> list_all is_digit l) labels then None
              else if \<not> list_all LABEL_RE labels then None
              else Some dom)"

definition is_ip :: "str \<Rightarrow> bool" where
  "is_ip token \<longleftrightarrow> ip_address (before CHR ''%'' token) \<noteq> None"

text \<open>The \<open>seen\<close> set of every parser: first occurrences only.\<close>

definition uniq :: "'a list \<Rightarrow> 'a list" where
  "uniq xs = fold (\<lambda>x acc. if x \<in> set acc then acc else acc @ [x]) xs []"

definition opt_list :: "'a option \<Rightarrow> 'a list" where
  "opt_list x = (case x of None \<Rightarrow> [] | Some y \<Rightarrow> [y])"

definition drop_star :: "str \<Rightarrow> str" where
  "drop_star token = (if prefix ''*.'' token then drop 2 token else token)"

section \<open>The list formats\<close>

definition hosts_line :: "str \<Rightarrow> str list" where
  "hosts_line line0 =
     (case split_ws (strip_inline_comment line0) of
        [] \<Rightarrow> []
      | t # ts \<Rightarrow> concat (map (\<lambda>name. if lower name \<in> set HOSTS_NOISE then [] else opt_list (normalize_domain name))
          (if is_ip t then ts else [t])))"

definition parse_hosts :: "str list \<Rightarrow> str list" where
  "parse_hosts raws = uniq (concat (map hosts_line (lines raws)))"

definition adblock_domain :: "str \<Rightarrow> str option" where
  "adblock_domain rule =
     (if \<not> prefix ''||'' rule then None
      else let body = before CHR ''$'' (drop 2 rule);
               body = (if suffix ''^'' body then butlast body else if suffix ''|'' body then butlast body else body)
           in if body = [] \<or> list_ex (\<lambda>c. c \<in> set body) ''/*^|?=&'' then None else normalize_domain body)"

definition plain_token :: "str list \<Rightarrow> str option" where
  "plain_token tokens = (case tokens of
       [] \<Rightarrow> None
     | [t] \<Rightarrow> Some t
     | t # u # _ \<Rightarrow> Some (if is_ip t then u else t))"

definition domains_line :: "str \<Rightarrow> str list" where
  "domains_line line0 =
     (let line = strip_inline_comment line0
      in if prefix ''@@'' line then []
         else let dom = (if prefix ''||'' line then adblock_domain line
                else case plain_token (split_ws line) of None \<Rightarrow> None | Some t \<Rightarrow> normalize_domain (drop_star t))
              in filter (\<lambda>d. lower d \<notin> set HOSTS_NOISE) (opt_list dom))"

definition parse_domains :: "str list \<Rightarrow> str list" where
  "parse_domains raws = uniq (concat (map domains_line (lines raws)))"

definition adblock_line :: "str \<Rightarrow> str list" where
  "adblock_line line0 =
     (if prefix ''['' line0 \<or> prefix ''@@'' line0 then []
      else if sublist ''##'' line0 \<or> sublist ''#@#'' line0 \<or> sublist ''#?#'' line0 then []
      else if prefix ''/'' line0 \<and> suffix ''/'' line0 then []
      else let line = strip_inline_comment line0;
               dom = (if prefix ''||'' line then adblock_domain line
                 else if prefix ''|'' line \<or> CHR ''$'' \<in> set line \<or> CHR ''*'' \<in> set line \<or> CHR ''/'' \<in> set line then None
                 else case plain_token (split_ws line) of None \<Rightarrow> None | Some t \<Rightarrow> normalize_domain t)
           in filter (\<lambda>d. d \<notin> set HOSTS_NOISE) (opt_list dom))"

definition parse_adblock :: "str list \<Rightarrow> str list" where
  "parse_adblock raws = uniq (concat (map adblock_line (lines raws)))"

definition wildcard_line :: "str \<Rightarrow> str list" where
  "wildcard_line line0 =
     (let token = first_token (strip_inline_comment line0);
          token = (if prefix ''*.'' token then drop 2 token else if prefix ''.'' token then drop 1 token else token)
      in opt_list (normalize_domain token))"

definition parse_wildcard :: "str list \<Rightarrow> str list" where
  "parse_wildcard raws = uniq (concat (map wildcard_line (lines raws)))"

definition urls_line :: "str \<Rightarrow> str list" where
  "urls_line line0 =
     (let line = first_token (strip_inline_comment line0);
          line = (if sublist ''://'' line then line else ''http://'' @ line)
      in if first_token (strip_inline_comment line0) = [] then []
         else case url_hostname line of
           Host h \<Rightarrow> if is_ip h then [] else opt_list (normalize_domain h)
         | _ \<Rightarrow> [])"

definition parse_urls :: "str list \<Rightarrow> str list" where
  "parse_urls raws = uniq (concat (map urls_line (lines raws)))"

section \<open>Address lists\<close>

text \<open>A network is its first address and prefix length; \<open>ipaddress.ip_network(token, strict=False)\<close>.\<close>

type_synonym v4net = "nat \<times> nat"

definition netmask_prefix :: "nat \<Rightarrow> nat option" where
  "netmask_prefix m = List.find (\<lambda>l. m = 2 ^ 32 - 2 ^ (32 - l)) (rev [0..<33])"

definition prefix_length :: "str \<Rightarrow> nat option" where
  "prefix_length msk =
     (if msk \<noteq> [] \<and> list_all is_digit msk \<and> dec_val msk \<le> 32 then Some (dec_val msk)
      else case parse_ipv4 msk of
        None \<Rightarrow> None
      | Some m \<Rightarrow> (case netmask_prefix m of Some l \<Rightarrow> Some l | None \<Rightarrow> netmask_prefix (2 ^ 32 - 1 - m)))"

definition network_of :: "nat \<Rightarrow> nat \<Rightarrow> v4net" where
  "network_of a l = (a div 2 ^ (32 - l) * 2 ^ (32 - l), l)"

definition ip_network_v4 :: "str \<Rightarrow> v4net option" where
  "ip_network_v4 token = (case split_on CHR ''/'' token of
       [a] \<Rightarrow> map_option (\<lambda>v. network_of v 32) (parse_ipv4 a)
     | [a, m] \<Rightarrow> (case (parse_ipv4 a, prefix_length m) of (Some v, Some l) \<Rightarrow> Some (network_of v l) | _ \<Rightarrow> None)
     | _ \<Rightarrow> None)"

definition ips_line :: "str \<Rightarrow> v4net list" where
  "ips_line line0 =
     (let token = strip (before CHR ''#'' (before CHR '';'' (first_token (strip_inline_comment line0))))
      in if token = [] then [] else opt_list (ip_network_v4 token))"

definition parse_ips :: "str list \<Rightarrow> v4net list" where
  "parse_ips raws = uniq (concat (map ips_line (lines raws)))"

section \<open>JSON documents\<close>

datatype json = JNull | JBool bool | JInt int | JFloat real | JStr str | JList "json list" | JObj "(str \<times> json) list"

definition jget :: "json \<Rightarrow> str \<Rightarrow> json option" where
  "jget j k = (case j of JObj d \<Rightarrow> dget d k | _ \<Rightarrow> None)"

definition feodo_item :: "json \<Rightarrow> v4net list" where
  "feodo_item item = (case jget item ''ip_address'' of
       Some (JStr ip) \<Rightarrow> opt_list (ip_network_v4 (strip ip))
     | _ \<Rightarrow> [])"

definition parse_feodo :: "json option \<Rightarrow> v4net list" where
  "parse_feodo doc = (case doc of Some (JList items) \<Rightarrow> uniq (concat (map feodo_item items)) | _ \<Rightarrow> [])"

definition KEV_FIELDS :: "str list" where
  "KEV_FIELDS = [''cveID'', ''vendorProject'', ''product'', ''vulnerabilityName'', ''dateAdded'', ''shortDescription'',
     ''requiredAction'', ''dueDate'', ''knownRansomwareCampaignUse'', ''notes'', ''cwes'']"

text \<open>A normalised entry: text fields and the list of weakness names.\<close>

record kev_entry =
  kev_fields :: "(str, str) dict"
  kev_cwes :: "str list"

definition py_str_of :: "(json \<Rightarrow> str) \<Rightarrow> json \<Rightarrow> str" where
  "py_str_of py_str j = (case j of JStr s \<Rightarrow> s | _ \<Rightarrow> py_str j)"

definition py_str_or_empty :: "(json \<Rightarrow> str) \<Rightarrow> json option \<Rightarrow> str" where
  "py_str_or_empty py_str v = (case v of None \<Rightarrow> [] | Some JNull \<Rightarrow> [] | Some j \<Rightarrow> py_str_of py_str j)"

definition kev_item :: "(json \<Rightarrow> str) \<Rightarrow> json \<Rightarrow> kev_entry list" where
  "kev_item py_str item = (case jget item ''cveID'' of
       Some (JStr cve) \<Rightarrow>
         (if \<not> prefix ''CVE-'' (upper cve) then []
          else [\<lparr>kev_fields = dset ''cveID'' (upper (strip cve))
                   (map (\<lambda>k. (k, py_str_or_empty py_str (jget item k))) (filter (\<lambda>k. k \<noteq> ''cwes'') KEV_FIELDS)),
                 kev_cwes = (case jget item ''cwes'' of
                     Some (JList cs) \<Rightarrow> map (py_str_of py_str) cs
                   | _ \<Rightarrow> [])\<rparr>])
     | _ \<Rightarrow> [])"

record kev_meta =
  km_title :: str
  km_version :: str
  km_released :: str
  km_count :: int

text \<open>\<open>str(data.get(key) or "")\<close>: a false value gives the empty text.\<close>

definition py_falsy :: "json \<Rightarrow> bool" where
  "py_falsy j = (case j of JNull \<Rightarrow> True | JBool b \<Rightarrow> \<not> b | JInt i \<Rightarrow> i = 0 | JFloat r \<Rightarrow> r = 0
     | JStr s \<Rightarrow> s = [] | JList l \<Rightarrow> l = [] | JObj d \<Rightarrow> d = [])"

definition str_or :: "(json \<Rightarrow> str) \<Rightarrow> json option \<Rightarrow> str" where
  "str_or py_str v = (case v of None \<Rightarrow> [] | Some j \<Rightarrow> if py_falsy j then [] else py_str_of py_str j)"

definition kev_document :: "(json \<Rightarrow> str) \<Rightarrow> json option \<Rightarrow> kev_meta option \<times> kev_entry list" where
  "kev_document py_str doc = (case doc of
       Some (JObj d) \<Rightarrow>
         (Some \<lparr>km_title = str_or py_str (dget d ''title''), km_version = str_or py_str (dget d ''catalogVersion''),
                km_released = str_or py_str (dget d ''dateReleased''),
                km_count = (case dget d ''count'' of Some (JInt n) \<Rightarrow> n | Some (JBool b) \<Rightarrow> of_bool b | _ \<Rightarrow> 0)\<rparr>,
          case dget d ''vulnerabilities'' of Some (JList items) \<Rightarrow> concat (map (kev_item py_str) items) | _ \<Rightarrow> [])
     | _ \<Rightarrow> (None, []))"

definition parse_kev :: "(json \<Rightarrow> str) \<Rightarrow> json option \<Rightarrow> kev_entry list" where
  "parse_kev py_str doc = snd (kev_document py_str doc)"

section \<open>EPSS rows\<close>

definition epss_row :: "(str \<Rightarrow> real option) \<Rightarrow> str list option \<Rightarrow> (str, real) dict \<Rightarrow> (str, real) dict" where
  "epss_row to_float row scores = (case row of
       Some (c # v # _) \<Rightarrow>
         (let cve = upper (strip c)
          in if \<not> prefix ''CVE-'' cve then scores
             else case to_float (strip v) of
               None \<Rightarrow> scores
             | Some score \<Rightarrow> if 0 \<le> score \<and> score \<le> 1 then dset cve score scores else scores)
     | _ \<Rightarrow> scores)"

definition parse_epss_lines :: "(str list \<Rightarrow> str list option list) \<Rightarrow> (str \<Rightarrow> real option) \<Rightarrow> str list \<Rightarrow> (str, real) dict" where
  "parse_epss_lines csv_reader to_float raws =
     fold (epss_row to_float) (csv_reader (filter (\<lambda>l. \<not> prefix ''#'' l) raws)) []"

definition parse_epss :: "(str list \<Rightarrow> str list option list) \<Rightarrow> (str \<Rightarrow> real option) \<Rightarrow> str \<Rightarrow> (str, real) dict" where
  "parse_epss csv_reader to_float csv_text = parse_epss_lines csv_reader to_float (splitlines csv_text)"

section \<open>The OUI table\<close>

text \<open>Python's \<open>int(text)\<close> on ASCII: blanks around, a sign, single underscores between digits.\<close>

definition py_int :: "str \<Rightarrow> int option" where
  "py_int s =
     (let t = strip s;
          neg = prefix ''-'' t;
          d = (if t \<noteq> [] \<and> hd t \<in> {CHR ''-'', CHR ''+''} then tl t else t);
          parts = split_on CHR ''_'' d
      in if list_all (\<lambda>p. p \<noteq> [] \<and> list_all is_digit p) parts
         then Some ((if neg then -1 else 1) * int (dec_val (concat parts))) else None)"

fun pairs :: "str \<Rightarrow> str list" where
  "pairs (a # b # s) = [a, b] # pairs s"
| "pairs [a] = [[a]]"
| "pairs [] = []"

text \<open>\<open>':'.join(s[i:i+2] ...)\<close>\<close>

definition colon_pairs :: "str \<Rightarrow> str" where
  "colon_pairs s = join_with CHR '':'' (pairs s)"

definition upper_hex :: "char \<Rightarrow> bool" where
  "upper_hex c \<longleftrightarrow> is_digit c \<or> (65 \<le> code_of c \<and> code_of c \<le> 70)"

definition oui_full :: "str \<Rightarrow> bool" where
  "oui_full s \<longleftrightarrow> (let ps = split_on CHR '':'' s
     in 3 \<le> length ps \<and> length ps \<le> 6 \<and> list_all (\<lambda>p. length p = 2 \<and> list_all upper_hex p) ps)"

definition HEX_RE :: "str \<Rightarrow> bool" where
  "HEX_RE s = re_dollar oui_full s"

definition oui_body :: "str \<Rightarrow> str" where
  "oui_body prefix0 =
     (let p = filter (\<lambda>c. c \<noteq> CHR ''.'') (map (\<lambda>c. if c = CHR ''-'' then CHR '':'' else c) prefix0)
      in if CHR '':'' \<notin> set p \<and> length p \<in> {6, 8, 10, 12} then colon_pairs p else p)"

definition oui_key :: "str \<Rightarrow> int \<Rightarrow> str option" where
  "oui_key hexdigits bits =
     (if bits = 24 then Some (colon_pairs (take 6 hexdigits))
      else if bits \<noteq> 28 \<and> bits \<noteq> 36 then None
      else let nibbles = nat bits div 4
           in if length hexdigits < nibbles then None
              else let kept = take nibbles hexdigits
                   in Some (colon_pairs (if odd (length kept) then kept @ ''0'' else kept) @
                       (if bits = 28 then ''/28'' else ''/36'')))"

definition normalize_oui_prefix :: "str \<Rightarrow> str option" where
  "normalize_oui_prefix prefix0 =
     (let p0 = upper (strip prefix0)
      in if p0 = [] then None
         else let has_mask = CHR ''/'' \<in> set p0;
                  bits = (if has_mask then py_int (drop 1 (dropWhile (\<lambda>c. c \<noteq> CHR ''/'') p0)) else Some 24)
              in case bits of
                None \<Rightarrow> None
              | Some b \<Rightarrow>
                  (let p = oui_body (before CHR ''/'' p0)
                   in if \<not> HEX_RE p then None else oui_key (filter (\<lambda>c. c \<noteq> CHR '':'') p) b))"

text \<open>\<open>line.split(None, 2)\<close>: two words and the rest.\<close>

definition split_ws_rest :: "str \<Rightarrow> str list" where
  "split_ws_rest line =
     (let w0 = takeWhile (\<lambda>c. \<not> is_space c) (lstrip_by is_space line);
          r0 = lstrip_by is_space (dropWhile (\<lambda>c. \<not> is_space c) (lstrip_by is_space line));
          w1 = takeWhile (\<lambda>c. \<not> is_space c) r0;
          r1 = lstrip_by is_space (dropWhile (\<lambda>c. \<not> is_space c) r0)
      in if w0 = [] then [] else if w1 = [] then [w0] else if r1 = [] then [w0, w1] else [w0, w1, r1])"

definition oui_line :: "str \<Rightarrow> (str, str) dict \<Rightarrow> (str, str) dict" where
  "oui_line line table =
     (let tabbed = map strip (split_on (CHR 0x09) line);
          parts = (if length tabbed < 2 then split_ws_rest line else tabbed)
      in if length parts < 2 then table
         else case normalize_oui_prefix (parts ! 0) of
           None \<Rightarrow> table
         | Some key \<Rightarrow>
             (let vendor = (if 2 < length parts \<and> parts ! 2 \<noteq> [] then parts ! 2 else parts ! 1);
                  vendor = strip (strip_inline_comment vendor)
              in if vendor = [] then table else dset key vendor table))"

definition parse_oui :: "str list \<Rightarrow> (str, str) dict" where
  "parse_oui raws = fold oui_line (lines raws) []"

section \<open>What the domain parsers yield\<close>

lemma uniq_snoc: "uniq (xs @ [x]) = (if x \<in> set (uniq xs) then uniq xs else uniq xs @ [x])"
  by (simp add: uniq_def)

lemma set_uniq [simp]: "set (uniq xs) = set xs"
  by (induction xs rule: rev_induct) (auto simp: uniq_snoc, simp_all add: uniq_def)

lemma distinct_uniq [simp]: "distinct (uniq xs)"
  by (induction xs rule: rev_induct) (simp_all add: uniq_snoc, simp add: uniq_def)

lemma set_opt_list [simp]: "set (opt_list x) = set_option x"
  by (cases x) (simp_all add: opt_list_def)

text \<open>A domain as RFC 1035 has it: two to many labels of at most 63 characters, 253 in all.\<close>

definition feed_domain :: "str \<Rightarrow> bool" where
  "feed_domain d \<longleftrightarrow> length d \<le> 253 \<and> 2 \<le> length (split_on CHR ''.'' d) \<and>
     list_all label_full (split_on CHR ''.'' d) \<and> list_ex (\<lambda>l. \<not> list_all is_digit l) (split_on CHR ''.'' d)"

lemma label_re_no_newline: "LABEL_RE l \<Longrightarrow> CHR 0x0A \<notin> set l \<Longrightarrow> label_full l"
  using last_in_set [of l] unfolding LABEL_RE_def re_dollar_def code_of_newline by metis

lemma normalize_domain_Some:
  "normalize_domain v = Some d \<longleftrightarrow> v \<noteq> [] \<and>
     domain_text v = d \<and> d \<noteq> [] \<and>
     length d \<le> MAX_DOMAIN_LEN \<and> 2 \<le> length (split_on CHR ''.'' d) \<and>
     \<not> list_all (\<lambda>l. l \<noteq> [] \<and> list_all is_digit l) (split_on CHR ''.'' d) \<and>
     list_all LABEL_RE (split_on CHR ''.'' d)"
  by (auto simp: normalize_domain_def Let_def)

lemma normalize_domain_subset:
  assumes "normalize_domain v = Some d"
  shows "set d \<subseteq> lower_char ` set v"
proof -
  have "d = domain_text v" using assms unfolding normalize_domain_Some by blast
  then have "set d = lower_char ` set (rstrip_by (\<lambda>c. c = CHR ''.'') (lstrip_by (\<lambda>c. c = CHR ''.'') (strip v)))"
    by (simp add: lower_def domain_text_def)
  also have "\<dots> \<subseteq> lower_char ` set v" using set_rstrip_by set_lstrip_by set_strip by (intro image_mono) blast
  finally show ?thesis .
qed

lemma normalize_domain_sound:
  assumes "normalize_domain v = Some d" and "CHR 0x0A \<notin> set v"
  shows "feed_domain d"
proof -
  have nl: "CHR 0x0A \<notin> set d"
  proof
    assume "CHR 0x0A \<in> set d"
    then have "CHR 0x0A \<in> lower_char ` set v" by (rule subsetD [OF normalize_domain_subset [OF assms(1)]])
    then obtain c where "CHR 0x0A = lower_char c" "c \<in> set v" by (rule imageE)
    with lower_char_newline [of c] assms(2) show False by simp
  qed
  have d: "length d \<le> 253" "2 \<le> length (split_on CHR ''.'' d)" "list_all LABEL_RE (split_on CHR ''.'' d)"
    "\<not> list_all (\<lambda>l. l \<noteq> [] \<and> list_all is_digit l) (split_on CHR ''.'' d)"
    using assms(1) unfolding normalize_domain_Some MAX_DOMAIN_LEN_def by blast+
  have full: "label_full l" if "l \<in> set (split_on CHR ''.'' d)" for l
    using label_re_no_newline [of l] d(3) set_split_on [OF that] nl that by (auto simp: list_all_iff)
  moreover have "l \<noteq> []" if "l \<in> set (split_on CHR ''.'' d)" for l
    using full [OF that] by (simp add: label_full_def)
  ultimately show ?thesis using d by (auto simp: feed_domain_def list_all_iff list_ex_iff)
qed

text \<open>Nothing a parser looks at holds a line feed the raw line did not hold.\<close>

lemma cut_at_subset: "set (cut_at m s) \<subseteq> set s"
  by (induction m s rule: cut_at.induct) auto

lemma strip_inline_subset: "set (strip_inline_comment l) \<subseteq> set l"
proof -
  have "set (fold cut_at ms s) \<subseteq> set s" for ms s
    by (induction ms arbitrary: s) (use cut_at_subset in \<open>fastforce+\<close>)
  with set_strip show ?thesis unfolding strip_inline_comment_def by blast
qed

section \<open>Reading line by line\<close>

text \<open>The line breaks of \<open>readline\<close>; \<open>splitlines\<close> knows a few control characters more.\<close>

definition is_nl :: "char \<Rightarrow> bool" where
  "is_nl c \<longleftrightarrow> code_of c = 10 \<or> code_of c = 13"

definition plain_text :: "str \<Rightarrow> bool" where
  "plain_text s \<longleftrightarrow> list_all (\<lambda>c. is_line_break c \<longrightarrow> is_nl c) s"

abbreviation "content s \<equiv> takeWhile (\<lambda>c. \<not> is_nl c) s"

lemma is_nl_break: "is_nl c \<Longrightarrow> is_line_break c"
  by (auto simp: is_nl_def is_line_break_def)

lemma splitlines_aux_cr: "splitlines_aux [] True s = (if s \<noteq> [] \<and> code_of (hd s) = 10 then splitlines (tl s) else splitlines s)"
  by (cases s) (simp_all add: splitlines_def)

lemma splitlines_aux_first:
  assumes "plain_text s" and "s \<noteq> [] \<or> acc \<noteq> []"
  shows "splitlines_aux acc False s = (rev acc @ content s) # splitlines (drop (line_end s) s)"
  using assms
proof (induction s arbitrary: acc)
  case Nil
  then show ?case by (simp add: splitlines_def)
next
  case (Cons c s)
  have pl: "plain_text s" and br: "is_line_break c \<longleftrightarrow> is_nl c"
    using Cons.prems is_nl_break by (auto simp: plain_text_def)
  show ?case
  proof (cases "is_nl c")
    case True
    then show ?thesis using is_nl_break [OF True]
      by (cases s) (auto simp: is_nl_def splitlines_aux_cr splitlines_def)
  next
    case False
    then have "splitlines_aux acc False (c # s) = splitlines_aux (c # acc) False s" using br by (simp add: is_nl_def)
    also have "\<dots> = (rev (c # acc) @ content s) # splitlines (drop (line_end s) s)"
      by (rule Cons.IH [OF pl]) simp
    finally show ?thesis using False by (simp add: is_nl_def)
  qed
qed

lemma splitlines_first: "plain_text s \<Longrightarrow> s \<noteq> [] \<Longrightarrow> splitlines s = content s # splitlines (drop (line_end s) s)"
  using splitlines_aux_first [of s "[]"] by (simp add: splitlines_def)

text \<open>The first line of a text: its content, its ending and what follows.\<close>

lemma first_line:
  obtains e where "s = content s @ e @ drop (line_end s) s" "line_end s = length (content s) + length e"
    "length e \<le> 2" "list_all is_nl e" "e = [] \<Longrightarrow> drop (line_end s) s = []"
    "length e = 2 \<Longrightarrow> code_of (e ! 0) = 13 \<and> code_of (e ! 1) = 10"
proof (induction s arbitrary: thesis)
  case Nil
  show ?case by (rule Nil [of "[]"]) simp_all
next
  case (Cons c s)
  show ?case
  proof (cases "is_nl c")
    case True
    show ?thesis
    proof (cases "code_of c = 13 \<and> s \<noteq> [] \<and> code_of (hd s) = 10")
      case crlf: True
      then obtain d r where "s = d # r" "code_of d = 10" by (cases s) auto
      with crlf show ?thesis by (intro Cons.prems [of "[c, d]"]) (auto simp: is_nl_def)
    next
      case False
      with True show ?thesis by (intro Cons.prems [of "[c]"]) (auto simp: is_nl_def)
    qed
  next
    case False
    show ?thesis
    proof (rule Cons.IH)
      fix e
      assume "s = content s @ e @ drop (line_end s) s" "line_end s = length (content s) + length e"
        "length e \<le> 2" "list_all is_nl e" "e = [] \<Longrightarrow> drop (line_end s) s = []"
        "length e = 2 \<Longrightarrow> code_of (e ! 0) = 13 \<and> code_of (e ! 1) = 10"
      with False show ?thesis by (intro Cons.prems [of e]) (auto simp: is_nl_def [of c])
    qed
  qed
qed

lemma is_nl_space: "is_nl c \<Longrightarrow> is_space c"
  by (auto simp: is_nl_def is_space_def)

lemma strip_nl: "list_all is_nl e \<Longrightarrow> strip (c @ e) = strip c"
proof (induction e rule: rev_induct)
  case (snoc x e)
  have "is_space x" using snoc.prems by (simp add: is_nl_space)
  then have "strip (s @ [x]) = strip s" for s
  proof (cases "\<forall>c\<in>set s. is_space c")
    case True
    then have "dropWhile is_space s = []" by simp
    with \<open>is_space x\<close> show ?thesis by (simp only: strip_def lstrip_by_def dropWhile_append True) simp
  next
    case False
    with \<open>is_space x\<close> show ?thesis by (auto simp: strip_def lstrip_by_def rstrip_by_snoc dropWhile_append)
  qed
  from this [of "c @ e"] snoc show ?case by simp
qed simp

lemma clean_line_nl:
  assumes "length c \<le> MAX_LINE_CHARS" "list_all is_nl e" "length e \<le> 2"
  shows "clean_line (c @ e) = clean_line c"
  using assms by (simp add: clean_line_def strip_nl)

lemma lines_Cons: "lines (l # ls) = opt_list (clean_line l) @ lines ls"
  by (cases "clean_line l") (simp_all add: lines_def List.map_filter_def opt_list_def)

lemma lines_append_nl: "list_all is_nl l \<Longrightarrow> lines (l # ls) = lines ls"
  using strip_nl [of l "[]"] strip_id [of "[]"] by (simp add: lines_Cons clean_line_def opt_list_def)

lemma content_le: "length (content s) \<le> line_end s"
  by (induction s) (auto simp: is_nl_def)

lemma line_end_drop_eq: "k \<le> length (content s) \<Longrightarrow> line_end (drop k s) = line_end s - k"
proof (induction s arbitrary: k)
  case (Cons c s)
  show ?case
  proof (cases k)
    case (Suc j)
    with Cons.prems have "\<not> is_nl c" by (auto split: if_splits)
    with Suc Cons show ?thesis by (simp add: is_nl_def [of c])
  qed simp
qed simp

lemma line_end_drop:
  assumes "k \<le> length (content s)"
  shows "line_end (drop k s) = line_end s - k \<and> drop (line_end (drop k s)) (drop k s) = drop (line_end s) s"
  using assms content_le [of s] by (simp add: line_end_drop_eq)

lemma content_no_break: "x \<in> set (content s) \<Longrightarrow> \<not> is_nl x"
  by (auto dest: set_takeWhileD)

lemma ends_line_iff: "ends_line l \<longleftrightarrow> l \<noteq> [] \<and> is_nl (last l)"
  by (auto simp: ends_line_def is_nl_def)

lemma take_content:
  assumes "k \<le> length (content s)" shows "\<not> ends_line (take k s)"
proof -
  have "take k s = take k (content s)" by (metis append_take_drop_id assms take_append takeWhile_eq_take diff_is_0_eq' take0 append_Nil2 takeWhile_dropWhile_id)
  then have "last (take k s) \<in> set (content s)" if "take k s \<noteq> []"
    using last_in_set [OF that] by (auto dest: in_set_takeD)
  then show ?thesis using content_no_break [of "last (take k s)" s] by (auto simp: ends_line_iff)
qed

text \<open>What one \<open>readline\<close> gives: a whole line, a piece of a long one, or a line cut inside CR LF.\<close>

lemma readline_cases:
  assumes "s \<noteq> []"
  obtains (whole) e where "readline (m + 1) s = (content s @ e, drop (line_end s) s)" "list_all is_nl e" "length e \<le> 2"
      "e = [] \<Longrightarrow> drop (line_end s) s = []" "length (content s @ e) \<le> m + 1"
      "s = content s @ e @ drop (line_end s) s"
    | (cut) x y where "readline (m + 1) s = (content s @ [x], y # drop (line_end s) s)" "is_nl x" "code_of y = 10" "length (content s) = m"
    | (piece) "readline (m + 1) s = (take (m + 1) s, drop (m + 1) s)" "m < length (content s)" "m + 1 < line_end s"
proof -
  obtain e where e: "s = content s @ e @ drop (line_end s) s" "line_end s = length (content s) + length e"
    "length e \<le> 2" "list_all is_nl e" "e = [] \<Longrightarrow> drop (line_end s) s = []"
    "length e = 2 \<Longrightarrow> code_of (e ! 0) = 13 \<and> code_of (e ! 1) = 10" by (rule first_line [where s = s]) blast
  have tk: "take (line_end s) s = content s @ e" using e(1,2) by (metis append_eq_conv_conj append_assoc length_append)
  show thesis
  proof (cases "line_end s \<le> m + 1")
    case True
    then show ?thesis using e tk by (intro whole [of e]) (simp_all add: readline_def min_def)
  next
    case False
    show ?thesis
    proof (cases "m < length (content s)")
      case True
      with False piece show ?thesis by (simp add: readline_def min_def)
    next
      case short: False
      with False e(2,3) have "length e = 2" "length (content s) = m" by linarith+
      then obtain x y where xy: "e = [x, y]" by (auto simp: length_Suc_conv numeral_2_eq_2)
      have "take (m + 1) s = content s @ [x]" "drop (m + 1) s = y # drop (line_end s) s"
        by (subst e(1), simp add: xy \<open>length (content s) = m\<close> [symmetric])+
      with False xy e(4,6) \<open>length e = 2\<close> \<open>length (content s) = m\<close> show ?thesis
        by (intro cut [of x y]) (simp_all add: readline_def min_def)
    qed
  qed
qed

lemma drain_result:
  "drain m s = drop (line_end s) s \<or> (\<exists>y. code_of y = 10 \<and> drain m s = y # drop (line_end s) s)"
proof (induction m s rule: drain.induct)
  case (1 m s)
  show ?case
  proof (cases "s = []")
    case True
    then show ?thesis by (simp add: drain.simps readline_def)
  next
    case False
    from False show ?thesis
    proof (cases rule: readline_cases [where m = m])
      case (whole e)
      show ?thesis
      proof (cases "e = []")
        case True
        with whole have "drop (line_end s) s = []" by blast
        moreover have "drain m [] = []" by (simp add: drain.simps readline_def)
        ultimately show ?thesis using whole(1) by (simp add: drain.simps [of m s])
      next
        case False
        then have "ends_line (content s @ e)" using whole(2) by (auto simp: ends_line_iff list_all_iff)
        with whole(1) show ?thesis by (simp add: drain.simps [of m s])
      qed
    next
      case (cut x y)
      have "ends_line (content s @ [x])" using cut(2) by (simp add: ends_line_iff)
      with cut show ?thesis by (simp add: drain.simps [of m s])
    next
      case piece
      then have nl: "\<not> ends_line (take (m + 1) s)" by (intro take_content) simp
      moreover have "take (m + 1) s \<noteq> []" using False by simp
      moreover note 1 [OF piece(1) [symmetric] refl] line_end_drop [of "m + 1" s]
      ultimately show ?thesis using piece by (simp add: drain.simps [of m s])
    qed
  qed
qed

lemma bounded_lines_Nil [simp]: "bounded_lines m [] = []"
  by (simp add: bounded_lines.simps readline_def)

lemma bounded_lines_newline: "code_of y = 10 \<Longrightarrow> bounded_lines m (y # s) = [y] # bounded_lines m s"
  by (simp add: bounded_lines.simps [of m "y # s"] readline_def ends_line_def)

lemma bounded_lines_whole:
  assumes "plain_text s" and "\<forall>l\<in>set (splitlines s). length l \<le> MAX_LINE_CHARS \<or> MAX_LINE_CHARS + 2 < length l"
  shows "lines (bounded_lines MAX_LINE_CHARS s) = lines (splitlines s)"
  using assms
proof (induction "length s" arbitrary: s rule: less_induct)
  case less
  let ?m = MAX_LINE_CHARS
  show ?case
  proof (cases "s = []")
    case True
    then show ?thesis by (simp add: splitlines_def)
  next
    case False
    let ?r = "drop (line_end s) s"
    have sl: "splitlines s = content s # splitlines ?r" using less.prems(1) False by (rule splitlines_first)
    have "plain_text ?r" using less.prems(1) by (auto simp: plain_text_def list_all_iff dest: in_set_dropD)
    moreover have "length ?r < length s" using line_end_pos [OF False] False by simp
    ultimately have ih: "lines (bounded_lines ?m ?r) = lines (splitlines ?r)" using less sl by simp
    have ihn: "lines (bounded_lines ?m (y # ?r)) = lines (splitlines ?r)" if "code_of y = 10" for y
      using ih that by (simp add: bounded_lines_newline lines_append_nl is_nl_def)
    from False show ?thesis
    proof (cases rule: readline_cases [where m = ?m])
      case (whole e)
      have "\<not> (?m < length (content s @ e) \<and> \<not> ends_line (content s @ e))"
        using whole(2,5) less.prems(2) sl by (cases "e = []") (auto simp: ends_line_iff list_all_iff)
      moreover have "content s @ e \<noteq> []" using whole(4,6) False by (metis append.assoc append_Nil append_is_Nil_conv)
      ultimately have "bounded_lines ?m s = (content s @ e) # bounded_lines ?m ?r"
        unfolding bounded_lines.simps [of ?m s] whole(1) by (auto simp del: append_is_Nil_conv)
      moreover have "length (content s) \<le> ?m" using whole(5) less.prems(2) sl by auto
      then have "clean_line (content s @ e) = clean_line (content s)" by (rule clean_line_nl [OF _ whole(2,3)])
      ultimately show ?thesis using ih sl by (simp add: lines_Cons)
    next
      case (cut x y)
      have "bounded_lines ?m s = (content s @ [x]) # bounded_lines ?m (y # ?r)"
        using cut(2) unfolding bounded_lines.simps [of ?m s] cut(1) by (simp add: ends_line_iff)
      moreover have "clean_line (content s @ [x]) = clean_line (content s)"
        by (rule clean_line_nl) (simp_all add: cut)
      ultimately show ?thesis using ihn [OF cut(3)] sl by (simp add: lines_Cons)
    next
      case piece
      have "?m + 2 < length (content s)" using piece(2) less.prems(2) sl by auto
      then have drop0: "clean_line (content s) = None" by (simp add: clean_line_def)
      have le: "?m + 1 \<le> length (content s)" using piece(2) by simp
      have "\<not> ends_line (take (?m + 1) s)" using le by (rule take_content)
      moreover have "length (take (?m + 1) s) = ?m + 1" using piece(3) line_end_le [of s] by simp
      ultimately have b: "bounded_lines ?m s = bounded_lines ?m (drain ?m (drop (?m + 1) s))"
        using False unfolding bounded_lines.simps [of ?m s] piece(1) by simp
      have "drain ?m (drop (?m + 1) s) = ?r \<or> (\<exists>y. code_of y = 10 \<and> drain ?m (drop (?m + 1) s) = y # ?r)"
        using drain_result [of ?m "drop (?m + 1) s"] unfolding line_end_drop [OF le, THEN conjunct2] .
      with b ih ihn sl drop0 show ?thesis by (auto simp: lines_Cons opt_list_def)
    qed
  qed
qed

section \<open>The properties\<close>

text \<open>The parser a feed names (\<open>FeedSpec.parser\<close> of the list feeds).\<close>

datatype domain_format = Hosts | Domains | Adblock | Wildcard | Urls

definition domain_parser :: "domain_format \<Rightarrow> str list \<Rightarrow> str list" where
  "domain_parser f = (case f of Hosts \<Rightarrow> parse_hosts | Domains \<Rightarrow> parse_domains | Adblock \<Rightarrow> parse_adblock
     | Wildcard \<Rightarrow> parse_wildcard | Urls \<Rightarrow> parse_urls)"

definition format_line :: "domain_format \<Rightarrow> str \<Rightarrow> str list" where
  "format_line f = (case f of Hosts \<Rightarrow> hosts_line | Domains \<Rightarrow> domains_line | Adblock \<Rightarrow> adblock_line
     | Wildcard \<Rightarrow> wildcard_line | Urls \<Rightarrow> urls_line)"

lemma domain_parser_lines: "domain_parser f raws = uniq (concat (map (format_line f) (lines raws)))"
  by (cases f) (simp_all add: domain_parser_def format_line_def parse_hosts_def parse_domains_def parse_adblock_def
      parse_wildcard_def parse_urls_def)

text \<open>Texts without a line feed, and that the parsers' steps keep it so.\<close>

definition nl_free :: "str \<Rightarrow> bool" where
  "nl_free s \<longleftrightarrow> CHR 0x0A \<notin> set s"

lemma nl_free_subset: "nl_free s \<Longrightarrow> set t \<subseteq> set s \<Longrightarrow> nl_free t"
  by (auto simp: nl_free_def)

lemma nl_free_steps [intro]:
  "nl_free s \<Longrightarrow> nl_free (strip_inline_comment s)" "nl_free s \<Longrightarrow> nl_free (before c s)"
  "nl_free s \<Longrightarrow> nl_free (drop k s)" "nl_free s \<Longrightarrow> nl_free (butlast s)" "nl_free s \<Longrightarrow> nl_free (strip s)"
  "nl_free s \<Longrightarrow> t \<in> set (split_ws s) \<Longrightarrow> nl_free t"
  using strip_inline_subset [of s] set_strip [of s] set_split_ws [of t s]
  by (auto simp: nl_free_def before_def dest: set_takeWhileD in_set_dropD in_set_butlastD)

lemma first_token_nl_free [intro]: "nl_free l \<Longrightarrow> nl_free (first_token l)"
  using nl_free_steps(6) [of l] by (cases "split_ws l") (auto simp: first_token_def nl_free_def)

lemma plain_token_nl_free: "plain_token (split_ws l) = Some t \<Longrightarrow> nl_free l \<Longrightarrow> nl_free t"
  using nl_free_steps(6) [of l t] by (cases "split_ws l"; cases "tl (split_ws l)") (auto simp: plain_token_def split: if_splits)

lemma url_host_nl_free: "url_hostname u = Host h \<Longrightarrow> nl_free h"
  unfolding nl_free_def by (rule url_hostname_no_newline)

lemma normalize_sound: "normalize_domain v = Some d \<Longrightarrow> nl_free v \<Longrightarrow> feed_domain d"
  by (rule normalize_domain_sound) (simp_all add: nl_free_def)

lemma adblock_sound: "adblock_domain rule = Some d \<Longrightarrow> nl_free rule \<Longrightarrow> feed_domain d"
  by (auto simp: adblock_domain_def Let_def intro!: normalize_sound nl_free_steps(2,3,4) split: if_splits)

lemma format_line_sound: "d \<in> set (format_line f l) \<Longrightarrow> nl_free l \<Longrightarrow> feed_domain d"
proof -
  assume d: "d \<in> set (format_line f l)" and l: "nl_free l"
  then have i: "nl_free (strip_inline_comment l)" by blast
  note n = normalize_sound
  show "feed_domain d"
  proof (cases f)
    case Hosts
    with d obtain v where "normalize_domain v = Some d" "v \<in> set (split_ws (strip_inline_comment l))"
      by (cases "split_ws (strip_inline_comment l)") (auto simp: format_line_def hosts_line_def split: if_splits)
    with n i show ?thesis by blast
  next
    case Domains
    with d i show ?thesis
      by (auto simp: format_line_def domains_line_def Let_def drop_star_def split: if_splits option.splits
          intro: n adblock_sound plain_token_nl_free nl_free_steps(3))
  next
    case Adblock
    with d i show ?thesis
      by (auto simp: format_line_def adblock_line_def Let_def split: if_splits option.splits
          intro: n adblock_sound plain_token_nl_free)
  next
    case Wildcard
    with d i show ?thesis
      by (auto simp: format_line_def wildcard_line_def Let_def split: if_splits intro: n)
  next
    case Urls
    with d obtain u h where "url_hostname u = Host h" "normalize_domain h = Some d"
      by (auto simp: format_line_def urls_line_def Let_def split: if_splits url_host.splits) metis+
    with n url_host_nl_free show ?thesis by blast
  qed
qed

lemma clean_line_nl_free: "clean_line raw = Some l \<Longrightarrow> nl_free raw \<Longrightarrow> nl_free l"
  by (auto simp: clean_line_def Let_def split: if_splits)

lemma splitlines_nl_free: "l \<in> set (splitlines s) \<Longrightarrow> nl_free l"
  using splitlines_no_newline [of l "[]" False s] by (simp add: splitlines_def nl_free_def)

lemma feed_domains:
  "distinct (domain_parser f (splitlines text)) \<and> list_all feed_domain (domain_parser f (splitlines text))"
  by (auto simp: domain_parser_lines list_all_iff lines_def List.map_filter_def
      dest!: format_line_sound intro: clean_line_nl_free splitlines_nl_free)


text \<open>
  Parsing an open file line by line gives what parsing its text gives, for every format,
  as long as the text has no line breaks only \<open>splitlines\<close> knows and no line in the
  two-character window around the length limit; lines over the limit are dropped by both.
\<close>

theorem streamed_parse_equals_text_parse:
  assumes "plain_text text" and "list_all (\<lambda>l. length l \<le> MAX_LINE_CHARS \<or> MAX_LINE_CHARS + 2 < length l) (splitlines text)"
  shows "domain_parser f (bounded_lines MAX_LINE_CHARS text) = domain_parser f (splitlines text)"
  using assms bounded_lines_whole [of "text"] by (simp add: domain_parser_lines list_all_iff)

lemma streamed_parse_equals_text_parse_witness:
  "domain_parser Hosts (bounded_lines MAX_LINE_CHARS (''0.0.0.0 ads.example'' @ [CHR 0x0D, CHR 0x0A])) =
   domain_parser Hosts (splitlines (''0.0.0.0 ads.example'' @ [CHR 0x0D, CHR 0x0A]))"
proof (rule streamed_parse_equals_text_parse)
  have "splitlines (''0.0.0.0 ads.example'' @ [CHR 0x0D, CHR 0x0A]) = [''0.0.0.0 ads.example'']" by code_simp
  then show "list_all (\<lambda>l. length l \<le> MAX_LINE_CHARS \<or> MAX_LINE_CHARS + 2 < length l)
      (splitlines (''0.0.0.0 ads.example'' @ [CHR 0x0D, CHR 0x0A]))"
    by (simp only:) (simp add: MAX_LINE_CHARS_def)
qed code_simp

text \<open>The loopback guard of the hosts parser looks at the name before its dots are stripped.\<close>

lemma hosts_noise_with_dot:
  "lower ''localhost.localdomain.'' \<notin> set HOSTS_NOISE \<and>
   normalize_domain ''localhost.localdomain.'' = Some ''localhost.localdomain'' \<and> ''localhost.localdomain'' \<in> set HOSTS_NOISE"
proof -
  have d: "domain_text ''localhost.localdomain.'' = ''localhost.localdomain''"
    and l: "split_on CHR ''.'' ''localhost.localdomain'' = [''localhost'', ''localdomain'']"
    and r: "LABEL_RE ''localhost''" "LABEL_RE ''localdomain''" "\<not> is_digit CHR ''l''"
    and n: "lower ''localhost.localdomain.'' = ''localhost.localdomain.''" by code_simp+
  show ?thesis using d l r n by (simp add: normalize_domain_Some MAX_DOMAIN_LEN_def HOSTS_NOISE_def)
qed

end
