(* ===== verification/Feeds_Registry.thy ===== *)
theory Feeds_Registry
  imports Feeds_Parsers
begin

text \<open>
  The feed registry (\<open>homesoc/feeds/registry.py\<close>): the signature cache over the files on disk,
  the search of the KEV catalogue, vendor lookup by MAC prefix, list loading and the status rows.
  The filesystem is a map from feed names to files.
\<close>

section \<open>The feeds\<close>

datatype feed_kind = Kev | Epss | Oui | DomainList domain_format | IpDrop | IpFeodo

record feed_spec =
  fs_name :: str
  fs_url :: str
  fs_kind_name :: str
  fs_kind :: feed_kind
  fs_hours :: nat
  fs_enabled :: bool
  fs_max_bytes :: nat
  fs_gzip :: bool

definition spec :: "str \<Rightarrow> str \<Rightarrow> str \<Rightarrow> feed_kind \<Rightarrow> nat \<Rightarrow> bool \<Rightarrow> nat \<Rightarrow> bool \<Rightarrow> str \<times> feed_spec" where
  "spec n url kn k h en mx gz = (n, \<lparr>fs_name = n, fs_url = url, fs_kind_name = kn, fs_kind = k, fs_hours = h, fs_enabled = en,
     fs_max_bytes = mx, fs_gzip = gz\<rparr>)"

definition MB :: nat where "MB = 1024 * 1024"

definition FEEDS :: "(str, feed_spec) dict" where
  "FEEDS =
     [spec ''kev'' ''https://www.cisa.gov/sites/default/files/feeds/known_exploited_vulnerabilities.json''
        ''kev'' Kev 6 True (16 * MB) False,
      spec ''epss'' ''https://epss.empiricalsecurity.com/epss_scores-current.csv.gz''
        ''epss'' Epss 24 True (32 * MB) True,
      spec ''oui'' ''https://www.wireshark.org/download/automated/data/manuf''
        ''oui'' Oui 168 True (16 * MB) False,
      spec ''oisd_small'' ''https://small.oisd.nl''
        ''domains'' (DomainList Adblock) 12 True 0 False,
      spec ''oisd_big'' ''https://big.oisd.nl''
        ''domains'' (DomainList Adblock) 12 False 0 False,
      spec ''hagezi_pro'' ''https://raw.githubusercontent.com/hagezi/dns-blocklists/main/wildcard/pro-onlydomains.txt''
        ''domains'' (DomainList Wildcard) 12 True 0 False,
      spec ''stevenblack'' ''https://raw.githubusercontent.com/StevenBlack/hosts/master/hosts''
        ''hosts'' (DomainList Hosts) 24 False 0 False,
      spec ''adguard_dns'' ''https://adguardteam.github.io/HostlistsRegistry/assets/filter_1.txt''
        ''adblock'' (DomainList Adblock) 12 False 0 False,
      spec ''urlhaus'' ''https://urlhaus.abuse.ch/downloads/hostfile/''
        ''hosts'' (DomainList Hosts) 6 True 0 False,
      spec ''urlhaus_filter'' ''https://malware-filter.gitlab.io/malware-filter/urlhaus-filter-hosts.txt''
        ''hosts'' (DomainList Hosts) 6 True 0 False,
      spec ''threatfox'' ''https://threatfox.abuse.ch/downloads/hostfile/''
        ''hosts'' (DomainList Hosts) 6 True 0 False,
      spec ''phishing_army'' ''https://phishing.army/download/phishing_army_blocklist.txt''
        ''domains'' (DomainList Domains) 6 True 0 False,
      spec ''openphish'' ''https://openphish.com/feed.txt''
        ''domains'' (DomainList Urls) 6 True 0 False,
      spec ''feodo_ips'' ''https://feodotracker.abuse.ch/downloads/ipblocklist.json''
        ''ip'' IpFeodo 6 True (8 * MB) False,
      spec ''spamhaus_drop'' ''https://www.spamhaus.org/drop/drop.txt''
        ''ip'' IpDrop 24 True 0 False]"

definition DOMAIN_KINDS :: "str set" where "DOMAIN_KINDS = {''hosts'', ''domains'', ''adblock''}"
definition IP_KINDS :: "str set" where "IP_KINDS = {''ip''}"

text \<open>The tighter of a feed's own cap and the configured one; 0 stands for no cap.\<close>

definition size_cap :: "feed_spec option \<Rightarrow> nat option \<Rightarrow> nat option" where
  "size_cap sp configured =
     (let caps = filter (\<lambda>c. 0 < c)
            [case sp of None \<Rightarrow> 0 | Some s \<Rightarrow> fs_max_bytes s, case configured of None \<Rightarrow> 0 | Some c \<Rightarrow> c]
      in if caps = [] then None else Some (Min (set caps)))"

section \<open>The signature cache\<close>

text \<open>
  A file is its modification stamp, its size and its content; a value is cached under
  \<open>(mtime, size)\<close>, \<open>None\<close> when the file is missing. \<open>loader\<close> answers \<open>None\<close> where
  reading or parsing raises.
\<close>

record disk_file =
  df_mtime :: int
  df_size :: nat
  df_text :: str

type_synonym 'v feed_cache = "(str, (int \<times> nat) option \<times> 'v) dict"

definition signature :: "disk_file option \<Rightarrow> (int \<times> nat) option" where
  "signature f = map_option (\<lambda>f. (df_mtime f, df_size f)) f"

definition fresh_value :: "str \<Rightarrow> disk_file option \<Rightarrow> (str \<Rightarrow> 'v option) \<Rightarrow> 'v \<Rightarrow> 'v" where
  "fresh_value name file loader nodata = (case file of
       None \<Rightarrow> nodata
     | Some f \<Rightarrow>
         (case size_cap (dget FEEDS name) None of
            Some cap \<Rightarrow> if cap < df_size f then nodata
              else (case loader (df_text f) of None \<Rightarrow> nodata | Some v \<Rightarrow> v)
          | None \<Rightarrow> (case loader (df_text f) of None \<Rightarrow> nodata | Some v \<Rightarrow> v)))"

definition cached :: "str \<Rightarrow> disk_file option \<Rightarrow> (str \<Rightarrow> 'v option) \<Rightarrow> 'v \<Rightarrow> 'v feed_cache \<Rightarrow> 'v \<times> 'v feed_cache" where
  "cached name file loader nodata cache =
     (let sig = signature file; miss = (let v = fresh_value name file loader nodata in (v, dset name (sig, v) cache))
      in case dget cache name of
        Some (s, v) \<Rightarrow> if s = sig then (v, cache) else miss
      | None \<Rightarrow> miss)"

definition clear_cache :: "str option \<Rightarrow> 'v feed_cache \<Rightarrow> 'v feed_cache" where
  "clear_cache name cache = (case name of None \<Rightarrow> [] | Some n \<Rightarrow> ddel n cache)"

section \<open>Searching the KEV catalogue\<close>

definition PRODUCT_ALIASES :: "(str, str list) dict" where
  "PRODUCT_ALIASES =
     [(''httpd'', [''http server'', ''apache http server'']), (''apache httpd'', [''http server'', ''apache http server'']),
      (''apache'', [''http server'']), (''iis'', [''internet information services'', ''iis'']),
      (''microsoft iis'', [''internet information services'']),
      (''ms-wbt-server'', [''remote desktop services'', ''windows'']), (''rdp'', [''remote desktop services'']),
      (''microsoft-ds'', [''windows'', ''smb'']), (''smb'', [''windows'', ''server message block'']),
      (''ssh'', [''openssh'']), (''openssh'', [''openssh'']), (''mysql'', [''mysql'', ''mysql server'']),
      (''mariadb'', [''mariadb'', ''mariadb server'']), (''postgresql'', [''postgresql'']),
      (''exchange'', [''exchange server'']), (''sharepoint'', [''sharepoint server'', ''sharepoint'']),
      (''vcenter'', [''vcenter server'']), (''esxi'', [''esxi'']),
      (''confluence'', [''confluence server and data center'', ''confluence data center and server'', ''confluence'']),
      (''jira'', [''jira server and data center'', ''jira'']), (''gitlab'', [''gitlab ce/ee'', ''gitlab'']),
      (''jenkins'', [''jenkins'']), (''tomcat'', [''tomcat'']), (''webmin'', [''webmin'']), (''openwrt'', [''openwrt'']),
      (''dd-wrt'', [''dd-wrt'']), (''nginx'', [''nginx''])]"

text \<open>Lowercase runs of letters and digits (\<open>_NON_ALNUM.sub(' ', ...).split()\<close>).\<close>

definition tokens :: "str \<Rightarrow> str list" where
  "tokens value = split_ws (map (\<lambda>c. if is_lower c \<or> is_digit c then c else CHR '' '') (lower value))"

definition matches :: "str list \<Rightarrow> str list \<Rightarrow> bool" where
  "matches query target \<longleftrightarrow> query \<noteq> [] \<and> target \<noteq> [] \<and> (query = target \<or> set query \<subseteq> set target)"

definition is_vendor_word_only :: "str list \<Rightarrow> str list \<Rightarrow> str list \<Rightarrow> bool" where
  "is_vendor_word_only query e_vend e_prod \<longleftrightarrow>
     query \<noteq> [] \<and> e_vend \<noteq> [] \<and> set query \<subseteq> set e_vend \<and> set query \<noteq> set e_prod"

definition entry_field :: "kev_entry \<Rightarrow> str \<Rightarrow> str" where
  "entry_field e k = (case dget (kev_fields e) k of None \<Rightarrow> [] | Some v \<Rightarrow> v)"

definition search_candidates :: "str \<Rightarrow> str list list" where
  "search_candidates product =
     (let p = tokens product
      in if p = [] then []
         else p # map tokens (case dget PRODUCT_ALIASES (join_with CHR '' '' p) of None \<Rightarrow> [] | Some as \<Rightarrow> as))"

definition entry_hit :: "str list list \<Rightarrow> str list \<Rightarrow> kev_entry \<Rightarrow> bool" where
  "entry_hit candidates v_tokens e =
     (let e_prod = tokens (entry_field e ''product''); e_vend = tokens (entry_field e ''vendorProject'')
      in (e_prod \<noteq> [] \<or> e_vend \<noteq> []) \<and>
         list_ex (\<lambda>cand. cand \<noteq> [] \<and> \<not> is_vendor_word_only cand e_vend e_prod \<and>
            (matches cand e_prod \<or> matches cand (e_vend @ e_prod))) candidates \<and>
         (v_tokens = [] \<or> matches v_tokens e_vend \<or> matches e_vend v_tokens \<or> matches v_tokens e_prod))"

definition kev_search :: "kev_entry list \<Rightarrow> str \<Rightarrow> str \<Rightarrow> kev_entry list" where
  "kev_search entries vendor product =
     (let cs = search_candidates product
      in if cs = [] then [] else filter (entry_hit cs (tokens vendor)) entries)"

text \<open>\<open>KevCatalog.by_cve\<close>: the last entry of each id.\<close>

definition by_cve :: "kev_entry list \<Rightarrow> (str, kev_entry) dict" where
  "by_cve entries = fold (\<lambda>e d. dset (entry_field e ''cveID'') e d) (filter (\<lambda>e. entry_field e ''cveID'' \<noteq> []) entries) []"

section \<open>Vendor lookup\<close>

definition mac_hex :: "str \<Rightarrow> str option" where
  "mac_hex mac =
     (if mac = [] then None
      else let h = upper (filter is_hex mac) in if length h < 6 \<or> 12 < length h then None else Some h)"

definition vendor_keys :: "str \<Rightarrow> str list" where
  "vendor_keys h =
     (if 9 \<le> length h then opt_list (normalize_oui_prefix (take 9 h @ ''0/36'')) else []) @
     (if 7 \<le> length h then opt_list (normalize_oui_prefix (take 7 h @ ''0/28'')) else []) @
     [colon_pairs (take 6 h)]"

definition lookup_vendor :: "(str, str) dict \<Rightarrow> str \<Rightarrow> str option" where
  "lookup_vendor table mac = (case mac_hex mac of
       None \<Rightarrow> None
     | Some h \<Rightarrow> if table = [] then None
         else first_some (\<lambda>k. case dget table k of Some v \<Rightarrow> if v = [] then None else Some v | None \<Rightarrow> None) (vendor_keys h))"

section \<open>Lists\<close>

definition load_blocklist :: "str \<Rightarrow> disk_file option \<Rightarrow> str list feed_cache \<Rightarrow> str list \<times> str list feed_cache" where
  "load_blocklist name file cache = (case dget FEEDS name of
       Some sp \<Rightarrow> (case fs_kind sp of
           DomainList f \<Rightarrow> cached name file (\<lambda>text. Some (domain_parser f (bounded_lines MAX_LINE_CHARS text))) [] cache
         | _ \<Rightarrow> ([], cache))
     | None \<Rightarrow> ([], cache))"

definition load_ipset :: "(str \<Rightarrow> json option) \<Rightarrow> str \<Rightarrow> disk_file option \<Rightarrow> v4net list feed_cache \<Rightarrow> v4net list \<times> v4net list feed_cache" where
  "load_ipset json_loads name file cache = (case dget FEEDS name of
       Some sp \<Rightarrow> (case fs_kind sp of
           IpDrop \<Rightarrow> cached name file (\<lambda>text. Some (parse_ips (bounded_lines MAX_LINE_CHARS text))) [] cache
         | IpFeodo \<Rightarrow> cached name file (\<lambda>text. Some (parse_feodo (json_loads text))) [] cache
         | _ \<Rightarrow> ([], cache))
     | None \<Rightarrow> ([], cache))"

definition load_kev :: "(str \<Rightarrow> json option) \<Rightarrow> (json \<Rightarrow> str) \<Rightarrow> disk_file option \<Rightarrow> kev_entry list feed_cache \<Rightarrow> kev_entry list \<times> kev_entry list feed_cache" where
  "load_kev json_loads py_str file cache =
     cached ''kev'' file (\<lambda>text. Some (snd (kev_document py_str (json_loads text)))) [] cache"

definition load_oui :: "disk_file option \<Rightarrow> (str, str) dict feed_cache \<Rightarrow> (str, str) dict \<times> (str, str) dict feed_cache" where
  "load_oui file cache = cached ''oui'' file (\<lambda>text. Some (parse_oui (bounded_lines MAX_LINE_CHARS text))) [] cache"

definition load_epss :: "(str list \<Rightarrow> str list option list) \<Rightarrow> (str \<Rightarrow> real option) \<Rightarrow> disk_file option \<Rightarrow> (str, real) dict feed_cache \<Rightarrow>
    (str, real) dict \<times> (str, real) dict feed_cache" where
  "load_epss csv_reader to_float file cache =
     cached ''epss'' file (\<lambda>text. Some (parse_epss_lines csv_reader to_float (bounded_lines MAX_LINE_CHARS text))) [] cache"

definition iter_domain_feeds :: "feed_spec list" where
  "iter_domain_feeds = filter (\<lambda>s. fs_kind_name s \<in> DOMAIN_KINDS) (map snd FEEDS)"

end
