(* ===== verification/Feeds_Netguard.thy ===== *)
theory Feeds_Netguard
  imports Py_Net
begin

text \<open>
  The socket guard of outbound fetches (\<open>homesoc/feeds/netguard.py\<close>): which addresses are public,
  and the \<open>Watch\<close> that refuses connects and shuts every socket of a fetch down when its wall clock
  runs out.

  The operating system is the record \<open>handles\<close>: what a handle number is connected to, which handle a
  socket object owns, and the handles shut down so far.
\<close>

section \<open>Public addresses\<close>

definition NAT64_WKP :: "nat \<times> nat" where "NAT64_WKP = (groups [0x64, 0xff9b], 96)"
definition NAT64_LOCAL :: "nat \<times> nat" where "NAT64_LOCAL = (groups [0x64, 0xff9b, 1], 48)"
definition V4_COMPATIBLE :: "nat \<times> nat" where "V4_COMPATIBLE = (0, 96)"
definition SITE_LOCAL :: "nat \<times> nat" where "SITE_LOCAL = (groups [0xfec0], 10)"
definition TEREDO :: "nat \<times> nat" where "TEREDO = (groups [0x2001], 32)"
definition SIX_TO_FOUR :: "nat \<times> nat" where "SIX_TO_FOUR = (groups [0x2002], 16)"

definition in6 :: "nat \<Rightarrow> nat \<times> nat \<Rightarrow> bool" where
  "in6 a n = in_net 128 (fst n) (snd n) a"

definition v4_public :: "nat \<Rightarrow> bool" where
  "v4_public a \<longleftrightarrow> v4_is_global a \<and> \<not> v4_is_multicast a"

definition public_ip :: "ip \<Rightarrow> bool" where
  "public_ip x = (case x of
     V4 a \<Rightarrow> v4_public a
   | V6 a \<Rightarrow>
       (case v6_ipv4_mapped a of
          Some v \<Rightarrow> v4_public v
        | None \<Rightarrow>
            if in6 a NAT64_WKP then v4_public (a mod 2 ^ 32)
            else if in6 a SIX_TO_FOUR \<and> \<not> v4_public (a div 2 ^ 80 mod 2 ^ 32) then False
            else if \<not> in6 a SIX_TO_FOUR \<and> (in6 a V4_COMPATIBLE \<or> in6 a NAT64_LOCAL \<or> in6 a SITE_LOCAL \<or> in6 a TEREDO) then False
            else v6_is_global a \<and> \<not> v6_is_multicast a))"

definition is_public_ip :: "str \<Rightarrow> bool" where
  "is_public_ip value = (case ip_address (before CHR ''%'' value) of None \<Rightarrow> False | Some x \<Rightarrow> public_ip x)"

text \<open>The IPv4 addresses an address stands for: itself, the mapped one, or the one embedded for NAT64 or 6to4.\<close>

definition v4_behind :: "ip \<Rightarrow> nat set" where
  "v4_behind x = (case x of V4 a \<Rightarrow> {a}
   | V6 a \<Rightarrow> {v. v6_ipv4_mapped a = Some v} \<union> (if in6 a NAT64_WKP then {a mod 2 ^ 32} else {}) \<union>
       (if in6 a SIX_TO_FOUR then {a div 2 ^ 80 mod 2 ^ 32} else {}))"

lemma mapped_not_special: "v6_ipv4_mapped a = Some v \<Longrightarrow> \<not> in6 a NAT64_WKP \<and> \<not> in6 a SIX_TO_FOUR"
proof -
  assume "v6_ipv4_mapped a = Some v"
  then have a: "a div 2 ^ 32 = 0xffff" by (auto simp: v6_ipv4_mapped_def split: if_splits)
  moreover have "a div 2 ^ 112 = a div 2 ^ 32 div 2 ^ 80" by (simp add: div_mult2_eq [symmetric])
  ultimately have "a div 2 ^ 112 = 0" by simp
  then show ?thesis using a by (simp add: in6_def in_net_def NAT64_WKP_def SIX_TO_FOUR_def groups_def)
qed

lemma nat64_not_6to4: "in6 a NAT64_WKP \<Longrightarrow> \<not> in6 a SIX_TO_FOUR"
proof -
  assume "in6 a NAT64_WKP"
  then have "a div 2 ^ 32 = groups [0x64, 0xff9b] div 2 ^ 32" by (simp add: in6_def in_net_def NAT64_WKP_def)
  moreover have "a div 2 ^ 112 = a div 2 ^ 32 div 2 ^ 80" by (simp add: div_mult2_eq [symmetric])
  ultimately have "a div 2 ^ 112 = 0x64" by (simp add: groups_def)
  then show ?thesis by (simp add: in6_def in_net_def SIX_TO_FOUR_def groups_def)
qed

text \<open>
  An address the guard calls public reaches no private, shared, loopback, link-local or multicast IPv4
  address, however it is written.
\<close>

lemma public_behind:
  assumes "ip_address (before CHR ''%'' value) = Some x" and "is_public_ip value" and "v \<in> v4_behind x"
  shows "v4_is_global v \<and> \<not> v4_is_private v \<and> \<not> v4_is_multicast v"
proof -
  have "public_ip x" using assms(1,2) by (simp add: is_public_ip_def)
  then have "v4_public v"
    using assms(3) mapped_not_special nat64_not_6to4
    by (auto simp: public_ip_def v4_behind_def split: ip.splits option.splits if_splits)
  then show ?thesis by (simp add: v4_public_def v4_is_global_def)
qed

section \<open>The watch\<close>

type_synonym peer = "str \<times> nat"

record conn =
  cn_sock :: nat
  cn_fd :: nat
  cn_peer :: peer

record handles =
  os_peer :: "(nat, peer) dict"
  os_fileno :: "(nat, nat) dict"
  os_shut :: "nat list"

record watch =
  wt_check :: "(str \<Rightarrow> bool) option"
  wt_expired :: bool
  wt_allowed :: "str list"
  wt_connected :: "conn list"
  wt_adopted :: "nat list"
  wt_timer :: bool
  wt_depth :: nat

definition new_watch :: "(str \<Rightarrow> bool) option \<Rightarrow> watch" where
  "new_watch check = \<lparr>wt_check = check, wt_expired = False, wt_allowed = [], wt_connected = [], wt_adopted = [],
     wt_timer = False, wt_depth = 0\<rparr>"

definition enter :: "real \<Rightarrow> watch \<Rightarrow> watch" where
  "enter remaining w =
     (let w = (if wt_depth w = 0 then (if max 0 remaining \<le> 0 then w\<lparr>wt_expired := True\<rparr> else w\<lparr>wt_timer := True\<rparr>) else w)
      in w\<lparr>wt_depth := wt_depth w + 1\<rparr>)"

definition leave :: "watch \<Rightarrow> watch" where
  "leave w = (let w = w\<lparr>wt_depth := wt_depth w - 1\<rparr>
     in if 0 < wt_depth w then w else w\<lparr>wt_timer := False, wt_connected := [], wt_adopted := []\<rparr>)"

definition allow_address :: "str \<Rightarrow> watch \<Rightarrow> watch" where
  "allow_address address w = w\<lparr>wt_allowed := before CHR ''%'' address # wt_allowed w\<rparr>"

text \<open>Shutting the handle a socket object owns; the last resort of \<open>_abort\<close> goes through the handle number.\<close>

definition shut_handle :: "nat \<Rightarrow> handles \<Rightarrow> handles" where
  "shut_handle fd os = os\<lparr>os_shut := fd # os_shut os\<rparr>"

definition shutdown :: "nat \<Rightarrow> handles \<Rightarrow> handles" where
  "shutdown sock os = (case dget (os_fileno os) sock of None \<Rightarrow> os | Some fd \<Rightarrow> shut_handle fd os)"

definition abort_conn :: "conn \<Rightarrow> handles \<Rightarrow> handles" where
  "abort_conn c os =
     (if dget (os_fileno os) (cn_sock c) = Some (cn_fd c) then shutdown (cn_sock c) os
      else if dget (os_peer os) (cn_fd c) = Some (cn_peer c) then shut_handle (cn_fd c) os else os)"

definition adopt :: "nat \<Rightarrow> watch \<Rightarrow> handles \<Rightarrow> watch \<times> handles" where
  "adopt sock w os = (w\<lparr>wt_adopted := wt_adopted w @ [sock]\<rparr>, if wt_expired w then shutdown sock os else os)"

datatype verdict = TooLate | Blocked | Permitted

text \<open>\<open>_on_connect\<close>, first half: refused after expiry, and for an address neither allowed nor accepted by the check.\<close>

definition connect_verdict :: "str \<Rightarrow> watch \<Rightarrow> verdict" where
  "connect_verdict host w =
     (if wt_expired w then TooLate
      else case wt_check w of
        None \<Rightarrow> Permitted
      | Some ok \<Rightarrow> if before CHR ''%'' host \<in> set (wt_allowed w) \<or> ok host then Permitted else Blocked)"

text \<open>Second half, under the lock: remembered, and shut at once when the timer has fired in between.\<close>

definition register_conn :: "conn \<Rightarrow> watch \<Rightarrow> handles \<Rightarrow> watch \<times> handles" where
  "register_conn c w os = (w\<lparr>wt_connected := wt_connected w @ [c]\<rparr>, if wt_expired w then abort_conn c os else os)"

definition fire :: "watch \<Rightarrow> handles \<Rightarrow> watch \<times> handles" where
  "fire w os = (w\<lparr>wt_expired := True\<rparr>, fold abort_conn (wt_connected w) (fold shutdown (wt_adopted w) os))"

lemma shut_handle_frame [simp]: "os_peer (shut_handle fd os) = os_peer os" "os_fileno (shut_handle fd os) = os_fileno os"
  "set (os_shut (shut_handle fd os)) = insert fd (set (os_shut os))"
  by (simp_all add: shut_handle_def)

lemma shutdown_frame [simp]: "os_peer (shutdown sock os) = os_peer os" "os_fileno (shutdown sock os) = os_fileno os"
  by (simp_all add: shutdown_def split: option.split)

lemma abort_frame [simp]: "os_peer (abort_conn c os) = os_peer os" "os_fileno (abort_conn c os) = os_fileno os"
  by (simp_all add: abort_conn_def)

definition still_its_own :: "handles \<Rightarrow> conn \<Rightarrow> bool" where
  "still_its_own os c \<longleftrightarrow> dget (os_fileno os) (cn_sock c) = Some (cn_fd c) \<or> dget (os_peer os) (cn_fd c) = Some (cn_peer c)"

lemma shut_shutdown: "set (os_shut (shutdown sock os)) = set (os_shut os) \<union> {fd. dget (os_fileno os) sock = Some fd}"
  by (auto simp: shutdown_def split: option.splits)

lemma shut_abort: "set (os_shut (abort_conn c os)) = set (os_shut os) \<union> (if still_its_own os c then {cn_fd c} else {})"
  by (auto simp: abort_conn_def still_its_own_def shut_shutdown)

lemma fold_shutdown:
  "set (os_shut (fold shutdown ss os)) = set (os_shut os) \<union> {fd. \<exists>s\<in>set ss. dget (os_fileno os) s = Some fd}
   \<and> os_peer (fold shutdown ss os) = os_peer os \<and> os_fileno (fold shutdown ss os) = os_fileno os"
  by (induction ss arbitrary: os) (auto simp: shut_shutdown)

lemma fold_abort:
  "set (os_shut (fold abort_conn cs os)) = set (os_shut os) \<union> {cn_fd c | c. c \<in> set cs \<and> still_its_own os c}"
proof (induction cs arbitrary: os)
  case (Cons c cs)
  have same: "still_its_own (abort_conn c os) = still_its_own os" by (simp add: still_its_own_def fun_eq_iff)
  show ?case using Cons [of "abort_conn c os"] by (auto simp: same shut_abort)
qed simp

text \<open>
  When the wall clock runs out, exactly these handles are shut: those the adopted sockets own, and those of
  the connections the fetch opened that are still its own, be it through the socket or, once TLS took the
  handle over, by still being connected to the same peer. Nothing connects any more.
\<close>

lemma fire_shuts_exactly:
  assumes "fire w os = (w', os')"
  shows "set (os_shut os') = set (os_shut os) \<union> {fd. \<exists>s\<in>set (wt_adopted w). dget (os_fileno os) s = Some fd}
      \<union> {cn_fd c | c. c \<in> set (wt_connected w) \<and> still_its_own os c}"
    and "connect_verdict host w' = TooLate"
proof -
  have os': "os' = fold abort_conn (wt_connected w) (fold shutdown (wt_adopted w) os)" and w': "wt_expired w'"
    using assms by (auto simp: fire_def)
  have "still_its_own (fold shutdown (wt_adopted w) os) = still_its_own os"
    using fold_shutdown [of "wt_adopted w" os] by (simp add: still_its_own_def fun_eq_iff)
  then show "set (os_shut os') = set (os_shut os) \<union> {fd. \<exists>s\<in>set (wt_adopted w). dget (os_fileno os) s = Some fd}
      \<union> {cn_fd c | c. c \<in> set (wt_connected w) \<and> still_its_own os c}"
    using fold_shutdown [of "wt_adopted w" os] by (simp add: os' fold_abort)
  show "connect_verdict host w' = TooLate" using w' by (simp add: connect_verdict_def)
qed

section \<open>A connection made while the clock runs out\<close>

text \<open>
  The timer runs in its own thread: a connect may be registered, or a socket adopted, before or after it
  fires. What a handle is connected to does not change in between.
\<close>

datatype guard_event = Register conn | Adopted nat | Fires

fun guard_step :: "guard_event \<Rightarrow> watch \<times> handles \<Rightarrow> watch \<times> handles" where
  "guard_step (Register c) (w, os) = register_conn c w os"
| "guard_step (Adopted s) (w, os) = adopt s w os"
| "guard_step Fires (w, os) = fire w os"

definition own_handles :: "handles \<Rightarrow> guard_event list \<Rightarrow> nat set" where
  "own_handles os es = {fd. \<exists>s. Adopted s \<in> set es \<and> dget (os_fileno os) s = Some fd}
     \<union> {cn_fd c | c. Register c \<in> set es \<and> still_its_own os c}"

lemma own_handles_snoc:
  "own_handles os (es @ [Register c]) = own_handles os es \<union> (if still_its_own os c then {cn_fd c} else {})"
  "own_handles os (es @ [Adopted s]) = own_handles os es \<union> {fd. dget (os_fileno os) s = Some fd}"
  "own_handles os (es @ [Fires]) = own_handles os es"
  by (auto simp: own_handles_def)

lemma guard_run:
  assumes "fold guard_step es (new_watch check, os) = (w, os')"
  shows "set (wt_connected w) = {c. Register c \<in> set es} \<and> set (wt_adopted w) = {s. Adopted s \<in> set es} \<and> (wt_expired w \<longleftrightarrow> Fires \<in> set es)
    \<and> still_its_own os' = still_its_own os \<and> os_fileno os' = os_fileno os
    \<and> set (os_shut os') = set (os_shut os) \<union> (if Fires \<in> set es then own_handles os es else {})"
  using assms
proof (induction es arbitrary: w os' rule: rev_induct)
  case Nil
  then show ?case by (auto simp: new_watch_def)
next
  case (snoc e es)
  obtain w1 os1 where run: "fold guard_step es (new_watch check, os) = (w1, os1)" by fastforce
  note ih = snoc.IH [OF run]
  have step: "guard_step e (w1, os1) = (w, os')" using snoc.prems run by simp
  show ?case
  proof (cases e)
    case (Register c)
    have "still_its_own (abort_conn c os1) = still_its_own os1" by (simp add: still_its_own_def fun_eq_iff)
    then show ?thesis using step ih Register by (auto simp: register_conn_def shut_abort own_handles_snoc split: if_splits)
  next
    case (Adopted s)
    have "still_its_own (shutdown s os1) = still_its_own os1" by (simp add: still_its_own_def fun_eq_iff)
    then show ?thesis using step ih Adopted by (auto simp: adopt_def shut_shutdown own_handles_snoc split: if_splits)
  next
    case Fires
    have frame: "os_peer (fold abort_conn cs x) = os_peer x \<and> os_fileno (fold abort_conn cs x) = os_fileno x" for cs x
      by (induction cs arbitrary: x) simp_all
    have "fire w1 os1 = (w, os')" using step Fires by simp
    then have "set (os_shut os') = set (os_shut os1) \<union> {fd. \<exists>s\<in>set (wt_adopted w1). dget (os_fileno os1) s = Some fd}
      \<union> {cn_fd c | c. c \<in> set (wt_connected w1) \<and> still_its_own os1 c}" by (rule fire_shuts_exactly)
    then have shut: "set (os_shut os') = set (os_shut os) \<union> own_handles os es"
      using ih by (auto simp: own_handles_def)
    have same: "os_peer os' = os_peer os1 \<and> os_fileno os' = os_fileno os1" and w: "w = w1\<lparr>wt_expired := True\<rparr>"
      using step Fires frame fold_shutdown [of "wt_adopted w1" os1] by (auto simp: fire_def)
    have "still_its_own os' = still_its_own os1" using same by (simp add: still_its_own_def fun_eq_iff)
    then have "still_its_own os' = still_its_own os" using ih by simp
    then show ?thesis using shut same w ih Fires by (auto simp: own_handles_snoc)
  qed
qed

text \<open>
  C32. Whether a connection is registered or a socket adopted before or after the wall clock runs out, in the
  end exactly the handles that are the fetch's own are shut down: none of them is missed, no handle that has
  become someone else's is touched, and nothing is shut while there is time.
\<close>

theorem expired_fetch_is_cut:
  "set (os_shut (snd (fold guard_step es (new_watch check, os)))) =
     set (os_shut os) \<union> (if Fires \<in> set es then own_handles os es else {})"
proof -
  obtain w os' where run: "fold guard_step es (new_watch check, os) = (w, os')" by fastforce
  from guard_run [OF this] show ?thesis by (simp add: run)
qed

end
