(* ===== verification/Feeds_Updater.thy ===== *)
theory Feeds_Updater
  imports Feeds_Registry Feeds_Netguard
begin

text \<open>
  The feed updater (\<open>homesoc/feeds/updater.py\<close>): which URLs may be requested, following redirects by
  hand, streaming a body under its caps, installing a list only when it is complete, the bookkeeping of
  successes and failures, the backoff, and \<open>update\<close> over all feeds.

  What the network, the clock and the libraries answer during one fetch is the record \<open>fetch_world\<close>:
  name resolution, the host urllib3 sees in a URL, the responses, \<open>urljoin\<close>, gzip, SHA-256 and the
  readings of the wall clock. Bodies are texts; stamps are whole seconds. The settings
  \<open>feeds.failures.<name>\<close> and \<open>feeds.error_since.<name>\<close>, which hold the text of a number and of a
  stamp, are the dictionaries of these values.
\<close>

definition FEED_MAX_SECONDS :: real where "FEED_MAX_SECONDS = 180"
definition MIN_THROUGHPUT :: real where "MIN_THROUGHPUT = 1024"
definition THROUGHPUT_GRACE :: real where "THROUGHPUT_GRACE = 30"
definition BACKOFF_MAX_HOURS :: int where "BACKOFF_MAX_HOURS = 24"
definition MAX_REDIRECTS :: nat where "MAX_REDIRECTS = 5"
definition REDIRECT_CODES :: "nat set" where "REDIRECT_CODES = {301, 302, 303, 307, 308}"
definition DEADLINE_LINES :: nat where "DEADLINE_LINES = 20000"

section \<open>URLs\<close>

text \<open>\<open>urlsplit\<close>: scheme, network location and whether \<open>port\<close> can be read.\<close>

definition url_text :: "str \<Rightarrow> str" where
  "url_text url = filter (\<lambda>c. code_of c \<notin> {9, 10, 13}) (lstrip_by is_c0_or_space url)"

definition url_scheme :: "str \<Rightarrow> str" where
  "url_scheme url = (let u = url_text url in if drop_scheme u = u then [] else lower (before CHR '':'' u))"

definition url_netloc :: "str \<Rightarrow> str" where
  "url_netloc url = (let r = drop_scheme (url_text url)
     in if prefix ''//'' r then takeWhile (\<lambda>c. c \<notin> {CHR ''/'', CHR ''?'', CHR ''#''}) (drop 2 r) else [])"

definition url_port_ok :: "str \<Rightarrow> bool" where
  "url_port_ok url =
     (let hi = after_last CHR ''@'' (url_netloc url);
          port = (if CHR ''['' \<in> set hi then after_first CHR '':'' (after_first CHR '']'' (after_first CHR ''['' hi)) else after_first CHR '':'' hi)
      in port = [] \<or> list_all is_digit port \<and> dec_val port \<le> 65535)"

definition url_char_ok :: "char \<Rightarrow> bool" where
  "url_char_ok c \<longleftrightarrow> 33 \<le> code_of c \<and> code_of c \<le> 126 \<and> c \<noteq> CHR 0x5C"

section \<open>The world of one fetch\<close>

text \<open>A body is its chunks with the elapsed time after each and whether the watch had expired by then.\<close>

record response =
  rs_status :: nat
  rs_location :: "str option"
  rs_length :: "str option"
  rs_etag :: "str option"
  rs_modified :: "str option"
  rs_chunks :: "(str \<times> real \<times> bool) list"
  rs_complete :: bool
  rs_late :: bool

datatype feed_error =
    BadCharacters | MalformedUrl | NotHttps | WithoutHost | Credentials | AmbiguousHost | NonPublicHost | CannotResolve
  | ResolvesNonPublic | Exceeded | RequestFailed | WithoutLocation | TooManyRedirects | NoLocalCopy | HttpStatus nat
  | DeclaredTooBig | DownloadTooBig | TooSlow | DownloadFailed | EmptyBody | UnexpectedGzip | InflateFailed | InflatedTooBig
  | InflatedEmpty | FileTooBig | ParseFailed | NoEntries | Crashed

record fetch_world =
  fw_client_host :: "str \<Rightarrow> str option option"
  fw_resolve :: "str \<Rightarrow> str list option"
  fw_get :: "nat \<Rightarrow> (str \<times> str) list \<Rightarrow> str \<Rightarrow> response option"
  fw_join :: "str \<Rightarrow> str \<Rightarrow> str option"
  fw_hop_late :: "nat \<Rightarrow> bool"
  fw_inflate :: "str \<Rightarrow> (str \<times> bool) list \<times> bool"
  fw_sha :: "str \<Rightarrow> str"
  fw_parse_late :: "nat \<Rightarrow> bool"
  fw_parse_raises :: bool
  fw_json :: "str \<Rightarrow> json option"
  fw_py_str :: "json \<Rightarrow> str"
  fw_csv :: "str list \<Rightarrow> str list option list"
  fw_float :: "str \<Rightarrow> real option"
  fw_parsed_late :: bool
  fw_replaced :: bool
  fw_sidecar :: bool
  fw_stamp :: int
  fw_mtime :: int
  fw_touch :: "int option"

text \<open>\<open>_check_hop\<close>: the host of an acceptable request target. \<open>Some None\<close>: urllib3 finds no host.\<close>

definition check_hop :: "fetch_world \<Rightarrow> str \<Rightarrow> feed_error + str" where
  "check_hop w url =
     (if url = [] \<or> \<not> list_all url_char_ok url then Inl BadCharacters
      else case (url_hostname url, url_port_ok url, fw_client_host w url) of
        (UrlError, _, _) \<Rightarrow> Inl MalformedUrl
      | (_, False, _) \<Rightarrow> Inl MalformedUrl
      | (_, _, None) \<Rightarrow> Inl MalformedUrl
      | (hostname, True, Some client) \<Rightarrow>
          if url_scheme url \<noteq> ''https'' then Inl NotHttps
          else (case hostname of
              Host host \<Rightarrow>
                if CHR ''@'' \<in> set (url_netloc url) then Inl Credentials
                else
                  (let bracket = (\<lambda>c. c = CHR ''['' \<or> c = CHR '']''); seen = (case client of Some c \<Rightarrow> c | None \<Rightarrow> [])
                   in if lower (rstrip_by bracket (lstrip_by bracket seen)) \<noteq> lower host then Inl AmbiguousHost
                      else if ip_address (before CHR ''%'' host) \<noteq> None \<and> \<not> is_public_ip host then Inl NonPublicHost
                      else Inr host)
            | _ \<Rightarrow> Inl WithoutHost))"

definition check_resolves_public :: "fetch_world \<Rightarrow> str \<Rightarrow> feed_error option" where
  "check_resolves_public w host = (case fw_resolve w host of
     None \<Rightarrow> Some CannotResolve
   | Some addrs \<Rightarrow> if list_all is_public_ip addrs then None else Some ResolvesNonPublic)"

text \<open>
  \<open>_open\<close>: at most \<open>MAX_REDIRECTS + 1\<close> requests; the second component lists the URLs requested. A
  \<open>Location\<close> that \<open>urljoin\<close> cannot join raises a \<open>ValueError\<close>, which \<open>update\<close> records as a crash.
\<close>

fun follow :: "fetch_world \<Rightarrow> (str \<times> str) list \<Rightarrow> nat \<Rightarrow> nat \<Rightarrow> str \<Rightarrow> str list \<Rightarrow> (feed_error + response) \<times> str list" where
  "follow w headers hop 0 url asked = (Inl TooManyRedirects, asked)"
| "follow w headers hop (Suc left) url asked =
     (case check_hop w url of
        Inl e \<Rightarrow> (Inl e, asked)
      | Inr host \<Rightarrow>
          (case check_resolves_public w host of
             Some e \<Rightarrow> (Inl e, asked)
           | None \<Rightarrow>
               (case fw_get w hop headers url of
                  None \<Rightarrow> (Inl (if fw_hop_late w hop then Exceeded else RequestFailed), asked @ [url])
                | Some r \<Rightarrow>
                    if rs_status r \<notin> REDIRECT_CODES
                    then (if fw_hop_late w hop then Inl Exceeded else Inr r, asked @ [url])
                    else (case rs_location r of
                        None \<Rightarrow> (Inl WithoutLocation, asked @ [url])
                      | Some l \<Rightarrow> if l = [] then (Inl WithoutLocation, asked @ [url])
                          else (case fw_join w url (strip l) of
                              None \<Rightarrow> (Inl Crashed, asked @ [url])
                            | Some target \<Rightarrow> if fw_hop_late w hop then (Inl Exceeded, asked @ [url])
                                else follow w headers (hop + 1) left target (asked @ [url]))))))"

definition open_url :: "fetch_world \<Rightarrow> (str \<times> str) list \<Rightarrow> str \<Rightarrow> (feed_error + response) \<times> str list" where
  "open_url w headers url = follow w headers 0 (MAX_REDIRECTS + 1) url []"

section \<open>The body\<close>

fun copy_chunks :: "nat \<Rightarrow> real \<Rightarrow> str \<Rightarrow> (str \<times> real \<times> bool) list \<Rightarrow> feed_error + str" where
  "copy_chunks max_bytes seconds got [] = Inr got"
| "copy_chunks max_bytes seconds got ((chunk, elapsed, expired) # rest) =
     (let got = got @ chunk
      in if chunk \<noteq> [] \<and> max_bytes < length got then Inl DownloadTooBig
         else if expired \<or> seconds < elapsed then Inl Exceeded
         else if THROUGHPUT_GRACE < elapsed \<and> real (length got) / elapsed < MIN_THROUGHPUT then Inl TooSlow
         else copy_chunks max_bytes seconds got rest)"

definition stream_to_tmp :: "nat \<Rightarrow> real \<Rightarrow> response \<Rightarrow> feed_error + str" where
  "stream_to_tmp max_bytes seconds r =
     (case copy_chunks max_bytes seconds [] (rs_chunks r) of
        Inl e \<Rightarrow> Inl e
      | Inr body \<Rightarrow>
          if rs_late r then Inl Exceeded
          else if \<not> rs_complete r then Inl DownloadFailed
          else if body = [] then Inl EmptyBody else Inr body)"

definition looks_gzip :: "str \<Rightarrow> bool" where
  "looks_gzip body \<longleftrightarrow> take 2 body = [CHR 0x1F, CHR 0x8B]"

fun copy_inflated :: "nat \<Rightarrow> str \<Rightarrow> (str \<times> bool) list \<Rightarrow> bool \<Rightarrow> feed_error + str" where
  "copy_inflated max_bytes got [] whole = (if whole then Inr got else Inl InflateFailed)"
| "copy_inflated max_bytes got ((chunk, late) # rest) whole =
     (if chunk = [] then Inr got
      else if max_bytes < length (got @ chunk) then Inl InflatedTooBig
      else if late then Inl Exceeded
      else copy_inflated max_bytes (got @ chunk) rest whole)"

definition inflate_tmp :: "fetch_world \<Rightarrow> nat \<Rightarrow> str \<Rightarrow> feed_error + str" where
  "inflate_tmp w max_bytes body =
     (case copy_inflated max_bytes [] (fst (fw_inflate w body)) (snd (fw_inflate w body)) of
        Inl e \<Rightarrow> Inl e
      | Inr inflated \<Rightarrow> if inflated = [] then Inl InflatedEmpty else Inr inflated)"

section \<open>Counting entries\<close>

text \<open>A file opened in text mode: every line ending reads as one line feed.\<close>

fun universal_newlines :: "str \<Rightarrow> str" where
  "universal_newlines [] = []"
| "universal_newlines (c # cs) =
     (if c = CHR 0x0D then CHR 0x0A # (case cs of d # ds \<Rightarrow> if d = CHR 0x0A then universal_newlines ds else universal_newlines cs | [] \<Rightarrow> [])
      else c # universal_newlines cs)"

text \<open>The batches of \<open>_count_lines_parsed\<close>; the clock is read after each full one.\<close>

function count_batches :: "(str list \<Rightarrow> nat) \<Rightarrow> (nat \<Rightarrow> bool) \<Rightarrow> nat \<Rightarrow> nat \<Rightarrow> str list \<Rightarrow> feed_error + nat" where
  "count_batches parse late i n ls =
     (if length ls < DEADLINE_LINES then Inr (n + (if ls = [] then 0 else parse ls))
      else if late i then Inl Exceeded
      else count_batches parse late (i + 1) (n + parse (take DEADLINE_LINES ls)) (drop DEADLINE_LINES ls))"
  by pat_completeness auto
termination
  by (relation "measure (\<lambda>(parse, late, i, n, ls). length ls)") (auto simp: DEADLINE_LINES_def)

declare count_batches.simps [simp del]

definition count_lines_parsed :: "fetch_world \<Rightarrow> (str list \<Rightarrow> nat) \<Rightarrow> str \<Rightarrow> feed_error + nat" where
  "count_lines_parsed w parse file_text =
     count_batches parse (fw_parse_late w) 0 0 (bounded_lines MAX_LINE_CHARS (universal_newlines file_text))"

text \<open>\<open>_deadline_lines\<close> under the EPSS reader, which reads to the end: the clock is read at every full batch.\<close>

definition deadline_lines :: "fetch_world \<Rightarrow> str list \<Rightarrow> feed_error + str list" where
  "deadline_lines w ls = (if list_ex (fw_parse_late w) [0..<length ls div DEADLINE_LINES] then Inl Exceeded else Inr ls)"

definition parsed_entries :: "fetch_world \<Rightarrow> feed_spec \<Rightarrow> str \<Rightarrow> feed_error + nat" where
  "parsed_entries w sp file_text = (case fs_kind sp of
       DomainList f \<Rightarrow> count_lines_parsed w (\<lambda>ls. length (domain_parser f ls)) file_text
     | Oui \<Rightarrow> count_lines_parsed w (\<lambda>ls. length (parse_oui ls)) file_text
     | IpDrop \<Rightarrow> count_lines_parsed w (\<lambda>ls. length (parse_ips ls)) file_text
     | Epss \<Rightarrow> (case deadline_lines w (bounded_lines MAX_LINE_CHARS file_text) of
           Inl e \<Rightarrow> Inl e
         | Inr ls \<Rightarrow> Inr (length (parse_epss_lines (fw_csv w) (fw_float w) ls)))
     | IpFeodo \<Rightarrow> Inr (length (parse_feodo (fw_json w (universal_newlines file_text))))
     | Kev \<Rightarrow> Inr (length (parse_kev (fw_py_str w) (fw_json w (universal_newlines file_text)))))"

definition count_entries :: "fetch_world \<Rightarrow> feed_spec \<Rightarrow> nat \<Rightarrow> str \<Rightarrow> feed_error + nat" where
  "count_entries w sp max_bytes file_text =
     (if (case size_cap (Some sp) (Some max_bytes) of None \<Rightarrow> False | Some cap \<Rightarrow> cap < length file_text) then Inl FileTooBig
      else if fw_parse_raises w then Inl ParseFailed
      else (case parsed_entries w sp file_text of
          Inl e \<Rightarrow> Inl e
        | Inr n \<Rightarrow> if fw_parsed_late w then Inl Exceeded else if n = 0 then Inl NoEntries else Inr n))"

section \<open>The store\<close>

datatype feed_state = Never | Ok | Failed

record feed_row =
  fr_url :: str
  fr_kind :: str
  fr_etag :: "str option"
  fr_modified :: "str option"
  fr_checked :: "int option"
  fr_updated :: "int option"
  fr_state :: feed_state
  fr_bytes :: "nat option"
  fr_entries :: "nat option"
  fr_error :: "feed_error option"
  fr_enabled :: bool

record feed_store =
  st_rows :: "(str, feed_row) dict"
  st_failures :: "(str, nat) dict"
  st_since :: "(str, int) dict"
  st_files :: "(str, disk_file) dict"
  st_digests :: "(str, str) dict"

definition set_row :: "str \<Rightarrow> (feed_row \<Rightarrow> feed_row) \<Rightarrow> feed_store \<Rightarrow> feed_store" where
  "set_row name f st = (case dget (st_rows st) name of
     None \<Rightarrow> st
   | Some r \<Rightarrow> st\<lparr>st_rows := dset name (f r) (st_rows st)\<rparr>)"

definition ensure_row :: "feed_spec \<Rightarrow> feed_store \<Rightarrow> feed_store" where
  "ensure_row sp st = (case dget (st_rows st) (fs_name sp) of
     None \<Rightarrow> st\<lparr>st_rows := dset (fs_name sp) \<lparr>fr_url = fs_url sp, fr_kind = fs_kind_name sp, fr_etag = None, fr_modified = None,
       fr_checked = None, fr_updated = None, fr_state = Never, fr_bytes = None, fr_entries = None, fr_error = None,
       fr_enabled = fs_enabled sp\<rparr> (st_rows st)\<rparr>
   | Some r \<Rightarrow> if fr_url r \<noteq> fs_url sp then set_row (fs_name sp) (\<lambda>r. r\<lparr>fr_url := fs_url sp, fr_kind := fs_kind_name sp\<rparr>) st else st)"

definition consecutive_failures :: "feed_store \<Rightarrow> str \<Rightarrow> nat" where
  "consecutive_failures st name = (case dget (st_failures st) name of None \<Rightarrow> 0 | Some n \<Rightarrow> n)"

definition error_since :: "feed_store \<Rightarrow> str \<Rightarrow> int option" where
  "error_since st name = dget (st_since st) name"

definition note_success :: "str \<Rightarrow> feed_store \<Rightarrow> feed_store" where
  "note_success name st = st\<lparr>st_since := ddel name (st_since st), st_failures := ddel name (st_failures st)\<rparr>"

definition mark_error :: "int \<Rightarrow> str \<Rightarrow> feed_error \<Rightarrow> feed_store \<Rightarrow> feed_store" where
  "mark_error now name e st =
     (let st = set_row name (\<lambda>r. r\<lparr>fr_state := Failed, fr_error := Some e, fr_checked := Some now\<rparr>) st;
          st = (if error_since st name = None then st\<lparr>st_since := dset name now (st_since st)\<rparr> else st)
      in st\<lparr>st_failures := dset name (consecutive_failures st name + 1) (st_failures st)\<rparr>)"

text \<open>
  \<open>backoff_until\<close>: nothing, a stamp, or the \<open>OverflowError\<close> of \<open>1.0 * 2 ** (failures - 1)\<close>, whose
  integer no longer fits a float from \<open>2 ** 1024\<close> on.
\<close>

datatype backoff = NoBackoff | BackoffUntil int | FloatOverflow

definition backoff_hours :: "nat \<Rightarrow> int" where
  "backoff_hours failures = min BACKOFF_MAX_HOURS (2 ^ (failures - 1))"

definition backoff_until :: "feed_store \<Rightarrow> str \<Rightarrow> backoff" where
  "backoff_until st name =
     (let failures = consecutive_failures st name
      in if failures = 0 then NoBackoff
         else case dget (st_rows st) name of
           None \<Rightarrow> NoBackoff
         | Some r \<Rightarrow> (case fr_checked r of
             None \<Rightarrow> NoBackoff
           | Some t \<Rightarrow> if 1024 \<le> failures - 1 then FloatOverflow else BackoffUntil (t + 3600 * backoff_hours failures)))"

definition THREATINTEL :: "str set" where
  "THREATINTEL = {''urlhaus'', ''urlhaus_filter'', ''threatfox'', ''phishing_army'', ''openphish'', ''feodo_ips'', ''spamhaus_drop''}"

text \<open>\<open>cfg\<close>: not configured, a value \<open>int()\<close> refuses, or a number.\<close>

definition hours_key :: "feed_spec \<Rightarrow> str" where
  "hours_key sp =
     (if fs_kind_name sp = ''kev'' then ''feeds.kev_hours''
      else if fs_kind_name sp = ''epss'' then ''feeds.epss_hours''
      else if fs_kind_name sp = ''oui'' then ''feeds.oui_hours''
      else if fs_name sp \<in> THREATINTEL then ''feeds.threatintel_hours''
      else ''feeds.blocklists_hours'')"

definition effective_hours :: "(str \<Rightarrow> int option option) \<Rightarrow> feed_spec \<Rightarrow> int" where
  "effective_hours cfg sp = (case cfg (hours_key sp) of
     None \<Rightarrow> max 1 (int (fs_hours sp))
   | Some None \<Rightarrow> int (fs_hours sp)
   | Some (Some h) \<Rightarrow> max 1 h)"

definition is_stale :: "feed_store \<Rightarrow> str \<Rightarrow> int \<Rightarrow> real \<Rightarrow> bool" where
  "is_stale st name hours now =
     (if dget (st_files st) name = None then True
      else case dget (st_rows st) name of
        None \<Rightarrow> True
      | Some r \<Rightarrow> (case fr_updated r of None \<Rightarrow> True | Some t \<Rightarrow> real_of_int (3600 * hours) < now - real_of_int t))"

section \<open>One fetch\<close>

datatype fetch_result = Updated | NotModified

definition USER_AGENT :: str where "USER_AGENT = ''HomeSOC/0.1 (+https://github.com/homesoc; local security monitor)''"

text \<open>Validators are sent only for a file that is there, and only when they are not blank.\<close>

definition request_headers :: "feed_store \<Rightarrow> str \<Rightarrow> (str \<times> str) list" where
  "request_headers st name =
     [(''User-Agent'', USER_AGENT), (''Accept'', ''*/*'')] @
     (case (dget (st_files st) name, dget (st_rows st) name) of
        (Some _, Some r) \<Rightarrow>
          (case fr_etag r of Some t \<Rightarrow> if t = [] then [] else [(''If-None-Match'', t)] | None \<Rightarrow> []) @
          (case fr_modified r of Some t \<Rightarrow> if t = [] then [] else [(''If-Modified-Since'', t)] | None \<Rightarrow> [])
      | _ \<Rightarrow> [])"

definition capped :: "feed_spec \<Rightarrow> nat \<Rightarrow> nat" where
  "capped sp max_bytes = (case size_cap (Some sp) (Some max_bytes) of None \<Rightarrow> max_bytes | Some c \<Rightarrow> c)"

text \<open>Download, inflate and count: the text to install and its number of entries.\<close>

definition download :: "fetch_world \<Rightarrow> feed_spec \<Rightarrow> nat \<Rightarrow> real \<Rightarrow> response \<Rightarrow> feed_error + str \<times> nat" where
  "download w sp cap seconds r =
     (case stream_to_tmp cap seconds r of
        Inl e \<Rightarrow> Inl e
      | Inr body \<Rightarrow>
          (case (if looks_gzip body then (if \<not> fs_gzip sp then Inl UnexpectedGzip else inflate_tmp w cap body) else Inr body) of
             Inl e \<Rightarrow> Inl e
           | Inr file_text \<Rightarrow>
               (case count_entries w sp cap file_text of
                  Inl e \<Rightarrow> Inl e
                | Inr n \<Rightarrow> Inr (file_text, n))))"

definition declared_too_big :: "nat \<Rightarrow> response \<Rightarrow> bool" where
  "declared_too_big cap r = (case rs_length r of None \<Rightarrow> False | Some l \<Rightarrow> l \<noteq> [] \<and> list_all is_digit l \<and> cap < dec_val l)"

text \<open>\<open>_fetch_one_watched\<close>: the result, the URLs requested and the store left behind.\<close>

definition not_modified :: "fetch_world \<Rightarrow> str \<Rightarrow> feed_store \<Rightarrow> feed_store" where
  "not_modified w name st =
     (let st = set_row name (\<lambda>r. r\<lparr>fr_state := Ok, fr_error := None, fr_checked := Some (fw_stamp w), fr_updated := Some (fw_stamp w)\<rparr>) st
      in case (fw_touch w, dget (st_files st) name) of
        (Some t, Some f) \<Rightarrow> st\<lparr>st_files := dset name (f\<lparr>df_mtime := t\<rparr>) (st_files st)\<rparr>
      | _ \<Rightarrow> st)"

definition install :: "fetch_world \<Rightarrow> str \<Rightarrow> response \<Rightarrow> str \<Rightarrow> nat \<Rightarrow> feed_store \<Rightarrow> (feed_error + fetch_result) \<times> feed_store" where
  "install w name r file_text entries st =
     (if \<not> fw_replaced w then (Inl Crashed, st)
      else
        (let st = st\<lparr>st_files := dset name \<lparr>df_mtime = fw_mtime w, df_size = length file_text, df_text = file_text\<rparr> (st_files st)\<rparr>
         in if \<not> fw_sidecar w then (Inl Crashed, st)
            else (Inr Updated,
              set_row name (\<lambda>row. row\<lparr>fr_etag := rs_etag r, fr_modified := rs_modified r, fr_checked := Some (fw_stamp w),
                  fr_updated := Some (fw_stamp w), fr_state := Ok, fr_bytes := Some (length file_text), fr_entries := Some entries,
                  fr_error := None\<rparr>)
                (st\<lparr>st_digests := dset name (fw_sha w file_text) (st_digests st)\<rparr>))))"

definition fetch_one :: "fetch_world \<Rightarrow> feed_spec \<Rightarrow> nat \<Rightarrow> real \<Rightarrow> feed_store \<Rightarrow> (feed_error + fetch_result) \<times> str list \<times> feed_store" where
  "fetch_one w sp max_bytes seconds st =
     (let name = fs_name sp; cap = capped sp max_bytes; (answer, asked) = open_url w (request_headers st name) (fs_url sp)
      in case answer of
        Inl e \<Rightarrow> (Inl e, asked, st)
      | Inr r \<Rightarrow>
          if rs_status r = 304
          then (if dget (st_files st) name = None then (Inl NoLocalCopy, asked, st) else (Inr NotModified, asked, not_modified w name st))
          else if rs_status r \<noteq> 200 then (Inl (HttpStatus (rs_status r)), asked, st)
          else if declared_too_big cap r then (Inl DeclaredTooBig, asked, st)
          else (case download w sp cap seconds r of
              Inl e \<Rightarrow> (Inl e, asked, st)
            | Inr (file_text, entries) \<Rightarrow> (let (res, st') = install w name r file_text entries st in (res, asked, st'))))"

section \<open>Update\<close>

text \<open>
  What one round of the loop meets: the clock at the staleness and backoff checks, the seconds left of the
  batch, the world of the fetch, and the stamp \<open>_mark_error\<close> would write.
\<close>

record attempt =
  at_now :: real
  at_left :: real
  at_world :: fetch_world
  at_mark :: int

datatype outcome = Skipped | Fetched fetch_result | Errored feed_error | Aborted

definition attempt_fetch :: "nat \<Rightarrow> feed_spec \<Rightarrow> attempt \<Rightarrow> feed_store \<Rightarrow> outcome \<times> str list \<times> feed_store" where
  "attempt_fetch max_bytes sp a st =
     (case fetch_one (at_world a) sp max_bytes (min FEED_MAX_SECONDS (at_left a)) st of
        (Inr res, asked, st') \<Rightarrow> (Fetched res, asked, note_success (fs_name sp) st')
      | (Inl e, asked, st') \<Rightarrow> (Errored e, asked, mark_error (at_mark a) (fs_name sp) e st'))"

definition feed_enabled :: "feed_store \<Rightarrow> feed_spec \<Rightarrow> bool" where
  "feed_enabled st sp = (case dget (st_rows st) (fs_name sp) of None \<Rightarrow> fs_enabled sp | Some r \<Rightarrow> fr_enabled r)"

text \<open>One round; \<open>Aborted\<close> is the exception that leaves \<open>update\<close>, raised before the \<open>try\<close>.\<close>

definition update_feed :: "(str \<Rightarrow> int option option) \<Rightarrow> bool \<Rightarrow> bool \<Rightarrow> nat \<Rightarrow> str \<Rightarrow> attempt \<Rightarrow> feed_store \<Rightarrow> outcome \<times> str list \<times> feed_store" where
  "update_feed cfg feeds_enabled force max_bytes name a st =
     (case dget FEEDS name of
        None \<Rightarrow> (Skipped, [], st)
      | Some sp \<Rightarrow>
          (let st = ensure_row sp st
           in if \<not> feeds_enabled \<and> \<not> force then (Skipped, [], st)
              else if \<not> feed_enabled st sp \<and> \<not> force then (Skipped, [], st)
              else if \<not> force \<and> \<not> is_stale st name (effective_hours cfg sp) (at_now a) then (Skipped, [], st)
              else (case (if force then NoBackoff else backoff_until st name) of
                  FloatOverflow \<Rightarrow> (Aborted, [], st)
                | BackoffUntil t \<Rightarrow>
                    if at_now a < real_of_int t \<or> at_left a \<le> 0 then (Skipped, [], st) else attempt_fetch max_bytes sp a st
                | NoBackoff \<Rightarrow> if at_left a \<le> 0 then (Skipped, [], st) else attempt_fetch max_bytes sp a st)))"

text \<open>The loop: the results so far, the URLs requested, the store; nothing is returned when a round raises.\<close>

fun update_loop :: "(str \<Rightarrow> int option option) \<Rightarrow> bool \<Rightarrow> bool \<Rightarrow> nat \<Rightarrow> (str \<times> attempt) list \<Rightarrow> (str, outcome) dict \<Rightarrow> feed_store \<Rightarrow>
    (str, outcome) dict option \<times> str list \<times> feed_store" where
  "update_loop cfg en force max_bytes [] results st = (Some results, [], st)"
| "update_loop cfg en force max_bytes ((name, a) # jobs) results st =
     (case update_feed cfg en force max_bytes name a st of
        (Aborted, asked, st) \<Rightarrow> (None, asked, st)
      | (res, asked, st) \<Rightarrow>
          (let (out, more_asked, st) = update_loop cfg en force max_bytes jobs (dset name res results) st in (out, asked @ more_asked, st)))"

definition wanted_feeds :: "str list option \<Rightarrow> str list" where
  "wanted_feeds names = (case names of None \<Rightarrow> dkeys FEEDS | Some ns \<Rightarrow> if ns = [] then dkeys FEEDS else ns)"

definition update_feeds :: "(str \<Rightarrow> int option option) \<Rightarrow> bool \<Rightarrow> bool \<Rightarrow> nat \<Rightarrow> str list option \<Rightarrow> (nat \<Rightarrow> attempt) \<Rightarrow> feed_store \<Rightarrow>
    (str, outcome) dict option \<times> str list \<times> feed_store" where
  "update_feeds cfg en force max_bytes names attempts st =
     (let ns = wanted_feeds names in update_loop cfg en force max_bytes (zip ns (map attempts [0..<length ns])) [] st)"

text \<open>\<open>health_findings\<close>: the subjects of SOC-FEED-001 and SOC-FEED-002, the row's last success and its error or state.\<close>

datatype health_draft = FeedFailing str str "int option" "feed_error option" | KevStale "int option" feed_state

definition health_findings :: "int \<Rightarrow> real \<Rightarrow> feed_store \<Rightarrow> health_draft list" where
  "health_findings hours now st = concat (map (\<lambda>sp.
     case dget (st_rows st) (fs_name sp) of
       None \<Rightarrow> []
     | Some r \<Rightarrow>
         if \<not> fr_enabled r then []
         else
           (let age_ok = (case fr_updated r of None \<Rightarrow> False | Some t \<Rightarrow> now - real_of_int t \<le> real_of_int (3600 * hours))
            in (if fr_state r = Failed \<and> \<not> age_ok then [FeedFailing (fs_name sp) (fs_url sp) (fr_updated r) (fr_error r)] else []) @
               (if fs_kind_name sp = ''kev'' \<and> \<not> age_ok then [KevStale (fr_updated r) (fr_state r)] else []))) (map snd FEEDS))"

section \<open>Facts\<close>

lemma set_row_frame [simp]: "st_files (set_row n f st) = st_files st" "st_failures (set_row n f st) = st_failures st"
  "st_since (set_row n f st) = st_since st"
  by (auto simp: set_row_def split: option.splits)

lemma dget_set_row [simp]: "dget (st_rows (set_row n f st)) k = (if k = n then map_option f (dget (st_rows st) n) else dget (st_rows st) k)"
  by (auto simp: set_row_def split: option.splits)

lemma ensure_frame [simp]: "st_files (ensure_row sp st) = st_files st" "st_failures (ensure_row sp st) = st_failures st"
  by (auto simp: ensure_row_def split: option.splits)

lemma mark_frame [simp]: "st_files (mark_error now n e st) = st_files st"
  by (simp add: mark_error_def Let_def)

lemma note_frame [simp]: "st_files (note_success n st) = st_files st"
  by (simp add: note_success_def)

subsection \<open>Which URLs are requested\<close>

definition url_admitted :: "fetch_world \<Rightarrow> str \<Rightarrow> bool" where
  "url_admitted w u \<longleftrightarrow> (\<exists>host. check_hop w u = Inr host \<and> check_resolves_public w host = None)"

lemma follow_asked:
  "set (snd (follow w hs hop left url asked)) \<subseteq> set asked \<union> Collect (url_admitted w)
   \<and> length (snd (follow w hs hop left url asked)) \<le> length asked + left"
proof (induction w hs hop left url asked rule: follow.induct)
  case (2 w hs hop left url asked)
  show ?case
  proof (cases "url_admitted w url")
    case False
    show ?thesis
    proof (cases "check_hop w url")
      case (Inr host)
      with False obtain e where "check_resolves_public w host = Some e" by (auto simp: url_admitted_def)
      with Inr show ?thesis by simp
    qed simp
  next
    case True
    then obtain host where h: "check_hop w url = Inr host" "check_resolves_public w host = None" by (auto simp: url_admitted_def)
    show ?thesis
    proof (cases "fw_get w hop hs url")
      case (Some r)
      show ?thesis
      proof (cases "\<exists>l target. rs_status r \<in> REDIRECT_CODES \<and> rs_location r = Some l \<and> l \<noteq> [] \<and> fw_join w url (strip l) = Some target \<and> \<not> fw_hop_late w hop")
        case t: True
        then obtain l target where t: "rs_status r \<in> REDIRECT_CODES" "rs_location r = Some l" "l \<noteq> []" "fw_join w url (strip l) = Some target"
          "\<not> fw_hop_late w hop" by blast
        with 2 [OF h(1) h(2) Some] have "set (snd (follow w hs (hop + 1) left target (asked @ [url]))) \<subseteq> set (asked @ [url]) \<union> Collect (url_admitted w) \<and>
            length (snd (follow w hs (hop + 1) left target (asked @ [url]))) \<le> length (asked @ [url]) + left" by blast
        then show ?thesis using t h Some True by auto
      next
        case stop: False
        have "snd (follow w hs hop (Suc left) url asked) = asked @ [url]"
          using h Some stop by (auto split: option.split)
        then show ?thesis using True by simp
      qed
    qed (use h True in simp)
  qed
qed simp

lemma fetch_asked: "fetch_one w sp mx secs st = (res, asked, st') \<Longrightarrow> asked = snd (open_url w (request_headers st (fs_name sp)) (fs_url sp))"
  by (auto simp: fetch_one_def Let_def split: prod.splits sum.splits if_splits)

lemma fetch_admitted: "fetch_one w sp mx secs st = (res, asked, st') \<Longrightarrow> set asked \<subseteq> Collect (url_admitted w) \<and> length asked \<le> 6"
  using follow_asked [of w "request_headers st (fs_name sp)" 0 "MAX_REDIRECTS + 1" "fs_url sp" "[]"]
  by (auto dest!: fetch_asked simp: open_url_def MAX_REDIRECTS_def)

lemma attempt_admitted:
  "attempt_fetch mx sp a st = (res, asked, st') \<Longrightarrow> set asked \<subseteq> Collect (url_admitted (at_world a)) \<and> length asked \<le> 6"
  by (auto simp: attempt_fetch_def split: prod.splits sum.splits dest: fetch_admitted)

text \<open>The rounds that reach a fetch, as one rule.\<close>

lemma update_feed_cases:
  assumes "update_feed cfg en force mx name a st = (res, asked, st')"
  obtains (quiet) "asked = []" "st_files st' = st_files st" "\<And>f. res \<noteq> Fetched f" "\<And>e. res \<noteq> Errored e"
    | (tried) sp where "dget FEEDS name = Some sp" "attempt_fetch mx sp a (ensure_row sp st) = (res, asked, st')"
proof (cases "dget FEEDS name")
  case None
  with assms show thesis by (intro quiet) (auto simp: update_feed_def)
next
  case (Some sp)
  let ?st = "ensure_row sp st"
  have "update_feed cfg en force mx name a st \<in> {(Skipped, [], ?st), (Aborted, [], ?st), attempt_fetch mx sp a ?st}"
    by (simp add: update_feed_def Some Let_def split: backoff.split)
  with assms consider "(res, asked, st') = (Skipped, [], ?st)" | "(res, asked, st') = (Aborted, [], ?st)" | "attempt_fetch mx sp a ?st = (res, asked, st')"
    by force
  then show thesis by cases (auto intro: quiet tried [OF Some])
qed

lemma round_admitted:
  "update_feed cfg en force mx name a st = (res, asked, st') \<Longrightarrow> set asked \<subseteq> Collect (url_admitted (at_world a)) \<and> length asked \<le> 6"
  by (erule update_feed_cases) (auto dest: attempt_admitted)

lemma loop_admitted:
  "update_loop cfg en force mx jobs results st = (out, asked, st') \<Longrightarrow>
     set asked \<subseteq> (\<Union>(n, a)\<in>set jobs. Collect (url_admitted (at_world a))) \<and> length asked \<le> 6 * length jobs"
proof (induction jobs arbitrary: results st out asked st')
  case (Cons job jobs)
  obtain name a where job: "job = (name, a)" by fastforce
  obtain res asked1 st1 where r: "update_feed cfg en force mx name a st = (res, asked1, st1)" by (cases "update_feed cfg en force mx name a st") auto
  note adm = round_admitted [OF r]
  show ?case
  proof (cases "res = Aborted")
    case True
    then show ?thesis using Cons.prems r adm job by (auto simp: image_iff)
  next
    case False
    obtain out2 asked2 st2 where l: "update_loop cfg en force mx jobs (dset name res results) st1 = (out2, asked2, st2)"
      by (cases "update_loop cfg en force mx jobs (dset name res results) st1") auto
    have "asked = asked1 @ asked2" using Cons.prems r l False job by (cases res) auto
    then show ?thesis using adm Cons.IH [OF l] job by auto
  qed
qed simp

subsection \<open>What is installed\<close>

definition bytes_of :: "('a list \<times> 'b) list \<Rightarrow> 'a list" where
  "bytes_of chunks = concat (map fst chunks)"

lemma copy_chunks_all: "copy_chunks mx secs got chunks = Inr body \<Longrightarrow> length got \<le> mx \<Longrightarrow> body = got @ bytes_of chunks \<and> length body \<le> mx"
  by (induction mx secs got chunks rule: copy_chunks.induct) (auto simp: bytes_of_def Let_def split: if_splits)

lemma copy_inflated_all:
  "copy_inflated mx got chunks whole = Inr body \<Longrightarrow> length got \<le> mx \<Longrightarrow>
     body = got @ bytes_of (takeWhile (\<lambda>p. fst p \<noteq> []) chunks) \<and> length body \<le> mx \<and> (whole \<or> [] \<in> fst ` set chunks)"
  by (induction mx got chunks whole rule: copy_inflated.induct) (auto simp: bytes_of_def split: if_splits)

text \<open>
  The list a response carries: the whole body, or what it inflates to when the feed is published
  compressed, within the cap, not blank, and with at least one entry.
\<close>

definition complete_list :: "fetch_world \<Rightarrow> feed_spec \<Rightarrow> nat \<Rightarrow> response \<Rightarrow> str \<Rightarrow> bool" where
  "complete_list w sp cap r t \<longleftrightarrow>
     (let body = bytes_of (rs_chunks r); pieces = fst (fw_inflate w body)
      in rs_status r = 200 \<and> rs_complete r \<and> \<not> rs_late r \<and> length body \<le> cap \<and> t \<noteq> [] \<and> length t \<le> cap \<and>
         (\<exists>n>0. parsed_entries w sp t = Inr n) \<and>
         (if looks_gzip body then fs_gzip sp \<and> t = bytes_of (takeWhile (\<lambda>p. fst p \<noteq> []) pieces) \<and> (snd (fw_inflate w body) \<or> [] \<in> fst ` set pieces)
          else t = body))"

lemma stream_complete:
  "stream_to_tmp cap secs r = Inr body \<Longrightarrow> body = bytes_of (rs_chunks r) \<and> length body \<le> cap \<and> body \<noteq> [] \<and> rs_complete r \<and> \<not> rs_late r"
  by (auto simp: stream_to_tmp_def split: sum.splits if_splits dest: copy_chunks_all)

lemma inflate_complete:
  "inflate_tmp w cap body = Inr t \<Longrightarrow> t = bytes_of (takeWhile (\<lambda>p. fst p \<noteq> []) (fst (fw_inflate w body))) \<and> length t \<le> cap \<and> t \<noteq> []
     \<and> (snd (fw_inflate w body) \<or> [] \<in> fst ` set (fst (fw_inflate w body)))"
  by (auto simp: inflate_tmp_def split: sum.splits if_splits dest!: copy_inflated_all)

lemma count_positive: "count_entries w sp cap t = Inr n \<Longrightarrow> 0 < n \<and> parsed_entries w sp t = Inr n"
  by (auto simp: count_entries_def split: sum.splits if_splits)

lemma download_complete:
  assumes "download w sp cap secs r = Inr (t, n)" and "rs_status r = 200"
  shows "complete_list w sp cap r t"
proof -
  from assms(1) obtain body where body: "stream_to_tmp cap secs r = Inr body" by (auto simp: download_def split: sum.splits)
  note all = stream_complete [OF body]
  from assms(1) body have t: "(if looks_gzip body then (if \<not> fs_gzip sp then Inl UnexpectedGzip else inflate_tmp w cap body) else Inr body) = Inr t"
    and n: "count_entries w sp cap t = Inr n"
    by (auto simp: download_def split: sum.splits)
  show ?thesis
  proof (cases "looks_gzip body")
    case True
    with t have "fs_gzip sp" "inflate_tmp w cap body = Inr t" by (auto split: if_splits)
    with True all count_positive [OF n] assms(2) inflate_complete [of w cap body t] show ?thesis
      by (simp add: complete_list_def Let_def) blast
  qed (use t all count_positive [OF n] assms(2) in \<open>auto simp: complete_list_def Let_def\<close>)
qed

definition text_of :: "feed_store \<Rightarrow> str \<Rightarrow> str option" where
  "text_of st n = map_option df_text (dget (st_files st) n)"

lemma text_of_frame: "st_files st' = st_files st \<Longrightarrow> text_of st' = text_of st"
  by (simp add: text_of_def fun_eq_iff)

lemma not_modified_text [simp]: "text_of (not_modified w n st) = text_of st"
  by (simp add: not_modified_def Let_def text_of_def fun_eq_iff split: option.split)

lemma install_text:
  "install w n r t k st = (res, st') \<Longrightarrow>
     text_of st' = text_of st \<and> res = Inl Crashed \<and> \<not> fw_replaced w \<or> text_of st' = (text_of st)(n \<mapsto> t) \<and> (res = Inr Updated \<or> res = Inl Crashed \<and> \<not> fw_sidecar w)"
  by (auto simp: install_def Let_def text_of_def fun_eq_iff split: if_splits)

text \<open>A fetch leaves every list as it was, except that it may install the complete list it was served.\<close>

definition served :: "fetch_world \<Rightarrow> feed_spec \<Rightarrow> nat \<Rightarrow> str \<Rightarrow> bool" where
  "served w sp mx t \<longleftrightarrow> (\<exists>headers r. fst (open_url w headers (fs_url sp)) = Inr r \<and> complete_list w sp (capped sp mx) r t)"

lemma fetch_installs:
  assumes "fetch_one w sp mx secs st = (res, asked, st')"
  shows "text_of st' = text_of st \<and> res \<noteq> Inr Updated
    \<or> (\<exists>t. served w sp mx t \<and> text_of st' = (text_of st)(fs_name sp \<mapsto> t) \<and> (res = Inr Updated \<or> \<not> fw_sidecar w))"
proof (cases "open_url w (request_headers st (fs_name sp)) (fs_url sp)")
  case (Pair answer urls)
  show ?thesis
  proof (cases "\<exists>r t k. answer = Inr r \<and> rs_status r = 200 \<and> \<not> declared_too_big (capped sp mx) r \<and> download w sp (capped sp mx) secs r = Inr (t, k)")
    case True
    then obtain r t k where r: "answer = Inr r" "rs_status r = 200" "\<not> declared_too_big (capped sp mx) r"
      and d: "download w sp (capped sp mx) secs r = Inr (t, k)" by blast
    obtain res1 st1 where i: "install w (fs_name sp) r t k st = (res1, st1)" by fastforce
    have "res = res1" "st' = st1" using assms Pair r d i by (auto simp: fetch_one_def)
    moreover have "served w sp mx t" using download_complete [OF d r(2)] Pair r(1) unfolding served_def by (metis fst_conv)
    ultimately show ?thesis using install_text [OF i] by auto
  next
    case False
    with assms Pair have "(res \<noteq> Inr Updated) \<and> (st' = st \<or> st' = not_modified w (fs_name sp) st)"
      by (auto simp: fetch_one_def Let_def split: sum.splits if_splits)
    then show ?thesis by auto
  qed
qed

lemma feed_names: "dget FEEDS name = Some sp \<Longrightarrow> fs_name sp = name"
proof -
  have "\<forall>(k, v)\<in>set FEEDS. fs_name v = k" by (simp add: FEEDS_def spec_def)
  then show "dget FEEDS name = Some sp \<Longrightarrow> fs_name sp = name" unfolding dget_def by (auto dest!: map_of_SomeD)
qed

lemma attempt_installs:
  assumes "attempt_fetch mx sp a st = (out, asked, st')"
  shows "text_of st' = text_of st \<or> (\<exists>t. served (at_world a) sp mx t \<and> text_of st' = (text_of st)(fs_name sp \<mapsto> t))"
proof -
  obtain res urls st1 where f: "fetch_one (at_world a) sp mx (min FEED_MAX_SECONDS (at_left a)) st = (res, urls, st1)"
    by (cases "fetch_one (at_world a) sp mx (min FEED_MAX_SECONDS (at_left a)) st") auto
  have "text_of st' = text_of st1"
    using assms f by (intro text_of_frame) (auto simp: attempt_fetch_def split: sum.splits)
  then show ?thesis using fetch_installs [OF f] by auto
qed

lemma round_installs:
  assumes "update_feed cfg en force mx name a st = (out, asked, st')"
  shows "text_of st' = text_of st
    \<or> (\<exists>sp t. dget FEEDS name = Some sp \<and> served (at_world a) sp mx t \<and> text_of st' = (text_of st)(name \<mapsto> t))"
  using assms
proof (cases rule: update_feed_cases)
  case quiet
  then show ?thesis by (metis text_of_frame)
next
  case (tried sp)
  have "text_of (ensure_row sp st) = text_of st" by (rule text_of_frame) simp
  then show ?thesis using attempt_installs [OF tried(2)] tried(1) feed_names [OF tried(1)] by auto
qed

definition listed :: "nat \<Rightarrow> str \<times> attempt \<Rightarrow> str \<Rightarrow> str \<Rightarrow> bool" where
  "listed mx job n t \<longleftrightarrow> fst job = n \<and> (\<exists>sp. dget FEEDS n = Some sp \<and> served (at_world (snd job)) sp mx t)"

lemma loop_installs:
  "update_loop cfg en force mx jobs results st = (out, asked, st') \<Longrightarrow>
     text_of st' n = text_of st n \<or> (\<exists>job\<in>set jobs. \<exists>t. listed mx job n t \<and> text_of st' n = Some t)"
proof (induction jobs arbitrary: results st out asked st')
  case (Cons job jobs)
  obtain name a where job: "job = (name, a)" by fastforce
  obtain res asked1 st1 where r: "update_feed cfg en force mx name a st = (res, asked1, st1)" by (cases "update_feed cfg en force mx name a st") auto
  have first: "text_of st1 n = text_of st n \<or> (\<exists>t. listed mx job n t \<and> text_of st1 n = Some t)"
    using round_installs [OF r] job by (auto simp: listed_def split: if_splits)
  show ?case
  proof (cases "res = Aborted")
    case True
    then show ?thesis using Cons.prems r first job by auto
  next
    case False
    obtain out2 asked2 st2 where l: "update_loop cfg en force mx jobs (dset name res results) st1 = (out2, asked2, st2)"
      by (cases "update_loop cfg en force mx jobs (dset name res results) st1") auto
    have "st' = st2" using Cons.prems r l False job by (cases res) auto
    then show ?thesis using Cons.IH [OF l] first by auto
  qed
qed simp

lemma job_in: "job \<in> set (zip ns (map attempts [0..<length ns])) \<Longrightarrow> \<exists>i<length ns. job = (ns ! i, attempts i)"
  by (auto simp: set_zip)

subsection \<open>Waiting after a failure\<close>

lemma ensure_idem [simp]: "ensure_row sp (ensure_row sp st) = ensure_row sp st"
  by (auto simp: ensure_row_def set_row_def split: option.splits)

lemma fetch_keeps_url:
  "fetch_one w sp mx secs st = (res, asked, st') \<Longrightarrow> map_option fr_url (dget (st_rows st') n) = map_option fr_url (dget (st_rows st) n)
     \<and> st_failures st' = st_failures st"
  by (auto simp: fetch_one_def not_modified_def install_def Let_def map_option_case
      split: prod.splits sum.splits if_splits option.splits)

lemma mark_error_row [simp]:
  "dget (st_rows (mark_error now n e st)) k = (if k = n then map_option (\<lambda>r. r\<lparr>fr_state := Failed, fr_error := Some e, fr_checked := Some now\<rparr>) (dget (st_rows st) n)
     else dget (st_rows st) k)"
  and mark_error_failures [simp]: "consecutive_failures (mark_error now n e st) k = (if k = n then consecutive_failures st n + 1 else consecutive_failures st k)"
  by (auto simp: mark_error_def Let_def consecutive_failures_def)

lemma failures_frame: "st_failures st' = st_failures st \<Longrightarrow> consecutive_failures st' n = consecutive_failures st n"
  by (simp add: consecutive_failures_def)

lemma ensured_row: "\<exists>r. dget (st_rows (ensure_row sp st)) (fs_name sp) = Some r \<and> fr_url r = fs_url sp"
  by (auto simp: ensure_row_def split: option.splits)

lemma ensure_id: "dget (st_rows st) (fs_name sp) = Some r \<Longrightarrow> fr_url r = fs_url sp \<Longrightarrow> ensure_row sp st = st"
  by (simp add: ensure_row_def)

lemma errored_attempt:
  assumes "attempt_fetch mx sp a st = (Errored e, asked, st')" and "dget (st_rows st) (fs_name sp) = Some r" and "fr_url r = fs_url sp"
  shows "consecutive_failures st' (fs_name sp) = consecutive_failures st (fs_name sp) + 1
    \<and> (\<exists>r'. dget (st_rows st') (fs_name sp) = Some r' \<and> fr_url r' = fs_url sp \<and> fr_checked r' = Some (at_mark a))"
proof -
  obtain st1 where f: "fetch_one (at_world a) sp mx (min FEED_MAX_SECONDS (at_left a)) st = (Inl e, asked, st1)"
    and st': "st' = mark_error (at_mark a) (fs_name sp) e st1"
    using assms(1) by (auto simp: attempt_fetch_def split: prod.splits sum.splits)
  from fetch_keeps_url [OF f, of "fs_name sp"] assms(2,3) obtain r1 where "dget (st_rows st1) (fs_name sp) = Some r1" "fr_url r1 = fs_url sp"
    and "st_failures st1 = st_failures st" by (auto simp: map_option_eq_Some)
  then show ?thesis using failures_frame [of st1 st] by (simp add: st')
qed

lemma errored_round:
  assumes "update_feed cfg en force mx name a st = (Errored e, asked, st')"
  obtains sp r where "dget FEEDS name = Some sp" "consecutive_failures st' name = consecutive_failures st name + 1"
    "dget (st_rows st') name = Some r" "fr_url r = fs_url sp" "fr_checked r = Some (at_mark a)"
  using assms
proof (cases rule: update_feed_cases)
  case (tried sp)
  obtain r where "dget (st_rows (ensure_row sp st)) (fs_name sp) = Some r" "fr_url r = fs_url sp" using ensured_row by blast
  from errored_attempt [OF tried(2) this] feed_names [OF tried(1)] tried(1) that show thesis
    by (auto simp: failures_frame [of "ensure_row sp st" st])
qed auto

lemma waiting_round:
  assumes "dget FEEDS name = Some sp" and "dget (st_rows st) name = Some r" and "fr_url r = fs_url sp"
    and "backoff_until st name = BackoffUntil t" and "at_now b < of_int t"
  shows "update_feed cfg en False mx name b st = (Skipped, [], st)"
proof -
  have "ensure_row sp st = st" using assms(2,3) feed_names [OF assms(1)] by (intro ensure_id) auto
  then show ?thesis using assms(1,4,5) by (simp add: update_feed_def Let_def)
qed

lemma failed_round_waits:
  assumes "update_feed cfg en force mx name a st = (Errored e, asked, st')" and "consecutive_failures st name < 1024"
    and "at_now b < of_int (at_mark a + 3600 * min 24 (2 ^ consecutive_failures st name))"
  shows "update_feed cfg' en' False mx' name b st' = (Skipped, [], st')"
  using assms(1)
proof (rule errored_round)
  fix sp r
  assume sp: "dget FEEDS name = Some sp" and k: "consecutive_failures st' name = consecutive_failures st name + 1"
    and r: "dget (st_rows st') name = Some r" "fr_url r = fs_url sp" "fr_checked r = Some (at_mark a)"
  have "backoff_until st' name = BackoffUntil (at_mark a + 3600 * min 24 (2 ^ consecutive_failures st name))"
    using k r assms(2) by (simp add: backoff_until_def backoff_hours_def BACKOFF_MAX_HOURS_def)
  from waiting_round [OF sp r(1,2) this] assms(3) show ?thesis by simp
qed

text \<open>
  From 1025 failures on, the wait can no longer be computed: the round of a stale, enabled feed raises
  before it is tried, and nothing that follows it in the list is refreshed.
\<close>

lemma overflow_aborts:
  assumes "dget FEEDS name = Some sp" and "dget (st_rows st) name = Some r" and "fr_url r = fs_url sp" and "fr_enabled r"
    and "fr_checked r = Some t" and "1025 \<le> consecutive_failures st name" and "dget (st_files st) name = None"
  shows "update_loop cfg True False mx ((name, a) # jobs) results st = (None, [], st)"
proof -
  have "ensure_row sp st = st" using assms(2,3) feed_names [OF assms(1)] by (intro ensure_id) auto
  moreover have "backoff_until st name = FloatOverflow" using assms(2,5,6) by (simp add: backoff_until_def Let_def)
  ultimately have "update_feed cfg True False mx name a st = (Aborted, [], st)"
    using assms(1,2,4,7) feed_names [OF assms(1)] by (simp add: update_feed_def feed_enabled_def is_stale_def)
  then show ?thesis by simp
qed

section \<open>Properties\<close>

definition lan_free :: "ip \<Rightarrow> bool" where
  "lan_free x \<longleftrightarrow> (\<forall>v\<in>v4_behind x. v4_is_global v \<and> \<not> v4_is_private v \<and> \<not> v4_is_multicast v)
     \<and> (case x of V4 _ \<Rightarrow> True | V6 a \<Rightarrow> v4_behind x = {} \<longrightarrow> v6_is_global a \<and> \<not> v6_is_multicast a)"

lemma public_lan_free: "ip_address (before CHR ''%'' addr) = Some x \<Longrightarrow> is_public_ip addr \<Longrightarrow> lan_free x"
  using public_behind [of addr x]
  by (auto simp: lan_free_def is_public_ip_def public_ip_def v4_behind_def split: ip.splits option.splits if_splits)

lemma admitted_lan_free:
  assumes "url_admitted w u"
  shows "url_scheme u = ''https'' \<and> (\<exists>host addrs. url_hostname u = Host host \<and> fw_resolve w host = Some addrs \<and>
     (\<forall>a\<in>set addrs. \<exists>x. ip_address (before CHR ''%'' a) = Some x \<and> lan_free x))"
proof -
  obtain host where h: "check_hop w u = Inr host" "check_resolves_public w host = None" using assms by (auto simp: url_admitted_def)
  from h(1) have "url_scheme u = ''https''" "url_hostname u = Host host"
    by (auto simp: check_hop_def Let_def split: if_splits url_host.splits bool.splits option.splits)
  moreover obtain addrs where a: "fw_resolve w host = Some addrs" "list_all is_public_ip addrs"
    using h(2) by (auto simp: check_resolves_public_def split: option.splits if_splits)
  moreover have "\<exists>x. ip_address (before CHR ''%'' a) = Some x \<and> lan_free x" if "a \<in> set addrs" for a
  proof -
    have p: "is_public_ip a" using a(2) that by (simp add: list_all_iff)
    then obtain x where "ip_address (before CHR ''%'' a) = Some x" by (auto simp: is_public_ip_def split: option.splits)
    with p public_lan_free show ?thesis by blast
  qed
  ultimately show ?thesis by blast
qed

text \<open>
  C29. Whatever redirects a feed's server answers with, every URL that \<open>update\<close> requests is https, and its
  host resolved only to addresses that reach no private, loopback, link-local, shared or multicast
  address, however written; a round makes at most six requests.
\<close>

theorem feed_requests_reach_no_lan:
  assumes "update_feeds cfg en force mx names attempts st = (out, asked, st')" and "u \<in> set asked"
  shows "url_scheme u = ''https'' \<and> length asked \<le> 6 * length (wanted_feeds names) \<and>
    (\<exists>i<length (wanted_feeds names). \<exists>host addrs. url_hostname u = Host host \<and> fw_resolve (at_world (attempts i)) host = Some addrs \<and>
       (\<forall>a\<in>set addrs. \<exists>x. ip_address (before CHR ''%'' a) = Some x \<and> lan_free x))"
proof -
  let ?ns = "wanted_feeds names"
  let ?jobs = "zip ?ns (map attempts [0..<length ?ns])"
  have "update_loop cfg en force mx ?jobs [] st = (out, asked, st')" using assms(1) by (simp add: update_feeds_def Let_def)
  note adm = loop_admitted [OF this]
  then obtain job where job: "job \<in> set ?jobs" "url_admitted (at_world (snd job)) u" using assms(2) by fastforce
  then obtain i where "i < length ?ns" "job = (?ns ! i, attempts i)" using job_in by blast
  then show ?thesis using admitted_lan_free [OF job(2)] adm by auto
qed

text \<open>
  C30. Updating feeds only ever changes a list on disk into one that was served whole for that feed in this
  update: status 200, within its cap on the wire and after inflation, compressed only where the feed is
  published so, with at least one entry. Every other list keeps its text, and none disappears.
\<close>

theorem only_complete_lists_installed:
  assumes "update_feeds cfg en force mx names attempts st = (out, asked, st')"
  shows "text_of st' n = text_of st n \<or>
    (\<exists>i<length (wanted_feeds names). \<exists>sp t. wanted_feeds names ! i = n \<and> dget FEEDS n = Some sp \<and>
       served (at_world (attempts i)) sp mx t \<and> text_of st' n = Some t)"
proof -
  let ?ns = "wanted_feeds names"
  have "update_loop cfg en force mx (zip ?ns (map attempts [0..<length ?ns])) [] st = (out, asked, st')"
    using assms by (simp add: update_feeds_def Let_def)
  from loop_installs [OF this, of n] show ?thesis by (auto dest!: job_in simp: listed_def)
qed


subsection \<open>Witnesses\<close>

text \<open>A catalogue of one entry; \<open>sample_body\<close> stands for its JSON text.\<close>

definition sample_body :: str where "sample_body = ''one-entry-catalogue''"

definition sample_document :: json where
  "sample_document = JObj [(''vulnerabilities'', JList [JObj [(''cveID'', JStr ''CVE-2024-1'')]])]"

definition sample_response :: response where
  "sample_response = \<lparr>rs_status = 200, rs_location = None, rs_length = None, rs_etag = Some ''v1'', rs_modified = None,
     rs_chunks = [(sample_body, 1, False)], rs_complete = True, rs_late = False\<rparr>"

definition sample_world :: fetch_world where
  "sample_world = \<lparr>fw_client_host = (\<lambda>_. Some (Some ''www.cisa.gov'')), fw_resolve = (\<lambda>_. Some [''8.8.4.4'']),
     fw_get = (\<lambda>_ _ _. Some sample_response), fw_join = (\<lambda>_ l. Some l), fw_hop_late = (\<lambda>_. False), fw_inflate = (\<lambda>_. ([], True)),
     fw_sha = (\<lambda>_. ''00''), fw_parse_late = (\<lambda>_. False), fw_parse_raises = False, fw_json = (\<lambda>t. if t = sample_body then Some sample_document else None), fw_py_str = (\<lambda>_. []),
     fw_csv = (\<lambda>_. []), fw_float = (\<lambda>_. None), fw_parsed_late = False, fw_replaced = True, fw_sidecar = True, fw_stamp = 100,
     fw_mtime = 100, fw_touch = None\<rparr>"

definition sample_attempt :: "fetch_world \<Rightarrow> attempt" where
  "sample_attempt w = \<lparr>at_now = 99, at_left = 600, at_world = w, at_mark = 101\<rparr>"

definition empty_store :: feed_store where
  "empty_store = \<lparr>st_rows = [], st_failures = [], st_since = [], st_files = [], st_digests = []\<rparr>"


abbreviation kev_url :: str where
  "kev_url \<equiv> ''https://www.cisa.gov/sites/default/files/feeds/known_exploited_vulnerabilities.json''"

abbreviation sample_kev :: feed_spec where
  "sample_kev \<equiv> snd (spec ''kev'' kev_url ''kev'' Kev 6 True (16 * MB) False)"

lemma sample_spec: "dget FEEDS ''kev'' = Some sample_kev"
  by (simp add: FEEDS_def spec_def dget_Cons)

lemma not_an_address: "c \<in> set s \<Longrightarrow> \<not> is_digit c \<Longrightarrow> c \<noteq> CHR ''.'' \<Longrightarrow> CHR '':'' \<notin> set s \<Longrightarrow> ip_address s = None"
  using parse_ipv4_chars [of s] parse_ipv6_colon [of s] by (cases "parse_ipv4 s"; cases "parse_ipv6 s") (auto simp: ip_address_def)

lemma kev_hop: "fw_client_host w = (\<lambda>_. Some (Some ''www.cisa.gov'')) \<Longrightarrow> check_hop w kev_url = Inr ''www.cisa.gov''"
proof -
  have "list_all url_char_ok kev_url" by code_simp
  moreover have "url_hostname kev_url = Host ''www.cisa.gov''" by code_simp
  moreover have "url_port_ok kev_url" by code_simp
  moreover have "url_scheme kev_url = ''https''" by code_simp
  moreover have "CHR ''@'' \<notin> set (url_netloc kev_url)" by code_simp
  moreover have "before CHR ''%'' ''www.cisa.gov'' = ''www.cisa.gov''" by code_simp
  moreover have "ip_address ''www.cisa.gov'' = None" by (rule not_an_address [of "CHR ''w''"]) (simp_all add: is_digit_def code_of_def)
  moreover have "rstrip_by (\<lambda>c. c = CHR ''['' \<or> c = CHR '']'') (lstrip_by (\<lambda>c. c = CHR ''['' \<or> c = CHR '']'') ''www.cisa.gov'') = ''www.cisa.gov''"
    by (simp add: rstrip_by_def lstrip_by_def)
  ultimately show "fw_client_host w = (\<lambda>_. Some (Some ''www.cisa.gov'')) \<Longrightarrow> check_hop w kev_url = Inr ''www.cisa.gov''"
    by (simp add: check_hop_def)
qed

lemma sample_open: "open_url sample_world hs kev_url = (Inr sample_response, [kev_url])"
proof -
  have "map parse_octet (split_on CHR ''.'' ''8.8.4.4'') = [Some 8, Some 8, Some 4, Some 4]" by code_simp
  then have "parse_ipv4 ''8.8.4.4'' = Some (quad 8 8 4 4)" by (simp add: parse_ipv4_def)
  then have "is_public_ip ''8.8.4.4''"
    by (simp add: is_public_ip_def before_def ip_address_def public_ip_def v4_public_def v4_is_global_def v4_is_private_def v4_private_nets_def
      in_net_def v4_is_multicast_def)
  then have "check_resolves_public sample_world ''www.cisa.gov'' = None" by (simp add: check_resolves_public_def sample_world_def)
  then show ?thesis using kev_hop [of sample_world]
        by (simp add: open_url_def numeral_eq_Suc MAX_REDIRECTS_def) (simp add: sample_world_def sample_response_def REDIRECT_CODES_def)
qed

lemma sample_download: "download sample_world sample_kev 1000 180 sample_response = Inr (sample_body, 1)"
proof -
  have n: "length (parse_kev (\<lambda>_. []) (Some sample_document)) = 1" by code_simp
  have "universal_newlines sample_body = sample_body" by code_simp
  with n have "parsed_entries sample_world sample_kev sample_body = Inr 1"
    by (simp add: parsed_entries_def spec_def) (simp add: sample_world_def)
  then show ?thesis
    by (simp add: download_def stream_to_tmp_def sample_response_def THROUGHPUT_GRACE_def looks_gzip_def count_entries_def size_cap_def spec_def MB_def)
      (simp add: sample_world_def sample_body_def)
qed

abbreviation sample_update :: "(str, outcome) dict option \<times> str list \<times> feed_store" where
  "sample_update \<equiv> update_feeds (\<lambda>_. None) True False 1000 (Some [''kev'']) (\<lambda>_. sample_attempt sample_world) empty_store"

lemma sample_round:
  "\<exists>st'. sample_update = (Some [(''kev'', Fetched Updated)], [kev_url], st') \<and>
     text_of st' ''kev'' = Some sample_body"
proof -
  have c: "capped sample_kev 1000 = 1000" by (simp add: capped_def size_cap_def spec_def MB_def)
  show ?thesis
    using sample_open sample_download sample_spec c
    by (simp add: update_feeds_def wanted_feeds_def update_feed_def sample_attempt_def)
      (simp add: ensure_row_def empty_store_def feed_enabled_def is_stale_def backoff_until_def consecutive_failures_def attempt_fetch_def
        FEED_MAX_SECONDS_def fetch_one_def dget_Cons spec_def sample_response_def declared_too_big_def install_def Let_def text_of_def,
       simp add: sample_world_def note_success_def set_row_def)
qed

lemma feed_requests_reach_no_lan_witness:
  "\<exists>out asked st'. sample_update = (out, asked, st') \<and> asked = [kev_url] \<and> url_scheme kev_url = ''https'' \<and> length asked \<le> 6"
proof -
  obtain st' where u: "sample_update = (Some [(''kev'', Fetched Updated)], [kev_url], st')" using sample_round by blast
  from feed_requests_reach_no_lan [OF u, of kev_url] u show ?thesis by (simp add: wanted_feeds_def)
qed

lemma only_complete_lists_installed_witness:
  "\<exists>out asked st' t. sample_update = (out, asked, st') \<and> text_of st' ''kev'' = Some t \<and> served sample_world sample_kev 1000 t"
proof -
  obtain st' where u: "sample_update = (Some [(''kev'', Fetched Updated)], [kev_url], st')"
    and t: "text_of st' ''kev'' = Some sample_body" using sample_round by blast
  from only_complete_lists_installed [OF u, of "''kev''"] t
  have "served sample_world sample_kev 1000 sample_body"
    unfolding sample_spec by (auto simp: text_of_def empty_store_def sample_attempt_def)
  then show ?thesis using u t by blast
qed

text \<open>A resolver that is down: the first failure, and the next hour without a request.\<close>

definition dark_world :: fetch_world where
  "dark_world = sample_world\<lparr>fw_resolve := (\<lambda>_. None)\<rparr>"

lemma dark_round:
  "\<exists>st'. update_feed (\<lambda>_. None) True False 1000 ''kev'' (sample_attempt dark_world) empty_store = (Errored CannotResolve, [], st')"
proof -
  have h: "check_hop dark_world kev_url = Inr ''www.cisa.gov''" "check_resolves_public dark_world ''www.cisa.gov'' = Some CannotResolve"
    by (rule kev_hop) (simp_all add: dark_world_def sample_world_def check_resolves_public_def)
  have "open_url dark_world hs kev_url = (Inl CannotResolve, [])" for hs
    using h by (simp add: open_url_def numeral_eq_Suc MAX_REDIRECTS_def)
  then show ?thesis
    using sample_spec
    by (simp add: update_feed_def sample_attempt_def)
      (simp add: ensure_row_def empty_store_def feed_enabled_def is_stale_def backoff_until_def consecutive_failures_def attempt_fetch_def
        FEED_MAX_SECONDS_def fetch_one_def dget_Cons spec_def Let_def)
qed



text \<open>When the digest cannot be written beside the list, the feed counts as failed, yet its list has been replaced.\<close>

lemma failed_feed_replaces_list:
  assumes "open_url (at_world a) (request_headers st (fs_name sp)) (fs_url sp) = (Inr r, asked)" and "rs_status r = 200"
    and "\<not> declared_too_big (capped sp mx) r" and "download (at_world a) sp (capped sp mx) (min FEED_MAX_SECONDS (at_left a)) r = Inr (t, k)"
    and "fw_replaced (at_world a)" and "\<not> fw_sidecar (at_world a)"
  shows "\<exists>st'. attempt_fetch mx sp a st = (Errored Crashed, asked, st') \<and> text_of st' (fs_name sp) = Some t"
  using assms by (auto simp: attempt_fetch_def fetch_one_def install_def Let_def text_of_def)

end
