(* ===== verification/Findings_Engine.thy ===== *)
theory Findings_Engine
  imports Soc_Prelude
begin

text \<open>
  The findings engine, \<open>homesoc/findings/engine.py\<close>: scanner drafts become rows with a
  lifecycle (open, acknowledged, resolved, suppressed) and an event trail; what a source stops
  reporting is resolved, what comes back is reopened, and a user's decision survives rescans.

  The tables \<open>findings\<close>, \<open>finding_events\<close> and \<open>devices\<close> are lists of rows in the order
  of their ids (both are \<open>AUTOINCREMENT\<close> keys). Times are seconds since the epoch; one
  operation reads the clock once. Text is ASCII, so the replacement of lone surrogates changes
  nothing and is left out. The catalogue (92 texts) is data: its rendering and its default
  severities are the argument \<open>catalog\<close>.
\<close>

section \<open>Rows\<close>

type_synonym stamp = int

definition STATUSES :: "str list" where
  "STATUSES = [''open'', ''acknowledged'', ''resolved'', ''suppressed'']"

definition SEVERITIES :: "str list" where
  "SEVERITIES = [''critical'', ''high'', ''medium'', ''low'', ''info'']"

text \<open>\<open>evidence['key']\<close> is kept apart from the rest of the evidence, which is only stored.\<close>

record finding_draft =
  d_finding_id :: str
  d_subject :: str
  d_key :: "str option"
  d_evidence :: str
  d_severity :: "str option"
  d_device_id :: "int option"

record finding =
  f_id :: nat
  f_finding_id :: str
  f_subject :: str
  f_key :: str
  f_severity :: str
  f_title :: str
  f_detail :: str
  f_evidence :: str
  f_status :: str
  f_source :: str
  f_first_seen :: stamp
  f_last_seen :: stamp
  f_occurrences :: nat
  f_device_id :: "int option"
  f_resolved_at :: "stamp option"

record finding_event =
  ev_row :: nat
  ev_event :: str
  ev_at :: stamp
  ev_note :: "str option"

record device_row =
  dev_id :: int
  dev_mac :: str
  dev_trusted :: bool

record fdb =
  findings :: "finding list"
  events :: "finding_event list"
  next_row :: nat
  devices :: "device_row list"

record catalog =
  render :: "finding_draft \<Rightarrow> str \<times> str"
  default_severity :: "str \<Rightarrow> str option"

record apply_result =
  new :: "finding list"
  reopened :: "finding list"
  resolved :: "finding list"
  updated :: nat

section \<open>Applying a scan\<close>

definition dedupe_key :: "finding_draft \<Rightarrow> str" where
  "dedupe_key d =
     d_finding_id d @ ''|'' @ d_subject d @
       (case d_key d of None \<Rightarrow> [] | Some e \<Rightarrow> if e = [] then [] else ''|'' @ e)"

definition severity_for :: "catalog \<Rightarrow> finding_draft \<Rightarrow> str" where
  "severity_for cat d =
     (case d_severity d of
        Some s \<Rightarrow> if s \<in> set SEVERITIES then s
                  else (case default_severity cat (d_finding_id d) of Some t \<Rightarrow> t | None \<Rightarrow> ''medium'')
      | None \<Rightarrow> (case default_severity cat (d_finding_id d) of Some t \<Rightarrow> t | None \<Rightarrow> ''medium''))"

definition row_of :: "fdb \<Rightarrow> str \<Rightarrow> finding option" where
  "row_of db k = List.find (\<lambda>r. f_key r = k) (findings db)"

definition fetch :: "fdb \<Rightarrow> nat \<Rightarrow> finding list" where
  "fetch db i = (case List.find (\<lambda>r. f_id r = i) (findings db) of None \<Rightarrow> [] | Some r \<Rightarrow> [r])"

definition add_event :: "nat \<Rightarrow> str \<Rightarrow> stamp \<Rightarrow> str option \<Rightarrow> fdb \<Rightarrow> fdb" where
  "add_event i ev now note db =
     db\<lparr>events := events db @ [\<lparr>ev_row = i, ev_event = ev, ev_at = now, ev_note = note\<rparr>]\<rparr>"

definition update_row :: "nat \<Rightarrow> (finding \<Rightarrow> finding) \<Rightarrow> fdb \<Rightarrow> fdb" where
  "update_row i f db = db\<lparr>findings := map (\<lambda>r. if f_id r = i then f r else r) (findings db)\<rparr>"

definition AUTO_NOTE_PREFIX :: str where "AUTO_NOTE_PREFIX = ''was:''"

definition previous_status_if_auto_resolved :: "fdb \<Rightarrow> nat \<Rightarrow> str option" where
  "previous_status_if_auto_resolved db i =
     (case List.find (\<lambda>e. ev_row e = i) (rev (events db)) of
        None \<Rightarrow> None
      | Some e \<Rightarrow>
          if ev_event e \<noteq> ''auto_resolved'' then None
          else if ev_note e = Some (AUTO_NOTE_PREFIX @ ''acknowledged'') then Some ''acknowledged''
          else None)"

definition new_row :: "catalog \<Rightarrow> str \<Rightarrow> stamp \<Rightarrow> str \<Rightarrow> finding_draft \<Rightarrow> nat \<Rightarrow> finding" where
  "new_row cat source now key d i =
     \<lparr>f_id = i, f_finding_id = d_finding_id d, f_subject = d_subject d, f_key = key,
      f_severity = severity_for cat d, f_title = fst (render cat d), f_detail = snd (render cat d),
      f_evidence = d_evidence d, f_status = ''open'', f_source = source, f_first_seen = now,
      f_last_seen = now, f_occurrences = 1, f_device_id = d_device_id d, f_resolved_at = None\<rparr>"

definition refresh_row :: "catalog \<Rightarrow> str \<Rightarrow> stamp \<Rightarrow> finding_draft \<Rightarrow> str \<Rightarrow> finding \<Rightarrow> finding" where
  "refresh_row cat source now d new_status r =
     r\<lparr>f_last_seen := now, f_occurrences := f_occurrences r + 1, f_evidence := d_evidence d,
       f_title := fst (render cat d), f_detail := snd (render cat d),
       f_severity := severity_for cat d, f_source := source,
       f_device_id := (case d_device_id d of None \<Rightarrow> f_device_id r | Some x \<Rightarrow> Some x),
       f_status := (if f_status r = ''resolved'' then new_status else f_status r),
       f_resolved_at := (if f_status r = ''resolved'' then None else f_resolved_at r)\<rparr>"

definition apply_one ::
  "catalog \<Rightarrow> str \<Rightarrow> stamp \<Rightarrow> str \<Rightarrow> finding_draft \<Rightarrow> fdb \<times> apply_result \<Rightarrow> fdb \<times> apply_result" where
  "apply_one cat source now key d st =
     (let (db, res) = st
      in case row_of db key of
        None \<Rightarrow>
          (let i = next_row db;
               db = db\<lparr>findings := findings db @ [new_row cat source now key d i], next_row := i + 1\<rparr>;
               db = add_event i ''opened'' now None db
           in (db, res\<lparr>new := new res @ fetch db i\<rparr>))
      | Some ex \<Rightarrow>
          (let i = f_id ex;
               reopen = (f_status ex = ''resolved'');
               restored = (if reopen then previous_status_if_auto_resolved db i else None);
               new_status = (case restored of None \<Rightarrow> ''open'' | Some s \<Rightarrow> s);
               db = update_row i (refresh_row cat source now d new_status) db
           in if reopen
              then (let db = add_event i ''reopened'' now (map_option (\<lambda>s. ''restored '' @ s) restored) db
                    in (db, res\<lparr>reopened := reopened res @ fetch db i\<rparr>))
              else (db, res\<lparr>updated := updated res + 1\<rparr>)))"

text \<open>The draft loop: the first draft of a key wins, later ones in the same scan are skipped.\<close>

fun apply_drafts ::
  "catalog \<Rightarrow> str \<Rightarrow> stamp \<Rightarrow> finding_draft list \<Rightarrow> str list \<Rightarrow> fdb \<times> apply_result \<Rightarrow> str list \<times> fdb \<times> apply_result" where
  "apply_drafts cat source now [] seen st = (seen, st)"
| "apply_drafts cat source now (d # ds) seen st =
     (let key = dedupe_key d
      in if key \<in> set seen then apply_drafts cat source now ds seen st
         else apply_drafts cat source now ds (key # seen) (apply_one cat source now key d st))"

definition in_scope :: "str \<Rightarrow> str \<Rightarrow> bool" where
  "in_scope scope subject =
     (if suffix '':'' scope then prefix scope subject
      else subject = scope \<or> prefix (scope @ '':'') subject)"

definition resolve_row :: "stamp \<Rightarrow> finding \<Rightarrow> fdb \<times> apply_result \<Rightarrow> fdb \<times> apply_result" where
  "resolve_row now r st =
     (let (db, res) = st;
          db = update_row (f_id r) (\<lambda>x. x\<lparr>f_status := ''resolved'', f_resolved_at := Some now\<rparr>) db;
          db = add_event (f_id r) ''auto_resolved'' now (Some (AUTO_NOTE_PREFIX @ f_status r)) db
      in (db, res\<lparr>resolved := resolved res @ fetch db (f_id r)\<rparr>))"

definition auto_resolve ::
  "str \<Rightarrow> str list \<Rightarrow> stamp \<Rightarrow> str \<Rightarrow> fdb \<times> apply_result \<Rightarrow> fdb \<times> apply_result" where
  "auto_resolve source seen now scope st =
     fold (resolve_row now)
       (filter (\<lambda>r. f_key r \<notin> set seen)
         (filter (\<lambda>r. f_source r = source \<and> in_scope scope (f_subject r) \<and>
                      f_status r \<in> {''open'', ''acknowledged''}) (findings (fst st)))) st"

definition empty_result :: apply_result where
  "empty_result = \<lparr>new = [], reopened = [], resolved = [], updated = 0\<rparr>"

definition apply_scan ::
  "catalog \<Rightarrow> fdb \<Rightarrow> finding_draft list \<Rightarrow> str \<Rightarrow> str list \<Rightarrow> stamp \<Rightarrow> fdb \<times> apply_result" where
  "apply_scan cat db drafts source scopes now =
     (let (seen, st) = apply_drafts cat source now drafts [] (db, empty_result)
      in fold (auto_resolve source seen now) scopes st)"

section \<open>User operations\<close>

datatype status_error = InvalidStatus | NoSuchRow

definition set_status :: "fdb \<Rightarrow> nat \<Rightarrow> str \<Rightarrow> str option \<Rightarrow> stamp \<Rightarrow> status_error + fdb" where
  "set_status db i status note now =
     (if status \<notin> set STATUSES then Inl InvalidStatus
      else if \<not> list_ex (\<lambda>r. f_id r = i) (findings db) then Inl NoSuchRow
      else
        (let resolved_at = (if status = ''resolved'' then Some now else None);
             db = update_row i (\<lambda>r. r\<lparr>f_status := status, f_resolved_at := resolved_at\<rparr>) db
         in Inr (add_event i (if status = ''open'' then ''reopened'' else status) now note db)))"

definition severity_rank :: "str \<Rightarrow> nat" where
  "severity_rank s = (if s = ''critical'' then 0 else if s = ''high'' then 1 else if s = ''medium'' then 2
     else if s = ''low'' then 3 else 4)"

text \<open>An optional filter: \<open>None\<close> and the empty string add no condition.\<close>

definition given :: "str option \<Rightarrow> (str \<Rightarrow> bool) \<Rightarrow> bool" where
  "given v P = (case v of None \<Rightarrow> True | Some s \<Rightarrow> s = [] \<or> P s)"

definition list_findings ::
  "fdb \<Rightarrow> str option \<Rightarrow> str option \<Rightarrow> str option \<Rightarrow> nat \<Rightarrow> finding list" where
  "list_findings db status severity subject_prefix limit =
     take limit
       (sort_key (\<lambda>r. severity_rank (f_severity r))
         (sort_key (\<lambda>r. - f_last_seen r)
           (filter (\<lambda>r. given status (\<lambda>s. f_status r = s) \<and> given severity (\<lambda>s. f_severity r = s) \<and>
                        given subject_prefix (\<lambda>s. prefix s (f_subject r)))
             (findings db))))"

definition counts :: "fdb \<Rightarrow> str \<Rightarrow> str \<Rightarrow> nat" where
  "counts db status severity =
     length (filter (\<lambda>r. f_status r = status \<and> f_severity r = severity) (findings db))"

definition finding_events :: "fdb \<Rightarrow> nat \<Rightarrow> nat \<Rightarrow> finding_event list" where
  "finding_events db i limit = take limit (rev (filter (\<lambda>e. ev_row e = i) (events db)))"

section \<open>New devices and the baseline\<close>

definition NEW_DEVICE_FINDING_ID :: str where "NEW_DEVICE_FINDING_ID = ''NET-DEV-001''"
definition BASELINE_NOTE :: str where "BASELINE_NOTE = ''accepted as part of the baseline inventory''"
definition TRUST_NOTE :: str where "TRUST_NOTE = ''device marked trusted''"

definition device_of :: "fdb \<Rightarrow> int \<Rightarrow> device_row option" where
  "device_of db i = List.find (\<lambda>d. dev_id d = i) (devices db)"

definition new_device_findings :: "fdb \<Rightarrow> int option \<Rightarrow> finding list" where
  "new_device_findings db device_id =
     filter (\<lambda>r. f_finding_id r = NEW_DEVICE_FINDING_ID \<and> f_status r \<in> {''open'', ''acknowledged''} \<and>
       (case device_id of
          None \<Rightarrow> True
        | Some i \<Rightarrow> f_device_id r = Some i \<or>
            f_subject r = (case device_of db i of Some dv \<Rightarrow> ''device:'' @ dev_mac dv | None \<Rightarrow> [])))
       (findings db)"

text \<open>The closing loop: a row that \<open>set_status\<close> refuses is skipped, the others are closed.\<close>

fun close_all :: "finding list \<Rightarrow> str \<Rightarrow> stamp \<Rightarrow> fdb \<Rightarrow> finding list \<Rightarrow> finding list \<times> fdb" where
  "close_all [] note now db acc = (acc, db)"
| "close_all (r # rs) note now db acc =
     (case set_status db (f_id r) ''resolved'' (Some note) now of
        Inl _ \<Rightarrow> close_all rs note now db acc
      | Inr db' \<Rightarrow> close_all rs note now db' (acc @ fetch db' (f_id r)))"

definition accept_new_device_findings ::
  "fdb \<Rightarrow> int option \<Rightarrow> str \<Rightarrow> bool \<Rightarrow> stamp \<Rightarrow> finding list \<times> fdb" where
  "accept_new_device_findings db device_id note dry_run now =
     (let rows = new_device_findings db device_id
      in if dry_run then (rows, db) else close_all rows note now db [])"

definition set_trusted :: "int \<Rightarrow> bool \<Rightarrow> fdb \<Rightarrow> fdb" where
  "set_trusted i t db = db\<lparr>devices := map (\<lambda>d. if dev_id d = i then d\<lparr>dev_trusted := t\<rparr> else d) (devices db)\<rparr>"

datatype device_error = NoSuchDevice

definition trust_device :: "fdb \<Rightarrow> int \<Rightarrow> bool \<Rightarrow> str \<Rightarrow> stamp \<Rightarrow> device_error + finding list \<times> fdb" where
  "trust_device db i trusted note now =
     (case device_of db i of
        None \<Rightarrow> Inl NoSuchDevice
      | Some _ \<Rightarrow>
          (let db = set_trusted i trusted db
           in if \<not> trusted then Inr ([], db)
              else Inr (accept_new_device_findings db (Some i) note False now)))"

record baseline_result =
  devices_total :: nat
  br_trusted :: "device_row list"
  already_trusted :: "device_row list"
  br_resolved :: "finding list"
  br_dry_run :: bool

definition baseline_devices :: "fdb \<Rightarrow> bool \<Rightarrow> bool \<Rightarrow> str \<Rightarrow> stamp \<Rightarrow> baseline_result \<times> fdb" where
  "baseline_devices db trust_all dry_run note now =
     (let devs = devices db;
          to_trust = (if trust_all then filter (\<lambda>d. \<not> dev_trusted d) devs else []);
          db1 = (if dry_run then db else fold (\<lambda>d db. set_trusted (dev_id d) True db) to_trust db);
          (rows, db2) = accept_new_device_findings db1 None note dry_run now
      in (\<lparr>devices_total = length devs, br_trusted = to_trust,
           already_trusted = filter dev_trusted devs, br_resolved = rows, br_dry_run = dry_run\<rparr>, db2))"

section \<open>The table invariant\<close>

text \<open>
  One row per dedupe key and per id, ids below the next one, a known status, at least one
  occurrence, and a resolution time exactly for resolved rows.
\<close>

definition row_ok :: "finding \<Rightarrow> bool" where
  "row_ok r \<longleftrightarrow> f_status r \<in> set STATUSES \<and> 1 \<le> f_occurrences r \<and>
     (f_resolved_at r \<noteq> None \<longleftrightarrow> f_status r = ''resolved'')"

definition fdb_ok :: "fdb \<Rightarrow> bool" where
  "fdb_ok db \<longleftrightarrow>
     distinct (map f_key (findings db)) \<and> distinct (map f_id (findings db)) \<and>
     (\<forall>r\<in>set (findings db). f_id r < next_row db \<and> row_ok r)"

lemma find_eq_Some_distinct:
  "distinct (map g xs) \<Longrightarrow> List.find (\<lambda>x. g x = k) xs = Some x \<longleftrightarrow> x \<in> set xs \<and> g x = k"
proof (induction xs)
  case (Cons y ys)
  then show ?case by (cases "g y = k") (auto, metis imageI)
qed simp

lemma row_of_Some: "fdb_ok db \<Longrightarrow> row_of db k = Some r \<longleftrightarrow> r \<in> set (findings db) \<and> f_key r = k"
  unfolding fdb_ok_def row_of_def by (simp add: find_eq_Some_distinct)

lemma row_of_None: "row_of db k = None \<longleftrightarrow> k \<notin> f_key ` set (findings db)"
  by (auto simp: row_of_def find_None_iff)

lemma fdb_ok_same_id:
  "fdb_ok db \<Longrightarrow> r \<in> set (findings db) \<Longrightarrow> s \<in> set (findings db) \<Longrightarrow> f_id r = f_id s \<longleftrightarrow> r = s"
  by (auto simp: fdb_ok_def distinct_map inj_on_def)

lemma fdb_ok_same_key:
  "fdb_ok db \<Longrightarrow> r \<in> set (findings db) \<Longrightarrow> s \<in> set (findings db) \<Longrightarrow> f_key r = f_key s \<longleftrightarrow> r = s"
  by (auto simp: fdb_ok_def distinct_map inj_on_def)

lemma update_row_ok:
  assumes "fdb_ok db" and "\<And>r. f_id (f r) = f_id r" and "\<And>r. f_key (f r) = f_key r"
    and "\<And>r. r \<in> set (findings db) \<Longrightarrow> f_id r = i \<Longrightarrow> row_ok (f r)"
  shows "fdb_ok (update_row i f db)"
proof -
  let ?db = "update_row i f db"
  have 1: "map f_key (findings ?db) = map f_key (findings db)"
    and 2: "map f_id (findings ?db) = map f_id (findings db)"
    by (simp_all add: update_row_def assms(2,3))
  have 3: "\<forall>r\<in>set (findings ?db). f_id r < next_row ?db \<and> row_ok r"
    using assms(1,2,4) by (auto simp: fdb_ok_def update_row_def)
  show ?thesis using assms(1) 3 unfolding fdb_ok_def 1 2 by blast
qed

lemma add_event_simps [simp]:
  "findings (add_event i e now note db) = findings db"
  "next_row (add_event i e now note db) = next_row db"
  "devices (add_event i e now note db) = devices db"
  "fdb_ok (add_event i e now note db) = fdb_ok db"
  "row_of (add_event i e now note db) k = row_of db k"
  by (simp_all add: add_event_def fdb_ok_def row_of_def)

lemma row_of_update_row:
  assumes "fdb_ok db" and "\<And>r. f_id (f r) = f_id r" and "\<And>r. f_key (f r) = f_key r"
  shows "row_of (update_row i f db) k = map_option (\<lambda>r. if f_id r = i then f r else r) (row_of db k)"
proof -
  have "List.find (\<lambda>r. f_key r = k) (map (\<lambda>r. if f_id r = i then f r else r) xs) =
      map_option (\<lambda>r. if f_id r = i then f r else r) (List.find (\<lambda>r. f_key r = k) xs)" for xs
    by (induction xs) (auto simp: assms(3))
  then show ?thesis by (simp add: row_of_def update_row_def)
qed


lemma update_row_simps [simp]:
  "next_row (update_row i f db) = next_row db"
  "events (update_row i f db) = events db"
  "devices (update_row i f db) = devices db"
  by (simp_all add: update_row_def)

section \<open>The effect of one draft\<close>

definition restored_status :: "fdb \<Rightarrow> finding \<Rightarrow> str" where
  "restored_status db r =
     (if f_status r = ''resolved''
      then (case previous_status_if_auto_resolved db (f_id r) of None \<Rightarrow> ''open'' | Some s \<Rightarrow> s)
      else f_status r)"

lemma previous_status_values:
  "previous_status_if_auto_resolved db i = Some s \<Longrightarrow> s = ''acknowledged''"
  by (auto simp: previous_status_if_auto_resolved_def split: option.splits if_splits)

lemma restored_status_values:
  "restored_status db r = (if f_status r = ''resolved'' then restored_status db r else f_status r)"
  "f_status r = ''resolved'' \<Longrightarrow> restored_status db r \<in> {''open'', ''acknowledged''}"
  by (auto simp: restored_status_def dest: previous_status_values split: option.splits)

lemma refresh_row_simps [simp]:
  "f_id (refresh_row cat src now d st r) = f_id r"
  "f_key (refresh_row cat src now d st r) = f_key r"
  by (simp_all add: refresh_row_def)

lemma refresh_row_ok:
  "row_ok r \<Longrightarrow> st \<in> {''open'', ''acknowledged''} \<Longrightarrow> row_ok (refresh_row cat src now d st r)"
  by (auto simp: row_ok_def refresh_row_def STATUSES_def)

definition reopen_status :: "fdb \<Rightarrow> finding \<Rightarrow> str" where
  "reopen_status db r =
     (if f_status r = ''resolved''
      then (case previous_status_if_auto_resolved db (f_id r) of None \<Rightarrow> ''open'' | Some s \<Rightarrow> s)
      else ''open'')"

lemma reopen_status_values: "reopen_status db r \<in> {''open'', ''acknowledged''}"
  by (auto simp: reopen_status_def dest: previous_status_values split: option.splits)

lemma apply_one_new:
  assumes "row_of db key = None"
  shows "fst (apply_one cat src now key d (db, res)) =
    add_event (next_row db) ''opened'' now None
      (db\<lparr>findings := findings db @ [new_row cat src now key d (next_row db)], next_row := next_row db + 1\<rparr>)"
  using assms by (simp add: apply_one_def Let_def)

lemma apply_one_old_findings:
  assumes "row_of db key = Some r"
  shows "findings (fst (apply_one cat src now key d (db, res))) =
      findings (update_row (f_id r) (refresh_row cat src now d (reopen_status db r)) db)"
    and "next_row (fst (apply_one cat src now key d (db, res))) = next_row db"
    and "\<forall>i. i \<noteq> f_id r \<longrightarrow> filter (\<lambda>e. ev_row e = i) (events (fst (apply_one cat src now key d (db, res)))) =
       filter (\<lambda>e. ev_row e = i) (events db)"
  using assms by (simp_all add: apply_one_def Let_def reopen_status_def, auto simp: add_event_def)

lemma fdb_ok_cong: "findings db = findings db' \<Longrightarrow> next_row db = next_row db' \<Longrightarrow> fdb_ok db = fdb_ok db'"
  by (simp add: fdb_ok_def)

lemma row_of_cong: "findings db = findings db' \<Longrightarrow> row_of db k = row_of db' k"
  by (simp add: row_of_def)

lemma apply_one_effect:
  assumes ok: "fdb_ok db"
  shows "fdb_ok (fst (apply_one cat src now key d (db, res)))"
    and "row_of (fst (apply_one cat src now key d (db, res))) k =
      (if k = key
       then Some (case row_of db key of
              None \<Rightarrow> new_row cat src now key d (next_row db)
            | Some r \<Rightarrow> refresh_row cat src now d (reopen_status db r) r)
       else row_of db k)"
proof -
  let ?db' = "fst (apply_one cat src now key d (db, res))"
  have "fdb_ok ?db' \<and> row_of ?db' k =
      (if k = key
       then Some (case row_of db key of
              None \<Rightarrow> new_row cat src now key d (next_row db)
            | Some r \<Rightarrow> refresh_row cat src now d (reopen_status db r) r)
       else row_of db k)"
  proof (cases "row_of db key")
    case None
    let ?nr = "new_row cat src now key d (next_row db)"
    have nr: "f_key ?nr = key" "f_id ?nr = next_row db" "row_ok ?nr"
      by (simp_all add: new_row_def row_ok_def STATUSES_def)
    have "fdb_ok ?db'"
      using ok None nr unfolding apply_one_new [OF None] row_of_None
      by (auto simp: fdb_ok_def)
    moreover have "List.find (\<lambda>r. f_key r = k) (xs @ [?nr]) =
        (case List.find (\<lambda>r. f_key r = k) xs of None \<Rightarrow> if k = key then Some ?nr else None | Some r \<Rightarrow> Some r)" for xs
      by (induction xs) (auto simp: nr)
    then have "row_of ?db' k = (if k = key then Some ?nr else row_of db k)"
      using None unfolding apply_one_new [OF None] by (auto simp: row_of_def split: option.splits)
    ultimately show ?thesis using None by simp
  next
    case (Some r)
    note eff = apply_one_old_findings [where cat = cat and src = src and now = now and d = d and res = res, OF Some]
    let ?f = "refresh_row cat src now d (reopen_status db r)"
    have r: "r \<in> set (findings db)" "f_key r = key"
      using Some row_of_Some [OF ok] by simp_all
    have "fdb_ok (update_row (f_id r) ?f db)"
      using ok r(1) reopen_status_values
      by (intro update_row_ok) (auto intro!: refresh_row_ok simp: fdb_ok_def)
    then have "fdb_ok ?db'" using eff(1,2) by (subst fdb_ok_cong [of _ "update_row (f_id r) ?f db"]) simp_all
    moreover have "row_of ?db' k = map_option (\<lambda>x. if f_id x = f_id r then ?f x else x) (row_of db k)"
      using eff(1) row_of_update_row [OF ok, of ?f] by (subst row_of_cong) simp_all
    moreover have "row_of db k = Some x \<Longrightarrow> f_id x = f_id r \<longleftrightarrow> k = key" for x
      using r row_of_Some [OF ok] fdb_ok_same_id [OF ok] fdb_ok_same_key [OF ok] by metis
    ultimately show ?thesis using Some by (cases "row_of db k") auto
  qed
  then show "fdb_ok ?db'" and "row_of ?db' k =
      (if k = key
       then Some (case row_of db key of
              None \<Rightarrow> new_row cat src now key d (next_row db)
            | Some r \<Rightarrow> refresh_row cat src now d (reopen_status db r) r)
       else row_of db k)" by simp_all
qed

text \<open>The trail of a row is only touched by operations on that row.\<close>

lemma previous_status_filter:
  "previous_status_if_auto_resolved db i =
     (case rev (filter (\<lambda>e. ev_row e = i) (events db)) of
        [] \<Rightarrow> None
      | e # _ \<Rightarrow> if ev_event e \<noteq> ''auto_resolved'' then None
          else if ev_note e = Some (AUTO_NOTE_PREFIX @ ''acknowledged'') then Some ''acknowledged'' else None)"
proof -
  have "List.find P xs = (case filter P xs of [] \<Rightarrow> None | e # _ \<Rightarrow> Some e)" for P and xs :: "finding_event list"
    by (induction xs) auto
  then show ?thesis
    unfolding previous_status_if_auto_resolved_def rev_filter
    by (auto split: list.splits option.splits)
qed

lemma apply_one_trail:
  assumes ok: "fdb_ok db" and "row_of db k = Some r" and "k \<noteq> key"
  shows "filter (\<lambda>e. ev_row e = f_id r) (events (fst (apply_one cat src now key d (db, res)))) =
    filter (\<lambda>e. ev_row e = f_id r) (events db)"
proof (cases "row_of db key")
  case None
  from assms(1,2) have "f_id r \<noteq> next_row db"
    using row_of_Some [OF ok] by (auto simp: fdb_ok_def)
  then show ?thesis unfolding apply_one_new [OF None] by (simp add: add_event_def)
next
  case (Some x)
  with assms have "f_id r \<noteq> f_id x"
    using row_of_Some [OF ok] fdb_ok_same_id [OF ok] by metis
  then show ?thesis using apply_one_old_findings(3) [OF Some] by blast
qed

lemma reopen_status_cong:
  "filter (\<lambda>e. ev_row e = f_id r) (events db) = filter (\<lambda>e. ev_row e = f_id r) (events db') \<Longrightarrow>
     reopen_status db r = reopen_status db' r"
  by (simp add: reopen_status_def previous_status_filter)

section \<open>The effect of a scan\<close>

abbreviation reported :: "finding_draft list \<Rightarrow> str \<Rightarrow> finding_draft option" where
  "reported ds k \<equiv> List.find (\<lambda>d. dedupe_key d = k) ds"

abbreviation trail :: "fdb \<Rightarrow> nat \<Rightarrow> finding_event list" where
  "trail db i \<equiv> filter (\<lambda>e. ev_row e = i) (events db)"

text \<open>What a row becomes when its key is reported, relative to the table before the scan.\<close>

definition drafted :: "catalog \<Rightarrow> str \<Rightarrow> stamp \<Rightarrow> fdb \<Rightarrow> str \<Rightarrow> finding_draft \<Rightarrow> finding option \<Rightarrow> bool" where
  "drafted cat src now db k d r' \<longleftrightarrow>
     (case row_of db k of
        Some r \<Rightarrow> r' = Some (refresh_row cat src now d (reopen_status db r) r)
      | None \<Rightarrow> (\<exists>i\<ge>next_row db. r' = Some (new_row cat src now k d i)))"

lemma apply_one_next_row: "next_row db \<le> next_row (fst (apply_one cat src now key d (db, res)))"
  by (cases "row_of db key") (simp_all add: apply_one_new apply_one_old_findings(2))

lemma apply_drafts_seen:
  "set (fst (apply_drafts cat src now ds seen st)) = set seen \<union> dedupe_key ` set ds"
  by (induction ds arbitrary: seen st) (auto simp: Let_def insert_absorb)

definition after_drafts ::
  "catalog \<Rightarrow> str \<Rightarrow> stamp \<Rightarrow> fdb \<Rightarrow> str list \<Rightarrow> finding_draft list \<Rightarrow> fdb \<Rightarrow> bool" where
  "after_drafts cat src now db seen ds db' \<longleftrightarrow>
     fdb_ok db' \<and> next_row db \<le> next_row db' \<and>
     (\<forall>k. case (if k \<in> set seen then None else reported ds k) of
        None \<Rightarrow> row_of db' k = row_of db k \<and>
          (\<forall>r. row_of db k = Some r \<longrightarrow> trail db' (f_id r) = trail db (f_id r))
      | Some d \<Rightarrow> drafted cat src now db k d (row_of db' k))"

lemma after_drafts_skip:
  "dedupe_key d \<in> set seen \<Longrightarrow> after_drafts cat src now db seen (d # ds) db' = after_drafts cat src now db seen ds db'"
  unfolding after_drafts_def by (intro conj_cong refl iff_allI) auto

lemma drafted_mono:
  assumes "row_of db1 k = row_of db k" and "next_row db \<le> next_row db1"
    and "\<And>r. row_of db k = Some r \<Longrightarrow> trail db1 (f_id r) = trail db (f_id r)"
    and "drafted cat src now db1 k d r'"
  shows "drafted cat src now db k d r'"
proof (cases "row_of db k")
  case None
  then show ?thesis using assms(1,2,4) order_trans unfolding drafted_def by fastforce
next
  case (Some r)
  then have "reopen_status db1 r = reopen_status db r" using assms(3) by (intro reopen_status_cong)
  then show ?thesis using Some assms(1,4) by (simp add: drafted_def)
qed

lemma after_drafts_step:
  assumes ok: "fdb_ok db" and new: "dedupe_key d \<notin> set seen"
    and rest: "after_drafts cat src now (fst (apply_one cat src now (dedupe_key d) d (db, res)))
                 (dedupe_key d # seen) ds db'"
  shows "after_drafts cat src now db seen (d # ds) db'"
proof -
  let ?db1 = "fst (apply_one cat src now (dedupe_key d) d (db, res))"
  note one = apply_one_effect [OF ok, of cat src now "dedupe_key d" d res]
  note next1 = apply_one_next_row [of db cat src now "dedupe_key d" d res]
  note rest' = rest [unfolded after_drafts_def]
  show ?thesis unfolding after_drafts_def
  proof (intro conjI allI)
    show "fdb_ok db'" using rest' by blast
    show "next_row db \<le> next_row db'" using rest' next1 by linarith
    fix k
    show "case if k \<in> set seen then None else reported (d # ds) k of
        None \<Rightarrow> row_of db' k = row_of db k \<and>
          (\<forall>r. row_of db k = Some r \<longrightarrow> trail db' (f_id r) = trail db (f_id r))
      | Some d' \<Rightarrow> drafted cat src now db k d' (row_of db' k)"
    proof (cases "k = dedupe_key d")
      case True
      with rest' [THEN conjunct2, THEN conjunct2, rule_format, of k] have "row_of db' k = row_of ?db1 k" by simp
      then show ?thesis using True new one(2) [of k] by (auto simp: drafted_def split: option.splits)
    next
      case other: False
      have row: "row_of ?db1 k = row_of db k" using one(2) [of k] other by simp
      have tr: "row_of db k = Some r \<Longrightarrow> trail ?db1 (f_id r) = trail db (f_id r)" for r
        using apply_one_trail [OF ok] other by blast
      note mono = drafted_mono [OF row next1 tr]
      from rest' have "case if k \<in> set seen then None else reported ds k of
          None \<Rightarrow> row_of db' k = row_of ?db1 k \<and>
            (\<forall>r. row_of ?db1 k = Some r \<longrightarrow> trail db' (f_id r) = trail ?db1 (f_id r))
        | Some d' \<Rightarrow> drafted cat src now ?db1 k d' (row_of db' k)"
        using rest' [THEN conjunct2, THEN conjunct2, rule_format, of k] other by simp
      then show ?thesis
        using other row tr mono by (cases "k \<in> set seen"; cases "reported ds k") auto
    qed
  qed
qed

lemma apply_drafts_effect:
  "fdb_ok db \<Longrightarrow> after_drafts cat src now db seen ds (fst (snd (apply_drafts cat src now ds seen (db, res))))"
proof (induction ds arbitrary: seen db res)
  case Nil
  then show ?case by (simp add: after_drafts_def)
next
  case (Cons d ds)
  show ?case
  proof (cases "dedupe_key d \<in> set seen")
    case True
    then show ?thesis using Cons by (simp add: Let_def after_drafts_skip)
  next
    case False
    obtain db1 res1 where st: "apply_one cat src now (dedupe_key d) d (db, res) = (db1, res1)" by fastforce
    have "fdb_ok db1" using apply_one_effect(1) [OF Cons.prems] st by (metis fst_conv)
    then show ?thesis
      using after_drafts_step [OF Cons.prems False, of cat src now res ds] Cons.IH False
      by (simp add: Let_def st)
  qed
qed

definition close_row :: "stamp \<Rightarrow> finding \<Rightarrow> finding" where
  "close_row now r = r\<lparr>f_status := ''resolved'', f_resolved_at := Some now\<rparr>"

definition close_event :: "stamp \<Rightarrow> finding \<Rightarrow> finding_event" where
  "close_event now r =
     \<lparr>ev_row = f_id r, ev_event = ''auto_resolved'', ev_at = now, ev_note = Some (AUTO_NOTE_PREFIX @ f_status r)\<rparr>"

text \<open>A row a scan may resolve, and one it does resolve.\<close>

definition stale :: "str \<Rightarrow> str list \<Rightarrow> str list \<Rightarrow> finding \<Rightarrow> bool" where
  "stale source seen scopes r \<longleftrightarrow> f_key r \<notin> set seen \<and> f_source r = source \<and>
     (\<exists>s\<in>set scopes. in_scope s (f_subject r)) \<and> f_status r \<in> {''open'', ''acknowledged''}"

lemma close_row_simps [simp]:
  "f_id (close_row now r) = f_id r" "f_key (close_row now r) = f_key r"
  "f_source (close_row now r) = f_source r" "f_subject (close_row now r) = f_subject r"
  "f_status (close_row now r) = ''resolved''" "close_row now (close_row now r) = close_row now r"
  by (simp_all add: close_row_def)

lemma close_row_ok: "row_ok r \<Longrightarrow> row_ok (close_row now r)"
  by (simp add: row_ok_def close_row_def STATUSES_def)

lemma stale_close_row [simp]: "\<not> stale source seen scopes (close_row now r)"
  by (simp add: stale_def)

lemma resolve_row_db:
  "fst (resolve_row now r (db, res)) =
     (update_row (f_id r) (close_row now) db)\<lparr>events := events db @ [close_event now r]\<rparr>"
  by (simp add: resolve_row_def Let_def add_event_def close_event_def close_row_def [abs_def])

lemma fold_resolve:
  "findings (fst (fold (resolve_row now) rs st)) =
     map (\<lambda>r. if f_id r \<in> f_id ` set rs then close_row now r else r) (findings (fst st))"
  "events (fst (fold (resolve_row now) rs st)) = events (fst st) @ map (close_event now) rs"
  "next_row (fst (fold (resolve_row now) rs st)) = next_row (fst st)"
  "devices (fst (fold (resolve_row now) rs st)) = devices (fst st)"
proof (induction rs arbitrary: st)
  case (Cons r rs)
  have db1: "fst (resolve_row now r st) =
      (update_row (f_id r) (close_row now) (fst st))\<lparr>events := events (fst st) @ [close_event now r]\<rparr>" for st
    using resolve_row_db [of now r "fst st" "snd st"] by simp
  { case 1 show ?case unfolding fold_Cons o_def Cons.IH db1 by (auto simp: update_row_def) }
  { case 2 show ?case unfolding fold_Cons o_def Cons.IH db1 by simp }
  { case 3 show ?case unfolding fold_Cons o_def Cons.IH db1 by simp }
  { case 4 show ?case unfolding fold_Cons o_def Cons.IH db1 by simp }
qed simp_all

lemma auto_resolve_alt:
  "auto_resolve source seen now scope st =
     fold (resolve_row now) (filter (stale source seen [scope]) (findings (fst st))) st"
proof -
  have "filter (\<lambda>r. f_key r \<notin> set seen)
      (filter (\<lambda>r. f_source r = source \<and> in_scope scope (f_subject r) \<and> f_status r \<in> {''open'', ''acknowledged''}) xs)
      = filter (stale source seen [scope]) xs" for xs
    by (induction xs) (simp_all add: stale_def)
  then show ?thesis unfolding auto_resolve_def by simp
qed

lemma auto_resolve_findings:
  assumes ok: "fdb_ok (fst st)"
  shows "findings (fst (auto_resolve source seen now scope st)) =
    map (\<lambda>r. if stale source seen [scope] r then close_row now r else r) (findings (fst st))"
proof -
  have "f_id r \<in> f_id ` set (filter P (findings (fst st))) \<longleftrightarrow> P r" if "r \<in> set (findings (fst st))" for r P
    using that fdb_ok_same_id [OF ok that] by auto
  then show ?thesis
    unfolding auto_resolve_alt fold_resolve by (simp cong: map_cong)
qed

lemma filter_unique:
  "distinct (map g xs) \<Longrightarrow> x \<in> set xs \<Longrightarrow> filter (\<lambda>y. g y = g x) (filter P xs) = (if P x then [x] else [])"
proof (induction xs)
  case (Cons y ys)
  have "filter (\<lambda>z. g z = g x) (filter P ys) = []" if "x = y"
    using Cons.prems that by (auto simp: filter_empty_conv) (metis imageI)
  moreover have "g y \<noteq> g x" if "x \<noteq> y"
    using Cons.prems that by auto
  ultimately show ?case using Cons by auto
qed simp

lemma auto_resolve_trail:
  assumes ok: "fdb_ok (fst st)" and r: "r \<in> set (findings (fst st))"
  shows "trail (fst (auto_resolve source seen now scope st)) (f_id r) =
    trail (fst st) (f_id r) @ (if stale source seen [scope] r then [close_event now r] else [])"
proof -
  have "filter (\<lambda>e. ev_row e = f_id r) (map (close_event now) xs) = map (close_event now) (filter (\<lambda>x. f_id x = f_id r) xs)" for xs
    by (induction xs) (auto simp: close_event_def)
  moreover have "distinct (map f_id (findings (fst st)))" using ok by (simp add: fdb_ok_def)
  ultimately show ?thesis
    using filter_unique [of f_id "findings (fst st)" r "stale source seen [scope]"] r
    by (simp add: auto_resolve_alt fold_resolve)
qed

lemma stale_Cons: "stale source seen (s # ss) r \<longleftrightarrow> stale source seen [s] r \<or> stale source seen ss r"
  by (auto simp: stale_def)

lemma close_rows_ok:
  assumes "fdb_ok db"
    and "findings db' = map (\<lambda>r. if P r then close_row now r else r) (findings db)" and "next_row db' = next_row db"
  shows "fdb_ok db'"
proof -
  have "map f_key (findings db') = map f_key (findings db)" "map f_id (findings db') = map f_id (findings db)"
    by (simp_all add: assms(2))
  moreover have "\<forall>r\<in>set (findings db'). f_id r < next_row db' \<and> row_ok r"
    using assms(1,3) by (auto simp: fdb_ok_def assms(2) close_row_ok)
  ultimately show ?thesis using assms(1) unfolding fdb_ok_def by metis
qed

lemma auto_resolve_step:
  assumes ok: "fdb_ok (fst st)"
  shows "findings (fst (auto_resolve source seen now s st)) =
      map (\<lambda>r. if stale source seen [s] r then close_row now r else r) (findings (fst st))"
    and "next_row (fst (auto_resolve source seen now s st)) = next_row (fst st)"
    and "fdb_ok (fst (auto_resolve source seen now s st))"
proof -
  show f: "findings (fst (auto_resolve source seen now s st)) =
      map (\<lambda>r. if stale source seen [s] r then close_row now r else r) (findings (fst st))"
    by (rule auto_resolve_findings [OF ok])
  show n: "next_row (fst (auto_resolve source seen now s st)) = next_row (fst st)"
    by (simp add: auto_resolve_alt fold_resolve(3))
  show "fdb_ok (fst (auto_resolve source seen now s st))" by (rule close_rows_ok [OF ok f n])
qed

lemma scopes_effect:
  assumes "fdb_ok (fst st)"
  shows "fdb_ok (fst (fold (auto_resolve source seen now) scopes st))"
    and "findings (fst (fold (auto_resolve source seen now) scopes st)) =
      map (\<lambda>r. if stale source seen scopes r then close_row now r else r) (findings (fst st))"
    and "r \<in> set (findings (fst st)) \<Longrightarrow>
      trail (fst (fold (auto_resolve source seen now) scopes st)) (f_id r) =
      trail (fst st) (f_id r) @ (if stale source seen scopes r then [close_event now r] else [])"
    and "next_row (fst (fold (auto_resolve source seen now) scopes st)) = next_row (fst st)"
  using assms
proof (induction scopes arbitrary: st r)
  case Nil
  { case 2 show ?case by (simp add: stale_def) }
  { case 3 show ?case by (simp add: stale_def) }
next
  case (Cons s ss)
  note one = auto_resolve_step [of _ source seen now s]
  { case 1 show ?case using Cons.IH(1) [OF one(3) [OF 1]] by simp }
  { case 2 show ?case using Cons.IH(2) [OF one(3) [OF 2]] one(1) [OF 2] by (auto simp: stale_Cons [of _ _ s ss]) }
  { case 3
    let ?r = "if stale source seen [s] r then close_row now r else r"
    have "?r \<in> set (findings (fst (auto_resolve source seen now s st)))" using 3(1) unfolding one(1) [OF 3(2)] by (auto intro!: image_eqI)
    from Cons.IH(3) [OF this one(3) [OF 3(2)]] show ?case
      using auto_resolve_trail [OF 3(2,1), of source seen now s]
      by (auto simp: stale_Cons [of _ _ s ss] split: if_splits) }
  { case 4 show ?case using one(2) [OF 4] Cons.IH(4) [OF one(3) [OF 4]] by simp }
qed simp_all

lemma reported_None: "reported ds k = None \<longleftrightarrow> k \<notin> dedupe_key ` set ds"
  by (auto simp: find_None_iff)

lemma apply_drafts_keys: "set (fst (apply_drafts cat src now ds [] st)) = dedupe_key ` set ds"
  using apply_drafts_seen [of cat src now ds "[]" st] by simp

lemma row_of_map:
  assumes "findings db' = map f (findings db)" and "\<And>r. f_key (f r) = f_key r"
  shows "row_of db' k = map_option f (row_of db k)"
proof -
  have "List.find (\<lambda>r. f_key r = k) (map f xs) = map_option f (List.find (\<lambda>r. f_key r = k) xs)" for xs
    by (induction xs) (auto simp: assms(2))
  then show ?thesis by (simp add: row_of_def assms(1))
qed

lemma apply_scan_split:
  "fst (apply_scan cat db ds source scopes now) =
     fst (fold (auto_resolve source (fst (apply_drafts cat source now ds [] (db, empty_result))) now) scopes
       (snd (apply_drafts cat source now ds [] (db, empty_result))))"
  by (simp add: apply_scan_def case_prod_beta Let_def)

text \<open>The scan as a whole; the first draft of a key is the one that counts.\<close>

definition scanned :: "catalog \<Rightarrow> fdb \<Rightarrow> finding_draft list \<Rightarrow> str \<Rightarrow> str list \<Rightarrow> stamp \<Rightarrow> fdb \<Rightarrow> bool" where
  "scanned cat db ds source scopes now db' \<longleftrightarrow>
     fdb_ok db' \<and>
     (\<forall>k. case reported ds k of
        Some d \<Rightarrow> drafted cat source now db k d (row_of db' k)
      | None \<Rightarrow>
          row_of db' k =
            map_option (\<lambda>r. if stale source [] scopes r then close_row now r else r) (row_of db k) \<and>
          (\<forall>r. row_of db k = Some r \<longrightarrow>
             trail db' (f_id r) =
               trail db (f_id r) @ (if stale source [] scopes r then [close_event now r] else [])))"

lemma apply_scan_scanned:
  assumes ok: "fdb_ok db"
  shows "scanned cat db ds source scopes now (fst (apply_scan cat db ds source scopes now))"
proof -
  obtain seen db1 res where ad: "apply_drafts cat source now ds [] (db, empty_result) = (seen, db1, res)"
    by (metis prod_cases3)
  let ?db' = "fst (apply_scan cat db ds source scopes now)"
  have seen: "set seen = dedupe_key ` set ds"
    using apply_drafts_keys [of cat source now ds "(db, empty_result)"] ad by simp
  have aft: "after_drafts cat source now db [] ds db1"
    using apply_drafts_effect [OF ok, of cat source now "[]" ds empty_result] ad by simp
  then have ok1: "fdb_ok (fst (db1, res))" by (simp add: after_drafts_def)
  have db': "?db' = fst (fold (auto_resolve source seen now) scopes (db1, res))"
    by (simp add: apply_scan_split ad)
  note sc = scopes_effect [where source = source and seen = seen and now = now and scopes = scopes, OF ok1,
      folded db', unfolded fst_conv]
  have rows: "row_of ?db' k = map_option (\<lambda>r. if stale source seen scopes r then close_row now r else r) (row_of db1 k)" for k
    by (rule row_of_map [OF sc(2)]) simp
  have st: "stale source seen scopes r = (f_key r \<notin> dedupe_key ` set ds \<and> stale source [] scopes r)" for r
    by (auto simp: stale_def seen)
  have key1: "row_of db1 k = Some r \<Longrightarrow> f_key r = k \<and> r \<in> set (findings db1)" for k r
    using row_of_Some [of db1] ok1 by simp
  have key: "row_of db k = Some r \<Longrightarrow> f_key r = k" for k r
    using row_of_Some [OF ok] by simp
  show ?thesis unfolding scanned_def
  proof (intro conjI allI)
    show "fdb_ok ?db'" by (rule sc(1))
    fix k
    have aftk: "case reported ds k of
        None \<Rightarrow> row_of db1 k = row_of db k \<and> (\<forall>r. row_of db k = Some r \<longrightarrow> trail db1 (f_id r) = trail db (f_id r))
      | Some d \<Rightarrow> drafted cat source now db k d (row_of db1 k)"
      using aft [unfolded after_drafts_def, THEN conjunct2, THEN conjunct2, rule_format, of k] by simp
    show "case reported ds k of
        Some d \<Rightarrow> drafted cat source now db k d (row_of ?db' k)
      | None \<Rightarrow>
          row_of ?db' k =
            map_option (\<lambda>r. if stale source [] scopes r then close_row now r else r) (row_of db k) \<and>
          (\<forall>r. row_of db k = Some r \<longrightarrow>
             trail ?db' (f_id r) =
               trail db (f_id r) @ (if stale source [] scopes r then [close_event now r] else []))"
    proof (cases "reported ds k")
      case None
      then have nk: "k \<notin> dedupe_key ` set ds" using reported_None by blast
      have "row_of ?db' k = map_option (\<lambda>r. if stale source [] scopes r then close_row now r else r) (row_of db k)"
        using None aftk nk key unfolding rows by (cases "row_of db k") (auto simp: st)
      moreover have "trail ?db' (f_id r) = trail db (f_id r) @ (if stale source [] scopes r then [close_event now r] else [])"
        if r: "row_of db k = Some r" for r
      proof -
        have "row_of db1 k = Some r" and "trail db1 (f_id r) = trail db (f_id r)"
          using None aftk r by simp_all
        then show ?thesis using sc(3) key1 nk st by simp
      qed
      ultimately show ?thesis using None by simp
    next
      case (Some d)
      then have "k \<in> dedupe_key ` set ds" using reported_None by (metis option.distinct(1))
      then have "row_of ?db' k = row_of db1 k"
        using key1 unfolding rows by (cases "row_of db1 k") (auto simp: st)
      then show ?thesis using Some aftk by simp
    qed
  qed
qed

text \<open>
  C5. The effect of one scan, for every dedupe key. A reported key has a row afterwards: a new
  open one, or the old one refreshed from the first draft that carries the key (reopened to its
  remembered status when it was resolved, its status kept otherwise). An unreported row is closed
  exactly when it is open or acknowledged, belongs to the scan's source and lies in one of its
  scopes; every other row is left as it was, with its trail.
\<close>

theorem scan_effect:
  assumes "fdb_ok db"
  shows "(let db' = fst (apply_scan cat db ds source scopes now)
    in case reported ds k of
        Some d \<Rightarrow>
          (case row_of db k of
             Some r \<Rightarrow> row_of db' k = Some (refresh_row cat source now d (reopen_status db r) r)
           | None \<Rightarrow> (\<exists>i\<ge>next_row db. row_of db' k = Some (new_row cat source now k d i)))
      | None \<Rightarrow>
          row_of db' k =
            map_option (\<lambda>r. if stale source [] scopes r then close_row now r else r) (row_of db k) \<and>
          (\<forall>r. row_of db k = Some r \<longrightarrow>
             trail db' (f_id r) =
               trail db (f_id r) @ (if stale source [] scopes r then [close_event now r] else [])))"
  using apply_scan_scanned [OF assms] unfolding scanned_def drafted_def Let_def by blast

definition demo_catalog :: catalog where
  "demo_catalog = \<lparr>render = (\<lambda>d. (d_finding_id d, d_subject d)), default_severity = (\<lambda>_. None)\<rparr>"

definition demo_draft :: "str \<Rightarrow> finding_draft" where
  "demo_draft subject = \<lparr>d_finding_id = ''NET-PORT-001'', d_subject = subject, d_key = None, d_evidence = [],
     d_severity = None, d_device_id = None\<rparr>"

definition empty_fdb :: fdb where
  "empty_fdb = \<lparr>findings = [], events = [], next_row = 1, devices = []\<rparr>"

lemma empty_fdb_ok: "fdb_ok empty_fdb"
  by (simp add: empty_fdb_def fdb_ok_def)

lemma scan_effect_witness:
  "(let db' = fst (apply_scan demo_catalog empty_fdb [demo_draft ''device:a''] ''ports'' [''device:''] 5)
    in \<exists>i\<ge>1. row_of db' ''NET-PORT-001|device:a'' =
       Some (new_row demo_catalog ''ports'' 5 ''NET-PORT-001|device:a'' (demo_draft ''device:a'') i))"
proof -
  have "reported [demo_draft ''device:a''] ''NET-PORT-001|device:a'' = Some (demo_draft ''device:a'')"
    and "row_of empty_fdb ''NET-PORT-001|device:a'' = None" and "next_row empty_fdb = 1"
    by code_simp+
  then show ?thesis
    using scan_effect [OF empty_fdb_ok, where k = "''NET-PORT-001|device:a''" and cat = demo_catalog
        and ds = "[demo_draft ''device:a'']" and source = "''ports''" and scopes = "[''device:'']" and now = 5]
    by (simp add: Let_def)
qed

section \<open>What a user decided survives rescans\<close>

record scan =
  sc_drafts :: "finding_draft list"
  sc_source :: str
  sc_scopes :: "str list"
  sc_at :: stamp

definition run_scan :: "catalog \<Rightarrow> scan \<Rightarrow> fdb \<Rightarrow> fdb" where
  "run_scan cat s db = fst (apply_scan cat db (sc_drafts s) (sc_source s) (sc_scopes s) (sc_at s))"

text \<open>The status the next report of a key leads to.\<close>

definition standing :: "fdb \<Rightarrow> finding \<Rightarrow> str" where
  "standing db r = (if f_status r = ''resolved'' then reopen_status db r else f_status r)"

lemma run_scan_ok: "fdb_ok db \<Longrightarrow> fdb_ok (run_scan cat s db)"
  using apply_scan_scanned unfolding run_scan_def scanned_def by blast

lemma refresh_row_status:
  "f_status (refresh_row cat src now d (reopen_status db r) r) = standing db r"
  by (simp add: refresh_row_def standing_def)

lemma run_scan_reported:
  assumes "fdb_ok db" and "row_of db k = Some r" and "k \<in> dedupe_key ` set (sc_drafts s)"
  shows "\<exists>r'. row_of (run_scan cat s db) k = Some r' \<and> f_status r' = standing db r"
proof -
  obtain d where "reported (sc_drafts s) k = Some d"
    using assms(3) reported_None [of k "sc_drafts s"] by (cases "reported (sc_drafts s) k") simp_all
  then show ?thesis
    using apply_scan_scanned [OF assms(1), of cat "sc_drafts s" "sc_source s" "sc_scopes s" "sc_at s"] assms(2)
    by (auto simp: scanned_def run_scan_def drafted_def refresh_row_status dest: spec [of _ k])
qed

lemma reopen_after_close:
  assumes "trail db' (f_id r) = trail db (f_id r) @ [close_event now r]"
    and "f_status r \<in> {''open'', ''acknowledged''}"
  shows "standing db' (close_row now r) = f_status r"
  using assms by (auto simp: standing_def reopen_status_def previous_status_filter close_event_def AUTO_NOTE_PREFIX_def)

lemma run_scan_standing:
  assumes ok: "fdb_ok db" and r: "row_of db k = Some r" and st: "standing db r \<in> {''acknowledged'', ''suppressed''}"
  shows "\<exists>r'. row_of (run_scan cat s db) k = Some r' \<and>
    standing (run_scan cat s db) r' = standing db r \<and> (f_status r = ''suppressed'' \<longrightarrow> f_status r' = ''suppressed'')"
proof (cases "reported (sc_drafts s) k")
  case (Some d)
  then have "k \<in> dedupe_key ` set (sc_drafts s)" by (metis reported_None option.distinct(1))
  then obtain r' where "row_of (run_scan cat s db) k = Some r'" "f_status r' = standing db r"
    using run_scan_reported [OF ok r] by blast
  then show ?thesis using st by (auto simp: standing_def)
next
  case None
  let ?db' = "run_scan cat s db"
  let ?P = "stale (sc_source s) [] (sc_scopes s) r"
  have row: "row_of ?db' k = Some (if ?P then close_row (sc_at s) r else r)"
    and tr: "trail ?db' (f_id r) = trail db (f_id r) @ (if ?P then [close_event (sc_at s) r] else [])"
    using apply_scan_scanned [OF ok, of cat "sc_drafts s" "sc_source s" "sc_scopes s" "sc_at s"] None r
    by (auto simp: scanned_def run_scan_def dest: spec [of _ k])
  show ?thesis
  proof (cases ?P)
    case True
    then have open_r: "f_status r \<in> {''open'', ''acknowledged''}" by (simp add: stale_def)
    then have "standing ?db' (close_row (sc_at s) r) = f_status r"
      using tr True by (intro reopen_after_close) simp_all
    then show ?thesis using row True open_r by (auto simp: standing_def)
  next
    case False
    then have "standing ?db' r = standing db r"
      using tr reopen_status_cong [of r ?db' db] by (simp add: standing_def)
    then show ?thesis using row False by simp
  qed
qed

lemma run_scans_standing:
  assumes "fdb_ok db" and "row_of db k = Some r" and "standing db r \<in> {''acknowledged'', ''suppressed''}"
  shows "\<exists>r'. row_of (fold (run_scan cat) ss db) k = Some r' \<and>
    standing (fold (run_scan cat) ss db) r' = standing db r \<and>
    (f_status r = ''suppressed'' \<longrightarrow> f_status r' = ''suppressed'')"
  using assms
proof (induction ss arbitrary: db r)
  case (Cons s ss)
  obtain r' where r': "row_of (run_scan cat s db) k = Some r'"
    "standing (run_scan cat s db) r' = standing db r" "f_status r = ''suppressed'' \<longrightarrow> f_status r' = ''suppressed''"
    using run_scan_standing [OF Cons.prems] by blast
  with Cons.IH [OF run_scan_ok [OF Cons.prems(1)] r'(1)] Cons.prems(3) show ?case by auto
qed simp

text \<open>
  C6. A user's decision survives rescans: after any sequence of scans, by whatever sources, a
  suppressed row is still suppressed, and an acknowledged row that the last scan reports is
  acknowledged, however often it was auto-resolved and reopened in between.
\<close>

theorem decision_survives_scans:
  assumes "fdb_ok db" and "row_of db k = Some r" and "f_status r \<in> {''acknowledged'', ''suppressed''}"
    and "k \<in> dedupe_key ` set (sc_drafts s)"
  shows "\<exists>r'. row_of (run_scan cat s (fold (run_scan cat) ss db)) k = Some r' \<and> f_status r' = f_status r"
proof -
  have st: "standing db r = f_status r" using assms(3) by (auto simp: standing_def)
  with assms(3) have "standing db r \<in> {''acknowledged'', ''suppressed''}" by simp
  from run_scans_standing [OF assms(1,2) this, of cat ss] obtain r1
    where r1: "row_of (fold (run_scan cat) ss db) k = Some r1"
      "standing (fold (run_scan cat) ss db) r1 = f_status r" using st by auto
  have "fdb_ok (fold (run_scan cat) ss db)"
    using assms(1) by (induction ss arbitrary: db) (simp_all add: run_scan_ok)
  from run_scan_reported [OF this r1(1) assms(4)] r1(2) show ?thesis by simp
qed

definition demo_db :: fdb where
  "demo_db = (case set_status (fst (apply_scan demo_catalog empty_fdb [demo_draft ''device:a''] ''ports'' [''device:''] 5))
      1 ''acknowledged'' None 6 of Inr db \<Rightarrow> db | Inl _ \<Rightarrow> empty_fdb)"

definition scan_with :: "finding_draft list \<Rightarrow> stamp \<Rightarrow> scan" where
  "scan_with ds now = \<lparr>sc_drafts = ds, sc_source = ''ports'', sc_scopes = [''device:''], sc_at = now\<rparr>"

lemma decision_survives_scans_witness:
  "\<exists>r'. row_of (run_scan demo_catalog (scan_with [demo_draft ''device:a''] 9)
       (fold (run_scan demo_catalog) [scan_with [] 7, scan_with [] 8] demo_db)) ''NET-PORT-001|device:a'' = Some r' \<and>
     f_status r' = ''acknowledged''"
proof -
  obtain r where r: "row_of demo_db ''NET-PORT-001|device:a'' = Some r" "f_status r = ''acknowledged''"
  proof -
    have "map_option f_status (row_of demo_db ''NET-PORT-001|device:a'') = Some ''acknowledged''" by code_simp
    then show thesis using that by auto
  qed
  have "fdb_ok demo_db" by code_simp
  then show ?thesis
    using decision_survives_scans [OF _ r(1), of "scan_with [demo_draft ''device:a''] 9" demo_catalog
        "[scan_with [] 7, scan_with [] 8]"] r(2)
    by (simp add: scan_with_def dedupe_key_def demo_draft_def)
qed

section \<open>Closing new-device findings\<close>

lemma fetch_member: "fdb_ok db \<Longrightarrow> r \<in> set (findings db) \<Longrightarrow> fetch db (f_id r) = [r]"
  unfolding fetch_def using find_eq_Some_distinct [of f_id "findings db" "f_id r" r] by (auto simp: fdb_ok_def)

definition user_close_event :: "stamp \<Rightarrow> str \<Rightarrow> finding \<Rightarrow> finding_event" where
  "user_close_event now note r = \<lparr>ev_row = f_id r, ev_event = ''resolved'', ev_at = now, ev_note = Some note\<rparr>"

lemma set_status_resolved:
  assumes "r \<in> set (findings db)"
  shows "set_status db (f_id r) ''resolved'' (Some note) now =
    Inr ((update_row (f_id r) (close_row now) db)\<lparr>events := events db @ [user_close_event now note r]\<rparr>)"
  using assms
  by (auto simp: set_status_def STATUSES_def list_ex_iff add_event_def user_close_event_def close_row_def [abs_def] Let_def)

text \<open>The closing loop on rows that are all in the table: none is refused.\<close>

lemma close_all_effect:
  assumes "fdb_ok db" and "\<forall>r\<in>set rs. \<exists>x\<in>set (findings db). f_id x = f_id r"
  shows "findings (snd (close_all rs note now db acc)) =
      map (\<lambda>r. if f_id r \<in> f_id ` set rs then close_row now r else r) (findings db) \<and>
    events (snd (close_all rs note now db acc)) = events db @ map (user_close_event now note) rs \<and>
    next_row (snd (close_all rs note now db acc)) = next_row db \<and>
    devices (snd (close_all rs note now db acc)) = devices db \<and>
    map f_id (fst (close_all rs note now db acc)) = map f_id acc @ map f_id rs"
  using assms
proof (induction rs arbitrary: db acc)
  case (Cons r rs)
  let ?db = "(update_row (f_id r) (close_row now) db)\<lparr>events := events db @ [user_close_event now note r]\<rparr>"
  obtain x where x: "x \<in> set (findings db)" "f_id x = f_id r" using Cons.prems(2) by auto
  have ev: "user_close_event now note x = user_close_event now note r" using x(2) by (simp add: user_close_event_def)
  have set: "set_status db (f_id r) ''resolved'' (Some note) now = Inr ?db"
    using set_status_resolved [OF x(1), of "note" now] x(2) ev by simp
  have fs: "findings ?db = map (\<lambda>y. if f_id y = f_id r then close_row now y else y) (findings db)"
    by (simp add: update_row_def)
  have ok: "fdb_ok ?db" by (rule close_rows_ok [OF Cons.prems(1) fs]) simp
  have "close_row now x \<in> set (findings ?db)" using x unfolding fs by (auto intro!: image_eqI)
  from fetch_member [OF ok this] x(2) have "map f_id (fetch ?db (f_id r)) = [f_id r]" by simp
  moreover have "\<forall>y\<in>set rs. \<exists>z\<in>set (findings ?db). f_id z = f_id y"
  proof
    fix y assume "y \<in> set rs"
    then obtain z where z: "z \<in> set (findings db)" "f_id z = f_id y" using Cons.prems(2) by auto
    then have "(if f_id z = f_id r then close_row now z else z) \<in> set (findings ?db)" unfolding fs by auto
    then show "\<exists>z\<in>set (findings ?db). f_id z = f_id y" using z(2) by (metis close_row_simps(1))
  qed
  note IH = Cons.IH [OF ok this, of "acc @ fetch ?db (f_id r)"]
  have step: "close_all (r # rs) note now db acc = close_all rs note now ?db (acc @ fetch ?db (f_id r))"
    by (simp add: set)
  have "map (\<lambda>y. if f_id y \<in> f_id ` set rs then close_row now y else y) (findings ?db) =
      map (\<lambda>y. if f_id y \<in> f_id ` set (r # rs) then close_row now y else y) (findings db)"
    unfolding fs by auto
  then show ?case
    using IH calculation unfolding step by (simp add: update_row_def)
qed simp

lemma set_trusted_simps [simp]:
  "findings (set_trusted i t db) = findings db" "events (set_trusted i t db) = events db"
  "next_row (set_trusted i t db) = next_row db"
  by (simp_all add: set_trusted_def)

lemma fold_set_trusted:
  "devices (fold (\<lambda>d db. set_trusted (dev_id d) True db) ds db) =
     map (\<lambda>d. if dev_id d \<in> dev_id ` set ds then d\<lparr>dev_trusted := True\<rparr> else d) (devices db)"
  "findings (fold (\<lambda>d db. set_trusted (dev_id d) True db) ds db) = findings db"
  "events (fold (\<lambda>d db. set_trusted (dev_id d) True db) ds db) = events db"
  "next_row (fold (\<lambda>d db. set_trusted (dev_id d) True db) ds db) = next_row db"
proof (induction ds arbitrary: db)
  case (Cons d ds)
  { case 1 show ?case unfolding fold_Cons o_def Cons.IH by (auto simp: set_trusted_def) }
  { case 2 show ?case unfolding fold_Cons o_def Cons.IH by simp }
  { case 3 show ?case unfolding fold_Cons o_def Cons.IH by simp }
  { case 4 show ?case unfolding fold_Cons o_def Cons.IH by simp }
qed simp_all

definition outstanding :: "finding \<Rightarrow> bool" where
  "outstanding r \<longleftrightarrow> f_finding_id r = NEW_DEVICE_FINDING_ID \<and> f_status r \<in> {''open'', ''acknowledged''}"

lemma new_device_findings_all: "new_device_findings db None = filter outstanding (findings db)"
  by (simp add: new_device_findings_def outstanding_def [abs_def])

text \<open>
  The baseline accepts the inventory: run for real with \<open>trust_all\<close>, it closes exactly the
  outstanding new-device findings with one event each, leaves every other row as it was, and
  marks every device trusted. The dry run writes nothing and reports the same rows and devices.
\<close>

theorem baseline_accepts_inventory:
  assumes "fdb_ok db" and "distinct (map dev_id (devices db))"
  shows "(let (dry, db0) = baseline_devices db True True note now;
              (res, db') = baseline_devices db True False note now
          in db0 = db \<and> map f_id (br_resolved dry) = map f_id (br_resolved res) \<and>
             br_trusted dry = br_trusted res \<and>
             findings db' = map (\<lambda>r. if outstanding r then close_row now r else r) (findings db) \<and>
             events db' = events db @ map (user_close_event now note) (filter outstanding (findings db)) \<and>
             devices db' = map (\<lambda>d. d\<lparr>dev_trusted := True\<rparr>) (devices db))"
proof -
  let ?tt = "filter (\<lambda>d. \<not> dev_trusted d) (devices db)"
  let ?db1 = "fold (\<lambda>d db. set_trusted (dev_id d) True db) ?tt db"
  have ok1: "fdb_ok ?db1" using assms(1) by (subst fdb_ok_cong [of _ db]) (simp_all add: fold_set_trusted)
  have nd: "new_device_findings ?db1 None = filter outstanding (findings db)"
    by (simp add: new_device_findings_all fold_set_trusted(2))
  let ?rows = "filter outstanding (findings db)"
  have "\<forall>r\<in>set ?rows. \<exists>x\<in>set (findings ?db1). f_id x = f_id r" by (auto simp: fold_set_trusted(2))
  note ca = close_all_effect [OF ok1 this, of "note" now "[]", unfolded fold_set_trusted(2-4)]
  have "f_id r \<in> f_id ` set ?rows \<longleftrightarrow> outstanding r" if "r \<in> set (findings db)" for r
    using that fdb_ok_same_id [OF assms(1) that] by auto
  then have "map (\<lambda>r. if f_id r \<in> f_id ` set ?rows then close_row now r else r) (findings db) =
      map (\<lambda>r. if outstanding r then close_row now r else r) (findings db)"
    by (intro map_cong refl) simp
  note ca' = trans [OF ca [THEN conjunct1] this]
  have "dev_id d \<in> dev_id ` set ?tt \<longleftrightarrow> \<not> dev_trusted d" if "d \<in> set (devices db)" for d
    using that assms(2) by (auto simp: distinct_map inj_on_def)
  then have "devices ?db1 = map (\<lambda>d. d\<lparr>dev_trusted := True\<rparr>) (devices db)"
    unfolding fold_set_trusted(1) by (intro map_cong) auto
  then show ?thesis
    using ca ca' by (simp add: baseline_devices_def accept_new_device_findings_def Let_def nd
        new_device_findings_all fold_set_trusted case_prod_beta)
qed

definition demo_devices :: fdb where
  "demo_devices = \<lparr>findings = [\<lparr>f_id = 1, f_finding_id = ''NET-DEV-001'', f_subject = ''device:a'', f_key = ''k'',
       f_severity = ''medium'', f_title = [], f_detail = [], f_evidence = [], f_status = ''open'', f_source = ''discovery'',
       f_first_seen = 1, f_last_seen = 1, f_occurrences = 1, f_device_id = Some 4, f_resolved_at = None\<rparr>],
     events = [], next_row = 2, devices = [\<lparr>dev_id = 4, dev_mac = ''a'', dev_trusted = False\<rparr>]\<rparr>"

lemma baseline_accepts_inventory_witness:
  "map dev_trusted (devices (snd (baseline_devices demo_devices True False ''ok'' 9))) = [True]"
proof -
  have "fdb_ok demo_devices" "distinct (map dev_id (devices demo_devices))" by code_simp+
  from baseline_accepts_inventory [OF this, of "''ok''" 9] show ?thesis
    by (simp add: Let_def case_prod_beta demo_devices_def)
qed

section \<open>The trail explains the status\<close>

definition explains :: "finding_event \<Rightarrow> str \<Rightarrow> bool" where
  "explains e st \<longleftrightarrow>
     (ev_event e = ''opened'' \<and> st = ''open'') \<or>
     (ev_event e = ''reopened'' \<and> (st = ''open'' \<or> st = ''acknowledged'' \<and> ev_note e = Some ''restored acknowledged'')) \<or>
     (ev_event e \<in> {''resolved'', ''auto_resolved''} \<and> st = ''resolved'') \<or>
     (ev_event e \<in> {''acknowledged'', ''suppressed''} \<and> st = ev_event e)"

definition row_audited :: "fdb \<Rightarrow> finding \<Rightarrow> bool" where
  "row_audited db r \<longleftrightarrow> trail db (f_id r) \<noteq> [] \<and> ev_event (hd (trail db (f_id r))) = ''opened'' \<and>
     explains (last (trail db (f_id r))) (f_status r)"

definition audit_ok :: "fdb \<Rightarrow> bool" where
  "audit_ok db \<longleftrightarrow> fdb_ok db \<and> (\<forall>e\<in>set (events db). ev_row e < next_row db) \<and>
     (\<forall>r\<in>set (findings db). row_audited db r)"

lemma row_audited_other:
  "events db' = events db @ [e] \<Longrightarrow> ev_row e \<noteq> f_id r \<Longrightarrow> row_audited db' r = row_audited db r"
  by (simp add: row_audited_def)

lemma audit_step:
  assumes ok: "audit_ok db" and x: "x \<in> set (findings db)" "f_id x = i" and e: "ev_row e = i"
    and f: "\<And>r. f_id (f r) = f_id r" "\<And>r. f_key (f r) = f_key r" "row_ok (f x)"
    and ex: "explains e (f_status (f x))"
  shows "audit_ok ((update_row i f db)\<lparr>events := events db @ [e]\<rparr>)"
proof -
  let ?db = "(update_row i f db)\<lparr>events := events db @ [e]\<rparr>"
  have ok0: "fdb_ok db" using ok by (simp add: audit_ok_def)
  have only: "r = x" if "r \<in> set (findings db)" "f_id r = i" for r
    using that fdb_ok_same_id [OF ok0 that(1) x(1)] x(2) by simp
  have "fdb_ok (update_row i f db)"
    using only f(3) by (intro update_row_ok [OF ok0 f(1,2)]) blast
  then have "fdb_ok ?db" by (subst fdb_ok_cong [of _ "update_row i f db"]) simp_all
  moreover have "\<forall>v\<in>set (events ?db). ev_row v < next_row ?db"
    using ok x e by (auto simp: audit_ok_def fdb_ok_def)
  moreover have "row_audited ?db r'" if r': "r' \<in> set (findings ?db)" for r'
  proof -
    from r' obtain r where r: "r \<in> set (findings db)" "r' = (if f_id r = i then f r else r)"
      by (auto simp: update_row_def)
    have aud: "row_audited db r" using ok r(1) by (simp add: audit_ok_def)
    show ?thesis
    proof (cases "f_id r = i")
      case True
      then have "r' = f x" using only [OF r(1)] r(2) by simp
      then show ?thesis using aud ex e x(2) f(1) True only [OF r(1)] by (auto simp: row_audited_def hd_append)
    next
      case False
      then show ?thesis using aud e r(2) by (subst row_audited_other [of _ db e]) simp_all
    qed
  qed
  ultimately show ?thesis by (simp add: audit_ok_def)
qed

lemma audit_quiet:
  assumes ok: "audit_ok db" and f: "\<And>r. f_id (f r) = f_id r" "\<And>r. f_key (f r) = f_key r"
    and x: "\<And>r. r \<in> set (findings db) \<Longrightarrow> f_id r = i \<Longrightarrow> row_ok (f r) \<and> f_status (f r) = f_status r"
  shows "audit_ok (update_row i f db)"
proof -
  have "fdb_ok (update_row i f db)"
    using ok x by (intro update_row_ok f) (auto simp: audit_ok_def)
  moreover have "row_audited (update_row i f db) r'" if "r' \<in> set (findings (update_row i f db))" for r'
    using that ok x f(1) by (fastforce simp: update_row_def audit_ok_def row_audited_def)
  ultimately show ?thesis using ok by (simp add: audit_ok_def)
qed

lemma audit_insert:
  assumes ok: "audit_ok db" and nr: "f_id nr = next_row db" "f_status nr = ''open''" "row_ok nr"
    and key: "f_key nr \<notin> f_key ` set (findings db)"
    and e: "ev_row e = next_row db" "ev_event e = ''opened''"
  shows "audit_ok (db\<lparr>findings := findings db @ [nr], next_row := next_row db + 1, events := events db @ [e]\<rparr>)"
    (is "audit_ok ?db")
proof -
  have "fdb_ok ?db" using ok nr key by (auto simp: audit_ok_def fdb_ok_def)
  moreover have "\<forall>v\<in>set (events ?db). ev_row v < next_row ?db" using ok e by (auto simp: audit_ok_def)
  moreover have "row_audited ?db r" if r: "r \<in> set (findings ?db)" for r
  proof (cases "r = nr")
    case True
    have "trail db (next_row db) = []" using ok by (auto simp: audit_ok_def filter_empty_conv)
    then show ?thesis using True nr e by (simp add: row_audited_def explains_def)
  next
    case False
    with r have "r \<in> set (findings db)" by simp
    with ok have "row_audited db r" "f_id r < next_row db" by (simp_all add: audit_ok_def fdb_ok_def)
    then show ?thesis using e by (subst row_audited_other [of _ db e]) simp_all
  qed
  ultimately show ?thesis by (simp add: audit_ok_def)
qed

lemma apply_one_audit:
  assumes ok: "audit_ok db"
  shows "audit_ok (fst (apply_one cat src now key d (db, res)))"
proof (cases "row_of db key")
  case None
  have "audit_ok (db\<lparr>findings := findings db @ [new_row cat src now key d (next_row db)], next_row := next_row db + 1,
      events := events db @ [\<lparr>ev_row = next_row db, ev_event = ''opened'', ev_at = now, ev_note = None\<rparr>]\<rparr>)"
    using None by (intro audit_insert ok) (simp_all add: new_row_def row_ok_def STATUSES_def row_of_None)
  then show ?thesis by (simp add: apply_one_new [OF None] add_event_def)
next
  case (Some r)
  have ok0: "fdb_ok db" using ok by (simp add: audit_ok_def)
  have r: "r \<in> set (findings db)" using Some row_of_Some [OF ok0] by simp
  let ?f = "refresh_row cat src now d (reopen_status db r)"
  have rok: "row_ok (?f r)"
    using r ok0 reopen_status_values by (intro refresh_row_ok) (auto simp: fdb_ok_def)
  show ?thesis
  proof (cases "f_status r = ''resolved''")
    case True
    let ?n = "map_option ((@) ''restored '') (previous_status_if_auto_resolved db (f_id r))"
    have "explains \<lparr>ev_row = f_id r, ev_event = ''reopened'', ev_at = now, ev_note = ?n\<rparr> (f_status (?f r))"
      using True by (auto simp: explains_def refresh_row_def reopen_status_def dest: previous_status_values split: option.splits)
    then have "audit_ok ((update_row (f_id r) ?f db)\<lparr>events := events db @
        [\<lparr>ev_row = f_id r, ev_event = ''reopened'', ev_at = now, ev_note = ?n\<rparr>]\<rparr>)"
      by (intro audit_step [OF ok r] rok) simp_all
    then show ?thesis using Some True by (simp add: apply_one_def Let_def reopen_status_def add_event_def)
  next
    case False
    have "audit_ok (update_row (f_id r) ?f db)"
      using fdb_ok_same_id [OF ok0 _ r] rok False
      by (intro audit_quiet [OF ok]) (auto simp: refresh_row_def)
    then show ?thesis using Some False by (simp add: apply_one_def Let_def reopen_status_def)
  qed
qed

lemma apply_drafts_audit:
  "audit_ok (fst st) \<Longrightarrow> audit_ok (fst (snd (apply_drafts cat src now ds seen st)))"
proof (induction ds arbitrary: seen st)
  case (Cons d ds)
  have "audit_ok (fst (apply_one cat src now (dedupe_key d) d st))"
    using apply_one_audit [OF Cons.prems, of cat src now "dedupe_key d" d "snd st"] by simp
  with Cons show ?case by (simp add: Let_def)
qed simp

lemma resolve_rows_audit:
  assumes "audit_ok (fst st)" and "\<forall>r\<in>set rs. \<exists>x\<in>set (findings (fst st)). f_id x = f_id r"
  shows "audit_ok (fst (fold (resolve_row now) rs st))"
  using assms
proof (induction rs arbitrary: st)
  case (Cons r rs)
  obtain x where x: "x \<in> set (findings (fst st))" "f_id x = f_id r" using Cons.prems(2) by auto
  have db1: "fst (resolve_row now r st) =
      (update_row (f_id r) (close_row now) (fst st))\<lparr>events := events (fst st) @ [close_event now r]\<rparr>"
    using resolve_row_db [of now r "fst st" "snd st"] by simp
  have "row_ok x" using Cons.prems(1) x(1) by (simp add: audit_ok_def fdb_ok_def)
  then have "audit_ok (fst (resolve_row now r st))" unfolding db1
    using x by (intro audit_step [OF Cons.prems(1) x]) (simp_all add: close_row_ok close_event_def explains_def)
  moreover have "\<forall>y\<in>set rs. \<exists>z\<in>set (findings (fst (resolve_row now r st))). f_id z = f_id y"
  proof
    fix y assume "y \<in> set rs"
    then obtain z where z: "z \<in> set (findings (fst st))" "f_id z = f_id y" using Cons.prems(2) by auto
    then have "(if f_id z = f_id r then close_row now z else z) \<in> set (findings (fst (resolve_row now r st)))"
      unfolding db1 by (auto simp: update_row_def)
    then show "\<exists>z\<in>set (findings (fst (resolve_row now r st))). f_id z = f_id y" using z(2) by (metis close_row_simps(1))
  qed
  ultimately show ?case using Cons.IH by simp
qed simp

lemma apply_scan_audit:
  assumes "audit_ok db"
  shows "audit_ok (fst (apply_scan cat db ds source scopes now))"
proof -
  have "audit_ok (fst (auto_resolve source seen now s st))" if "audit_ok (fst st)" for seen s st
    using that unfolding auto_resolve_alt by (intro resolve_rows_audit) auto
  then have "audit_ok (fst (fold (auto_resolve source seen now) scopes st))" if "audit_ok (fst st)" for seen st
    using that by (induction scopes arbitrary: st) simp_all
  then show ?thesis using apply_drafts_audit assms by (simp add: apply_scan_split)
qed

lemma set_status_audit:
  assumes ok: "audit_ok db" and st: "set_status db i status note now = Inr db'"
  shows "audit_ok db'"
proof -
  from st obtain x where x: "x \<in> set (findings db)" "f_id x = i" and s: "status \<in> set STATUSES"
    by (auto simp: set_status_def list_ex_iff Let_def split: if_splits)
  let ?f = "\<lambda>r. r\<lparr>f_status := status, f_resolved_at := (if status = ''resolved'' then Some now else None)\<rparr>"
  have "row_ok x" using ok x(1) by (simp add: audit_ok_def fdb_ok_def)
  then have "row_ok (?f x)" using s by (simp add: row_ok_def)
  then have "audit_ok ((update_row i ?f db)\<lparr>events := events db @
      [\<lparr>ev_row = i, ev_event = (if status = ''open'' then ''reopened'' else status), ev_at = now, ev_note = note\<rparr>]\<rparr>)"
    using s by (intro audit_step [OF ok x]) (auto simp: explains_def STATUSES_def)
  then show ?thesis using st x(1,2) s by (auto simp: set_status_def list_ex_iff Let_def add_event_def split: if_splits)
qed

lemma close_all_audit: "audit_ok db \<Longrightarrow> audit_ok (snd (close_all rs note now db acc))"
  by (induction rs arbitrary: db acc) (auto dest: set_status_audit split: sum.splits)

lemma audit_devices: "audit_ok db' \<longleftrightarrow> audit_ok db"
  if "findings db' = findings db" "events db' = events db" "next_row db' = next_row db"
  using that by (simp add: audit_ok_def fdb_ok_def row_audited_def)

text \<open>The operations that write these tables; discovery owns \<open>devices\<close> and may replace it.\<close>

inductive engine_step :: "catalog \<Rightarrow> fdb \<Rightarrow> fdb \<Rightarrow> bool" for cat where
  Scan: "engine_step cat db (fst (apply_scan cat db ds source scopes now))"
| Status: "set_status db i status note now = Inr db' \<Longrightarrow> engine_step cat db db'"
| Trust: "trust_device db dev trusted note now = Inr (rows, db') \<Longrightarrow> engine_step cat db db'"
| Baseline: "engine_step cat db (snd (baseline_devices db trust_all dry_run note now))"
| Discovery: "engine_step cat db (db\<lparr>devices := ds\<rparr>)"

inductive engine_reach :: "catalog \<Rightarrow> fdb \<Rightarrow> bool" for cat where
  Start: "engine_reach cat empty_fdb"
| Step: "engine_reach cat db \<Longrightarrow> engine_step cat db db' \<Longrightarrow> engine_reach cat db'"

lemma engine_step_audit: "engine_step cat db db' \<Longrightarrow> audit_ok db \<Longrightarrow> audit_ok db'"
proof (induction rule: engine_step.induct)
  case (Trust db dev trusted why now rows db')
  have "audit_ok (set_trusted dev trusted db)" using Trust.prems by (subst audit_devices) simp_all
  with Trust.hyps show ?case
    by (auto simp: trust_device_def accept_new_device_findings_def Let_def split: option.splits if_splits
        dest: close_all_audit [where acc = "[]"] dest!: arg_cong [where f = snd])
next
  case (Baseline db trust_all dry_run why now)
  have "audit_ok (fold (\<lambda>d db. set_trusted (dev_id d) True db) (ds :: device_row list) db)" for ds using Baseline by (subst audit_devices) (simp_all add: fold_set_trusted)
  then show ?case
    using Baseline by (simp add: baseline_devices_def accept_new_device_findings_def Let_def case_prod_beta close_all_audit)
next
  case (Discovery db ds)
  then show ?case by (subst audit_devices) simp_all
qed (simp_all add: apply_scan_audit set_status_audit)



section \<open>Repeating a scan\<close>

definition live :: "fdb \<Rightarrow> str \<Rightarrow> bool" where
  "live db k \<longleftrightarrow> (\<exists>r. row_of db k = Some r \<and> f_status r \<noteq> ''resolved'')"

lemma standing_not_resolved: "standing db r \<noteq> ''resolved''"
  using reopen_status_values [of db r] by (auto simp: standing_def)

lemma live_after_one:
  assumes "fdb_ok db" and "live db k"
  shows "live (fst (apply_one cat src now key d (db, res))) k"
  using assms(2) apply_one_effect(2) [OF assms(1), of cat src now key d res k]
  by (auto simp: live_def new_row_def refresh_row_status standing_not_resolved split: option.splits)

lemma apply_one_live:
  "live db key \<Longrightarrow> snd (apply_one cat src now key d (db, res)) = res\<lparr>updated := updated res + 1\<rparr>"
  by (auto simp: live_def apply_one_def Let_def)

lemma apply_drafts_live:
  assumes "fdb_ok db" and "\<forall>d\<in>set ds. live db (dedupe_key d)"
  shows "snd (snd (apply_drafts cat src now ds seen (db, res))) =
    res\<lparr>updated := updated res + card (dedupe_key ` set ds - set seen)\<rparr>"
  using assms
proof (induction ds arbitrary: seen db res)
  case (Cons d ds)
  show ?case
  proof (cases "dedupe_key d \<in> set seen")
    case True
    then show ?thesis using Cons by (simp add: Let_def insert_Diff_if)
  next
    case False
    let ?db = "fst (apply_one cat src now (dedupe_key d) d (db, res))"
    have one: "apply_one cat src now (dedupe_key d) d (db, res) = (?db, res\<lparr>updated := updated res + 1\<rparr>)"
      using apply_one_live [of db "dedupe_key d" cat src now d res] Cons.prems(2) by (simp add: prod_eq_iff)
    have "insert (dedupe_key d) (dedupe_key ` set ds) - set seen =
        insert (dedupe_key d) (dedupe_key ` set ds - set (dedupe_key d # seen))" using False by auto
    then have "card (dedupe_key ` set (d # ds) - set seen) = Suc (card (dedupe_key ` set ds - set (dedupe_key d # seen)))"
      by simp
    moreover have "apply_drafts cat src now (d # ds) seen (db, res) =
        apply_drafts cat src now ds (dedupe_key d # seen) (?db, res\<lparr>updated := updated res + 1\<rparr>)"
      using False one by (simp add: Let_def)
    moreover have "\<forall>x\<in>set ds. live ?db (dedupe_key x)"
      using Cons.prems live_after_one by simp
    ultimately show ?thesis
      using Cons.IH [OF apply_one_effect(1) [OF Cons.prems(1)], of cat src now "dedupe_key d" d res] by simp
  qed
qed simp

lemma no_stale_fold:
  assumes "\<forall>r\<in>set (findings (fst st)). \<not> stale source seen scopes r"
  shows "fold (auto_resolve source seen now) scopes st = st"
  using assms
proof (induction scopes)
  case (Cons s ss)
  then have "filter (stale source seen [s]) (findings (fst st)) = []"
    by (simp add: filter_empty_conv stale_Cons [of _ _ s ss])
  then have "auto_resolve source seen now s st = st" by (simp add: auto_resolve_alt)
  then show ?case using Cons by (simp add: stale_Cons [of _ _ s ss])
qed simp

lemma scanned_live:
  assumes sc: "scanned cat db ds source scopes now db'" and d: "d \<in> set ds"
  shows "live db' (dedupe_key d)"
proof -
  obtain d' where d': "reported ds (dedupe_key d) = Some d'"
    using d reported_None [of "dedupe_key d" ds] by (cases "reported ds (dedupe_key d)") auto
  have "drafted cat source now db (dedupe_key d) d' (row_of db' (dedupe_key d))"
    using sc [unfolded scanned_def, THEN conjunct2, rule_format, of "dedupe_key d"] d' by simp
  then show ?thesis
    by (auto simp: live_def drafted_def new_row_def refresh_row_status standing_not_resolved split: option.splits)
qed

lemma scanned_not_stale:
  assumes ok: "fdb_ok db" and sc: "scanned cat db ds source scopes now db'" and r: "row_of db' k = Some r"
    and nk: "k \<notin> dedupe_key ` set ds"
  shows "\<not> stale source [] scopes r"
proof -
  have "row_of db' k = map_option (\<lambda>r. if stale source [] scopes r then close_row now r else r) (row_of db k)"
    using sc [unfolded scanned_def, THEN conjunct2, rule_format, of k] nk reported_None [of k ds] by auto
  then show ?thesis using r by (cases "row_of db k") (auto split: if_splits)
qed

lemma rescan_result:
  assumes ok: "fdb_ok db"
  shows "snd (apply_scan cat (fst (apply_scan cat db ds source scopes t1)) ds source scopes t2) =
    empty_result\<lparr>updated := card (dedupe_key ` set ds)\<rparr>"
proof -
  let ?db1 = "fst (apply_scan cat db ds source scopes t1)"
  note sc1 = apply_scan_scanned [OF ok, of cat ds source scopes t1]
  have ok1: "fdb_ok ?db1" using sc1 by (simp add: scanned_def)
  obtain seen db2 res2 where ad: "apply_drafts cat source t2 ds [] (?db1, empty_result) = (seen, db2, res2)"
    by (metis prod_cases3)
  have res2: "res2 = empty_result\<lparr>updated := card (dedupe_key ` set ds)\<rparr>"
    using apply_drafts_live [OF ok1, of ds cat source t2 "[]" empty_result] scanned_live [OF sc1] ad
    by (simp add: empty_result_def)
  have seen: "set seen = dedupe_key ` set ds"
    using apply_drafts_keys [of cat source t2 ds "(?db1, empty_result)"] ad by simp
  have aft: "after_drafts cat source t2 ?db1 [] ds db2"
    using apply_drafts_effect [OF ok1, of cat source t2 "[]" ds empty_result] ad by simp
  have "\<not> stale source seen scopes r" if r: "r \<in> set (findings db2)" for r
  proof (cases "f_key r \<in> dedupe_key ` set ds")
    case False
    have "fdb_ok db2" using aft by (simp add: after_drafts_def)
    then have "row_of db2 (f_key r) = Some r" using r row_of_Some by blast
    then have "row_of ?db1 (f_key r) = Some r"
      using aft [unfolded after_drafts_def, THEN conjunct2, THEN conjunct2, rule_format, of "f_key r"]
        False reported_None [of "f_key r" ds] by auto
    from scanned_not_stale [OF ok sc1 this False] show ?thesis by (auto simp: stale_def)
  qed (simp add: stale_def seen)
  then have "fold (auto_resolve source seen t2) scopes (db2, res2) = (db2, res2)"
    by (intro no_stale_fold) simp
  then show ?thesis by (simp add: apply_scan_def [of cat ?db1] ad res2)
qed

text \<open>
  Scans converge: applying the drafts of a scan a second time, with the same source and
  scopes, opens nothing, reopens nothing and resolves nothing; it counts each distinct dedupe key
  once as updated.
\<close>

theorem rescan_idempotent:
  assumes "fdb_ok db"
  shows "snd (apply_scan cat (fst (apply_scan cat db ds source scopes t1)) ds source scopes t2) =
    \<lparr>new = [], reopened = [], resolved = [], updated = card (dedupe_key ` set ds)\<rparr>"
  using rescan_result [OF assms] by (simp add: empty_result_def)

lemma rescan_idempotent_witness:
  "snd (apply_scan demo_catalog (fst (apply_scan demo_catalog empty_fdb [demo_draft ''device:a''] ''ports'' [''device:''] 5))
      [demo_draft ''device:a''] ''ports'' [''device:''] 6) =
     \<lparr>new = [], reopened = [], resolved = [], updated = 1\<rparr>"
  using rescan_idempotent [OF empty_fdb_ok, of demo_catalog "[demo_draft ''device:a'']"] by simp

end
