(* ===== verification/Findings_Score.thy ===== *)
theory Findings_Score
  imports Findings_Engine "HOL-Library.Multiset"
begin

text \<open>
  The security score, \<open>homesoc/findings/score.py\<close>: the penalty of a finding type, the halving
  curve with its ceilings, the breakdown and the history. Floats are reals; a weight is exact in
  binary, and the tail the float loses lies far below the rounding to an integer. The table is the
  one of the findings engine. The order in which \<open>GROUP BY\<close> returns its groups is not specified;
  the model takes the order of first appearance, and no property below depends on it.
\<close>

section \<open>The penalty of one finding type\<close>

definition WEIGHTS :: "str \<Rightarrow> real" where
  "WEIGHTS s = (if s = ''critical'' then 30 else if s = ''high'' then 12 else if s = ''medium'' then 5
     else if s = ''low'' then 3 / 2 else 0)"

definition STATUS_FACTORS :: "str \<Rightarrow> real" where
  "STATUS_FACTORS s = (if s = ''open'' then 1 else if s = ''acknowledged'' then 1 / 4 else 0)"

definition COUNTED_STATUSES :: "str list" where "COUNTED_STATUSES = [''open'', ''acknowledged'']"
definition REPEAT_DECAY :: real where "REPEAT_DECAY = 1 / 2"
definition REPEAT_CAP :: real where "REPEAT_CAP = 1 / (1 - REPEAT_DECAY)"
definition HALF_LIFE :: real where "HALF_LIFE = 60"
definition MAX_SLOTS :: nat where "MAX_SLOTS = 512"

definition slot_weight :: "str \<Rightarrow> str \<Rightarrow> real" where
  "slot_weight severity status = WEIGHTS severity * STATUS_FACTORS status"

fun penalty_loop :: "(real \<times> nat) list \<Rightarrow> real \<Rightarrow> nat \<Rightarrow> real" where
  "penalty_loop [] acc index = acc"
| "penalty_loop ((weight, n) # slots) acc index =
     (if MAX_SLOTS \<le> index then acc
      else penalty_loop slots
        (acc + weight * (REPEAT_DECAY ^ index * (1 - REPEAT_DECAY ^ n) / (1 - REPEAT_DECAY)))
        (index + n))"

definition group_penalty :: "(real \<times> nat) list \<Rightarrow> real" where
  "group_penalty slots =
     (let ordered = sort_key (\<lambda>s. - fst s) (filter (\<lambda>(w, n). 0 < w \<and> 0 < n) slots)
      in if ordered = [] then 0
         else min (penalty_loop ordered 0 0) (REPEAT_CAP * fst (hd ordered)))"

section \<open>The curve\<close>

definition CEILING_ONE_CRITICAL :: real where "CEILING_ONE_CRITICAL = 34"
definition CEILING_MANY_CRITICAL :: real where "CEILING_MANY_CRITICAL = 20"
definition CEILING_ANY_HIGH :: real where "CEILING_ANY_HIGH = 79"

definition score_from_penalty :: "real \<Rightarrow> nat \<Rightarrow> nat \<Rightarrow> int" where
  "score_from_penalty penalty open_critical open_high =
     (let value = 100 * REPEAT_DECAY powr (max 0 penalty / HALF_LIFE);
          value = (if 2 \<le> open_critical then min value CEILING_MANY_CRITICAL
                   else if open_critical = 1 then min value CEILING_ONE_CRITICAL
                   else if 0 < open_high then min value CEILING_ANY_HIGH else value)
      in py_round (max 0 (min 100 value)))"

definition GRADE_BANDS :: "(int \<times> str) list" where
  "GRADE_BANDS = [(80, ''A''), (65, ''B''), (50, ''C''), (35, ''D'')]"

definition grade :: "int \<Rightarrow> str" where
  "grade score = (case List.find (\<lambda>(threshold, _). threshold \<le> score) GRADE_BANDS of
     Some (_, letter) \<Rightarrow> letter | None \<Rightarrow> ''F'')"

section \<open>Reading the table\<close>

record counted =
  c_finding_id :: str
  c_severity :: str
  c_status :: str
  c_n :: nat

definition counted_key :: "finding \<Rightarrow> str \<times> str \<times> str" where
  "counted_key r = (f_finding_id r, f_severity r, f_status r)"

definition counted_rows :: "fdb \<Rightarrow> counted list" where
  "counted_rows db =
     map (\<lambda>((i, sev, st), rows). \<lparr>c_finding_id = i, c_severity = sev, c_status = st, c_n = length rows\<rparr>)
       (group_by counted_key (filter (\<lambda>r. f_status r \<in> set COUNTED_STATUSES) (findings db)))"

definition grouped :: "counted list \<Rightarrow> (str, counted list) dict" where
  "grouped rows = group_by c_finding_id rows"

definition open_counts :: "counted list \<Rightarrow> nat \<times> nat" where
  "open_counts rows =
     (sum_list (map c_n (filter (\<lambda>r. c_status r = ''open'' \<and> c_severity r = ''critical'') rows)),
      sum_list (map c_n (filter (\<lambda>r. c_status r = ''open'' \<and> c_severity r = ''high'') rows)))"

definition penalties :: "(str, counted list) dict \<Rightarrow> (str, real) dict" where
  "penalties groups =
     map (\<lambda>(fid, rows). (fid, group_penalty (map (\<lambda>r. (slot_weight (c_severity r) (c_status r), c_n r)) rows))) groups"

definition total_penalty :: "(str, real) dict \<Rightarrow> real" where
  "total_penalty ps = sum_list (map snd ps)"

definition score_of_rows :: "counted list \<Rightarrow> int" where
  "score_of_rows rows =
     (let (crit, high) = open_counts rows
      in score_from_penalty (total_penalty (penalties (grouped rows))) crit high)"

definition security_score :: "fdb \<Rightarrow> int" where
  "security_score db = (let rows = counted_rows db in if rows = [] then 100 else score_of_rows rows)"

section \<open>The breakdown\<close>

record breakdown =
  b_finding_id :: str
  b_title :: str
  b_count :: nat
  b_penalty :: real
  b_score_gain :: int
  b_severity :: str
  b_open :: nat
  b_acknowledged :: nat

definition worst_severity :: "counted list \<Rightarrow> str" where
  "worst_severity rows =
     (case filter (\<lambda>s. s \<in> c_severity ` set rows) SEVERITIES of [] \<Rightarrow> ''info'' | s # _ \<Rightarrow> s)"

text \<open>One decimal, as the dashboard shows it.\<close>

definition round1 :: "real \<Rightarrow> real" where "round1 x = of_int (py_round (10 * x)) / 10"

definition n_with :: "str \<Rightarrow> counted list \<Rightarrow> nat" where
  "n_with st rows = sum_list (map c_n (filter (\<lambda>r. c_status r = st) rows))"

text \<open>
  The title texts are the argument \<open>title\<close> (the sample titles of the table and the catalogue's
  templates).
\<close>

definition breakdown_entry ::
  "(str \<Rightarrow> nat \<Rightarrow> str) \<Rightarrow> counted list \<Rightarrow> str \<times> counted list \<Rightarrow> breakdown" where
  "breakdown_entry title rows g =
     (let (fid, grp) = g;
          ps = penalties (grouped rows);
          tot = total_penalty ps;
          penalty = (case dget ps fid of Some p \<Rightarrow> p | None \<Rightarrow> 0);
          current = score_of_rows rows;
          n_open = n_with ''open'' grp;
          n_ack = n_with ''acknowledged'' grp;
          (wc, wh) = open_counts (filter (\<lambda>r. c_finding_id r \<noteq> fid) rows);
          gain = score_from_penalty (tot - penalty) wc wh - current
      in \<lparr>b_finding_id = fid, b_title = title fid (n_open + n_ack), b_count = n_open + n_ack,
          b_penalty = round1 penalty, b_score_gain = max 0 gain, b_severity = worst_severity grp,
          b_open = n_open, b_acknowledged = n_ack\<rparr>)"

definition score_breakdown :: "(str \<Rightarrow> nat \<Rightarrow> str) \<Rightarrow> fdb \<Rightarrow> breakdown list" where
  "score_breakdown title db =
     (let rows = counted_rows db
      in if rows = [] then []
         else sort_key (\<lambda>b. - b_penalty b)
           (sort_key (\<lambda>b. - int (b_count b))
             (sort_key b_finding_id (map (breakdown_entry title rows) (grouped rows)))))"

record score_report =
  sr_score :: int
  sr_grade :: str
  sr_penalty :: real
  sr_open_critical :: nat
  sr_open_high :: nat
  sr_breakdown :: "breakdown list"

definition score_detail :: "(str \<Rightarrow> nat \<Rightarrow> str) \<Rightarrow> fdb \<Rightarrow> score_report" where
  "score_detail title db =
     (let rows = counted_rows db;
          penalty = total_penalty (penalties (grouped rows));
          (crit, high) = open_counts rows;
          value = (if rows = [] then 100 else score_from_penalty penalty crit high)
      in \<lparr>sr_score = value, sr_grade = grade value, sr_penalty = round1 penalty, sr_open_critical = crit,
          sr_open_high = high, sr_breakdown = score_breakdown title db\<rparr>)"

section \<open>The history\<close>

text \<open>The \<open>score\<close> metrics in time order, as (timestamp text, value).\<close>

definition trend :: "str \<Rightarrow> (str \<times> real) list \<Rightarrow> (str \<times> int) list" where
  "trend cutoff metrics =
     (let rows = sort_key fst (filter (\<lambda>(ts, _). cutoff \<le> ts) metrics);
          per_day = fold (\<lambda>(ts, v) d. dset (take 10 ts) (py_round v) d) rows []
      in map (\<lambda>day. (day, case dget per_day day of Some v \<Rightarrow> v | None \<Rightarrow> 0)) (sort (dkeys per_day)))"

definition record_score :: "fdb \<Rightarrow> str \<Rightarrow> (str \<times> real) list \<Rightarrow> int \<times> (str \<times> real) list" where
  "record_score db ts metrics = (let value = security_score db in (value, metrics @ [(ts, of_int value)]))"

section \<open>The documented formula\<close>

text \<open>\<open>w0 + w1/2 + w2/4 + ...\<close>\<close>

fun decay_sum :: "real list \<Rightarrow> real" where
  "decay_sum [] = 0"
| "decay_sum (w # ws) = w + decay_sum ws / 2"

abbreviation desc :: "real list \<Rightarrow> real list" where
  "desc ws \<equiv> sort_key uminus ws"

definition expand :: "(real \<times> nat) list \<Rightarrow> real list" where
  "expand slots = concat (map (\<lambda>(w, n). replicate n w) slots)"

lemma decay_sum_replicate:
  "decay_sum (replicate n w @ ws) = w * (2 * (1 - (1 / 2) ^ n)) + decay_sum ws / 2 ^ n"
  by (induction n) (simp_all add: field_simps)

lemma penalty_loop_sum:
  "index + sum_list (map snd slots) \<le> MAX_SLOTS \<Longrightarrow> (\<forall>s\<in>set slots. 0 < snd s) \<Longrightarrow>
     penalty_loop slots acc index = acc + decay_sum (expand slots) / 2 ^ index"
proof (induction slots acc index rule: penalty_loop.induct)
  case (2 weight n slots acc index)
  then have "index < MAX_SLOTS" by simp
  with 2 show ?case
    by (simp add: expand_def decay_sum_replicate REPEAT_DECAY_def power_add field_simps power_one_over)
qed (simp add: expand_def)

lemma decay_sum_le: "\<forall>w\<in>set ws. w \<le> m \<Longrightarrow> 0 \<le> m \<Longrightarrow> decay_sum ws \<le> 2 * m"
proof (induction ws)
  case (Cons w ws)
  then have "w \<le> m" "decay_sum ws \<le> 2 * m" by simp_all
  then show ?case by simp
qed simp

lemma decay_sum_nonneg: "\<forall>w\<in>set ws. 0 \<le> w \<Longrightarrow> 0 \<le> decay_sum ws"
  by (induction ws) simp_all

lemma sorted_expand: "sorted (map uminus (map fst slots)) \<Longrightarrow> sorted (map uminus (expand slots))"
  by (induction slots) (auto simp: expand_def sorted_append)

lemma mset_expand: "mset (expand slots) = sum_mset (image_mset (\<lambda>(w, n). replicate_mset n w) (mset slots))"
  by (induction slots) (auto simp: expand_def)

lemma expand_desc:
  "expand (sort_key (\<lambda>s. - fst s) slots) = desc (expand slots)"
proof -
  have "mset (expand (sort_key (\<lambda>s. - fst s) slots)) = mset (expand slots)"
    by (simp add: mset_expand)
  moreover have "sorted (map uminus (expand (sort_key (\<lambda>s. - fst s) slots)))"
    by (rule sorted_expand) (simp add: o_def)
  ultimately show ?thesis by (intro sort_key_inj_key_eq [symmetric]) (simp_all add: inj_on_def)
qed

lemma expand_positive:
  "expand (filter (\<lambda>(w, n). 0 < w \<and> 0 < n) slots) = filter (\<lambda>w. 0 < w) (expand slots)"
  by (induction slots) (auto simp: expand_def filter_empty_conv)

lemma desc_hd: "w \<in> set ws \<Longrightarrow> w \<le> hd (desc ws)"
proof -
  assume w: "w \<in> set ws"
  obtain x xs where x: "desc ws = x # xs" using w by (cases "desc ws") (auto dest: arg_cong [where f = set])
  have "sorted (map uminus (desc ws))" by simp
  moreover have "w \<in> set (desc ws)" using w by simp
  ultimately show ?thesis unfolding x by auto
qed

lemma group_penalty_decay:
  assumes "sum_list (map snd slots) \<le> MAX_SLOTS"
  shows "group_penalty slots = decay_sum (desc (filter (\<lambda>w. 0 < w) (expand slots)))"
proof -
  let ?pos = "filter (\<lambda>(w, n). 0 < w \<and> 0 < n) slots"
  let ?ord = "sort_key (\<lambda>s. - fst s) ?pos"
  have ex: "expand ?ord = desc (filter (\<lambda>w. 0 < w) (expand slots))"
    by (simp add: expand_desc expand_positive)
  show ?thesis
  proof (cases "?ord = []")
    case True
    then have "set (desc (filter (\<lambda>w. 0 < w) (expand slots))) = {}" unfolding ex [symmetric] by (simp add: expand_def)
    then have "filter (\<lambda>w. 0 < w) (expand slots) = []" by (simp only: set_sort set_empty)
    then show ?thesis using True by (simp add: group_penalty_def)
  next
    case False
    have "sum_list (map snd ?ord) = sum_list (map snd ?pos)"
      by (simp flip: sum_mset_sum_list)
    also have "\<dots> \<le> sum_list (map snd slots)" by (induction slots) auto
    finally have few: "0 + sum_list (map snd ?ord) \<le> MAX_SLOTS" using assms by simp
    have "\<forall>s\<in>set ?ord. 0 < snd s" by auto
    from penalty_loop_sum [OF few this] have loop: "penalty_loop ?ord 0 0 = decay_sum (expand ?ord)" by simp
    obtain w n rest where hd: "?ord = (w, n) # rest" using False by (cases ?ord) auto
    then have "(w, n) \<in> set ?ord" by simp
    then have wn: "0 < w" "0 < n" by auto
    have "sorted (map (\<lambda>s. - fst s) ?ord)" by simp
    then have "\<forall>s\<in>set ?ord. fst s \<le> w" unfolding hd by auto
    then have "\<forall>v\<in>set (expand ?ord). v \<le> w" by (auto simp: expand_def)
    from decay_sum_le [OF this] wn have "decay_sum (expand ?ord) \<le> 2 * w" by simp
    then have "min (penalty_loop ?ord 0 0) (REPEAT_CAP * fst (hd ?ord)) = decay_sum (expand ?ord)"
      using hd unfolding loop by (simp add: REPEAT_CAP_def REPEAT_DECAY_def)
    with False ex show ?thesis by (simp add: group_penalty_def Let_def)
  qed
qed

lemma penalty_loop_nonneg:
  "0 \<le> acc \<Longrightarrow> (\<forall>s\<in>set slots. 0 \<le> fst s) \<Longrightarrow> 0 \<le> penalty_loop slots acc index"
  by (induction slots acc index rule: penalty_loop.induct) (auto simp: REPEAT_DECAY_def power_le_one)

lemma group_penalty_nonneg: "0 \<le> group_penalty slots"
proof -
  let ?ord = "sort_key (\<lambda>s. - fst s) (filter (\<lambda>(w, n). 0 < w \<and> 0 < n) slots)"
  have "\<forall>s\<in>set ?ord. 0 \<le> fst s" by auto
  moreover have "?ord \<noteq> [] \<Longrightarrow> fst (hd ?ord) \<ge> 0" using hd_in_set [of ?ord] by auto
  ultimately show ?thesis
    using penalty_loop_nonneg [of 0 ?ord 0]
    by (simp add: group_penalty_def Let_def REPEAT_CAP_def REPEAT_DECAY_def)
qed

section \<open>The curve\<close>

lemma py_round_ge: "of_int n \<le> x \<Longrightarrow> n \<le> py_round x"
  using py_round_mono [of "of_int n" x] by simp

lemma clamp_mono: "v \<le> w \<Longrightarrow> py_round (max 0 (min 100 v)) \<le> py_round (max 0 (min 100 w))"
  by (intro py_round_mono) auto

lemma halving_mono: "p \<le> q \<Longrightarrow> 100 * REPEAT_DECAY powr (max 0 q / HALF_LIFE) \<le> 100 * REPEAT_DECAY powr (max 0 p / HALF_LIFE)"
  unfolding REPEAT_DECAY_def HALF_LIFE_def by (intro mult_left_mono powr_mono') auto

lemma score_mono:
  assumes "p \<le> q" and "c \<le> c'" and "h \<le> h'"
  shows "score_from_penalty q c' h' \<le> score_from_penalty p c h"
proof -
  have "100 * REPEAT_DECAY powr (max 0 q / HALF_LIFE) \<le> 100 * REPEAT_DECAY powr (max 0 p / HALF_LIFE)"
    by (rule halving_mono [OF assms(1)])
  with assms(2,3) show ?thesis
    unfolding score_from_penalty_def Let_def CEILING_ONE_CRITICAL_def CEILING_MANY_CRITICAL_def CEILING_ANY_HIGH_def
    by (intro clamp_mono) (simp add: min_def; linarith)
qed

lemma score_range: "0 \<le> score_from_penalty p c h \<and> score_from_penalty p c h \<le> 100"
  unfolding score_from_penalty_def Let_def by (intro conjI py_round_ge py_round_le) (simp_all add: min_def max_def)

lemma score_ceiling:
  "2 \<le> c \<Longrightarrow> score_from_penalty p c h \<le> 20"
  "1 \<le> c \<Longrightarrow> score_from_penalty p c h \<le> 34"
  "1 \<le> c + h \<Longrightarrow> score_from_penalty p c h \<le> 79"
  unfolding score_from_penalty_def Let_def CEILING_ONE_CRITICAL_def CEILING_MANY_CRITICAL_def CEILING_ANY_HIGH_def
  by (intro py_round_le; auto simp: min_def max_def)+

lemma score_zero [simp]: "score_from_penalty 0 0 0 = 100"
  using py_round_int [of 100] by (simp add: score_from_penalty_def Let_def REPEAT_DECAY_def)

lemma score_nonpos_penalty: "p \<le> 0 \<Longrightarrow> score_from_penalty p 0 0 = 100"
  using py_round_int [of 100] by (simp add: score_from_penalty_def Let_def REPEAT_DECAY_def max_def)

section \<open>From the table to the formula\<close>

definition row_weight :: "finding \<Rightarrow> real" where
  "row_weight r = slot_weight (f_severity r) (f_status r)"

definition is_counted :: "finding \<Rightarrow> bool" where
  "is_counted r \<longleftrightarrow> f_status r \<in> set COUNTED_STATUSES"

abbreviation open_with :: "str \<Rightarrow> fdb \<Rightarrow> nat" where
  "open_with sev db \<equiv> length (filter (\<lambda>r. f_status r = ''open'' \<and> f_severity r = sev) (findings db))"

text \<open>What a finding type costs according to the module's documentation.\<close>

definition type_penalty :: "fdb \<Rightarrow> str \<Rightarrow> real" where
  "type_penalty db fid =
     decay_sum (desc (map row_weight (filter (\<lambda>r. f_finding_id r = fid \<and> 0 < row_weight r) (findings db))))"

text \<open>A group of rows contributes one copy of its key's contribution per row.\<close>

lemma group_copies_dappend:
  "(\<Sum>(k, v) \<leftarrow> dappend k0 x d. replicate_mset (length v) (h k)) = add_mset (h k0) (\<Sum>(k, v) \<leftarrow> d. replicate_mset (length v) (h k))"
  unfolding dappend_def by (induction d) (auto simp: dget_Cons split: option.splits)

lemma sum_list_dset_group:
  "(\<Sum>(k, v) \<leftarrow> group_by g xs. replicate_mset (length v) (h k)) = image_mset (\<lambda>x. h (g x)) (mset xs)"
proof (induction xs rule: rev_induct)
  case (snoc x xs)
  then show ?case by (simp only: group_by_snoc group_copies_dappend) simp
qed (simp add: group_by_def)

lemma group_count_dappend:
  "(\<Sum>(k, v) \<leftarrow> dappend k0 x d. if P k then length v else 0) =
     (if P k0 then 1 else 0) + (\<Sum>(k, v) \<leftarrow> d. if P k then length v else 0)"
  unfolding dappend_def by (induction d) (auto simp: dget_Cons split: option.splits)

lemma group_count:
  "(\<Sum>(k, v) \<leftarrow> group_by g xs. if P k then length v else 0) = length (filter (\<lambda>x. P (g x)) xs)"
proof (induction xs rule: rev_induct)
  case (snoc x xs)
  then show ?case by (simp only: group_by_snoc group_count_dappend) simp
qed (simp add: group_by_def)

lemma sum_list_filter_if: "sum_list (map f (filter P xs)) = (\<Sum>x \<leftarrow> xs. if P x then f x else (0 :: nat))"
  by (induction xs) simp_all

lemma open_counts_rows:
  "open_counts (counted_rows db) = (open_with ''critical'' db, open_with ''high'' db)"
proof -
  have count: "sum_list (map c_n (filter (\<lambda>r. c_status r = ''open'' \<and> c_severity r = sev) (counted_rows db))) = open_with sev db" for sev
  proof -
    have "sum_list (map c_n (filter (\<lambda>r. c_status r = ''open'' \<and> c_severity r = sev) (counted_rows db))) =
        (\<Sum>(k, v) \<leftarrow> group_by counted_key (filter (\<lambda>r. f_status r \<in> set COUNTED_STATUSES) (findings db)).
           if snd (snd k) = ''open'' \<and> fst (snd k) = sev then length v else 0)"
      unfolding sum_list_filter_if counted_rows_def map_map o_def
      by (intro arg_cong [where f = sum_list] map_cong refl) auto
    also have "\<dots> = length (filter (\<lambda>r. f_status r = ''open'' \<and> f_severity r = sev)
        (filter (\<lambda>r. f_status r \<in> set COUNTED_STATUSES) (findings db)))"
      unfolding group_count by (simp add: counted_key_def)
    also have "\<dots> = open_with sev db"
      by (simp add: COUNTED_STATUSES_def) (intro arg_cong [where f = length] filter_cong; auto)
    finally show ?thesis .
  qed
  then show ?thesis by (simp add: open_counts_def)
qed

lemma filter_dappend:
  "filter (\<lambda>(k, v). P k) (dappend k0 x d) =
     (if P k0 then dappend k0 x (filter (\<lambda>(k, v). P k) d) else filter (\<lambda>(k, v). P k) d)"
  unfolding dappend_def by (induction d) (auto simp: dget_Cons)

lemma filter_group_by: "filter (\<lambda>(k, v). P k) (group_by g xs) = group_by g (filter (\<lambda>x. P (g x)) xs)"
proof (induction xs rule: rev_induct)
  case (snoc x xs)
  then show ?case by (cases "P (g x)") (simp_all add: group_by_snoc filter_dappend)
qed (simp add: group_by_def)

definition only_id :: "str \<Rightarrow> fdb \<Rightarrow> fdb" where
  "only_id fid db = db\<lparr>findings := filter (\<lambda>r. f_finding_id r = fid) (findings db)\<rparr>"

lemma counted_filter:
  "filter (\<lambda>r. P (c_finding_id r)) (counted_rows db) =
     counted_rows (db\<lparr>findings := filter (\<lambda>r. P (f_finding_id r)) (findings db)\<rparr>)"
proof -
  have "filter (\<lambda>r. P (c_finding_id r)) (counted_rows db) =
      map (\<lambda>((i, sev, st), rows). \<lparr>c_finding_id = i, c_severity = sev, c_status = st, c_n = length rows\<rparr>)
       (filter (\<lambda>(k, v). P (fst k)) (group_by counted_key (filter (\<lambda>r. f_status r \<in> set COUNTED_STATUSES) (findings db))))"
    unfolding counted_rows_def filter_map o_def by (intro arg_cong2 [where f = map] filter_cong) auto
  then show ?thesis
    by (simp add: filter_group_by counted_rows_def counted_key_def conj_commute)
qed

lemma expand_counted:
  "mset (expand (map (\<lambda>r. (slot_weight (c_severity r) (c_status r), c_n r)) (counted_rows db))) =
     image_mset row_weight (mset (filter is_counted (findings db)))"
proof -
  have ex: "mset (expand (map f xs)) = (\<Sum>x \<leftarrow> xs. replicate_mset (snd (f x)) (fst (f x)))" for f and xs :: "'b list"
    by (induction xs) (auto simp: expand_def split: prod.splits)
  have "mset (expand (map (\<lambda>r. (slot_weight (c_severity r) (c_status r), c_n r)) (counted_rows db))) =
      (\<Sum>(k, v) \<leftarrow> group_by counted_key (filter is_counted (findings db)).
         replicate_mset (length v) (slot_weight (fst (snd k)) (snd (snd k))))"
    unfolding ex counted_rows_def map_map o_def is_counted_def
    by (intro arg_cong [where f = sum_list] map_cong refl) auto
  also have "\<dots> = image_mset row_weight (mset (filter is_counted (findings db)))"
    unfolding sum_list_dset_group by (simp add: counted_key_def row_weight_def [abs_def])
  finally show ?thesis .
qed

lemma positive_counted: "0 < row_weight r \<Longrightarrow> is_counted r"
  by (auto simp: row_weight_def slot_weight_def STATUS_FACTORS_def is_counted_def COUNTED_STATUSES_def split: if_splits)

lemma desc_eq_mset: "mset xs = mset ys \<Longrightarrow> desc xs = desc ys"
  by (rule sort_key_inj_key_eq) (simp_all add: inj_on_def)

text \<open>The one bound the closed form needs: the loop stops past \<open>_MAX_SLOTS\<close> rows of a type.\<close>

definition few :: "fdb \<Rightarrow> bool" where
  "few db \<longleftrightarrow> (\<forall>fid. length (filter (\<lambda>r. f_finding_id r = fid \<and> is_counted r) (findings db)) \<le> MAX_SLOTS)"

lemma type_group_penalty:
  assumes "few db"
  shows "group_penalty (map (\<lambda>r. (slot_weight (c_severity r) (c_status r), c_n r))
      (filter (\<lambda>r. c_finding_id r = fid) (counted_rows db))) = type_penalty db fid"
proof -
  let ?db = "only_id fid db"
  have rows: "filter (\<lambda>r. c_finding_id r = fid) (counted_rows db) = counted_rows ?db"
    unfolding only_id_def by (rule counted_filter)
  let ?slots = "map (\<lambda>r. (slot_weight (c_severity r) (c_status r), c_n r)) (counted_rows ?db)"
  have len: "length (expand ss) = sum_list (map snd ss)" for ss
    by (induction ss) (auto simp: expand_def)
  have "sum_list (map snd ?slots) = size (mset (expand ?slots))" by (simp add: len)
  also have "\<dots> = length (filter is_counted (findings ?db))" unfolding expand_counted by (simp flip: mset_filter)
  also have "\<dots> \<le> MAX_SLOTS" using assms by (simp add: few_def only_id_def conj_commute)
  finally have few: "sum_list (map snd ?slots) \<le> MAX_SLOTS" .
  have "mset (filter (\<lambda>w. 0 < w) (expand ?slots)) =
      mset (map row_weight (filter (\<lambda>r. f_finding_id r = fid \<and> 0 < row_weight r) (findings db)))"
    unfolding mset_filter expand_counted
    by (simp add: filter_mset_image_mset only_id_def flip: mset_filter)
      (intro arg_cong [where f = "image_mset row_weight"] arg_cong [where f = mset] filter_cong refl; auto dest: positive_counted)
  from desc_eq_mset [OF this] show ?thesis unfolding rows group_penalty_decay [OF few] type_penalty_def by simp
qed

text \<open>Totals over the dictionary of penalties.\<close>

lemma sum_dict:
  assumes "dwf d"
  shows "sum_list (map f d) = (\<Sum>k\<in>set (dkeys d). f (k, the (dget d k)))"
proof -
  have "sum_list (map f d) = (\<Sum>kv\<in>set d. f kv)"
    using assms by (simp add: sum_list_distinct_conv_sum_set dwf_def dkeys_def distinct_map)
  also have "\<dots> = (\<Sum>k\<in>set (dkeys d). f (k, the (dget d k)))"
    by (rule sum.reindex_bij_witness [where i = "\<lambda>k. (k, the (dget d k))" and j = fst])
      (auto simp: dkeys_def dget_def, (metis assms dget_def dget_in_dwf option.sel)+)
  finally show ?thesis .
qed

definition penalty_of :: "counted list \<Rightarrow> real" where
  "penalty_of rows = group_penalty (map (\<lambda>r. (slot_weight (c_severity r) (c_status r), c_n r)) rows)"

lemma total_penalty_rows:
  "total_penalty (penalties (grouped rows)) =
     (\<Sum>fid\<in>c_finding_id ` set rows. penalty_of (filter (\<lambda>r. c_finding_id r = fid) rows))"
proof -
  have "total_penalty (penalties (grouped rows)) = sum_list (map (\<lambda>(fid, rs). penalty_of rs) (grouped rows))"
    by (simp add: total_penalty_def penalties_def penalty_of_def case_prod_unfold o_def)
  also have "\<dots> = (\<Sum>k\<in>c_finding_id ` set rows. penalty_of (the (dget (grouped rows) k)))"
    by (subst sum_dict) (simp_all add: grouped_def)
  also have "\<dots> = (\<Sum>fid\<in>c_finding_id ` set rows. penalty_of (filter (\<lambda>r. c_finding_id r = fid) rows))"
    by (intro sum.cong refl) (simp add: grouped_def dget_group_by)
  finally show ?thesis .
qed

lemma penalty_of_Nil [simp]: "penalty_of [] = 0"
  by (simp add: penalty_of_def group_penalty_def)

lemma total_penalty_over:
  assumes "finite F" and "c_finding_id ` set rows \<subseteq> F"
  shows "total_penalty (penalties (grouped rows)) = (\<Sum>fid\<in>F. penalty_of (filter (\<lambda>r. c_finding_id r = fid) rows))"
  unfolding total_penalty_rows
  using assms by (intro sum.mono_neutral_left) (auto simp: filter_empty_conv image_iff intro!: arg_cong [of _ "[]" penalty_of, simplified])

lemma counted_ids: "c_finding_id ` set (counted_rows db) \<subseteq> f_finding_id ` set (findings db)"
proof
  fix fid assume "fid \<in> c_finding_id ` set (counted_rows db)"
  then obtain k rows where "(k, rows) \<in> set (group_by counted_key (filter (\<lambda>r. f_status r \<in> set COUNTED_STATUSES) (findings db)))"
    and k: "fst k = fid" by (auto simp: counted_rows_def)
  then have "k \<in> set (dkeys (group_by counted_key (filter (\<lambda>r. f_status r \<in> set COUNTED_STATUSES) (findings db))))"
    by (auto simp: dkeys_def image_iff intro!: bexI [of _ "(k, rows)"])
  then show "fid \<in> f_finding_id ` set (findings db)" using k by (auto simp: counted_key_def)
qed

lemma security_score_rows:
  "security_score db = score_from_penalty (total_penalty (penalties (grouped (counted_rows db))))
     (open_with ''critical'' db) (open_with ''high'' db)"
proof (cases "counted_rows db = []")
  case True
  then have "open_with ''critical'' db = 0 \<and> open_with ''high'' db = 0"
    using open_counts_rows [of db] by (simp add: open_counts_def)
  moreover have "total_penalty (penalties (grouped (counted_rows db))) = 0"
    using True by (simp add: total_penalty_rows)
  ultimately show ?thesis using True by (simp add: security_score_def)
next
  case False
  then show ?thesis by (simp add: security_score_def score_of_rows_def open_counts_rows)
qed

lemma security_score_formula:
  assumes "few db" and "finite F" and "f_finding_id ` set (findings db) \<subseteq> F"
  shows "security_score db = score_from_penalty (\<Sum>fid\<in>F. type_penalty db fid)
     (open_with ''critical'' db) (open_with ''high'' db)"
  unfolding security_score_rows
  using total_penalty_over [of F "counted_rows db"] assms counted_ids [of db]
  by (simp add: penalty_of_def type_group_penalty subset_trans)

text \<open>
  C8. The score is the documented formula: with at most 512 counted rows per finding type it is
  the halving curve, under the ceilings, of the sum over the finding types of
  \<open>w0 + w1/2 + w2/4 + ...\<close>, the weights of the rows of the type taken worst first. The grouping,
  the closed forms for runs of equal weights and the cap of twice the first weight change nothing.
\<close>

theorem security_score_is_documented_formula:
  assumes "few db"
  shows "security_score db =
    score_from_penalty
      (\<Sum>fid\<in>f_finding_id ` set (findings db).
         decay_sum (desc (map row_weight (filter (\<lambda>r. f_finding_id r = fid \<and> 0 < row_weight r) (findings db)))))
      (open_with ''critical'' db) (open_with ''high'' db)"
  using security_score_formula [OF assms finite_imageI subset_refl] by (simp add: type_penalty_def)

definition demo_score_db :: fdb where
  "demo_score_db = demo_devices\<lparr>findings := map (f_severity_update (\<lambda>_. ''critical'')) (findings demo_devices)\<rparr>"

lemma few_small: "length (findings db) \<le> MAX_SLOTS \<Longrightarrow> few db"
  unfolding few_def by (metis length_filter_le order_trans)

lemma security_score_is_documented_formula_witness:
  "security_score demo_score_db = score_from_penalty 30 1 0"
  by (subst security_score_is_documented_formula)
    (simp_all add: few_small demo_score_db_def demo_devices_def MAX_SLOTS_def row_weight_def slot_weight_def WEIGHTS_def STATUS_FACTORS_def)

lemma security_score_range: "0 \<le> security_score db \<and> security_score db \<le> 100"
  unfolding security_score_rows by (rule score_range)

lemma security_score_ceilings:
  "2 \<le> open_with ''critical'' db \<Longrightarrow> security_score db \<le> 20"
  "1 \<le> open_with ''critical'' db \<Longrightarrow> security_score db \<le> 34"
  "1 \<le> open_with ''critical'' db + open_with ''high'' db \<Longrightarrow> security_score db \<le> 79"
  unfolding security_score_rows by (rule score_ceiling; assumption)+

lemma grade_F: "grade s = ''F'' \<longleftrightarrow> s < 35"
  by (simp add: grade_def GRADE_BANDS_def)

lemma grade_A: "grade s = ''A'' \<longleftrightarrow> 80 \<le> s"
  by (simp add: grade_def GRADE_BANDS_def)

text \<open>
  C9. The score is a number from 0 to 100 with the promised ceilings: an open critical finding
  means at most 34 and grade F, two mean at most 20, and an open high or critical finding means
  no grade A; with nothing open or acknowledged it is 100.
\<close>

theorem score_bounds_and_ceilings:
  shows "0 \<le> security_score db \<and> security_score db \<le> 100 \<and>
    (1 \<le> open_with ''critical'' db \<longrightarrow> security_score db \<le> 34 \<and> grade (security_score db) = ''F'') \<and>
    (2 \<le> open_with ''critical'' db \<longrightarrow> security_score db \<le> 20) \<and>
    (1 \<le> open_with ''critical'' db + open_with ''high'' db \<longrightarrow> grade (security_score db) \<noteq> ''A'') \<and>
    ((\<forall>r\<in>set (findings db). \<not> is_counted r) \<longrightarrow> security_score db = 100 \<and> grade (security_score db) = ''A'')"
proof -
  have "counted_rows db = []" if "\<forall>r\<in>set (findings db). \<not> is_counted r"
  proof -
    have "filter (\<lambda>r. f_status r \<in> set COUNTED_STATUSES) (findings db) = []"
      using that by (auto simp: filter_empty_conv is_counted_def)
    then show ?thesis by (simp add: counted_rows_def group_by_def)
  qed
  then have clean: "security_score db = 100" if "\<forall>r\<in>set (findings db). \<not> is_counted r"
    using that by (simp add: security_score_def)
  show ?thesis unfolding grade_F grade_A
    using clean security_score_range [of db] security_score_ceilings [of db] by fastforce
qed

lemma score_bounds_and_ceilings_witness:
  "security_score demo_score_db \<le> 34 \<and> grade (security_score demo_score_db) = ''F''"
  using score_bounds_and_ceilings [of demo_score_db] by (simp add: demo_score_db_def demo_devices_def)

lemma decay_insort:
  assumes "0 \<le> x" and "\<forall>w\<in>set ws. 0 \<le> w" and "sorted (map uminus ws)"
  shows "decay_sum ws \<le> decay_sum (insort_key uminus x ws)"
  using assms
proof (induction ws)
  case (Cons w ws)
  show ?case
  proof (cases "- x \<le> - w")
    case True
    have "decay_sum (w # ws) \<le> 2 * w" using Cons.prems by (intro decay_sum_le) auto
    with True show ?thesis by (simp add: add_divide_distrib)
  next
    case False
    with Cons show ?thesis by simp
  qed
qed simp

lemma decay_more:
  "\<forall>w\<in>set (ks @ ws). 0 \<le> w \<Longrightarrow> decay_sum (desc ws) \<le> decay_sum (desc (ks @ ws))"
proof (induction ks)
  case (Cons k ks)
  then have "decay_sum (desc ws) \<le> decay_sum (desc (ks @ ws))" by simp
  also have "\<dots> \<le> decay_sum (insort_key uminus k (desc (ks @ ws)))"
    using Cons.prems by (intro decay_insort) auto
  finally show ?case by (simp add: sort_key_def)
qed simp

lemma type_penalty_filter:
  assumes "\<And>r. P r \<Longrightarrow> 0 < row_weight r"
  shows "decay_sum (desc (map row_weight (filter (\<lambda>r. P r \<and> \<not> Q r) rs))) \<le> decay_sum (desc (map row_weight (filter P rs)))"
proof -
  let ?k = "map row_weight (filter (\<lambda>r. P r \<and> Q r) rs)" and ?w = "map row_weight (filter (\<lambda>r. P r \<and> \<not> Q r) rs)"
  have "decay_sum (desc ?w) \<le> decay_sum (desc (?k @ ?w))"
    using assms by (intro decay_more) (auto simp: less_imp_le)
  moreover have "desc (?k @ ?w) = desc (map row_weight (filter P rs))"
    by (rule desc_eq_mset) (induction rs, auto)
  ultimately show ?thesis by simp
qed

definition close_where :: "(finding \<Rightarrow> bool) \<Rightarrow> stamp \<Rightarrow> fdb \<Rightarrow> fdb" where
  "close_where Q now db = db\<lparr>findings := map (\<lambda>r. if Q r then close_row now r else r) (findings db)\<rparr>"

lemma close_where_filter:
  assumes "\<And>r. P (close_row now r) \<Longrightarrow> False"
  shows "filter P (findings (close_where Q now db)) = filter (\<lambda>r. P r \<and> \<not> Q r) (findings db)"
proof -
  have "filter P (map (\<lambda>r. if Q r then close_row now r else r) rs) = filter (\<lambda>r. P r \<and> \<not> Q r) rs" for rs
    using assms by (induction rs) auto
  then show ?thesis by (simp add: close_where_def)
qed

lemma close_row_weight [simp]: "row_weight (close_row now r) = 0" "\<not> is_counted (close_row now r)"
  "f_finding_id (close_row now r) = f_finding_id r"
  by (simp_all add: row_weight_def slot_weight_def STATUS_FACTORS_def is_counted_def COUNTED_STATUSES_def close_row_def)

lemma length_filter_conj: "length (filter (\<lambda>r. P r \<and> \<not> Q r) rs) \<le> length (filter P rs)"
  by (induction rs) auto

lemma open_with_close: "open_with sev (close_where Q now db) \<le> open_with sev db"
proof -
  have "filter (\<lambda>r. f_status r = ''open'' \<and> f_severity r = sev) (findings (close_where Q now db)) =
      filter (\<lambda>r. (f_status r = ''open'' \<and> f_severity r = sev) \<and> \<not> Q r) (findings db)"
    by (rule close_where_filter) simp
  then show ?thesis by (simp only: length_filter_conj)
qed

lemma few_close:
  assumes "few db" shows "few (close_where Q now db)"
  unfolding few_def
proof
  fix fid
  have "filter (\<lambda>r. f_finding_id r = fid \<and> is_counted r) (findings (close_where Q now db)) =
      filter (\<lambda>r. (f_finding_id r = fid \<and> is_counted r) \<and> \<not> Q r) (findings db)"
    by (rule close_where_filter) simp
  then show "length (filter (\<lambda>r. f_finding_id r = fid \<and> is_counted r) (findings (close_where Q now db))) \<le> MAX_SLOTS"
    using order_trans [OF length_filter_conj, of "\<lambda>r. f_finding_id r = fid \<and> is_counted r" "findings db" MAX_SLOTS] assms
    unfolding few_def by (simp only:)
qed

lemma type_penalty_close: "type_penalty (close_where Q now db) fid \<le> type_penalty db fid"
proof -
  have "filter (\<lambda>r. f_finding_id r = fid \<and> 0 < row_weight r) (findings (close_where Q now db)) =
      filter (\<lambda>r. (f_finding_id r = fid \<and> 0 < row_weight r) \<and> \<not> Q r) (findings db)"
    by (rule close_where_filter) simp
  moreover have "decay_sum (desc (map row_weight (filter (\<lambda>r. (f_finding_id r = fid \<and> 0 < row_weight r) \<and> \<not> Q r) (findings db))))
      \<le> type_penalty db fid"
    unfolding type_penalty_def by (rule type_penalty_filter) simp
  ultimately show ?thesis unfolding type_penalty_def [of "close_where Q now db"] by (simp only:)
qed

text \<open>
  Fixing findings never costs points: closing any set of findings leaves the score the same
  or raises it (with at most 512 counted rows per type).
\<close>

theorem closing_never_lowers_score:
  assumes "few db"
  shows "security_score db \<le> security_score (close_where Q now db)"
proof -
  let ?F = "f_finding_id ` set (findings db)"
  have ids: "f_finding_id ` set (findings (close_where Q now db)) \<subseteq> ?F"
    by (auto simp: close_where_def)
  have "(\<Sum>fid\<in>?F. type_penalty (close_where Q now db) fid) \<le> (\<Sum>fid\<in>?F. type_penalty db fid)"
    by (intro sum_mono type_penalty_close)
  then show ?thesis
    unfolding security_score_formula [OF assms finite_imageI [OF finite_set] subset_refl]
      security_score_formula [OF few_close [OF assms] finite_imageI [OF finite_set] ids]
    by (intro score_mono open_with_close)
qed

lemma closing_never_lowers_score_witness:
  "security_score demo_score_db \<le> security_score (close_where (\<lambda>_. True) 5 demo_score_db)"
  by (rule closing_never_lowers_score) (simp add: few_small demo_score_db_def demo_devices_def MAX_SLOTS_def)

text \<open>
  The breakdown tells the truth: the points an entry promises are exactly what the score
  rises by when every finding of that type is closed.
\<close>

theorem breakdown_gain_is_exact:
  assumes "e \<in> set (score_breakdown title db)"
  shows "security_score (close_where (\<lambda>r. f_finding_id r = b_finding_id e) now db) = security_score db + b_score_gain e"
proof -
  let ?fid = "b_finding_id e" and ?rows = "counted_rows db"
  let ?db' = "close_where (\<lambda>r. f_finding_id r = ?fid) now db"
  from assms obtain grp where e: "e = breakdown_entry title ?rows (?fid, grp)" and g: "(?fid, grp) \<in> set (grouped ?rows)"
    by (auto simp: score_breakdown_def breakdown_entry_def Let_def case_prod_beta split: if_splits)
  have "filter (\<lambda>r. f_status r \<in> set COUNTED_STATUSES) (findings ?db') =
      filter (\<lambda>r. f_status r \<in> set COUNTED_STATUSES \<and> \<not> f_finding_id r = ?fid) (findings db)"
    by (rule close_where_filter) (simp add: COUNTED_STATUSES_def)
  then have rows': "counted_rows ?db' = filter (\<lambda>r. c_finding_id r \<noteq> ?fid) ?rows"
    using counted_filter [of "\<lambda>i. i \<noteq> ?fid" db] by (simp add: counted_rows_def conj_commute)
  have key: "?fid \<in> c_finding_id ` set ?rows"
    using g dkeys_group_by [of c_finding_id ?rows] by (force simp: grouped_def dkeys_def)
  have pen: "dget (penalties (grouped ?rows)) ?fid = Some (penalty_of (filter (\<lambda>r. c_finding_id r = ?fid) ?rows))"
  proof -
    have "dget (penalties d) k = map_option penalty_of (dget d k)" for d k
      by (induction d) (auto simp: penalties_def penalty_of_def dget_Cons)
    then show ?thesis using key by (simp add: grouped_def dget_group_by)
  qed
  have tot: "total_penalty (penalties (grouped (filter (\<lambda>r. c_finding_id r \<noteq> ?fid) ?rows))) =
      total_penalty (penalties (grouped ?rows)) - penalty_of (filter (\<lambda>r. c_finding_id r = ?fid) ?rows)"
  proof -
    let ?F = "c_finding_id ` set ?rows"
    have "total_penalty (penalties (grouped (filter (\<lambda>r. c_finding_id r \<noteq> ?fid) ?rows))) =
        (\<Sum>fid\<in>?F. penalty_of (filter (\<lambda>r. c_finding_id r = fid) (filter (\<lambda>r. c_finding_id r \<noteq> ?fid) ?rows)))"
      by (rule total_penalty_over) auto
    also have "\<dots> = (\<Sum>fid\<in>?F - {?fid}. penalty_of (filter (\<lambda>r. c_finding_id r = fid) ?rows))"
      by (rule sum.mono_neutral_cong_right)
        (auto simp: filter_empty_conv intro!: arg_cong [where f = penalty_of] filter_cong)
    finally show ?thesis using key by (simp add: total_penalty_rows sum_diff1)
  qed
  obtain wc wh where w: "open_counts (filter (\<lambda>r. c_finding_id r \<noteq> ?fid) ?rows) = (wc, wh)" by fastforce
  have cc: "wc = open_with ''critical'' ?db'" "wh = open_with ''high'' ?db'"
    using w open_counts_rows [of ?db'] by (simp_all add: rows')
  have after: "security_score ?db' = score_from_penalty
      (total_penalty (penalties (grouped ?rows)) - penalty_of (filter (\<lambda>r. c_finding_id r = ?fid) ?rows)) wc wh"
    unfolding security_score_rows [of ?db'] rows' tot cc ..
  have cur: "score_of_rows ?rows = security_score db"
    by (simp add: security_score_rows score_of_rows_def open_counts_rows)
  have "score_of_rows ?rows \<le> security_score ?db'"
    unfolding after cur security_score_rows [of db] cc
    by (intro score_mono open_with_close) (simp add: penalty_of_def group_penalty_nonneg)
  moreover have "b_score_gain e = max 0 (security_score ?db' - score_of_rows ?rows)"
    by (subst e) (simp add: breakdown_entry_def Let_def pen w after)
  ultimately show ?thesis by (simp add: cur)
qed

lemma breakdown_gain_is_exact_witness:
  "\<exists>e. e \<in> set (score_breakdown (\<lambda>fid _. fid) demo_score_db) \<and>
     security_score (close_where (\<lambda>r. f_finding_id r = b_finding_id e) 5 demo_score_db) =
       security_score demo_score_db + b_score_gain e"
proof -
  have "counted_rows demo_score_db \<noteq> []"
    by (simp add: counted_rows_def demo_score_db_def demo_devices_def COUNTED_STATUSES_def group_by_def dappend_def)
  then obtain c cs where "counted_rows demo_score_db = c # cs" by (cases "counted_rows demo_score_db") simp_all
  then have "grouped (counted_rows demo_score_db) \<noteq> []"
    using dkeys_group_by [of c_finding_id "c # cs"] by (auto simp: grouped_def dkeys_def)
  with \<open>counted_rows demo_score_db \<noteq> []\<close>
  have "set (score_breakdown (\<lambda>fid _. fid) demo_score_db) =
      breakdown_entry (\<lambda>fid _. fid) (counted_rows demo_score_db) ` set (grouped (counted_rows demo_score_db))"
    by (simp add: score_breakdown_def Let_def)
  with \<open>grouped (counted_rows demo_score_db) \<noteq> []\<close>
  obtain e where "e \<in> set (score_breakdown (\<lambda>fid _. fid) demo_score_db)" by fastforce
  with breakdown_gain_is_exact [OF this, of 5] show ?thesis by blast
qed

end
