(* ===== verification/Qr_Gf.thy ===== *)
theory Qr_Gf
  imports Soc_Prelude "HOL-Library.Word"
begin

text \<open>
  The arithmetic of the QR encoder, first half of \<open>homesoc/web/qr.py\<close>: the tables of GF(256) and
  Reed-Solomon error correction. The generic part, polynomials over a commutative ring of
  characteristic two and division by shifting, is a locale; the tables interpret it.
\<close>

unbundle bit_operations_syntax

section \<open>The tables\<close>

text \<open>One step of \<open>_init_gf\<close>: multiplication by the generator 2.\<close>

definition gf_double :: "nat \<Rightarrow> nat" where
  "gf_double value = (let v = push_bit 1 value in if v AND 0x100 \<noteq> 0 then v XOR 0x11D else v)"

fun init_exp :: "nat \<Rightarrow> nat \<Rightarrow> nat list" where
  "init_exp 0 value = []"
| "init_exp (Suc n) value = value # init_exp n (gf_double value)"

text \<open>The loop fills the first 255 powers; the second half of the table repeats them.\<close>

definition GF_EXP :: "nat list" where
  "GF_EXP = (let e = init_exp 255 1 in e @ e @ take 2 e)"

definition GF_LOG :: "nat list" where
  "GF_LOG = fold (\<lambda>(power, value) l. l[value := power]) (zip [0..<255] (init_exp 255 1)) (replicate 256 0)"

definition gf_mul :: "nat \<Rightarrow> nat \<Rightarrow> nat" where
  "gf_mul a b = (if a = 0 \<or> b = 0 then 0 else GF_EXP ! (GF_LOG ! a + GF_LOG ! b))"

section \<open>Reed-Solomon\<close>

definition xor_lists :: "nat list \<Rightarrow> nat list \<Rightarrow> nat list" where
  "xor_lists xs ys = map2 (XOR) xs ys"

text \<open>One round of \<open>_rs_generator\<close>: the loop over the coefficients, updating the next polynomial.\<close>

fun generator_round :: "nat \<Rightarrow> nat list \<Rightarrow> nat \<Rightarrow> nat list \<Rightarrow> nat list" where
  "generator_round alpha [] i nxt = nxt"
| "generator_round alpha (coeff # poly) i nxt =
     (let nxt = nxt[i := nxt ! i XOR coeff];
          nxt = nxt[i + 1 := nxt ! (i + 1) XOR gf_mul coeff alpha]
      in generator_round alpha poly (i + 1) nxt)"

definition rs_generator :: "nat \<Rightarrow> nat list" where
  "rs_generator degree =
     fold (\<lambda>power poly. generator_round (GF_EXP ! power) poly 0 (replicate (length poly + 1) 0)) [0..<degree] [1]"

text \<open>The division loop; \<open>factor\<close> and the coefficients are looked up in the logarithm table.\<close>

definition rs_step :: "nat list \<Rightarrow> nat \<Rightarrow> nat list \<Rightarrow> nat list" where
  "rs_step generator byte remainder =
     (let factor = byte XOR remainder ! 0;
          remainder = tl remainder @ [0]
      in if factor = 0 then remainder
         else map2 (\<lambda>r coeff. if coeff = 0 then r else r XOR GF_EXP ! (GF_LOG ! factor + GF_LOG ! coeff))
                remainder (tl generator))"

definition rs_encode :: "nat list \<Rightarrow> nat \<Rightarrow> nat list" where
  "rs_encode data ec_codewords =
     fold (rs_step (rs_generator ec_codewords)) data (replicate ec_codewords 0)"

section \<open>Polynomials over a ring of characteristic two\<close>

text \<open>Coefficients from the highest power down, as the code stores them.\<close>

definition poly_eval :: "('a \<Rightarrow> 'a \<Rightarrow> 'a) \<Rightarrow> ('a \<Rightarrow> 'a \<Rightarrow> 'a) \<Rightarrow> 'a \<Rightarrow> 'a \<Rightarrow> 'a list \<Rightarrow> 'a" where
  "poly_eval add mul zero x p = foldl (\<lambda>acc c. add (mul acc x) c) zero p"

definition times_linear :: "('a \<Rightarrow> 'a \<Rightarrow> 'a) \<Rightarrow> ('a \<Rightarrow> 'a \<Rightarrow> 'a) \<Rightarrow> 'a \<Rightarrow> 'a \<Rightarrow> 'a list \<Rightarrow> 'a list" where
  "times_linear add mul zero a p = map2 add (p @ [zero]) (zero # map (\<lambda>c. mul c a) p)"

definition shift_step ::
  "('a \<Rightarrow> 'a \<Rightarrow> 'a) \<Rightarrow> ('a \<Rightarrow> 'a \<Rightarrow> 'a) \<Rightarrow> 'a \<Rightarrow> 'a list \<Rightarrow> 'a \<Rightarrow> 'a list \<Rightarrow> 'a list" where
  "shift_step add mul zero g b rem =
     map2 add (tl rem @ [zero]) (map (mul (add b (hd rem))) (tl g))"

primrec pow_of :: "('a \<Rightarrow> 'a \<Rightarrow> 'a) \<Rightarrow> 'a \<Rightarrow> 'a \<Rightarrow> nat \<Rightarrow> 'a" where
  "pow_of mul one x 0 = one"
| "pow_of mul one x (Suc n) = mul x (pow_of mul one x n)"

locale char2_ring =
  fixes ok :: "'a \<Rightarrow> bool" and add :: "'a \<Rightarrow> 'a \<Rightarrow> 'a" and mul :: "'a \<Rightarrow> 'a \<Rightarrow> 'a" and zero :: 'a and one :: 'a
  assumes ok_zero [simp]: "ok zero" and ok_one [simp]: "ok one"
    and ok_add [simp]: "ok a \<Longrightarrow> ok b \<Longrightarrow> ok (add a b)"
    and ok_mul [simp]: "ok a \<Longrightarrow> ok b \<Longrightarrow> ok (mul a b)"
    and add_assoc: "add (add a b) c = add a (add b c)" and add_comm: "add a b = add b a"
    and add_zero [simp]: "add zero a = a" and add_self [simp]: "add a a = zero"
    and mul_assoc: "ok a \<Longrightarrow> ok b \<Longrightarrow> ok c \<Longrightarrow> mul (mul a b) c = mul a (mul b c)"
    and mul_comm: "ok a \<Longrightarrow> ok b \<Longrightarrow> mul a b = mul b a"
    and mul_one [simp]: "ok a \<Longrightarrow> mul one a = a" and mul_zero [simp]: "mul zero a = zero"
    and distrib: "ok a \<Longrightarrow> ok b \<Longrightarrow> ok c \<Longrightarrow> mul (add a b) c = add (mul a c) (mul b c)"
begin

abbreviation eval :: "'a \<Rightarrow> 'a list \<Rightarrow> 'a" where "eval \<equiv> poly_eval add mul zero"
abbreviation pw :: "'a \<Rightarrow> nat \<Rightarrow> 'a" where "pw \<equiv> pow_of mul one"
abbreviation all_ok :: "'a list \<Rightarrow> bool" where "all_ok p \<equiv> list_all ok p"

lemma add_left_comm: "add a (add b c) = add b (add a c)"
  by (metis add_assoc add_comm)

lemmas add_ac = add_assoc add_comm add_left_comm

lemma add_zero_right [simp]: "add a zero = a"
  by (metis add_comm add_zero)

lemma add_cancel [simp]: "add a (add a b) = b"
  by (metis add_assoc add_self add_zero)

lemma add_eq_zero: "add a b = zero \<longleftrightarrow> a = b"
  by (metis add_cancel add_self add_zero_right)

lemma mul_zero_right [simp]: "ok a \<Longrightarrow> mul a zero = zero"
  by (metis mul_comm mul_zero ok_zero)

lemma distrib_left: "ok a \<Longrightarrow> ok b \<Longrightarrow> ok c \<Longrightarrow> mul c (add a b) = add (mul c a) (mul c b)"
  by (metis distrib mul_comm ok_add)

lemma mul_left_comm: "ok a \<Longrightarrow> ok b \<Longrightarrow> ok c \<Longrightarrow> mul a (mul b c) = mul b (mul a c)"
  by (metis mul_assoc mul_comm)

lemma ok_pw [simp]: "ok x \<Longrightarrow> ok (pw x n)"
  by (induction n) simp_all

lemma pw_add: "ok x \<Longrightarrow> pw x (m + n) = mul (pw x m) (pw x n)"
  by (induction m) (simp_all add: mul_assoc)

lemma pw_one [simp]: "pw one n = one"
  by (induction n) simp_all

lemma pw_mul: "ok x \<Longrightarrow> ok y \<Longrightarrow> pw (mul x y) n = mul (pw x n) (pw y n)"
proof (induction n)
  case (Suc n)
  then show ?case by (simp add: mul_assoc mul_left_comm [of y])
qed simp

lemma pw_pw: "ok x \<Longrightarrow> pw (pw x m) n = pw x (m * n)"
  by (induction n) (simp_all add: pw_add add.commute [of _ m])

lemma eval_Nil [simp]: "eval x [] = zero"
  by (simp add: poly_eval_def)

lemma eval_snoc [simp]: "eval x (p @ [c]) = add (mul (eval x p) x) c"
  by (simp add: poly_eval_def)

lemma ok_eval [simp]: "ok x \<Longrightarrow> all_ok p \<Longrightarrow> ok (eval x p)"
  by (induction p rule: rev_induct) simp_all

lemma eval_append:
  "ok x \<Longrightarrow> all_ok p \<Longrightarrow> all_ok q \<Longrightarrow> eval x (p @ q) = add (mul (eval x p) (pw x (length q))) (eval x q)"
proof (induction q rule: rev_induct)
  case Nil
  then show ?case by (simp add: mul_comm [of _ one])
next
  case (snoc c q)
  have "eval x (p @ q @ [c]) = add (mul (eval x (p @ q)) x) c"
    using eval_snoc [of x "p @ q" c] by simp
  also have "\<dots> = add (add (mul (mul (eval x p) (pw x (length q))) x) (mul (eval x q) x)) c"
    using snoc by (simp add: distrib)
  also have "mul (mul (eval x p) (pw x (length q))) x = mul (eval x p) (pw x (length (q @ [c])))"
    using snoc.prems by (simp add: mul_assoc mul_comm [of "pw x (length q)" x])
  finally show ?case by (simp add: add_assoc)
qed

lemma eval_Cons: "ok x \<Longrightarrow> ok c \<Longrightarrow> all_ok q \<Longrightarrow> eval x (c # q) = add (mul c (pw x (length q))) (eval x q)"
  using eval_append [of x "[c]" q] by (simp add: poly_eval_def)

lemma eval_add:
  "length p = length q \<Longrightarrow> ok x \<Longrightarrow> all_ok p \<Longrightarrow> all_ok q \<Longrightarrow> eval x (map2 add p q) = add (eval x p) (eval x q)"
proof (induction p arbitrary: q rule: rev_induct)
  case (snoc a p)
  then obtain b q' where q: "q = q' @ [b]" by (metis length_0_conv rev_exhaust length_append_singleton nat.distinct(1))
  with snoc show ?case by (simp add: distrib add_ac)
qed simp

lemma eval_scale: "ok a \<Longrightarrow> ok x \<Longrightarrow> all_ok p \<Longrightarrow> eval x (map (mul a) p) = mul a (eval x p)"
  by (induction p rule: rev_induct) (simp_all add: distrib_left mul_assoc)

lemma all_ok_map2 [simp]: "all_ok p \<Longrightarrow> all_ok q \<Longrightarrow> all_ok (map2 add p q)"
  by (auto simp: list_all_iff in_set_zip)

text \<open>The generator: multiplying by \<open>x + a\<close>.\<close>

lemma length_times_linear [simp]: "length (times_linear add mul zero a p) = Suc (length p)"
  by (simp add: times_linear_def)

lemma ok_times_linear [simp]: "ok a \<Longrightarrow> all_ok p \<Longrightarrow> all_ok (times_linear add mul zero a p)"
  unfolding times_linear_def by (intro all_ok_map2) (auto simp: list_all_iff)

lemma eval_times_linear:
  assumes "ok a" "ok x" "all_ok p"
  shows "eval x (times_linear add mul zero a p) = mul (eval x p) (add x a)"
proof -
  have m: "map (\<lambda>c. mul c a) p = map (mul a) p" using assms by (auto simp: list_all_iff mul_comm)
  have "all_ok (map (mul a) p)" using assms by (simp add: list_all_iff)
  then have "eval x (times_linear add mul zero a p) = add (mul (eval x p) x) (mul a (eval x p))"
    unfolding times_linear_def m using assms by (simp add: eval_add eval_Cons eval_scale)
  then show ?thesis using assms by (simp add: distrib_left mul_comm [of a])
qed

abbreviation gen :: "'a list \<Rightarrow> 'a list" where
  "gen roots \<equiv> fold (times_linear add mul zero) roots [one]"

lemma gen_snoc: "gen (roots @ [a]) = times_linear add mul zero a (gen roots)"
  by simp

lemma ok_gen [simp]: "all_ok roots \<Longrightarrow> all_ok (gen roots)"
  by (induction roots rule: rev_induct) simp_all

lemma length_gen [simp]: "length (gen roots) = Suc (length roots)"
  by (induction roots rule: rev_induct) simp_all

lemma hd_gen: "hd (gen roots) = one"
proof (induction roots rule: rev_induct)
  case (snoc a roots)
  obtain c p where "gen roots = c # p" using length_gen [of roots] by (cases "gen roots") simp_all
  then have "hd (times_linear add mul zero a (gen roots)) = hd (gen roots)" by (simp add: times_linear_def)
  with snoc show ?case by simp
qed simp

lemma eval_gen_zero:
  "all_ok roots \<Longrightarrow> a \<in> set roots \<Longrightarrow> eval a (gen roots) = zero"
proof (induction roots rule: rev_induct)
  case (snoc b roots)
  then have "all_ok roots" by simp
  with snoc have ab: "ok a" "ok b" "all_ok (gen roots)" by (simp_all only: ok_gen) (auto simp: list_all_iff)
  show ?case
  proof (cases "a = b")
    case False
    with snoc have "eval a (gen roots) = zero" by simp
    then show ?thesis using ab by (simp add: eval_times_linear)
  qed (use ab in \<open>simp add: eval_times_linear\<close>)
qed simp

text \<open>Division by shifting keeps, at every root, the value of what was read.\<close>

lemma shift_step_ok:
  "ok b \<Longrightarrow> all_ok rem \<Longrightarrow> rem \<noteq> [] \<Longrightarrow> all_ok g \<Longrightarrow> all_ok (shift_step add mul zero g b rem)"
  unfolding shift_step_def
  by (intro all_ok_map2; cases rem; cases g) (simp_all add: list_all_iff)

lemma length_shift_step:
  "length g = Suc (length rem) \<Longrightarrow> rem \<noteq> [] \<Longrightarrow> length (shift_step add mul zero g b rem) = length rem"
  by (simp add: shift_step_def)

lemma eval_shift_step:
  assumes g: "length g = Suc (length rem)" "all_ok g" "hd g = one" "eval r g = zero"
    and rem: "rem \<noteq> []" "all_ok rem" and r: "ok r" "ok b"
  shows "eval r (shift_step add mul zero g b rem) = add (mul (eval r rem) r) (mul b (pw r (length rem)))"
proof -
  obtain m0 m where m: "rem = m0 # m" using rem(1) by (cases rem) simp_all
  obtain g' where g': "g = one # g'" "length g' = length rem" using g(1,3) by (cases g) auto
  have ok: "ok m0" "all_ok m" "all_ok g'" using rem g m g' by simp_all
  have gr: "eval r g' = pw r (length rem)"
    using g(4) g' ok r by (simp add: eval_Cons add_eq_zero)
  have f: "ok (add b m0)" "all_ok (map (mul (add b m0)) g')"
    using ok r by (simp_all add: list_all_iff)
  have "eval r (shift_step add mul zero g b rem) =
      add (mul (eval r m) r) (mul (add b m0) (pw r (length rem)))"
    using ok r f g'(2) by (simp add: shift_step_def m g'(1) eval_add eval_scale gr [unfolded m])
  also have "mul (add b m0) (pw r (length rem)) = add (mul b (pw r (length rem))) (mul (mul m0 (pw r (length m))) r)"
    using ok r by (simp add: distrib m mul_assoc mul_comm [of "pw r (length m)" r])
  also have "add (mul (eval r m) r) (add (mul b (pw r (length rem))) (mul (mul m0 (pw r (length m))) r)) =
      add (mul (eval r rem) r) (mul b (pw r (length rem)))"
    using ok r by (simp add: m eval_Cons distrib add_ac)
  finally show ?thesis .
qed

abbreviation remainder_of :: "'a list \<Rightarrow> 'a list \<Rightarrow> 'a list" where
  "remainder_of g data \<equiv> fold (shift_step add mul zero g) data (replicate (length g - 1) zero)"

lemma shift_division:
  assumes g: "2 \<le> length g" "all_ok g" "hd g = one" "eval r g = zero" and r: "ok r" and d: "all_ok data"
  shows "length (remainder_of g data) = length g - 1 \<and> all_ok (remainder_of g data) \<and>
    eval r (data @ remainder_of g data) = zero"
  using d
proof (induction data rule: rev_induct)
  case Nil
  have "eval r (replicate n zero) = zero" for n
    by (induction n) (use r in \<open>simp_all add: eval_Cons list_all_iff\<close>)
  then show ?case by (simp add: list_all_iff)
next
  case (snoc b data)
  let ?m = "remainder_of g data"
  have IH: "length ?m = length g - 1" "all_ok ?m" "eval r (data @ ?m) = zero" and ok: "all_ok data" "ok b"
    using snoc by simp_all
  have ne: "?m \<noteq> []" "length g = Suc (length ?m)" using IH(1) g(1) by auto
  have m': "remainder_of g (data @ [b]) = shift_step add mul zero g b ?m" by simp
  have len: "length (shift_step add mul zero g b ?m) = length ?m"
    by (rule length_shift_step [OF ne(2,1)])
  have okm': "all_ok (shift_step add mul zero g b ?m)" by (rule shift_step_ok [OF ok(2) IH(2) ne(1) g(2)])
  have prev: "eval r ?m = mul (eval r data) (pw r (length ?m))"
    using IH(3) ok IH(2) r by (simp add: eval_append add_eq_zero)
  have "eval r ((data @ [b]) @ shift_step add mul zero g b ?m) =
      add (mul (add (mul (eval r data) r) b) (pw r (length ?m))) (eval r (shift_step add mul zero g b ?m))"
    using eval_append [OF r, of "data @ [b]" "shift_step add mul zero g b ?m"] ok okm' len by simp
  also have "\<dots> = zero"
    unfolding eval_shift_step [OF ne(2) g(2,3,4) ne(1) IH(2) r ok(2)] prev
    using ok r by (simp add: distrib mul_assoc mul_comm [of r] add_eq_zero)
  finally show ?case using m' len okm' IH(1) by simp
qed

text \<open>Weighted sums over locators: what a syndrome is for a sparse word.\<close>

fun wsum :: "('a \<times> 'a) list \<Rightarrow> ('a \<Rightarrow> 'a) \<Rightarrow> 'a" where
  "wsum [] f = zero"
| "wsum ((c, x) # ts) f = add (mul c (f x)) (wsum ts f)"

abbreviation ok_terms :: "('a \<times> 'a) list \<Rightarrow> bool" where
  "ok_terms ts \<equiv> list_all (\<lambda>(c, x). ok c \<and> ok x) ts"

lemma ok_wsum [simp]: "ok_terms ts \<Longrightarrow> (\<And>x. ok x \<Longrightarrow> ok (f x)) \<Longrightarrow> ok (wsum ts f)"
  by (induction ts f rule: wsum.induct) auto

lemma wsum_add:
  "ok_terms ts \<Longrightarrow> (\<And>x. ok x \<Longrightarrow> ok (f x)) \<Longrightarrow> (\<And>x. ok x \<Longrightarrow> ok (g x)) \<Longrightarrow>
     wsum ts (\<lambda>x. add (f x) (g x)) = add (wsum ts f) (wsum ts g)"
  by (induction ts) (auto simp: distrib_left add_ac)

lemma wsum_scale:
  "ok_terms ts \<Longrightarrow> ok a \<Longrightarrow> (\<And>x. ok x \<Longrightarrow> ok (f x)) \<Longrightarrow> wsum ts (\<lambda>x. mul a (f x)) = mul a (wsum ts f)"
proof (induction ts)
  case (Cons t ts)
  obtain c x where t: "t = (c, x)" by fastforce
  with Cons.prems have ok: "ok c" "ok (f x)" "ok_terms ts" by auto
  have "mul c (mul a (f x)) = mul a (mul c (f x))" by (rule mul_left_comm [OF ok(1) Cons.prems(2) ok(2)])
  with Cons t ok show ?case by (simp add: distrib_left)
qed simp

lemma wsum_cong: "ok_terms ts \<Longrightarrow> (\<And>x. ok x \<Longrightarrow> f x = g x) \<Longrightarrow> wsum ts f = wsum ts g"
  by (induction ts) auto

lemma wsum_eval_zero:
  assumes ts: "ok_terms ts" and p: "all_ok p" and z: "\<And>i. i < length p \<Longrightarrow> wsum ts (\<lambda>x. pw x i) = zero"
  shows "wsum ts (\<lambda>x. eval x p) = zero"
  using p z
proof (induction p)
  case Nil
  show ?case using ts by (induction ts) auto
next
  case (Cons c p)
  have "wsum ts (\<lambda>x. eval x (c # p)) = wsum ts (\<lambda>x. add (mul c (pw x (length p))) (eval x p))"
    using Cons.prems(1) by (intro wsum_cong [OF ts]) (simp add: eval_Cons)
  also have "\<dots> = add (mul c (wsum ts (\<lambda>x. pw x (length p)))) (wsum ts (\<lambda>x. eval x p))"
    using ts Cons.prems(1) by (simp add: wsum_add wsum_scale)
  also have "\<dots> = zero" using Cons by simp
  finally show ?case .
qed

lemma wsum_single:
  "ok_terms ts \<Longrightarrow> (\<And>c x. (c, x) \<in> set ts \<Longrightarrow> f x = zero) \<Longrightarrow> wsum ts f = zero"
proof (induction ts f rule: wsum.induct)
  case (2 c x ts f)
  then have "f x = zero" "wsum ts f = zero" "ok c" by auto
  then show ?case by simp
qed simp

lemma eval_gen_nonzero:
  assumes dom: "\<And>a b. ok a \<Longrightarrow> ok b \<Longrightarrow> mul a b = zero \<Longrightarrow> a = zero \<or> b = zero" and one: "one \<noteq> zero"
    and "all_ok roots" "ok x" "x \<notin> set roots"
  shows "eval x (gen roots) \<noteq> zero"
  using assms(3-5)
proof (induction roots rule: rev_induct)
  case Nil
  then show ?case using one by (simp add: poly_eval_def)
next
  case (snoc b roots)
  then have ok: "all_ok roots" "ok b" "x \<noteq> b" "eval x (gen roots) \<noteq> zero" by simp_all
  then show ?case
    using snoc.prems(2) dom [of "eval x (gen roots)" "add x b"] by (auto simp: eval_times_linear add_eq_zero)
qed

text \<open>A word with few nonzero terms cannot have many zero syndromes.\<close>

lemma few_terms_vanish:
  assumes dom: "\<And>a b. ok a \<Longrightarrow> ok b \<Longrightarrow> mul a b = zero \<Longrightarrow> a = zero \<or> b = zero" and one: "one \<noteq> zero"
    and ts: "ok_terms ts" "distinct (map snd ts)" "length ts \<le> n"
    and z: "\<And>i. i < n \<Longrightarrow> wsum ts (\<lambda>x. pw x i) = zero" and c: "(c, x) \<in> set ts"
  shows "c = zero"
proof -
  obtain us vs where split: "ts = us @ (c, x) # vs" using c by (meson split_list)
  let ?roots = "map snd (us @ vs)"
  have okr: "all_ok ?roots" and okc: "ok c" "ok x" and x: "x \<notin> set ?roots"
    using ts(1,2) unfolding split by (auto simp: list_all_iff)
  have zero: "(c', y) \<in> set (us @ vs) \<Longrightarrow> eval y (gen ?roots) = zero" for c' y
    by (rule eval_gen_zero [OF okr]) force
  have "wsum ts (\<lambda>x. eval x (gen ?roots)) = zero"
  proof (rule wsum_eval_zero [OF ts(1) ok_gen [OF okr]])
    fix i assume "i < length (gen ?roots)"
    then have "i < n" using ts(3) unfolding length_gen by (simp add: split)
    then show "wsum ts (\<lambda>x. pw x i) = zero" by (rule z)
  qed
  moreover have "wsum ts f = add (wsum us f) (add (mul c (f x)) (wsum vs f))" for f
    unfolding split by (induction us f rule: wsum.induct) (auto simp: add_assoc)
  moreover have "wsum us (\<lambda>x. eval x (gen ?roots)) = zero" "wsum vs (\<lambda>x. eval x (gen ?roots)) = zero"
    using ts(1) zero unfolding split by (auto intro!: wsum_single)
  ultimately have "mul c (eval x (gen ?roots)) = zero" by (metis add_zero add_zero_right)
  moreover have "eval x (gen ?roots) \<noteq> zero" by (rule eval_gen_nonzero [OF dom one okr okc(2) x])
  moreover have "ok (eval x (gen ?roots))" by (rule ok_eval [OF okc(2) ok_gen [OF okr]])
  ultimately show ?thesis using dom [OF okc(1)] by blast
qed

end

section \<open>GF(256)\<close>

abbreviation byte :: "nat \<Rightarrow> bool" where "byte v \<equiv> v < 256"

text \<open>The powers of the generator, without a table.\<close>

definition gexp :: "nat \<Rightarrow> nat" where "gexp i = (gf_double ^^ i) 1"

lemma gf_double_0 [simp]: "gf_double 0 = 0"
  by (simp add: gf_double_def)

lemma gf_double_xor: "gf_double (a XOR b) = gf_double a XOR gf_double b"
proof -
  have bit: "v AND 0x100 \<noteq> 0 \<longleftrightarrow> bit v 8" for v :: nat
    using and_exp_eq_0_iff_not_bit [of v 8] by simp
  show ?thesis
    unfolding gf_double_def Let_def bit push_bit_xor bit_xor_iff
    by (auto simp: xor.assoc xor.left_commute xor.commute)
qed

lemma gf_double_pow_xor: "(gf_double ^^ k) (a XOR b) = (gf_double ^^ k) a XOR (gf_double ^^ k) b"
  by (induction k) (simp_all add: gf_double_xor)

lemma gf_double_pow_0 [simp]: "(gf_double ^^ k) 0 = 0"
  by (induction k) simp_all

lemma nth_init_exp: "i < n \<Longrightarrow> init_exp n v ! i = (gf_double ^^ i) v"
proof (induction n arbitrary: i v)
  case (Suc n)
  then show ?case by (cases i) (simp_all add: funpow_swap1)
qed simp

lemma length_init_exp [simp]: "length (init_exp n v) = n"
  by (induction n arbitrary: v) simp_all

lemma init_exp_numeral: "init_exp (numeral n) v = v # init_exp (pred_numeral n) (gf_double v)"
  by (simp add: numeral_eq_Suc)

lemma gexp_0 [simp]: "gexp 0 = 1"
  by (simp add: gexp_def)

lemma nth_init_exp_gexp: "i < n \<Longrightarrow> init_exp n 1 ! i = gexp i"
  unfolding gexp_def by (rule nth_init_exp)

lemma nth_init_exp_Suc0 [simp]: "i < n \<Longrightarrow> init_exp n (Suc 0) ! i = gexp i"
  using nth_init_exp_gexp [of i n] by simp

lemma gexp_period: "gexp 255 = 1"
proof -
  have "init_exp 256 1 ! 255 = 1" by (simp add: init_exp_numeral gf_double_def)
  then show ?thesis by (simp only: nth_init_exp_gexp)
qed

lemma gexp_table: "list_all (\<lambda>v. v \<noteq> 1 \<and> v \<noteq> 0 \<and> v < 256) (tl (init_exp 255 1))"
  by (simp add: init_exp_numeral gf_double_def)

lemma gexp_small:
  assumes "0 < i" "i < 255"
  shows "gexp i \<noteq> 1 \<and> gexp i \<noteq> 0 \<and> byte (gexp i)"
proof -
  have len: "i - 1 < length (tl (init_exp 255 1))" using assms by simp
  with gexp_table have "(\<lambda>v. v \<noteq> 1 \<and> v \<noteq> 0 \<and> v < 256) (tl (init_exp 255 1) ! (i - 1))"
    unfolding list_all_length by blast
  moreover have "tl (init_exp 255 1) ! (i - 1) = init_exp 255 1 ! i" using len assms by (simp only: nth_tl) simp
  ultimately show ?thesis using assms nth_init_exp_gexp by simp
qed

lemma gexp_add: "gexp (i + j) = (gf_double ^^ i) (gexp j)"
  by (simp only: gexp_def funpow_add comp_apply)

lemma gexp_add_255: "gexp (i + 255) = gexp i"
  unfolding gexp_add [of i 255] gexp_period by (simp only: gexp_def)

lemma gexp_mod: "gexp (i mod 255) = gexp i"
proof -
  have "gexp (r + q * 255) = gexp r" for q r
  proof (induction q)
    case (Suc q)
    have "r + Suc q * 255 = (r + q * 255) + 255" by simp
    with Suc show ?case using gexp_add_255 by (metis (no_types))
  qed simp
  from this [of "i mod 255" "i div 255"] show ?thesis by simp
qed

lemma gexp_byte: "gexp i \<noteq> 0 \<and> byte (gexp i)"
proof (cases "i mod 255 = 0")
  case True
  then have "gexp i = 1" using gexp_mod [of i] by simp
  then show ?thesis by simp
next
  case False
  then have "gexp (i mod 255) \<noteq> 1 \<and> gexp (i mod 255) \<noteq> 0 \<and> byte (gexp (i mod 255))"
    by (intro gexp_small) simp_all
  then show ?thesis unfolding gexp_mod by blast
qed

lemma gexp_inj: "i < 255 \<Longrightarrow> j < 255 \<Longrightarrow> gexp i = gexp j \<longleftrightarrow> i = j"
proof -
  have key: "i < j \<Longrightarrow> j < 255 \<Longrightarrow> gexp i \<noteq> gexp j" for i j
  proof
    assume ij: "i < j" "j < 255" "gexp i = gexp j"
    have "gexp (255 - i + i) = gexp (255 - i + j)"
      by (simp only: gexp_add ij(3))
    also have "255 - i + j = (j - i) + 255" using ij by simp
    also have "gexp ((j - i) + 255) = gexp (j - i)" by (rule gexp_add_255)
    finally have "gexp (j - i) = 1" using ij gexp_period by simp
    moreover have "0 < j - i" "j - i < 255" using ij by linarith+
    ultimately show False using gexp_small by blast
  qed
  assume "i < 255" "j < 255"
  then show ?thesis using key [of i j] key [of j i] by (metis linorder_neqE_nat)
qed

lemma nth_GF_EXP: "i < 512 \<Longrightarrow> GF_EXP ! i = gexp i"
proof -
  assume i: "i < 512"
  consider "i < 255" | k where "i = k + 255" "k < 255" | k where "i = k + 255 + 255" "k < 2"
  proof (cases "i < 255")
    case False
    then show ?thesis using i that(2) [of "i - 255"] that(3) [of "i - 510"] by (cases "i < 510") simp_all
  qed (rule that(1))
  then show ?thesis
  proof cases
    case 1
    then show ?thesis by (simp add: GF_EXP_def Let_def nth_append nth_init_exp_gexp)
  next
    case 2
    then show ?thesis by (simp add: GF_EXP_def Let_def nth_append nth_init_exp_gexp gexp_add_255)
  next
    case 3
    then have "gexp i = gexp k" by (simp only: gexp_add_255)
    with 3 show ?thesis by (simp add: GF_EXP_def Let_def nth_append nth_init_exp_gexp)
  qed
qed

text \<open>The logarithm table inverts the powers.\<close>

lemma distinct_powers: "distinct (init_exp 255 1)"
  unfolding distinct_conv_nth by (simp add: gexp_inj)

lemma set_powers: "set (init_exp 255 1) = {1..<256}"
proof (rule card_subset_eq)
  show "set (init_exp 255 1) \<subseteq> {1..<256}"
    using gexp_byte by (auto simp: in_set_conv_nth Suc_le_eq)
  show "card (set (init_exp 255 1)) = card {1::nat..<256}"
    using distinct_card [OF distinct_powers] by simp
qed simp

lemma fold_updates:
  "distinct (map snd kvs) \<Longrightarrow> (k, v) \<in> set kvs \<Longrightarrow> (\<forall>kv\<in>set kvs. snd kv < length l) \<Longrightarrow>
     fold (\<lambda>(k, v) l. l[v := k]) kvs l ! v = k"
proof (induction kvs arbitrary: l)
  case (Cons kv kvs)
  obtain k' v' where kv: "kv = (k', v')" by fastforce
  have other: "v \<notin> set (map snd kvs) \<Longrightarrow> fold (\<lambda>(k, v) l. l[v := k]) kvs l ! v = l ! v" for l :: "'a list"
    by (induction kvs arbitrary: l) auto
  show ?case
  proof (cases "(k, v) \<in> set kvs")
    case True
    then show ?thesis using Cons by (simp add: kv)
  next
    case False
    with Cons.prems have "k' = k" "v' = v" "v \<notin> set (map snd kvs)" by (auto simp: kv)
    then show ?thesis using other [of "l[v := k]"] Cons.prems(3) by (simp add: kv)
  qed
qed simp

lemma nth_GF_LOG: "i < 255 \<Longrightarrow> GF_LOG ! gexp i = i"
proof -
  assume i: "i < 255"
  have "(i, gexp i) \<in> set (zip [0..<255] (init_exp 255 1))"
    using i by (auto simp: in_set_zip intro!: exI [of _ i])
  moreover have "\<forall>kv\<in>set (zip [0..<255] (init_exp 255 1)). snd kv < length (replicate 256 (0 :: nat))"
    using set_powers by (auto dest!: set_zip_rightD)
  moreover have "distinct (map snd (zip [0..<255] (init_exp 255 1)))" using distinct_powers by simp
  ultimately show ?thesis unfolding GF_LOG_def by (intro fold_updates)
qed

lemma byte_is_power:
  assumes "a \<noteq> 0" "byte a"
  obtains i where "i < 255" "a = gexp i"
proof -
  have "a \<in> set (init_exp 255 1)" unfolding set_powers using assms by simp
  then show thesis using that by (auto simp: in_set_conv_nth)
qed

lemma gf_mul_powers: "gf_mul (gexp i) (gexp j) = gexp (i + j)"
proof -
  obtain i' j' where ij: "i' < 255" "gexp i = gexp i'" "j' < 255" "gexp j = gexp j'"
    using byte_is_power gexp_byte by metis
  have "gf_mul (gexp i) (gexp j) = gexp (i' + j')"
    using ij gexp_byte [of i'] gexp_byte [of j'] by (simp add: gf_mul_def nth_GF_LOG nth_GF_EXP)
  also have "\<dots> = gexp (i + j)"
    using ij by (metis add.commute gexp_add)
  finally show ?thesis .
qed

lemma gf_mul_linear: "byte b \<Longrightarrow> gf_mul (gexp i) b = (gf_double ^^ i) b"
proof (cases "b = 0")
  case False
  assume "byte b"
  with False obtain j where "b = gexp j" using byte_is_power by metis
  then show ?thesis by (simp add: gf_mul_powers gexp_add)
qed (simp add: gf_mul_def)

lemma byte_xor [simp]:
  assumes "byte a" "byte b" shows "byte (a XOR b)"
proof -
  have "take_bit 8 a = a" "take_bit 8 b = b" using assms by (simp_all add: take_bit_nat_eq_self)
  then have "a XOR b = take_bit 8 (a XOR b)" by (simp only: take_bit_xor)
  also have "\<dots> < 2 ^ 8" by (rule take_bit_nat_less_exp)
  finally show ?thesis by simp
qed

lemma byte_gf_mul [simp]: "byte a \<Longrightarrow> byte b \<Longrightarrow> byte (gf_mul a b)"
proof (cases "a = 0 \<or> b = 0")
  case False
  assume "byte a" "byte b"
  then show ?thesis using False byte_is_power gexp_byte gf_mul_powers by metis
qed (simp add: gf_mul_def)

interpretation gf: char2_ring byte "(XOR)" gf_mul 0 "Suc 0"
proof
  fix a b c :: nat
  show "gf_mul a b = gf_mul b a" by (simp add: gf_mul_def add.commute)
  show "gf_mul 0 a = 0" by (simp add: gf_mul_def)
  assume a: "byte a" and b: "byte b"
  show "gf_mul (Suc 0) a = a" using gf_mul_linear [of a 0] a by simp
  assume c: "byte c"
  show "gf_mul (gf_mul a b) c = gf_mul a (gf_mul b c)"
  proof (cases "a = 0 \<or> b = 0 \<or> c = 0")
    case False
    then obtain i j k where "a = gexp i" "b = gexp j" "c = gexp k" using a b c byte_is_power by metis
    then show ?thesis by (simp add: gf_mul_powers add.assoc)
  qed (auto simp: gf_mul_def)
  show "gf_mul (a XOR b) c = gf_mul a c XOR gf_mul b c"
  proof (cases "c = 0")
    case False
    then obtain k where "c = gexp k" using c byte_is_power by metis
    moreover have "gf_mul x (gexp k) = gf_mul (gexp k) x" for x by (simp add: gf_mul_def add.commute)
    ultimately show ?thesis using a b by (simp add: gf_mul_linear gf_double_pow_xor)
  qed (simp add: gf_mul_def)
qed (simp_all add: xor.assoc xor.commute xor.left_commute)

lemma gf_mul_zero_iff: "byte a \<Longrightarrow> byte b \<Longrightarrow> gf_mul a b = 0 \<longleftrightarrow> a = 0 \<or> b = 0"
proof (cases "a = 0 \<or> b = 0")
  case False
  assume "byte a" "byte b"
  then show ?thesis using False byte_is_power gexp_byte gf_mul_powers by metis
qed (auto simp: gf_mul_def)

section \<open>The code's Reed-Solomon is division by the generator\<close>

lemma generator_round_append:
  "i = length pre \<Longrightarrow> generator_round a p i (pre @ v # replicate (length p) 0) =
     pre @ map2 (XOR) (p @ [0]) (v # map (\<lambda>c. gf_mul c a) p)"
proof (induction p arbitrary: i pre v)
  case (Cons c p)
  have "generator_round a (c # p) i (pre @ v # replicate (length (c # p)) 0) =
      generator_round a p (i + 1) ((pre @ [v XOR c]) @ gf_mul c a # replicate (length p) 0)"
    using Cons.prems by (simp add: nth_append list_update_append)
  also have "\<dots> = (pre @ [v XOR c]) @ map2 (XOR) (p @ [0]) (gf_mul c a # map (\<lambda>c. gf_mul c a) p)"
    using Cons.prems by (intro Cons.IH) simp
  finally show ?case by (simp add: xor.commute)
qed simp

lemma generator_round_linear:
  "generator_round a p 0 (replicate (length p + 1) 0) = times_linear (XOR) gf_mul 0 a p"
  using generator_round_append [of 0 "[]" a p 0] by (simp add: times_linear_def)

lemma rs_generator_gen:
  assumes "degree \<le> 512" shows "rs_generator degree = gf.gen (map gexp [0..<degree])"
proof -
  have "rs_generator degree = fold (\<lambda>power. times_linear (XOR) gf_mul 0 (GF_EXP ! power)) [0..<degree] [1]"
    unfolding rs_generator_def generator_round_linear ..
  also have "\<dots> = fold (\<lambda>power. times_linear (XOR) gf_mul 0 (gexp power)) [0..<degree] [1]"
    using assms by (intro fold_cong refl) (simp add: nth_GF_EXP)
  finally show ?thesis by (simp add: fold_map comp_def)
qed

lemma rs_step_shift:
  assumes "list_all byte g" "length g = Suc (length rem)" "list_all byte rem" "rem \<noteq> []" "byte b"
  shows "rs_step g b rem = shift_step (XOR) gf_mul 0 g b rem"
proof -
  obtain m0 m where m: "rem = m0 # m" using assms(4) by (cases rem) simp_all
  obtain c g' where g: "g = c # g'" "length g' = length rem" using assms(2) by (cases g) simp_all
  let ?f = "b XOR m0"
  have f: "byte ?f" using assms m by simp
  have term_eq: "(if d = 0 then r else r XOR GF_EXP ! (GF_LOG ! ?f + GF_LOG ! d)) = r XOR gf_mul ?f d"
    if "?f \<noteq> 0" for r d using that by (simp add: gf_mul_def)
  show ?thesis
  proof (cases "?f = 0")
    case True
    have same: "map2 (XOR) xs (map (gf_mul 0) ys) = xs" if "length xs = length ys" for xs ys
      using that by (induction xs ys rule: list_induct2) (simp_all add: gf_mul_def)
    have "map2 (XOR) (m @ [0]) (map (gf_mul 0) g') = m @ [0]"
      using g(2) m by (intro same) simp
    then show ?thesis using True by (simp add: rs_step_def shift_step_def m g)
  next
    case False
    then show ?thesis
      by (simp add: rs_step_def shift_step_def m g term_eq map_zip_map2 zip_map2 case_prod_unfold Let_def)
  qed
qed

lemma rs_encode_remainder:
  assumes "list_all byte data" "1 \<le> ec" "ec \<le> 512"
  shows "rs_encode data ec = gf.remainder_of (gf.gen (map gexp [0..<ec])) data \<and>
    length (rs_encode data ec) = ec \<and> list_all byte (rs_encode data ec)"
  using assms(1)
proof (induction data rule: rev_induct)
  case Nil
  then show ?case by (simp add: rs_encode_def list_all_iff)
next
  case (snoc b data)
  let ?g = "gf.gen (map gexp [0..<ec])"
  have okr: "list_all byte (map gexp [0..<ec])" using gexp_byte by (simp add: list_all_iff)
  have g: "list_all byte ?g" "length ?g = Suc ec"
    using gf.ok_gen [OF okr] gf.length_gen [of "map gexp [0..<ec]"] by simp_all
  have "list_all byte data" using snoc.prems by simp
  from snoc.IH [OF this] have IH: "rs_encode data ec = gf.remainder_of ?g data" "length (rs_encode data ec) = ec"
    "list_all byte (rs_encode data ec)" by blast+
  have ne: "rs_encode data ec \<noteq> []" using IH(2) assms(2) by auto
  have "rs_encode (data @ [b]) ec = rs_step (rs_generator ec) b (rs_encode data ec)" by (simp add: rs_encode_def)
  also have "\<dots> = shift_step (XOR) gf_mul 0 ?g b (rs_encode data ec)"
    unfolding rs_generator_gen [OF assms(3)]
    using g IH ne snoc.prems by (intro rs_step_shift) simp_all
  finally have step: "rs_encode (data @ [b]) ec = shift_step (XOR) gf_mul 0 ?g b (rs_encode data ec)" .
  moreover have "length (shift_step (XOR) gf_mul 0 ?g b (rs_encode data ec)) = ec"
    using gf.length_shift_step [of ?g "rs_encode data ec" b] g(2) IH(2) ne by simp
  moreover have "list_all byte (shift_step (XOR) gf_mul 0 ?g b (rs_encode data ec))"
    using gf.shift_step_ok [OF _ IH(3) ne g(1), of b] snoc.prems by simp
  ultimately show ?case using IH(1) by simp
qed

lemmas rs_encode_bytes = rs_encode_remainder [THEN conjunct2]

lemma codeword_syndromes:
  assumes "list_all byte data" "1 \<le> ec" "ec \<le> 512" "i < ec"
  shows "poly_eval (XOR) gf_mul 0 (gexp i) (data @ rs_encode data ec) = 0"
proof -
  let ?roots = "map gexp [0..<ec]"
  have okr: "list_all byte ?roots" using gexp_byte by (simp add: list_all_iff)
  have len: "2 \<le> length (gf.gen ?roots)" using assms(2) gf.length_gen [of ?roots] by simp
  have root: "poly_eval (XOR) gf_mul 0 (gexp i) (gf.gen ?roots) = 0"
    using assms(4) by (intro gf.eval_gen_zero [OF okr]) simp
  have "byte (gexp i)" using gexp_byte by simp
  from gf.shift_division [OF len gf.ok_gen [OF okr] gf.hd_gen root this assms(1)]
  show ?thesis using rs_encode_remainder [OF assms(1-3)] by simp
qed

text \<open>
  Error correction is Reed-Solomon: the code word of a block, its data followed by
  \<open>rs_encode\<close>, has the requested length, consists of bytes and, read as a polynomial over
  GF(256), vanishes at the first \<open>ec\<close> powers of the generator, the syndromes a reader computes.
\<close>

theorem rs_codeword_syndromes:
  assumes "list_all byte data" and "1 \<le> ec" and "ec \<le> 512"
  shows "length (rs_encode data ec) = ec \<and> list_all byte (rs_encode data ec) \<and>
    (\<forall>i<ec. poly_eval (XOR) gf_mul 0 (GF_EXP ! i) (data @ rs_encode data ec) = 0)"
  using rs_encode_remainder [OF assms, THEN conjunct2] codeword_syndromes [OF assms] assms(3) by (simp add: nth_GF_EXP)

lemma rs_codeword_syndromes_witness:
  "length (rs_encode [32, 91, 11] 10) = 10 \<and> list_all byte (rs_encode [32, 91, 11] 10) \<and>
    list_all (\<lambda>i. poly_eval (XOR) gf_mul 0 (GF_EXP ! i) ([32, 91, 11] @ rs_encode [32, 91, 11] 10) = 0) [0..<10]"
  using rs_codeword_syndromes [of "[32, 91, 11]" 10] by (simp add: list_all_iff)

section \<open>The distance of the code\<close>

text \<open>How many positions of two words differ.\<close>

definition differing :: "nat list \<Rightarrow> nat list \<Rightarrow> nat" where
  "differing u v = length (filter (\<lambda>(a, b). a \<noteq> b) (zip u v))"

definition locators :: "nat list \<Rightarrow> (nat \<times> nat) list" where
  "locators w = filter (\<lambda>(c, x). c \<noteq> 0) (zip w (map (\<lambda>k. gexp (length w - 1 - k)) [0..<length w]))"

lemma gexp_pow: "pow_of gf_mul (Suc 0) (gexp i) n = gexp (i * n)"
  by (induction n) (simp_all add: gf_mul_powers)

lemma syndrome_terms:
  assumes "list_all byte w"
  shows "poly_eval (XOR) gf_mul 0 (gexp i) w = gf.wsum (locators w) (\<lambda>x. gf.pw x i)"
  using assms
proof (induction w)
  case (Cons c w)
  have xs: "map (\<lambda>k. gexp (length (c # w) - 1 - k)) [0..<length (c # w)] =
      gexp (length w) # map (\<lambda>k. gexp (length w - 1 - k)) [0..<length w]"
    unfolding length_Cons map_upt_Suc by simp
  have loc: "locators (c # w) = (if c \<noteq> 0 then [(c, gexp (length w))] else []) @ locators w"
    unfolding locators_def xs by simp
  have "byte c" "list_all byte w" "byte (gexp i)" using Cons.prems gexp_byte by simp_all
  then have "poly_eval (XOR) gf_mul 0 (gexp i) (c # w) =
      gf_mul c (gexp (i * length w)) XOR poly_eval (XOR) gf_mul 0 (gexp i) w"
    by (simp add: gf.eval_Cons gexp_pow)
  then show ?case using Cons by (simp add: loc gexp_pow mult.commute)
qed (simp add: locators_def poly_eval_def)

text \<open>
  The code keeps the distance level M relies on: the code words of two different data blocks
  of the same length, at most 255 codewords with the correction, differ in more than \<open>ec\<close>
  positions, so that \<open>ec div 2\<close> wrong codewords can be told apart.
\<close>

theorem rs_code_distance:
  assumes "list_all byte d" and "list_all byte d'" and "length d' = length d" and "d \<noteq> d'"
    and "1 \<le> ec" and "length d + ec \<le> 255"
  shows "ec < differing (d @ rs_encode d ec) (d' @ rs_encode d' ec)"
proof (rule ccontr)
  assume close: "\<not> ?thesis"
  let ?u = "d @ rs_encode d ec" and ?v = "d' @ rs_encode d' ec"
  let ?w = "map2 (XOR) ?u ?v"
  have ec: "ec \<le> 512" using assms(6) by simp
  note ed = rs_encode_remainder [OF assms(1,5) ec, THEN conjunct2]
    and ed' = rs_encode_remainder [OF assms(2,5) ec, THEN conjunct2]
  have ok: "list_all byte ?u" "list_all byte ?v" and len: "length ?u = length ?v" "length ?w \<le> 255"
    using ed ed' assms by simp_all
  have okw: "list_all byte ?w" using ok by (rule gf.all_ok_map2)
  have synd: "gf.wsum (locators ?w) (\<lambda>x. gf.pw x i) = 0" if "i < ec" for i
    using codeword_syndromes [OF assms(1,5) ec that] codeword_syndromes [OF assms(2,5) ec that] gexp_byte [of i]
    by (simp only: syndrome_terms [OF okw, symmetric] gf.eval_add [OF len(1) _ ok]) simp
  have zip_eq: "length (locators ?w) = differing ?u ?v"
  proof -
    have "length (filter (\<lambda>(c, x). c \<noteq> 0) (zip w xs)) = length (filter (\<lambda>c. c \<noteq> 0) w)"
      if "length xs = length w" for w :: "nat list" and xs :: "nat list"
      using that by (induction w xs rule: list_induct2') auto
    moreover have "length (filter (\<lambda>c. c \<noteq> 0) (map2 (XOR) u v)) = differing u v" for u v :: "nat list"
      unfolding differing_def by (induction u v rule: list_induct2') (auto simp: gf.add_eq_zero)
    ultimately show ?thesis by (simp add: locators_def)
  qed
  have "list_all (\<lambda>(c, x). byte c \<and> byte x) (locators w)" if "list_all byte w" for w
    using that gexp_byte by (auto simp: locators_def list_all_iff in_set_zip)
  note okt = this [OF okw]
  have dist: "distinct (map snd (locators ?w))"
  proof -
    have "inj_on (\<lambda>k. gexp (n - 1 - k)) {0..<n}" if "n \<le> 255" for n
      using that by (auto simp: inj_on_def gexp_inj)
    then have "distinct (map (\<lambda>k. gexp (length ?w - 1 - k)) [0..<length ?w])"
      using len(2) by (simp add: distinct_map)
    then show ?thesis unfolding locators_def
      by (intro distinct_map_filter) simp
  qed
  have none: "(c, x) \<in> set (locators ?w) \<Longrightarrow> c = 0" for c x
    using gf.few_terms_vanish [where n = ec, OF _ _ okt dist _ synd] close zip_eq gf_mul_zero_iff by simp
  have "c \<noteq> 0" if "(c, x) \<in> set (locators w)" for c x w using that by (simp add: locators_def)
  with none have "set (locators ?w) = {}" by (metis equals0I surj_pair)
  then have "locators ?w = []" by (simp only: set_empty)
  with zip_eq have "differing ?u ?v = 0" by simp
  moreover have "u = v" if "differing u v = 0" "length u = length v" for u v
    using that(2,1) unfolding differing_def by (induction u v rule: list_induct2) (auto split: if_splits)
  ultimately have "?u = ?v" using len(1) by blast
  then show False using assms(3,4) by simp
qed

lemma rs_code_distance_witness:
  "10 < differing ([32, 91, 11] @ rs_encode [32, 91, 11] 10) ([32, 91, 12] @ rs_encode [32, 91, 12] 10)"
  by (rule rs_code_distance) simp_all

end
