(* ===== verification/Qr_Bits.thy ===== *)
theory Qr_Bits
  imports Qr_Gf
begin

text \<open>
  The bit stream of a QR code, the middle part of \<open>homesoc/web/qr.py\<close>: capacities and the choice
  of the version, mode, length, data and padding bits, codewords, blocks and interleaving. Payload
  bytes and codewords are naturals below 256, bits are 0 and 1. Together with the reader's side
  (cutting the stream into its fields, undoing the interleaving) written as a specification.
\<close>

section \<open>Tables and capacity\<close>

definition MIN_VERSION :: nat where "MIN_VERSION = 1"
definition MAX_VERSION :: nat where "MAX_VERSION = 10"
definition BYTE_MODE :: nat where "BYTE_MODE = 4"
definition PAD_BYTES :: "nat list" where "PAD_BYTES = [0xEC, 0x11]"

definition TOTAL_CODEWORDS :: "(nat \<times> nat) list" where
  "TOTAL_CODEWORDS = [(1, 26), (2, 44), (3, 70), (4, 100), (5, 134), (6, 172), (7, 196), (8, 242), (9, 292), (10, 346)]"

definition EC_BLOCKS_M :: "(nat \<times> nat \<times> (nat \<times> nat) list) list" where
  "EC_BLOCKS_M =
    [(1, 10, [(1, 16)]), (2, 16, [(1, 28)]), (3, 26, [(1, 44)]), (4, 18, [(2, 32)]), (5, 24, [(2, 43)]),
     (6, 16, [(4, 27)]), (7, 18, [(4, 31)]), (8, 22, [(2, 38), (2, 39)]), (9, 22, [(3, 36), (2, 37)]),
     (10, 26, [(4, 43), (1, 44)])]"

text \<open>The lookups; the code raises \<open>KeyError\<close> outside versions 1 to 10, which no caller reaches.\<close>

definition total_codewords :: "nat \<Rightarrow> nat" where
  "total_codewords version = (case map_of TOTAL_CODEWORDS version of Some n \<Rightarrow> n | None \<Rightarrow> 0)"

definition ec_per_block :: "nat \<Rightarrow> nat" where
  "ec_per_block version = (case map_of EC_BLOCKS_M version of Some (ec, _) \<Rightarrow> ec | None \<Rightarrow> 0)"

definition block_groups :: "nat \<Rightarrow> (nat \<times> nat) list" where
  "block_groups version = (case map_of EC_BLOCKS_M version of Some (_, groups) \<Rightarrow> groups | None \<Rightarrow> [])"

definition count_bits :: "nat \<Rightarrow> nat" where
  "count_bits version = (if version < 10 then 8 else 16)"

definition data_codewords :: "nat \<Rightarrow> nat" where
  "data_codewords version = sum_list (map (\<lambda>(n, s). n * s) (block_groups version))"

definition capacity_bytes :: "nat \<Rightarrow> nat" where
  "capacity_bytes version = (data_codewords version * 8 - 4 - count_bits version) div 8"

text \<open>
  A payload that fits nowhere is a \<open>QrError\<close>; with a maximum below version 1 the message itself
  looks up a version that has no entry, and the error is a \<open>KeyError\<close>.
\<close>

datatype qr_error = QrError | KeyError | ValueError

definition choose_version :: "nat \<Rightarrow> nat \<Rightarrow> nat \<Rightarrow> qr_error + nat" where
  "choose_version len min_version max_version =
     (case List.find (\<lambda>version. len \<le> capacity_bytes version)
        [max MIN_VERSION min_version..<min MAX_VERSION max_version + 1] of
        Some version \<Rightarrow> Inr version
      | None \<Rightarrow> if max_version < MIN_VERSION then Inl KeyError else Inl QrError)"

section \<open>The stream\<close>

definition push :: "nat \<Rightarrow> nat \<Rightarrow> nat list" where
  "push value width = map (\<lambda>shift. (value div 2 ^ shift) mod 2) (rev [0..<width])"

definition bit_stream :: "nat list \<Rightarrow> nat \<Rightarrow> nat list" where
  "bit_stream payload version =
     (let bits = push BYTE_MODE 4 @ push (length payload) (count_bits version) @ concat (map (\<lambda>b. push b 8) payload);
          capacity = data_codewords version * 8;
          bits = bits @ push 0 (min 4 (capacity - length bits));
          bits = (if length bits mod 8 \<noteq> 0 then bits @ push 0 (8 - length bits mod 8) else bits)
      in bits @ concat (map (\<lambda>index. push (PAD_BYTES ! (index mod 2)) 8) [0..<(capacity - length bits) div 8]))"

definition bits_value :: "nat list \<Rightarrow> nat" where
  "bits_value bits = foldl (\<lambda>v b. 2 * v + b) 0 bits"

fun bits_to_codewords :: "nat list \<Rightarrow> nat list" where
  "bits_to_codewords [] = []"
| "bits_to_codewords (b # bits) = bits_value (take 8 (b # bits)) # bits_to_codewords (drop 8 (b # bits))"

section \<open>Blocks\<close>

definition block_sizes :: "nat \<Rightarrow> nat list" where
  "block_sizes version = concat (map (\<lambda>(n, s). replicate n s) (block_groups version))"

fun cut_blocks :: "nat list \<Rightarrow> nat \<Rightarrow> nat list \<Rightarrow> nat list list" where
  "cut_blocks [] offset codewords = []"
| "cut_blocks (n # sizes) offset codewords =
     take n (drop offset codewords) # cut_blocks sizes (offset + n) codewords"

definition interleave :: "nat list \<Rightarrow> nat \<Rightarrow> nat list" where
  "interleave codewords version =
     (let ec = ec_per_block version;
          blocks = cut_blocks (block_sizes version) 0 codewords;
          ec_blocks = map (\<lambda>block. rs_encode block ec) blocks
      in concat (map (\<lambda>index. map (\<lambda>b. b ! index) (filter (\<lambda>b. index < length b) blocks))
           [0..<Max (set (map length blocks))]) @
         concat (map (\<lambda>index. map (\<lambda>b. b ! index) ec_blocks) [0..<ec]))"

section \<open>Facts about the tables\<close>

abbreviation supported :: "nat \<Rightarrow> bool" where "supported v \<equiv> v \<in> {1..10}"

lemma supported_cases:
  "supported v \<Longrightarrow> v = 1 \<or> v = 2 \<or> v = 3 \<or> v = 4 \<or> v = 5 \<or> v = 6 \<or> v = 7 \<or> v = 8 \<or> v = 9 \<or> v = 10"
  unfolding atLeastAtMost_iff by presburger

lemma block_table:
  assumes "supported v"
  shows "sum_list (block_sizes v) = data_codewords v \<and>
    data_codewords v + ec_per_block v * length (block_sizes v) = total_codewords v \<and>
    1 \<le> ec_per_block v \<and> block_sizes v \<noteq> [] \<and> (\<forall>s\<in>set (block_sizes v). 1 \<le> s \<and> s + ec_per_block v \<le> 255) \<and>
    4 + count_bits v + 8 * capacity_bytes v \<le> 8 * data_codewords v \<and> capacity_bytes v < 2 ^ count_bits v"
  using supported_cases [OF assms]
  by (elim disjE)
    (simp_all add: block_sizes_def block_groups_def EC_BLOCKS_M_def data_codewords_def ec_per_block_def
      total_codewords_def TOTAL_CODEWORDS_def capacity_bytes_def count_bits_def sum_list_replicate)

lemma capacity_bytes_mono: "supported v \<Longrightarrow> supported w \<Longrightarrow> v \<le> w \<Longrightarrow> capacity_bytes v \<le> capacity_bytes w"
proof -
  have step: "v \<in> {1..9} \<Longrightarrow> capacity_bytes v \<le> capacity_bytes (Suc v)" for v
  proof -
    assume "v \<in> {1..9}"
    then have "v = 1 \<or> v = 2 \<or> v = 3 \<or> v = 4 \<or> v = 5 \<or> v = 6 \<or> v = 7 \<or> v = 8 \<or> v = 9" unfolding atLeastAtMost_iff by presburger
    then show ?thesis
      by (elim disjE) (simp_all add: block_groups_def EC_BLOCKS_M_def data_codewords_def capacity_bytes_def count_bits_def)
  qed
  assume "supported v" "supported w" "v \<le> w"
  then show ?thesis
  proof (induction w)
    case (Suc w)
    show ?case
    proof (cases "v \<le> w")
      case True
      then have "capacity_bytes v \<le> capacity_bytes w" using Suc by simp
      also have "\<dots> \<le> capacity_bytes (Suc w)" using True Suc.prems by (intro step) simp
      finally show ?thesis .
    next
      case False
      then have "v = Suc w" using Suc.prems by simp
      then show ?thesis by simp
    qed
  qed simp
qed

section \<open>Bits\<close>

lemma length_push [simp]: "length (push v w) = w"
  by (simp add: push_def)

lemma bits_value_snoc [simp]: "bits_value (bs @ [b]) = 2 * bits_value bs + b"
  by (simp add: bits_value_def)

lemma push_Suc: "push v (Suc w) = push (v div 2) w @ [v mod 2]"
proof -
  have "[0..<Suc w] = 0 # map Suc [0..<w]" by (simp add: map_Suc_upt upt_conv_Cons del: upt_Suc)
  then have "rev [0..<Suc w] = map Suc (rev [0..<w]) @ [0]" by (simp add: rev_map del: upt_Suc)
  then show ?thesis by (simp add: push_def div_mult2_eq o_def del: upt_Suc)
qed

lemma bits_value_push: "v < 2 ^ w \<Longrightarrow> bits_value (push v w) = v"
proof (induction w arbitrary: v)
  case 0
  then show ?case by (simp add: push_def bits_value_def)
next
  case (Suc w)
  then have "v div 2 < 2 ^ w" by auto
  then show ?case using Suc.IH by (simp add: push_Suc)
qed

abbreviation to_bits :: "nat list \<Rightarrow> nat list" where
  "to_bits cws \<equiv> concat (map (\<lambda>c. push c 8) cws)"

lemma length_to_bits [simp]: "length (to_bits cws) = 8 * length cws"
  by (induction cws) simp_all

lemma bits_to_codewords_append:
  "length bs = 8 \<Longrightarrow> bits_to_codewords (bs @ rest) = bits_value bs # bits_to_codewords rest"
  by (cases bs) simp_all

lemma bits_to_codewords_push: "list_all byte cws \<Longrightarrow> bits_to_codewords (to_bits cws) = cws"
proof (induction cws)
  case (Cons c cws)
  have "bits_to_codewords (push c 8 @ to_bits cws) = bits_value (push c 8) # bits_to_codewords (to_bits cws)"
    by (rule bits_to_codewords_append) simp
  with Cons show ?case by (simp add: bits_value_push)
qed simp

abbreviation is_bits :: "nat list \<Rightarrow> bool" where "is_bits bs \<equiv> list_all (\<lambda>b. b < 2) bs"

lemma is_bits_push [simp]: "is_bits (push v w)"
  by (simp add: push_def list_all_iff)

lemma is_bits_pushes [simp]: "is_bits (concat (map (\<lambda>x. push (f x) w) xs))"
  by (induction xs) simp_all

lemma push_bits_value: "is_bits bs \<Longrightarrow> push (bits_value bs) (length bs) = bs"
proof (induction bs rule: rev_induct)
  case (snoc b bs)
  then have "(2 * bits_value bs + b) div 2 = bits_value bs" "(2 * bits_value bs + b) mod 2 = b" "is_bits bs" by auto
  then show ?case using snoc.IH by (simp add: push_Suc)
qed (simp add: push_def)

lemma bits_value_less: "is_bits bs \<Longrightarrow> bits_value bs < 2 ^ length bs"
proof (induction bs rule: rev_induct)
  case (snoc b bs)
  then show ?case by auto
qed (simp add: bits_value_def)

lemma codewords_of_bits:
  "is_bits bits \<Longrightarrow> length bits = 8 * n \<Longrightarrow>
     to_bits (bits_to_codewords bits) = bits \<and> length (bits_to_codewords bits) = n \<and> list_all byte (bits_to_codewords bits)"
proof (induction n arbitrary: bits)
  case (Suc n)
  have split: "bits = take 8 bits @ drop 8 bits" "length (take 8 bits) = 8" using Suc.prems by simp_all
  have bits: "is_bits (take 8 bits)" "is_bits (drop 8 bits)"
    using Suc.prems(1) by (auto simp: list_all_iff dest: in_set_takeD in_set_dropD)
  have len: "length (drop 8 bits) = 8 * n" using Suc.prems(2) by simp
  note IH = Suc.IH [OF bits(2) len]
  have "bits_to_codewords bits = bits_value (take 8 bits) # bits_to_codewords (drop 8 bits)"
    using bits_to_codewords_append [OF split(2), of "drop 8 bits"] by simp
  moreover have "push (bits_value (take 8 bits)) 8 = take 8 bits"
    using push_bits_value [OF bits(1)] split(2) by simp
  moreover have "byte (bits_value (take 8 bits))"
    using bits_value_less [OF bits(1)] split(2) by simp
  ultimately show ?case using IH by (simp del: bits_to_codewords.simps)
qed simp

text \<open>Header, terminator and padding of the stream.\<close>

definition header :: "nat list \<Rightarrow> nat \<Rightarrow> nat list" where
  "header payload version =
     push BYTE_MODE 4 @ push (length payload) (count_bits version) @ to_bits payload"

lemma pad_to_capacity:
  assumes "L \<le> 8 * D" and "a = (if L mod 8 \<noteq> 0 then 8 - L mod 8 else 0)"
  shows "L + a + 8 * ((8 * D - (L + a)) div 8) = 8 * (D :: nat)"
proof -
  define q where "q = (if L mod 8 \<noteq> 0 then L div 8 + 1 else L div 8)"
  have "L = 8 * (L div 8) + L mod 8" "L mod 8 < 8" by simp_all
  then have La: "L + a = 8 * q" unfolding q_def assms(2) by (cases "L mod 8 = 0"; simp; linarith)
  have "q \<le> D" using assms(1) La unfolding q_def assms(2) by (cases "L mod 8 = 0"; simp; linarith)
  moreover have "8 * D - 8 * q = 8 * (D - q)" by simp
  ultimately show ?thesis unfolding La by simp
qed

lemma bit_stream_header:
  assumes "length (header payload v) \<le> 8 * data_codewords v"
  shows "\<exists>rest. bit_stream payload v = header payload v @ rest \<and> is_bits (bit_stream payload v) \<and>
    length (bit_stream payload v) = 8 * data_codewords v"
proof -
  let ?C = "8 * data_codewords v"
  define t where "t = push 0 (min 4 (?C - length (header payload v)))"
  define L where "L = length (header payload v @ t)"
  define a where "a = (if L mod 8 \<noteq> 0 then push 0 (8 - L mod 8) else [])"
  define pads where "pads = concat (map (\<lambda>index. push (PAD_BYTES ! (index mod 2)) 8) [0..<(?C - length (header payload v @ t @ a)) div 8])"
  have eq: "bit_stream payload v = header payload v @ t @ a @ pads"
    unfolding bit_stream_def header_def [symmetric] Let_def pads_def a_def L_def t_def
    by (cases "length (header payload v @ push 0 (min 4 (?C - length (header payload v)))) mod 8 = 0")
      (simp_all only: append_assoc mult.commute [of _ 8] if_True if_False simp_thms append_Nil append_Nil2)
  have len_concat: "length (concat (map (\<lambda>index. push (f index) 8) xs)) = 8 * length xs" for f and xs :: "nat list"
    by (induction xs) simp_all
  have L: "L \<le> ?C" "L = length (header payload v) + min 4 (?C - length (header payload v))"
    using assms by (simp_all add: L_def t_def)
  have la: "length a = (if L mod 8 \<noteq> 0 then 8 - L mod 8 else 0)" by (simp add: a_def)
  have "length (header payload v @ t @ a) = L + length a" by (simp add: L_def)
  then have lp: "length pads = 8 * ((?C - (L + length a)) div 8)" by (simp add: pads_def len_concat)
  have "L + length a + 8 * ((?C - (L + length a)) div 8) = ?C"
    by (rule pad_to_capacity [OF L(1) la])
  then have "length (bit_stream payload v) = ?C" unfolding eq using lp by (simp add: L_def)
  moreover have "is_bits (bit_stream payload v)"
    unfolding eq header_def t_def a_def pads_def by simp
  ultimately show ?thesis using eq by blast
qed

section \<open>Reading the stream back\<close>

definition read_payload :: "nat \<Rightarrow> nat list \<Rightarrow> nat list option" where
  "read_payload version cws =
     (let bits = to_bits cws;
          n = bits_value (take (count_bits version) (drop 4 bits))
      in if bits_value (take 4 bits) = BYTE_MODE
         then Some (bits_to_codewords (take (8 * n) (drop (4 + count_bits version) bits)))
         else None)"

lemma stream_codewords:
  assumes "supported v" and "length payload \<le> capacity_bytes v" and "list_all byte payload"
  shows "length (bits_to_codewords (bit_stream payload v)) = data_codewords v \<and>
    list_all byte (bits_to_codewords (bit_stream payload v)) \<and>
    read_payload v (bits_to_codewords (bit_stream payload v)) = Some payload"
proof -
  note t = block_table [OF assms(1)]
  have len: "length (header payload v) \<le> 8 * data_codewords v"
    using t assms(2) by (simp add: header_def)
  obtain rest where bs: "bit_stream payload v = header payload v @ rest" "is_bits (bit_stream payload v)"
    "length (bit_stream payload v) = 8 * data_codewords v"
    using bit_stream_header [OF len] by blast
  note cw = codewords_of_bits [OF bs(2,3)]
  have "length payload < 2 ^ count_bits v" using t assms(2) by linarith
  then have n: "bits_value (push (length payload) (count_bits v)) = length payload" by (rule bits_value_push)
  have m: "bits_value (push BYTE_MODE 4) = BYTE_MODE" by (rule bits_value_push) (simp add: BYTE_MODE_def)
  have tb: "to_bits (bits_to_codewords (bit_stream payload v)) =
      push BYTE_MODE 4 @ push (length payload) (count_bits v) @ to_bits payload @ rest"
    using cw bs(1) by (simp add: header_def)
  have "read_payload v (bits_to_codewords (bit_stream payload v)) = Some payload"
    using bits_to_codewords_push [OF assms(3)]
    by (simp add: read_payload_def Let_def tb m n)
  with cw show ?thesis by blast
qed

text \<open>
  The bit stream of a payload that fits is exactly the data codewords of the version, all of
  them bytes, and a reader that takes mode, length and data from it gets the payload back.
\<close>

theorem bit_stream_roundtrip:
  assumes "supported v" and "length payload \<le> capacity_bytes v" and "list_all byte payload"
  shows "length (bits_to_codewords (bit_stream payload v)) = data_codewords v \<and>
    list_all byte (bits_to_codewords (bit_stream payload v)) \<and>
    read_payload v (bits_to_codewords (bit_stream payload v)) = Some payload"
  using assms by (rule stream_codewords)

lemma bit_stream_roundtrip_witness:
  "read_payload 1 (bits_to_codewords (bit_stream [104, 115, 49] 1)) = Some [104, 115, 49]"
  using bit_stream_roundtrip [of 1 "[104, 115, 49]"] by (simp add: capacity_bytes_def data_codewords_def block_groups_def EC_BLOCKS_M_def count_bits_def)

text \<open>
  The version chosen is the smallest allowed one the payload fits in, and a payload is
  refused exactly when no allowed version can hold it.
\<close>

theorem choose_version_minimal:
  shows "(choose_version n lo hi = Inr v \<longleftrightarrow>
      lo \<le> v \<and> v \<le> hi \<and> supported v \<and> n \<le> capacity_bytes v \<and>
      (\<forall>w. lo \<le> w \<and> supported w \<and> w < v \<longrightarrow> capacity_bytes w < n)) \<and>
    ((\<exists>e. choose_version n lo hi = Inl e) \<longleftrightarrow>
      (\<forall>w. lo \<le> w \<and> w \<le> hi \<and> supported w \<longrightarrow> capacity_bytes w < n))"
proof -
  let ?r = "[max MIN_VERSION lo..<min MAX_VERSION hi + 1]"
  let ?find = "List.find (\<lambda>w. n \<le> capacity_bytes w) ?r"
  have r: "w \<in> set ?r \<longleftrightarrow> lo \<le> w \<and> w \<le> hi \<and> supported w" for w
    by (auto simp: MIN_VERSION_def MAX_VERSION_def)
  have min: "?find = Some v \<longleftrightarrow> v \<in> set ?r \<and> n \<le> capacity_bytes v \<and> (\<forall>w\<in>set ?r. w < v \<longrightarrow> capacity_bytes w < n)" for v
  proof -
    have "List.find P xs = Some v \<longleftrightarrow> v \<in> set xs \<and> P v \<and> (\<forall>w\<in>set xs. w < v \<longrightarrow> \<not> P w)"
      if "sorted xs" "distinct xs" for P and xs :: "nat list"
      using that by (induction xs) (auto simp: less_le)
    from this [of ?r "\<lambda>w. n \<le> capacity_bytes w"] show ?thesis by (simp add: not_le del: upt_Suc set_upt)
  qed
  have none: "?find = None \<longleftrightarrow> (\<forall>w\<in>set ?r. capacity_bytes w < n)"
    by (auto simp: find_None_iff not_le simp del: set_upt upt_Suc)
  have inr: "choose_version n lo hi = Inr v \<longleftrightarrow> ?find = Some v"
    and inl: "(\<exists>e. choose_version n lo hi = Inl e) \<longleftrightarrow> ?find = None"
    unfolding choose_version_def by (auto split: option.splits)
  have "w < v \<Longrightarrow> v \<le> hi \<Longrightarrow> w \<le> hi" for w by linarith
  then show ?thesis unfolding inr inl min none Ball_def r by blast
qed

section \<open>Undoing the interleaving\<close>

text \<open>Where the codewords of the blocks go: (block, index) in the order of the stream.\<close>

definition data_order :: "nat list \<Rightarrow> (nat \<times> nat) list" where
  "data_order sizes = concat (map (\<lambda>i. map (\<lambda>b. (b, i)) (filter (\<lambda>b. i < sizes ! b) [0..<length sizes])) [0..<Max (set sizes)])"

definition ec_order :: "nat \<Rightarrow> nat \<Rightarrow> (nat \<times> nat) list" where
  "ec_order n ec = concat (map (\<lambda>i. map (\<lambda>b. (b, i)) [0..<n]) [0..<ec])"

definition pick :: "(nat \<times> nat) list \<Rightarrow> nat list \<Rightarrow> nat \<Rightarrow> nat \<Rightarrow> nat list" where
  "pick order stream b n = map (\<lambda>i. case map_of (zip order stream) (b, i) of Some c \<Rightarrow> c | None \<Rightarrow> 0) [0..<n]"

text \<open>The reader's blocks, each with the correction that belongs to it.\<close>

definition read_blocks :: "nat \<Rightarrow> nat list \<Rightarrow> (nat list \<times> nat list) list" where
  "read_blocks version stream =
     (let sizes = block_sizes version; d = data_codewords version
      in map (\<lambda>b. (pick (data_order sizes) (take d stream) b (sizes ! b),
                     pick (ec_order (length sizes) (ec_per_block version)) (drop d stream) b (ec_per_block version)))
           [0..<length sizes])"

lemma length_cut_blocks [simp]: "length (cut_blocks sizes off cws) = length sizes"
  by (induction sizes off cws rule: cut_blocks.induct) simp_all

lemma cut_blocks_concat:
  "off + sum_list sizes \<le> length cws \<Longrightarrow> concat (cut_blocks sizes off cws) = take (sum_list sizes) (drop off cws)"
proof (induction sizes off cws rule: cut_blocks.induct)
  case (2 n sizes off cws)
  then have "concat (cut_blocks sizes (off + n) cws) = take (sum_list sizes) (drop (off + n) cws)" by simp
  then show ?case by (simp add: take_add add.commute)
qed simp

lemma cut_blocks_lengths:
  "off + sum_list sizes \<le> length cws \<Longrightarrow> map length (cut_blocks sizes off cws) = sizes"
  by (induction sizes off cws rule: cut_blocks.induct) simp_all

lemma length_data_order: "length (data_order sizes) = sum_list sizes"
proof -
  have cnt: "length (filter P [0..<n]) = (\<Sum>b<n. if P b then 1 else 0)" for P n
    by (induction n) simp_all
  have inner: "(\<Sum>i<m. if i < s then 1 else 0) = s" if "s \<le> m" for s m :: nat
  proof -
    have "{..<m} \<inter> {i. i < s} = {..<s}" using that by auto
    then show ?thesis by (simp add: sum.If_cases)
  qed
  have "length (data_order sizes) = (\<Sum>i<Max (set sizes). \<Sum>b<length sizes. if i < sizes ! b then 1 else 0)"
    unfolding data_order_def length_concat map_map o_def length_map cnt
    by (simp add: interv_sum_list_conv_sum_set_nat atLeast0LessThan)
  also have "\<dots> = (\<Sum>b<length sizes. \<Sum>i<Max (set sizes). if i < sizes ! b then 1 else 0)" by (rule sum.swap)
  also have "\<dots> = (\<Sum>b<length sizes. sizes ! b)" by (intro sum.cong refl inner) simp
  also have "\<dots> = sum_list sizes" by (simp add: sum_list_sum_nth atLeast0LessThan)
  finally show ?thesis .
qed

lemma data_part:
  "concat (map (\<lambda>i. map (\<lambda>b. b ! i) (filter (\<lambda>b. i < length b) blocks)) [0..<Max (set (map length blocks))]) =
     map (\<lambda>(b, i). blocks ! b ! i) (data_order (map length blocks))"
proof -
  have blk: "map (\<lambda>b. b ! i) (filter (\<lambda>b. i < length b) blocks) =
      map (\<lambda>k. blocks ! k ! i) (filter (\<lambda>k. i < map length blocks ! k) [0..<length blocks])" for i
  proof -
    have "map (\<lambda>b. b ! i) (filter (\<lambda>b. i < length b) (map ((!) blocks) [0..<length blocks])) =
        map (\<lambda>k. blocks ! k ! i) (filter (\<lambda>k. i < length (blocks ! k)) [0..<length blocks])"
      by (simp add: filter_map o_def)
    also have "filter (\<lambda>k. i < length (blocks ! k)) [0..<length blocks] = filter (\<lambda>k. i < map length blocks ! k) [0..<length blocks]"
      by (rule filter_cong) auto
    finally show ?thesis by (simp add: map_nth)
  qed
  show ?thesis unfolding data_order_def blk by (simp add: map_concat o_def)
qed

lemma ec_part:
  "concat (map (\<lambda>i. map (\<lambda>b. b ! i) blocks) [0..<n]) = map (\<lambda>(b, i). blocks ! b ! i) (ec_order (length blocks) n)"
proof -
  have "map (\<lambda>b. b ! i) blocks = map (\<lambda>k. blocks ! k ! i) [0..<length blocks]" for i
    by (rule nth_equalityI) simp_all
  then show ?thesis unfolding ec_order_def by (simp add: map_concat o_def)
qed

lemma length_ec_order [simp]: "length (ec_order n ec) = n * ec"
  by (simp add: ec_order_def length_concat o_def sum_list_triv)

lemma pick_map:
  assumes "\<And>i. i < n \<Longrightarrow> (b, i) \<in> set order" and "length l = n" and "\<And>i. i < n \<Longrightarrow> f (b, i) = l ! i"
  shows "pick order (map f order) b n = l"
  unfolding pick_def using assms by (intro nth_equalityI) (simp_all add: map_of_zip_map)

lemma in_data_order: "b < length sizes \<Longrightarrow> i < sizes ! b \<Longrightarrow> (b, i) \<in> set (data_order sizes)"
proof -
  assume b: "b < length sizes" and i: "i < sizes ! b"
  have "sizes ! b \<le> Max (set sizes)" using b by simp
  with i have "i < Max (set sizes)" by linarith
  with b i show ?thesis by (auto simp: data_order_def intro!: bexI [of _ i])
qed

lemma in_ec_order: "b < n \<Longrightarrow> i < ec \<Longrightarrow> (b, i) \<in> set (ec_order n ec)"
  by (auto simp: ec_order_def intro!: bexI [of _ i])

lemma interleave_read:
  assumes v: "supported v" and cws: "length cws = data_codewords v" "list_all byte cws"
  shows "length (interleave cws v) = total_codewords v \<and>
    concat (cut_blocks (block_sizes v) 0 cws) = cws \<and>
    read_blocks v (interleave cws v) =
      map (\<lambda>d. (d, rs_encode d (ec_per_block v))) (cut_blocks (block_sizes v) 0 cws) \<and>
    (\<forall>d\<in>set (cut_blocks (block_sizes v) 0 cws). list_all byte d)"
proof -
  let ?sizes = "block_sizes v" and ?ec = "ec_per_block v"
  let ?blocks = "cut_blocks ?sizes 0 cws"
  let ?ecb = "map (\<lambda>d. rs_encode d ?ec) ?blocks"
  note t = block_table [OF v]
  have sizes: "map length ?blocks = ?sizes" using t cws(1) by (intro cut_blocks_lengths) simp
  have cc: "concat ?blocks = cws" using t cws(1) by (simp add: cut_blocks_concat)
  have okb: "\<forall>d\<in>set ?blocks. list_all byte d"
    using cws(2) by (subst (asm) cc [symmetric]) (simp add: list_all_iff)
  let ?data = "map (\<lambda>(b, i). ?blocks ! b ! i) (data_order ?sizes)"
  let ?ecs = "map (\<lambda>(b, i). ?ecb ! b ! i) (ec_order (length ?sizes) ?ec)"
  have il: "interleave cws v = ?data @ ?ecs"
    using data_part [of ?blocks] ec_part [of ?ecb ?ec] unfolding interleave_def Let_def sizes by simp
  have ld: "length ?data = data_codewords v" using t by (simp add: length_data_order)
  have "hd ?sizes + ?ec \<le> 255" using t hd_in_set [of ?sizes] by blast
  then have ec512: "?ec \<le> 512" by linarith
  have el: "length (rs_encode d ?ec) = ?ec" if "d \<in> set ?blocks" for d
    using rs_encode_bytes [of d ?ec] okb that t ec512 by simp
  have blk: "pick (data_order ?sizes) ?data b (?sizes ! b) = ?blocks ! b" if "b < length ?sizes" for b
  proof -
    have "length (?blocks ! b) = ?sizes ! b" using arg_cong [OF sizes, of "\<lambda>l. l ! b"] that by simp
    then show ?thesis using that by (intro pick_map) (simp_all add: in_data_order)
  qed
  have ecb: "pick (ec_order (length ?sizes) ?ec) ?ecs b ?ec = rs_encode (?blocks ! b) ?ec" if "b < length ?sizes" for b
    using that el by (intro pick_map) (auto simp: in_ec_order)
  have "read_blocks v (interleave cws v) =
      map (\<lambda>b. (?blocks ! b, rs_encode (?blocks ! b) ?ec)) [0..<length ?sizes]"
    unfolding read_blocks_def Let_def il using ld blk ecb by simp
  also have "\<dots> = map (\<lambda>d. (d, rs_encode d ?ec)) ?blocks"
    by (rule nth_equalityI) simp_all
  finally have "read_blocks v (interleave cws v) = map (\<lambda>d. (d, rs_encode d ?ec)) ?blocks" .
  moreover have "length (interleave cws v) = total_codewords v" unfolding il using ld t by (simp add: mult.commute)
  ultimately show ?thesis using cc okb by blast
qed

lemma interleave_bytes:
  assumes v: "supported v" and cws: "length cws = data_codewords v" "list_all byte cws"
  shows "list_all byte (interleave cws v)"
proof -
  let ?sizes = "block_sizes v" and ?ec = "ec_per_block v"
  let ?blocks = "cut_blocks ?sizes 0 cws"
  have okb: "\<forall>d\<in>set ?blocks. list_all byte d" using interleave_read [OF assms] by blast
  note t = block_table [OF v]
  have "hd ?sizes + ?ec \<le> 255" using t hd_in_set [of ?sizes] by blast
  then have "?ec \<le> 512" by linarith
  then have "length (rs_encode d ?ec) = ?ec" "list_all byte (rs_encode d ?ec)" if "d \<in> set ?blocks" for d
    using rs_encode_bytes [of d ?ec] okb that t by simp_all
  then show ?thesis
    unfolding interleave_def Let_def using okb by (auto simp: list_all_iff)
qed

text \<open>
  Interleaving is undone by the reader: the stream has the total number of codewords of the
  version, the reader's data blocks joined are the data codewords, and every block it reads,
  its data followed by its correction, has the zero syndromes of a Reed-Solomon code word.
\<close>

theorem interleave_roundtrip:
  assumes "supported v" and "length cws = data_codewords v" and "list_all byte cws"
  shows "length (interleave cws v) = total_codewords v \<and>
    concat (map fst (read_blocks v (interleave cws v))) = cws \<and>
    (\<forall>(d, e)\<in>set (read_blocks v (interleave cws v)). \<forall>i<ec_per_block v.
       length e = ec_per_block v \<and> poly_eval (XOR) gf_mul 0 (GF_EXP ! i) (d @ e) = 0)"
proof -
  note il = interleave_read [OF assms]
  note t = block_table [OF assms(1)]
  have "hd (block_sizes v) + ec_per_block v \<le> 255" using t hd_in_set [of "block_sizes v"] by blast
  then have ec: "ec_per_block v \<le> 512" by linarith
  then have "poly_eval (XOR) gf_mul 0 (GF_EXP ! i) (d @ rs_encode d (ec_per_block v)) = 0"
    if "i < ec_per_block v" "list_all byte d" for i d
    using that t codeword_syndromes [of d "ec_per_block v" i] by (simp add: nth_GF_EXP)
  moreover have "length (rs_encode d (ec_per_block v)) = ec_per_block v" if "list_all byte d" for d
    using that ec t rs_encode_bytes [of d "ec_per_block v"] by simp
  moreover have "map fst (read_blocks v (interleave cws v)) = cut_blocks (block_sizes v) 0 cws"
    using il by (simp add: o_def)
  ultimately show ?thesis using il by auto
qed

lemma interleave_roundtrip_witness:
  "length (interleave (bits_to_codewords (bit_stream [104, 115, 49] 1)) 1) = total_codewords 1"
proof -
  have "supported 1" "length [104, 115, 49 :: nat] \<le> capacity_bytes 1" "list_all byte [104, 115, 49]"
    by (simp_all add: capacity_bytes_def data_codewords_def block_groups_def EC_BLOCKS_M_def count_bits_def)
  from stream_codewords [OF this] interleave_roundtrip [of 1 "bits_to_codewords (bit_stream [104, 115, 49] 1)"]
  show ?thesis by simp
qed

end
