(* ===== verification/Qr_Matrix.thy ===== *)
theory Qr_Matrix
  imports Qr_Bits
begin

text \<open>
  The module grid of a QR code and the encoder, last part of \<open>homesoc/web/qr.py\<close>: function
  patterns, zigzag placement, masks, format and version information, the penalty rules, \<open>encode\<close>
  and the text rendering. A grid is a list of rows of booleans, \<open>True\<close> for dark, as in the code.
  The methods that draw patterns are given by the writes they make, in order; coordinates are
  integers because the patterns at the border run off the grid.
\<close>

section \<open>The canvas\<close>

type_synonym grid = "bool list list"

record canvas =
  cv_version :: nat
  cv_size :: nat
  modules :: grid
  reserved :: grid

definition set_cell :: "nat \<Rightarrow> nat \<Rightarrow> bool \<Rightarrow> grid \<Rightarrow> grid" where
  "set_cell r c v g = g[r := (g ! r)[c := v]]"

definition cell :: "grid \<Rightarrow> nat \<Rightarrow> nat \<Rightarrow> bool" where
  "cell g r c = g ! r ! c"

definition new_canvas :: "nat \<Rightarrow> canvas" where
  "new_canvas version =
     (let n = version * 4 + 17
      in \<lparr>cv_version = version, cv_size = n, modules = replicate n (replicate n False),
          reserved = replicate n (replicate n False)\<rparr>)"

text \<open>A write: \<open>set_function\<close> with a colour, or \<open>reserve\<close> without one.\<close>

type_synonym cell_write = "int \<times> int \<times> bool option"

definition draw :: "cell_write \<Rightarrow> canvas \<Rightarrow> canvas" where
  "draw w cv =
     (let (row, col, dark) = w; r = nat row; c = nat col
      in if 0 \<le> row \<and> row < int (cv_size cv) \<and> 0 \<le> col \<and> col < int (cv_size cv)
         then cv\<lparr>modules := (case dark of Some d \<Rightarrow> set_cell r c d (modules cv) | None \<Rightarrow> modules cv),
                 reserved := set_cell r c True (reserved cv)\<rparr>
         else cv)"

section \<open>Function patterns\<close>

definition ALIGNMENT_POSITIONS :: "nat \<Rightarrow> int list" where
  "ALIGNMENT_POSITIONS version =
     (case map_of [(1, []), (2, [6, 18]), (3, [6, 22]), (4, [6, 26]), (5, [6, 30]), (6, [6, 34]), (7, [6, 22, 38]),
        (8, [6, 24, 42]), (9, [6, 26, 46]), (10, [6, 28, 50])] version of Some ps \<Rightarrow> ps | None \<Rightarrow> [])"

definition finder :: "int \<Rightarrow> int \<Rightarrow> cell_write list" where
  "finder row col =
     concat (map (\<lambda>dr. map (\<lambda>dc. (row + dr, col + dc, Some (max \<bar>dr\<bar> \<bar>dc\<bar> \<notin> {2, 4}))) [-4..4]) [-4..4])"

definition alignment :: "int \<Rightarrow> int \<Rightarrow> cell_write list" where
  "alignment row col =
     concat (map (\<lambda>dr. map (\<lambda>dc. (row + dr, col + dc, Some (max \<bar>dr\<bar> \<bar>dc\<bar> \<noteq> 1))) [-2..2]) [-2..2])"

definition reserve_format_areas :: "int \<Rightarrow> cell_write list" where
  "reserve_format_areas n =
     concat (map (\<lambda>i. [(8, i, None), (i, 8, None)]) [0..8]) @
     concat (map (\<lambda>i. [(8, n - 1 - i, None), (n - 1 - i, 8, None)]) [0..7]) @
     [(n - 8, 8, Some True)]"

definition version_bits :: "nat \<Rightarrow> nat" where
  "version_bits version =
     push_bit 12 version OR
       ((\<lambda>r. push_bit 1 r XOR (drop_bit 11 r * 0x1F25)) ^^ 12) version"

definition version_info :: "nat \<Rightarrow> int \<Rightarrow> cell_write list" where
  "version_info version n =
     concat (map (\<lambda>i. let dark = bit (version_bits version) i; far = n - 11 + int (i mod 3); near = int (i div 3)
                      in [(near, far, Some dark), (far, near, Some dark)]) [0..<18])"

definition function_patterns :: "nat \<Rightarrow> int \<Rightarrow> cell_write list" where
  "function_patterns version n =
     (let positions = ALIGNMENT_POSITIONS version;
          corners = (if positions = [] then {}
            else {(hd positions, hd positions), (hd positions, last positions), (last positions, hd positions)})
      in concat (map (\<lambda>i. let dark = (i mod 2 = 0) in [(6, i, Some dark), (i, 6, Some dark)]) [0..n - 1]) @
         concat (map (\<lambda>(row, col). finder row col) [(3, 3), (3, n - 4), (n - 4, 3)]) @
         concat (map (\<lambda>row. concat (map (\<lambda>col. if (row, col) \<notin> corners then alignment row col else []) positions)) positions) @
         reserve_format_areas n @
         (if 7 \<le> version then version_info version n else []))"

definition draw_function_patterns :: "canvas \<Rightarrow> canvas" where
  "draw_function_patterns cv = fold draw (function_patterns (cv_version cv) (int (cv_size cv))) cv"

text \<open>Format information: the mask, protected by a BCH code, in two copies.\<close>

definition format_bits :: "nat \<Rightarrow> nat" where
  "format_bits msk =
     (let data = push_bit 3 0 OR msk;
          remainder = ((\<lambda>r. push_bit 1 r XOR (drop_bit 9 r * 0x537)) ^^ 10) data
      in (push_bit 10 data OR remainder) XOR 0b101010000010010)"

definition format_cells :: "nat \<Rightarrow> (nat \<times> nat \<times> nat) list" where
  "format_cells n =
     map (\<lambda>i. (i, 8, i)) [0..<6] @ [(7, 8, 6), (8, 8, 7), (8, 7, 8)] @ map (\<lambda>i. (8, 14 - i, i)) [9..<15] @
     map (\<lambda>i. (8, n - 1 - i, i)) [0..<8] @ map (\<lambda>i. (n - 15 + i, 8, i)) [8..<15]"

definition draw_format_info :: "nat \<Rightarrow> canvas \<Rightarrow> canvas" where
  "draw_format_info msk cv =
     cv\<lparr>modules := fold (\<lambda>(r, c, i) g. set_cell r c (bit (format_bits msk) i) g) (format_cells (cv_size cv)) (modules cv)\<rparr>"

section \<open>Data\<close>

text \<open>Two-module columns from the right, stepping over the timing column, alternately up and down.\<close>

definition right_of :: "nat \<Rightarrow> nat \<Rightarrow> nat" where
  "right_of n k = (let right = n - 1 - 2 * k in if right \<le> 6 then right - 1 else right)"

definition zigzag_rights :: "nat \<Rightarrow> nat list" where
  "zigzag_rights n = map (right_of n) [0..<n div 2]"

definition zigzag :: "nat \<Rightarrow> (nat \<times> nat) list" where
  "zigzag n =
     concat (map (\<lambda>right. concat (map (\<lambda>step. map (\<lambda>offset.
         (if (right + 1) AND 2 = 0 then n - 1 - step else step, right - offset)) [0..<2]) [0..<n]))
       (zigzag_rights n))"

definition draw_codewords :: "nat list \<Rightarrow> canvas \<Rightarrow> canvas" where
  "draw_codewords codewords cv =
     (let total_bits = length codewords * 8
      in cv\<lparr>modules := fst (fold
          (\<lambda>(row, col) (g, bit_index).
             if \<not> cell (reserved cv) row col \<and> bit_index < total_bits
             then (set_cell row col (bit (codewords ! (bit_index div 8)) (7 - bit_index mod 8)) g, bit_index + 1)
             else (g, bit_index))
          (zigzag (cv_size cv)) (modules cv, 0))\<rparr>)"

definition mask_condition :: "nat \<Rightarrow> nat \<Rightarrow> nat \<Rightarrow> bool" where
  "mask_condition msk row col =
     (if msk = 0 then (row + col) mod 2 = 0
      else if msk = 1 then row mod 2 = 0
      else if msk = 2 then col mod 3 = 0
      else if msk = 3 then (row + col) mod 3 = 0
      else if msk = 4 then (row div 2 + col div 3) mod 2 = 0
      else if msk = 5 then (row * col) mod 2 + (row * col) mod 3 = 0
      else if msk = 6 then ((row * col) mod 2 + (row * col) mod 3) mod 2 = 0
      else ((row + col) mod 2 + (row * col) mod 3) mod 2 = 0)"

definition apply_mask :: "nat \<Rightarrow> canvas \<Rightarrow> canvas" where
  "apply_mask msk cv =
     cv\<lparr>modules := map (\<lambda>r. map (\<lambda>c.
         if \<not> cell (reserved cv) r c \<and> mask_condition msk r c then \<not> cell (modules cv) r c else cell (modules cv) r c)
       [0..<cv_size cv]) [0..<cv_size cv]\<rparr>"

section \<open>Penalties\<close>

definition finder_like :: "nat list \<Rightarrow> int" where
  "finder_like h =
     (let middle = h ! 1;
          core = (0 < middle \<and> h ! 2 = middle \<and> h ! 3 = middle * 3 \<and> h ! 4 = middle \<and> h ! 5 = middle)
      in if \<not> core then 0
         else (if middle * 4 \<le> h ! 0 \<and> middle \<le> h ! 6 then 1 else 0) +
              (if middle * 4 \<le> h ! 6 \<and> middle \<le> h ! 0 then 1 else 0))"

definition push_run :: "nat list \<Rightarrow> nat \<Rightarrow> nat \<Rightarrow> nat list" where
  "push_run h len n = (if h ! 0 = 0 then len + n else len) # butlast h"

definition finish_run :: "nat list \<Rightarrow> bool \<Rightarrow> nat \<Rightarrow> nat \<Rightarrow> int" where
  "finish_run h dark_run len n =
     (let (h, len) = (if dark_run then (push_run h len n, 0) else (h, len))
      in finder_like (push_run h (len + n) n))"

text \<open>One row or column: runs of five and more, and the finder look-alikes in the run history.\<close>

fun line_penalty :: "nat \<Rightarrow> bool list \<Rightarrow> bool \<Rightarrow> nat \<Rightarrow> nat list \<Rightarrow> int \<Rightarrow> int" where
  "line_penalty n [] run_dark run_length h score = score + finish_run h run_dark run_length n * 40"
| "line_penalty n (c # cells) run_dark run_length h score =
     (if c = run_dark
      then (let k = run_length + 1
            in line_penalty n cells run_dark k h (if k = 5 then score + 3 else if 5 < k then score + 1 else score))
      else (let h = push_run h run_length n
            in line_penalty n cells c 1 h (if \<not> run_dark then score + finder_like h * 40 else score)))"

definition column :: "grid \<Rightarrow> nat \<Rightarrow> bool list" where
  "column g c = map (\<lambda>row. row ! c) g"

definition penalty :: "grid \<Rightarrow> int" where
  "penalty g =
     (let n = length g;
          lines = (\<Sum>outer \<leftarrow> [0..<n]. line_penalty n (g ! outer) False 0 (replicate 7 0) 0 +
                                     line_penalty n (column g outer) False 0 (replicate 7 0) 0);
          squares = (\<Sum>row \<leftarrow> [0..<n - 1]. \<Sum>col \<leftarrow> [0..<n - 1].
             if cell g row col = cell g row (col + 1) \<and> cell g row (col + 1) = cell g (row + 1) col \<and>
                cell g (row + 1) col = cell g (row + 1) (col + 1) then 3 else 0);
          dark = int (length (filter id (concat g)));
          total = int (n * n);
          steps = (\<bar>dark * 20 - total * 10\<bar> + total - 1) div total - 1
      in lines + squares + steps * 10)"

section \<open>The encoder\<close>

record qr_code =
  q_version :: nat
  q_mask :: nat
  q_modules :: grid

definition draw_candidate :: "nat \<Rightarrow> nat list \<Rightarrow> nat \<Rightarrow> canvas" where
  "draw_candidate version codewords msk =
     draw_format_info msk (apply_mask msk (draw_codewords codewords (draw_function_patterns (new_canvas version))))"

definition best_candidate :: "nat \<Rightarrow> nat list \<Rightarrow> nat list \<Rightarrow> int \<times> nat \<times> grid" where
  "best_candidate version codewords candidates =
     fold (\<lambda>candidate (best_score, best_mask, best_modules).
         let g = modules (draw_candidate version codewords candidate); score = penalty g
         in if best_score < 0 \<or> score < best_score then (score, candidate, g)
            else (best_score, best_mask, best_modules))
       candidates (- 1, 0, [])"

definition encode :: "nat list \<Rightarrow> nat \<Rightarrow> nat \<Rightarrow> nat option \<Rightarrow> qr_error + qr_code" where
  "encode payload min_version max_version msk =
     (if msk \<noteq> None \<and> 7 < the msk then Inl ValueError
      else (case choose_version (length payload) min_version max_version of
          Inl e \<Rightarrow> Inl e
        | Inr version \<Rightarrow>
            (let codewords = interleave (bits_to_codewords (bit_stream payload version)) version;
                 (score, m, g) = best_candidate version codewords (case msk of None \<Rightarrow> [0..<8] | Some m \<Rightarrow> [m])
             in Inr \<lparr>q_version = version, q_mask = m, q_modules = g\<rparr>)))"

section \<open>Text and picture\<close>

definition matrix_text :: "grid \<Rightarrow> str" where
  "matrix_text g = join_with (CHR 0x0A) (map (\<lambda>row. map (\<lambda>c. if c then CHR ''#'' else CHR ''.'') row) g)"

definition render_ascii :: "grid \<Rightarrow> nat \<Rightarrow> str \<Rightarrow> str \<Rightarrow> str" where
  "render_ascii g quiet_zone dark light =
     (let width = length g + quiet_zone * 2;
          rep = (\<lambda>n. concat (replicate n light));
          blank = rep width
      in join_with (CHR 0x0A)
        (replicate quiet_zone blank @
         map (\<lambda>row. rep quiet_zone @ concat (map (\<lambda>c. if c then dark else light) row) @ rep quiet_zone) g @
         replicate quiet_zone blank))"

text \<open>The rectangles of the SVG path: (x, y, width, height) for every run of dark modules.\<close>

fun dark_runs :: "bool list \<Rightarrow> nat \<Rightarrow> (nat \<times> nat) list" where
  "dark_runs [] col = []"
| "dark_runs (False # row) col = dark_runs row (col + 1)"
| "dark_runs (True # row) col =
     (let n = length (takeWhile id row) in (col, n + 1) # dark_runs (drop n row) (col + 1 + n))"

definition render_svg :: "grid \<Rightarrow> nat \<Rightarrow> nat \<Rightarrow> qr_error + (nat \<times> nat \<times> nat \<times> nat) list" where
  "render_svg g scale quiet_zone =
     (if scale < 1 then Inl ValueError
      else Inr (concat (map (\<lambda>(row_index, row).
          map (\<lambda>(col, n). ((col + quiet_zone) * scale, (row_index + quiet_zone) * scale, n * scale, scale)) (dark_runs row 0))
        (enumerate 0 g))))"

section \<open>Grids\<close>

definition square :: "nat \<Rightarrow> grid \<Rightarrow> bool" where
  "square n g \<longleftrightarrow> length g = n \<and> (\<forall>row\<in>set g. length row = n)"

lemma square_row: "square n g \<Longrightarrow> r < n \<Longrightarrow> length (g ! r) = n"
  by (simp add: square_def)

lemma square_set_cell [simp]: "square n g \<Longrightarrow> square n (set_cell r c v g)"
proof -
  assume sq: "square n g"
  show ?thesis
  proof (cases "r < length g")
    case True
    then show ?thesis using sq set_update_subset_insert [of g r "(g ! r)[c := v]"]
      by (force simp: square_def set_cell_def)
  qed (use sq in \<open>simp add: square_def set_cell_def list_update_beyond\<close>)
qed

lemma cell_set_cell:
  "square n g \<Longrightarrow> r < n \<Longrightarrow> c < n \<Longrightarrow>
     cell (set_cell r c v g) r' c' = (if r' = r \<and> c' = c then v else cell g r' c')"
  by (auto simp: cell_def set_cell_def square_row nth_list_update square_def)

definition canvas_ok :: "nat \<Rightarrow> canvas \<Rightarrow> bool" where
  "canvas_ok n cv \<longleftrightarrow> cv_size cv = n \<and> square n (modules cv) \<and> square n (reserved cv)"

lemma new_canvas_ok: "canvas_ok (version * 4 + 17) (new_canvas version)"
  by (simp add: canvas_ok_def new_canvas_def square_def Let_def)

text \<open>What a list of writes reserves.\<close>

lemma draw_ok: "canvas_ok n cv \<Longrightarrow> canvas_ok n (draw w cv)"
  by (simp add: draw_def canvas_ok_def Let_def split: prod.splits option.splits)

lemma draw_version [simp]: "cv_version (draw w cv) = cv_version cv" "cv_size (draw w cv) = cv_size cv"
  by (simp_all add: draw_def Let_def split: prod.splits)

lemma draw_reserved:
  "canvas_ok n cv \<Longrightarrow> r < n \<Longrightarrow> c < n \<Longrightarrow>
     cell (reserved (draw w cv)) r c \<longleftrightarrow> cell (reserved cv) r c \<or> fst w = int r \<and> fst (snd w) = int c"
  by (auto simp: draw_def canvas_ok_def Let_def cell_set_cell split: prod.splits if_splits)

lemma fold_draw:
  assumes "canvas_ok n cv"
  shows "canvas_ok n (fold draw ws cv) \<and> cv_version (fold draw ws cv) = cv_version cv \<and>
    (\<forall>r<n. \<forall>c<n. cell (reserved (fold draw ws cv)) r c \<longleftrightarrow>
       cell (reserved cv) r c \<or> (int r, int c) \<in> (\<lambda>w. (fst w, fst (snd w))) ` set ws)"
  using assms
proof (induction ws arbitrary: cv)
  case (Cons w ws)
  note IH = Cons.IH [OF draw_ok [OF Cons.prems]]
  show ?case using IH draw_reserved [OF Cons.prems] by (auto simp: draw_ok [OF Cons.prems])
qed simp

abbreviation patterned :: "nat \<Rightarrow> canvas" where
  "patterned version \<equiv> draw_function_patterns (new_canvas version)"

text \<open>The function modules as rectangles (first row, last row, first column, last column).\<close>

definition function_rects :: "nat \<Rightarrow> nat \<Rightarrow> (int \<times> int \<times> int \<times> int) list" where
  "function_rects version side =
     (let n = int side; ps = ALIGNMENT_POSITIONS version
      in [(6, 6, 0, n - 1), (0, n - 1, 6, 6), (-1, 7, -1, 7), (-1, 7, n - 8, n), (n - 8, n, -1, 7)] @
         concat (map (\<lambda>r. concat (map (\<lambda>c.
             if (r, c) \<in> {(hd ps, hd ps), (hd ps, last ps), (last ps, hd ps)} then [] else [(r - 2, r + 2, c - 2, c + 2)]) ps)) ps) @
         [(8, 8, 0, 8), (0, 8, 8, 8), (8, 8, n - 8, n - 1), (n - 8, n - 1, 8, 8)] @
         (if 7 \<le> version then [(0, 5, n - 11, n - 9), (n - 11, n - 9, 0, 5)] else []))"

definition in_rect :: "int \<Rightarrow> int \<Rightarrow> int \<times> int \<times> int \<times> int \<Rightarrow> bool" where
  "in_rect r c q = (let (r0, r1, c0, c1) = q in r0 \<le> r \<and> r \<le> r1 \<and> c0 \<le> c \<and> c \<le> c1)"

abbreviation coords :: "cell_write list \<Rightarrow> (int \<times> int) set" where
  "coords ws \<equiv> (\<lambda>w. (fst w, fst (snd w))) ` set ws"

lemma coords_square:
  "(r, c) \<in> coords (concat (map (\<lambda>dr. map (\<lambda>dc. (a + dr, b + dc, f dr dc)) [- k..k]) [- k..k])) \<longleftrightarrow>
     a - k \<le> r \<and> r \<le> a + k \<and> b - k \<le> c \<and> c \<le> b + k"
proof
  assume "a - k \<le> r \<and> r \<le> a + k \<and> b - k \<le> c \<and> c \<le> b + k"
  then have "r - a \<in> {- k..k}" "c - b \<in> {- k..k}" by auto
  then show "(r, c) \<in> coords (concat (map (\<lambda>dr. map (\<lambda>dc. (a + dr, b + dc, f dr dc)) [- k..k]) [- k..k]))"
    by (force simp: image_iff)
qed (auto simp: image_iff)

lemma coords_finder: "(r, c) \<in> coords (finder a b) \<longleftrightarrow> in_rect r c (a - 4, a + 4, b - 4, b + 4)"
  unfolding finder_def coords_square by (simp add: in_rect_def)

lemma coords_alignment: "(r, c) \<in> coords (alignment a b) \<longleftrightarrow> in_rect r c (a - 2, a + 2, b - 2, b + 2)"
  unfolding alignment_def coords_square by (simp add: in_rect_def)

lemma coords_append: "(r, c) \<in> coords (xs @ ys) \<longleftrightarrow> (r, c) \<in> coords xs \<or> (r, c) \<in> coords ys"
  by auto

lemma coords_concat: "(r, c) \<in> coords (concat (map f xs)) \<longleftrightarrow> (\<exists>x\<in>set xs. (r, c) \<in> coords (f x))"
  by auto

lemma coords_if: "(r, c) \<in> coords (if P then xs else []) \<longleftrightarrow> P \<and> (r, c) \<in> coords xs"
  by (cases P) simp_all

lemma bex_concat: "(\<exists>q\<in>set (concat (map f xs)). P q) \<longleftrightarrow> (\<exists>x\<in>set xs. \<exists>q\<in>set (f x). P q)"
  by auto

lemma bex_if: "(\<exists>q\<in>set (if b then [] else [x]). P q) \<longleftrightarrow> \<not> b \<and> P x"
  by simp

lemma coords_format:
  "0 \<le> r \<Longrightarrow> 0 \<le> c \<Longrightarrow> 9 \<le> n \<Longrightarrow> (r, c) \<in> coords (reserve_format_areas n) \<longleftrightarrow>
     (\<exists>q\<in>{(8, 8, 0, 8), (0, 8, 8, 8), (8, 8, n - 8, n - 1), (n - 8, n - 1, 8, 8)}. in_rect r c q)"
  unfolding reserve_format_areas_def coords_append coords_concat
  by (auto simp: in_rect_def intro: bexI [of _ "n - 1 - c"] bexI [of _ "n - 1 - r"])

lemma coords_timing:
  "(r, c) \<in> coords (concat (map (\<lambda>i. [(6, i, Some (i mod 2 = 0)), (i, 6, Some (i mod 2 = 0))]) [0..n - 1])) \<longleftrightarrow>
     (\<exists>q\<in>{(6, 6, 0, n - 1), (0, n - 1, 6, 6)}. in_rect r c q)"
  unfolding coords_concat by (auto simp: in_rect_def)

lemma coords_version:
  "(r, c) \<in> coords (version_info v n) \<longleftrightarrow> (\<exists>q\<in>{(0, 5, n - 11, n - 9), (n - 11, n - 9, 0, 5)}. in_rect r c q)"
proof -
  have "(\<exists>i<18. r = int (i div 3) \<and> c = n - 11 + int (i mod 3)) \<longleftrightarrow> 0 \<le> r \<and> r \<le> 5 \<and> n - 11 \<le> c \<and> c \<le> n - 9" for r c
  proof
    assume rc: "0 \<le> r \<and> r \<le> 5 \<and> n - 11 \<le> c \<and> c \<le> n - 9"
    define i where "i = 3 * nat r + nat (c - (n - 11))"
    have "nat (c - (n - 11)) < 3" using rc by linarith
    then have "i div 3 = nat r" "i mod 3 = nat (c - (n - 11))" "i < 18" using rc by (auto simp: i_def)
    then show "\<exists>i<18. r = int (i div 3) \<and> c = n - 11 + int (i mod 3)" using rc by (intro exI [of _ i]) simp
  next
    assume "\<exists>i<18. r = int (i div 3) \<and> c = n - 11 + int (i mod 3)"
    then obtain i where i: "i < 18" "r = int (i div 3)" "c = n - 11 + int (i mod 3)" by blast
    have "i div 3 \<le> 5" "i mod 3 \<le> 2" using i(1) by (simp_all add: less_mult_imp_div_less)
    then show "0 \<le> r \<and> r \<le> 5 \<and> n - 11 \<le> c \<and> c \<le> n - 9" using i by simp
  qed
  note cells = this [of r c] this [of c r]
  have "(r, c) \<in> coords (version_info v n) \<longleftrightarrow>
      (\<exists>i<18. r = int (i div 3) \<and> c = n - 11 + int (i mod 3)) \<or> (\<exists>i<18. c = int (i div 3) \<and> r = n - 11 + int (i mod 3))"
    unfolding version_info_def coords_concat by (auto simp: Let_def)
  then show ?thesis unfolding cells by (auto simp: in_rect_def)
qed

lemma coords_patterns:
  assumes "0 \<le> r" "0 \<le> c" "9 \<le> side"
  shows "(r, c) \<in> coords (function_patterns v (int side)) \<longleftrightarrow> (\<exists>q\<in>set (function_rects v side). in_rect r c q)"
proof -
  let ?n = "int side"
  let ?ps = "ALIGNMENT_POSITIONS v"
  let ?corners = "if ?ps = [] then {} else {(hd ?ps, hd ?ps), (hd ?ps, last ?ps), (last ?ps, hd ?ps)}"
  have al: "(r, c) \<in> coords (concat (map (\<lambda>row. concat (map (\<lambda>col. if (row, col) \<notin> ?corners then alignment row col else []) ?ps)) ?ps)) \<longleftrightarrow>
      (\<exists>q\<in>set (concat (map (\<lambda>r. concat (map (\<lambda>c. if (r, c) \<in> {(hd ?ps, hd ?ps), (hd ?ps, last ?ps), (last ?ps, hd ?ps)} then []
         else [(r - 2, r + 2, c - 2, c + 2)]) ?ps)) ?ps)). in_rect r c q)"
    unfolding coords_concat coords_if bex_concat bex_if by (cases "?ps = []") (simp_all add: coords_alignment)
  have fi: "(r, c) \<in> coords (concat (map (\<lambda>(row, col). finder row col) [(3, 3), (3, ?n - 4), (?n - 4, 3)])) \<longleftrightarrow>
      (\<exists>q\<in>{(-1, 7, -1, 7), (-1, 7, ?n - 8, ?n), (?n - 8, ?n, -1, 7)}. in_rect r c q)"
    unfolding coords_concat by (auto simp: coords_finder)
  have ve: "(r, c) \<in> coords (if 7 \<le> v then version_info v ?n else []) \<longleftrightarrow>
      (\<exists>q\<in>set (if 7 \<le> v then [(0, 5, ?n - 11, ?n - 9), (?n - 11, ?n - 9, 0, 5)] else []). in_rect r c q)"
    using coords_version by (cases "7 \<le> v") simp_all
  have fo: "(r, c) \<in> coords (reserve_format_areas ?n) \<longleftrightarrow>
     (\<exists>q\<in>{(8, 8, 0, 8), (0, 8, 8, 8), (8, 8, ?n - 8, ?n - 1), (?n - 8, ?n - 1, 8, 8)}. in_rect r c q)"
    using assms by (intro coords_format) simp_all
  show ?thesis
    unfolding function_patterns_def Let_def coords_append al fi ve fo coords_timing function_rects_def
    by (simp only: set_append bex_Un list.set bex_simps disj_assoc simp_thms)
qed

section \<open>How many data modules there are\<close>

abbreviation side_of :: "nat \<Rightarrow> nat" where "side_of version \<equiv> version * 4 + 17"

definition function_module :: "nat \<Rightarrow> nat \<times> nat \<Rightarrow> bool" where
  "function_module version p = list_ex (in_rect (int (fst p)) (int (snd p))) (function_rects version (side_of version))"

definition free :: "nat \<Rightarrow> (nat \<times> nat) list" where
  "free version = filter (\<lambda>p. \<not> function_module version p) (zigzag (side_of version))"

definition nat_rects :: "nat \<Rightarrow> nat \<Rightarrow> (nat \<times> nat \<times> nat \<times> nat) list" where
  "nat_rects version side = map (\<lambda>(a, b, c, d). (nat a, nat b, nat c, nat d)) (function_rects version side)"

definition free_rows :: "(nat \<times> nat \<times> nat \<times> nat) list \<Rightarrow> nat \<Rightarrow> nat \<Rightarrow> nat" where
  "free_rows rects n c =
     (let ivs = map (\<lambda>(a, b, c0, c1). (a, b)) (filter (\<lambda>(a, b, c0, c1). c0 \<le> c \<and> c \<le> c1) rects)
      in length (filter (\<lambda>r. list_all (\<lambda>(a, b). r < a \<or> b < r) ivs) [0..<n]))"

definition free_modules :: "nat \<Rightarrow> nat \<Rightarrow> nat" where
  "free_modules version n =
     (let rects = nat_rects version n
      in sum_list (map (\<lambda>right. free_rows rects n right + free_rows rects n (right - 1)) (zigzag_rights n)))"

definition REMAINDER_BITS :: "nat \<Rightarrow> nat" where
  "REMAINDER_BITS version = (if version \<in> {2, 3, 4, 5, 6} then 7 else 0)"

lemma free_modules_1: "free_modules 1 21 = 208" by code_simp
lemma free_modules_2: "free_modules 2 25 = 359" by code_simp
lemma free_modules_3: "free_modules 3 29 = 567" by code_simp
lemma free_modules_4: "free_modules 4 33 = 807" by code_simp
lemma free_modules_5: "free_modules 5 37 = 1079" by code_simp
lemma free_modules_6: "free_modules 6 41 = 1383" by code_simp
lemma free_modules_7: "free_modules 7 45 = 1568" by code_simp
lemma free_modules_8: "free_modules 8 49 = 1936" by code_simp
lemma free_modules_9: "free_modules 9 53 = 2336" by code_simp
lemma free_modules_10: "free_modules 10 57 = 2768" by code_simp

lemmas free_modules_table = free_modules_1 free_modules_2 free_modules_3 free_modules_4 free_modules_5
  free_modules_6 free_modules_7 free_modules_8 free_modules_9 free_modules_10

lemma free_modules_total:
  assumes "supported v" shows "free_modules v (side_of v) = 8 * total_codewords v + REMAINDER_BITS v"
  using supported_cases [OF assms]
  by (elim disjE; simp add: free_modules_table total_codewords_def TOTAL_CODEWORDS_def REMAINDER_BITS_def
      free_modules_1 [unfolded One_nat_def])

lemma rects_nonneg: "supported v \<Longrightarrow> (a, b, c, d) \<in> set (function_rects v (side_of v)) \<Longrightarrow> 0 \<le> b \<and> 0 \<le> d"
proof -
  assume v: "supported v" and q: "(a, b, c, d) \<in> set (function_rects v (side_of v))"
  have "\<forall>p\<in>set (ALIGNMENT_POSITIONS v). 0 \<le> p"
    using supported_cases [OF v] by (elim disjE) (simp_all add: ALIGNMENT_POSITIONS_def)
  then show ?thesis
    using q by (auto simp: function_rects_def Let_def split: if_splits)
qed

lemma in_nat_rect:
  "0 \<le> b \<Longrightarrow> 0 \<le> d \<Longrightarrow> in_rect (int r) (int k) (a, b, c, d) \<longleftrightarrow> nat a \<le> r \<and> r \<le> nat b \<and> nat c \<le> k \<and> k \<le> nat d"
  by (auto simp: in_rect_def nat_le_iff le_nat_iff)

lemma rows_outside:
  "\<not> list_all (\<lambda>(a, b). r < a \<or> b < r) (map (\<lambda>(a, b, c0, c1). (a, b)) (filter (\<lambda>(a, b, c0, c1). c0 \<le> c \<and> c \<le> c1) rects)) \<longleftrightarrow>
     (\<exists>(a, b, c0, c1)\<in>set rects. a \<le> r \<and> r \<le> b \<and> c0 \<le> c \<and> c \<le> (c1 :: nat))" for r :: nat
  by (induction rects) auto

lemma free_rows_count:
  assumes v: "supported v"
  shows "free_rows (nat_rects v (side_of v)) (side_of v) c =
    length (filter (\<lambda>r. \<not> function_module v (r, c)) [0..<side_of v])"
proof -
  have "function_module v (r, c) \<longleftrightarrow>
      \<not> list_all (\<lambda>(a, b). r < a \<or> b < r)
        (map (\<lambda>(a, b, c0, c1). (a, b)) (filter (\<lambda>(a, b, c0, c1). c0 \<le> c \<and> c \<le> c1) (nat_rects v (side_of v))))" for r
  proof -
    have "function_module v (r, c) \<longleftrightarrow> (\<exists>(a, b, c0, c1)\<in>set (function_rects v (side_of v)).
        nat a \<le> r \<and> r \<le> nat b \<and> nat c0 \<le> c \<and> c \<le> nat c1)"
      unfolding function_module_def list_ex_iff fst_conv snd_conv
      by (intro bex_cong refl) (use rects_nonneg [OF v] in_nat_rect in \<open>force split: prod.splits\<close>)
    then show ?thesis unfolding rows_outside by (simp add: nat_rects_def case_prod_beta)
  qed
  then show ?thesis by (simp add: free_rows_def)
qed

lemma length_filter_rev_upt: "length (filter P (map (\<lambda>k. n - 1 - k) [0..<n])) = length (filter P [0..<n])"
proof -
  have "map (\<lambda>k. n - 1 - k) [0..<n] = rev [0..<n]" by (rule nth_equalityI) (simp_all add: rev_nth)
  then show ?thesis by (simp add: rev_filter [symmetric])
qed

lemma length_column:
  "length (filter P (concat (map (\<lambda>step. map (\<lambda>offset. (row step, right - offset)) [0..<2]) steps))) =
     length (filter (\<lambda>r. P (r, right)) (map row steps)) + length (filter (\<lambda>r. P (r, right - 1)) (map row steps))"
  by (induction steps) (simp_all add: numeral_2_eq_2)

lemma length_free: "supported v \<Longrightarrow> length (free v) = free_modules v (side_of v)"
proof -
  assume v: "supported v"
  let ?n = "side_of v" and ?P = "\<lambda>p. \<not> function_module v p"
  have rows: "length (filter Q (map (\<lambda>step. if up then ?n - 1 - step else step) [0..<?n])) = length (filter Q [0..<?n])" for Q up
    using length_filter_rev_upt [of Q ?n] by (cases up) simp_all
  have "length (free v) = sum_list (map (\<lambda>right.
      length (filter ?P (concat (map (\<lambda>step. map (\<lambda>offset.
         (if (right + 1) AND 2 = 0 then ?n - 1 - step else step, right - offset)) [0..<2]) [0..<?n])))) (zigzag_rights ?n))"
    unfolding free_def zigzag_def by (simp add: filter_concat length_concat o_def)
  also have "\<dots> = free_modules v ?n"
    unfolding length_column rows free_modules_def Let_def free_rows_count [OF v] ..
  finally show ?thesis .
qed

lemma enough_modules: "supported v \<Longrightarrow> 8 * total_codewords v \<le> length (free v)"
  by (simp add: length_free free_modules_total)

end
