(* ===== verification/Qr_Scan.thy ===== *)
theory Qr_Scan
  imports Qr_Matrix
begin

text \<open>
  What a reader of a QR code sees. The zigzag order visits every module once and the encoder's
  bits end up, masked, in the data modules; a scanner, written here as a specification, recovers
  mask, blocks and payload from the finished grid. The choice among the masks is at the end.
\<close>

section \<open>Placement\<close>

lemma distinct_concat_map:
  "distinct xs \<Longrightarrow> (\<And>x. x \<in> set xs \<Longrightarrow> distinct (f x)) \<Longrightarrow>
     (\<And>x y. x \<in> set xs \<Longrightarrow> y \<in> set xs \<Longrightarrow> x \<noteq> y \<Longrightarrow> set (f x) \<inter> set (f y) = {}) \<Longrightarrow> distinct (concat (map f xs))"
proof (induction xs)
  case (Cons x xs)
  then have "set (f x) \<inter> set (concat (map f xs)) = {}" by auto
  with Cons show ?case by auto
qed simp

definition zigzag_column :: "nat \<Rightarrow> nat \<Rightarrow> (nat \<times> nat) list" where
  "zigzag_column n right =
     concat (map (\<lambda>step. map (\<lambda>offset. (if (right + 1) AND 2 = 0 then n - 1 - step else step, right - offset)) [0..<2]) [0..<n])"

lemma zigzag_columns: "zigzag n = concat (map (zigzag_column n) (zigzag_rights n))"
  by (simp only: zigzag_def zigzag_column_def [abs_def])

lemma in_zigzag_column: "p \<in> set (zigzag_column n right) \<Longrightarrow> fst p < n \<and> (snd p = right \<or> snd p = right - 1)"
  by (auto simp: zigzag_column_def numeral_2_eq_2 split: if_splits)

lemma rights_spaced: "k < k' \<Longrightarrow> k' < n div 2 \<Longrightarrow> right_of n k' + 2 \<le> right_of n k"
  by (auto simp: right_of_def Let_def)

lemma zigzag_rights_apart:
  assumes "x \<in> set (zigzag_rights n)" "y \<in> set (zigzag_rights n)" "x \<noteq> y"
  shows "x + 2 \<le> y \<or> y + 2 \<le> x"
proof -
  obtain k k' where k: "k < n div 2" "k' < n div 2" "x = right_of n k" "y = right_of n k'"
    using assms by (auto simp: zigzag_rights_def)
  then have "k \<noteq> k'" using assms(3) by auto
  then show ?thesis using k rights_spaced [of k k' n] rights_spaced [of k' k n] by (metis linorder_neqE_nat)
qed

lemma zigzag_rights_range: "odd n \<Longrightarrow> 21 \<le> n \<Longrightarrow> right \<in> set (zigzag_rights n) \<Longrightarrow> 1 \<le> right \<and> right < n"
  by (auto simp: zigzag_rights_def right_of_def Let_def elim!: oddE split: if_splits)

lemma distinct_zigzag: "odd n \<Longrightarrow> 21 \<le> n \<Longrightarrow> distinct (zigzag n)"
  unfolding zigzag_columns
proof (rule distinct_concat_map)
  have "inj_on (right_of n) {0..<n div 2}"
    using rights_spaced [of _ _ n] by (intro linorder_inj_onI) fastforce+
  then show "distinct (zigzag_rights n)" by (simp add: zigzag_rights_def distinct_map)
next
  fix right assume n: "odd n" "21 \<le> n" "right \<in> set (zigzag_rights n)"
  then have "1 \<le> right" using zigzag_rights_range by blast
  then show "distinct (zigzag_column n right)"
    unfolding zigzag_column_def by (intro distinct_concat_map) (auto simp: numeral_2_eq_2)
next
  fix x y assume n: "odd n" "21 \<le> n" and "x \<in> set (zigzag_rights n)" "y \<in> set (zigzag_rights n)" "x \<noteq> y"
  then show "set (zigzag_column n x) \<inter> set (zigzag_column n y) = {}"
    using zigzag_rights_apart [of x n y] by (force dest!: in_zigzag_column)
qed

lemma zigzag_range: "odd n \<Longrightarrow> 21 \<le> n \<Longrightarrow> p \<in> set (zigzag n) \<Longrightarrow> fst p < n \<and> snd p < n"
  unfolding zigzag_columns using zigzag_rights_range by (fastforce dest!: in_zigzag_column)

lemma place_fold:
  assumes "square n g" and "\<forall>p\<in>set ps. fst p < n \<and> snd p < n" and "distinct ps"
  shows "(let st = fold (\<lambda>(row, col) (g, k). if \<not> res row col \<and> k < bound then (set_cell row col (f k) g, k + 1) else (g, k)) ps (g, k);
              fr = filter (\<lambda>(row, col). \<not> res row col) ps
          in square n (fst st) \<and>
             (\<forall>j<length fr. k + j < bound \<longrightarrow> cell (fst st) (fst (fr ! j)) (snd (fr ! j)) = f (k + j)) \<and>
             (\<forall>r<n. \<forall>c<n. (r, c) \<notin> set fr \<longrightarrow> cell (fst st) r c = cell g r c))"
  using assms
proof (induction ps arbitrary: g k)
  case (Cons p ps)
  obtain row col where p: "p = (row, col)" by fastforce
  let ?g = "if \<not> res row col \<and> k < bound then set_cell row col (f k) g else g"
  let ?k = "if \<not> res row col \<and> k < bound then k + 1 else k"
  have rc: "row < n" "col < n" and new: "(row, col) \<notin> set ps" using Cons.prems by (auto simp: p)
  have sq: "square n ?g" using Cons.prems(1) by simp
  note IH = Cons.IH [OF sq, of ?k, unfolded Let_def]
  have cellg: "cell ?g r c = (if \<not> res row col \<and> k < bound \<and> r = row \<and> c = col then f k else cell g r c)"
    for r c using cell_set_cell [OF Cons.prems(1) rc] by simp
  show ?case
  proof (cases "\<not> res row col")
    case False
    then show ?thesis using IH Cons.prems by (auto simp: p Let_def)
  next
    case free: True
    show ?thesis
    proof (cases "k < bound")
      case False
      then show ?thesis using IH Cons.prems free by (auto simp: p Let_def)
    next
      case True
      let ?st = "fold (\<lambda>(row, col) (g, k). if \<not> res row col \<and> k < bound then (set_cell row col (f k) g, k + 1) else (g, k)) ps (set_cell row col (f k) g, k + 1)"
      let ?fr = "filter (\<lambda>(row, col). \<not> res row col) ps"
      have IH': "square n (fst ?st)"
        "\<And>j. j < length ?fr \<Longrightarrow> k + 1 + j < bound \<Longrightarrow> cell (fst ?st) (fst (?fr ! j)) (snd (?fr ! j)) = f (k + 1 + j)"
        "\<And>r c. r < n \<Longrightarrow> c < n \<Longrightarrow> (r, c) \<notin> set ?fr \<Longrightarrow> cell (fst ?st) r c = cell (set_cell row col (f k) g) r c"
        using Cons.IH [of "set_cell row col (f k) g" "k + 1"] Cons.prems by (auto simp: Let_def)
      have head: "cell (fst ?st) row col = f k"
        using IH'(3) [OF rc] new cell_set_cell [OF Cons.prems(1) rc] by simp
      have "cell (fst ?st) (fst (((row, col) # ?fr) ! j)) (snd (((row, col) # ?fr) ! j)) = f (k + j)"
        if "j < Suc (length ?fr)" "k + j < bound" for j
        using that head IH'(2) [of "j - 1"] by (cases j) auto
      moreover have "cell (fst ?st) r c = cell g r c" if "r < n" "c < n" "(r, c) \<noteq> (row, col)" "(r, c) \<notin> set ?fr" for r c
        using IH'(3) [OF that(1,2,4)] that(3) cell_set_cell [OF Cons.prems(1) rc] by auto
      ultimately show ?thesis using IH'(1) free True by (simp add: p Let_def)
    qed
  qed
qed (simp add: Let_def)

lemma free_range: "supported v \<Longrightarrow> p \<in> set (free v) \<Longrightarrow> fst p < side_of v \<and> snd p < side_of v \<and> \<not> function_module v p"
  using zigzag_range [of "side_of v" p] by (auto simp: free_def)

lemma distinct_free: "supported v \<Longrightarrow> distinct (free v)"
  using distinct_zigzag [of "side_of v"] by (simp add: free_def)

lemma patterned_ok: "canvas_ok (side_of v) (patterned v)"
  using fold_draw [OF new_canvas_ok [of v]] by (simp add: draw_function_patterns_def)

lemma patterned_reserved:
  assumes "supported v" "r < side_of v" "c < side_of v"
  shows "cell (reserved (patterned v)) r c \<longleftrightarrow> function_module v (r, c)"
proof -
  have dims: "cv_version (new_canvas v) = v" "cv_size (new_canvas v) = side_of v"
    by (simp_all add: new_canvas_def Let_def)
  have "\<not> cell (reserved (new_canvas v)) r c"
    using assms(2,3) by (simp add: new_canvas_def Let_def cell_def)
  then have "cell (reserved (patterned v)) r c \<longleftrightarrow> (int r, int c) \<in> coords (function_patterns v (int (side_of v)))"
    using fold_draw [OF new_canvas_ok [of v]] assms(2,3) by (simp add: draw_function_patterns_def dims)
  also have "\<dots> \<longleftrightarrow> function_module v (r, c)"
    using coords_patterns [of "int r" "int c" "side_of v" v] by (simp add: function_module_def list_ex_iff)
  finally show ?thesis .
qed

definition data_bit :: "nat list \<Rightarrow> nat \<Rightarrow> bool" where
  "data_bit cws j = bit (cws ! (j div 8)) (7 - j mod 8)"

lemma placed_bits:
  assumes v: "supported v" and len: "length cws = total_codewords v"
  shows "square (side_of v) (modules (draw_codewords cws (patterned v))) \<and>
    (\<forall>j<8 * total_codewords v. cell (modules (draw_codewords cws (patterned v))) (fst (free v ! j)) (snd (free v ! j)) = data_bit cws j)"
proof -
  let ?n = "side_of v"
  let ?res = "cell (reserved (patterned v))"
  note ok = patterned_ok [of v, unfolded canvas_ok_def]
  have n: "odd ?n" "21 \<le> ?n" using v by auto
  have free: "filter (\<lambda>(row, col). \<not> ?res row col) (zigzag ?n) = free v"
    unfolding free_def using patterned_reserved [OF v] zigzag_range [OF n] by (intro filter_cong) force+
  have rng: "\<forall>p\<in>set (zigzag ?n). fst p < ?n \<and> snd p < ?n" using zigzag_range [OF n] by blast
  have sq: "square ?n (modules (patterned v))" using ok by blast
  note pf = place_fold [OF sq rng distinct_zigzag [OF n], of ?res "length cws * 8" "data_bit cws" 0,
      unfolded Let_def free add_0]
  have "modules (draw_codewords cws (patterned v)) =
      fst (fold (\<lambda>(row, col) (g, k). if \<not> ?res row col \<and> k < length cws * 8
        then (set_cell row col (data_bit cws k) g, k + 1) else (g, k)) (zigzag ?n) (modules (patterned v), 0))"
    unfolding draw_codewords_def Let_def data_bit_def using ok by simp
  moreover have "j < length (free v)" if "j < 8 * total_codewords v" for j
    using that enough_modules [OF v] by linarith
  ultimately show ?thesis using pf len by (simp add: mult.commute)
qed

lemma apply_mask_cell:
  "r < cv_size cv \<Longrightarrow> c < cv_size cv \<Longrightarrow>
     cell (modules (apply_mask m cv)) r c =
       (if \<not> cell (reserved cv) r c \<and> mask_condition m r c then \<not> cell (modules cv) r c else cell (modules cv) r c)"
  by (simp add: apply_mask_def cell_def [of "map _ _"])

lemma square_apply_mask: "square (cv_size cv) (modules (apply_mask m cv))"
  by (auto simp: apply_mask_def square_def)

lemma fold_set_cells:
  assumes "square n g" and "\<forall>(r, c, i)\<in>set ps. r < n \<and> c < n" and "distinct (map (\<lambda>(r, c, i). (r, c)) ps)"
  shows "square n (fold (\<lambda>(r, c, i) g. set_cell r c (f i) g) ps g) \<and>
    (\<forall>(r, c, i)\<in>set ps. cell (fold (\<lambda>(r, c, i) g. set_cell r c (f i) g) ps g) r c = f i) \<and>
    (\<forall>r c. (r, c) \<notin> (\<lambda>(r, c, i). (r, c)) ` set ps \<longrightarrow>
       cell (fold (\<lambda>(r, c, i) g. set_cell r c (f i) g) ps g) r c = cell g r c)"
  using assms
proof (induction ps arbitrary: g)
  case (Cons p ps)
  obtain r0 c0 i0 where p: "p = (r0, c0, i0)" by (metis prod_cases3)
  let ?g = "set_cell r0 c0 (f i0) g"
  let ?g' = "fold (\<lambda>(r, c, i) g. set_cell r c (f i) g) ps ?g"
  have rc: "r0 < n" "c0 < n" and new: "(r0, c0) \<notin> (\<lambda>(r, c, i). (r, c)) ` set ps"
    using Cons.prems by (auto simp: p)
  note IH = Cons.IH [of ?g, OF square_set_cell [OF Cons.prems(1)]]
  have IH': "square n ?g'" "\<And>r c i. (r, c, i) \<in> set ps \<Longrightarrow> cell ?g' r c = f i"
    "\<And>r c. (r, c) \<notin> (\<lambda>(r, c, i). (r, c)) ` set ps \<Longrightarrow> cell ?g' r c = cell ?g r c"
    using IH Cons.prems(2,3) by (auto simp: p)
  have "cell ?g' r0 c0 = f i0"
    using IH'(3) [OF new] cell_set_cell [OF Cons.prems(1) rc] by simp
  then show ?case
    using IH' cell_set_cell [OF Cons.prems(1) rc] by (auto simp: p)
qed simp

lemma format_cells_range: "21 \<le> n \<Longrightarrow> (r, c, i) \<in> set (format_cells n) \<Longrightarrow> r < n \<and> c < n"
  by (auto simp: format_cells_def)

lemma format_cells_distinct: "21 \<le> n \<Longrightarrow> distinct (map (\<lambda>(r, c, i). (r, c)) (format_cells n))"
  by (auto simp: format_cells_def distinct_map inj_on_def)

lemma format_cells_reserved:
  "supported v \<Longrightarrow> (r, c, i) \<in> set (format_cells (side_of v)) \<Longrightarrow> function_module v (r, c)"
proof -
  assume v: "supported v" and rc: "(r, c, i) \<in> set (format_cells (side_of v))"
  let ?n = "int (side_of v)"
  have "\<exists>q\<in>{(8, 8, 0, 8), (0, 8, 8, 8), (8, 8, ?n - 8, ?n - 1), (?n - 8, ?n - 1, 8, 8)}. in_rect (int r) (int c) q"
    using rc v by (auto simp: format_cells_def in_rect_def)
  moreover have "{(8, 8, 0, 8), (0, 8, 8, 8), (8, 8, ?n - 8, ?n - 1), (?n - 8, ?n - 1, 8, 8)} \<subseteq> set (function_rects v (side_of v))"
    by (simp add: function_rects_def Let_def)
  ultimately show ?thesis unfolding function_module_def list_ex_iff fst_conv snd_conv by blast
qed

section \<open>A scanner\<close>

text \<open>
  What a reader does with a grid: version from the size, mask from the first copy of the format
  information, then the data modules in zigzag order, unmasked, back to blocks and payload.
\<close>

definition read_mask :: "grid \<Rightarrow> nat option" where
  "read_mask g = List.find (\<lambda>m. list_all (\<lambda>(r, c, i). cell g r c = bit (format_bits m) i) (take 15 (format_cells (length g)))) [0..<8]"

definition scan :: "grid \<Rightarrow> nat list option" where
  "scan g =
     (let v = (length g - 17) div 4
      in case read_mask g of
           None \<Rightarrow> None
         | Some m \<Rightarrow>
             (let bits = map (\<lambda>p. cell g (fst p) (snd p) \<noteq> mask_condition m (fst p) (snd p)) (take (8 * total_codewords v) (free v));
                  cws = bits_to_codewords (map of_bool bits)
              in read_payload v (concat (map fst (read_blocks v cws)))))"

lemma funpow_pred_numeral: "(f ^^ numeral n) x = f ((f ^^ pred_numeral n) x)"
  by (simp add: numeral_eq_Suc)

lemma format_bits_table:
  "map format_bits [0..<8] = [21522, 20773, 24188, 23371, 17913, 16590, 20375, 19104]"
proof -
  have "[0..<8] = [0, 1, 2, 3, 4, 5, 6, 7 :: nat]" by code_simp
  then show ?thesis by (simp add: format_bits_def Let_def funpow_pred_numeral)
qed

lemma format_bits_inj:
  assumes "m < 8" "m' < 8" and "\<forall>i<15. bit (format_bits m) i = bit (format_bits m') i"
  shows "m = m'"
proof -
  have tab: "format_bits k = [21522, 20773, 24188, 23371, 17913, 16590, 20375, 19104] ! k" if "k < 8" for k
    using arg_cong [OF format_bits_table, of "\<lambda>l. l ! k"] that by (simp add: nth_map del: upt_Suc)
  have small: "format_bits k < 2 ^ 15" if "k < 8" for k
  proof -
    have "format_bits k \<in> set (map format_bits [0..<8])" using that by (simp del: upt_Suc)
    then show ?thesis unfolding format_bits_table by auto
  qed
  have "take_bit 15 (format_bits m) = take_bit 15 (format_bits m')"
    using assms(3) by (intro bit_eqI) (auto simp: bit_take_bit_iff)
  then have eq: "format_bits m = format_bits m'" using small assms(1,2) by (simp add: take_bit_nat_eq_self)
  have "distinct (map format_bits [0..<8])" unfolding format_bits_table by simp
  then show ?thesis using eq assms(1,2) by (auto simp: distinct_map inj_on_def)
qed

lemma first_format_cells:
  "take 15 (format_cells n) =
     map (\<lambda>i. (i, 8, i)) [0..<6] @ [(7, 8, 6), (8, 8, 7), (8, 7, 8)] @ map (\<lambda>i. (8, 14 - i, i)) [9..<15]"
  by (simp add: format_cells_def)

lemma first_format_copy:
  assumes "i < 15" shows "\<exists>r c. (r, c, i) \<in> set (take 15 (format_cells n))"
proof -
  consider "i < 6" | "i = 6" | "i = 7" | "i = 8" | "9 \<le> i" by linarith
  then show ?thesis
  proof cases
    case 1
    then show ?thesis unfolding first_format_cells set_append set_map set_upt
      by (intro exI [of _ i] exI [of _ 8]) simp
  next
    case 5
    then show ?thesis using assms unfolding first_format_cells set_append set_map set_upt
      by (intro exI [of _ 8] exI [of _ "14 - i"]) (simp add: image_iff)
  qed (auto simp: first_format_cells)
qed

lemma read_mask_eq:
  assumes "m < 8" and "\<forall>(r, c, i)\<in>set (format_cells (length g)). cell g r c = bit (format_bits m) i"
  shows "read_mask g = Some m"
proof -
  let ?P = "\<lambda>m. list_all (\<lambda>(r, c, i). cell g r c = bit (format_bits m) i) (take 15 (format_cells (length g)))"
  have P: "?P m" using assms(2) by (auto simp: list_all_iff dest: in_set_takeD)
  have uniq: "m' = m" if "?P m'" "m' < 8" for m'
  proof (rule format_bits_inj [OF that(2) assms(1)], intro allI impI)
    fix i :: nat assume "i < 15"
    then obtain r c where "(r, c, i) \<in> set (take 15 (format_cells (length g)))" using first_format_copy by blast
    then show "bit (format_bits m') i = bit (format_bits m) i" using that(1) P by (fastforce simp: list_all_iff)
  qed
  have "List.find ?P [0..<8] = Some m"
  proof (cases "List.find ?P [0..<8]")
    case None
    have "m \<in> set [0..<8]" using assms(1) by (simp del: upt_Suc)
    with None P show ?thesis unfolding find_None_iff by blast
  next
    case (Some m')
    then have "?P m'" "m' < 8" using find_Some_D [OF Some] by simp_all
    then show ?thesis using uniq Some by blast
  qed
  then show ?thesis by (simp add: read_mask_def)
qed

lemma push_bits: "push c 8 = map (\<lambda>k. of_bool (bit c (7 - k))) [0..<8]"
proof -
  have "rev [0..<8] = map (\<lambda>k. 7 - k) [0..<8 :: nat]" by code_simp
  then show ?thesis by (simp add: push_def bit_iff_odd odd_iff_mod_2_eq_one o_def) 
qed

lemma data_bits: "map (\<lambda>j. of_bool (data_bit cws j)) [0..<8 * length cws] = to_bits cws"
proof (induction cws rule: rev_induct)
  case (snoc c cws)
  have "[0..<8 * length (cws @ [c])] = [0..<8 * length cws] @ map (\<lambda>k. k + 8 * length cws) [0..<8]"
  proof -
    have "8 * length (cws @ [c]) = 8 * length cws + 8" by simp
    moreover have "[0..<8 * length cws + 8] = [0..<8 * length cws] @ [8 * length cws..<8 * length cws + 8]"
      by (rule upt_add_eq_append) simp
    ultimately show ?thesis unfolding map_add_upt by (simp only: add.commute)
  qed
  moreover have "map (\<lambda>j. of_bool (data_bit (cws @ [c]) j) :: nat) [0..<8 * length cws] = map (\<lambda>j. of_bool (data_bit cws j)) [0..<8 * length cws]"
    by (intro map_cong refl) (simp add: data_bit_def nth_append less_mult_imp_div_less mult.commute)
  moreover have "map (\<lambda>j. of_bool (data_bit (cws @ [c]) j)) (map (\<lambda>k. k + 8 * length cws) [0..<8]) = push c 8"
    unfolding push_bits map_map o_def by (intro map_cong refl) (simp add: data_bit_def nth_append)
  ultimately show ?case using snoc.IH by (simp only: map_append concat_append) simp
qed simp

lemma candidate_cells:
  assumes v: "supported v" and len: "length cws = total_codewords v" and m: "m < 8"
  shows "length (modules (draw_candidate v cws m)) = side_of v \<and>
    read_mask (modules (draw_candidate v cws m)) = Some m \<and>
    (\<forall>j<8 * total_codewords v. let p = free v ! j in
       (cell (modules (draw_candidate v cws m)) (fst p) (snd p) \<noteq> mask_condition m (fst p) (snd p)) = data_bit cws j)"
proof -
  let ?n = "side_of v"
  let ?cv1 = "draw_codewords cws (patterned v)"
  let ?cv2 = "apply_mask m ?cv1"
  let ?g = "modules (draw_candidate v cws m)"
  note placed = placed_bits [OF v len]
  have size: "cv_size ?cv1 = ?n" "reserved ?cv1 = reserved (patterned v)" "cv_size ?cv2 = ?n"
    using patterned_ok [of v] by (simp_all add: draw_codewords_def apply_mask_def canvas_ok_def Let_def)
  have sq2: "square ?n (modules ?cv2)" using square_apply_mask [of ?cv1 m] size(1) by simp
  have n: "21 \<le> ?n" using v by simp
  have g: "?g = fold (\<lambda>(r, c, i) g. set_cell r c (bit (format_bits m) i) g) (format_cells ?n) (modules ?cv2)"
    by (simp add: draw_candidate_def draw_format_info_def size(3))
  have rng: "\<forall>(r, c, i)\<in>set (format_cells ?n). r < ?n \<and> c < ?n" using format_cells_range [OF n] by blast
  note fc = fold_set_cells [OF sq2 rng format_cells_distinct [OF n], of "bit (format_bits m)", folded g]
  have leng: "length ?g = ?n" using fc by (simp add: square_def)
  have "read_mask ?g = Some m" using fc leng by (intro read_mask_eq m) simp
  moreover have "(cell ?g r c \<noteq> mask_condition m r c) = data_bit cws j"
    if j: "j < 8 * total_codewords v" and p: "free v ! j = (r, c)" for j r c
  proof -
    have "j < length (free v)" using j enough_modules [OF v] by linarith
    then have "(r, c) \<in> set (free v)" using p by (metis nth_mem)
    then have rc: "r < ?n" "c < ?n" and nf: "\<not> function_module v (r, c)"
      using free_range [OF v, of "(r, c)"] by simp_all
    have "(r, c) \<notin> (\<lambda>(r, c, i). (r, c)) ` set (format_cells ?n)"
      using format_cells_reserved [OF v] nf by auto
    then have "cell ?g r c = cell (modules ?cv2) r c" using fc by blast
    also have "\<dots> = (if mask_condition m r c then \<not> cell (modules ?cv1) r c else cell (modules ?cv1) r c)"
      using apply_mask_cell [of r ?cv1 c m] rc nf patterned_reserved [OF v rc] by (simp add: size)
    also have "cell (modules ?cv1) r c = data_bit cws j" using placed j p by force
    finally show ?thesis by auto
  qed
  ultimately show ?thesis using leng by (auto simp: Let_def split_paired_all)
qed

lemma scan_candidate:
  assumes v: "supported v" and cws: "length cws = data_codewords v" "list_all byte cws" and m: "m < 8"
  shows "scan (modules (draw_candidate v (interleave cws v) m)) = read_payload v cws"
proof -
  let ?s = "interleave cws v"
  let ?g = "modules (draw_candidate v ?s m)"
  note il = interleave_read [OF v cws]
  have len: "length ?s = total_codewords v" using il by blast
  note cc = candidate_cells [OF v len m]
  have "map (\<lambda>p. cell ?g (fst p) (snd p) \<noteq> mask_condition m (fst p) (snd p)) (take (8 * total_codewords v) (free v)) =
      map (data_bit ?s) [0..<8 * total_codewords v]"
    using cc enough_modules [OF v] by (intro nth_equalityI) (simp_all add: Let_def)
  then have "map of_bool (map (\<lambda>p. cell ?g (fst p) (snd p) \<noteq> mask_condition m (fst p) (snd p)) (take (8 * total_codewords v) (free v))) = to_bits ?s"
    using data_bits [of ?s] by (simp add: len o_def)
  moreover have "bits_to_codewords (to_bits ?s) = ?s"
    by (rule bits_to_codewords_push [OF interleave_bytes [OF v cws]])
  moreover have "(length ?g - 17) div 4 = v" using cc by simp
  moreover have "concat (map fst (read_blocks v ?s)) = cws" using il by (simp add: o_def)
  moreover have "read_mask ?g = Some m" using cc by blast
  ultimately show ?thesis unfolding scan_def Let_def by (simp only: option.case)
qed

section \<open>The choice of the mask\<close>

lemma finder_like_nonneg: "0 \<le> finder_like h"
  by (simp add: finder_like_def Let_def)

lemma line_penalty_ge: "score \<le> line_penalty n cells dark len h score"
proof (induction n cells dark len h score rule: line_penalty.induct)
  case (1 n dark len h score)
  then show ?case using finder_like_nonneg by (simp add: finish_run_def case_prod_beta Let_def)
next
  case (2 n c cells dark len h score)
  show ?case
  proof (cases "c = dark")
    case True
    then show ?thesis using 2(1) [OF True refl] by (auto simp: Let_def split: if_splits)
  next
    case False
    then show ?thesis using 2(2) [OF False refl] finder_like_nonneg [of "push_run h len n"]
      by (auto simp: Let_def split: if_splits)
  qed
qed

lemma penalty_nonneg: "odd (length g) \<Longrightarrow> 0 \<le> penalty g"
proof -
  assume odd: "odd (length g)"
  let ?n = "length g"
  define d where "d = int (length (filter id (concat g)))"
  define t where "t = int (?n * ?n)"
  have "odd t" using odd by (simp add: t_def)
  then have "d * 20 \<noteq> t * 10" by presburger
  moreover have "0 < t"
  proof -
    have "t \<noteq> 0" using \<open>odd t\<close> by auto
    moreover have "0 \<le> t" by (simp add: t_def)
    ultimately show ?thesis by linarith
  qed
  ultimately have "t \<le> \<bar>d * 20 - t * 10\<bar> + t - 1" by linarith
  then have "1 \<le> (\<bar>d * 20 - t * 10\<bar> + t - 1) div t"
    using \<open>0 < t\<close> by (metis div_self less_irrefl zdiv_mono1)
  moreover have "0 \<le> (\<Sum>outer \<leftarrow> [0..<?n]. line_penalty ?n (g ! outer) False 0 (replicate 7 0) 0 +
      line_penalty ?n (column g outer) False 0 (replicate 7 0) 0)"
    using line_penalty_ge [of 0] by (intro sum_list_nonneg) (auto intro!: add_nonneg_nonneg simp del: replicate.simps)
  moreover have "0 \<le> (\<Sum>row \<leftarrow> [0..<?n - 1]. \<Sum>col \<leftarrow> [0..<?n - 1].
      if cell g row col = cell g row (col + 1) \<and> cell g row (col + 1) = cell g (row + 1) col \<and>
         cell g (row + 1) col = cell g (row + 1) (col + 1) then 3 else (0 :: int))"
    by (intro sum_list_nonneg) (auto intro!: sum_list_nonneg)
  ultimately show ?thesis unfolding penalty_def Let_def d_def [symmetric] t_def [symmetric]
    by (intro add_nonneg_nonneg) simp_all
qed

abbreviation candidate :: "nat \<Rightarrow> nat list \<Rightarrow> nat \<Rightarrow> grid" where
  "candidate v cws m \<equiv> modules (draw_candidate v cws m)"

lemma best_candidate_fold:
  assumes "\<forall>m\<in>set ms. 0 \<le> penalty (candidate v cws m)" and "sorted ms" "distinct ms" and "ms \<noteq> []"
  shows "case best_candidate v cws ms of (s, b, g) \<Rightarrow>
      b \<in> set ms \<and> s = penalty (candidate v cws b) \<and> g = candidate v cws b \<and>
      (\<forall>m\<in>set ms. s \<le> penalty (candidate v cws m) \<and> (m < b \<longrightarrow> s < penalty (candidate v cws m)))"
  using assms
proof (induction ms rule: rev_induct)
  case (snoc m ms)
  obtain s b g where st: "best_candidate v cws ms = (s, b, g)" by (metis prod_cases3)
  have step: "best_candidate v cws (ms @ [m]) =
      (let g' = candidate v cws m in if s < 0 \<or> penalty g' < s then (penalty g', m, g') else (s, b, g))"
    using st by (simp add: best_candidate_def Let_def)
  show ?case
  proof (cases "ms = []")
    case True
    then show ?thesis by (simp add: best_candidate_def Let_def)
  next
    case False
    have IH: "b \<in> set ms" "s = penalty (candidate v cws b)" "g = candidate v cws b"
      "\<forall>m\<in>set ms. s \<le> penalty (candidate v cws m) \<and> (m < b \<longrightarrow> s < penalty (candidate v cws m))"
    proof -
      have "case best_candidate v cws ms of (s, b, g) \<Rightarrow>
          b \<in> set ms \<and> s = penalty (candidate v cws b) \<and> g = candidate v cws b \<and>
          (\<forall>m\<in>set ms. s \<le> penalty (candidate v cws m) \<and> (m < b \<longrightarrow> s < penalty (candidate v cws m)))"
        using snoc.prems False by (intro snoc.IH) (simp_all add: sorted_append)
      then show "b \<in> set ms" "s = penalty (candidate v cws b)" "g = candidate v cws b"
        "\<forall>m\<in>set ms. s \<le> penalty (candidate v cws m) \<and> (m < b \<longrightarrow> s < penalty (candidate v cws m))"
        unfolding st prod.case by blast+
    qed
    have "0 \<le> s" using IH(1,2) snoc.prems(1) by simp
    moreover have "b \<le> m" "b \<noteq> m" using snoc.prems(2,3) IH(1) by (auto simp: sorted_append)
    then have "b < m" by simp
    ultimately show ?thesis unfolding step using IH by (auto simp: Let_def)
  qed
qed simp

text \<open>Every successful encoding is the grid of one allowed mask for the chosen version.\<close>

lemma encode_split:
  assumes "encode payload lo hi msk = Inr q" and "list_all byte payload"
  shows "\<exists>v cws. choose_version (length payload) lo hi = Inr v \<and> supported v \<and> q_version q = v \<and>
    length payload \<le> capacity_bytes v \<and> cws = bits_to_codewords (bit_stream payload v) \<and>
    length cws = data_codewords v \<and> list_all byte cws \<and> q_mask q < 8 \<and>
    q_modules q = candidate v (interleave cws v) (q_mask q) \<and>
    (case msk of Some m \<Rightarrow> q_mask q = m
     | None \<Rightarrow> \<forall>m<8. penalty (q_modules q) \<le> penalty (candidate v (interleave cws v) m) \<and>
         (m < q_mask q \<longrightarrow> penalty (q_modules q) < penalty (candidate v (interleave cws v) m)))"
proof -
  from assms(1) obtain v where v: "choose_version (length payload) lo hi = Inr v" and m7: "msk = None \<or> the msk \<le> 7"
    by (auto simp: encode_def not_less split: if_splits sum.splits)
  from v have "supported v" and cap: "length payload \<le> capacity_bytes v"
    using find_Some_D by (fastforce simp: choose_version_def MIN_VERSION_def MAX_VERSION_def simp del: upt_Suc split: option.splits if_splits)+
  let ?cws = "bits_to_codewords (bit_stream payload v)"
  note st = stream_codewords [OF \<open>supported v\<close> cap assms(2)]
  let ?ms = "case msk of None \<Rightarrow> [0..<8] | Some m \<Rightarrow> [m]"
  obtain s b g where bc: "best_candidate v (interleave ?cws v) ?ms = (s, b, g)" by (metis prod_cases3)
  then have q: "q_version q = v" "q_mask q = b" "q_modules q = g"
    using assms(1) v m7 by (auto simp: encode_def Let_def)
  have ms8: "\<forall>m\<in>set ?ms. m < 8" using m7 by (auto split: option.splits)
  have len: "length (interleave ?cws v) = total_codewords v"
    using interleave_read [OF \<open>supported v\<close>, of ?cws] st by blast
  have "odd (length (candidate v (interleave ?cws v) m))" if "m < 8" for m
    using candidate_cells [OF \<open>supported v\<close> len that] by simp
  then have "\<forall>m\<in>set ?ms. 0 \<le> penalty (candidate v (interleave ?cws v) m)"
    using ms8 penalty_nonneg by blast
  from best_candidate_fold [OF this] bc
  have best: "b \<in> set ?ms" "s = penalty (candidate v (interleave ?cws v) b)" "g = candidate v (interleave ?cws v) b"
    "\<forall>m\<in>set ?ms. s \<le> penalty (candidate v (interleave ?cws v) m) \<and> (m < b \<longrightarrow> s < penalty (candidate v (interleave ?cws v) m))"
    by (cases msk; simp del: upt_Suc)+
  then have "q_mask q < 8" using ms8 q by blast
  moreover have "case msk of Some m \<Rightarrow> q_mask q = m
     | None \<Rightarrow> \<forall>m<8. penalty (q_modules q) \<le> penalty (candidate v (interleave ?cws v) m) \<and>
         (m < q_mask q \<longrightarrow> penalty (q_modules q) < penalty (candidate v (interleave ?cws v) m))"
    using best q by (cases msk) (simp_all del: upt_Suc)
  ultimately show ?thesis using v \<open>supported v\<close> cap st q best(3) by blast
qed

text \<open>
  C10. What is encoded can be scanned: whatever the payload bytes, the allowed versions and a
  forced mask, if \<open>encode\<close> returns a code then a reader of the finished grid gets the payload.
\<close>

theorem encode_scan_roundtrip:
  assumes "encode payload lo hi msk = Inr q" and "list_all byte payload"
  shows "scan (q_modules q) = Some payload"
proof -
  from encode_split [OF assms] obtain v where v: "supported v" "length payload \<le> capacity_bytes v"
    and cws: "length (bits_to_codewords (bit_stream payload v)) = data_codewords v" "list_all byte (bits_to_codewords (bit_stream payload v))"
    and m: "q_mask q < 8" and g: "q_modules q = candidate v (interleave (bits_to_codewords (bit_stream payload v)) v) (q_mask q)"
    by blast
  show ?thesis
    unfolding g scan_candidate [OF v(1) cws m] using stream_codewords [OF v assms(2)] by blast
qed

lemma encode_hs1: "\<exists>q. encode [104, 115, 49] 1 10 msk = Inr q" if "msk = None \<or> msk = Some 3"
proof -
  have "choose_version (length [104, 115, 49 :: nat]) 1 10 = Inr 1" by code_simp
  then show ?thesis using that by (auto simp: encode_def Let_def case_prod_beta)
qed

lemma encode_scan_roundtrip_witness:
  "\<exists>q. encode [104, 115, 49] 1 10 None = Inr q \<and> scan (q_modules q) = Some [104, 115, 49]"
proof -
  obtain q where "encode [104, 115, 49] 1 10 None = Inr q" using encode_hs1 by blast
  moreover from encode_scan_roundtrip [OF this] have "scan (q_modules q) = Some [104, 115, 49]" by simp
  ultimately show ?thesis by blast
qed

text \<open>
  The mask is the forced one, or the one with the smallest penalty of the eight, the lowest
  index on a tie; it is the mask a reader finds in the format information, and the grid has the
  size of the version.
\<close>

theorem encode_mask_choice:
  assumes "encode payload lo hi msk = Inr q" and "list_all byte payload"
  shows "read_mask (q_modules q) = Some (q_mask q) \<and> length (q_modules q) = 4 * q_version q + 17 \<and>
    (case msk of Some m \<Rightarrow> q_mask q = m
     | None \<Rightarrow>
        (let g = candidate (q_version q) (interleave (bits_to_codewords (bit_stream payload (q_version q))) (q_version q))
         in \<forall>m<8. penalty (q_modules q) \<le> penalty (g m) \<and> (m < q_mask q \<longrightarrow> penalty (q_modules q) < penalty (g m))))"
proof -
  from encode_split [OF assms] obtain v where v: "supported v" "q_version q = v"
    and cws: "length (bits_to_codewords (bit_stream payload v)) = data_codewords v" "list_all byte (bits_to_codewords (bit_stream payload v))"
    and m: "q_mask q < 8" and g: "q_modules q = candidate v (interleave (bits_to_codewords (bit_stream payload v)) v) (q_mask q)"
    and best: "case msk of Some m \<Rightarrow> q_mask q = m
     | None \<Rightarrow> \<forall>m<8. penalty (q_modules q) \<le> penalty (candidate v (interleave (bits_to_codewords (bit_stream payload v)) v) m) \<and>
         (m < q_mask q \<longrightarrow> penalty (q_modules q) < penalty (candidate v (interleave (bits_to_codewords (bit_stream payload v)) v) m))"
    by blast
  have "length (interleave (bits_to_codewords (bit_stream payload v)) v) = total_codewords v"
    using interleave_read [OF v(1) cws] by blast
  from candidate_cells [OF v(1) this m] show ?thesis
    using best unfolding v(2) Let_def g [symmetric] by (simp add: mult.commute)
qed

lemma encode_mask_choice_witness:
  "\<exists>q. encode [104, 115, 49] 1 10 (Some 3) = Inr q \<and> q_mask q = 3 \<and> read_mask (q_modules q) = Some 3"
proof -
  obtain q where "encode [104, 115, 49] 1 10 (Some 3) = Inr q" using encode_hs1 by blast
  moreover from encode_mask_choice [OF this] have "q_mask q = 3 \<and> read_mask (q_modules q) = Some 3" by simp
  ultimately show ?thesis by blast
qed

end
