(* ===== verification/Job_Scheduler.thy ===== *)
theory Job_Scheduler
  imports Soc_Prelude
begin

text \<open>
  The job scheduler (\<open>homesoc/scheduler.py\<close>): the timetable, the queue of \<open>run_now\<close>
  requests, the per-job lock, the counters, the watchdog and the persisted job table.

  Clock readings (\<open>time.time()\<close>, \<open>time.monotonic()\<close>) are whole microseconds as \<open>int\<close>, the
  resolution of \<open>datetime\<close>; the job's function is external, so a finished run carries its
  error text (\<open>None\<close> when it returned). The local time zone is the argument \<open>tz\<close>, the offset
  from UTC in force at an instant. Threads are interleaved at the code's atomic steps: the
  worker loop's poll, the start and end of a run, the \<open>done.set()\<close> after it, and the calls
  of \<open>start\<close>, \<open>stop\<close>, \<open>run_now\<close> and the watchdog.
\<close>

named_theorems sched_simps "effects of the scheduler's operations on its parts"

definition FAILING_REPEATEDLY :: nat where "FAILING_REPEATEDLY = 3"

text \<open>One second, one hour and one day of clock readings.\<close>

abbreviation US :: int where "US \<equiv> 1000000"
abbreviation HOUR :: int where "HOUR \<equiv> 3600000000"
abbreviation DAY :: int where "DAY \<equiv> 86400000000"

definition JOB_OVERRUN_SEC :: int where "JOB_OVERRUN_SEC = 30 * 60"

section \<open>Jobs and their state\<close>

record job =
  j_name :: str
  j_interval_sec :: int
  j_run_at_start :: bool
  j_at_hour :: "int option"
  j_description :: str
  j_budget_sec :: "int option"

definition overrun_after :: "job \<Rightarrow> int" where
  "overrun_after job = (case j_budget_sec job of None \<Rightarrow> JOB_OVERRUN_SEC | Some b \<Rightarrow> max 0 b)"

definition manual_only :: "job \<Rightarrow> bool" where
  "manual_only job \<longleftrightarrow> j_interval_sec job \<le> 0 \<and> j_at_hour job = None"

record job_state =
  locked :: bool
  next_run :: "int option"
  running :: bool
  queued :: bool
  runs :: nat
  failures :: nat
  consecutive_failures :: nat
  last_run :: "int option"
  last_status :: "str option"
  last_duration :: "int option"
  last_error :: "str option"
  started_mono :: "int option"
  overrun_reported :: bool

definition fresh_state :: job_state where
  "fresh_state = \<lparr>locked = False, next_run = None, running = False, queued = False, runs = 0, failures = 0,
     consecutive_failures = 0, last_run = None, last_status = None, last_duration = None,
     last_error = None, started_mono = None, overrun_reported = False\<rparr>"

text \<open>A row of the \<open>jobs\<close> table.\<close>

record job_row =
  jr_last_run :: "int option"
  jr_last_status :: "str option"
  jr_last_duration :: "int option"
  jr_next_run :: "int option"
  jr_runs :: nat
  jr_failures :: nat
  jr_last_error :: "str option"

datatype sched_event =
    JobDone str str int "str option"
  | Overrun str int int nat "str list"

text \<open>
  What a thread is doing: waiting for work, inside a job's function (with the clock reading at
  its start), or about to wake the callers waiting for the job. An inline run is a caller of
  \<open>run_now\<close> executing the job itself.
\<close>

datatype thread_pc = Polling | Running str int | Signalling str | InlineRun str int

record sched =
  sc_jobs :: "(str, job) dict"
  sc_states :: "(str, job_state) dict"
  sc_queue :: "str list"
  sc_stop :: bool
  sc_handle :: "nat option"
  sc_threads :: "(nat, thread_pc) dict"
  sc_next_tid :: nat
  sc_done :: "(str, bool) dict"
  sc_rows :: "(str, job_row) dict"
  sc_events :: "sched_event list"
  sc_metrics :: "(str \<times> str \<times> int) list"

definition state_of :: "sched \<Rightarrow> str \<Rightarrow> job_state" where
  "state_of s n = (case dget (sc_states s) n of Some st \<Rightarrow> st | None \<Rightarrow> fresh_state)"

definition put_state :: "str \<Rightarrow> job_state \<Rightarrow> sched \<Rightarrow> sched" where
  "put_state n st s = s\<lparr>sc_states := dset n st (sc_states s)\<rparr>"

section \<open>The timetable\<close>

definition next_local_hour :: "(int \<Rightarrow> int) \<Rightarrow> int \<Rightarrow> int \<Rightarrow> int" where
  "next_local_hour tz h now =
     (let hr = max 0 (min 23 h);
          local = now + tz now;
          target = local div DAY * DAY + hr * HOUR
      in (if target \<le> local then target + DAY else target) - tz now)"

definition initial_next_run :: "(int \<Rightarrow> int) \<Rightarrow> job \<Rightarrow> int \<Rightarrow> int option" where
  "initial_next_run tz job now =
     (if manual_only job then None
      else case j_at_hour job of
        Some h \<Rightarrow> Some (next_local_hour tz h now)
      | None \<Rightarrow> Some (if j_run_at_start job then now else now + j_interval_sec job * US))"

definition next_after_run :: "(int \<Rightarrow> int) \<Rightarrow> job \<Rightarrow> int \<Rightarrow> int option" where
  "next_after_run tz job now =
     (if manual_only job then None
      else case j_at_hour job of
        Some h \<Rightarrow> Some (next_local_hour tz h now)
      | None \<Rightarrow> Some (now + j_interval_sec job * US))"

text \<open>\<open>round(x, digits)\<close> of a number of microseconds: to the nearest multiple of \<open>d\<close>, ties to even.\<close>

definition round_to :: "int \<Rightarrow> int \<Rightarrow> int" where
  "round_to d x =
     (let q = x div d; r = x mod d
      in d * (if 2 * r < d then q else if d < 2 * r then q + 1 else if even q then q else q + 1))"

section \<open>Construction and the job table\<close>

text \<open>\<open>datetime.fromtimestamp\<close> and \<open>to_iso\<close> keep whole seconds.\<close>

definition epoch_iso :: "int option \<Rightarrow> int option" where
  "epoch_iso e = map_option (\<lambda>t. t div US) e"

definition persist :: "str \<Rightarrow> sched \<Rightarrow> sched" where
  "persist n s =
     (let st = state_of s n
      in s\<lparr>sc_rows := dset n
           \<lparr>jr_last_run = last_run st, jr_last_status = last_status st, jr_last_duration = last_duration st,
            jr_next_run = epoch_iso (next_run st), jr_runs = runs st, jr_failures = failures st,
            jr_last_error = last_error st\<rparr> (sc_rows s)\<rparr>)"

definition load_row :: "str \<times> job_row \<Rightarrow> (str, job_state) dict \<Rightarrow> (str, job_state) dict" where
  "load_row = (\<lambda>(n, row) states. case dget states n of
       None \<Rightarrow> states
     | Some st \<Rightarrow> dset n (st\<lparr>runs := jr_runs row, failures := jr_failures row, last_run := jr_last_run row,
         last_status := jr_last_status row, last_duration := jr_last_duration row,
         last_error := jr_last_error row\<rparr>) states)"

definition load_history :: "sched \<Rightarrow> sched" where
  "load_history s = s\<lparr>sc_states := fold load_row (sc_rows s) (sc_states s)\<rparr>"

fun add_jobs :: "job list \<Rightarrow> (str, job) dict \<times> (str, job_state) dict \<Rightarrow>
    str + ((str, job) dict \<times> (str, job_state) dict)" where
  "add_jobs [] (js, sts) = Inr (js, sts)"
| "add_jobs (job # rest) (js, sts) =
     (if dget js (j_name job) \<noteq> None then Inl (j_name job)
      else add_jobs rest (dset (j_name job) job js, dset (j_name job) fresh_state sts))"

text \<open>\<open>Inl n\<close> is the \<open>ValueError\<close> for a duplicate job name.\<close>

definition new_scheduler :: "job list \<Rightarrow> (str, job_row) dict \<Rightarrow> str + sched" where
  "new_scheduler job_list rows = (case add_jobs job_list ([], []) of
       Inl n \<Rightarrow> Inl n
     | Inr (js, sts) \<Rightarrow> Inr (load_history
         \<lparr>sc_jobs = js, sc_states = sts, sc_queue = [], sc_stop = False, sc_handle = None, sc_threads = [],
          sc_next_tid = 0, sc_done = [], sc_rows = rows, sc_events = [], sc_metrics = []\<rparr>))"

section \<open>Starting and stopping\<close>

text \<open>\<open>Scheduler.running\<close>: the handle refers to a live thread.\<close>

definition is_alive :: "sched \<Rightarrow> bool" where
  "is_alive s = (case sc_handle s of None \<Rightarrow> False | Some t \<Rightarrow> dget (sc_threads s) t \<noteq> None)"

definition schedule_job :: "(int \<Rightarrow> int) \<Rightarrow> int \<Rightarrow> str \<times> job \<Rightarrow> sched \<Rightarrow> sched" where
  "schedule_job tz now = (\<lambda>(n, job) s.
     persist n (put_state n ((state_of s n)\<lparr>next_run := initial_next_run tz job now\<rparr>) s))"

definition spawn :: "thread_pc \<Rightarrow> sched \<Rightarrow> sched" where
  "spawn pc s = s\<lparr>sc_threads := dset (sc_next_tid s) pc (sc_threads s), sc_next_tid := Suc (sc_next_tid s)\<rparr>"

definition start :: "(int \<Rightarrow> int) \<Rightarrow> int \<Rightarrow> sched \<Rightarrow> sched" where
  "start tz now s =
     (if is_alive s then s
      else let s1 = fold (schedule_job tz now) (sc_jobs s) (s\<lparr>sc_stop := False\<rparr>)
           in spawn Polling (s1\<lparr>sc_handle := Some (sc_next_tid s1)\<rparr>))"

text \<open>
  \<open>stop\<close> sets the flag and wakes the threads; when its \<open>join\<close> returns or times out it forgets
  the thread, whether or not that thread is still alive.
\<close>

definition stop_signal :: "sched \<Rightarrow> sched" where
  "stop_signal s = s\<lparr>sc_stop := True\<rparr>"

definition stop_joined :: "sched \<Rightarrow> sched" where
  "stop_joined s = s\<lparr>sc_handle := None\<rparr>"

section \<open>One run\<close>

text \<open>\<open>_execute\<close> up to the call of the job's function; \<open>None\<close> when the lock is taken.\<close>

definition begin_run :: "str \<Rightarrow> int \<Rightarrow> int \<Rightarrow> sched \<Rightarrow> sched option" where
  "begin_run n mn now s =
     (let st = state_of s n
      in if locked st then None
         else Some (put_state n (st\<lparr>locked := True, running := True, started_mono := Some mn,
           overrun_reported := False, last_run := Some (now div US)\<rparr>) s))"

text \<open>
  The database writes of \<open>_record\<close>, in order; \<open>sqlite3.Error\<close> ends them, so only the first
  \<open>k\<close> happen.
\<close>

definition record_job :: "str \<Rightarrow> str \<Rightarrow> int \<Rightarrow> str option \<Rightarrow> nat \<Rightarrow> sched \<Rightarrow> sched" where
  "record_job n status duration err k s = fold (\<lambda>w. w) (take k
     [persist n,
      \<lambda>s. s\<lparr>sc_metrics := sc_metrics s @ [(n, status, duration)]\<rparr>,
      \<lambda>s. s\<lparr>sc_events := sc_events s @ [JobDone n status (round_to 1000 duration) err]\<rparr>]) s"

text \<open>The \<open>finally\<close> block of \<open>_execute\<close>: counters, timetable, lock, record.\<close>

definition end_state :: "(int \<Rightarrow> int) \<Rightarrow> job \<Rightarrow> int \<Rightarrow> str option \<Rightarrow> int \<Rightarrow> job_state \<Rightarrow> job_state" where
  "end_state tz job started err now st =
     st\<lparr>running := False, started_mono := None, runs := runs st + 1,
        last_status := Some (if err = None then ''ok'' else ''error''),
        last_duration := Some (round_to 1000 (now - started)), last_error := err,
        failures := (if err = None then failures st else failures st + 1),
        consecutive_failures := (if err = None then 0 else consecutive_failures st + 1),
        next_run := next_after_run tz job now, locked := False\<rparr>"

definition end_run :: "(int \<Rightarrow> int) \<Rightarrow> str \<Rightarrow> int \<Rightarrow> str option \<Rightarrow> int \<Rightarrow> nat \<Rightarrow> sched \<Rightarrow> sched" where
  "end_run tz n started err now k s = (case dget (sc_jobs s) n of
       None \<Rightarrow> s
     | Some job \<Rightarrow> record_job n (if err = None then ''ok'' else ''error'') (now - started)
         (map_option (take 2000) err) k
         (put_state n (end_state tz job started (map_option (take 2000) err) now (state_of s n)) s))"

section \<open>The worker loop\<close>

text \<open>The scan of \<open>_next_job\<close> for the earliest \<open>next_run\<close>; the first of equals wins.\<close>

definition sooner :: "str \<times> job_state \<Rightarrow> (int \<times> str) option \<Rightarrow> (int \<times> str) option" where
  "sooner = (\<lambda>(n, st) best. case next_run st of
       None \<Rightarrow> best
     | Some t \<Rightarrow> (case best of None \<Rightarrow> Some (t, n) | Some (t', _) \<Rightarrow> if t < t' then Some (t, n) else best))"

definition soonest :: "(str, job_state) dict \<Rightarrow> (int \<times> str) option" where
  "soonest states = fold sooner states None"

datatype poll_result = Take str | Sleep int

text \<open>One turn of the loop of \<open>_next_job\<close>.\<close>

definition next_job :: "int \<Rightarrow> sched \<Rightarrow> poll_result \<times> sched" where
  "next_job now s = (case sc_queue s of
       n # q \<Rightarrow> (Take n, put_state n ((state_of s n)\<lparr>queued := False\<rparr>) (s\<lparr>sc_queue := q\<rparr>))
     | [] \<Rightarrow> (case soonest (sc_states s) of
           None \<Rightarrow> (Sleep US, s)
         | Some (t, n) \<Rightarrow> if t \<le> now then (Take n, s) else (Sleep (max 50000 (min US (t - now))), s)))"

definition set_thread :: "nat \<Rightarrow> thread_pc \<Rightarrow> sched \<Rightarrow> sched" where
  "set_thread t pc s = s\<lparr>sc_threads := dset t pc (sc_threads s)\<rparr>"

text \<open>
  A turn of \<open>_loop\<close> up to the call of the job's function: the thread ends when \<open>stop\<close> was
  signalled; a job whose lock is taken is skipped and its waiters are woken all the same.
\<close>

definition poll :: "nat \<Rightarrow> int \<Rightarrow> int \<Rightarrow> sched \<Rightarrow> sched" where
  "poll t mn now s =
     (if sc_stop s then s\<lparr>sc_threads := ddel t (sc_threads s)\<rparr>
      else case next_job now s of
        (Sleep w, s1) \<Rightarrow> s1
      | (Take n, s1) \<Rightarrow> (case begin_run n mn now s1 of
            None \<Rightarrow> set_thread t (Signalling n) s1
          | Some s2 \<Rightarrow> set_thread t (Running n now) s2))"

definition signal :: "nat \<Rightarrow> str \<Rightarrow> sched \<Rightarrow> sched" where
  "signal t n s = set_thread t Polling
     (case dget (sc_done s) n of None \<Rightarrow> s | Some _ \<Rightarrow> s\<lparr>sc_done := dset n True (sc_done s)\<rparr>)"

section \<open>Requests\<close>

datatype request_result = Refused | Queued | RanInline

definition run_now :: "str \<Rightarrow> int \<Rightarrow> int \<Rightarrow> sched \<Rightarrow> request_result \<times> sched" where
  "run_now n mn now s = (case dget (sc_jobs s) n of
       None \<Rightarrow> (Refused, s)
     | Some job \<Rightarrow>
         if \<not> is_alive s then
           (if running (state_of s n) then (Refused, s)
            else case begin_run n mn now s of
              None \<Rightarrow> (Refused, s)
            | Some s1 \<Rightarrow> (RanInline, spawn (InlineRun n now) s1))
         else if running (state_of s n) \<or> queued (state_of s n) then (Refused, s)
         else (Queued, (put_state n ((state_of s n)\<lparr>queued := True\<rparr>) s)
                 \<lparr>sc_queue := sc_queue s @ [n], sc_done := dset n False (sc_done s)\<rparr>))"

definition is_running :: "str \<Rightarrow> sched \<Rightarrow> bool" where
  "is_running n s = (case dget (sc_states s) n of None \<Rightarrow> False | Some st \<Rightarrow> running st)"

section \<open>The watchdog and the status report\<close>

definition running_for :: "int \<Rightarrow> job_state \<Rightarrow> int option" where
  "running_for mn st = (if \<not> running st then None
     else map_option (\<lambda>m. round_to 100000 (mn - m)) (started_mono st))"

definition is_overrunning :: "int \<Rightarrow> job \<Rightarrow> job_state \<Rightarrow> bool" where
  "is_overrunning mn job st = (case running_for mn st of
     None \<Rightarrow> False | Some e \<Rightarrow> overrun_after job * US < e)"

definition waiting_jobs :: "str \<Rightarrow> int \<Rightarrow> sched \<Rightarrow> str list" where
  "waiting_jobs n now s = map fst (filter (\<lambda>(m, st). m \<noteq> n \<and>
     (case next_run st of None \<Rightarrow> False | Some t \<Rightarrow> t \<le> now)) (sc_states s))"

definition check_overrun :: "int \<Rightarrow> int \<Rightarrow> str \<times> job \<Rightarrow> str list \<times> sched \<Rightarrow> str list \<times> sched" where
  "check_overrun mn now = (\<lambda>(n, job) (reported, s).
     (let st = state_of s n
      in if overrun_reported st \<or> \<not> is_overrunning mn job st then (reported, s)
         else let s1 = put_state n (st\<lparr>overrun_reported := True\<rparr>) s;
                  minutes = (case running_for mn st of None \<Rightarrow> 0 | Some e \<Rightarrow> e div (60 * US))
              in (reported @ [n],
                  s1\<lparr>sc_events := sc_events s1 @ [Overrun n minutes (overrun_after job div 60)
                     (length (waiting_jobs n now s1)) (take 20 (waiting_jobs n now s1))]\<rparr>)))"

definition check_overruns :: "int \<Rightarrow> int \<Rightarrow> sched \<Rightarrow> str list \<times> sched" where
  "check_overruns mn now s = fold (check_overrun mn now) (sc_jobs s) ([], s)"

record job_status =
  js_name :: str
  js_job :: job
  js_state :: job_state
  js_manual_only :: bool
  js_failing_repeatedly :: bool
  js_running_for :: "int option"
  js_overrunning :: bool

definition status :: "int \<Rightarrow> sched \<Rightarrow> job_status list" where
  "status mn s = map (\<lambda>(n, job). let st = state_of s n in
     \<lparr>js_name = n, js_job = job, js_state = st, js_manual_only = manual_only job,
      js_failing_repeatedly = (FAILING_REPEATEDLY \<le> consecutive_failures st),
      js_running_for = running_for mn st, js_overrunning = is_overrunning mn job st\<rparr>) (sc_jobs s)"

definition failing_jobs :: "int \<Rightarrow> sched \<Rightarrow> job_status list" where
  "failing_jobs mn s = filter js_failing_repeatedly (status mn s)"

end
