(* ===== verification/Sched_Runs.thy ===== *)
theory Sched_Runs
  imports Job_Scheduler
begin

text \<open>
  The scheduler as a system of threads: the step relation over the operations of
  \<open>Job_Scheduler\<close>, what holds in every reachable state, and that a due job gets its run.
\<close>

section \<open>Reading the state\<close>

lemma state_of_put_state [simp, sched_simps]:
  "state_of (put_state n st s) m = (if m = n then st else state_of s m)"
  by (simp add: state_of_def put_state_def)

lemma put_state_fields [simp, sched_simps]:
  "sc_jobs (put_state n st s) = sc_jobs s" "sc_queue (put_state n st s) = sc_queue s"
  "sc_threads (put_state n st s) = sc_threads s" "sc_next_tid (put_state n st s) = sc_next_tid s"
  "sc_stop (put_state n st s) = sc_stop s" "sc_states (put_state n st s) = dset n st (sc_states s)"
  "sc_handle (put_state n st s) = sc_handle s"
  by (simp_all add: put_state_def)

lemma state_of_cong [sched_simps]: "sc_states s' = sc_states s \<Longrightarrow> state_of s' = state_of s"
  by (rule ext) (simp add: state_of_def)

lemma persist_fields [simp, sched_simps]:
  "sc_jobs (persist n s) = sc_jobs s" "sc_queue (persist n s) = sc_queue s"
  "sc_threads (persist n s) = sc_threads s" "sc_next_tid (persist n s) = sc_next_tid s"
  "sc_stop (persist n s) = sc_stop s" "sc_states (persist n s) = sc_states s"
  "sc_handle (persist n s) = sc_handle s" "state_of (persist n s) = state_of s"
  by (simp_all add: persist_def Let_def state_of_def fun_eq_iff)

lemma record_job_fields [simp, sched_simps]:
  "sc_jobs (record_job n x d e k s) = sc_jobs s" "sc_queue (record_job n x d e k s) = sc_queue s"
  "sc_threads (record_job n x d e k s) = sc_threads s" "sc_next_tid (record_job n x d e k s) = sc_next_tid s"
  "sc_stop (record_job n x d e k s) = sc_stop s" "sc_states (record_job n x d e k s) = sc_states s"
  "sc_handle (record_job n x d e k s) = sc_handle s" "state_of (record_job n x d e k s) = state_of s"
  by (simp_all add: record_job_def take_Cons' state_of_def fun_eq_iff)

section \<open>The invariant\<close>

text \<open>Which job a thread is executing, and the threads executing a job.\<close>

fun runs_job :: "thread_pc \<Rightarrow> str option" where
  "runs_job (Running n _) = Some n"
| "runs_job (InlineRun n _) = Some n"
| "runs_job _ = None"

definition running_threads :: "str \<Rightarrow> sched \<Rightarrow> (nat \<times> thread_pc) list" where
  "running_threads n s = filter (\<lambda>(t, pc). runs_job pc = Some n) (sc_threads s)"

definition state_ok :: "job_state \<Rightarrow> bool" where
  "state_ok st \<longleftrightarrow> running st = locked st \<and> (started_mono st \<noteq> None) = running st \<and>
     consecutive_failures st \<le> failures st \<and> failures st \<le> runs st"

definition tables_ok :: "sched \<Rightarrow> bool" where
  "tables_ok s \<longleftrightarrow> dwf (sc_jobs s) \<and> dwf (sc_states s) \<and> set (dkeys (sc_states s)) = set (dkeys (sc_jobs s)) \<and>
     dwf (sc_threads s) \<and> (\<forall>t\<in>set (dkeys (sc_threads s)). t < sc_next_tid s)"

definition queue_ok :: "sched \<Rightarrow> bool" where
  "queue_ok s \<longleftrightarrow> distinct (sc_queue s) \<and> (\<forall>n. n \<in> set (sc_queue s) \<longleftrightarrow> queued (state_of s n))"

definition locks_ok :: "sched \<Rightarrow> bool" where
  "locks_ok s \<longleftrightarrow> (\<forall>n. length (running_threads n s) = of_bool (locked (state_of s n)))"

definition sched_ok :: "sched \<Rightarrow> bool" where
  "sched_ok s \<longleftrightarrow> tables_ok s \<and> queue_ok s \<and> locks_ok s \<and> (\<forall>n. state_ok (state_of s n))"

lemmas sched_ok_defs = sched_ok_def tables_ok_def queue_ok_def locks_ok_def

lemma state_of_unknown: "n \<notin> set (dkeys (sc_states s)) \<Longrightarrow> state_of s n = fresh_state"
  by (simp add: state_of_def dget_None_iff [symmetric])

lemma fresh_state_simps [simp]:
  "\<not> locked fresh_state" "\<not> queued fresh_state" "\<not> running fresh_state" "state_ok fresh_state"
  "next_run fresh_state = None"
  by (simp_all add: fresh_state_def state_ok_def)

lemma known_job: "sched_ok s \<Longrightarrow> locked (state_of s n) \<or> queued (state_of s n) \<Longrightarrow> n \<in> set (dkeys (sc_jobs s))"
  using state_of_unknown [of n s] by (auto simp: sched_ok_defs)

lemma running_threads_cong: "sc_threads s' = sc_threads s \<Longrightarrow> running_threads n s' = running_threads n s"
  by (simp add: running_threads_def)

lemma length_filter_dset:
  assumes "dwf d"
  shows "length (filter (\<lambda>(k, v). P v) (dset k v d)) + (case dget d k of Some u \<Rightarrow> of_bool (P u) | None \<Rightarrow> 0) =
    length (filter (\<lambda>(k, v). P v) d) + (of_bool (P v) :: nat)"
  using assms
proof (induction k v d rule: dset.induct)
  case (2 k v k' v' d)
  then have "dwf d" by (simp add: dwf_def dkeys_def)
  with 2 show ?case by (auto simp: dget_Cons)
qed simp

lemma length_filter_ddel:
  assumes "dwf d" "dget d k = Some v" "\<not> P v"
  shows "length (filter (\<lambda>(k, v). P v) (ddel k d)) = length (filter (\<lambda>(k, v). P v) d)"
  using assms
proof (induction d)
  case (Cons x d)
  obtain k' v' where x: "x = (k', v')" by force
  show ?case
  proof (cases "k' = k")
    case True
    with Cons.prems x have "k \<notin> set (dkeys d)" by (auto simp: dwf_def dkeys_def)
    with ddel_absent [of k d] True Cons.prems x show ?thesis by (simp add: ddel_def dget_Cons)
  next
    case False
    with Cons x show ?thesis by (simp add: ddel_def dget_Cons dwf_def dkeys_def)
  qed
qed (simp add: ddel_def)

text \<open>Setting a thread's program counter moves its share of the running threads.\<close>

lemma running_threads_set:
  assumes "dwf (sc_threads s)" and "sc_threads s' = dset t pc (sc_threads s)"
  shows "length (running_threads n s') + (case dget (sc_threads s) t of Some u \<Rightarrow> of_bool (runs_job u = Some n) | None \<Rightarrow> 0) =
    length (running_threads n s) + of_bool (runs_job pc = Some n)"
  unfolding running_threads_def assms(2)
  by (rule length_filter_dset [OF assms(1), where P = "\<lambda>pc. runs_job pc = Some n"])

section \<open>Every operation keeps the invariant\<close>

lemma ok_put_state:
  assumes "sched_ok s" and "n \<in> set (dkeys (sc_jobs s))" and "state_ok st"
    and "locked st = locked (state_of s n)" and "queued st = queued (state_of s n)"
  shows "sched_ok (put_state n st s)"
  using assms by (auto simp: sched_ok_defs running_threads_def)

lemma ok_same:
  assumes "sched_ok s" and "sc_jobs s' = sc_jobs s" "sc_states s' = sc_states s" "sc_queue s' = sc_queue s"
    and "sc_threads s' = sc_threads s" "sc_next_tid s' = sc_next_tid s"
  shows "sched_ok s'"
  using assms state_of_cong [of s' s] by (simp add: sched_ok_defs running_threads_def)

lemma ok_spawn:
  assumes "sched_ok s" and "runs_job pc = None"
  shows "sched_ok (spawn pc s)"
proof -
  let ?s = "spawn pc s"
  have new: "dget (sc_threads s) (sc_next_tid s) = None"
    using assms(1) by (auto simp: sched_ok_defs dget_None_iff)
  have "length (running_threads n ?s) = length (running_threads n s)" for n
    using running_threads_set [of s ?s "sc_next_tid s" pc n] assms new
    by (simp add: spawn_def sched_ok_defs)
  with assms(1) state_of_cong [of ?s s] show ?thesis
    by (auto simp: spawn_def sched_ok_defs less_Suc_eq)
qed

lemma ok_set_thread:
  assumes "sched_ok s" and "dget (sc_threads s) t = Some pc" and "runs_job pc = None" "runs_job pc' = None"
  shows "sched_ok (set_thread t pc' s)"
proof -
  let ?s = "set_thread t pc' s"
  have "length (running_threads n ?s) = length (running_threads n s)" for n
    using running_threads_set [of s ?s t pc' n] assms by (simp add: set_thread_def sched_ok_defs)
  moreover have "t \<in> set (dkeys (sc_threads s))" using assms(2) by (metis dget_None_iff option.distinct(1))
  ultimately show ?thesis using assms(1) state_of_cong [of ?s s]
    by (auto simp: set_thread_def sched_ok_defs)
qed

lemma begin_run_state:
  assumes "begin_run n mn now s = Some s'"
  shows "\<not> locked (state_of s n) \<and> sc_threads s' = sc_threads s \<and> sc_next_tid s' = sc_next_tid s \<and>
    s' = put_state n ((state_of s n)\<lparr>locked := True, running := True, started_mono := Some mn,
           overrun_reported := False, last_run := Some (now div US)\<rparr>) s"
  using assms by (auto simp: begin_run_def Let_def split: if_splits)

text \<open>Taking the lock together with the thread that holds it.\<close>

lemma ok_begin:
  assumes ok: "sched_ok s" and n: "n \<in> set (dkeys (sc_jobs s))" and b: "begin_run n mn now s = Some s1"
    and threads: "sc_threads s' = dset t pc (sc_threads s1)" and pc: "runs_job pc = Some n"
    and old: "case dget (sc_threads s) t of Some u \<Rightarrow> runs_job u = None | None \<Rightarrow> True"
    and tid: "t < sc_next_tid s'" "sc_next_tid s \<le> sc_next_tid s'"
    and rest: "sc_jobs s' = sc_jobs s1" "sc_states s' = sc_states s1" "sc_queue s' = sc_queue s1"
  shows "sched_ok s'"
proof -
  note s1 = begin_run_state [OF b]
  have free: "\<not> locked (state_of s n)" using s1 by blast
  have st: "state_of s' = state_of s1" by (rule state_of_cong) (rule rest(2))
  have "length (running_threads m s') = length (running_threads m s) + of_bool (m = n)" for m
    using running_threads_set [of s1 s' t pc m] threads s1 ok old pc
    by (auto simp: sched_ok_defs running_threads_def split: option.splits)
  with ok have "locks_ok s'" using free st s1 by (auto simp: sched_ok_defs)
  moreover have "tables_ok s'" using ok threads tid rest s1 n
    by (auto simp: sched_ok_defs intro: less_le_trans)
  moreover have "queue_ok s'" using ok st rest s1 by (auto simp: sched_ok_defs)
  moreover have "state_ok (state_of s' m)" for m
    using ok st s1 by (auto simp: sched_ok_def state_ok_def)
  ultimately show ?thesis by (simp add: sched_ok_def)
qed

lemma ok_end:
  assumes ok: "sched_ok s" and pc: "dget (sc_threads s) t = Some pc" "runs_job pc = Some n"
    and threads: "sc_threads s' = dset t pc' (sc_threads s) \<and> runs_job pc' = None \<or> sc_threads s' = ddel t (sc_threads s)"
    and st: "sc_states s' = dset n st (sc_states s)" "\<not> locked st" "queued st = queued (state_of s n)" "state_ok st"
    and rest: "sc_jobs s' = sc_jobs s" "sc_queue s' = sc_queue s" "sc_next_tid s' = sc_next_tid s"
  shows "sched_ok s'"
proof -
  have wf: "dwf (sc_threads s)" using ok by (simp add: sched_ok_defs)
  have t: "t \<in> set (dkeys (sc_threads s))" using pc(1) by (metis dget_None_iff option.distinct(1))
  have st': "state_of s' m = (if m = n then st else state_of s m)" for m
    using st(1) by (simp add: state_of_def)
  have len: "length (running_threads m s') + of_bool (m = n) = length (running_threads m s)" for m
    using threads
  proof
    assume "sc_threads s' = dset t pc' (sc_threads s) \<and> runs_job pc' = None"
    with running_threads_set [of s s' t pc' m] wf pc show ?thesis by auto
  next
    assume d: "sc_threads s' = ddel t (sc_threads s)"
    let ?u = "s\<lparr>sc_threads := dset t Polling (sc_threads s)\<rparr>"
    have "length (running_threads m ?u) + of_bool (m = n) = length (running_threads m s)"
      using running_threads_set [of s ?u t Polling m] wf pc by auto
    moreover have "length (running_threads m s') = length (running_threads m ?u)"
      using length_filter_ddel [of "dset t Polling (sc_threads s)" t Polling "\<lambda>pc. runs_job pc = Some m"] wf d
      by (simp add: running_threads_def)
    ultimately show ?thesis by simp
  qed
  have one: "locked (state_of s n)"
  proof (rule ccontr)
    assume "\<not> locked (state_of s n)"
    with ok have "length (running_threads n s) = 0" by (simp add: sched_ok_defs)
    with len [of n] show False by simp
  qed
  have n: "n \<in> set (dkeys (sc_jobs s))" using known_job [OF ok] one by blast
  have "length (running_threads m s') = of_bool (locked (state_of s' m))" for m
    using len [of m] ok one st st' by (auto simp: sched_ok_defs)
  then have "locks_ok s'" by (simp add: locks_ok_def)
  moreover have "tables_ok s'" using ok rest st n threads t
    by (auto simp: sched_ok_defs dkeys_ddel)
  moreover have "queue_ok s'" using ok rest st st' by (auto simp: sched_ok_defs)
  moreover have "state_ok (state_of s' m)" for m using ok st st' by (simp add: sched_ok_def)
  ultimately show ?thesis by (simp add: sched_ok_def)
qed

lemma ok_fold: "sched_ok s \<Longrightarrow> (\<And>x s. x \<in> set xs \<Longrightarrow> sched_ok s \<Longrightarrow> P s \<Longrightarrow> sched_ok (f x s) \<and> P (f x s)) \<Longrightarrow> P s \<Longrightarrow> sched_ok (fold f xs s) \<and> P (fold f xs s)"
  by (induction xs arbitrary: s) auto

lemma schedule_job_ok:
  assumes "sched_ok s" and "fst nj \<in> set (dkeys (sc_jobs s))"
  shows "sched_ok (schedule_job tz now nj s) \<and> sc_jobs (schedule_job tz now nj s) = sc_jobs s"
proof -
  obtain n job where nj: "nj = (n, job)" by force
  let ?s1 = "put_state n ((state_of s n)\<lparr>next_run := initial_next_run tz job now\<rparr>) s"
  have "state_ok (state_of s n)" using assms by (simp add: sched_ok_def)
  then have "sched_ok ?s1" using assms nj by (intro ok_put_state) (simp_all add: state_ok_def)
  then have "sched_ok (persist n ?s1)" by (rule ok_same) simp_all
  then show ?thesis by (simp add: schedule_job_def nj)
qed

lemma start_ok: "sched_ok s \<Longrightarrow> sched_ok (start tz now s)"
proof -
  assume ok: "sched_ok s"
  let ?s0 = "s\<lparr>sc_stop := False\<rparr>"
  have ok0: "sched_ok ?s0" by (rule ok_same [OF ok]) simp_all
  have "sched_ok (fold (schedule_job tz now) (sc_jobs s) ?s0) \<and>
      sc_jobs (fold (schedule_job tz now) (sc_jobs s) ?s0) = sc_jobs s"
    by (rule ok_fold [OF ok0]) (use schedule_job_ok in \<open>auto simp: dkeys_def\<close>)
  then have "sched_ok (spawn Polling ((fold (schedule_job tz now) (sc_jobs s) ?s0)
      \<lparr>sc_handle := Some (sc_next_tid (fold (schedule_job tz now) (sc_jobs s) ?s0))\<rparr>))"
    by (intro ok_spawn) (auto elim!: ok_same)
  with ok show ?thesis by (simp add: start_def Let_def)
qed

lemma next_job_ok:
  assumes ok: "sched_ok s" and nj: "next_job now s = (r, s1)"
  shows "sched_ok s1 \<and> sc_threads s1 = sc_threads s \<and> sc_next_tid s1 = sc_next_tid s"
proof (cases "sc_queue s")
  case Nil
  with nj ok show ?thesis by (auto simp: next_job_def split: option.splits if_splits)
next
  case (Cons n q)
  with nj have s1: "s1 = put_state n ((state_of s n)\<lparr>queued := False\<rparr>) (s\<lparr>sc_queue := q\<rparr>)"
    by (simp add: next_job_def)
  have st: "state_of s1 m = (if m = n then (state_of s n)\<lparr>queued := False\<rparr> else state_of s m)" for m
    using state_of_cong [of "s\<lparr>sc_queue := q\<rparr>" s] by (simp add: s1)
  have "n \<in> set (dkeys (sc_jobs s))" using known_job [OF ok, of n] ok Cons by (auto simp: sched_ok_defs)
  then have "tables_ok s1" using ok by (auto simp: s1 sched_ok_def tables_ok_def)
  moreover have "queue_ok s1"
  proof -
    have "queued (state_of s1 m) \<longleftrightarrow> m \<noteq> n \<and> queued (state_of s m)" for m by (simp add: st)
    moreover have "sc_queue s1 = q" by (simp add: s1)
    ultimately show ?thesis using ok Cons by (auto simp: sched_ok_def queue_ok_def)
  qed
  moreover have "locks_ok s1" using ok st running_threads_cong [of s1 s] by (simp add: s1 sched_ok_def locks_ok_def)
  moreover have "state_ok (state_of s1 m)" for m using ok st by (simp add: sched_ok_def state_ok_def)
  ultimately show ?thesis by (simp add: sched_ok_def) (simp add: s1)
qed

lemma soonest_in: "soonest states = Some (t, n) \<Longrightarrow> \<exists>st. (n, st) \<in> set states \<and> next_run st = Some t"
proof -
  have "fold sooner xs best = Some (t, n) \<Longrightarrow> best = Some (t, n) \<or> (\<exists>st. (n, st) \<in> set xs \<and> next_run st = Some t)" for xs best
  proof (induction xs arbitrary: best)
    case (Cons x xs)
    obtain m st where x: "x = (m, st)" by force
    from Cons.IH [of "sooner x best"] Cons.prems show ?case
      by (auto simp: x sooner_def split: option.splits prod.splits if_splits)
  qed simp
  from this [of states None] show "soonest states = Some (t, n) \<Longrightarrow> ?thesis" by (auto simp: soonest_def)
qed

lemma next_job_known:
  assumes ok: "sched_ok s" and nj: "next_job now s = (Take n, s1)"
  shows "n \<in> set (dkeys (sc_jobs s1))"
proof (cases "sc_queue s")
  case Nil
  with nj obtain t where "soonest (sc_states s) = Some (t, n)" "s1 = s"
    by (auto simp: next_job_def split: option.splits if_splits)
  moreover from this have "n \<in> set (dkeys (sc_states s))"
    using soonest_in [of "sc_states s" t n] by (auto simp: dkeys_def intro: rev_image_eqI)
  ultimately show ?thesis using ok by (simp add: sched_ok_def tables_ok_def)
next
  case (Cons m q)
  then have "queued (state_of s m)" using ok by (auto simp: sched_ok_defs)
  with known_job [OF ok, of m] Cons nj show ?thesis by (auto simp: next_job_def)
qed

lemma poll_ok:
  assumes ok: "sched_ok s" and t: "dget (sc_threads s) t = Some Polling"
  shows "sched_ok (poll t mn now s)"
proof (cases "sc_stop s")
  case True
  have "dwf (sc_threads s)" using ok by (simp add: sched_ok_defs)
  note len = length_filter_ddel [OF this t]
  have "sched_ok (s\<lparr>sc_threads := ddel t (sc_threads s)\<rparr>)"
    using ok len state_of_cong [of "s\<lparr>sc_threads := ddel t (sc_threads s)\<rparr>" s]
    by (auto simp: sched_ok_defs running_threads_def dkeys_ddel)
  with True show ?thesis by (simp add: poll_def)
next
  case False
  obtain r s1 where nj: "next_job now s = (r, s1)" by force
  note s1 = next_job_ok [OF ok nj]
  show ?thesis
  proof (cases r)
    case (Sleep w)
    with False nj s1 show ?thesis by (simp add: poll_def)
  next
    case (Take n)
    note known = next_job_known [OF ok nj [unfolded Take]]
    show ?thesis
    proof (cases "begin_run n mn now s1")
      case None
      with False nj Take s1 t show ?thesis by (auto simp: poll_def intro!: ok_set_thread)
    next
      case (Some s2)
      have lt: "t < sc_next_tid s1" using s1 ok t
        by (metis dget_None_iff option.distinct(1) sched_ok_def tables_ok_def)
      have "sched_ok (set_thread t (Running n now) s2)"
        by (rule ok_begin [OF conjunct1 [OF s1] known Some, of _ t "Running n now"])
          (use s1 begin_run_state [OF Some] t lt in \<open>simp_all add: set_thread_def\<close>)
      with False nj Take Some show ?thesis by (simp add: poll_def)
    qed
  qed
qed

lemma run_now_ok:
  assumes ok: "sched_ok s" and r: "run_now n mn now s = (r, s')"
  shows "sched_ok s'"
proof (cases "dget (sc_jobs s) n")
  case None
  with r ok show ?thesis by (simp add: run_now_def)
next
  case (Some job)
  then have n: "n \<in> set (dkeys (sc_jobs s))" by (metis dget_None_iff option.distinct(1))
  show ?thesis
  proof (cases "is_alive s")
    case True
    show ?thesis
    proof (cases "running (state_of s n) \<or> queued (state_of s n)")
      case False
      let ?s = "put_state n ((state_of s n)\<lparr>queued := True\<rparr>) s"
      have s': "s' = ?s\<lparr>sc_queue := sc_queue s @ [n], sc_done := dset n False (sc_done s)\<rparr>"
        using r Some True False by (simp add: run_now_def)
      have "state_of s' m = state_of ?s m" for m by (rule fun_cong [OF state_of_cong]) (simp add: s')
      with ok n False show ?thesis
        by (auto simp: s' sched_ok_defs running_threads_def state_ok_def)
    qed (use r Some True ok in \<open>simp add: run_now_def\<close>)
  next
    case False
    show ?thesis
    proof (cases "running (state_of s n)")
      case True
      with r Some False ok show ?thesis by (simp add: run_now_def)
    next
      case idle: False
      show ?thesis
      proof (cases "begin_run n mn now s")
        case None
        with r Some False idle ok show ?thesis by (simp add: run_now_def)
      next
        case b: (Some s1)
        with r Some False idle have s': "s' = spawn (InlineRun n now) s1" by (simp add: run_now_def)
        have "dget (sc_threads s) (sc_next_tid s) = None"
          using ok by (auto simp: sched_ok_defs dget_None_iff)
        with begin_run_state [OF b] show ?thesis
          by (intro ok_begin [OF ok n b, of s' "sc_next_tid s" "InlineRun n now"]) (simp_all add: s' spawn_def)
      qed
    qed
  qed
qed

lemma check_overrun_ok:
  assumes "sched_ok s" and "fst nj \<in> set (dkeys (sc_jobs s))"
  shows "sched_ok (snd (check_overrun mn now nj (l, s))) \<and> sc_jobs (snd (check_overrun mn now nj (l, s))) = sc_jobs s"
proof -
  obtain n job where nj: "nj = (n, job)" by force
  have "state_ok (state_of s n)" using assms by (simp add: sched_ok_def)
  then have "sched_ok (put_state n ((state_of s n)\<lparr>overrun_reported := True\<rparr>) s)"
    using assms nj by (intro ok_put_state) (simp_all add: state_ok_def)
  with assms show ?thesis by (auto simp: check_overrun_def nj Let_def elim: ok_same)
qed

lemma check_overruns_ok:
  assumes ok: "sched_ok s" shows "sched_ok (snd (check_overruns mn now s))"
proof -
  have "sched_ok (snd (fold (check_overrun mn now) js (l, s))) \<and>
      sc_jobs (snd (fold (check_overrun mn now) js (l, s))) = sc_jobs s"
    if "sched_ok s" "\<forall>nj\<in>set js. fst nj \<in> set (dkeys (sc_jobs s))" for js l s
    using that
  proof (induction js arbitrary: l s)
    case (Cons nj js)
    obtain l' s' where c: "check_overrun mn now nj (l, s) = (l', s')" by force
    with check_overrun_ok [of s nj mn now l] Cons.prems have "sched_ok s' \<and> sc_jobs s' = sc_jobs s" by simp
    with Cons.IH [of s' l'] Cons.prems c show ?case by simp
  qed simp
  with ok show ?thesis by (force simp: check_overruns_def dkeys_def)
qed

lemma end_state_ok: "state_ok st \<Longrightarrow> state_ok (end_state tz job started e now st)"
  by (auto simp: state_ok_def end_state_def)

lemma end_run_states:
  assumes "dget (sc_jobs s) n = Some job"
  shows "sc_states (end_run tz n started err now k s) =
      dset n (end_state tz job started (map_option (take 2000) err) now (state_of s n)) (sc_states s) \<and>
    sc_jobs (end_run tz n started err now k s) = sc_jobs s \<and> sc_queue (end_run tz n started err now k s) = sc_queue s \<and>
    sc_threads (end_run tz n started err now k s) = sc_threads s \<and>
    sc_next_tid (end_run tz n started err now k s) = sc_next_tid s \<and>
    sc_stop (end_run tz n started err now k s) = sc_stop s"
  by (simp add: end_run_def assms)

lemma running_job_known:
  assumes ok: "sched_ok s" and t: "dget (sc_threads s) t = Some pc" "runs_job pc = Some n"
  obtains job where "dget (sc_jobs s) n = Some job"
proof -
  have "(t, pc) \<in> set (running_threads n s)"
    using dget_Some_in [OF t(1)] t(2) by (simp add: running_threads_def)
  then have "0 < length (running_threads n s)" by (rule length_pos_if_in_set)
  moreover have "length (running_threads n s) = of_bool (locked (state_of s n))"
    using ok by (simp add: sched_ok_def locks_ok_def)
  ultimately have "locked (state_of s n)" by (cases "locked (state_of s n)") simp_all
  with known_job [OF ok, of n] that show thesis by (metis dget_None_iff option.exhaust)
qed

lemma finish_ok:
  assumes ok: "sched_ok s" and t: "dget (sc_threads s) t = Some pc" "runs_job pc = Some n"
    and s': "sc_threads s' = dset t pc' (sc_threads s) \<and> runs_job pc' = None \<or> sc_threads s' = ddel t (sc_threads s)"
      "sc_states s' = sc_states (end_run tz n started err now k s)" "sc_jobs s' = sc_jobs s"
      "sc_queue s' = sc_queue s" "sc_next_tid s' = sc_next_tid s"
  shows "sched_ok s'"
proof -
  obtain job where job: "dget (sc_jobs s) n = Some job" by (rule running_job_known [OF ok t])
  have "state_ok (state_of s n)" using ok by (simp add: sched_ok_def)
  with s' end_run_states [OF job, of tz started err now k] end_state_ok show ?thesis
    by (intro ok_end [OF ok t s'(1), where st = "end_state tz job started (map_option (take 2000) err) now (state_of s n)"])
      (simp_all, simp_all add: end_state_def)
qed

section \<open>Runs of the scheduler\<close>

text \<open>
  One atomic step of the running program: the lifecycle calls, a request, a turn of a worker
  thread, the end of a run (with the job's error, the end time and how many of the record's
  writes succeed), the wake-up after it, and a pass of the watchdog.
\<close>

inductive sched_step :: "(int \<Rightarrow> int) \<Rightarrow> sched \<Rightarrow> sched \<Rightarrow> bool" for tz where
  step_start: "sched_step tz s (start tz now s)"
| step_stop: "sched_step tz s (stop_signal s)"
| step_joined: "sched_step tz s (stop_joined s)"
| step_run_now: "sched_step tz s (snd (run_now n mn now s))"
| step_poll: "dget (sc_threads s) t = Some Polling \<Longrightarrow> sched_step tz s (poll t mn now s)"
| step_finish: "dget (sc_threads s) t = Some (Running n started) \<Longrightarrow>
    sched_step tz s (set_thread t (Signalling n) (end_run tz n started err now k s))"
| step_inline_finish: "dget (sc_threads s) t = Some (InlineRun n started) \<Longrightarrow>
    sched_step tz s ((end_run tz n started err now k s)\<lparr>sc_threads := ddel t (sc_threads s)\<rparr>)"
| step_signal: "dget (sc_threads s) t = Some (Signalling n) \<Longrightarrow> sched_step tz s (signal t n s)"
| step_watch: "sched_step tz s (snd (check_overruns mn now s))"

inductive sched_reach :: "(int \<Rightarrow> int) \<Rightarrow> job list \<Rightarrow> (str, job_row) dict \<Rightarrow> sched \<Rightarrow> bool" for tz jobs rows where
  reach_init: "new_scheduler jobs rows = Inr s \<Longrightarrow> sched_reach tz jobs rows s"
| reach_step: "sched_reach tz jobs rows s \<Longrightarrow> sched_step tz s s' \<Longrightarrow> sched_reach tz jobs rows s'"

lemma signal_ok:
  assumes ok: "sched_ok s" and t: "dget (sc_threads s) t = Some (Signalling n)"
  shows "sched_ok (signal t n s)"
proof -
  have "sched_ok (case dget (sc_done s) n of None \<Rightarrow> s | Some _ \<Rightarrow> s\<lparr>sc_done := dset n True (sc_done s)\<rparr>)"
    using ok by (auto split: option.splits intro: ok_same)
  with t show ?thesis unfolding signal_def by (rule_tac ok_set_thread) (auto split: option.splits)
qed

lemma step_ok: "sched_step tz s s' \<Longrightarrow> sched_ok s \<Longrightarrow> sched_ok s'"
proof (induction rule: sched_step.induct)
  case (step_start s now)
  then show ?case by (rule start_ok)
next
  case (step_stop s)
  then show ?case by (rule ok_same) (simp_all add: stop_signal_def)
next
  case (step_joined s)
  then show ?case by (rule ok_same) (simp_all add: stop_joined_def)
next
  case (step_run_now s n mn now)
  then show ?case by (rule run_now_ok) (rule prod.collapse [symmetric])
next
  case (step_poll s t mn now)
  then show ?case by (blast intro: poll_ok)
next
  case (step_finish s t n started err now k)
  obtain job where "dget (sc_jobs s) n = Some job"
    by (rule running_job_known [OF step_finish(2,1)]) simp_all
  note e = end_run_states [OF this, of tz started err now k]
  show ?case by (rule finish_ok [OF step_finish(2,1), of n _ "Signalling n" tz started err now k]) (simp_all add: set_thread_def e)
next
  case (step_inline_finish s t n started err now k)
  obtain job where "dget (sc_jobs s) n = Some job"
    by (rule running_job_known [OF step_inline_finish(2,1)]) simp_all
  note e = end_run_states [OF this, of tz started err now k]
  show ?case by (rule finish_ok [OF step_inline_finish(2,1), of n _ Polling tz started err now k]) (simp_all add: e)
next
  case (step_signal s t n)
  then show ?case by (blast intro: signal_ok)
next
  case (step_watch s mn now)
  then show ?case by (blast intro: check_overruns_ok)
qed

lemma add_jobs_ok:
  assumes "add_jobs jobs (js, sts) = Inr (js', sts')" and "dwf js" "dwf sts" "set (dkeys sts) = set (dkeys js)"
    and "\<forall>(n, st)\<in>set sts. st = fresh_state"
  shows "dwf js' \<and> dwf sts' \<and> set (dkeys sts') = set (dkeys js') \<and> (\<forall>(n, st)\<in>set sts'. st = fresh_state)"
  using assms
proof (induction jobs arbitrary: js sts)
  case (Cons job jobs)
  show ?case
    by (rule Cons.IH [of "dset (j_name job) job js" "dset (j_name job) fresh_state sts"])
      (use Cons.prems set_dset_subset [of "j_name job" fresh_state sts] in \<open>auto split: if_splits\<close>)
qed auto

definition idle_ok :: "job_state \<Rightarrow> bool" where
  "idle_ok st \<longleftrightarrow> state_ok st \<and> \<not> locked st \<and> \<not> queued st \<and> consecutive_failures st = 0"

lemma load_rows_ok:
  assumes "dwf sts" and "\<forall>x\<in>set sts. idle_ok (snd x)" and "\<forall>(n, row)\<in>set rows. jr_failures row \<le> jr_runs row"
  shows "dwf (fold load_row rows sts) \<and> dkeys (fold load_row rows sts) = dkeys sts \<and>
    (\<forall>x\<in>set (fold load_row rows sts). idle_ok (snd x))"
  using assms
proof (induction rows arbitrary: sts)
  case (Cons r rows)
  obtain n row where r: "r = (n, row)" by force
  show ?case
  proof (cases "dget sts n")
    case None
    with Cons r show ?thesis by (simp add: load_row_def)
  next
    case (Some st)
    have st: "idle_ok st" using dget_Some_in [OF Some] Cons.prems(2) by auto
    have k: "n \<in> set (dkeys sts)" using Some by (metis dget_None_iff option.distinct(1))
    let ?st = "st\<lparr>runs := jr_runs row, failures := jr_failures row, last_run := jr_last_run row,
         last_status := jr_last_status row, last_duration := jr_last_duration row, last_error := jr_last_error row\<rparr>"
    have "idle_ok ?st" using st Cons.prems(3) r by (simp add: state_ok_def idle_ok_def)
    then have "\<forall>x\<in>set (dset n ?st sts). idle_ok (snd x)"
      using set_dset_subset [of n ?st sts] Cons.prems(2) by fastforce
    with Cons.IH [of "dset n ?st sts"] Cons.prems dkeys_dset_present [OF k] Some
    show ?thesis by (simp add: load_row_def r)
  qed
qed simp

lemma new_scheduler_ok:
  assumes "new_scheduler jobs rows = Inr s" and "\<forall>(n, row)\<in>set rows. jr_failures row \<le> jr_runs row"
  shows "sched_ok s"
proof -
  obtain js sts where a: "add_jobs jobs ([], []) = Inr (js, sts)"
    using assms(1) by (auto simp: new_scheduler_def split: sum.splits)
  have f: "dwf js \<and> dwf sts \<and> set (dkeys sts) = set (dkeys js) \<and> (\<forall>(n, st)\<in>set sts. st = fresh_state)"
    by (rule add_jobs_ok [OF a]) (simp_all add: dkeys_def)
  have "\<forall>x\<in>set sts. idle_ok (snd x)"
    using f by (auto simp: fresh_state_def state_ok_def idle_ok_def)
  note l = load_rows_ok [OF conjunct1 [OF conjunct2 [OF f]] this assms(2)]
  have s: "sc_jobs s = js" "sc_states s = fold load_row rows sts" "sc_queue s = []" "sc_threads s = []"
    using assms(1) by (auto simp: new_scheduler_def load_history_def a)
  have "state_ok (state_of s n) \<and> \<not> locked (state_of s n) \<and> \<not> queued (state_of s n)" for n
    using l s(2) by (auto simp: state_of_def idle_ok_def split: option.splits dest!: dget_Some_in)
  with l f s show ?thesis by (auto simp: sched_ok_defs running_threads_def dkeys_def)
qed

lemma reach_ok:
  assumes "sched_reach tz jobs rows s" and "\<forall>(n, row)\<in>set rows. jr_failures row \<le> jr_runs row"
  shows "sched_ok s"
  using assms by (induction rule: sched_reach.induct) (auto intro: new_scheduler_ok step_ok)

section \<open>The timetable moves forward\<close>

lemma next_local_hour_bounds:
  "now < next_local_hour tz h now" "next_local_hour tz h now \<le> now + DAY"
  "(next_local_hour tz h now + tz now) mod DAY = max 0 (min 23 h) * HOUR"
proof -
  define l where "l = now + tz now"
  define c where "c = max 0 (min 23 h)"
  have c: "0 \<le> c" "c \<le> 23" by (auto simp: c_def)
  have l: "l div DAY * DAY \<le> l" "l < l div DAY * DAY + DAY"
    by (simp_all add: minus_mod_eq_div_mult [symmetric])
  have nx: "next_local_hour tz h now =
      (if l div DAY * DAY + c * HOUR \<le> l then l div DAY * DAY + c * HOUR + DAY else l div DAY * DAY + c * HOUR) - tz now"
    unfolding next_local_hour_def Let_def l_def [symmetric] c_def [symmetric] by (rule refl)
  show "now < next_local_hour tz h now" unfolding nx using l c by (simp add: l_def)
  show "next_local_hour tz h now \<le> now + DAY" unfolding nx using l c by (simp add: l_def)
  have m: "(l div DAY * DAY + c * HOUR) mod DAY = c * HOUR" using c by simp
  have "(l div DAY * DAY + c * HOUR + DAY) mod DAY = c * HOUR" using m by (simp only: mod_add_self2)
  with m show "(next_local_hour tz h now + tz now) mod DAY = max 0 (min 23 h) * HOUR"
    unfolding nx c_def [symmetric] by (simp only: diff_add_cancel split: if_splits) simp
qed

lemma next_after_run_later: "next_after_run tz job now = Some t \<Longrightarrow> now < t"
  using next_local_hour_bounds(1) [of now tz]
  by (auto simp: next_after_run_def manual_only_def split: if_splits option.splits)

section \<open>A due job gets its run\<close>

lemma soonest_least:
  assumes "(n, st) \<in> set states" and "next_run st = Some x"
  shows "\<exists>t m. soonest states = Some (t, m) \<and> t \<le> x"
proof -
  have keep: "\<exists>t m. fold sooner xs (Some (t0, m0)) = Some (t, m) \<and> t \<le> t0" for xs t0 m0
  proof (induction xs arbitrary: t0 m0)
    case (Cons y xs)
    obtain t1 m1 where y: "sooner y (Some (t0, m0)) = Some (t1, m1) \<and> t1 \<le> t0"
    proof (cases y)
      case (Pair a b)
      with that show thesis by (cases "next_run b"; cases "the (next_run b) < t0") (auto simp: sooner_def)
    qed
    with Cons.IH [of t1 m1] show ?case by fastforce
  qed simp
  have "\<exists>t m. fold sooner states best = Some (t, m) \<and> t \<le> x" for best
    using assms(1)
  proof (induction states arbitrary: best)
    case (Cons y states)
    show ?case
    proof (cases "y = (n, st)")
      case True
      then obtain t1 m1 where "sooner y best = Some (t1, m1) \<and> t1 \<le> x"
        using assms(2) that by (cases best; cases "x < fst (the best)") (auto simp: sooner_def)
      with keep [of states t1 m1] show ?thesis by fastforce
    next
      case False
      with Cons show ?thesis by auto
    qed
  qed simp
  then show ?thesis by (simp add: soonest_def)
qed

text \<open>
  A whole turn of the worker loop: poll, run, record, wake. A tick gives the clock readings, the
  job's error and the number of record writes that succeed.
\<close>

record tick =
  t_mono :: int
  t_now :: int
  t_end :: int
  t_err :: "str option"
  t_writes :: nat

definition worker_round :: "(int \<Rightarrow> int) \<Rightarrow> nat \<Rightarrow> tick \<Rightarrow> sched \<Rightarrow> str option \<times> sched" where
  "worker_round tz t k s =
     (let s1 = poll t (t_mono k) (t_now k) s
      in case dget (sc_threads s1) t of
        Some (Running n started) \<Rightarrow>
          (Some n, signal t n (set_thread t (Signalling n)
            (end_run tz n started (t_err k) (t_end k) (t_writes k) s1)))
      | Some (Signalling n) \<Rightarrow> (None, signal t n s1)
      | _ \<Rightarrow> (None, s1))"

fun worker_rounds :: "(int \<Rightarrow> int) \<Rightarrow> nat \<Rightarrow> tick list \<Rightarrow> sched \<Rightarrow> str list \<times> sched" where
  "worker_rounds tz t [] s = ([], s)"
| "worker_rounds tz t (k # ks) s =
     (let (ran, s1) = worker_round tz t k s; (names, s2) = worker_rounds tz t ks s1
      in ((case ran of None \<Rightarrow> names | Some n \<Rightarrow> n # names), s2))"

text \<open>The worker alone is at work: nothing else holds a lock and \<open>stop\<close> was not signalled.\<close>

definition quiet :: "nat \<Rightarrow> sched \<Rightarrow> bool" where
  "quiet t s \<longleftrightarrow> sched_ok s \<and> dget (sc_threads s) t = Some Polling \<and> \<not> sc_stop s \<and> (\<forall>n. \<not> locked (state_of s n))"

lemma signal_fields [simp, sched_simps]:
  "sc_states (signal t n s) = sc_states s" "sc_jobs (signal t n s) = sc_jobs s" "sc_queue (signal t n s) = sc_queue s"
  "sc_stop (signal t n s) = sc_stop s" "state_of (signal t n s) = state_of s"
  "sc_threads (signal t n s) = dset t Polling (sc_threads s)"
  by (auto simp: signal_def set_thread_def state_of_def fun_eq_iff split: option.splits)

lemma set_thread_fields [simp, sched_simps]:
  "sc_states (set_thread t pc s) = sc_states s" "sc_jobs (set_thread t pc s) = sc_jobs s"
  "sc_queue (set_thread t pc s) = sc_queue s" "sc_stop (set_thread t pc s) = sc_stop s"
  "sc_threads (set_thread t pc s) = dset t pc (sc_threads s)" "state_of (set_thread t pc s) = state_of s"
  "sc_next_tid (set_thread t pc s) = sc_next_tid s"
  by (simp_all add: set_thread_def state_of_def fun_eq_iff)

lemma round_effect:
  assumes q: "quiet t s" and nj: "next_job (t_now k) s = (Take m, s1)"
  obtains job s' st where "worker_round tz t k s = (Some m, s')" "quiet t s'" "dget (sc_jobs s) m = Some job"
    "sc_queue s' = sc_queue s1" "sc_jobs s' = sc_jobs s"
    "\<And>p. state_of s' p = (if p = m then st else state_of s p)" "next_run st = next_after_run tz job (t_end k)"
proof -
  have ok: "sched_ok s" and t: "dget (sc_threads s) t = Some Polling" and run: "\<not> sc_stop s"
    and free: "\<And>n. \<not> locked (state_of s n)" using q by (simp_all add: quiet_def)
  have s1: "sc_threads s1 = sc_threads s" "sc_jobs s1 = sc_jobs s" "sc_stop s1 = sc_stop s"
    "\<And>p. locked (state_of s1 p) = locked (state_of s p)" "\<And>p. p \<noteq> m \<Longrightarrow> state_of s1 p = state_of s p"
    using nj by (auto simp: next_job_def state_of_def put_state_def split: list.splits option.splits if_splits)
  obtain s2 where b: "begin_run m (t_mono k) (t_now k) s1 = Some s2"
    using free s1 by (auto simp: begin_run_def Let_def)
  note s2 = begin_run_state [OF b]
  have polled: "poll t (t_mono k) (t_now k) s = set_thread t (Running m (t_now k)) s2"
    using run nj b by (simp add: poll_def)
  let ?s3 = "set_thread t (Running m (t_now k)) s2"
  have ok3: "sched_ok ?s3" using poll_ok [OF ok t, of "t_mono k" "t_now k"] by (simp add: polled)
  have t3: "dget (sc_threads ?s3) t = Some (Running m (t_now k))" by simp
  obtain job where job3: "dget (sc_jobs ?s3) m = Some job"
    by (rule running_job_known [OF ok3 t3]) simp_all
  then have job: "dget (sc_jobs s) m = Some job" using s1 s2 by simp
  note e = end_run_states [OF job3, of tz "t_now k" "t_err k" "t_end k" "t_writes k"]
  let ?s4 = "set_thread t (Signalling m) (end_run tz m (t_now k) (t_err k) (t_end k) (t_writes k) ?s3)"
  let ?s5 = "signal t m ?s4"
  let ?st = "end_state tz job (t_now k) (map_option (take 2000) (t_err k)) (t_end k) (state_of ?s3 m)"
  have "sched_ok ?s4" by (rule step_ok [OF step_finish [OF t3] ok3])
  then have "sched_ok ?s5" by (rule signal_ok) simp
  have st5: "state_of ?s5 p = (if p = m then ?st else state_of s p)" for p
    using e s1 s2 by (simp add: state_of_def [of ?s5]) (simp add: state_of_def)
  have "quiet t ?s5" using \<open>sched_ok ?s5\<close> free st5 s1 s2 run e by (simp add: quiet_def end_state_def)
  moreover have "worker_round tz t k s = (Some m, ?s5)" by (simp add: worker_round_def Let_def polled)
  moreover have "sc_queue ?s5 = sc_queue s1" "sc_jobs ?s5 = sc_jobs s" using e s1 s2 by simp_all
  moreover have "next_run ?st = next_after_run tz job (t_end k)" by (simp add: end_state_def)
  ultimately show thesis using that job st5 by blast
qed

text \<open>How much is ahead of a run that is due at \<open>r\<close>: the queue and the jobs due by then.\<close>

definition due_by :: "int \<Rightarrow> sched \<Rightarrow> str set" where
  "due_by r s = {n. \<exists>x. next_run (state_of s n) = Some x \<and> x \<le> r}"

definition ahead :: "int \<Rightarrow> sched \<Rightarrow> nat" where
  "ahead r s = length (sc_queue s) + card (due_by r s)"

lemma due_by_known: "sched_ok s \<Longrightarrow> due_by r s \<subseteq> set (dkeys (sc_jobs s))"
proof
  fix n assume ok: "sched_ok s" and "n \<in> due_by r s"
  then have "state_of s n \<noteq> fresh_state" by (auto simp: due_by_def)
  with ok show "n \<in> set (dkeys (sc_jobs s))" using state_of_unknown [of n s] by (auto simp: sched_ok_def tables_ok_def)
qed

lemma finite_due_by: "sched_ok s \<Longrightarrow> finite (due_by r s)"
  by (rule finite_subset [OF due_by_known]) simp_all

lemma round_progress:
  assumes q: "quiet t s" and due: "next_run (state_of s n) = Some r" and tk: "r \<le> t_now k" "r \<le> t_end k"
  obtains m s' where "worker_round tz t k s = (Some m, s')"
    "m \<noteq> n \<Longrightarrow> quiet t s' \<and> next_run (state_of s' n) = Some r \<and> ahead r s' < ahead r s"
proof -
  have ok: "sched_ok s" using q by (simp add: quiet_def)
  have "n \<in> set (dkeys (sc_states s))" using state_of_unknown [of n s] due by (cases "n \<in> set (dkeys (sc_states s))") auto
  then obtain st0 where "dget (sc_states s) n = Some st0" by (metis dget_None_iff option.exhaust)
  then have "(n, state_of s n) \<in> set (sc_states s)" by (simp add: state_of_def dget_Some_in)
  then obtain x m0 where so: "soonest (sc_states s) = Some (x, m0)" "x \<le> r"
    using soonest_least [OF _ due] by blast
  then have m0: "m0 \<in> due_by r s" using ok soonest_in [OF so(1)]
    by (auto simp: due_by_def state_of_def sched_ok_def tables_ok_def dest: dget_in_dwf)
  obtain m s1 where nj: "next_job (t_now k) s = (Take m, s1)"
    and pick: "(\<exists>qs. sc_queue s = m # qs \<and> sc_queue s1 = qs) \<or> sc_queue s = [] \<and> sc_queue s1 = [] \<and> m = m0"
    using so tk by (cases "sc_queue s") (auto simp: next_job_def)
  obtain job s' st where r: "worker_round tz t k s = (Some m, s')" "quiet t s'" "dget (sc_jobs s) m = Some job"
    "sc_queue s' = sc_queue s1" "\<And>p. state_of s' p = (if p = m then st else state_of s p)"
    "next_run st = next_after_run tz job (t_end k)"
    using round_effect [OF q nj, of tz] by metis
  have gone: "m \<notin> due_by r s'" using r tk next_after_run_later [of tz job "t_end k"] by (auto simp: due_by_def)
  have sub: "due_by r s' \<subseteq> due_by r s - {m}"
    using gone r(5) by (auto simp: due_by_def split: if_splits)
  have "ahead r s' < ahead r s" using pick
  proof
    assume "\<exists>qs. sc_queue s = m # qs \<and> sc_queue s1 = qs"
    moreover have "card (due_by r s') \<le> card (due_by r s)" using sub by (intro card_mono finite_due_by [OF ok]) blast
    ultimately show ?thesis using r(4) by (auto simp: ahead_def)
  next
    assume "sc_queue s = [] \<and> sc_queue s1 = [] \<and> m = m0"
    moreover have "card (due_by r s') < card (due_by r s)" if "m \<in> due_by r s"
      using sub that by (intro psubset_card_mono finite_due_by [OF ok]) blast
    ultimately show ?thesis using r(4) m0 by (simp add: ahead_def)
  qed
  with that r due show thesis by simp
qed

lemma due_job_gets_run:
  assumes "quiet t s" and "next_run (state_of s n) = Some r"
    and "\<forall>k\<in>set ks. r \<le> t_now k \<and> r \<le> t_end k" and "ahead r s \<le> length ks"
  shows "n \<in> set (fst (worker_rounds tz t ks s))"
  using assms
proof (induction ks arbitrary: s)
  case Nil
  have "n \<in> due_by r s" using Nil.prems by (simp add: due_by_def)
  moreover have "finite (due_by r s)" using Nil.prems by (simp add: quiet_def finite_due_by)
  ultimately have "0 < card (due_by r s)" by (auto simp: card_gt_0_iff)
  with Nil.prems show ?case by (simp add: ahead_def)
next
  case (Cons k ks)
  obtain m s' where r: "worker_round tz t k s = (Some m, s')"
    "m \<noteq> n \<Longrightarrow> quiet t s' \<and> next_run (state_of s' n) = Some r \<and> ahead r s' < ahead r s"
    using round_progress [OF Cons.prems(1,2), of k tz] Cons.prems(3) by auto
  show ?case
  proof (cases "m = n")
    case True
    with r show ?thesis by (simp add: Let_def split: prod.splits)
  next
    case False
    with r Cons.IH [of s'] Cons.prems(3,4) have "n \<in> set (fst (worker_rounds tz t ks s'))" by simp
    with r show ?thesis by (cases "worker_rounds tz t ks s'") (simp add: Let_def)
  qed
qed

lemma ahead_bound: "sched_ok s \<Longrightarrow> ahead r s \<le> length (sc_queue s) + length (sc_jobs s)"
  using card_mono [OF _ due_by_known, of s r] card_length [of "dkeys (sc_jobs s)"]
  by (simp add: ahead_def dkeys_def)

section \<open>The properties\<close>

text \<open>A small instance: a periodic job due at once and a nightly one, with the worker started.\<close>

definition demo_jobs :: "job list" where
  "demo_jobs =
     [\<lparr>j_name = ''digest'', j_interval_sec = 0, j_run_at_start = False, j_at_hour = Some 3, j_description = [],
       j_budget_sec = None\<rparr>,
      \<lparr>j_name = ''scan'', j_interval_sec = 600, j_run_at_start = True, j_at_hour = None, j_description = [],
       j_budget_sec = None\<rparr>]"

definition demo_sched :: sched where
  "demo_sched = (case new_scheduler demo_jobs [] of
     Inl _ \<Rightarrow> undefined | Inr s \<Rightarrow> snd (run_now ''digest'' 0 0 (start (\<lambda>_. 0) 0 s)))"

lemma demo_new: "new_scheduler demo_jobs [] = Inr
   \<lparr>sc_jobs = map (\<lambda>j. (j_name j, j)) demo_jobs, sc_states = [(''digest'', fresh_state), (''scan'', fresh_state)],
    sc_queue = [], sc_stop = False, sc_handle = None, sc_threads = [], sc_next_tid = 0, sc_done = [], sc_rows = [],
    sc_events = [], sc_metrics = []\<rparr>"
  by (simp add: new_scheduler_def demo_jobs_def load_history_def dget_Cons)

lemma demo_reach: "sched_reach (\<lambda>_. 0) demo_jobs [] demo_sched"
  unfolding demo_sched_def demo_new sum.case
  by (intro reach_step [OF reach_step [OF reach_init [OF demo_new] step_start] step_run_now])

lemma demo_fields:
  "sc_threads demo_sched = [(0, Polling)]" "sc_stop demo_sched = False" "sc_queue demo_sched = [''digest'']"
  "length (sc_jobs demo_sched) = 2" "next_run (state_of demo_sched ''scan'') = Some 0"
  unfolding demo_sched_def demo_new sum.case
  by (simp_all add: demo_jobs_def start_def is_alive_def schedule_job_def spawn_def run_now_def
      state_of_def put_state_def persist_def dget_Cons initial_next_run_def manual_only_def fresh_state_def Let_def)

text \<open>
  C11. No job ever runs twice at once or waits twice: in every reachable state of the
  scheduler's threads, whatever the interleaving of the worker loop, requests, inline runs,
  restarts and watchdog passes, at most one thread is inside a job's function and the queue
  holds the job at most once.
\<close>

theorem job_never_overlaps:
  assumes "sched_reach tz jobs rows s" and "\<forall>(n, row)\<in>set rows. jr_failures row \<le> jr_runs row"
  shows "length (running_threads n s) \<le> 1 \<and> length (filter (\<lambda>m. m = n) (sc_queue s)) \<le> 1"
proof -
  have ok: "sched_ok s" using reach_ok [OF assms] .
  then have "length (running_threads n s) = of_bool (locked (state_of s n))" by (simp add: sched_ok_def locks_ok_def)
  moreover have "distinct (sc_queue s)" using ok by (simp add: sched_ok_def queue_ok_def)
  moreover have "length (filter (\<lambda>m. m = n) xs) \<le> 1" if "distinct xs" for xs :: "str list"
    using that by (induction xs) (auto simp: filter_empty_conv)
  ultimately show ?thesis by simp
qed

lemma job_never_overlaps_witness:
  "length (running_threads ''scan'' demo_sched) \<le> 1 \<and> length (filter (\<lambda>m. m = ''scan'') (sc_queue demo_sched)) \<le> 1"
  by (rule job_never_overlaps [OF demo_reach]) simp

text \<open>
  C12. A due job is not starved: once a job's time has come, and while the worker is the only
  thread running jobs and \<open>stop\<close> is not signalled, it is among the jobs the worker runs in
  its next turns, at most one turn for every queued request and every job of the table,
  whatever the jobs' outcomes, their durations and the success of the database writes.
\<close>

theorem due_job_runs:
  assumes "sched_reach tz jobs rows s" and "\<forall>(n, row)\<in>set rows. jr_failures row \<le> jr_runs row"
    and "dget (sc_threads s) t = Some Polling" and "\<not> sc_stop s" and "\<forall>x\<in>set (sc_threads s). runs_job (snd x) = None"
    and "next_run (state_of s n) = Some r" and "\<forall>k\<in>set ks. r \<le> t_now k \<and> r \<le> t_end k"
    and "length (sc_queue s) + length (sc_jobs s) \<le> length ks"
  shows "n \<in> set (fst (worker_rounds tz t ks s))"
proof (rule due_job_gets_run [OF _ assms(6,7)])
  have ok: "sched_ok s" by (rule reach_ok [OF assms(1,2)])
  have "running_threads m s = []" for m
    using assms(5) by (auto simp: running_threads_def filter_empty_conv)
  with ok have "\<not> locked (state_of s m)" for m by (auto simp: sched_ok_def locks_ok_def dest!: spec [of _ m])
  with ok assms(3,4) show "quiet t s" by (simp add: quiet_def)
  show "ahead r s \<le> length ks" using ahead_bound [OF ok, of r] assms(8) by simp
qed

lemma due_job_runs_witness:
  "''scan'' \<in> set (fst (worker_rounds (\<lambda>_. 0) 0
     (map (\<lambda>i. \<lparr>t_mono = i, t_now = i, t_end = i + 5, t_err = Some ''OSError: no route'', t_writes = 0\<rparr>) [1, 10, 20]) demo_sched))"
  by (rule due_job_runs [OF demo_reach, where r = 0]) (simp_all add: demo_fields dget_Cons)

text \<open>
  A job with a fixed hour runs next at exactly that hour (clamped to 0 to 23) of the local
  time in force now, strictly later than now and at most a day later.
\<close>

theorem next_local_hour_in_a_day:
  "next_local_hour tz h now \<in> {now<..now + DAY} \<and>
   (next_local_hour tz h now + tz now) mod DAY = max 0 (min 23 h) * HOUR"
  using next_local_hour_bounds [where now = now and tz = tz and h = h] by simp

section \<open>What the interleavings show\<close>

text \<open>
  Across a change of the zone's offset the computed instant is not the hour in local time: with
  the clocks going forward an hour at two in the morning, the three o'clock run is computed for
  four o'clock.
\<close>

lemma next_local_hour_ignores_dst:
  "let tz = (\<lambda>t. if t < 2 * HOUR then 0 else HOUR); r = next_local_hour tz 3 0
   in (r + tz r) mod DAY = 4 * HOUR"
  by (simp add: next_local_hour_def Let_def)

text \<open>
  \<open>stop\<close> forgets the worker when its join times out; a later \<open>start\<close> clears the flag
  the old worker still has to see and adds a second worker, so two jobs run at once.
\<close>

lemma restart_leaves_two_workers:
  assumes "sc_handle s = Some t" and "dget (sc_threads s) t = Some (Running n a)" and "sc_next_tid s \<noteq> t"
  shows "\<exists>u. u \<noteq> t \<and> dget (sc_threads (start tz now (stop_joined (stop_signal s)))) u = Some Polling \<and>
    dget (sc_threads (start tz now (stop_joined (stop_signal s)))) t = Some (Running n a) \<and>
    \<not> sc_stop (start tz now (stop_joined (stop_signal s)))"
proof -
  let ?s = "s\<lparr>sc_stop := False, sc_handle := None\<rparr>"
  have keep: "sc_threads (fold (schedule_job tz now) js u) = sc_threads u \<and> sc_next_tid (fold (schedule_job tz now) js u) = sc_next_tid u \<and>
      sc_stop (fold (schedule_job tz now) js u) = sc_stop u" for js u
    by (induction js arbitrary: u) (simp_all add: schedule_job_def split: prod.splits)
  show ?thesis
    by (rule exI [of _ "sc_next_tid s"])
      (simp add: start_def stop_joined_def stop_signal_def is_alive_def Let_def spawn_def keep assms(2,3) assms(3) [symmetric])
qed

text \<open>
  A request made between the end of a run and its wake-up is woken by the old run: the caller of
  \<open>run_now(wait=True)\<close> is released while the job is still queued.
\<close>

lemma stale_wake_releases_waiter:
  assumes "is_alive s" and "dget (sc_threads s) t = Some (Signalling n)" and "dget (sc_jobs s) n = Some job"
    and "\<not> running (state_of s n)" and "\<not> queued (state_of s n)"
  shows "dget (sc_done (signal t n (snd (run_now n mn now s)))) n = Some True \<and>
    n \<in> set (sc_queue (signal t n (snd (run_now n mn now s))))"
  using assms by (simp add: run_now_def signal_def set_thread_def)

end
