(* ===== verification/Vulns_Cpe.thy ===== *)
theory Vulns_Cpe
  imports Py_Net "HOL-Library.Product_Lexorder"
begin

text \<open>
  CPE names and tolerant version comparison (\<open>homesoc/vulns/cpe.py\<close>). Regular expressions are
  written as the scanners they denote (each has at most one way to match at a position, so
  backtracking never changes the result). Percent escapes of bytes above 127 are kept as bytes.
\<close>

named_theorems version_simps "facts about version keys and their comparison"

section \<open>Version keys\<close>

definition PRERELEASE :: "str list" where
  "PRERELEASE = [''alpha'', ''a'', ''beta'', ''b'', ''rc'', ''pre'', ''dev'', ''snapshot'', ''preview'']"

definition EMPTY_VERSION :: "str list" where
  "EMPTY_VERSION = [[], ''*'', ''-'', ''unknown'', ''any'']"

lemma length_dropWhile_less [termination_simp]: "length (dropWhile P xs) < Suc (length xs)"
  by (simp add: length_dropWhile_le less_Suc_eq_le)

text \<open>\<open>re.findall\<close> of \<open>\d+|[A-Za-z]+\<close>: the maximal runs of digits and of letters.\<close>

fun version_tokens :: "str \<Rightarrow> str list" where
  "version_tokens [] = []"
| "version_tokens (c # s) =
     (if is_digit c then (c # takeWhile is_digit s) # version_tokens (dropWhile is_digit s)
      else if is_alpha c then (c # takeWhile is_alpha s) # version_tokens (dropWhile is_alpha s)
      else version_tokens s)"

type_synonym vpart = "nat \<times> nat \<times> str"

definition version_part :: "str \<Rightarrow> bool \<Rightarrow> vpart" where
  "version_part tok followed_by_digit =
     (if all_digits tok then (1, dec_val tok, [])
      else if lower tok \<in> set PRERELEASE \<and> (1 < length (lower tok) \<or> followed_by_digit) then (0, 0, lower tok)
      else (2, 0, lower tok))"

fun version_parts :: "str list \<Rightarrow> vpart list" where
  "version_parts [] = []"
| "version_parts (t # ts) = version_part t (ts \<noteq> [] \<and> all_digits (hd ts)) # version_parts ts"

definition or_empty :: "str option \<Rightarrow> str" where
  "or_empty v = (case v of None \<Rightarrow> [] | Some s \<Rightarrow> s)"

definition version_key :: "str option \<Rightarrow> vpart list" where
  "version_key v = version_parts (version_tokens (or_empty v))"

definition pad :: vpart where "pad = (1, 0, [])"

definition pad_to :: "nat \<Rightarrow> vpart list \<Rightarrow> vpart list" where
  "pad_to n k = k @ replicate (n - length k) pad"

definition compare_versions :: "str option \<Rightarrow> str option \<Rightarrow> int" where
  "compare_versions a b =
     (let ka = version_key a; kb = version_key b; n = max (length ka) (length kb);
          ka = pad_to n ka; kb = pad_to n kb
      in of_bool (kb < ka) - of_bool (ka < kb))"

definition version_le :: "str option \<Rightarrow> str option \<Rightarrow> bool" where
  "version_le a b \<longleftrightarrow> compare_versions a b \<le> 0"

fun max_version_from :: "str option \<Rightarrow> str list \<Rightarrow> str option" where
  "max_version_from best [] = best"
| "max_version_from best (v # vs) =
     (if best = None \<or> 0 < compare_versions (Some v) best then max_version_from (Some v) vs
      else max_version_from best vs)"

definition max_version :: "str list \<Rightarrow> str option" where
  "max_version vs = max_version_from None vs"

section \<open>Versions in text\<close>

definition word_char :: "char \<Rightarrow> bool" where
  "word_char c \<longleftrightarrow> is_alpha c \<or> is_digit c \<or> c = CHR ''_''"

text \<open>\<open>(?:\.\d+)+\<close>, as much as possible: what it consumes and what is left.\<close>

fun dotted :: "str \<Rightarrow> str \<times> str" where
  "dotted (c # d # s) =
     (if c = CHR ''.'' \<and> is_digit d
      then (let (m, r) = dotted (dropWhile is_digit s) in (c # d # takeWhile is_digit s @ m, r))
      else ([], c # d # s))"
| "dotted s = ([], s)"

text \<open>\<open>(?:[A-Za-z]+\d*)?\<close>\<close>

definition suffix_run :: "str \<Rightarrow> str \<times> str" where
  "suffix_run s = (if s \<noteq> [] \<and> is_alpha (hd s)
     then (takeWhile is_alpha s @ takeWhile is_digit (dropWhile is_alpha s), dropWhile is_digit (dropWhile is_alpha s))
     else ([], s))"

text \<open>The group of \<open>_VERSION_IN_TEXT\<close> at the start of \<open>s\<close> and the rest, after the lookbehind.\<close>

definition version_at :: "str \<Rightarrow> (str \<times> str) option" where
  "version_at s0 =
     (let s = (case s0 of c # r \<Rightarrow> if c = CHR ''v'' then r else s0 | [] \<Rightarrow> s0);
          num = takeWhile is_digit s; (dots, r1) = dotted (dropWhile is_digit s); (suf, r2) = suffix_run r1
      in if num = [] \<or> dots = [] then None
         else if r2 \<noteq> [] \<and> (word_char (hd r2) \<or> hd r2 = CHR ''.'') then None
         else Some (num @ dots @ suf, r2))"

lemma dotted_length: "length (snd (dotted s)) \<le> length s"
  by (induction s rule: dotted.induct)
    (auto simp: case_prod_unfold Let_def intro: order_trans [OF _ le_SucI] order_trans [OF _ length_dropWhile_le])

lemma suffix_run_length: "length (snd (suffix_run s)) \<le> length s"
  by (auto simp: suffix_run_def intro: order_trans [OF length_dropWhile_le length_dropWhile_le])

lemma version_at_shorter:
  assumes "version_at s0 = Some (v, r)"
  shows "length r < length s0"
proof -
  define s where "s = (case s0 of c # r \<Rightarrow> if c = CHR ''v'' then r else s0 | [] \<Rightarrow> s0)"
  have le: "length s \<le> length s0" by (auto simp: s_def split: list.splits)
  have num: "takeWhile is_digit s \<noteq> []" and r: "r = snd (suffix_run (snd (dotted (dropWhile is_digit s))))"
    using assms by (auto simp: version_at_def s_def [symmetric] Let_def case_prod_unfold split: if_splits)
  have "length s = length (takeWhile is_digit s) + length (dropWhile is_digit s)"
    by (metis length_append takeWhile_dropWhile_id)
  with num have "length (dropWhile is_digit s) < length s" by simp
  with le r suffix_run_length dotted_length show ?thesis by (metis le_less_trans less_le_trans)
qed

text \<open>\<open>finditer\<close>: \<open>prev_free\<close> says that the character before is not a word character or a dot.\<close>

function find_versions :: "bool \<Rightarrow> str \<Rightarrow> str list" where
  "find_versions prev_free [] = []"
| "find_versions prev_free (c # s) =
     (case (if prev_free then version_at (c # s) else None) of
        Some (v, r) \<Rightarrow> v # find_versions False r
      | None \<Rightarrow> find_versions (\<not> (word_char c \<or> c = CHR ''.'')) s)"
  by pat_completeness auto
termination
  by (relation "measure (length \<circ> snd)") (auto dest: version_at_shorter split: if_splits)

definition extract_versions :: "str option \<Rightarrow> str list" where
  "extract_versions t = (case t of None \<Rightarrow> [] | Some s \<Rightarrow> find_versions True s)"

section \<open>CPE names\<close>

record cpe =
  c_part :: str
  c_vendor :: str
  c_product :: str
  c_version :: "str option"

definition nvd_name :: "cpe \<Rightarrow> str" where
  "nvd_name c = ''cpe:2.3:'' @ c_part c @ '':'' @ c_vendor c @ '':'' @ c_product c @ '':'' @
     (case c_version c of None \<Rightarrow> ''*'' | Some v \<Rightarrow> if v = [] then ''*'' else v) @ '':*:*:*:*:*:*:*''"

definition cpe_label :: "cpe \<Rightarrow> str" where
  "cpe_label c =
     (let base = (if c_vendor c \<noteq> c_product c then c_vendor c @ ''/'' @ c_product c else c_product c)
      in case c_version c of None \<Rightarrow> base | Some v \<Rightarrow> if v = [] then base else base @ '' '' @ v)"

definition none_if_empty :: "str \<Rightarrow> str option" where
  "none_if_empty version = (let v = strip version in if lower v \<in> set EMPTY_VERSION then None else Some v)"

text \<open>\<open>_split_23\<close>: colons separate, a backslash takes the next character literally.\<close>

fun split_23_aux :: "str \<Rightarrow> bool \<Rightarrow> str \<Rightarrow> str list" where
  "split_23_aux cur escaped [] = [rev cur]"
| "split_23_aux cur escaped (ch # s) =
     (if escaped then split_23_aux (ch # cur) False s
      else if ch = CHR 0x5C then split_23_aux cur True s
      else if ch = CHR '':'' then rev cur # split_23_aux [] False s
      else split_23_aux (ch # cur) False s)"

definition split_23 :: "str \<Rightarrow> str list" where
  "split_23 body = split_23_aux [] False body"

text \<open>\<open>urllib.parse.unquote\<close>.\<close>

fun unquote :: "str \<Rightarrow> str" where
  "unquote (c # h # l # s) =
     (if c = CHR ''%'' \<and> is_hex h \<and> is_hex l then char_of (hex_val [h, l]) # unquote s
      else c # unquote (h # l # s))"
| "unquote s = s"

datatype cpe_error = NotCpe | IncompleteCpe | BadPart str

definition parse_cpe :: "str \<Rightarrow> cpe_error + cpe" where
  "parse_cpe s =
     (let text = strip s;
          fields = (if prefix ''cpe:2.3:'' (lower text) then Some (split_23 (drop (length ''cpe:2.3:'') text))
                    else if prefix ''cpe:/'' (lower text) then Some (split_on CHR '':'' (drop (length ''cpe:/'') text))
                    else None)
      in case fields of
        None \<Rightarrow> Inl NotCpe
      | Some fs0 \<Rightarrow>
          (let fs = map (\<lambda>f. strip (unquote f)) fs0
           in if length fs < 3 \<or> fs ! 0 = [] \<or> fs ! 1 = [] \<or> fs ! 2 = [] then Inl IncompleteCpe
              else if lower (fs ! 0) \<notin> {''a'', ''o'', ''h''} then Inl (BadPart (lower (fs ! 0)))
              else Inr \<lparr>c_part = lower (fs ! 0), c_vendor = lower (fs ! 1), c_product = lower (fs ! 2),
                         c_version = none_if_empty (if 3 < length fs then fs ! 3 else [])\<rparr>))"

section \<open>Guessing from a banner\<close>

definition ALIASES :: "(str, str \<times> str) dict" where
  "ALIASES =
     [(''lighttpd'', ''lighttpd'', ''lighttpd''), (''unbound'', ''nlnetlabs'', ''unbound''),
      (''openssh'', ''openbsd'', ''openssh''), (''nginx'', ''f5'', ''nginx''),
      (''apache httpd'', ''apache'', ''http_server''), (''apache http server'', ''apache'', ''http_server''),
      (''dropbear'', ''dropbear_ssh_project'', ''dropbear_ssh''), (''busybox'', ''busybox'', ''busybox''),
      (''samba'', ''samba'', ''samba''), (''vsftpd'', ''vsftpd_project'', ''vsftpd''),
      (''proftpd'', ''proftpd'', ''proftpd''), (''mysql'', ''oracle'', ''mysql''),
      (''mariadb'', ''mariadb'', ''mariadb''), (''postgresql'', ''postgresql'', ''postgresql''),
      (''redis'', ''redis'', ''redis''), (''mongodb'', ''mongodb'', ''mongodb''),
      (''hikvision'', ''hikvision'', ''hikvision''), (''dahua'', ''dahua'', ''dahua''),
      (''miniupnpd'', ''miniupnp_project'', ''miniupnpd''), (''miniupnp'', ''miniupnp_project'', ''miniupnpd''),
      (''dnsmasq'', ''thekelleys'', ''dnsmasq''), (''libupnp'', ''libupnp_project'', ''libupnp''),
      (''portable sdk for upnp'', ''libupnp_project'', ''libupnp''), (''upnp'', ''libupnp_project'', ''libupnp''),
      (''cups'', ''apple'', ''cups''), (''avahi'', ''avahi'', ''avahi''),
      (''microsoft iis'', ''microsoft'', ''internet_information_services''),
      (''iis'', ''microsoft'', ''internet_information_services''),
      (''terminal services'', ''microsoft'', ''remote_desktop_services''),
      (''ms-wbt-server'', ''microsoft'', ''remote_desktop_services''),
      (''rdp'', ''microsoft'', ''remote_desktop_services'')]"

text \<open>\<open>sorted(_ALIASES, key=len, reverse=True)\<close>: longest first, stable.\<close>

definition ALIAS_KEYS :: "str list" where
  "ALIAS_KEYS = sort_key (\<lambda>k. - int (length k)) (dkeys ALIASES)"

text \<open>\<open>_CLEAN_VERSION.search\<close>: the group of the leftmost match.\<close>

definition version_run :: "str \<Rightarrow> str" where
  "version_run s = takeWhile (\<lambda>c. word_char c \<or> c \<in> set ''.+-'') s"

fun clean_search :: "str \<Rightarrow> str option" where
  "clean_search [] = None"
| "clean_search (c # s) =
     (if is_digit c then Some (version_run (c # s))
      else if c \<in> set ''vV'' \<and> s \<noteq> [] \<and> is_digit (hd s) then Some (version_run s)
      else clean_search s)"

definition clean_version :: "str option \<Rightarrow> str option" where
  "clean_version version = (case version of
       None \<Rightarrow> None
     | Some v \<Rightarrow> if v = [] then None else (case clean_search v of
           None \<Rightarrow> None
         | Some m \<Rightarrow> none_if_empty (rstrip_by (\<lambda>c. c \<in> set ''.-+'') m)))"

definition guess_cpe :: "str \<Rightarrow> str option \<Rightarrow> cpe option" where
  "guess_cpe product version =
     (let text = lower (strip product)
      in if text = [] then None
         else first_some (\<lambda>key. if sublist key text
           then map_option (\<lambda>(vendor, prod). \<lparr>c_part = ''a'', c_vendor = vendor, c_product = prod,
                  c_version = clean_version version\<rparr>) (dget ALIASES key)
           else None) ALIAS_KEYS)"

section \<open>The order of versions\<close>

text \<open>
  What a consumer of the comparison relies on: antisymmetry of the sign and transitivity. The
  loop that keeps the best version seen so far is proved against these laws alone.
\<close>

locale version_order =
  fixes cmp :: "'a option \<Rightarrow> 'a option \<Rightarrow> int"
    and pick :: "'a option \<Rightarrow> 'a list \<Rightarrow> 'a option"
  assumes cmp_anti: "cmp b a = - cmp a b"
    and cmp_trans: "cmp a b \<le> 0 \<Longrightarrow> cmp b c \<le> 0 \<Longrightarrow> cmp a c \<le> 0"
    and pick_Nil: "pick best [] = best"
    and pick_Cons: "pick best (v # vs) = (if best = None \<or> 0 < cmp (Some v) best then pick (Some v) vs else pick best vs)"
begin

lemma cmp_refl: "cmp a a = 0"
  using cmp_anti [of a a] by simp

lemma cmp_total: "cmp a b \<le> 0 \<or> cmp b a \<le> 0"
  using cmp_anti [of a b] by linarith

lemma pick_some: "pick (Some b) vs \<noteq> None"
  by (induction vs arbitrary: b) (simp_all add: pick_Nil pick_Cons)

lemma pick_from: "pick (Some b) vs = Some m \<Longrightarrow> (m = b \<or> m \<in> set vs) \<and> (\<forall>v\<in>insert b (set vs). cmp (Some v) (Some m) \<le> 0)"
proof (induction vs arbitrary: b)
  case Nil
  then show ?case by (simp add: pick_Nil cmp_refl)
next
  case (Cons v vs)
  show ?case
  proof (cases "0 < cmp (Some v) (Some b)")
    case True
    then have bv: "cmp (Some b) (Some v) \<le> 0" using cmp_anti [of "Some b" "Some v"] by simp
    from True Cons.prems have "pick (Some v) vs = Some m" by (simp add: pick_Cons)
    from Cons.IH [OF this] cmp_trans [OF bv, of "Some m"] show ?thesis by auto
  next
    case False
    then have vb: "cmp (Some v) (Some b) \<le> 0" by simp
    from False Cons.prems have "pick (Some b) vs = Some m" by (simp add: pick_Cons)
    from Cons.IH [OF this] cmp_trans [OF vb, of "Some m"] show ?thesis by auto
  qed
qed

lemma pick_max:
  assumes "pick None vs = Some m"
  shows "m \<in> set vs \<and> (\<forall>v\<in>set vs. cmp (Some v) (Some m) \<le> 0)"
proof (cases vs)
  case Nil
  with assms show ?thesis by (simp add: pick_Nil)
next
  case (Cons v ws)
  with assms have "pick (Some v) ws = Some m" by (simp add: pick_Cons)
  from pick_from [OF this] Cons show ?thesis by auto
qed

lemma pick_None_iff: "pick None vs = None \<longleftrightarrow> vs = []"
  by (cases vs) (simp_all add: pick_Nil pick_Cons pick_some)

text \<open>Below the highest is the same as below some of them.\<close>

lemma below_pick:
  assumes "pick None vs = Some m"
  shows "cmp a (Some m) \<le> 0 \<longleftrightarrow> (\<exists>v\<in>set vs. cmp a (Some v) \<le> 0)"
  using pick_max [OF assms] cmp_trans by blast

end

text \<open>A key as the sequence it stands for: missing parts are zero components.\<close>

definition part_at :: "vpart list \<Rightarrow> nat \<Rightarrow> vpart" where
  "part_at k i = (if i < length k then k ! i else pad)"

definition key_less :: "vpart list \<Rightarrow> vpart list \<Rightarrow> bool" where
  "key_less a b \<longleftrightarrow> (\<exists>i. (\<forall>j<i. part_at a j = part_at b j) \<and> part_at a i < part_at b i)"

lemma list_less_nth:
  fixes xs ys :: "'a :: linorder list"
  assumes "length xs = length ys"
  shows "xs < ys \<longleftrightarrow> (\<exists>i<length xs. (\<forall>j<i. xs ! j = ys ! j) \<and> xs ! i < ys ! i)"
  using assms
proof (induction xs ys rule: list_induct2)
  case (Cons x xs y ys)
  have "(\<exists>i<length (x # xs). (\<forall>j<i. (x # xs) ! j = (y # ys) ! j) \<and> (x # xs) ! i < (y # ys) ! i) \<longleftrightarrow>
      x < y \<or> x = y \<and> (\<exists>i<length xs. (\<forall>j<i. xs ! j = ys ! j) \<and> xs ! i < ys ! i)"
  proof
    assume "\<exists>i<length (x # xs). (\<forall>j<i. (x # xs) ! j = (y # ys) ! j) \<and> (x # xs) ! i < (y # ys) ! i"
    then obtain i where i: "i < length (x # xs)" "\<forall>j<i. (x # xs) ! j = (y # ys) ! j" "(x # xs) ! i < (y # ys) ! i" by blast
    show "x < y \<or> x = y \<and> (\<exists>i<length xs. (\<forall>j<i. xs ! j = ys ! j) \<and> xs ! i < ys ! i)"
    proof (cases i)
      case (Suc k)
      with i have "x = y" "\<forall>j<k. xs ! j = ys ! j" by (auto dest: spec [of _ "Suc _"] spec [of _ 0])
      with i Suc show ?thesis by auto
    qed (use i in simp)
  next
    assume "x < y \<or> x = y \<and> (\<exists>i<length xs. (\<forall>j<i. xs ! j = ys ! j) \<and> xs ! i < ys ! i)"
    then show "\<exists>i<length (x # xs). (\<forall>j<i. (x # xs) ! j = (y # ys) ! j) \<and> (x # xs) ! i < (y # ys) ! i"
    proof
      assume "x = y \<and> (\<exists>i<length xs. (\<forall>j<i. xs ! j = ys ! j) \<and> xs ! i < ys ! i)"
      then obtain i where "x = y" "i < length xs" "\<forall>j<i. xs ! j = ys ! j" "xs ! i < ys ! i" by blast
      then show ?thesis by (intro exI [of _ "Suc i"]) (auto simp: nth_Cons split: nat.splits)
    qed (intro exI [of _ 0], simp)
  qed
  with Cons.IH show ?case by simp
qed simp

lemma nth_pad_to: "i < n \<Longrightarrow> length k \<le> n \<Longrightarrow> pad_to n k ! i = part_at k i"
  by (simp add: pad_to_def part_at_def nth_append)

lemma length_pad_to: "length k \<le> n \<Longrightarrow> length (pad_to n k) = n"
  by (simp add: pad_to_def)

lemma pad_to_less:
  assumes "length a \<le> n" "length b \<le> n"
  shows "pad_to n a < pad_to n b \<longleftrightarrow> key_less a b"
proof -
  have "i < n" if "part_at a i < part_at b i" for i
    using that assms by (auto simp: part_at_def not_less split: if_splits)
  then have "key_less a b \<longleftrightarrow> (\<exists>i<n. (\<forall>j<i. part_at a j = part_at b j) \<and> part_at a i < part_at b i)"
    unfolding key_less_def by blast
  moreover have "(\<forall>j<i. pad_to n a ! j = pad_to n b ! j) \<longleftrightarrow> (\<forall>j<i. part_at a j = part_at b j)" if "i < n" for i
    using that assms by (simp add: nth_pad_to)
  ultimately show ?thesis
    using assms by (auto simp: list_less_nth length_pad_to nth_pad_to)
qed

lemma compare_versions_key [version_simps]:
  "compare_versions a b = of_bool (key_less (version_key b) (version_key a)) - of_bool (key_less (version_key a) (version_key b))"
  by (simp add: compare_versions_def Let_def pad_to_less)

lemma key_less_trans: "key_less a b \<Longrightarrow> key_less b c \<Longrightarrow> key_less a c"
proof -
  assume "key_less a b" "key_less b c"
  then obtain i k where i: "\<forall>j<i. part_at a j = part_at b j" "part_at a i < part_at b i"
    and k: "\<forall>j<k. part_at b j = part_at c j" "part_at b k < part_at c k" by (auto simp: key_less_def)
  have "\<forall>j<min i k. part_at a j = part_at c j" using i(1) k(1) by simp
  moreover have "part_at a (min i k) < part_at c (min i k)"
  proof (cases i k rule: linorder_cases)
    case less
    then have "part_at b i = part_at c i" using k by simp
    with less i show ?thesis by (simp add: min_def)
  next
    case equal
    with i k less_trans show ?thesis by (metis min.idem)
  next
    case greater
    then have "part_at a k = part_at b k" using i by simp
    with greater k show ?thesis by (simp add: min_def)
  qed
  ultimately show "key_less a c" unfolding key_less_def by blast
qed

lemma key_less_irrefl: "\<not> key_less a a"
  by (simp add: key_less_def)

lemma key_less_asym: "key_less a b \<Longrightarrow> \<not> key_less b a"
  using key_less_trans key_less_irrefl by blast

lemma key_not_less: "\<not> key_less a b \<Longrightarrow> \<not> key_less b a \<Longrightarrow> part_at a = part_at b"
proof (rule ccontr)
  assume n: "\<not> key_less a b" "\<not> key_less b a" and "part_at a \<noteq> part_at b"
  then have "\<exists>i. part_at a i \<noteq> part_at b i" by (auto simp: fun_eq_iff)
  then obtain i where i: "part_at a i \<noteq> part_at b i" "\<forall>j<i. part_at a j = part_at b j"
    by (subst (asm) exists_least_iff) auto
  from i(1) show False
  proof (rule linorder_neqE)
    assume "part_at a i < part_at b i"
    with i(2) have "key_less a b" unfolding key_less_def by (intro exI conjI)
    with n show False by simp
  next
    assume "part_at b i < part_at a i"
    moreover have "\<forall>j<i. part_at b j = part_at a j" using i(2) by simp
    ultimately have "key_less b a" unfolding key_less_def by (intro exI conjI)
    with n show False by simp
  qed
qed

lemma compare_nonpos [version_simps]: "compare_versions a b \<le> 0 \<longleftrightarrow> \<not> key_less (version_key b) (version_key a)"
  using key_less_asym by (auto simp: compare_versions_key)

lemma compare_trans:
  assumes "compare_versions a b \<le> 0" and "compare_versions b c \<le> 0"
  shows "compare_versions a c \<le> 0"
proof (rule ccontr)
  let ?a = "version_key a" and ?b = "version_key b" and ?c = "version_key c"
  assume "\<not> compare_versions a c \<le> 0"
  then have ca: "key_less ?c ?a" by (simp add: compare_nonpos)
  have ba: "\<not> key_less ?b ?a" and cb: "\<not> key_less ?c ?b" using assms by (simp_all add: compare_nonpos)
  show False
  proof (cases "key_less ?a ?b")
    case True
    with ca cb show False using key_less_trans by blast
  next
    case False
    with ba have "part_at ?a = part_at ?b" by (rule key_not_less [rotated])
    with ca cb show False by (simp add: key_less_def)
  qed
qed

interpretation vo: version_order compare_versions max_version_from
proof
  show "compare_versions b a = - compare_versions a b" for a b by (simp add: compare_versions_key)
qed (simp_all add: compare_trans)

lemma max_version_below:
  "max_version vs = Some m \<Longrightarrow> version_le a (Some m) \<longleftrightarrow> (\<exists>v\<in>set vs. version_le a (Some v))"
  unfolding max_version_def version_le_def by (rule vo.below_pick)

lemma max_version_None [simp]: "max_version vs = None \<longleftrightarrow> vs = []"
  unfolding max_version_def by (rule vo.pick_None_iff)

section \<open>Printing and parsing\<close>

definition plain_field :: "str \<Rightarrow> bool" where
  "plain_field f \<longleftrightarrow> f \<noteq> [] \<and> strip f = f \<and> list_all (\<lambda>c. c \<notin> {CHR '':'', CHR 0x5C, CHR ''%''}) f"

text \<open>A normalised name without characters that CPE 2.3 escapes.\<close>

definition plain_cpe :: "cpe \<Rightarrow> bool" where
  "plain_cpe c \<longleftrightarrow> c_part c \<in> {''a'', ''o'', ''h''} \<and>
     plain_field (c_vendor c) \<and> lower (c_vendor c) = c_vendor c \<and>
     plain_field (c_product c) \<and> lower (c_product c) = c_product c \<and>
     (case c_version c of None \<Rightarrow> True | Some v \<Rightarrow> plain_field v \<and> lower v \<notin> set EMPTY_VERSION)"

lemma split_23_plain:
  assumes "CHR '':'' \<notin> set p" "CHR 0x5C \<notin> set p"
  shows "split_23_aux cur False (p @ CHR '':'' # s) = (rev cur @ p) # split_23 s"
    and "split_23_aux cur False p = [rev cur @ p]"
  using assms by (induction p arbitrary: cur) (auto simp: split_23_def)

lemma plain_field_chars: "plain_field p \<Longrightarrow> CHR '':'' \<notin> set p \<and> CHR 0x5C \<notin> set p \<and> CHR ''%'' \<notin> set p"
  by (auto simp: plain_field_def list_all_iff)

lemma split_23_field: "plain_field p \<Longrightarrow> split_23 (p @ CHR '':'' # s) = p # split_23 s"
  using split_23_plain(1) [of p "[]" s] plain_field_chars [of p] by (simp add: split_23_def)

lemma unquote_plain: "CHR ''%'' \<notin> set f \<Longrightarrow> unquote f = f"
  by (induction f rule: unquote.induct) auto

lemma plain_field_read: "plain_field f \<Longrightarrow> strip (unquote f) = f"
  using plain_field_chars [of f] unquote_plain [of f] unfolding plain_field_def by metis

lemma plain_star: "plain_field ''*''"
  by (simp add: plain_field_def strip_def lstrip_by_def rstrip_by_def char_class_defs)

lemma plain_part: "p \<in> {''a'', ''o'', ''h''} \<Longrightarrow> plain_field p \<and> lower p = p"
  by (auto simp: plain_field_def strip_def lstrip_by_def rstrip_by_def char_class_defs lower_def lower_char_def)

definition version_field :: "cpe \<Rightarrow> str" where
  "version_field c = (case c_version c of None \<Rightarrow> ''*'' | Some v \<Rightarrow> if v = [] then ''*'' else v)"

lemma nvd_name_fields:
  "nvd_name c = ''cpe:2.3:'' @ (c_part c @ CHR '':'' # c_vendor c @ CHR '':'' # c_product c @ CHR '':'' #
     version_field c @ CHR '':'' # ''*:*:*:*:*:*:*'')"
  by (simp add: nvd_name_def version_field_def)

lemma strip_nvd_name: "strip (nvd_name c) = nvd_name c"
  by (rule strip_id) (simp add: nvd_name_def char_class_defs)

lemma parse_nvd_name: "plain_cpe c \<Longrightarrow> parse_cpe (nvd_name c) = Inr c"
proof -
  assume c: "plain_cpe c"
  let ?v = "version_field c"
  have v: "plain_field ?v" using c plain_star
    by (auto simp: version_field_def plain_cpe_def split: option.splits)
  have p: "plain_field (c_part c)" "lower (c_part c) = c_part c" using c plain_part [of "c_part c"] by (simp_all add: plain_cpe_def)
  have f: "plain_field (c_vendor c)" "lower (c_vendor c) = c_vendor c" "plain_field (c_product c)" "lower (c_product c) = c_product c"
    using c by (simp_all add: plain_cpe_def)
  have pre: "prefix ''cpe:2.3:'' (lower (nvd_name c))"
    by (simp add: nvd_name_fields) (simp add: lower_def lower_char_def char_class_defs)
  obtain rest where fields: "split_23 (drop (length ''cpe:2.3:'') (nvd_name c)) = c_part c # c_vendor c # c_product c # ?v # rest"
    using p f v by (simp add: nvd_name_fields split_23_field del: append_Cons)
  have "lower (strip ''*'') \<in> set EMPTY_VERSION" by code_simp
  then have "none_if_empty ?v = c_version c"
    using c by (auto simp: version_field_def plain_cpe_def none_if_empty_def plain_field_def Let_def split: option.splits)
  moreover have "c_part c \<noteq> []" "c_vendor c \<noteq> []" "c_product c \<noteq> []" using p f by (auto simp: plain_field_def)
  ultimately show ?thesis using c p f v pre fields
    unfolding parse_cpe_def strip_nvd_name by (simp add: plain_field_read plain_cpe_def)
qed

text \<open>
  The printed name does not escape: a product whose name contains a colon (read from an escaped
  CPE) prints as a different CPE.
\<close>

lemma nvd_name_does_not_escape:
  "case parse_cpe (''cpe:2.3:a:acme:web'' @ [CHR 0x5C] @ '':kit:2'') of
     Inl _ \<Rightarrow> False
   | Inr c \<Rightarrow> c_product c = ''web:kit'' \<and> parse_cpe (nvd_name c) \<noteq> Inr c"
  by code_simp

text \<open>
  The tolerant comparison is a total preorder: it is transitive, and exchanging the
  versions negates the answer, for any two version texts whatever their components.
\<close>

theorem compare_versions_preorder:
  assumes "compare_versions a b \<le> 0" and "compare_versions b c \<le> 0"
  shows "compare_versions a c \<le> 0 \<and> compare_versions c a = - compare_versions a c"
  using compare_trans [OF assms] vo.cmp_anti [of c a] by simp

lemma compare_versions_preorder_witness:
  "compare_versions (Some ''1.4rc2'') (Some ''1.4.0p1'') \<le> 0 \<and>
   compare_versions (Some ''1.4.0p1'') (Some ''1.4rc2'') = - compare_versions (Some ''1.4rc2'') (Some ''1.4.0p1'')"
proof (rule compare_versions_preorder)
  show "compare_versions (Some ''1.4rc2'') (Some ''1.4'') \<le> 0" by code_simp
  show "compare_versions (Some ''1.4'') (Some ''1.4.0p1'') \<le> 0" by code_simp
qed

text \<open>
  A normalised name whose fields need no escaping survives printing as a CPE 2.3 name and
  parsing it back.
\<close>

theorem nvd_name_roundtrip:
  assumes "plain_cpe c"
  shows "parse_cpe (nvd_name c) = Inr c"
  using assms by (rule parse_nvd_name)

lemma nvd_name_roundtrip_witness:
  "parse_cpe (nvd_name \<lparr>c_part = ''a'', c_vendor = ''openbsd'', c_product = ''openssh'', c_version = Some ''9.2p1''\<rparr>) =
   Inr \<lparr>c_part = ''a'', c_vendor = ''openbsd'', c_product = ''openssh'', c_version = Some ''9.2p1''\<rparr>"
  by (rule nvd_name_roundtrip) code_simp

end
