(* ===== verification/Vulns_Enrich.thy ===== *)
theory Vulns_Enrich
  imports Vulns_Cpe Feeds_Parsers
begin

text \<open>
  NVD enrichment (\<open>homesoc/vulns/enrich.py\<close>): the per-scan time budget, the sliding-window rate
  limiter, the request with its retry, the summary of an answer and the settings cache.

  Clock readings are reals in seconds. A request's outcome is an input: the exception, the status,
  the declared length and the sizes of the chunks, the document they decode to, and whether the
  wall-clock watch expired. Settings are read and written as values; their JSON text is the value.
\<close>

definition REQUEST_TIMEOUT_SEC :: real where "REQUEST_TIMEOUT_SEC = 15"
definition REQUEST_MAX_SECONDS :: real where "REQUEST_MAX_SECONDS = 30"
definition RETRY_SLEEP_SEC :: real where "RETRY_SLEEP_SEC = 6"
definition CACHE_TTL_SEC :: int where "CACHE_TTL_SEC = 7 * 24 * 3600"
definition SCAN_BUDGET_SEC :: real where "SCAN_BUDGET_SEC = 60"
definition TOP_N :: nat where "TOP_N = 5"
definition MAX_RESPONSE_BYTES :: nat where "MAX_RESPONSE_BYTES = 8 * 1024 * 1024"

section \<open>The budget\<close>

record budget =
  bg_seconds :: real
  bg_started :: real
  bg_exhausted :: bool

definition new_budget :: "real \<Rightarrow> budget" where
  "new_budget now = \<lparr>bg_seconds = SCAN_BUDGET_SEC, bg_started = now, bg_exhausted = False\<rparr>"

definition remaining :: "real \<Rightarrow> budget \<Rightarrow> real" where
  "remaining now b = max 0 (bg_seconds b - (now - bg_started b))"

definition can_spend :: "real \<Rightarrow> budget \<Rightarrow> real \<Rightarrow> bool" where
  "can_spend now b seconds \<longleftrightarrow> \<not> bg_exhausted b \<and> seconds \<le> remaining now b"

definition request_seconds :: "real \<Rightarrow> budget \<Rightarrow> real" where
  "request_seconds now b = min REQUEST_MAX_SECONDS (max REQUEST_TIMEOUT_SEC (remaining now b))"

section \<open>The rate limiter\<close>

record rate_limiter =
  rl_max :: nat
  rl_window :: real
  rl_stamps :: "real list"

definition for_key :: "str \<Rightarrow> rate_limiter" where
  "for_key api_key = \<lparr>rl_max = (if api_key = [] then 5 else 50), rl_window = 30, rl_stamps = []\<rparr>"

definition purge :: "real \<Rightarrow> rate_limiter \<Rightarrow> rate_limiter" where
  "purge now l = l\<lparr>rl_stamps := dropWhile (\<lambda>s. rl_window l \<le> now - s) (rl_stamps l)\<rparr>"

definition wait_needed :: "real \<Rightarrow> rate_limiter \<Rightarrow> real \<times> rate_limiter" where
  "wait_needed now l =
     (let l1 = purge now l
      in (if length (rl_stamps l1) < rl_max l1 then 0
          else max 0 (rl_window l1 - (now - hd (rl_stamps l1))), l1))"

definition record_request :: "real \<Rightarrow> rate_limiter \<Rightarrow> rate_limiter" where
  "record_request now l = l\<lparr>rl_stamps := rl_stamps l @ [now]\<rparr>"

section \<open>One request\<close>

record http_response =
  hr_status :: nat
  hr_length :: "str option"
  hr_chunks :: "nat list"
  hr_body :: "json option"

text \<open>The reading loop of \<open>_read_limited\<close>: \<open>True\<close> when the body is accepted.\<close>

fun chunks_fit :: "nat \<Rightarrow> nat list \<Rightarrow> bool" where
  "chunks_fit tot [] = True"
| "chunks_fit tot (c # cs) = (tot + c \<le> MAX_RESPONSE_BYTES \<and> chunks_fit (tot + c) cs)"

definition read_limited :: "http_response \<Rightarrow> bool" where
  "read_limited r \<longleftrightarrow>
     \<not> (case hr_length r of None \<Rightarrow> False | Some s \<Rightarrow> all_digits s \<and> MAX_RESPONSE_BYTES < dec_val s) \<and>
     chunks_fit 0 (hr_chunks r)"

text \<open>
  The environment of an attempt: the clock at the limiter, at the budget, after the pause and
  after the answer; the answer (\<open>None\<close> for a \<open>RequestException\<close>); whether reading it raised;
  whether the watch expired.
\<close>

record attempt =
  at_limiter :: real
  at_budget :: real
  at_request :: real
  at_retry :: real
  at_response :: "http_response option"
  at_read_error :: bool
  at_expired :: bool

datatype attempt_result = Answer json | NoAnswer | Retry

definition try_request :: "bool \<Rightarrow> attempt \<Rightarrow> budget \<Rightarrow> rate_limiter \<Rightarrow> attempt_result \<times> budget \<times> rate_limiter" where
  "try_request second a b l =
     (let (wait, l1) = wait_needed (at_limiter a) l
      in if \<not> can_spend (at_budget a) b (wait + REQUEST_TIMEOUT_SEC)
         then (NoAnswer, b\<lparr>bg_exhausted := True\<rparr>, l1)
         else let l2 = record_request (at_request a) l1
              in (case at_response a of
                    None \<Rightarrow> NoAnswer
                  | Some r \<Rightarrow>
                      if hr_status r = 429 \<or> hr_status r = 403 then
                        (if second \<or> \<not> can_spend (at_retry a) b (RETRY_SLEEP_SEC + REQUEST_TIMEOUT_SEC)
                         then NoAnswer else Retry)
                      else if hr_status r \<noteq> 200 then NoAnswer
                      else if at_read_error a \<or> at_expired a \<or> \<not> read_limited r then NoAnswer
                      else (case hr_body r of
                          Some (JObj d) \<Rightarrow> Answer (JObj d)
                        | _ \<Rightarrow> NoAnswer), b, l2))"

definition fetch :: "attempt \<Rightarrow> attempt \<Rightarrow> budget \<Rightarrow> rate_limiter \<Rightarrow> json option \<times> budget \<times> rate_limiter" where
  "fetch a1 a2 b l = (case try_request False a1 b l of
       (Answer j, b1, l1) \<Rightarrow> (Some j, b1, l1)
     | (NoAnswer, b1, l1) \<Rightarrow> (None, b1, l1)
     | (Retry, b1, l1) \<Rightarrow> (case try_request True a2 b1 l1 of
           (Answer j, b2, l2) \<Rightarrow> (Some j, b2, l2)
         | (_, b2, l2) \<Rightarrow> (None, b2, l2)))"

section \<open>The summary of an answer\<close>

definition json_items :: "json option \<Rightarrow> json list" where
  "json_items j = (case j of Some (JList l) \<Rightarrow> l | _ \<Rightarrow> [])"

definition json_number :: "json option \<Rightarrow> real option" where
  "json_number j = (case j of Some (JInt i) \<Rightarrow> Some (of_int i) | Some (JFloat r) \<Rightarrow> Some r
     | Some (JBool b) \<Rightarrow> Some (of_bool b) | _ \<Rightarrow> None)"

definition metric_score :: "json \<Rightarrow> real option" where
  "metric_score entry = (case jget entry ''cvssData'' of None \<Rightarrow> None | Some d \<Rightarrow> json_number (jget d ''baseScore''))"

definition best_cvss :: "json \<Rightarrow> real option" where
  "best_cvss metrics = first_some (\<lambda>key. first_some metric_score (json_items (jget metrics key)))
     [''cvssMetricV40'', ''cvssMetricV31'', ''cvssMetricV30'', ''cvssMetricV2'']"

definition description_value :: "json \<Rightarrow> str option" where
  "description_value desc = (case desc of
       JObj d \<Rightarrow>
         (if (case dget d ''lang'' of None \<Rightarrow> True | Some j \<Rightarrow> j = JStr ''en'')
          then (case dget d ''value'' of Some (JStr v) \<Rightarrow> if v = [] then None else Some (take 300 v) | _ \<Rightarrow> None)
          else None)
     | _ \<Rightarrow> None)"

definition description :: "json \<Rightarrow> str option" where
  "description cve = first_some description_value (json_items (jget cve ''descriptions''))"

definition short_date :: "json option \<Rightarrow> str option" where
  "short_date v = (case v of Some (JStr s) \<Rightarrow> if s = [] then None else Some (take 10 s) | _ \<Rightarrow> None)"

record nvd_cve =
  nc_cve :: str
  nc_cvss :: "real option"
  nc_published :: "str option"
  nc_title :: "str option"

definition summarize_item :: "json \<Rightarrow> nvd_cve list" where
  "summarize_item item = (case jget item ''cve'' of
       Some (JObj d) \<Rightarrow>
         (case dget d ''id'' of
            Some (JStr i) \<Rightarrow>
              (if i = [] then []
               else [\<lparr>nc_cve = take 64 i,
                      nc_cvss = best_cvss (case dget d ''metrics'' of Some (JObj m) \<Rightarrow> JObj m | _ \<Rightarrow> JObj []),
                      nc_published = short_date (dget d ''published''), nc_title = description (JObj d)\<rparr>])
          | _ \<Rightarrow> [])
     | _ \<Rightarrow> [])"

definition severity_key :: "nvd_cve \<Rightarrow> bool \<times> real \<times> str" where
  "severity_key c = (nc_cvss c = None, - (case nc_cvss c of None \<Rightarrow> 0 | Some s \<Rightarrow> s), nc_cve c)"

record nvd_summary =
  ns_count :: int
  ns_returned :: nat
  ns_max_cvss :: "real option"
  ns_top :: "nvd_cve list"

definition max_score :: "real list \<Rightarrow> real option" where
  "max_score scores = (if scores = [] then None else Some (Max (set scores)))"

definition summarize :: "json \<Rightarrow> nvd_summary" where
  "summarize body =
     (let cves = sort_key severity_key (concat (map summarize_item (json_items (jget body ''vulnerabilities''))));
          scores = List.map_filter nc_cvss cves;
          tot = (case jget body ''totalResults'' of Some (JInt n) \<Rightarrow> Some n | Some (JBool t) \<Rightarrow> Some (of_bool t) | _ \<Rightarrow> None)
      in \<lparr>ns_count = (case tot of Some n \<Rightarrow> if int (length cves) \<le> n then n else int (length cves)
                      | None \<Rightarrow> int (length cves)),
          ns_returned = length cves, ns_max_cvss = max_score scores, ns_top = take TOP_N cves\<rparr>)"

section \<open>The lookup with its cache\<close>

datatype nvd_query = ByCpe str | ByKeyword str

record nvd_result =
  nr_summary :: nvd_summary
  nr_query :: nvd_query
  nr_fetched_at :: int
  nr_cached :: bool

definition nonempty :: "str option \<Rightarrow> bool" where
  "nonempty v \<longleftrightarrow> (case v of None \<Rightarrow> False | Some s \<Rightarrow> s \<noteq> [])"

text \<open>\<open>' '.join(p for p in (product, version) if p)\<close>\<close>

definition keyword_text :: "str option \<Rightarrow> str option \<Rightarrow> str" where
  "keyword_text product version = join_with CHR '' '' (map or_empty (filter nonempty [product, version]))"

definition nvd_cache_key :: "cpe option \<Rightarrow> str option \<Rightarrow> str option \<Rightarrow> str" where
  "nvd_cache_key c version product = (case c of
       Some n \<Rightarrow> ''nvd.cache.'' @ nvd_name n
     | None \<Rightarrow> ''nvd.cache.kw:'' @ join_with CHR ''_'' (split_ws (lower (strip (keyword_text product version)))))"

definition query_params :: "cpe option \<Rightarrow> str option \<Rightarrow> str option \<Rightarrow> nvd_query option" where
  "query_params c version product =
     (if (case c of Some n \<Rightarrow> nonempty (c_version n) | None \<Rightarrow> False) then Some (ByCpe (nvd_name (the c)))
      else if \<not> nonempty version then None
      else Some (ByKeyword (keyword_text (case c of Some n \<Rightarrow> Some (c_product n) | None \<Rightarrow> product) version)))"

type_synonym nvd_cache = "(str, int \<times> nvd_result) dict"

definition nvd_cache_get :: "int \<Rightarrow> nvd_cache \<Rightarrow> str \<Rightarrow> nvd_result option" where
  "nvd_cache_get now cache key = (case dget cache key of
       None \<Rightarrow> None
     | Some (fetched, r) \<Rightarrow> if CACHE_TTL_SEC < now - fetched then None else Some r)"

definition nvd_cache_put :: "str \<Rightarrow> nvd_result \<Rightarrow> nvd_cache \<Rightarrow> nvd_cache" where
  "nvd_cache_put key r cache = dset key (nr_fetched_at r, r) cache"

definition complete_cpe :: "cpe option \<Rightarrow> str option \<Rightarrow> cpe option" where
  "complete_cpe c version = map_option (\<lambda>n. if nonempty version \<and> \<not> nonempty (c_version n) then n\<lparr>c_version := version\<rparr> else n) c"

record nvd_state =
  nv_cache :: nvd_cache
  nv_budget :: budget
  nv_limiter :: rate_limiter

definition nvd_for_cpe :: "int \<Rightarrow> attempt \<Rightarrow> attempt \<Rightarrow> cpe option \<Rightarrow> str option \<Rightarrow> str option \<Rightarrow> nvd_state \<Rightarrow>
    nvd_result option \<times> nvd_state" where
  "nvd_for_cpe now a1 a2 c0 version product st =
     (let c = complete_cpe c0 version
      in if c = None \<and> \<not> nonempty product then (None, st)
         else if \<not> nonempty version \<and> \<not> (case c of Some n \<Rightarrow> nonempty (c_version n) | None \<Rightarrow> False) then (None, st)
         else let key = nvd_cache_key c version product
              in case nvd_cache_get now (nv_cache st) key of
                Some r \<Rightarrow> (Some (r\<lparr>nr_cached := True\<rparr>), st)
              | None \<Rightarrow>
                  (case query_params c version product of
                     None \<Rightarrow> (None, st)
                   | Some q \<Rightarrow>
                       (case fetch a1 a2 (nv_budget st) (nv_limiter st) of
                          (None, b, l) \<Rightarrow> (None, st\<lparr>nv_budget := b, nv_limiter := l\<rparr>)
                        | (Some body, b, l) \<Rightarrow>
                            (let r = \<lparr>nr_summary = summarize body, nr_query = q, nr_fetched_at = now, nr_cached = False\<rparr>
                             in (Some r, st\<lparr>nv_budget := b, nv_limiter := l, nv_cache := nvd_cache_put key r (nv_cache st)\<rparr>)))))"

section \<open>The limiter keeps the published rate\<close>

text \<open>
  A run of requests: for each the clock when the limiter is asked and the clock when the request
  is recorded, after the wait it asked for. The result is the times of the requests.
\<close>

fun limiter_run :: "(real \<times> real) list \<Rightarrow> rate_limiter \<Rightarrow> real list" where
  "limiter_run [] l = []"
| "limiter_run ((now, t) # rs) l = t # limiter_run rs (record_request t (snd (wait_needed now l)))"

text \<open>The clock does not go back and every wait is slept.\<close>

fun waits_kept :: "real \<Rightarrow> (real \<times> real) list \<Rightarrow> rate_limiter \<Rightarrow> bool" where
  "waits_kept m [] l = True"
| "waits_kept m ((now, t) # rs) l =
     (m \<le> now \<and> now + fst (wait_needed now l) \<le> t \<and> waits_kept t rs (record_request t (snd (wait_needed now l))))"

definition spaced :: "nat \<Rightarrow> real \<Rightarrow> real list \<Rightarrow> bool" where
  "spaced n w H \<longleftrightarrow> sorted H \<and> (\<forall>i. i + n < length H \<longrightarrow> w \<le> H ! (i + n) - H ! i)"

text \<open>The stamps are the end of the history \<open>H\<close>; what was dropped is at least a window old.\<close>

definition limiter_ok :: "real list \<Rightarrow> real \<Rightarrow> rate_limiter \<Rightarrow> bool" where
  "limiter_ok H m l \<longleftrightarrow> 1 \<le> rl_max l \<and> spaced (rl_max l) (rl_window l) H \<and> (\<forall>h\<in>set H. h \<le> m) \<and>
     (\<exists>D. H = D @ rl_stamps l \<and> (\<forall>d\<in>set D. rl_window l \<le> m - d)) \<and>
     (rl_max l < length (rl_stamps l) \<longrightarrow> length (rl_stamps l) = Suc (rl_max l) \<and> rl_window l \<le> m - hd (rl_stamps l))"

lemma spaced_snoc:
  assumes "spaced n w H" and "\<forall>h\<in>set H. h \<le> t" and "n \<le> length H \<Longrightarrow> w \<le> t - H ! (length H - n)" and "1 \<le> n"
  shows "spaced n w (H @ [t])"
  unfolding spaced_def
proof (intro conjI allI impI)
  show "sorted (H @ [t])" using assms(1,2) by (simp add: spaced_def sorted_append)
next
  fix i assume i: "i + n < length (H @ [t])"
  show "w \<le> (H @ [t]) ! (i + n) - (H @ [t]) ! i"
  proof (cases "i + n < length H")
    case True
    with assms(1) show ?thesis by (simp add: spaced_def nth_append)
  next
    case False
    with i have "i = length H - n" "n \<le> length H" "length H - n < length H" "length H - n + n = length H"
      using assms(4) by simp_all
    with assms(3) show ?thesis by (simp add: nth_append)
  qed
qed

lemma limiter_step:
  assumes ok: "limiter_ok H m l" and now: "m \<le> now" and w: "wait_needed now l = (w, l1)" and t: "now + w \<le> t"
  shows "limiter_ok (H @ [t]) t (record_request t l1)"
proof -
  let ?n = "rl_max l" and ?win = "rl_window l"
  let ?S = "rl_stamps l1"
  have l1: "l1 = purge now l" and wv: "w = (if length ?S < ?n then 0 else max 0 (?win - (now - hd ?S)))"
    using w by (auto simp: wait_needed_def Let_def purge_def)
  have w0: "0 \<le> w" by (simp add: wv)
  have f: "rl_max l1 = ?n" "rl_window l1 = ?win" by (simp_all add: l1 purge_def)
  obtain D where D: "H = D @ rl_stamps l" "\<forall>d\<in>set D. ?win \<le> m - d" using ok by (auto simp: limiter_ok_def)
  define E where "E = takeWhile (\<lambda>s. ?win \<le> now - s) (rl_stamps l)"
  have ES: "rl_stamps l = E @ ?S" by (simp add: E_def l1 purge_def)
  have H: "H = (D @ E) @ ?S" using D(1) ES by simp
  have le: "\<forall>h\<in>set H. h \<le> t" using ok now t w0 by (force simp: limiter_ok_def)
  have old: "\<forall>d\<in>set (D @ E). ?win \<le> t - d"
  proof
    fix d assume "d \<in> set (D @ E)"
    then have "?win \<le> now - d" using D(2) now by (fastforce simp: E_def dest: set_takeWhileD)
    with t w0 show "?win \<le> t - d" by linarith
  qed
  have n1: "1 \<le> ?n" using ok by (simp add: limiter_ok_def)
  have short: "length ?S \<le> ?n"
  proof (rule ccontr)
    assume c: "\<not> length ?S \<le> ?n"
    then have "?n < length (rl_stamps l)" using ES by simp
    with ok now have long: "length (rl_stamps l) = Suc ?n" "?win \<le> now - hd (rl_stamps l)" by (auto simp: limiter_ok_def)
    then have "length E + length ?S = Suc ?n" using ES by (metis length_append)
    then have "length E = 0" using c by linarith
    then have "E = []" by simp
    with long show False by (cases "rl_stamps l") (auto simp: E_def split: if_splits)
  qed
  have hdS: "?win \<le> t - hd ?S" if "length ?S = ?n" using that t by (simp add: wv)
  have sp: "spaced ?n ?win (H @ [t])"
  proof (rule spaced_snoc)
    show "spaced ?n ?win H" using ok by (simp add: limiter_ok_def)
    show "?win \<le> t - H ! (length H - ?n)" if "?n \<le> length H"
    proof (cases "length ?S < ?n")
      case True
      then have "length H - ?n < length (D @ E)" using H that by simp
      then have "H ! (length H - ?n) \<in> set (D @ E)" using H by (metis nth_append nth_mem)
      with old show ?thesis by blast
    next
      case False
      with short have len: "length ?S = ?n" by simp
      then have "H ! (length H - ?n) = hd ?S" using H n1
        by (cases ?S) (simp_all add: nth_append)
      with hdS [OF len] show ?thesis by simp
    qed
  qed (use le n1 in simp_all)
  have "?S @ [t] \<noteq> []" by simp
  show ?thesis unfolding limiter_ok_def record_request_def
    using sp le old H f n1 short hdS by (auto intro!: exI [of _ "D @ E"] simp: hd_append split: if_splits)
qed

lemma limiter_run_spaced:
  assumes "limiter_ok H m l" and "waits_kept m rs l"
  shows "spaced (rl_max l) (rl_window l) (H @ limiter_run rs l)"
  using assms
proof (induction rs arbitrary: H m l)
  case Nil
  then show ?case by (simp add: limiter_ok_def)
next
  case (Cons r rs)
  obtain now t where r: "r = (now, t)" by force
  obtain w l1 where w: "wait_needed now l = (w, l1)" by force
  have f: "rl_max l1 = rl_max l" "rl_window l1 = rl_window l"
    using w by (auto simp: wait_needed_def Let_def purge_def)
  have "limiter_ok (H @ [t]) t (record_request t l1)"
    using Cons.prems r w by (intro limiter_step [OF _ _ w]) auto
  from Cons.IH [OF this] Cons.prems r w f show ?case by (simp add: record_request_def)
qed

lemma spaced_window:
  assumes "spaced n w H" and "1 \<le> n"
  shows "length (filter (\<lambda>t. x \<le> t \<and> t < x + w) H) \<le> n"
proof (rule ccontr)
  let ?A = "{i. i < length H \<and> x \<le> H ! i \<and> H ! i < x + w}"
  assume "\<not> ?thesis"
  then have big: "n < card ?A" by (simp add: length_filter_conv_card)
  have fin: "finite ?A" by simp
  have ne: "?A \<noteq> {}" using big by (metis card.empty not_less_zero)
  let ?i = "Min ?A" and ?j = "Max ?A"
  have i: "?i \<in> ?A" and j: "?j \<in> ?A" using Min_in [OF fin ne] Max_in [OF fin ne] by simp_all
  have "?A \<subseteq> {?i..?j}" using fin by auto
  then have "card ?A \<le> card {?i..?j}" by (intro card_mono) simp_all
  with big have ij: "?i + n \<le> ?j" by simp
  with j have k: "?i + n < length H" by auto
  then have "w \<le> H ! (?i + n) - H ! ?i" using assms(1) by (simp add: spaced_def)
  moreover have "H ! (?i + n) \<le> H ! ?j" using assms(1) ij j by (auto simp: spaced_def intro: sorted_nth_mono)
  ultimately show False using i j by auto
qed

text \<open>
  The limiter keeps NVD's published rate: if every wait it asks for is slept and the clock
  does not go back, no window of its length, wherever it starts, holds more requests than it
  allows (5 in 30 seconds without a key, 50 with one).
\<close>

theorem rate_limit_kept:
  assumes "waits_kept 0 rs (for_key api_key)"
  shows "length (filter (\<lambda>t. x \<le> t \<and> t < x + 30) (limiter_run rs (for_key api_key)))
    \<le> (if api_key = [] then 5 else 50)"
proof -
  have "limiter_ok [] 0 (for_key api_key)" by (simp add: limiter_ok_def for_key_def spaced_def)
  from limiter_run_spaced [OF this assms] spaced_window show ?thesis by (simp add: for_key_def)
qed

lemma rate_limit_kept_witness:
  "length (filter (\<lambda>t. 0 \<le> t \<and> t < 0 + 30)
     (limiter_run [(0, 0), (1, 1), (2, 2), (3, 3), (4, 4), (5, 30)] (for_key []))) \<le> 5"
  using rate_limit_kept [of "[(0, 0), (1, 1), (2, 2), (3, 3), (4, 4), (5, 30)]" "[]" 0]
  by (simp add: for_key_def wait_needed_def purge_def record_request_def Let_def)

end
