(* ===== verification/Vulns_Matcher.thy ===== *)
theory Vulns_Matcher
  imports Vulns_Enrich Feeds_Registry
begin

text \<open>
  Vulnerability matching (\<open>homesoc/vulns/matcher.py\<close>): the context of an open service, the KEV
  classification, NVD and EPSS annotation, the \<open>vulns\<close> table and outdated software.

  A draft carries its evidence as data; the sentence in \<open>detail\<close> and the log lines are not
  modelled. The catalogue, the EPSS table and the settings are the values the loaders return.
\<close>

definition EPSS_ALERT_THRESHOLD :: real where "EPSS_ALERT_THRESHOLD = 1 / 2"
definition DEFAULT_MIN_CVSS :: real where "DEFAULT_MIN_CVSS = 7"
definition KEV_POSSIBLE_MAX :: nat where "KEV_POSSIBLE_MAX = 20"
definition NVD_KEYWORD_MAX_TOTAL :: int where "NVD_KEYWORD_MAX_TOTAL = 200"

definition HIGH_RISK_SOFTWARE :: "str list" where
  "HIGH_RISK_SOFTWARE = [''java'', ''adobe'', ''chrome'', ''firefox'', ''edge'', ''zoom'', ''vlc'', ''7-zip'', ''7zip'',
     ''winrar'', ''putty'', ''openvpn'', ''notepad++'', ''teamviewer'', ''anydesk'', ''filezilla'', ''python'']"

definition ROUTER_IOT_HINTS :: "str list" where
  "ROUTER_IOT_HINTS = [''router'', ''gateway'', ''iot'', ''camera'', ''printer'', ''nas'', ''tv'', ''hub'', ''bridge'']"

section \<open>The context of a service\<close>

text \<open>A row of the join of \<open>services\<close> and \<open>devices\<close>, the open ones with a product or a CPE.\<close>

record service_row =
  sr_service_id :: nat
  sr_device_id :: nat
  sr_port :: nat
  sr_state :: str
  sr_product :: "str option"
  sr_version :: "str option"
  sr_cpe :: "str option"
  sr_mac :: str
  sr_ip :: str
  sr_vendor :: "str option"
  sr_kind :: "str option"
  sr_hostname :: "str option"

record vuln =
  v_device_id :: nat
  v_service_id :: nat
  v_cve :: str
  v_source :: str
  v_kev :: bool
  v_cvss :: "real option"
  v_epss :: "real option"
  v_title :: "str option"
  v_published :: "str option"
  v_matched_on :: str
  v_remediation :: str

datatype evidence =
    KevEvidence (kv_cve: str) (kv_verdict: str) (kv_highest: "str option") (kv_entry: kev_entry)
  | NvdEvidence (ne_count: int) (ne_max: real) (ne_top: "(str \<times> real option) list") (ne_match: str)
      (ne_total: int) (ne_returned: nat)
  | EpssEvidence (ee_cves: "(str \<times> real \<times> str) list")
  | SoftwareEvidence (se_name: str) (se_version: "str option") (se_available: str) (se_high_risk: bool)

record vdraft =
  vd_finding_id :: str
  vd_subject :: str
  vd_device_id :: "nat option"
  vd_key :: "str option"
  vd_evidence :: evidence

record service_ctx =
  sx_row :: service_row
  sx_cpe :: "cpe option"
  sx_version :: "str option"
  sx_product :: str
  sx_subject :: str
  sx_router :: bool
  sx_drafts :: "vdraft list"
  sx_vulns :: "vuln list"

definition parse_cpe_opt :: "str \<Rightarrow> cpe option" where
  "parse_cpe_opt s = (case parse_cpe s of Inl _ \<Rightarrow> None | Inr c \<Rightarrow> Some c)"

definition cpe_for :: "str option \<Rightarrow> str \<Rightarrow> str option \<Rightarrow> cpe option" where
  "cpe_for raw_cpe product version =
     (let candidates = List.map_filter parse_cpe_opt
            (split_ws (map (\<lambda>c. if c = CHR '','' then CHR '' '' else c) (or_empty raw_cpe)))
      in case List.find (\<lambda>c. c_part c = ''a'') candidates of
        Some c \<Rightarrow> Some c
      | None \<Rightarrow> if candidates \<noteq> [] then Some (hd candidates) else guess_cpe product version)"

definition looks_router_iot :: "service_row \<Rightarrow> bool" where
  "looks_router_iot row =
     (let text = lower (join_with CHR '' '' (map or_empty [sr_kind row, sr_vendor row, sr_hostname row]))
      in list_ex (\<lambda>h. sublist h text) ROUTER_IOT_HINTS)"

definition open_service :: "service_row \<Rightarrow> service_ctx option" where
  "open_service row =
     (let product = strip (or_empty (sr_product row));
          c0 = cpe_for (sr_cpe row) product (sr_version row);
          version = (case c0 of
              Some c \<Rightarrow> if nonempty (c_version c) then c_version c else clean_version (sr_version row)
            | None \<Rightarrow> clean_version (sr_version row));
          c = complete_cpe c0 version;
          label = (if product \<noteq> [] then product else case c of Some c \<Rightarrow> c_product c | None \<Rightarrow> [])
      in if label = [] then None
         else Some \<lparr>sx_row = row, sx_cpe = c, sx_version = version, sx_product = label,
           sx_subject = ''device:'' @ sr_mac row @ '':'' @ dec_digits (sr_port row),
           sx_router = looks_router_iot row, sx_drafts = [], sx_vulns = []\<rparr>)"

definition open_services :: "service_row list \<Rightarrow> service_ctx list" where
  "open_services rows = List.map_filter open_service
     (sort_key (\<lambda>r. (sr_device_id r, sr_port r))
        (filter (\<lambda>r. sr_state r = ''open'' \<and> (nonempty (sr_product r) \<or> nonempty (sr_cpe r))) rows))"

section \<open>KEV\<close>

text \<open>\<open>_kev_field\<close>: the first present, non-empty name.\<close>

definition kev_field :: "kev_entry \<Rightarrow> str list \<Rightarrow> str option" where
  "kev_field e names = first_some (\<lambda>n. case dget (kev_fields e) n of Some v \<Rightarrow> if v = [] then None else Some v | None \<Rightarrow> None) names"

definition remediation :: "service_ctx \<Rightarrow> kev_entry option \<Rightarrow> str" where
  "remediation ctx entry =
     ''Update '' @ sx_product ctx @ '' to a version newer than '' @
     (if nonempty (sx_version ctx) then or_empty (sx_version ctx) else ''the installed version'') @
     ''; if this is a router/IoT device, update its firmware or replace the device.'' @
     (if sx_router ctx then '' This device looks like a router/IoT device: check the vendor's firmware page first.'' else []) @
     (case entry of None \<Rightarrow> [] | Some e \<Rightarrow>
        (case kev_field e [''requiredAction'', ''required_action''] of None \<Rightarrow> []
         | Some action \<Rightarrow> '' CISA required action: '' @ action @
             (case kev_field e [''dueDate'', ''due_date''] of Some due \<Rightarrow> '' (due '' @ due @ '').'' | None \<Rightarrow> ''.''))) @
     '' Until then, block the port at the router/firewall or disable the service if it is not needed.''"

text \<open>
  \<open>_kev_search\<close>: one search, by CPE vendor and product or by the full banner, merged by CVE.
  (\<open>json.dumps\<close> stands in for the id of an entry without one; such entries are compared whole.)
\<close>

definition entry_key :: "kev_entry \<Rightarrow> str + kev_entry" where
  "entry_key e = (case kev_field e [''cveID'', ''cve'', ''cve_id''] of Some c \<Rightarrow> Inl c | None \<Rightarrow> Inr e)"

definition merge_by_key :: "kev_entry list \<Rightarrow> kev_entry list" where
  "merge_by_key es = fold (\<lambda>e acc. if entry_key e \<in> set (map entry_key acc) then acc else acc @ [e]) es []"

definition kev_candidates :: "kev_entry list \<Rightarrow> service_ctx \<Rightarrow> kev_entry list" where
  "kev_candidates catalog ctx = merge_by_key (case sx_cpe ctx of
       Some c \<Rightarrow> kev_search catalog (c_vendor c) (c_product c)
     | None \<Rightarrow> if sx_product ctx \<noteq> [] then kev_search catalog [] (sx_product ctx) else [])"

text \<open>The text an advisory names versions in.\<close>

definition advisory_text :: "kev_entry \<Rightarrow> str" where
  "advisory_text e = join_with CHR '' '' (map (\<lambda>k. or_empty (kev_field e [k]))
     [''vulnerabilityName'', ''name'', ''shortDescription'', ''description'', ''notes''])"

definition named_versions :: "kev_entry \<Rightarrow> str list" where
  "named_versions e = extract_versions (Some (advisory_text e))"

datatype verdict = Confirmed | Possible | Patched | Unidentified

definition kev_verdict :: "service_ctx \<Rightarrow> kev_entry \<Rightarrow> verdict" where
  "kev_verdict ctx e =
     (if kev_field e [''cveID'', ''cve'', ''cve_id''] = None then Unidentified
      else let highest = max_version (named_versions e)
           in if nonempty (sx_version ctx) \<and> nonempty highest then
                (if \<not> version_le (sx_version ctx) highest then Patched else Confirmed)
              else Possible)"

definition emit_kev :: "str \<Rightarrow> str \<Rightarrow> kev_entry \<Rightarrow> service_ctx \<Rightarrow> service_ctx" where
  "emit_kev finding_id verdict_text e ctx =
     (let cve = or_empty (kev_field e [''cveID'', ''cve'', ''cve_id'']);
          matched_on = (case sx_cpe ctx of Some c \<Rightarrow> nvd_name c | None \<Rightarrow> ''product:'' @ sx_product ctx)
      in ctx\<lparr>sx_vulns := sx_vulns ctx @ [\<lparr>v_device_id = sr_device_id (sx_row ctx), v_service_id = sr_service_id (sx_row ctx),
                v_cve = cve, v_source = ''kev'', v_kev = True, v_cvss = None, v_epss = None,
                v_title = kev_field e [''vulnerabilityName'', ''name''],
                v_published = kev_field e [''dateAdded'', ''date_added''],
                v_matched_on = matched_on, v_remediation = remediation ctx (Some e)\<rparr>],
              sx_drafts := sx_drafts ctx @ [\<lparr>vd_finding_id = finding_id, vd_subject = sx_subject ctx,
                vd_device_id = Some (sr_device_id (sx_row ctx)), vd_key = Some cve,
                vd_evidence = KevEvidence cve verdict_text (max_version (named_versions e)) e\<rparr>]\<rparr>)"

text \<open>The result counts (confirmed, possible, suppressed).\<close>

definition match_kev :: "kev_entry list \<Rightarrow> service_ctx \<Rightarrow> (nat \<times> nat \<times> nat) \<times> service_ctx" where
  "match_kev catalog ctx =
     (let entries = kev_candidates catalog ctx;
          confirmed = filter (\<lambda>e. kev_verdict ctx e = Confirmed) entries;
          possible0 = filter (\<lambda>e. kev_verdict ctx e = Possible) entries;
          suppressed = (if KEV_POSSIBLE_MAX < length possible0 then length possible0 else 0);
          possible = (if KEV_POSSIBLE_MAX < length possible0 then [] else possible0)
      in ((length confirmed, length possible, suppressed),
          fold (emit_kev ''NET-VUL-002'' ''possible'') possible
            (fold (emit_kev ''NET-VUL-001'' ''confirmed'') confirmed ctx)))"

section \<open>NVD\<close>

datatype nvd_status = Queried | Cached | Skipped

definition nvd_vuln :: "service_ctx \<Rightarrow> str \<Rightarrow> nvd_cve \<Rightarrow> vuln" where
  "nvd_vuln ctx matched_on c =
     \<lparr>v_device_id = sr_device_id (sx_row ctx), v_service_id = sr_service_id (sx_row ctx), v_cve = nc_cve c,
      v_source = ''nvd'', v_kev = False, v_cvss = nc_cvss c, v_epss = None, v_title = nc_title c,
      v_published = nc_published c, v_matched_on = matched_on, v_remediation = remediation ctx None\<rparr>"

definition annotate_nvd :: "real \<Rightarrow> nvd_result \<Rightarrow> service_ctx \<Rightarrow> service_ctx" where
  "annotate_nvd min_cvss r ctx =
     (let s = nr_summary r;
          by_cpe = (case nr_query r of ByCpe _ \<Rightarrow> True | ByKeyword _ \<Rightarrow> False);
          returned = (if ns_returned s \<noteq> 0 then ns_returned s else length (ns_top s))
      in if \<not> by_cpe \<and> (NVD_KEYWORD_MAX_TOTAL < ns_count s \<or> returned = 0) then ctx
         else
           (let count = (if by_cpe then ns_count s else min (ns_count s) (int returned));
                matched_on = (case sx_cpe ctx of
                    Some c \<Rightarrow> if nonempty (c_version c) then nvd_name c
                      else ''keyword:'' @ sx_product ctx @ '' '' @ or_empty (sx_version ctx)
                  | None \<Rightarrow> ''keyword:'' @ sx_product ctx @ '' '' @ or_empty (sx_version ctx));
                known = map v_cve (sx_vulns ctx);
                new = filter (\<lambda>c. nc_cve c \<noteq> [] \<and> nc_cve c \<notin> set known) (ns_top s);
                ctx1 = ctx\<lparr>sx_vulns := sx_vulns ctx @ map (nvd_vuln ctx matched_on) new\<rparr>
            in case ns_max_cvss s of
              None \<Rightarrow> ctx1
            | Some m \<Rightarrow> if m < min_cvss then ctx1
                else ctx1\<lparr>sx_drafts := sx_drafts ctx1 @ [\<lparr>vd_finding_id = ''NET-VUL-003'', vd_subject = sx_subject ctx,
                    vd_device_id = Some (sr_device_id (sx_row ctx)), vd_key = None,
                    vd_evidence = NvdEvidence count m (map (\<lambda>t. (nc_cve t, nc_cvss t)) (ns_top s))
                      (if by_cpe then ''cpe'' else ''keyword'') (ns_count s) returned\<rparr>]\<rparr>))"

definition match_nvd :: "int \<Rightarrow> attempt \<Rightarrow> attempt \<Rightarrow> real \<Rightarrow> service_ctx \<Rightarrow> nvd_state \<Rightarrow> nvd_status \<times> service_ctx \<times> nvd_state" where
  "match_nvd now a1 a2 min_cvss ctx st =
     (if \<not> nonempty (sx_version ctx) then (Skipped, ctx, st)
      else if bg_exhausted (nv_budget st) then (Skipped, ctx, st)
      else case nvd_for_cpe now a1 a2 (sx_cpe ctx) (sx_version ctx)
               (if sx_cpe ctx = None then Some (sx_product ctx) else None) st of
        (None, st1) \<Rightarrow> (Skipped, ctx, st1)
      | (Some r, st1) \<Rightarrow> (if nr_cached r then Cached else Queried, annotate_nvd min_cvss r ctx, st1))"

section \<open>EPSS\<close>

definition epss_score :: "(str, real) dict \<Rightarrow> str \<Rightarrow> real option" where
  "epss_score epss cve = (case dget epss cve of
       Some s \<Rightarrow> if s \<noteq> 0 then Some s else dget epss (upper cve)
     | None \<Rightarrow> dget epss (upper cve))"

definition with_epss :: "(str, real) dict \<Rightarrow> vuln \<Rightarrow> vuln" where
  "with_epss epss v = (case epss_score epss (v_cve v) of None \<Rightarrow> v | Some s \<Rightarrow> v\<lparr>v_epss := Some s\<rparr>)"

definition hot_cves :: "(str, real) dict \<Rightarrow> vuln list \<Rightarrow> (str \<times> real \<times> str) list" where
  "hot_cves epss vs = sort_key (\<lambda>(c, s, src). - s) (List.map_filter (\<lambda>v. case epss_score epss (v_cve v) of
       Some s \<Rightarrow> if EPSS_ALERT_THRESHOLD \<le> s then Some (v_cve v, s, v_source v) else None
     | None \<Rightarrow> None) vs)"

definition apply_epss :: "(str, real) dict \<Rightarrow> service_ctx \<Rightarrow> service_ctx" where
  "apply_epss epss ctx =
     (if epss = [] then ctx
      else let hot = hot_cves epss (sx_vulns ctx); ctx1 = ctx\<lparr>sx_vulns := map (with_epss epss) (sx_vulns ctx)\<rparr>
           in if hot = [] then ctx1
              else ctx1\<lparr>sx_drafts := sx_drafts ctx1 @ [\<lparr>vd_finding_id = ''NET-VUL-004'', vd_subject = sx_subject ctx,
                  vd_device_id = Some (sr_device_id (sx_row ctx)), vd_key = None, vd_evidence = EpssEvidence hot\<rparr>]\<rparr>)"

section \<open>The table\<close>

record vuln_row =
  vr_vuln :: vuln
  vr_first_seen :: int
  vr_last_seen :: int

definition coalesce :: "'a option \<Rightarrow> 'a option \<Rightarrow> 'a option" where
  "coalesce a b = (case a of Some x \<Rightarrow> Some x | None \<Rightarrow> b)"

definition vuln_key :: "vuln \<Rightarrow> nat \<times> str \<times> str" where
  "vuln_key v = (v_device_id v, v_cve v, v_matched_on v)"

text \<open>\<open>ON CONFLICT(device_id, cve, matched_on) DO UPDATE SET ...\<close>\<close>

definition merge_vuln :: "int \<Rightarrow> vuln \<Rightarrow> vuln_row \<Rightarrow> vuln_row" where
  "merge_vuln now v r =
     (let old = vr_vuln r
      in r\<lparr>vr_vuln := v\<lparr>v_kev := (v_kev old \<or> v_kev v), v_cvss := coalesce (v_cvss v) (v_cvss old),
               v_epss := coalesce (v_epss v) (v_epss old), v_title := coalesce (v_title v) (v_title old),
               v_published := coalesce (v_published v) (v_published old)\<rparr>,
            vr_last_seen := now\<rparr>)"

type_synonym vuln_table = "(nat \<times> str \<times> str, vuln_row) dict"

definition upsert_vuln :: "int \<Rightarrow> vuln \<Rightarrow> vuln_table \<Rightarrow> vuln_table" where
  "upsert_vuln now v t = (case dget t (vuln_key v) of
       None \<Rightarrow> dset (vuln_key v) \<lparr>vr_vuln = v, vr_first_seen = now, vr_last_seen = now\<rparr> t
     | Some r \<Rightarrow> dset (vuln_key v) (merge_vuln now v r) t)"

definition upsert_vulns :: "int \<Rightarrow> vuln list \<Rightarrow> vuln_table \<Rightarrow> nat \<times> vuln_table" where
  "upsert_vulns now vs t = (length vs, fold (upsert_vuln now) vs t)"

section \<open>Outdated software\<close>

record software_row =
  sw_name :: "str option"
  sw_version :: "str option"
  sw_available :: "str option"

definition is_outdated :: "str option \<Rightarrow> str option \<Rightarrow> bool" where
  "is_outdated version available =
     (case clean_version available of
        None \<Rightarrow> False
      | Some avail \<Rightarrow> (case clean_version version of
            None \<Rightarrow> True
          | Some cur \<Rightarrow> 0 < compare_versions (Some avail) (Some cur)))"

definition is_high_risk :: "str \<Rightarrow> bool" where
  "is_high_risk name = list_ex (\<lambda>m. sublist m (lower name)) HIGH_RISK_SOFTWARE"

definition software_draft :: "software_row \<Rightarrow> vdraft option" where
  "software_draft row =
     (let name = strip (or_empty (sw_name row))
      in if name = [] \<or> \<not> is_outdated (sw_version row) (sw_available row) then None
         else Some \<lparr>vd_finding_id = (if is_high_risk name then ''WIN-UPD-004'' else ''WIN-UPD-003''), vd_subject = ''host'',
           vd_device_id = None, vd_key = Some (lower name),
           vd_evidence = SoftwareEvidence name (sw_version row) (or_empty (sw_available row)) (is_high_risk name)\<rparr>)"

text \<open>SQL's \<open>ORDER BY name\<close> puts a missing name first.\<close>

definition evaluate_software :: "software_row list \<Rightarrow> vdraft list" where
  "evaluate_software rows = List.map_filter software_draft
     (sort_key (\<lambda>r. (sw_name r \<noteq> None, or_empty (sw_name r))) (filter (\<lambda>r. nonempty (sw_available r)) rows))"

section \<open>The scan\<close>

record match_config =
  mc_nvd_enrich :: bool
  mc_min_cvss :: real
  mc_quick :: bool

record match_summary =
  ms_services :: nat
  ms_kev_confirmed :: nat
  ms_kev_possible :: nat
  ms_kev_suppressed :: nat
  ms_nvd_queried :: nat
  ms_nvd_cached :: nat
  ms_nvd_skipped :: nat
  ms_upserted :: nat

record match_state =
  mt_summary :: match_summary
  mt_drafts :: "vdraft list"
  mt_nvd :: nvd_state
  mt_table :: vuln_table

definition count_status :: "nvd_status \<Rightarrow> match_summary \<Rightarrow> match_summary" where
  "count_status s m = (case s of
       Queried \<Rightarrow> m\<lparr>ms_nvd_queried := ms_nvd_queried m + 1\<rparr>
     | Cached \<Rightarrow> m\<lparr>ms_nvd_cached := ms_nvd_cached m + 1\<rparr>
     | Skipped \<Rightarrow> m\<lparr>ms_nvd_skipped := ms_nvd_skipped m + 1\<rparr>)"

text \<open>One turn of the loop of \<open>match_services\<close>; the catalogue is \<open>None\<close> when unavailable.\<close>

definition match_service :: "match_config \<Rightarrow> kev_entry list option \<Rightarrow> (str, real) dict \<Rightarrow> int \<Rightarrow>
    service_ctx \<times> attempt \<times> attempt \<Rightarrow> match_state \<Rightarrow> match_state" where
  "match_service cfg catalog epss now = (\<lambda>(ctx0, a1, a2) m.
     (let s0 = mt_summary m;
          ((c, p, sup), ctx1) = (case catalog of None \<Rightarrow> ((0, 0, 0), ctx0) | Some entries \<Rightarrow> match_kev entries ctx0);
          s1 = s0\<lparr>ms_services := ms_services s0 + 1, ms_kev_confirmed := ms_kev_confirmed s0 + c,
                  ms_kev_possible := ms_kev_possible s0 + p, ms_kev_suppressed := ms_kev_suppressed s0 + sup\<rparr>;
          (s2, ctx2, nvd) = (if mc_nvd_enrich cfg \<and> \<not> mc_quick cfg
             then (case match_nvd now a1 a2 (mc_min_cvss cfg) ctx1 (mt_nvd m) of (st, x, n) \<Rightarrow> (count_status st s1, x, n))
             else (s1, ctx1, mt_nvd m));
          ctx3 = apply_epss epss ctx2;
          (n, table) = upsert_vulns now (sx_vulns ctx3) (mt_table m)
      in \<lparr>mt_summary = s2\<lparr>ms_upserted := ms_upserted s2 + n\<rparr>, mt_drafts = mt_drafts m @ sx_drafts ctx3,
          mt_nvd = nvd, mt_table = table\<rparr>))"

definition match_services :: "match_config \<Rightarrow> kev_entry list option \<Rightarrow> (str, real) dict \<Rightarrow> int \<Rightarrow>
    service_row list \<Rightarrow> (service_ctx \<Rightarrow> attempt \<times> attempt) \<Rightarrow> match_state \<Rightarrow> match_state" where
  "match_services cfg catalog epss now rows env m =
     fold (match_service cfg catalog epss now) (map (\<lambda>c. (c, env c)) (open_services rows)) m"

section \<open>What the KEV pass reports\<close>

lemma find_versions_nonempty: "v \<in> set (find_versions b s) \<Longrightarrow> v \<noteq> []"
proof (induction b s rule: find_versions.induct)
  case (2 pf c s)
  have ne: "w \<noteq> []" if "version_at t = Some (w, r)" for t w r
    using that by (auto simp: version_at_def Let_def case_prod_unfold split: if_splits)
  show ?case
  proof (cases "if pf then version_at (c # s) else None")
    case None
    with 2 show ?thesis by simp
  next
    case (Some vr)
    obtain w r where vr: "vr = (w, r)" by force
    with Some ne [of "c # s" w r] have "w \<noteq> []" by (simp split: if_splits)
    with "2.IH"(2) [OF Some vr [symmetric]] "2.prems" Some vr show ?thesis by auto
  qed
qed simp

text \<open>The advisory names the running version or a later one; nothing ties it to the build.\<close>

definition has_cve :: "kev_entry \<Rightarrow> bool" where
  "has_cve e \<longleftrightarrow> kev_field e [''cveID'', ''cve'', ''cve_id''] \<noteq> None"

definition names_running :: "service_ctx \<Rightarrow> kev_entry \<Rightarrow> bool" where
  "names_running ctx e \<longleftrightarrow> has_cve e \<and> nonempty (sx_version ctx) \<and>
     (\<exists>w\<in>set (named_versions e). version_le (sx_version ctx) (Some w))"

definition undecided :: "service_ctx \<Rightarrow> kev_entry \<Rightarrow> bool" where
  "undecided ctx e \<longleftrightarrow> has_cve e \<and> (\<not> nonempty (sx_version ctx) \<or> named_versions e = [])"

lemma kev_verdict_spec:
  "kev_verdict ctx e = Confirmed \<longleftrightarrow> names_running ctx e"
  "kev_verdict ctx e = Possible \<longleftrightarrow> undecided ctx e"
proof -
  let ?h = "max_version (named_versions e)"
  have h: "nonempty ?h \<longleftrightarrow> named_versions e \<noteq> []"
  proof (cases ?h)
    case None
    then have "named_versions e = []" by simp
    then show ?thesis by (simp add: nonempty_def max_version_def)
  next
    case (Some m)
    then have "m \<in> set (named_versions e)" unfolding max_version_def by (auto dest: vo.pick_max)
    then have "m \<noteq> []" by (auto simp: named_versions_def extract_versions_def dest: find_versions_nonempty)
    with Some \<open>m \<in> set (named_versions e)\<close> show ?thesis by (auto simp: nonempty_def)
  qed
  have le: "version_le (sx_version ctx) ?h \<longleftrightarrow> (\<exists>w\<in>set (named_versions e). version_le (sx_version ctx) (Some w))"
    if "named_versions e \<noteq> []"
  proof -
    from that obtain m where "?h = Some m" by (metis max_version_None option.exhaust)
    with max_version_below [OF this] show ?thesis by simp
  qed
  show "kev_verdict ctx e = Confirmed \<longleftrightarrow> names_running ctx e"
    using h le by (auto simp: kev_verdict_def names_running_def has_cve_def Let_def split: if_splits)
  show "kev_verdict ctx e = Possible \<longleftrightarrow> undecided ctx e"
    using h by (auto simp: kev_verdict_def undecided_def has_cve_def Let_def split: if_splits)
qed

definition entry_cve :: "kev_entry \<Rightarrow> str" where
  "entry_cve e = or_empty (kev_field e [''cveID'', ''cve'', ''cve_id''])"

abbreviation "draft_ids ctx \<equiv> map (\<lambda>d. (vd_finding_id d, vd_key d)) (sx_drafts ctx)"

lemma emit_kev_drafts: "draft_ids (fold (emit_kev fid txt) es ctx) = draft_ids ctx @ map (\<lambda>e. (fid, Some (entry_cve e))) es"
  by (induction es arbitrary: ctx) (simp_all add: emit_kev_def Let_def entry_cve_def)

lemma match_kev_drafts:
  "draft_ids (snd (match_kev catalog ctx)) = draft_ids ctx @
     map (\<lambda>e. (''NET-VUL-001'', Some (entry_cve e))) (filter (names_running ctx) (kev_candidates catalog ctx)) @
     (if 20 < length (filter (undecided ctx) (kev_candidates catalog ctx)) then []
      else map (\<lambda>e. (''NET-VUL-002'', Some (entry_cve e))) (filter (undecided ctx) (kev_candidates catalog ctx)))"
  by (simp add: match_kev_def Let_def emit_kev_drafts kev_verdict_spec KEV_POSSIBLE_MAX_def)

section \<open>The table keeps what it knows\<close>

definition keeps :: "vuln_row \<Rightarrow> vuln_row \<Rightarrow> bool" where
  "keeps r r' \<longleftrightarrow> vr_first_seen r' = vr_first_seen r \<and> (v_kev (vr_vuln r) \<longrightarrow> v_kev (vr_vuln r')) \<and>
     (v_cvss (vr_vuln r) \<noteq> None \<longrightarrow> v_cvss (vr_vuln r') \<noteq> None) \<and>
     (v_epss (vr_vuln r) \<noteq> None \<longrightarrow> v_epss (vr_vuln r') \<noteq> None)"

lemma keeps_refl: "keeps r r"
  by (simp add: keeps_def)

lemma keeps_trans: "keeps a b \<Longrightarrow> keeps b c \<Longrightarrow> keeps a c"
  by (auto simp: keeps_def)

lemma upsert_keeps: "dget t k = Some r \<Longrightarrow> \<exists>r'. dget (upsert_vuln now v t) k = Some r' \<and> keeps r r'"
  by (cases "dget t (vuln_key v)")
    (auto simp: upsert_vuln_def merge_vuln_def keeps_def coalesce_def Let_def split: option.splits)

lemma upserts_keep: "dget t k = Some r \<Longrightarrow> \<exists>r'. dget (snd (upsert_vulns now vs t)) k = Some r' \<and> keeps r r'"
  unfolding upsert_vulns_def snd_conv
proof (induction vs arbitrary: t r)
  case (Cons v vs)
  obtain r1 where r1: "dget (upsert_vuln now v t) k = Some r1" "keeps r r1" using upsert_keeps [OF Cons.prems] by blast
  from Cons.IH [OF r1(1)] r1(2) keeps_trans show ?case by (simp add: comp_def) blast
qed (auto intro: keeps_refl)

lemma match_service_table:
  "\<exists>vs. mt_table (match_service cfg catalog epss now x m) = snd (upsert_vulns now vs (mt_table m))"
  by (cases x) (auto simp: match_service_def Let_def case_prod_unfold)

lemma match_services_keep:
  "dget (mt_table m) k = Some r \<Longrightarrow>
     \<exists>r'. dget (mt_table (match_services cfg catalog epss now rows env m)) k = Some r' \<and> keeps r r'"
proof -
  have "dget (mt_table m) k = Some r \<Longrightarrow>
      \<exists>r'. dget (mt_table (fold (match_service cfg catalog epss now) ys m)) k = Some r' \<and> keeps r r'" for ys
  proof (induction ys arbitrary: m r)
    case (Cons y ys)
    obtain vs where "mt_table (match_service cfg catalog epss now y m) = snd (upsert_vulns now vs (mt_table m))"
      using match_service_table by blast
    with upserts_keep [OF Cons.prems, of now vs] obtain r1
      where r1: "dget (mt_table (match_service cfg catalog epss now y m)) k = Some r1" "keeps r r1" by auto
    from Cons.IH [OF r1(1)] r1(2) keeps_trans show ?case by (simp add: comp_def) blast
  qed (auto intro: keeps_refl)
  then show "dget (mt_table m) k = Some r \<Longrightarrow> ?thesis" by (simp add: match_services_def)
qed

section \<open>The properties\<close>



definition demo_service :: service_row where
  "demo_service = \<lparr>sr_service_id = 7, sr_device_id = 1, sr_port = 22, sr_state = ''open'', sr_product = Some ''OpenSSH'',
     sr_version = Some ''9.2p1'', sr_cpe = None, sr_mac = ''aa:bb'', sr_ip = ''10.0.0.2'', sr_vendor = None,
     sr_kind = None, sr_hostname = None\<rparr>"

definition demo_row :: vuln_row where
  "demo_row = \<lparr>vr_vuln = \<lparr>v_device_id = 1, v_service_id = 7, v_cve = ''CVE-2024-6387'', v_source = ''kev'', v_kev = True,
     v_cvss = Some 8, v_epss = None, v_title = None, v_published = None, v_matched_on = ''product:OpenSSH'',
     v_remediation = []\<rparr>, vr_first_seen = 5, vr_last_seen = 5\<rparr>"

definition demo_state :: match_state where
  "demo_state = \<lparr>mt_summary = \<lparr>ms_services = 0, ms_kev_confirmed = 0, ms_kev_possible = 0, ms_kev_suppressed = 0,
       ms_nvd_queried = 0, ms_nvd_cached = 0, ms_nvd_skipped = 0, ms_upserted = 0\<rparr>, mt_drafts = [],
     mt_nvd = \<lparr>nv_cache = [], nv_budget = new_budget 0, nv_limiter = for_key []\<rparr>,
     mt_table = [((1, ''CVE-2024-6387'', ''product:OpenSSH''), demo_row)]\<rparr>"


end
