(* ===== verification/Topo_Outages.thy ===== *)
theory Topo_Outages
  imports Soc_Prelude
begin

text \<open>
  Learning outages from discovery sightings (\<open>homesoc/topology/outages.py\<close>): the discovery
  cycles, the dense presence matrix and the sparse absence tracks, the routine-absence baselines
  in both forms, detection, and the outage tables with their analyses.

  Stamps are whole seconds since the epoch (what \<open>utcnow_iso\<close> stores), so \<open>started_at\<close> is the
  second itself and a UTC day is its quotient by 86400. A dictionary of counters is the function
  \<open>get(h, 0)\<close> computes. The discovery interval, the device kinds, the gateway and the configured
  minimum are arguments.
\<close>

named_theorems outage_simps "facts about cycles, tracks and baselines"

definition MIN_HISTORY_CYCLES :: nat where "MIN_HISTORY_CYCLES = 3"
definition ROUTINE_MIN_RATE :: real where "ROUTINE_MIN_RATE = 1 / 10"
definition ROUTINE_HOUR_RATE :: real where "ROUTINE_HOUR_RATE = 1 / 2"
definition ROUTINE_MIN_HOUR_SAMPLES :: nat where "ROUTINE_MIN_HOUR_SAMPLES = 2"
definition ROUTINE_MIN_DAYS :: nat where "ROUTINE_MIN_DAYS = 2"

definition INFRASTRUCTURE_KINDS :: "str set" where
  "INFRASTRUCTURE_KINDS = {''router'', ''gateway'', ''ap'', ''access_point'', ''switch'', ''nas'', ''hub''}"

section \<open>Cycles\<close>

record cycle =
  cy_index :: nat
  cy_start :: int
  cy_end :: int
  cy_seen :: "nat list"

definition cy_hour :: "cycle \<Rightarrow> nat" where
  "cy_hour c = nat (cy_start c div 3600 mod 24)"

definition cy_day :: "cycle \<Rightarrow> int" where
  "cy_day c = cy_start c div 86400"

definition cycle_gap :: "nat \<Rightarrow> real" where
  "cycle_gap interval = max 5 (min (real interval / 4) 60)"

text \<open>The clustering loop of \<open>discovery_cycles\<close>: \<open>cur\<close> holds the devices of the open cycle.\<close>

fun cluster :: "real \<Rightarrow> nat \<Rightarrow> int \<Rightarrow> int \<Rightarrow> nat list \<Rightarrow> (int \<times> nat) list \<Rightarrow> cycle list" where
  "cluster gap i st en cur [] =
     (if cur = [] then [] else [\<lparr>cy_index = i, cy_start = st, cy_end = en, cy_seen = remdups cur\<rparr>])"
| "cluster gap i st en cur ((ts, d) # rest) =
     (if cur \<noteq> [] \<and> gap < of_int (ts - en)
      then \<lparr>cy_index = i, cy_start = st, cy_end = en, cy_seen = remdups cur\<rparr> # cluster gap (Suc i) ts ts [d] rest
      else cluster gap i (if cur = [] then ts else st) ts (cur @ [d]) rest)"

text \<open>\<open>stamped.sort()\<close>: by instant; the order of devices at one instant does not matter below.\<close>

definition discovery_cycles :: "nat \<Rightarrow> (int \<times> nat) list \<Rightarrow> cycle list" where
  "discovery_cycles interval rows = cluster (cycle_gap interval) 0 0 0 [] (sort_key fst rows)"

definition median :: "int list \<Rightarrow> real" where
  "median xs = (let s = sort xs; n = length xs
     in if odd n then of_int (s ! (n div 2)) else (of_int (s ! (n div 2 - 1)) + of_int (s ! (n div 2))) / 2)"

definition gaps_of :: "int list \<Rightarrow> int list" where
  "gaps_of stamps = map (\<lambda>(a, b). b - a) (filter (\<lambda>(a, b). a < b) (zip stamps (tl stamps)))"

definition devices_of :: "cycle list \<Rightarrow> nat list" where
  "devices_of cycles = remdups (concat (map cy_seen cycles))"

definition device_tolerances :: "cycle list \<Rightarrow> real \<Rightarrow> nat \<Rightarrow> real option" where
  "device_tolerances cycles window d =
     (let stamps = map cy_end (filter (\<lambda>c. d \<in> set (cy_seen c)) cycles); gaps = gaps_of stamps
      in if stamps = [] then None
         else Some (max window (2 * (if 3 \<le> length gaps then median gaps else 0))))"

text \<open>The cadence around a cycle: the median of the recent gaps, at least a minute.\<close>

definition measured_cycle_seconds :: "cycle list \<Rightarrow> nat \<Rightarrow> nat \<Rightarrow> int" where
  "measured_cycle_seconds cycles index fallback =
     (let window = take (index + 1 - (index - 10)) (drop (index - 10) cycles);
          gaps = filter (\<lambda>g. 0 < g \<and> g \<le> 24 * 3600) (gaps_of (map cy_start window))
      in if length gaps < 2 then int fallback else max 60 (\<lfloor>median gaps\<rfloor>))"

section \<open>The dense presence matrix\<close>

definition see :: "cycle \<Rightarrow> (nat \<Rightarrow> int option) \<Rightarrow> nat \<Rightarrow> int option" where
  "see c seen_last d = (if d \<in> set (cy_seen c) then Some (cy_end c) else seen_last d)"

definition seen_recently :: "(nat \<Rightarrow> real option) \<Rightarrow> cycle \<Rightarrow> (nat \<Rightarrow> int option) \<Rightarrow> nat \<Rightarrow> bool" where
  "seen_recently tol c seen_last d = (case seen_last d of
       None \<Rightarrow> False
     | Some t \<Rightarrow> of_int (cy_end c - t) \<le> (case tol d of Some x \<Rightarrow> x | None \<Rightarrow> of_int (cy_end c)))"

fun presence_from :: "(nat \<Rightarrow> real option) \<Rightarrow> nat list \<Rightarrow> (nat \<Rightarrow> int option) \<Rightarrow> cycle list \<Rightarrow> (nat, bool) dict list" where
  "presence_from tol everyone seen_last [] = []"
| "presence_from tol everyone seen_last (c # cs) =
     map (\<lambda>d. (d, seen_recently tol c (see c seen_last) d)) everyone # presence_from tol everyone (see c seen_last) cs"

definition presence :: "cycle list \<Rightarrow> (nat \<Rightarrow> real option) \<Rightarrow> (nat, bool) dict list" where
  "presence cycles tol = presence_from tol (sort (devices_of cycles)) (\<lambda>_. None) cycles"

section \<open>Baselines\<close>

record baseline =
  bl_device :: nat
  bl_cycles :: nat
  bl_absent :: nat
  bl_hour_absent :: "nat \<Rightarrow> nat"
  bl_hour_total :: "nat \<Rightarrow> nat"
  bl_hour_days :: "nat \<Rightarrow> nat"

definition bl_rate :: "baseline \<Rightarrow> real" where
  "bl_rate b = (if bl_cycles b = 0 then 0 else real (bl_absent b) / real (bl_cycles b))"

definition bl_hour_rate :: "baseline \<Rightarrow> nat \<Rightarrow> real" where
  "bl_hour_rate b h = (if bl_hour_total b h = 0 then 0 else real (bl_hour_absent b h) / real (bl_hour_total b h))"

definition is_routine :: "baseline \<Rightarrow> nat \<Rightarrow> bool" where
  "is_routine b h \<longleftrightarrow>
     (if bl_hour_total b h < ROUTINE_MIN_HOUR_SAMPLES then False
      else if bl_hour_days b h < ROUTINE_MIN_DAYS then False
      else ROUTINE_MIN_RATE \<le> bl_rate b \<and> ROUTINE_HOUR_RATE \<le> bl_hour_rate b h)"

text \<open>\<open>device_baselines\<close>, the dense form: what the loop over the matrix adds up for a device.\<close>

definition first_seen :: "cycle list \<Rightarrow> nat \<Rightarrow> nat option" where
  "first_seen cycles d = map_option cy_index (List.find (\<lambda>c. d \<in> set (cy_seen c)) cycles)"

definition bump :: "nat \<Rightarrow> (nat \<Rightarrow> nat) \<Rightarrow> nat \<Rightarrow> nat" where
  "bump h f = f(h := f h + 1)"

record dense_counts =
  dc_total :: nat
  dc_absent :: nat
  dc_hour_total :: "nat \<Rightarrow> nat"
  dc_hour_absent :: "nat \<Rightarrow> nat"
  dc_hour_days :: "nat \<Rightarrow> int set"

definition no_counts :: dense_counts where
  "no_counts = \<lparr>dc_total = 0, dc_absent = 0, dc_hour_total = (\<lambda>_. 0), dc_hour_absent = (\<lambda>_. 0), dc_hour_days = (\<lambda>_. {})\<rparr>"

definition count_cycle :: "nat \<Rightarrow> nat \<Rightarrow> cycle \<times> (nat, bool) dict \<Rightarrow> dense_counts \<Rightarrow> dense_counts" where
  "count_cycle first d = (\<lambda>(c, state) acc. case dget state d of
       None \<Rightarrow> acc
     | Some here \<Rightarrow>
         (if cy_index c < first then acc
          else let h = cy_hour c;
                   acc = acc\<lparr>dc_total := dc_total acc + 1, dc_hour_total := bump h (dc_hour_total acc)\<rparr>
               in if here then acc
                  else acc\<lparr>dc_absent := dc_absent acc + 1, dc_hour_absent := bump h (dc_hour_absent acc),
                         dc_hour_days := (dc_hour_days acc)(h := insert (cy_day c) (dc_hour_days acc h))\<rparr>))"

definition dense_baseline :: "cycle list \<Rightarrow> (nat, bool) dict list \<Rightarrow> nat \<Rightarrow> baseline" where
  "dense_baseline cycles present d =
     (let acc = fold (count_cycle (case first_seen cycles d of Some i \<Rightarrow> i | None \<Rightarrow> 0) d) (zip cycles present) no_counts
      in \<lparr>bl_device = d, bl_cycles = dc_total acc, bl_absent = dc_absent acc, bl_hour_absent = dc_hour_absent acc,
          bl_hour_total = dc_hour_total acc, bl_hour_days = (\<lambda>h. card (dc_hour_days acc h))\<rparr>)"

definition device_baselines :: "cycle list \<Rightarrow> (nat, bool) dict list \<Rightarrow> (nat, baseline) dict" where
  "device_baselines cycles present =
     map (\<lambda>d. (d, dense_baseline cycles present d))
       (filter (\<lambda>d. bl_cycles (dense_baseline cycles present d) \<noteq> 0) (sort (devices_of cycles)))"

section \<open>Sparse presence\<close>

record absence_track =
  tr_device :: nat
  tr_first :: nat
  tr_absences :: "(nat \<times> nat) list"

text \<open>The loop \<open>while low < high\<close>: the first position in the range where \<open>stay\<close> fails.\<close>

function search_from :: "(nat \<Rightarrow> bool) \<Rightarrow> nat \<Rightarrow> nat \<Rightarrow> nat" where
  "search_from stay low high =
     (if low < high
      then let mid = (low + high) div 2 in if stay mid then search_from stay (mid + 1) high else search_from stay low mid
      else low)"
  by pat_completeness auto
termination by (relation "measure (\<lambda>(stay, low, high). high - low)") auto

declare search_from.simps [simp del]

definition within_tolerance :: "cycle list \<Rightarrow> real option \<Rightarrow> nat \<Rightarrow> nat \<Rightarrow> bool" where
  "within_tolerance cycles tolerance seen_at i = (case tolerance of
       None \<Rightarrow> True
     | Some x \<Rightarrow> of_int (cy_end (cycles ! i) - cy_end (cycles ! seen_at)) \<le> x)"

fun absence_ranges :: "cycle list \<Rightarrow> real option \<Rightarrow> nat list \<Rightarrow> (nat \<times> nat) list" where
  "absence_ranges cycles tolerance [] = []"
| "absence_ranges cycles tolerance (s # ss) =
     (let stop = (case ss of t # _ \<Rightarrow> t | [] \<Rightarrow> length cycles);
          low = search_from (within_tolerance cycles tolerance s) (s + 1) stop
      in (if low < stop then [(low, stop)] else []) @ absence_ranges cycles tolerance ss)"

definition seen_in :: "cycle list \<Rightarrow> nat \<Rightarrow> nat list" where
  "seen_in cycles d = filter (\<lambda>i. d \<in> set (cy_seen (cycles ! i))) [0..<length cycles]"

definition absence_track_of :: "cycle list \<Rightarrow> (nat \<Rightarrow> real option) \<Rightarrow> nat \<Rightarrow> absence_track" where
  "absence_track_of cycles tol d =
     \<lparr>tr_device = d, tr_first = hd (seen_in cycles d), tr_absences = absence_ranges cycles (tol d) (seen_in cycles d)\<rparr>"

definition absence_tracks :: "cycle list \<Rightarrow> (nat \<Rightarrow> real option) \<Rightarrow> (nat, absence_track) dict" where
  "absence_tracks cycles tol = map (\<lambda>d. (d, absence_track_of cycles tol d)) (devices_of cycles)"

text \<open>\<open>_BaselineIndex\<close>: the hour of every cycle and the runs of cycles in one (day, hour).\<close>

record baseline_index =
  bi_length :: nat
  bi_hour_of :: "nat list"
  bi_slot_of :: "nat list"
  bi_slot_hour :: "nat list"
  bi_cycles_at :: "nat \<Rightarrow> nat list"
  bi_slots_at :: "nat \<Rightarrow> nat list"
  bi_previous :: "(int \<times> nat) option"

definition append_at :: "nat \<Rightarrow> nat \<Rightarrow> (nat \<Rightarrow> nat list) \<Rightarrow> nat \<Rightarrow> nat list" where
  "append_at h x f = f(h := f h @ [x])"

definition index_cycle :: "cycle \<Rightarrow> baseline_index \<Rightarrow> baseline_index" where
  "index_cycle c b =
     (let h = cy_hour c; key = (cy_day c, h);
          b = (if bi_previous b = Some key then b
               else b\<lparr>bi_previous := Some key, bi_slots_at := append_at h (length (bi_slot_hour b)) (bi_slots_at b),
                      bi_slot_hour := bi_slot_hour b @ [h]\<rparr>)
      in b\<lparr>bi_cycles_at := append_at h (length (bi_hour_of b)) (bi_cycles_at b), bi_hour_of := bi_hour_of b @ [h],
           bi_slot_of := bi_slot_of b @ [length (bi_slot_hour b) - 1]\<rparr>)"

definition build_index :: "cycle list \<Rightarrow> baseline_index" where
  "build_index cycles = fold index_cycle cycles
     \<lparr>bi_length = length cycles, bi_hour_of = [], bi_slot_of = [], bi_slot_hour = [], bi_cycles_at = (\<lambda>_. []),
      bi_slots_at = (\<lambda>_. []), bi_previous = None\<rparr>"

definition SHORT :: nat where "SHORT = 48"

text \<open>\<open>bisect.bisect_left\<close> on an ascending list.\<close>

definition bisect_left :: "nat list \<Rightarrow> nat \<Rightarrow> nat" where
  "bisect_left items x = length (takeWhile (\<lambda>i. i < x) items)"

definition range_by_hour :: "(nat \<Rightarrow> nat list) \<Rightarrow> nat list \<Rightarrow> nat \<times> nat \<Rightarrow> nat \<Rightarrow> nat" where
  "range_by_hour per_hour hour_of = (\<lambda>(low, high) h.
     if high - low \<le> SHORT then length (filter (\<lambda>p. hour_of ! p = h) [low..<high])
     else bisect_left (per_hour h) high - bisect_left (per_hour h) low)"

definition by_hour :: "(nat \<times> nat) list \<Rightarrow> (nat \<Rightarrow> nat list) \<Rightarrow> nat list \<Rightarrow> nat \<Rightarrow> nat" where
  "by_hour ranges per_hour hour_of h = sum_list (map (\<lambda>r. range_by_hour per_hour hour_of r h) ranges)"

text \<open>The runs of slots a device was absent in, kept latest first; runs that share a slot are merged.\<close>

definition add_run :: "nat list \<Rightarrow> nat \<times> nat \<Rightarrow> (nat \<times> nat) list \<Rightarrow> (nat \<times> nat) list" where
  "add_run slot_of = (\<lambda>(low, high) runs.
     (let run = (slot_of ! low, slot_of ! (high - 1) + 1)
      in case runs of
        (a, b) # rest \<Rightarrow> if fst run < b then (a, max b (snd run)) # rest else run # runs
      | [] \<Rightarrow> [run]))"

definition sparse_baseline :: "baseline_index \<Rightarrow> absence_track \<Rightarrow> baseline" where
  "sparse_baseline b t =
     \<lparr>bl_device = tr_device t, bl_cycles = bi_length b - tr_first t,
      bl_absent = sum_list (map (\<lambda>(low, high). high - low) (tr_absences t)),
      bl_hour_absent = by_hour (tr_absences t) (bi_cycles_at b) (bi_hour_of b),
      bl_hour_total = by_hour [(tr_first t, bi_length b)] (bi_cycles_at b) (bi_hour_of b),
      bl_hour_days = by_hour (rev (fold (add_run (bi_slot_of b)) (tr_absences t) [])) (bi_slots_at b) (bi_slot_hour b)\<rparr>"

section \<open>Detection\<close>

record outage =
  og_started :: int
  og_ended :: "int option"
  og_cycle_seconds :: int
  og_members :: "nat list"
  og_trigger :: "nat option"
  og_trigger_kind :: str

definition classify_trigger :: "nat list \<Rightarrow> (nat \<Rightarrow> str) \<Rightarrow> nat option \<Rightarrow> nat option \<times> str" where
  "classify_trigger members kinds gateway =
     (if (case gateway of None \<Rightarrow> False | Some g \<Rightarrow> g \<in> set members) then (gateway, ''gateway'')
      else case List.find (\<lambda>d. kinds d \<in> INFRASTRUCTURE_KINDS) (sort members) of
        Some d \<Rightarrow> (Some d, ''device'')
      | None \<Rightarrow> (None, ''unknown''))"

definition make_outage :: "cycle list \<Rightarrow> nat \<Rightarrow> (nat \<Rightarrow> str) \<Rightarrow> nat option \<Rightarrow> nat \<Rightarrow> nat list \<Rightarrow> int option \<Rightarrow> outage" where
  "make_outage cycles interval kinds gateway i droppers ended =
     (let (t, k) = classify_trigger droppers kinds gateway
      in \<lparr>og_started = cy_start (cycles ! i), og_ended = ended, og_cycle_seconds = measured_cycle_seconds cycles i interval,
          og_members = sort droppers, og_trigger = t, og_trigger_kind = k\<rparr>)"

text \<open>Every drop old enough to count: (cycle, device, cycle of the return).\<close>

definition track_drops :: "absence_track \<Rightarrow> (nat \<times> nat \<times> nat) list" where
  "track_drops t = map (\<lambda>(start, stop). (start, tr_device t, stop))
     (filter (\<lambda>(start, stop). MIN_HISTORY_CYCLES \<le> start - tr_first t) (tr_absences t))"

definition detect_at :: "cycle list \<Rightarrow> nat \<Rightarrow> (nat \<Rightarrow> str) \<Rightarrow> nat option \<Rightarrow> nat \<Rightarrow> (nat, absence_track) dict \<Rightarrow>
    nat \<Rightarrow> (nat \<times> nat \<times> nat) list \<Rightarrow> outage option" where
  "detect_at cycles interval kinds gateway minimum tracks i candidates =
     (if length candidates < minimum then None
      else let kept = filter (\<lambda>(_, d, _). case dget tracks d of
                   None \<Rightarrow> False
                 | Some t \<Rightarrow> \<not> is_routine (sparse_baseline (build_index cycles) t) (cy_hour (cycles ! i)))
                 (sort_key (\<lambda>(_, d, _). d) candidates);
               droppers = map (\<lambda>(_, d, _). d) kept; returns = map (\<lambda>(_, _, stop). stop) kept
           in if length droppers < minimum then None
              else Some (make_outage cycles interval kinds gateway i droppers
                (if list_ex (\<lambda>stop. length cycles \<le> stop) returns then None
                 else Some (Max (set (map (\<lambda>stop. cy_start (cycles ! stop)) returns))))))"

definition grace_window :: "nat \<Rightarrow> int option \<Rightarrow> real" where
  "grace_window interval window_seconds =
     (case window_seconds of Some w \<Rightarrow> if w \<noteq> 0 then of_int w else 2 * real interval | None \<Rightarrow> 2 * real interval)"

definition detect_outages :: "nat \<Rightarrow> int option \<Rightarrow> nat \<Rightarrow> (nat \<Rightarrow> str) \<Rightarrow> nat option \<Rightarrow> (int \<times> nat) list \<Rightarrow> outage list" where
  "detect_outages interval window_seconds min_members kinds gateway rows =
     (let cycles = discovery_cycles interval rows; window = grace_window interval window_seconds
      in if length cycles < MIN_HISTORY_CYCLES + 1 then []
         else let tracks = absence_tracks cycles (device_tolerances cycles window);
                  drops = group_by fst (concat (map (\<lambda>(d, t). track_drops t) tracks))
              in List.map_filter (\<lambda>i. detect_at cycles interval kinds gateway (max 2 min_members) tracks i
                      (case dget drops i of Some l \<Rightarrow> l | None \<Rightarrow> []))
                   (sort (dkeys drops)))"

text \<open>\<open>_ended_at\<close>, the dense form.\<close>

definition dense_return :: "cycle list \<Rightarrow> (nat, bool) dict list \<Rightarrow> nat \<Rightarrow> nat \<Rightarrow> int option" where
  "dense_return cycles present i d = map_option (\<lambda>j. cy_start (cycles ! j))
     (List.find (\<lambda>j. dget (present ! j) d = Some True) [i + 1..<length cycles])"

definition dense_ended_at :: "cycle list \<Rightarrow> (nat, bool) dict list \<Rightarrow> nat list \<Rightarrow> nat \<Rightarrow> int option" where
  "dense_ended_at cycles present members i =
     (let rs = map (dense_return cycles present i) members
      in if None \<in> set rs \<or> rs = [] then None else Some (Max (set (map the rs))))"

end
