(* ===== verification/Topo_Tracks.thy ===== *)
theory Topo_Tracks
  imports Topo_Outages
begin

text \<open>
  The sparse absence tracks describe exactly the dense presence matrix: the cycles that
  \<open>discovery_cycles\<close> returns are strictly ordered in time, the binary search finds the first cycle
  beyond the tolerance, and the positions inside the ranges of a track are the absent cells.
\<close>

section \<open>Cycles are strictly ordered in time\<close>

definition later :: "cycle \<Rightarrow> cycle \<Rightarrow> bool" where
  "later a b \<longleftrightarrow> cy_start a < cy_start b \<and> cy_end a < cy_end b"

definition timed :: "cycle list \<Rightarrow> bool" where
  "timed cycles \<longleftrightarrow> sorted_wrt later cycles \<and> map cy_index cycles = [0..<length cycles]"

definition timed_from :: "nat \<Rightarrow> int \<Rightarrow> int \<Rightarrow> cycle list \<Rightarrow> bool" where
  "timed_from i st en cs \<longleftrightarrow> sorted_wrt later cs \<and> (\<forall>c\<in>set cs. st \<le> cy_start c \<and> en \<le> cy_end c)
     \<and> map cy_index cs = [i..<i + length cs]"

lemma timed_from_Cons:
  assumes "timed_from (Suc i) ts ts cs" "st \<le> en" "en < ts"
  shows "timed_from i st en (\<lparr>cy_index = i, cy_start = st, cy_end = en, cy_seen = l\<rparr> # cs)"
proof -
  have "\<forall>c\<in>set cs. st < cy_start c \<and> en < cy_end c"
    using assms by (meson le_less_trans less_le_trans timed_from_def)
  then show ?thesis using assms by (auto simp: timed_from_def later_def upt_conv_Cons simp del: upt_Suc intro: less_imp_le)
qed

lemma timed_from_weaken: "timed_from i st' en' cs \<Longrightarrow> st \<le> st' \<Longrightarrow> en \<le> en' \<Longrightarrow> timed_from i st en cs"
  by (fastforce simp: timed_from_def)

lemma cluster_timed:
  assumes "0 \<le> gap" "cur \<noteq> []" "st \<le> en" "sorted (map fst rows)" "\<forall>r\<in>set rows. en \<le> fst r"
  shows "timed_from i st en (cluster gap i st en cur rows)"
  using assms
proof (induction gap i st en cur rows rule: cluster.induct)
  case (2 gap i st en cur ts d rest)
  show ?case
  proof (cases "gap < of_int (ts - en)")
    case True
    with 2(3) have "en < ts" by linarith
    moreover have "timed_from (Suc i) ts ts (cluster gap (Suc i) ts ts [d] rest)"
      by (rule 2(1)) (use 2(3-) True in auto)
    ultimately show ?thesis using True 2(4,5) by (simp add: timed_from_Cons)
  next
    case False
    have "timed_from i st ts (cluster gap i st ts (cur @ [d]) rest)"
      using 2(2) 2(3-) False by auto
    then have "timed_from i st en (cluster gap i st ts (cur @ [d]) rest)"
      by (rule timed_from_weaken) (use 2(7) in auto)
    with False 2(4) show ?thesis by simp
  qed
qed (simp add: timed_from_def)

lemma cycle_gap_nonneg: "0 \<le> cycle_gap interval"
  by (simp add: cycle_gap_def)

lemma discovery_cycles_timed: "timed (discovery_cycles interval rows)"
proof (cases "sort_key fst rows")
  case (Cons r rs)
  have "sorted (map fst (r # rs))" unfolding Cons [symmetric] by (rule sorted_sort_key)
  then have "timed_from 0 (fst r) (fst r) (cluster (cycle_gap interval) 0 (fst r) (fst r) [snd r] rs)"
    by (intro cluster_timed cycle_gap_nonneg) auto
  moreover have "discovery_cycles interval rows = cluster (cycle_gap interval) 0 (fst r) (fst r) [snd r] rs"
    by (cases r) (simp add: discovery_cycles_def Cons)
  ultimately show ?thesis by (simp add: timed_def timed_from_def)
qed (simp add: discovery_cycles_def timed_def)

lemma timed_nth:
  assumes "timed cycles" "i < j" "j < length cycles"
  shows "cy_start (cycles ! i) < cy_start (cycles ! j)" "cy_end (cycles ! i) < cy_end (cycles ! j)"
  using assms by (auto simp: timed_def later_def sorted_wrt_iff_nth_less)

lemma timed_end_mono: "timed cycles \<Longrightarrow> i \<le> j \<Longrightarrow> j < length cycles \<Longrightarrow> cy_end (cycles ! i) \<le> cy_end (cycles ! j)"
  by (cases "i = j") (auto dest: timed_nth(2) [of cycles i j])

lemma timed_index: "timed cycles \<Longrightarrow> i < length cycles \<Longrightarrow> cy_index (cycles ! i) = i"
  by (metis add_0 nth_map nth_upt timed_def)

section \<open>The binary search\<close>

definition splits_at :: "(nat \<Rightarrow> bool) \<Rightarrow> nat \<Rightarrow> nat \<Rightarrow> nat \<Rightarrow> bool" where
  "splits_at stay low high k \<longleftrightarrow> low \<le> k \<and> k \<le> high \<and> (\<forall>i\<in>{low..<high}. stay i = (i < k))"

lemma splits_at_right:
  assumes "splits_at stay (mid + 1) high k" "low \<le> mid" "\<forall>i\<in>{low..mid}. stay i"
  shows "splits_at stay low high k"
  unfolding splits_at_def
proof (intro conjI ballI)
  fix i assume i: "i \<in> {low..<high}"
  show "stay i = (i < k)"
    by (cases "i \<le> mid") (use assms i in \<open>auto simp: splits_at_def\<close>)
qed (use assms in \<open>auto simp: splits_at_def\<close>)

lemma splits_at_left:
  assumes "splits_at stay low mid k" "mid \<le> high" "\<forall>i\<in>{mid..<high}. \<not> stay i"
  shows "splits_at stay low high k"
  unfolding splits_at_def
proof (intro conjI ballI)
  fix i assume i: "i \<in> {low..<high}"
  show "stay i = (i < k)"
    by (cases "mid \<le> i") (use assms i in \<open>auto simp: splits_at_def\<close>)
qed (use assms in \<open>auto simp: splits_at_def\<close>)

lemma search_from_splits:
  assumes "low \<le> high" "\<And>i j. low \<le> i \<Longrightarrow> i \<le> j \<Longrightarrow> j < high \<Longrightarrow> stay j \<Longrightarrow> stay i"
  shows "splits_at stay low high (search_from stay low high)"
  using assms
proof (induction stay low high rule: search_from.induct)
  case (1 stay low high)
  let ?mid = "(low + high) div 2"
  show ?case
  proof (cases "low < high")
    case True
    then have m: "low \<le> ?mid" "?mid < high" by auto
    show ?thesis
    proof (cases "stay ?mid")
      case st: True
      have "splits_at stay (?mid + 1) high (search_from stay (?mid + 1) high)"
        by (rule 1(1)) (use True st m 1(4) in auto)
      moreover have "\<forall>i\<in>{low..?mid}. stay i" using 1(4) m st by auto
      moreover have "search_from stay low high = search_from stay (?mid + 1) high"
        using True st by (subst search_from.simps) (simp add: Let_def)
      ultimately show ?thesis using m by (simp add: splits_at_right)
    next
      case st: False
      have "splits_at stay low ?mid (search_from stay low ?mid)"
        by (rule 1(2)) (use True st m 1(4) in auto)
      moreover have "\<forall>i\<in>{?mid..<high}. \<not> stay i" using 1(4) m st by auto
      moreover have "search_from stay low high = search_from stay low ?mid"
        using True st by (subst search_from.simps) (simp add: Let_def)
      ultimately show ?thesis using m by (simp add: splits_at_left)
    qed
  next
    case False
    then have "search_from stay low high = low" by (subst search_from.simps) simp
    then show ?thesis using 1(3) False by (simp add: splits_at_def)
  qed
qed

section \<open>The dense matrix, cell by cell\<close>

definition sighted :: "cycle list \<Rightarrow> nat \<Rightarrow> nat \<Rightarrow> bool" where
  "sighted cycles d i \<longleftrightarrow> d \<in> set (cy_seen (cycles ! i))"

definition last_sight :: "cycle list \<Rightarrow> nat \<Rightarrow> nat \<Rightarrow> nat option" where
  "last_sight cycles d i = List.find (sighted cycles d) (rev [0..<Suc i])"

definition present_at :: "cycle list \<Rightarrow> real option \<Rightarrow> nat \<Rightarrow> nat \<Rightarrow> bool" where
  "present_at cycles tolerance d i = (case last_sight cycles d i of None \<Rightarrow> False | Some s \<Rightarrow> within_tolerance cycles tolerance s i)"

lemma last_sight_0: "last_sight cycles d 0 = (if sighted cycles d 0 then Some 0 else None)"
  by (simp add: last_sight_def)

lemma last_sight_Suc: "last_sight cycles d (Suc i) = (if sighted cycles d (Suc i) then Some (Suc i) else last_sight cycles d i)"
  by (simp add: last_sight_def)

lemma last_sight_at:
  "sighted cycles d s \<Longrightarrow> s \<le> i \<Longrightarrow> \<forall>j. s < j \<and> j \<le> i \<longrightarrow> \<not> sighted cycles d j \<Longrightarrow> last_sight cycles d i = Some s"
  by (induction i) (auto simp: last_sight_0 last_sight_Suc le_Suc_eq)

lemma last_sight_Some: "last_sight cycles d i = Some s \<Longrightarrow> sighted cycles d s \<and> s \<le> i"
  by (induction i) (auto simp: last_sight_0 last_sight_Suc split: if_splits)

lemma last_sight_exists: "sighted cycles d s \<Longrightarrow> s \<le> i \<Longrightarrow> last_sight cycles d i \<noteq> None"
  by (induction i) (auto simp: last_sight_0 last_sight_Suc le_Suc_eq)

lemma presence_from_nth:
  "i < length cs \<Longrightarrow> presence_from tol ds f cs ! i =
     map (\<lambda>d. (d, seen_recently tol (cs ! i) (fold see (take (Suc i) cs) f) d)) ds"
  by (induction cs arbitrary: f i) (auto simp: nth_Cons split: nat.split)

lemma length_presence [simp]: "length (presence cycles tol) = length cycles"
proof -
  have "length (presence_from tol ds f cs) = length cs" for ds f cs
    by (induction cs arbitrary: f) auto
  then show ?thesis by (simp add: presence_def)
qed

lemma fold_see:
  "i < length cs \<Longrightarrow> fold see (take (Suc i) cs) (\<lambda>_. None) d = map_option (\<lambda>s. cy_end (cs ! s)) (last_sight cs d i)"
proof (induction i)
  case 0
  then show ?case by (cases cs) (auto simp: see_def last_sight_0 sighted_def)
next
  case (Suc i)
  then show ?case by (auto simp: take_Suc_conv_app_nth [of "Suc i"] see_def last_sight_Suc sighted_def)
qed

lemma dget_map_self: "dget (map (\<lambda>d. (d, g d)) ds) d = (if d \<in> set ds then Some (g d) else None)"
  by (induction ds) (auto simp: dget_Cons)

lemma set_devices_of: "d \<in> set (devices_of cycles) \<longleftrightarrow> (\<exists>i<length cycles. sighted cycles d i)"
  by (simp add: devices_of_def sighted_def) (metis in_set_conv_nth nth_mem)

lemma presence_cell:
  assumes "i < length cycles" "d \<in> set (devices_of cycles)" "tol d \<noteq> None"
  shows "dget (presence cycles tol ! i) d = Some (present_at cycles (tol d) d i)"
  using assms by (auto simp: presence_def presence_from_nth dget_map_self seen_recently_def fold_see present_at_def
      within_tolerance_def split: option.split)

lemma presence_other: "i < length cycles \<Longrightarrow> d \<notin> set (devices_of cycles) \<Longrightarrow> dget (presence cycles tol ! i) d = None"
  by (simp add: presence_def presence_from_nth dget_map_self)

lemma dkeys_presence: "i < length cycles \<Longrightarrow> dkeys (presence cycles tol ! i) = sort (devices_of cycles)"
  by (simp add: presence_def presence_from_nth dkeys_def comp_def)

section \<open>The ranges of a track\<close>

definition positions :: "(nat \<times> nat) list \<Rightarrow> nat list" where
  "positions ranges = concat (map (\<lambda>(low, high). [low..<high]) ranges)"

lemma positions_simps [simp]: "positions [] = []" "positions (r # rs) = [fst r..<snd r] @ positions rs"
  "positions (rs @ ss) = positions rs @ positions ss"
  by (simp_all add: positions_def case_prod_unfold)

lemma set_positions: "set (positions rs) = (\<Union>r\<in>set rs. {fst r..<snd r})"
  by (auto simp: positions_def)

lemma length_positions: "length (positions rs) = sum_list (map (\<lambda>(low, high). high - low) rs)"
  by (simp add: positions_def length_concat comp_def case_prod_unfold)

lemma filter_upt_suffix: "low \<le> k \<Longrightarrow> \<forall>i\<in>{low..<high}. P i = (k \<le> i) \<Longrightarrow> k \<le> high \<Longrightarrow> filter P [low..<high] = [k..<high]"
proof -
  assume k: "low \<le> k" "k \<le> high" and P: "\<forall>i\<in>{low..<high}. P i = (k \<le> i)"
  have "filter P [low..<k] = []" using P k by (auto simp: filter_empty_conv)
  moreover have "filter P [k..<high] = [k..<high]" using P k by (auto simp: filter_id_conv)
  ultimately show ?thesis using k by (metis append_Nil filter_append le_iff_add upt_add_eq_append)
qed

text \<open>A range starts where the device has just been lost and stops where it is seen again.\<close>

definition drop_range :: "cycle list \<Rightarrow> real option \<Rightarrow> nat \<Rightarrow> nat \<times> nat \<Rightarrow> bool" where
  "drop_range cycles tolerance d r \<longleftrightarrow> 0 < fst r \<and> fst r < snd r \<and> snd r \<le> length cycles
     \<and> present_at cycles tolerance d (fst r - 1) \<and> (\<forall>i\<in>{fst r..<snd r}. \<not> present_at cycles tolerance d i)
     \<and> (snd r < length cycles \<longrightarrow> sighted cycles d (snd r))"

definition sight_list :: "cycle list \<Rightarrow> nat \<Rightarrow> nat list \<Rightarrow> bool" where
  "sight_list cycles d ss \<longleftrightarrow> sorted_wrt (<) ss \<and> (\<forall>s\<in>set ss. s < length cycles \<and> sighted cycles d s)
     \<and> (\<forall>i<length cycles. ss \<noteq> [] \<and> hd ss \<le> i \<and> sighted cycles d i \<longrightarrow> i \<in> set ss)"

lemma sight_list_tl: "sight_list cycles d (s # ss) \<Longrightarrow> sight_list cycles d ss"
  by (cases ss) (auto simp: sight_list_def)

lemma sight_list_seen_in: "sight_list cycles d (seen_in cycles d)"
  by (auto simp: sight_list_def seen_in_def sighted_def sorted_wrt_filter)

definition next_stop :: "cycle list \<Rightarrow> nat list \<Rightarrow> nat" where
  "next_stop cycles ss = (case ss of t # _ \<Rightarrow> t | [] \<Rightarrow> length cycles)"

lemma sight_list_step:
  assumes "sight_list cycles d (s # ss)"
  shows "s < next_stop cycles ss" "next_stop cycles ss \<le> length cycles"
    "next_stop cycles ss < length cycles \<longrightarrow> sighted cycles d (next_stop cycles ss)"
    "\<forall>i\<in>{s..<next_stop cycles ss}. last_sight cycles d i = Some s"
proof -
  show le: "s < next_stop cycles ss" "next_stop cycles ss \<le> length cycles"
    and "next_stop cycles ss < length cycles \<longrightarrow> sighted cycles d (next_stop cycles ss)"
    using assms by (auto simp: sight_list_def next_stop_def split: list.split)
  have "\<not> sighted cycles d j" if "s < j" "j < next_stop cycles ss" for j
  proof
    assume "sighted cycles d j"
    moreover have "j < length cycles" using that le by linarith
    ultimately have "j \<in> set (s # ss)" using assms that unfolding sight_list_def by (metis less_imp_le list.sel(1) list.simps(3))
    then have "j \<in> set ss" using that by simp
    with assms that show False by (cases ss) (auto simp: sight_list_def next_stop_def)
  qed
  with assms show "\<forall>i\<in>{s..<next_stop cycles ss}. last_sight cycles d i = Some s"
    by (auto simp: sight_list_def intro!: last_sight_at)
qed

lemma gap_range:
  fixes cycles tolerance d s ss
  defines "stop \<equiv> next_stop cycles ss"
  defines "low \<equiv> search_from (within_tolerance cycles tolerance s) (s + 1) stop"
  assumes "timed cycles" "sight_list cycles d (s # ss)" "case tolerance of None \<Rightarrow> True | Some x \<Rightarrow> 0 \<le> x"
  shows "filter (\<lambda>i. \<not> present_at cycles tolerance d i) [s..<stop] = [low..<stop]"
    and "low < stop \<Longrightarrow> drop_range cycles tolerance d (low, stop)"
    and "low \<le> stop"
proof -
  note st = sight_list_step [OF assms(4), folded stop_def]
  have pres: "present_at cycles tolerance d i = within_tolerance cycles tolerance s i" if "s \<le> i" "i < stop" for i
    using st(4) that by (simp add: present_at_def)
  have self: "within_tolerance cycles tolerance s s"
    using assms(5) by (simp add: within_tolerance_def split: option.splits)
  have split: "splits_at (within_tolerance cycles tolerance s) (s + 1) stop low"
    unfolding low_def
  proof (rule search_from_splits)
    fix i j assume "i \<le> j" "j < stop" "within_tolerance cycles tolerance s j"
    with timed_end_mono [OF assms(3), of i j] st(2) show "within_tolerance cycles tolerance s i"
      by (auto simp: within_tolerance_def split: option.splits)
  qed (use st(1) in simp)
  have here: "present_at cycles tolerance d i = (i < low)" if "s \<le> i" "i < stop" for i
    using that split self pres [OF that] by (cases "i = s") (auto simp: splits_at_def)
  show "filter (\<lambda>i. \<not> present_at cycles tolerance d i) [s..<stop] = [low..<stop]"
    by (rule filter_upt_suffix) (use here split in \<open>auto simp: splits_at_def\<close>)
  show "low < stop \<Longrightarrow> drop_range cycles tolerance d (low, stop)"
    using here split st(2,3) by (auto simp: drop_range_def splits_at_def)
  show "low \<le> stop" using split by (simp add: splits_at_def)
qed

lemma absence_ranges_Cons:
  "absence_ranges cycles tolerance (s # ss) =
     (let low = search_from (within_tolerance cycles tolerance s) (s + 1) (next_stop cycles ss)
      in if low < next_stop cycles ss then [(low, next_stop cycles ss)] else []) @ absence_ranges cycles tolerance ss"
  by (simp add: next_stop_def Let_def)

lemma absence_ranges_exact:
  assumes "timed cycles" "case tolerance of None \<Rightarrow> True | Some x \<Rightarrow> 0 \<le> x" "sight_list cycles d ss" "ss \<noteq> []"
  shows "positions (absence_ranges cycles tolerance ss) = filter (\<lambda>i. \<not> present_at cycles tolerance d i) [hd ss..<length cycles]
    \<and> (\<forall>r\<in>set (absence_ranges cycles tolerance ss). drop_range cycles tolerance d r)"
  using assms(3,4)
proof (induction ss)
  case (Cons s ss)
  note g = gap_range [OF assms(1) Cons.prems(1) assms(2)]
  note st = sight_list_step [OF Cons.prems(1)]
  have split: "[s..<length cycles] = [s..<next_stop cycles ss] @ [next_stop cycles ss..<length cycles]"
    using st by (metis le_iff_add less_imp_le upt_add_eq_append)
  have rest: "positions (absence_ranges cycles tolerance ss)
        = filter (\<lambda>i. \<not> present_at cycles tolerance d i) [next_stop cycles ss..<length cycles]
      \<and> (\<forall>r\<in>set (absence_ranges cycles tolerance ss). drop_range cycles tolerance d r)"
    using Cons.IH [OF sight_list_tl [OF Cons.prems(1)]] by (cases ss) (simp_all add: next_stop_def)
  show ?case
    using rest g by (auto simp: absence_ranges_Cons Let_def split simp del: absence_ranges.simps)
qed simp

end
