(* ===== verification/Topo_Baseline.thy ===== *)
theory Topo_Baseline
  imports Topo_Tracks
begin

text \<open>
  The sparse baselines are the dense ones: what \<open>_BaselineIndex\<close> adds up from an absence track
  is what \<open>device_baselines\<close> adds up from the matrix, the distinct days of an hour included.
\<close>

section \<open>What the dense loop adds up\<close>

definition counted :: "nat \<Rightarrow> nat \<Rightarrow> (cycle \<times> (nat, bool) dict) list \<Rightarrow> (cycle \<times> (nat, bool) dict) list" where
  "counted first d xs = filter (\<lambda>(c, st). dget st d \<noteq> None \<and> first \<le> cy_index c) xs"

definition missed :: "nat \<Rightarrow> nat \<Rightarrow> (cycle \<times> (nat, bool) dict) list \<Rightarrow> (cycle \<times> (nat, bool) dict) list" where
  "missed first d xs = filter (\<lambda>(c, st). dget st d = Some False) (counted first d xs)"

lemma counted_snoc:
  "counted first d (xs @ [(c, st)]) = counted first d xs @ (if dget st d \<noteq> None \<and> first \<le> cy_index c then [(c, st)] else [])"
  "missed first d (xs @ [(c, st)]) = missed first d xs @ (if dget st d = Some False \<and> first \<le> cy_index c then [(c, st)] else [])"
  by (auto simp: counted_def missed_def)

lemma count_cycle_apply:
  "count_cycle first d (c, st) acc = (case dget st d of
       None \<Rightarrow> acc
     | Some here \<Rightarrow>
         (if cy_index c < first then acc
          else let h = cy_hour c;
                   acc = acc\<lparr>dc_total := dc_total acc + 1, dc_hour_total := bump h (dc_hour_total acc)\<rparr>
               in if here then acc
                  else acc\<lparr>dc_absent := dc_absent acc + 1, dc_hour_absent := bump h (dc_hour_absent acc),
                         dc_hour_days := (dc_hour_days acc)(h := insert (cy_day c) (dc_hour_days acc h))\<rparr>))"
  by (simp add: count_cycle_def)

lemma fold_count_cycle:
  "fold (count_cycle first d) xs no_counts =
     \<lparr>dc_total = length (counted first d xs), dc_absent = length (missed first d xs),
      dc_hour_total = (\<lambda>h. length (filter (\<lambda>(c, st). cy_hour c = h) (counted first d xs))),
      dc_hour_absent = (\<lambda>h. length (filter (\<lambda>(c, st). cy_hour c = h) (missed first d xs))),
      dc_hour_days = (\<lambda>h. (cy_day \<circ> fst) ` set (filter (\<lambda>(c, st). cy_hour c = h) (missed first d xs)))\<rparr>"
proof (induction xs rule: rev_induct)
  case Nil
  then show ?case by (simp add: no_counts_def counted_def missed_def)
next
  case (snoc x xs)
  show ?case
    by (cases x) (auto simp: snoc count_cycle_apply counted_snoc bump_def Let_def fun_eq_iff intro: rev_image_eqI split: option.split)
qed

definition tally :: "cycle list \<Rightarrow> nat list \<Rightarrow> nat \<Rightarrow> nat" where
  "tally cycles ps h = length (filter (\<lambda>i. cy_hour (cycles ! i) = h) ps)"

definition tally_days :: "cycle list \<Rightarrow> nat list \<Rightarrow> nat \<Rightarrow> nat" where
  "tally_days cycles ps h = card ((\<lambda>i. cy_day (cycles ! i)) ` {i \<in> set ps. cy_hour (cycles ! i) = h})"

lemma find_first_index:
  "List.find P (map f [k..<n]) = map_option f (case filter (P \<circ> f) [k..<n] of [] \<Rightarrow> None | i # _ \<Rightarrow> Some i)"
proof (induction "n - k" arbitrary: k)
  case (Suc m)
  then have "[k..<n] = k # [Suc k..<n]" by (simp add: upt_conv_Cons)
  with Suc(1) [of "Suc k"] Suc(2) show ?case by (simp split: list.split)
qed simp

lemma zip_cycles:
  "length ps = length cycles \<Longrightarrow> zip cycles ps = map (\<lambda>i. (cycles ! i, ps ! i)) [0..<length cycles]"
  by (rule nth_equalityI) auto

lemma seen_in_hd:
  assumes "d \<in> set (devices_of cycles)"
  shows "seen_in cycles d \<noteq> []" "hd (seen_in cycles d) < length cycles"
  using assms
proof -
  show ne: "seen_in cycles d \<noteq> []"
    using assms by (auto simp: set_devices_of seen_in_def sighted_def filter_empty_conv)
  then have "hd (seen_in cycles d) \<in> set (seen_in cycles d)" by simp
  then show "hd (seen_in cycles d) < length cycles" by (simp add: seen_in_def)
qed

lemma first_seen_hd:
  assumes "timed cycles" "d \<in> set (devices_of cycles)"
  shows "first_seen cycles d = Some (hd (seen_in cycles d))"
proof -
  obtain i rest where s: "seen_in cycles d = i # rest" using seen_in_hd(1) [OF assms(2)] by (cases "seen_in cycles d") auto
  have "List.find (\<lambda>c. d \<in> set (cy_seen c)) cycles = List.find (\<lambda>c. d \<in> set (cy_seen c)) (map ((!) cycles) [0..<length cycles])"
    by (simp add: map_nth)
  also have "\<dots> = Some (cycles ! i)"
    unfolding find_first_index using s by (simp add: seen_in_def comp_def)
  finally show ?thesis using seen_in_hd(2) [OF assms(2)] s assms(1) by (simp add: first_seen_def timed_index)
qed

lemma filter_from: "k \<le> n \<Longrightarrow> filter (\<lambda>i. k \<le> i) [0..<n] = [k..<n]" for k n :: nat
  by (rule filter_upt_suffix) auto

lemma dense_baseline_tally:
  assumes "timed cycles" "d \<in> set (devices_of cycles)" "tol d \<noteq> None"
  defines "first \<equiv> hd (seen_in cycles d)"
  defines "ps \<equiv> filter (\<lambda>i. \<not> present_at cycles (tol d) d i) [first..<length cycles]"
  shows "dense_baseline cycles (presence cycles tol) d =
    \<lparr>bl_device = d, bl_cycles = length cycles - first, bl_absent = length ps, bl_hour_absent = tally cycles ps,
     bl_hour_total = tally cycles [first..<length cycles], bl_hour_days = tally_days cycles ps\<rparr>"
proof -
  have k: "first \<le> length cycles" using seen_in_hd(2) [OF assms(2)] by (simp add: first_def)
  let ?z = "zip cycles (presence cycles tol)" let ?f = "\<lambda>i. (cycles ! i, presence cycles tol ! i)"
  have z: "?z = map ?f [0..<length cycles]" by (rule zip_cycles) simp
  have "counted first d ?z = map ?f (filter (\<lambda>i. first \<le> i) [0..<length cycles])"
    unfolding counted_def z filter_map
    by (rule arg_cong [where f = "map ?f"], rule filter_cong)
      (use assms in \<open>auto simp: presence_cell timed_index\<close>)
  then have c: "counted first d ?z = map ?f [first..<length cycles]" using k by (simp add: filter_from)
  have "missed first d ?z = map ?f ps"
    unfolding missed_def c filter_map ps_def
    by (rule arg_cong [where f = "map ?f"], rule filter_cong)
      (use assms in \<open>auto simp: presence_cell\<close>)
  with c show ?thesis
    by (simp add: dense_baseline_def first_seen_hd [OF assms(1,2)] first_def [symmetric] fold_count_cycle filter_map comp_def
        tally_def tally_days_def fun_eq_iff image_image setcompr_eq_image image_comp)
qed

section \<open>Slots: the runs of cycles in one hour of one day\<close>

definition slot_key :: "cycle list \<Rightarrow> nat \<Rightarrow> int \<times> nat" where
  "slot_key cycles i = (cy_day (cycles ! i), cy_hour (cycles ! i))"

fun slot_at :: "cycle list \<Rightarrow> nat \<Rightarrow> nat" where
  "slot_at cycles 0 = 0"
| "slot_at cycles (Suc i) = slot_at cycles i + (if slot_key cycles (Suc i) = slot_key cycles i then 0 else 1)"

definition slot_count :: "cycle list \<Rightarrow> nat \<Rightarrow> nat" where
  "slot_count cycles k = (case k of 0 \<Rightarrow> 0 | Suc i \<Rightarrow> slot_at cycles i + 1)"

definition indexed :: "cycle list \<Rightarrow> nat \<Rightarrow> baseline_index \<Rightarrow> bool" where
  "indexed cycles k b \<longleftrightarrow> bi_length b = length cycles
     \<and> bi_hour_of b = map (\<lambda>i. cy_hour (cycles ! i)) [0..<k] \<and> bi_slot_of b = map (slot_at cycles) [0..<k]
     \<and> bi_cycles_at b = (\<lambda>h. filter (\<lambda>i. cy_hour (cycles ! i) = h) [0..<k])
     \<and> length (bi_slot_hour b) = slot_count cycles k \<and> (\<forall>i<k. bi_slot_hour b ! slot_at cycles i = cy_hour (cycles ! i))
     \<and> bi_slots_at b = (\<lambda>h. filter (\<lambda>q. bi_slot_hour b ! q = h) [0..<slot_count cycles k])
     \<and> bi_previous b = (case k of 0 \<Rightarrow> None | Suc i \<Rightarrow> Some (slot_key cycles i))"

lemma slot_at_mono: "i \<le> j \<Longrightarrow> slot_at cycles i \<le> slot_at cycles j"
  by (induction rule: dec_induct) auto

lemma slot_at_less: "i < k \<Longrightarrow> slot_at cycles i < slot_count cycles k"
  by (cases k) (auto simp: slot_count_def less_Suc_eq_le slot_at_mono)

lemma filter_nth_snoc: "filter (\<lambda>q. (xs @ [x]) ! q = h) [0..<length xs] = filter (\<lambda>q. xs ! q = h) [0..<length xs]"
  by (rule filter_cong) (simp_all add: nth_append)

lemma index_same:
  assumes "indexed cycles k b" "bi_previous b = Some (slot_key cycles k)"
  shows "indexed cycles (Suc k) (index_cycle (cycles ! k) b)"
proof -
  obtain j where k: "k = Suc j" and key: "slot_key cycles k = slot_key cycles j"
    using assms by (cases k) (auto simp: indexed_def)
  then have s: "slot_at cycles k = slot_at cycles j" and c: "slot_count cycles (Suc k) = slot_count cycles k"
    by (simp_all add: slot_count_def)
  have h: "bi_slot_hour b ! slot_at cycles k = cy_hour (cycles ! k)"
    using assms(1) key k s by (auto simp: indexed_def slot_key_def)
  have p: "bi_previous b = Some (cy_day (cycles ! k), cy_hour (cycles ! k))"
    using assms(2) by (simp add: slot_key_def)
  have "index_cycle (cycles ! k) b = b\<lparr>bi_cycles_at := append_at (cy_hour (cycles ! k)) (length (bi_hour_of b)) (bi_cycles_at b),
       bi_hour_of := bi_hour_of b @ [cy_hour (cycles ! k)], bi_slot_of := bi_slot_of b @ [length (bi_slot_hour b) - 1]\<rparr>"
    by (simp add: index_cycle_def Let_def p)
  then show ?thesis
    using assms s c h k by (auto simp: indexed_def append_at_def less_Suc_eq slot_count_def fun_eq_iff)
qed

lemma index_new:
  assumes "indexed cycles k b" "bi_previous b \<noteq> Some (slot_key cycles k)"
  shows "indexed cycles (Suc k) (index_cycle (cycles ! k) b)"
proof -
  have c: "slot_at cycles k = slot_count cycles k" "slot_count cycles (Suc k) = Suc (slot_count cycles k)"
    using assms by (cases k; auto simp: indexed_def slot_count_def)+
  have p: "bi_previous b \<noteq> Some (cy_day (cycles ! k), cy_hour (cycles ! k))"
    using assms(2) by (simp add: slot_key_def)
  define hs where "hs = bi_slot_hour b @ [cy_hour (cycles ! k)]"
  have l: "length (bi_slot_hour b) = slot_count cycles k" using assms(1) by (simp add: indexed_def)
  have e: "index_cycle (cycles ! k) b = b\<lparr>bi_previous := Some (slot_key cycles k),
       bi_slots_at := append_at (cy_hour (cycles ! k)) (length (bi_slot_hour b)) (bi_slots_at b), bi_slot_hour := hs,
       bi_cycles_at := append_at (cy_hour (cycles ! k)) (length (bi_hour_of b)) (bi_cycles_at b),
       bi_hour_of := bi_hour_of b @ [cy_hour (cycles ! k)], bi_slot_of := bi_slot_of b @ [length (bi_slot_hour b)]\<rparr>"
    by (simp add: index_cycle_def Let_def p hs_def slot_key_def)
  have hs: "\<forall>i<Suc k. hs ! slot_at cycles i = cy_hour (cycles ! i)"
    using assms(1) slot_at_less [of _ k cycles] c(1) l by (auto simp: hs_def nth_append indexed_def less_Suc_eq)
  have fl: "filter (\<lambda>q. hs ! q = h) [0..<slot_count cycles k] = filter (\<lambda>q. bi_slot_hour b ! q = h) [0..<slot_count cycles k]" for h
    unfolding hs_def l [symmetric] by (rule filter_nth_snoc)
  have last_hs: "hs ! slot_count cycles k = cy_hour (cycles ! k)" by (simp add: hs_def l [symmetric])
  have lhs: "length hs = Suc (slot_count cycles k)" by (simp add: hs_def l)
  show ?thesis
    using assms(1) hs unfolding e
    by (auto simp: indexed_def append_at_def c fl last_hs l lhs fun_eq_iff)
qed

lemma build_index_indexed: "indexed cycles (length cycles) (build_index cycles)"
proof -
  let ?b = "\<lparr>bi_length = length cycles, bi_hour_of = [], bi_slot_of = [], bi_slot_hour = [], bi_cycles_at = (\<lambda>_. []),
      bi_slots_at = (\<lambda>_. []), bi_previous = None\<rparr>"
  have "k \<le> length cycles \<Longrightarrow> indexed cycles k (fold index_cycle (take k cycles) ?b)" for k
  proof (induction k)
    case (Suc k)
    then have "fold index_cycle (take (Suc k) cycles) ?b = index_cycle (cycles ! k) (fold index_cycle (take k cycles) ?b)"
      by (simp add: take_Suc_conv_app_nth)
    with Suc index_same index_new show ?case by (metis Suc_leD)
  qed (simp add: indexed_def slot_count_def)
  from this [of "length cycles"] show ?thesis by (simp add: build_index_def)
qed

text \<open>Times grow, so a slot is exactly a (day, hour) key and a range of cycles covers a run of slots.\<close>

lemma slot_key_between:
  assumes "timed cycles" "i \<le> j" "j \<le> k" "k < length cycles" "slot_key cycles i = slot_key cycles k"
  shows "slot_key cycles j = slot_key cycles i"
proof -
  define q where "q = (\<lambda>i. cy_start (cycles ! i) div 3600)"
  have day: "cy_day (cycles ! i) = q i div 24" for i
    by (simp add: q_def cy_day_def zdiv_zmult2_eq [symmetric])
  have hour: "cy_hour (cycles ! i) = nat (q i mod 24)" for i
    by (simp add: q_def cy_hour_def)
  have key: "slot_key cycles i = slot_key cycles j \<longleftrightarrow> q i = q j" for i j
  proof
    assume "slot_key cycles i = slot_key cycles j"
    then have "q i div 24 = q j div 24" "q i mod 24 = q j mod 24"
      by (auto simp: slot_key_def day hour eq_nat_nat_iff)
    then show "q i = q j" by (metis div_mult_mod_eq)
  qed (auto simp: slot_key_def day hour)
  have "cy_start (cycles ! i) \<le> cy_start (cycles ! j)" "cy_start (cycles ! j) \<le> cy_start (cycles ! k)"
    using assms timed_nth(1) [OF assms(1), of i j] timed_nth(1) [OF assms(1), of j k]
    by (cases "i = j"; cases "j = k"; simp)+
  then have "q i \<le> q j" "q j \<le> q k" by (auto simp: q_def intro: zdiv_mono1)
  then show ?thesis using assms(5) unfolding key by linarith
qed

lemma slot_at_eq:
  assumes "timed cycles" "i \<le> j" "j < length cycles"
  shows "slot_at cycles i = slot_at cycles j \<longleftrightarrow> slot_key cycles i = slot_key cycles j"
  using assms(2,3)
proof (induction rule: dec_induct)
  case (step n)
  have mono: "slot_at cycles i \<le> slot_at cycles n" using step by (simp add: slot_at_mono)
  show ?case
  proof (cases "slot_key cycles (Suc n) = slot_key cycles n")
    case True
    then show ?thesis using step by simp
  next
    case False
    have "slot_key cycles i \<noteq> slot_key cycles (Suc n)"
      using slot_key_between [OF assms(1), of i n "Suc n"] step False by auto
    with False mono show ?thesis by simp
  qed
qed simp

lemma slot_at_image:
  "low < high \<Longrightarrow> slot_at cycles ` {low..<high} = {slot_at cycles low..<slot_at cycles (high - 1) + 1}"
proof (induction high)
  case (Suc high)
  show ?case
  proof (cases "low = high")
    case False
    with Suc have "slot_at cycles ` {low..<high} = {slot_at cycles low..<slot_at cycles (high - 1) + 1}" by simp
    moreover have "{low..<Suc high} = insert high {low..<high}" using Suc by auto
    moreover have "slot_at cycles high = slot_at cycles (high - 1) \<or> slot_at cycles high = slot_at cycles (high - 1) + 1"
      using False Suc(2) by (cases high) auto
    moreover have "slot_at cycles low \<le> slot_at cycles high" using Suc(2) by (simp add: slot_at_mono)
    moreover have "slot_at cycles low \<le> slot_at cycles (high - 1)" using False Suc(2) by (simp add: slot_at_mono)
    ultimately show ?thesis by auto
  qed simp
qed simp

section \<open>Tallies by range\<close>

lemma takeWhile_none: "\<forall>x\<in>set xs. \<not> P x \<Longrightarrow> takeWhile P xs = []"
  by (cases xs) auto

lemma bisect_left_filter:
  assumes "x \<le> n" shows "bisect_left (filter P [0..<n]) x = length (filter P [0..<x])"
proof -
  have "[0..<n] = [0..<x] @ [x..<n]" using assms by (metis le_iff_add add_0 le0 upt_add_eq_append)
  moreover have "takeWhile (\<lambda>i. i < x) (filter P [x..<n]) = []"
    by (rule takeWhile_none) simp
  moreover have "takeWhile (\<lambda>i. i < x) (filter P [0..<x] @ ys) = filter P [0..<x] @ takeWhile (\<lambda>i. i < x) ys" for ys
    by (rule takeWhile_append2) simp
  ultimately show ?thesis by (simp add: bisect_left_def)
qed

lemma range_by_hour_tally:
  assumes "per h = filter (\<lambda>p. hs ! p = h) [0..<n]" "low \<le> high" "high \<le> n"
  shows "range_by_hour per hs (low, high) h = length (filter (\<lambda>p. hs ! p = h) [low..<high])"
proof -
  have "[0..<high] = [0..<low] @ [low..<high]" using assms by (metis le_iff_add add_0 le0 upt_add_eq_append)
  with assms show ?thesis by (simp add: range_by_hour_def bisect_left_filter)
qed

lemma by_hour_tally:
  assumes "per h = filter (\<lambda>p. hs ! p = h) [0..<n]" "\<forall>r\<in>set rs. fst r \<le> snd r \<and> snd r \<le> n"
  shows "by_hour rs per hs h = length (filter (\<lambda>p. hs ! p = h) (positions rs))"
  using assms(2) by (induction rs) (auto simp: by_hour_def range_by_hour_tally [where n = n and per = per and h = h, OF assms(1)])

definition ascending :: "(nat \<times> nat) list \<Rightarrow> bool" where
  "ascending rs \<longleftrightarrow> sorted_wrt (\<lambda>r s. snd r \<le> fst s) rs \<and> (\<forall>r\<in>set rs. fst r < snd r)"

lemma ascending_of_positions: "sorted_wrt (<) (positions rs) \<Longrightarrow> \<forall>r\<in>set rs. fst r < snd r \<Longrightarrow> ascending rs"
proof (induction rs)
  case (Cons r rs)
  have "snd r \<le> fst s" if "s \<in> set rs" for s
  proof -
    have "snd r - 1 \<in> set [fst r..<snd r]" "fst s \<in> set (positions rs)"
      using Cons(3) that by (auto simp: set_positions)
    then have "snd r - 1 < fst s" using Cons(2) by (auto simp: sorted_wrt_append)
    then show ?thesis by linarith
  qed
  with Cons show ?case by (auto simp: ascending_def sorted_wrt_append)
qed (simp add: ascending_def)

section \<open>Runs of slots\<close>

text \<open>The runs kept so far, latest first: disjoint, below the latest, covering the slots of the ranges.\<close>

definition runs_for :: "cycle list \<Rightarrow> (nat \<times> nat) list \<Rightarrow> (nat \<times> nat) list \<Rightarrow> bool" where
  "runs_for cycles rs runs \<longleftrightarrow> (rs = [] \<longleftrightarrow> runs = []) \<and> set (positions runs) = slot_at cycles ` set (positions rs)
     \<and> distinct (positions runs) \<and> (\<forall>r\<in>set runs. fst r < snd r)
     \<and> (runs \<noteq> [] \<longrightarrow> snd (hd runs) = slot_at cycles (snd (last rs) - 1) + 1
        \<and> (\<forall>q\<in>set (positions (tl runs)). q < fst (hd runs)))"

lemma runs_for_step:
  assumes "runs_for cycles rs runs" "ascending (rs @ [(low, high)])" "slot_of ! low = slot_at cycles low"
    "slot_of ! (high - 1) = slot_at cycles (high - 1)"
  shows "runs_for cycles (rs @ [(low, high)]) (add_run slot_of (low, high) runs)"
proof -
  have lh: "low < high" using assms(2) by (auto simp: ascending_def)
  have mono: "slot_at cycles low \<le> slot_at cycles (high - 1)" using lh by (simp add: slot_at_mono)
  note img = slot_at_image [OF lh, of cycles]
  show ?thesis
  proof (cases runs)
    case Nil
    then show ?thesis using assms img mono by (auto simp: runs_for_def add_run_def)
  next
    case (Cons run rest)
    obtain a b where run: "run = (a, b)" by (cases run)
    have ne: "rs \<noteq> []" and b: "b = slot_at cycles (snd (last rs) - 1) + 1" and ab: "a < b"
      and rest: "\<forall>q\<in>set (positions rest). q < a"
      using assms(1) Cons run by (auto simp: runs_for_def)
    have "last rs \<in> set rs" using ne by simp
    then have "snd (last rs) \<le> low" using assms(2) by (auto simp: ascending_def sorted_wrt_append)
    then have "slot_at cycles (snd (last rs) - 1) \<le> slot_at cycles low" by (intro slot_at_mono) simp
    then have low: "b \<le> slot_at cycles low + 1" using b by simp
    show ?thesis
    proof (cases "slot_at cycles low < b")
      case True
      define m where "m = slot_at cycles (high - 1) + 1"
      have bm: "b \<le> m" and am: "a < m" using low mono ab by (simp_all add: m_def)
      have un: "{a..<m} = {a..<b} \<union> {slot_at cycles low..<m}"
        using True low ab mono by (auto simp: m_def)
      have step: "add_run slot_of (low, high) runs = (a, m) # rest"
        using True bm assms(3,4) Cons run by (simp add: add_run_def m_def max_def)
      have runs: "{a..<b} \<union> set (positions rest) = slot_at cycles ` set (positions rs)" "distinct (positions rest)" "\<forall>r\<in>set rest. fst r < snd r"
        using assms(1) unfolding Cons run runs_for_def by (elim conjE, simp)+
      have "set (positions ((a, m) # rest)) = slot_at cycles ` set (positions (rs @ [(low, high)]))"
        using runs(1) img [folded m_def] un by (auto simp: image_Un)
      moreover have "distinct (positions ((a, m) # rest))" using runs(2) rest by auto
      ultimately show ?thesis
        using runs(3) am rest unfolding runs_for_def step by (simp add: m_def del: positions_simps)
    next
      case False
      have below: "\<forall>q\<in>set (positions runs). q < slot_at cycles low"
        using False ab rest Cons run by auto
      have step: "add_run slot_of (low, high) runs = (slot_at cycles low, slot_at cycles (high - 1) + 1) # runs"
        using False assms(3,4) Cons run by (simp add: add_run_def)
      have runs: "set (positions runs) = slot_at cycles ` set (positions rs)" "distinct (positions runs)" "\<forall>r\<in>set runs. fst r < snd r"
        using assms(1) by (simp_all add: runs_for_def)
      have "distinct (positions (add_run slot_of (low, high) runs))"
        using below runs(2) unfolding step by (auto simp del: upt_Suc)
      moreover have "set (positions (add_run slot_of (low, high) runs)) = slot_at cycles ` set (positions (rs @ [(low, high)]))"
        unfolding step using runs(1) img by (simp add: image_Un Un_commute del: upt_Suc)
      ultimately show ?thesis
        using runs(3) mono below unfolding runs_for_def by (simp add: step del: positions_simps)
    qed
  qed
qed

lemma runs_for_fold:
  assumes "ascending rs" "\<forall>r\<in>set rs. snd r \<le> length cycles" "slot_of = map (slot_at cycles) [0..<length cycles]"
  shows "runs_for cycles rs (fold (add_run slot_of) rs [])"
  using assms(1,2)
proof (induction rs rule: rev_induct)
  case (snoc r rs)
  obtain low high where r: "r = (low, high)" by (cases r)
  have "ascending rs" using snoc(2) by (auto simp: ascending_def sorted_wrt_append)
  then have "runs_for cycles rs (fold (add_run slot_of) rs [])" using snoc by simp
  moreover have "low < high" "high \<le> length cycles" using snoc r by (auto simp: ascending_def)
  ultimately show ?case using snoc(2) r assms(3) by (simp add: runs_for_step)
qed (simp add: runs_for_def)

lemma by_hour_rev: "by_hour (rev rs) per hs h = by_hour rs per hs h"
  by (simp add: by_hour_def rev_map [symmetric] sum_list_rev)

lemma slots_count_days:
  assumes "timed cycles" "indexed cycles (length cycles) b" "\<forall>p\<in>P. p < length cycles"
  shows "card {q \<in> slot_at cycles ` P. bi_slot_hour b ! q = h} = card ((\<lambda>i. cy_day (cycles ! i)) ` {i \<in> P. cy_hour (cycles ! i) = h})"
proof -
  have key: "slot_at cycles i = slot_at cycles j \<longleftrightarrow> slot_key cycles i = slot_key cycles j" if "i \<in> P" "j \<in> P" for i j
    using slot_at_eq [OF assms(1), of i j] slot_at_eq [OF assms(1), of j i] that assms(3) by (cases i j rule: linorder_cases) auto
  have hour: "bi_slot_hour b ! slot_at cycles i = cy_hour (cycles ! i)" if "i \<in> P" for i
    using assms(2,3) that by (auto simp: indexed_def)
  define H where "H = {i \<in> P. cy_hour (cycles ! i) = h}"
  have "{q \<in> slot_at cycles ` P. bi_slot_hour b ! q = h} = slot_at cycles ` H"
    using hour by (auto simp: H_def)
  moreover have "card (slot_at cycles ` H) = card ((\<lambda>i. cy_day (cycles ! i)) ` H)"
  proof (rule bij_betw_same_card [of "\<lambda>q. cy_day (cycles ! (SOME i. i \<in> H \<and> slot_at cycles i = q))"])
    show "bij_betw (\<lambda>q. cy_day (cycles ! (SOME i. i \<in> H \<and> slot_at cycles i = q))) (slot_at cycles ` H) ((\<lambda>i. cy_day (cycles ! i)) ` H)"
    proof -
      have day: "slot_at cycles i = slot_at cycles j \<longleftrightarrow> cy_day (cycles ! i) = cy_day (cycles ! j)" if "i \<in> H" "j \<in> H" for i j
        using key that by (auto simp: H_def slot_key_def)
      have pick: "cy_day (cycles ! (SOME j. j \<in> H \<and> slot_at cycles j = slot_at cycles i)) = cy_day (cycles ! i)" if "i \<in> H" for i
        using someI [of "\<lambda>j. j \<in> H \<and> slot_at cycles j = slot_at cycles i" i] that day by blast
      show ?thesis
        unfolding bij_betw_def inj_on_def using pick day by (auto simp: image_image)
    qed
  qed
  ultimately show ?thesis by (simp add: H_def)
qed

section \<open>The sparse baseline is the dense one\<close>

definition tolerance_ok :: "cycle list \<Rightarrow> (nat \<Rightarrow> real option) \<Rightarrow> bool" where
  "tolerance_ok cycles tol \<longleftrightarrow> (\<forall>d\<in>set (devices_of cycles). \<exists>x\<ge>0. tol d = Some x)"

lemma track_exact:
  assumes "timed cycles" "tolerance_ok cycles tol" "d \<in> set (devices_of cycles)"
  shows "positions (tr_absences (absence_track_of cycles tol d))
      = filter (\<lambda>i. \<not> present_at cycles (tol d) d i) [hd (seen_in cycles d)..<length cycles]"
    and "r \<in> set (tr_absences (absence_track_of cycles tol d)) \<Longrightarrow> drop_range cycles (tol d) d r"
    and "ascending (tr_absences (absence_track_of cycles tol d))"
proof -
  have tol: "case tol d of None \<Rightarrow> True | Some x \<Rightarrow> 0 \<le> x" using assms(2,3) by (auto simp: tolerance_ok_def)
  note ex = absence_ranges_exact [OF assms(1) tol sight_list_seen_in seen_in_hd(1) [OF assms(3)]]
  then show eq: "positions (tr_absences (absence_track_of cycles tol d))
      = filter (\<lambda>i. \<not> present_at cycles (tol d) d i) [hd (seen_in cycles d)..<length cycles]"
    by (simp add: absence_track_of_def)
  show dr: "r \<in> set (tr_absences (absence_track_of cycles tol d)) \<Longrightarrow> drop_range cycles (tol d) d r" for r
    using ex by (simp add: absence_track_of_def)
  show "ascending (tr_absences (absence_track_of cycles tol d))"
    by (rule ascending_of_positions, unfold eq) (use dr in \<open>auto simp: sorted_wrt_filter drop_range_def\<close>)
qed

lemma sparse_baseline_dense:
  assumes "timed cycles" "tolerance_ok cycles tol" "d \<in> set (devices_of cycles)"
  shows "sparse_baseline (build_index cycles) (absence_track_of cycles tol d) = dense_baseline cycles (presence cycles tol) d"
proof -
  define t where "t = absence_track_of cycles tol d"
  define ps where "ps = filter (\<lambda>i. \<not> present_at cycles (tol d) d i) [hd (seen_in cycles d)..<length cycles]"
  define b where "b = build_index cycles"
  define n where "n = length cycles"
  note track = track_exact [OF assms, folded t_def ps_def]
  have ix: "indexed cycles n b" unfolding n_def b_def by (rule build_index_indexed)
  have first: "tr_first t \<le> n" "tr_device t = d" and first': "tr_first t = hd (seen_in cycles d)"
    using seen_in_hd(2) [OF assms(3)] by (simp_all add: t_def absence_track_of_def n_def)
  have rs: "\<forall>r\<in>set (tr_absences t). fst r \<le> snd r \<and> snd r \<le> n"
    using track(2) unfolding drop_range_def n_def by (meson less_imp_le)
  have tallies: "by_hour rs (bi_cycles_at b) (bi_hour_of b) h = tally cycles (positions rs) h"
    if "\<forall>r\<in>set rs. fst r \<le> snd r \<and> snd r \<le> n" for rs h
  proof -
    have "bi_cycles_at b h = filter (\<lambda>p. bi_hour_of b ! p = h) [0..<n]"
      using ix by (auto simp: indexed_def intro!: filter_cong)
    from by_hour_tally [where per = "bi_cycles_at b" and h = h, OF this that]
    have "by_hour rs (bi_cycles_at b) (bi_hour_of b) h = length (filter (\<lambda>p. bi_hour_of b ! p = h) (positions rs))" .
    also have "\<dots> = tally cycles (positions rs) h"
      unfolding tally_def using that ix
      by (intro arg_cong [where f = length] filter_cong) (fastforce simp: set_positions indexed_def)+
    finally show ?thesis .
  qed
  define runs where "runs = fold (add_run (bi_slot_of b)) (tr_absences t) []"
  have runs: "runs_for cycles (tr_absences t) runs"
    unfolding runs_def by (rule runs_for_fold) (use track(3) rs ix in \<open>auto simp: n_def indexed_def\<close>)
  have below: "slot_at cycles i < slot_count cycles n" if "i \<in> set ps" for i
    using that by (intro slot_at_less) (auto simp: ps_def n_def)
  have slots: "set (positions runs) = slot_at cycles ` set ps" "distinct (positions runs)"
    using runs track(1) by (simp_all add: runs_for_def)
  have bounded: "\<forall>r\<in>set runs. fst r \<le> snd r \<and> snd r \<le> slot_count cycles n"
  proof
    fix r assume r: "r \<in> set runs"
    then have "fst r < snd r" using runs by (simp add: runs_for_def)
    with r have "snd r - 1 \<in> set (positions runs)" unfolding set_positions by (intro UN_I [of r]) auto
    then have "snd r - 1 < slot_count cycles n" using slots(1) below by auto
    with \<open>fst r < snd r\<close> show "fst r \<le> snd r \<and> snd r \<le> slot_count cycles n" by linarith
  qed
  have days: "by_hour (rev runs) (bi_slots_at b) (bi_slot_hour b) h = tally_days cycles ps h" for h
  proof -
    have "bi_slots_at b h = filter (\<lambda>p. bi_slot_hour b ! p = h) [0..<slot_count cycles n]"
      using ix by (simp add: indexed_def)
    from by_hour_tally [where per = "bi_slots_at b" and h = h, OF this bounded]
    have "by_hour (rev runs) (bi_slots_at b) (bi_slot_hour b) h = length (filter (\<lambda>q. bi_slot_hour b ! q = h) (positions runs))"
      by (simp add: by_hour_rev)
    also have "\<dots> = card {q \<in> slot_at cycles ` set ps. bi_slot_hour b ! q = h}"
      using slots by (simp add: distinct_card [symmetric])
    also have "\<dots> = tally_days cycles ps h"
      unfolding tally_days_def by (rule slots_count_days) (use assms(1) ix in \<open>auto simp: n_def ps_def\<close>)
    finally show ?thesis .
  qed
  have "tol d \<noteq> None" using assms(2,3) by (auto simp: tolerance_ok_def)
  note dense = dense_baseline_tally [where tol = tol, OF assms(1,3) this, folded ps_def]
  have len: "bi_length b = n" using ix by (simp add: indexed_def n_def)
  show ?thesis
    unfolding b_def [symmetric] t_def [symmetric] dense
    using first(2) first' tallies [OF rs] tallies [of "[(tr_first t, n)]"] first(1) days track(1)
    by (simp add: sparse_baseline_def length_positions [symmetric] runs_def [symmetric] len n_def [symmetric] fun_eq_iff)
qed

end
