(* ===== verification/Topo_Detect.thy ===== *)
theory Topo_Detect
  imports Topo_Baseline
begin

text \<open>
  Detection over the sparse tracks refines detection over the dense matrix: the specification
  walks the cycles one by one and reads \<open>presence\<close>, \<open>device_baselines\<close> and \<open>_ended_at\<close>, and
  \<open>detect_outages\<close> returns the same outages.
\<close>

section \<open>The specification\<close>

definition dense_drop :: "cycle list \<Rightarrow> (nat, bool) dict list \<Rightarrow> nat \<Rightarrow> nat \<Rightarrow> bool" where
  "dense_drop cycles present i d \<longleftrightarrow> dget (present ! i) d = Some False \<and> dget (present ! (i - 1)) d = Some True
     \<and> MIN_HISTORY_CYCLES \<le> i - (case first_seen cycles d of Some k \<Rightarrow> k | None \<Rightarrow> i)
     \<and> \<not> (case dget (device_baselines cycles present) d of None \<Rightarrow> False | Some b \<Rightarrow> is_routine b (cy_hour (cycles ! i)))"

definition dense_at :: "cycle list \<Rightarrow> (nat, bool) dict list \<Rightarrow> nat \<Rightarrow> (nat \<Rightarrow> str) \<Rightarrow> nat option \<Rightarrow> nat \<Rightarrow> nat \<Rightarrow> outage option" where
  "dense_at cycles present interval kinds gateway minimum i =
     (let droppers = filter (dense_drop cycles present i) (sort (dkeys (present ! i)))
      in if length droppers < minimum then None
         else Some (make_outage cycles interval kinds gateway i droppers (dense_ended_at cycles present droppers i)))"

definition dense_detect :: "nat \<Rightarrow> int option \<Rightarrow> nat \<Rightarrow> (nat \<Rightarrow> str) \<Rightarrow> nat option \<Rightarrow> (int \<times> nat) list \<Rightarrow> outage list" where
  "dense_detect interval window_seconds min_members kinds gateway rows =
     (let cycles = discovery_cycles interval rows;
          present = presence cycles (device_tolerances cycles (grace_window interval window_seconds))
      in if length cycles < MIN_HISTORY_CYCLES + 1 then []
         else List.map_filter (dense_at cycles present interval kinds gateway (max 2 min_members)) [1..<length cycles])"

section \<open>Tolerances\<close>

lemma median_nonneg: "xs \<noteq> [] \<Longrightarrow> \<forall>x\<in>set xs. 0 \<le> x \<Longrightarrow> 0 \<le> median xs"
proof -
  assume ne: "xs \<noteq> []" and pos: "\<forall>x\<in>set xs. 0 \<le> x"
  have "0 \<le> sort xs ! i" if "i < length xs" for i
    using pos that by (metis length_sort nth_mem set_sort)
  moreover have "length xs div 2 < length xs" "length xs div 2 - 1 < length xs"
    using ne by (cases xs; simp)+
  ultimately show ?thesis by (simp add: median_def Let_def)
qed

lemma gaps_of_pos: "g \<in> set (gaps_of stamps) \<Longrightarrow> 0 \<le> g"
  by (auto simp: gaps_of_def)

lemma device_tolerances_ok: "tolerance_ok cycles (device_tolerances cycles window)"
  unfolding tolerance_ok_def
proof
  fix d assume "d \<in> set (devices_of cycles)"
  then have "filter (\<lambda>c. d \<in> set (cy_seen c)) cycles \<noteq> []"
    by (auto simp: devices_of_def filter_empty_conv)
  moreover have "3 \<le> length gaps \<Longrightarrow> gaps = gaps_of s \<Longrightarrow> 0 \<le> median gaps" for gaps s
    by (rule median_nonneg) (auto intro: gaps_of_pos)
  ultimately show "\<exists>x\<ge>0. device_tolerances cycles window d = Some x"
    by (auto simp: device_tolerances_def Let_def le_max_iff_disj)
qed

section \<open>Drops\<close>

lemma ascending_lookup: "ascending rs \<Longrightarrow> filter (\<lambda>r. fst r = i) rs = (case map_of rs i of None \<Rightarrow> [] | Some s \<Rightarrow> [(i, s)])"
proof (induction rs)
  case (Cons r rs)
  then have a: "ascending rs" and lt: "\<forall>s\<in>set rs. fst r < fst s" by (auto simp: ascending_def)
  then have "fst r = i \<Longrightarrow> filter (\<lambda>r. fst r = i) rs = []" by (auto simp: filter_empty_conv)
  with Cons.IH [OF a] show ?case by (cases r) auto
qed simp

definition old_drop :: "cycle list \<Rightarrow> (nat \<Rightarrow> real option) \<Rightarrow> nat \<Rightarrow> nat \<Rightarrow> nat option" where
  "old_drop cycles tol i d =
     (if MIN_HISTORY_CYCLES \<le> i - hd (seen_in cycles d) then map_of (tr_absences (absence_track_of cycles tol d)) i else None)"

lemma track_drops_at:
  assumes "ascending (tr_absences (absence_track_of cycles tol d))"
  shows "filter (\<lambda>x. fst x = i) (track_drops (absence_track_of cycles tol d)) =
    (case old_drop cycles tol i d of None \<Rightarrow> [] | Some stop \<Rightarrow> [(i, d, stop)])"
proof -
  let ?t = "absence_track_of cycles tol d"
  have first: "tr_first ?t = hd (seen_in cycles d)" by (simp add: absence_track_of_def)
  have "filter (\<lambda>x. fst x = i) (track_drops ?t) = map (\<lambda>(start, stop). (start, d, stop))
      (filter (\<lambda>r. MIN_HISTORY_CYCLES \<le> fst r - tr_first ?t) (filter (\<lambda>r. fst r = i) (tr_absences ?t)))"
    by (simp add: track_drops_def filter_map comp_def case_prod_unfold absence_track_of_def conj_commute)
  also have "\<dots> = (case old_drop cycles tol i d of None \<Rightarrow> [] | Some stop \<Rightarrow> [(i, d, stop)])"
    unfolding ascending_lookup [OF assms] by (simp add: old_drop_def first split: option.split)
  finally show ?thesis .
qed

definition all_drops :: "cycle list \<Rightarrow> (nat \<Rightarrow> real option) \<Rightarrow> (nat \<times> nat \<times> nat) list" where
  "all_drops cycles tol = concat (map (\<lambda>d. track_drops (absence_track_of cycles tol d)) (devices_of cycles))"

lemma concat_map_option:
  "concat (map (\<lambda>d. case f d of None \<Rightarrow> [] | Some s \<Rightarrow> [g d s]) ds) = map (\<lambda>d. g d (the (f d))) (filter (\<lambda>d. f d \<noteq> None) ds)"
  by (induction ds) (auto split: option.split)

lemma drops_at:
  assumes "timed cycles" "tolerance_ok cycles tol"
  shows "filter (\<lambda>x. fst x = i) (all_drops cycles tol) =
    map (\<lambda>d. (i, d, the (old_drop cycles tol i d))) (filter (\<lambda>d. old_drop cycles tol i d \<noteq> None) (devices_of cycles))"
proof -
  have "filter (\<lambda>x. fst x = i) (all_drops cycles tol) =
      concat (map (\<lambda>d. filter (\<lambda>x. fst x = i) (track_drops (absence_track_of cycles tol d))) (devices_of cycles))"
    by (simp add: all_drops_def filter_concat comp_def)
  also have "\<dots> = concat (map (\<lambda>d. case old_drop cycles tol i d of None \<Rightarrow> [] | Some stop \<Rightarrow> [(i, d, stop)]) (devices_of cycles))"
    using track_exact(3) [OF assms] by (intro arg_cong [where f = concat] map_cong refl track_drops_at)
  finally show ?thesis by (simp add: concat_map_option)
qed

lemma insort_key_map: "insort_key f (g x) (map g xs) = map g (insort_key (f \<circ> g) x xs)"
  by (induction xs) auto

lemma sort_key_map: "sort_key f (map g xs) = map g (sort_key (f \<circ> g) xs)"
  by (induction xs) (simp_all add: insort_key_map [unfolded comp_def] comp_def)

section \<open>A drop of the tracks is a drop of the matrix\<close>

lemma seen_before:
  assumes "d \<in> set (devices_of cycles)" "last_sight cycles d i = Some s"
  shows "i < length cycles \<Longrightarrow> hd (seen_in cycles d) \<le> i"
proof -
  assume i: "i < length cycles"
  have "s \<in> set (seen_in cycles d)" using last_sight_Some [OF assms(2)] i by (auto simp: seen_in_def sighted_def)
  then have "hd (seen_in cycles d) \<le> s"
    using sight_list_seen_in [of cycles d] by (cases "seen_in cycles d") (auto simp: sight_list_def)
  with last_sight_Some [OF assms(2)] show ?thesis by simp
qed

lemma lookup_iff:
  assumes "timed cycles" "tolerance_ok cycles tol" "d \<in> set (devices_of cycles)"
  shows "map_of (tr_absences (absence_track_of cycles tol d)) i \<noteq> None \<longleftrightarrow>
    0 < i \<and> i < length cycles \<and> \<not> present_at cycles (tol d) d i \<and> present_at cycles (tol d) d (i - 1)"
proof -
  let ?rs = "tr_absences (absence_track_of cycles tol d)"
  note track = track_exact [OF assms]
  show ?thesis
  proof
    assume "map_of ?rs i \<noteq> None"
    then obtain stop where "(i, stop) \<in> set ?rs" by (auto dest: map_of_SomeD)
    then show "0 < i \<and> i < length cycles \<and> \<not> present_at cycles (tol d) d i \<and> present_at cycles (tol d) d (i - 1)"
      using track(2) [of "(i, stop)"] by (auto simp: drop_range_def)
  next
    assume r: "0 < i \<and> i < length cycles \<and> \<not> present_at cycles (tol d) d i \<and> present_at cycles (tol d) d (i - 1)"
    then obtain s where "last_sight cycles d (i - 1) = Some s" by (auto simp: present_at_def split: option.splits)
    with r have "hd (seen_in cycles d) \<le> i - 1" by (intro seen_before [OF assms(3)]) auto
    with r have "i \<in> set (positions ?rs)" unfolding track(1) by auto
    then obtain low stop where range: "(low, stop) \<in> set ?rs" "low \<le> i" "i < stop" by (auto simp: set_positions)
    have "low = i"
    proof (rule ccontr)
      assume "low \<noteq> i"
      then have "i - 1 \<in> {low..<stop}" using range by auto
      with track(2) [OF range(1)] r show False by (auto simp: drop_range_def)
    qed
    with range(1) show "map_of ?rs i \<noteq> None" by (auto simp: map_of_eq_None_iff intro: rev_image_eqI)
  qed
qed

lemma baseline_lookup:
  assumes "timed cycles" "tolerance_ok cycles tol" "d \<in> set (devices_of cycles)"
  shows "dget (device_baselines cycles (presence cycles tol)) d = Some (dense_baseline cycles (presence cycles tol) d)"
proof -
  have "tol d \<noteq> None" using assms by (auto simp: tolerance_ok_def)
  with dense_baseline_tally [where tol = tol, OF assms(1,3)] seen_in_hd(2) [OF assms(3)]
  have "bl_cycles (dense_baseline cycles (presence cycles tol) d) \<noteq> 0" by simp
  with assms(3) show ?thesis by (simp add: device_baselines_def dget_map_self)
qed

definition routine_now :: "cycle list \<Rightarrow> (nat \<Rightarrow> real option) \<Rightarrow> nat \<Rightarrow> nat \<Rightarrow> bool" where
  "routine_now cycles tol i d \<longleftrightarrow> is_routine (sparse_baseline (build_index cycles) (absence_track_of cycles tol d)) (cy_hour (cycles ! i))"

lemma dense_drop_iff:
  assumes "timed cycles" "tolerance_ok cycles tol" "d \<in> set (devices_of cycles)" "0 < i" "i < length cycles"
  shows "dense_drop cycles (presence cycles tol) i d \<longleftrightarrow> old_drop cycles tol i d \<noteq> None \<and> \<not> routine_now cycles tol i d"
proof -
  have t: "tol d \<noteq> None" using assms by (auto simp: tolerance_ok_def)
  have cell: "j < length cycles \<Longrightarrow> dget (presence cycles tol ! j) d = Some (present_at cycles (tol d) d j)" for j
    using presence_cell [where tol = tol, OF _ assms(3) t] by simp
  show ?thesis
    using lookup_iff [OF assms(1-3), of i] assms(4,5)
    by (auto simp: dense_drop_def cell first_seen_hd [OF assms(1,3)] old_drop_def
        baseline_lookup [OF assms(1-3)] routine_now_def sparse_baseline_dense [OF assms(1-3)])
qed

lemma return_stop:
  assumes "timed cycles" "tolerance_ok cycles tol" "d \<in> set (devices_of cycles)" "old_drop cycles tol i d = Some stop"
  shows "dense_return cycles (presence cycles tol) i d = (if stop < length cycles then Some (cy_start (cycles ! stop)) else None)"
proof -
  obtain x where t: "tol d = Some x" "0 \<le> x" using assms(2,3) by (auto simp: tolerance_ok_def)
  have "(i, stop) \<in> set (tr_absences (absence_track_of cycles tol d))"
    using assms(4) by (auto simp: old_drop_def split: if_splits dest: map_of_SomeD)
  from track_exact(2) [OF assms(1-3) this]
  have r: "i < stop" "stop \<le> length cycles" "\<forall>j\<in>{i..<stop}. \<not> present_at cycles (tol d) d j"
    and at: "stop < length cycles \<Longrightarrow> sighted cycles d stop"
    by (auto simp: drop_range_def)
  have cell: "j < length cycles \<Longrightarrow> dget (presence cycles tol ! j) d = Some (present_at cycles (tol d) d j)" for j
    using presence_cell [where tol = tol, OF _ assms(3)] t by simp
  have here: "stop < length cycles \<Longrightarrow> present_at cycles (tol d) d stop"
  proof -
    assume "stop < length cycles"
    then have "last_sight cycles d stop = Some stop" by (intro last_sight_at at) auto
    with t show ?thesis by (simp add: present_at_def within_tolerance_def)
  qed
  have split: "[i + 1..<length cycles] = [i + 1..<stop] @ [stop..<length cycles]"
    using r by (metis Suc_eq_plus1 Suc_leI le_iff_add upt_add_eq_append)
  have "filter (\<lambda>j. dget (presence cycles tol ! j) d = Some True) [i + 1..<stop] = []"
    using r cell by (auto simp: filter_empty_conv)
  moreover have "filter (\<lambda>j. dget (presence cycles tol ! j) d = Some True) [stop..<length cycles] =
      (if stop < length cycles then stop # filter (\<lambda>j. dget (presence cycles tol ! j) d = Some True) [Suc stop..<length cycles] else [])"
    using here cell by (simp add: upt_conv_Cons)
  moreover have "List.find P xs = (case filter P xs of [] \<Rightarrow> None | j # _ \<Rightarrow> Some j)" for P :: "nat \<Rightarrow> bool" and xs
    by (induction xs) auto
  ultimately show ?thesis unfolding dense_return_def split by simp
qed

section \<open>One cycle\<close>

lemma detect_at_dense:
  fixes cycles tol i
  defines "cand \<equiv> map (\<lambda>d. (i, d, the (old_drop cycles tol i d))) (filter (\<lambda>d. old_drop cycles tol i d \<noteq> None) (devices_of cycles))"
  assumes "timed cycles" "tolerance_ok cycles tol" "0 < i" "i < length cycles" "0 < minimum"
  shows "detect_at cycles interval kinds gateway minimum (absence_tracks cycles tol) i cand =
    dense_at cycles (presence cycles tol) interval kinds gateway minimum i"
proof -
  define ds where "ds = filter (dense_drop cycles (presence cycles tol) i) (sort (devices_of cycles))"
  define stop where "stop = (\<lambda>d. the (old_drop cycles tol i d))"
  have iff: "dense_drop cycles (presence cycles tol) i d \<longleftrightarrow> old_drop cycles tol i d \<noteq> None \<and> \<not> routine_now cycles tol i d"
    if "d \<in> set (devices_of cycles)" for d using dense_drop_iff that assms by blast
  have sorted: "sort_key (\<lambda>(_, d, _). d) cand = map (\<lambda>d. (i, d, stop d)) (filter (\<lambda>d. old_drop cycles tol i d \<noteq> None) (sort (devices_of cycles)))"
    by (simp add: cand_def stop_def sort_key_map comp_def filter_sort)
  have kept: "filter (\<lambda>(_, d, _). case dget (absence_tracks cycles tol) d of None \<Rightarrow> False
        | Some t \<Rightarrow> \<not> is_routine (sparse_baseline (build_index cycles) t) (cy_hour (cycles ! i)))
      (sort_key (\<lambda>(_, d, _). d) cand) = map (\<lambda>d. (i, d, stop d)) ds"
    unfolding sorted ds_def filter_map filter_filter
    by (rule arg_cong [where f = "map _"], rule filter_cong)
      (auto simp: absence_tracks_def dget_map_self iff routine_now_def)
  have few: "length ds \<le> length cand"
  proof -
    have "ds = filter (\<lambda>d. \<not> routine_now cycles tol i d) (filter (\<lambda>d. old_drop cycles tol i d \<noteq> None) (sort (devices_of cycles)))"
      unfolding ds_def filter_filter by (rule filter_cong) (auto simp: iff)
    then have "length ds \<le> length (filter (\<lambda>d. old_drop cycles tol i d \<noteq> None) (sort (devices_of cycles)))"
      by (metis length_filter_le)
    then show ?thesis by (simp add: cand_def filter_sort)
  qed
  have ended: "(if list_ex (\<lambda>stop. length cycles \<le> stop) (map stop ds) then None
        else Some (Max (set (map (\<lambda>stop. cy_start (cycles ! stop)) (map stop ds))))) = dense_ended_at cycles (presence cycles tol) ds i"
    if "ds \<noteq> []"
  proof -
    have "dense_return cycles (presence cycles tol) i d = (if stop d < length cycles then Some (cy_start (cycles ! stop d)) else None)"
      if "d \<in> set ds" for d
      using that by (intro return_stop [OF assms(2,3)]) (auto simp: ds_def iff stop_def)
    then have "map (dense_return cycles (presence cycles tol) i) ds =
        map (\<lambda>d. if stop d < length cycles then Some (cy_start (cycles ! stop d)) else None) ds" by simp
    then show ?thesis using that
      by (auto simp: dense_ended_at_def Let_def list_ex_iff image_image not_le image_iff intro!: arg_cong [where f = Max] image_cong)
  qed
  have keys: "sort (dkeys (presence cycles tol ! i)) = sort (devices_of cycles)"
    using assms by (simp add: dkeys_presence sorted_sort_id)
  show ?thesis
    unfolding detect_at_def Let_def kept dense_at_def keys ds_def [symmetric]
  proof -
    have "length cand < minimum \<or> length ds < minimum \<or> ds \<noteq> []" using assms(6) by auto
    then show "(if length cand < minimum then None
        else if length (map (\<lambda>(_, d, _). d) (map (\<lambda>d. (i, d, stop d)) ds)) < minimum then None
        else Some (make_outage cycles interval kinds gateway i (map (\<lambda>(_, d, _). d) (map (\<lambda>d. (i, d, stop d)) ds))
          (if list_ex (\<lambda>stop. length cycles \<le> stop) (map (\<lambda>(_, _, stop). stop) (map (\<lambda>d. (i, d, stop d)) ds)) then None
           else Some (Max (set (map (\<lambda>stop. cy_start (cycles ! stop)) (map (\<lambda>(_, _, stop). stop) (map (\<lambda>d. (i, d, stop d)) ds))))))))
      = (if length ds < minimum then None
         else Some (make_outage cycles interval kinds gateway i ds (dense_ended_at cycles (presence cycles tol) ds i)))"
      using few ended by (auto simp add: comp_def)
  qed
qed

section \<open>The walk over the cycles\<close>

lemma map_filter_skip: "(\<And>x. x \<in> set xs \<Longrightarrow> \<not> P x \<Longrightarrow> f x = None) \<Longrightarrow> List.map_filter f (filter P xs) = List.map_filter f xs"
  by (induction xs) (auto simp: List.map_filter_def)

lemma map_filter_cong_set: "(\<And>x. x \<in> set xs \<Longrightarrow> f x = g x) \<Longrightarrow> List.map_filter f xs = List.map_filter g xs"
  by (induction xs) (auto simp: List.map_filter_def)

lemma drop_cycles:
  assumes "timed cycles" "tolerance_ok cycles tol"
  shows "sort (dkeys (group_by fst (all_drops cycles tol))) = filter (\<lambda>i. i \<in> fst ` set (all_drops cycles tol)) [1..<length cycles]"
proof (rule sorted_distinct_set_unique)
  have "1 \<le> i \<and> i < length cycles" if "(i, d, stop) \<in> set (all_drops cycles tol)" for i d stop
  proof -
    have "(i, d, stop) \<in> set (filter (\<lambda>x. fst x = i) (all_drops cycles tol))" using that by simp
    then have "old_drop cycles tol i d \<noteq> None" "d \<in> set (devices_of cycles)" unfolding drops_at [OF assms] by auto
    then have "map_of (tr_absences (absence_track_of cycles tol d)) i \<noteq> None" "d \<in> set (devices_of cycles)"
      by (auto simp: old_drop_def split: if_splits)
    then show ?thesis using lookup_iff [OF assms] by auto
  qed
  then show "set (sort (dkeys (group_by fst (all_drops cycles tol)))) = set (filter (\<lambda>i. i \<in> fst ` set (all_drops cycles tol)) [1..<length cycles])"
    by force
qed (use dwf_group_by in \<open>auto simp: dwf_def sorted_wrt_filter\<close>)

lemma detect_refines_dense:
  "detect_outages interval window_seconds min_members kinds gateway rows = dense_detect interval window_seconds min_members kinds gateway rows"
proof -
  define cycles where "cycles = discovery_cycles interval rows"
  define tol where "tol = device_tolerances cycles (grace_window interval window_seconds)"
  define D where "D = (\<lambda>i. detect_at cycles interval kinds gateway (max 2 min_members) (absence_tracks cycles tol) i
    (case dget (group_by fst (all_drops cycles tol)) i of Some l \<Rightarrow> l | None \<Rightarrow> []))"
  have ok: "timed cycles" "tolerance_ok cycles tol"
    by (simp_all add: cycles_def discovery_cycles_timed tol_def device_tolerances_ok)
  have cand: "(case dget (group_by fst (all_drops cycles tol)) i of Some l \<Rightarrow> l | None \<Rightarrow> []) = filter (\<lambda>x. fst x = i) (all_drops cycles tol)" for i
  proof (cases "i \<in> fst ` set (all_drops cycles tol)")
    case False
    then have "filter (\<lambda>x. fst x = i) (all_drops cycles tol) = []" by (auto simp: filter_empty_conv)
    with False show ?thesis by (simp add: dget_group_by)
  qed (simp add: dget_group_by)
  have "List.map_filter D (sort (dkeys (group_by fst (all_drops cycles tol)))) = List.map_filter D [1..<length cycles]"
    unfolding drop_cycles [OF ok]
  proof (rule map_filter_skip)
    fix i assume "i \<notin> fst ` set (all_drops cycles tol)"
    then have "filter (\<lambda>x. fst x = i) (all_drops cycles tol) = []" by (auto simp: filter_empty_conv)
    then show "D i = None" unfolding D_def cand by (simp add: detect_at_def)
  qed
  also have "\<dots> = List.map_filter (dense_at cycles (presence cycles tol) interval kinds gateway (max 2 min_members)) [1..<length cycles]"
  proof (rule map_filter_cong_set)
    fix i assume "i \<in> set [1..<length cycles]"
    then show "D i = dense_at cycles (presence cycles tol) interval kinds gateway (max 2 min_members) i"
      unfolding D_def cand drops_at [OF ok] by (intro detect_at_dense ok) auto
  qed
  finally show ?thesis
    by (simp add: detect_outages_def dense_detect_def Let_def cycles_def [symmetric] tol_def [symmetric] D_def
        all_drops_def absence_tracks_def comp_def)
qed

section \<open>Property\<close>

text \<open>
  C16. Whatever the sightings, the discovery interval, the grace window, the minimum, the device
  kinds and the gateway are, \<open>detect_outages\<close>, which searches the sparse absence tracks and tallies
  baselines only for devices that dropped, returns exactly the outages of the dense evaluation:
  for each cycle, the devices present in the row before and absent in this one, old enough and not
  routinely away by the dense baseline, with the dense \<open>_ended_at\<close> as the ending.
\<close>

theorem sparse_detection_refines_dense:
  "detect_outages interval window_seconds min_members kinds gateway rows =
   dense_detect interval window_seconds min_members kinds gateway rows"
  by (rule detect_refines_dense)

end
