(* ===== verification/Topo_Record.thy ===== *)
theory Topo_Record
  imports Topo_Detect "HOL-Library.Product_Lexorder"
begin

text \<open>
  The outage tables (\<open>homesoc/topology/outages.py\<close>, from \<open>record_outages\<close> on): recording what was
  detected, reading it back, and the analyses over it. Rows are in \<open>rowid\<close> order; the detected
  outages, the device labels and the local calendar date are arguments, and the event log and the
  sentences built for a reader are left out.
\<close>

section \<open>Tables\<close>

record outage_row =
  or_id :: nat
  or_started :: int
  or_ended :: "int option"
  or_cycle_seconds :: int
  or_trigger :: "nat option"
  or_kind :: str
  or_count :: nat

record member_row =
  mr_outage :: nat
  mr_device :: nat
  mr_dropped :: int
  mr_returned :: "int option"

record outage_db =
  od_outages :: "outage_row list"
  od_members :: "member_row list"

text \<open>\<open>known\<close>: start to (id, ending), later rows over earlier ones.\<close>

definition known_outages :: "outage_db \<Rightarrow> (int, nat \<times> int option) dict" where
  "known_outages db = fold (\<lambda>r. dset (or_started r) (or_id r, or_ended r)) (od_outages db) []"

text \<open>The two updates that close an outage, and the insertion of a new one with its members.\<close>

definition close_outage :: "nat \<Rightarrow> int \<Rightarrow> outage_db \<Rightarrow> outage_db" where
  "close_outage i t db = db\<lparr>
     od_outages := map (\<lambda>r. if or_id r = i then r\<lparr>or_ended := Some t\<rparr> else r) (od_outages db),
     od_members := map (\<lambda>m. if mr_outage m = i \<and> mr_returned m = None then m\<lparr>mr_returned := Some t\<rparr> else m) (od_members db)\<rparr>"

definition next_outage_id :: "outage_db \<Rightarrow> nat" where
  "next_outage_id db = fold (\<lambda>r. max (or_id r)) (od_outages db) 0 + 1"

definition insert_or_ignore :: "member_row \<Rightarrow> member_row list \<Rightarrow> member_row list" where
  "insert_or_ignore m ms =
     (if list_ex (\<lambda>k. mr_outage k = mr_outage m \<and> mr_device k = mr_device m) ms then ms else ms @ [m])"

definition insert_outage :: "outage \<Rightarrow> outage_db \<Rightarrow> outage_db" where
  "insert_outage out db =
     (let i = next_outage_id db
      in \<lparr>od_outages = od_outages db @ [\<lparr>or_id = i, or_started = og_started out, or_ended = og_ended out,
             or_cycle_seconds = og_cycle_seconds out, or_trigger = og_trigger out, or_kind = og_trigger_kind out,
             or_count = length (og_members out)\<rparr>],
          od_members = fold (\<lambda>d. insert_or_ignore \<lparr>mr_outage = i, mr_device = d, mr_dropped = og_started out, mr_returned = og_ended out\<rparr>)
             (og_members out) (od_members db)\<rparr>)"

definition record_outage :: "(int, nat \<times> int option) dict \<Rightarrow> outage \<Rightarrow> outage_db \<times> nat \<Rightarrow> outage_db \<times> nat" where
  "record_outage known out = (\<lambda>(db, added). case dget known (og_started out) of
       Some (i, ended) \<Rightarrow>
         ((case og_ended out of Some t \<Rightarrow> if ended = None then close_outage i t db else db | None \<Rightarrow> db), added)
     | None \<Rightarrow> (insert_outage out db, added + 1))"

definition record_detected :: "outage list \<Rightarrow> outage_db \<Rightarrow> outage_db \<times> nat" where
  "record_detected detected db = fold (record_outage (known_outages db)) detected (db, 0)"

definition record_outages :: "nat \<Rightarrow> int option \<Rightarrow> nat \<Rightarrow> (nat \<Rightarrow> str) \<Rightarrow> nat option \<Rightarrow> (int \<times> nat) list \<Rightarrow> outage_db \<Rightarrow> outage_db \<times> nat" where
  "record_outages interval window_seconds min_members kinds gateway rows db =
     record_detected (detect_outages interval window_seconds min_members kinds gateway rows) db"

text \<open>\<open>ORDER BY started_at DESC, id DESC LIMIT max(1, limit)\<close>, each with its members in order.\<close>

definition stored_outages :: "nat \<Rightarrow> outage_db \<Rightarrow> (nat \<times> outage) list" where
  "stored_outages limit db =
     map (\<lambda>r. (or_id r, \<lparr>og_started = or_started r, og_ended = or_ended r, og_cycle_seconds = or_cycle_seconds r,
            og_members = sort (map mr_device (filter (\<lambda>m. mr_outage m = or_id r) (od_members db))),
            og_trigger = or_trigger r, og_trigger_kind = or_kind r\<rparr>))
       (take (max 1 limit) (rev (sort_key (\<lambda>r. (or_started r, or_id r)) (od_outages db))))"

section \<open>Analyses\<close>

text \<open>\<open>co_drop_matrix\<close>: the two counters the double loop keeps.\<close>

definition count_up :: "'k \<Rightarrow> ('k, nat) dict \<Rightarrow> ('k, nat) dict" where
  "count_up k d = dset k ((case dget d k of Some n \<Rightarrow> n | None \<Rightarrow> 0) + 1) d"

definition outage_sets :: "member_row list \<Rightarrow> nat list list" where
  "outage_sets ms = map (\<lambda>(i, rows). remdups (map mr_device rows)) (group_by mr_outage ms)"

definition pairs_of :: "nat list \<Rightarrow> (nat \<times> nat) list" where
  "pairs_of members = filter (\<lambda>(a, b). a \<noteq> b) (List.product members members)"

definition co_totals :: "nat list list \<Rightarrow> (nat, nat) dict" where
  "co_totals sets = fold count_up (concat sets) []"

definition co_together :: "nat list list \<Rightarrow> (nat \<times> nat, nat) dict" where
  "co_together sets = fold count_up (concat (map pairs_of sets)) []"

definition co_drop_matrix :: "int \<Rightarrow> member_row list \<Rightarrow> (nat \<times> nat, real) dict" where
  "co_drop_matrix min_outages ms =
     (let sets = outage_sets ms; totals = co_totals sets;
          total = (\<lambda>a. case dget totals a of Some n \<Rightarrow> n | None \<Rightarrow> 0)
      in map (\<lambda>(p, n). (p, real n / real (total (fst p))))
           (filter (\<lambda>(p, n). max 1 min_outages \<le> int n \<and> total (fst p) \<noteq> 0) (sort_key fst (co_together sets))))"

definition counted_trigger :: "bool \<Rightarrow> outage_row \<Rightarrow> nat option" where
  "counted_trigger exclude_gateway r = (if exclude_gateway \<and> or_kind r = ''gateway'' then None else or_trigger r)"

definition trigger_counts :: "bool \<Rightarrow> outage_db \<Rightarrow> (nat, nat) dict" where
  "trigger_counts exclude_gateway db =
     sort_key fst (fold count_up (List.map_filter (counted_trigger exclude_gateway) (od_outages db)) [])"

definition trigger_members :: "bool \<Rightarrow> outage_db \<Rightarrow> (nat \<times> nat, nat) dict" where
  "trigger_members exclude_gateway db =
     sort_key fst (fold count_up (concat (map (\<lambda>r. case counted_trigger exclude_gateway r of None \<Rightarrow> []
         | Some t \<Rightarrow> map (\<lambda>m. (t, mr_device m)) (filter (\<lambda>m. mr_outage m = or_id r) (od_members db))) (od_outages db))) [])"

record co_member =
  co_device :: nat
  co_label :: str
  co_count :: nat
  co_probability :: real

text \<open>\<open>round(x, 3)\<close>; on a double that lies next to a tie (80 outages or more) Python may round the other way.\<close>

definition round3 :: "real \<Rightarrow> real" where
  "round3 x = of_int (py_round (1000 * x)) / 1000"

definition co_members :: "(nat \<Rightarrow> str) \<Rightarrow> nat \<Rightarrow> nat list \<Rightarrow> member_row list \<Rightarrow> co_member list" where
  "co_members names device ids ms =
     (if ids = [] then []
      else sort_key (\<lambda>c. (- co_probability c, - int (co_count c), co_device c))
        (map (\<lambda>(d, n). \<lparr>co_device = d, co_label = names d, co_count = n, co_probability = round3 (real n / real (length ids))\<rparr>)
          (filter (\<lambda>(d, n). d \<noteq> device)
            (sort_key fst (fold count_up (map mr_device (filter (\<lambda>m. mr_outage m \<in> set ids) ms)) [])))))"

record 'date blast_radius =
  br_outages :: nat
  br_triggered :: nat
  br_dates :: "'date list"
  br_cycle_seconds :: "int option"
  br_member_count :: nat
  br_co_members :: "co_member list"
  br_co_triggered :: "co_member list"
  br_attended :: nat
  br_attended_dates :: "'date list"
  br_attended_count :: nat

definition attended_rows :: "nat \<Rightarrow> outage_db \<Rightarrow> outage_row list" where
  "attended_rows device db =
     sort_key or_started (filter (\<lambda>r. list_ex (\<lambda>m. mr_outage m = or_id r \<and> mr_device m = device) (od_members db)) (od_outages db))"

definition observed_blast_radius :: "(nat \<Rightarrow> str) \<Rightarrow> (int \<Rightarrow> 'date) \<Rightarrow> nat \<Rightarrow> outage_db \<Rightarrow> 'date blast_radius" where
  "observed_blast_radius names human_date device db =
     (let rows = attended_rows device db;
          triggered = filter (\<lambda>r. or_trigger r = Some device) rows;
          ids = map or_id rows; triggered_ids = map or_id triggered
      in \<lparr>br_outages = length ids, br_triggered = length triggered_ids, br_dates = map (human_date \<circ> or_started) triggered,
          br_cycle_seconds = (if triggered = [] then None else Some (Max (set (map or_cycle_seconds triggered)))),
          br_member_count = fold max (map (\<lambda>r. or_count r - 1) triggered) 0,
          br_co_members = co_members names device ids (od_members db),
          br_co_triggered = co_members names device triggered_ids (od_members db),
          br_attended = length ids - length triggered_ids,
          br_attended_dates = map (human_date \<circ> or_started) (filter (\<lambda>r. or_id r \<notin> set triggered_ids) rows),
          br_attended_count = fold max (map or_count rows) 0\<rparr>)"

section \<open>Recording keeps what is on record\<close>

lemma find_append: "List.find P (xs @ ys) = (case List.find P xs of Some x \<Rightarrow> Some x | None \<Rightarrow> List.find P ys)"
  by (induction xs) auto

definition latest_row :: "outage_db \<Rightarrow> int \<Rightarrow> outage_row option" where
  "latest_row db t = List.find (\<lambda>r. or_started r = t) (rev (od_outages db))"

lemma known_lookup: "dget (known_outages db) t = map_option (\<lambda>r. (or_id r, or_ended r)) (latest_row db t)"
proof -
  have "dget (fold (\<lambda>r. dset (or_started r) (or_id r, or_ended r)) rs []) t =
      map_option (\<lambda>r. (or_id r, or_ended r)) (List.find (\<lambda>r. or_started r = t) (rev rs))" for rs
    by (induction rs rule: rev_induct) auto
  then show ?thesis by (simp add: known_outages_def latest_row_def)
qed

text \<open>A row and a member as they may change: an ending or a return is filled in, nothing else.\<close>

definition same_or_closed :: "outage_row \<Rightarrow> outage_row \<Rightarrow> bool" where
  "same_or_closed r r' \<longleftrightarrow> r' = r \<or> or_ended r = None \<and> (\<exists>t. r' = r\<lparr>or_ended := Some t\<rparr>)"

definition same_or_returned :: "member_row \<Rightarrow> member_row \<Rightarrow> bool" where
  "same_or_returned m m' \<longleftrightarrow> m' = m \<or> mr_returned m = None \<and> (\<exists>t. m' = m\<lparr>mr_returned := Some t\<rparr>)"

lemma max_id_fold: "or_id r \<in> or_id ` set rs \<Longrightarrow> or_id r \<le> fold (\<lambda>r. max (or_id r)) rs (k :: nat)"
proof (induction rs arbitrary: k)
  case (Cons x rs)
  have base: "k \<le> fold (\<lambda>r. max (or_id r)) rs k" for k :: nat
    by (induction rs arbitrary: k) (auto intro: order.trans [OF max.cobounded2])
  from Cons base [of "max (or_id x) k"] show ?case by auto
qed simp

lemma next_id_fresh: "r \<in> set (od_outages db) \<Longrightarrow> or_id r < next_outage_id db"
  using max_id_fold [of r "od_outages db" 0] by (simp add: next_outage_id_def)

lemma insert_members:
  "\<exists>new. fold (\<lambda>d. insert_or_ignore (m d)) ds ms = ms @ new \<and> list_all (\<lambda>k. k \<in> m ` set ds) new"
proof (induction ds arbitrary: ms)
  case (Cons d ds)
  obtain new where new: "fold (\<lambda>d. insert_or_ignore (m d)) ds (insert_or_ignore (m d) ms) = insert_or_ignore (m d) ms @ new"
      "list_all (\<lambda>k. k \<in> m ` set ds) new" using Cons by blast
  have "\<exists>pre. insert_or_ignore (m d) ms = ms @ pre \<and> list_all (\<lambda>k. k = m d) pre"
    by (simp add: insert_or_ignore_def)
  then obtain pre where "insert_or_ignore (m d) ms = ms @ pre" "list_all (\<lambda>k. k = m d) pre" by blast
  with new show ?case by (intro exI [of _ "pre @ new"]) (auto simp: list_all_iff)
qed simp

text \<open>
  What recording guarantees: the old rows and members are a prefix of the new ones, each the same or
  closed, and every new member belongs to an outage that was not on record.
\<close>

definition history_kept :: "outage_db \<Rightarrow> outage_db \<Rightarrow> bool" where
  "history_kept db db' \<longleftrightarrow>
     (let n = length (od_outages db); k = length (od_members db)
      in list_all2 same_or_closed (od_outages db) (take n (od_outages db'))
       \<and> list_all2 same_or_returned (od_members db) (take k (od_members db'))
       \<and> list_all (\<lambda>m. mr_outage m \<notin> or_id ` set (od_outages db)) (drop k (od_members db')))"

definition kept_by :: "outage_db \<Rightarrow> int set \<Rightarrow> outage_db \<Rightarrow> bool" where
  "kept_by db S db' \<longleftrightarrow>
     (let n = length (od_outages db); k = length (od_members db)
      in list_all2 (\<lambda>r r'. same_or_closed r r' \<and> (or_started r \<notin> S \<longrightarrow> r' = r)) (od_outages db) (take n (od_outages db'))
       \<and> list_all2 same_or_returned (od_members db) (take k (od_members db'))
       \<and> list_all (\<lambda>m. mr_outage m \<notin> or_id ` set (od_outages db)) (drop k (od_members db')))"

lemma kept_by_history: "kept_by db S db' \<Longrightarrow> history_kept db db'"
  by (auto simp: kept_by_def history_kept_def Let_def elim: list_all2_mono)

lemma kept_by_refl: "kept_by db {} db"
  by (simp add: kept_by_def Let_def same_or_closed_def same_or_returned_def list_all2_same)

lemma kept_by_weaken: "kept_by db S db' \<Longrightarrow> S \<subseteq> T \<Longrightarrow> kept_by db T db'"
  by (auto simp: kept_by_def Let_def elim!: list_all2_mono)

lemma same_or_closed_id: "same_or_closed r r' \<Longrightarrow> or_id r' = or_id r"
  by (auto simp: same_or_closed_def)

lemma kept_by_close:
  assumes "kept_by db S db'" "distinct (map or_id (od_outages db))" "s \<notin> S" "dget (known_outages db) s = Some (i, None)"
  shows "kept_by db (insert s S) (close_outage i t db')"
proof -
  obtain r0 where r0: "r0 \<in> set (od_outages db)" "or_id r0 = i" "or_started r0 = s" "or_ended r0 = None"
    using assms(4) by (auto simp: known_lookup latest_row_def dest!: find_Some_D)
  let ?n = "length (od_outages db)"
  have rows: "list_all2 (\<lambda>r r'. same_or_closed r r' \<and> (or_started r \<notin> insert s S \<longrightarrow> r' = r)) (od_outages db)
      (map (\<lambda>r. if or_id r = i then r\<lparr>or_ended := Some t\<rparr> else r) (take ?n (od_outages db')))"
    unfolding list_all2_map2
  proof (rule list.rel_mono_strong)
    show "list_all2 (\<lambda>r r'. same_or_closed r r' \<and> (or_started r \<notin> S \<longrightarrow> r' = r)) (od_outages db) (take ?n (od_outages db'))"
      using assms(1) by (simp add: kept_by_def Let_def)
    fix r r' assume r: "r \<in> set (od_outages db)" and old: "same_or_closed r r' \<and> (or_started r \<notin> S \<longrightarrow> r' = r)"
    show "same_or_closed r (if or_id r' = i then r'\<lparr>or_ended := Some t\<rparr> else r')
        \<and> (or_started r \<notin> insert s S \<longrightarrow> (if or_id r' = i then r'\<lparr>or_ended := Some t\<rparr> else r') = r)"
    proof (cases "or_id r' = i")
      case True
      then have "or_id r = or_id r0" using old r0(2) same_or_closed_id [of r r'] by simp
      then have "r = r0" using assms(2) r r0(1) unfolding distinct_map by (meson inj_onD)
      with old assms(3) r0 True show ?thesis by (auto simp: same_or_closed_def)
    qed (use old same_or_closed_id [of r r'] in auto)
  qed
  have members: "list_all2 same_or_returned (od_members db)
      (map (\<lambda>m. if mr_outage m = i \<and> mr_returned m = None then m\<lparr>mr_returned := Some t\<rparr> else m) (take (length (od_members db)) (od_members db')))"
    unfolding list_all2_map2
  proof (rule list.rel_mono_strong)
    show "list_all2 same_or_returned (od_members db) (take (length (od_members db)) (od_members db'))"
      using assms(1) by (simp add: kept_by_def Let_def)
  qed (auto simp: same_or_returned_def)
  have fresh: "list_all (\<lambda>m. mr_outage m \<notin> or_id ` set (od_outages db))
      (map (\<lambda>m. if mr_outage m = i \<and> mr_returned m = None then m\<lparr>mr_returned := Some t\<rparr> else m) (drop (length (od_members db)) (od_members db')))"
    using assms(1) by (auto simp: kept_by_def Let_def list_all_iff)
  show ?thesis
    unfolding kept_by_def Let_def close_outage_def using rows members fresh by (simp add: take_map drop_map)
qed

lemma kept_by_length: "kept_by db S db' \<Longrightarrow> length (od_outages db) \<le> length (od_outages db') \<and> length (od_members db) \<le> length (od_members db')"
  by (auto simp: kept_by_def Let_def dest!: list_all2_lengthD)

lemma kept_by_ids: "kept_by db S db' \<Longrightarrow> or_id ` set (od_outages db) \<subseteq> or_id ` set (od_outages db')"
proof
  fix i assume k: "kept_by db S db'" and "i \<in> or_id ` set (od_outages db)"
  then obtain j where j: "j < length (od_outages db)" "i = or_id (od_outages db ! j)" by (auto simp: in_set_conv_nth)
  with k kept_by_length [OF k] have "or_id (od_outages db' ! j) = i"
    by (auto simp: kept_by_def Let_def list_all2_conv_all_nth dest: same_or_closed_id)
  moreover have "od_outages db' ! j \<in> set (od_outages db')" using j kept_by_length [OF k] by simp
  ultimately show "i \<in> or_id ` set (od_outages db')" by blast
qed

lemma kept_by_insert:
  assumes "kept_by db S db'"
  shows "kept_by db S (insert_outage out db')"
proof -
  let ?i = "next_outage_id db'"
  have fresh: "?i \<notin> or_id ` set (od_outages db)"
    using kept_by_ids [OF assms] next_id_fresh [of _ db'] by fastforce
  obtain new where new: "od_members (insert_outage out db') = od_members db' @ new" "list_all (\<lambda>m. mr_outage m = ?i) new"
    using insert_members [of "\<lambda>d. \<lparr>mr_outage = ?i, mr_device = d, mr_dropped = og_started out, mr_returned = og_ended out\<rparr>" "og_members out" "od_members db'"]
    by (auto simp: insert_outage_def Let_def list_all_iff) fastforce
  then have "list_all (\<lambda>m. mr_outage m \<notin> or_id ` set (od_outages db)) new" using fresh by (auto simp: list_all_iff)
  moreover obtain row where "od_outages (insert_outage out db') = od_outages db' @ [row]" by (simp add: insert_outage_def Let_def)
  ultimately show ?thesis
    using assms kept_by_length [OF assms] new(1) by (simp add: kept_by_def Let_def)
qed

lemma record_outage_kept:
  assumes "kept_by db S (fst st)" "distinct (map or_id (od_outages db))" "og_started out \<notin> S"
  shows "kept_by db (insert (og_started out) S) (fst (record_outage (known_outages db) out st))"
  using assms kept_by_close [OF assms] kept_by_insert [OF assms(1)]
  by (auto simp: record_outage_def case_prod_unfold split: option.split intro: kept_by_weaken)

lemma record_detected_kept:
  assumes "distinct (map or_id (od_outages db))" "distinct (map og_started detected)"
  shows "history_kept db (fst (record_detected detected db))"
proof -
  have "kept_by db (set (map og_started outs)) (fst (fold (record_outage (known_outages db)) outs (db, 0)))"
    if "distinct (map og_started outs)" for outs
    using that
  proof (induction outs rule: rev_induct)
    case (snoc out outs)
    then show ?case using record_outage_kept [OF _ assms(1), of "set (map og_started outs)" _ out] by simp
  qed (simp add: kept_by_refl)
  with assms(2) show ?thesis unfolding record_detected_def by (blast intro: kept_by_history)
qed

section \<open>Recording twice is recording once\<close>

definition covered :: "outage_db \<Rightarrow> outage \<Rightarrow> bool" where
  "covered db out \<longleftrightarrow> (\<exists>r. latest_row db (og_started out) = Some r \<and> (og_ended out \<noteq> None \<longrightarrow> or_ended r \<noteq> None))"

definition follows_rows :: "outage_db \<Rightarrow> outage_db \<Rightarrow> bool" where
  "follows_rows db db' \<longleftrightarrow> (\<forall>t r. latest_row db t = Some r \<longrightarrow>
     (\<exists>r'. latest_row db' t = Some r' \<and> or_id r' = or_id r \<and> (or_ended r \<noteq> None \<longrightarrow> or_ended r' \<noteq> None)))"

lemma latest_close: "latest_row (close_outage i t db) s = map_option (\<lambda>r. if or_id r = i then r\<lparr>or_ended := Some t\<rparr> else r) (latest_row db s)"
proof -
  have "List.find (\<lambda>r. or_started r = s) (map (\<lambda>r. if or_id r = i then r\<lparr>or_ended := Some t\<rparr> else r) rs)
      = map_option (\<lambda>r. if or_id r = i then r\<lparr>or_ended := Some t\<rparr> else r) (List.find (\<lambda>r. or_started r = s) rs)" for rs
    by (induction rs) auto
  then show ?thesis by (simp add: latest_row_def close_outage_def rev_map)
qed

lemma latest_insert:
  "s \<noteq> og_started out \<Longrightarrow> latest_row (insert_outage out db) s = latest_row db s"
  "\<exists>r. latest_row (insert_outage out db) (og_started out) = Some r \<and> or_ended r = og_ended out"
  by (simp_all add: latest_row_def insert_outage_def Let_def)

lemma follows_close: "follows_rows db db' \<Longrightarrow> follows_rows db (close_outage i t db')"
  unfolding follows_rows_def latest_close by fastforce

lemma follows_insert: "follows_rows db db' \<Longrightarrow> latest_row db (og_started out) = None \<Longrightarrow> follows_rows db (insert_outage out db')"
  unfolding follows_rows_def by (metis latest_insert(1) option.distinct(1))

lemma covered_close: "covered db o' \<Longrightarrow> covered (close_outage i t db) o'"
proof -
  assume "covered db o'"
  then obtain r where "latest_row db (og_started o') = Some r" "og_ended o' \<noteq> None \<longrightarrow> or_ended r \<noteq> None"
    by (auto simp: covered_def)
  then show ?thesis by (cases "or_id r = i") (auto simp: covered_def latest_close)
qed

lemma covered_insert: "covered db o' \<Longrightarrow> og_started o' \<noteq> og_started out \<Longrightarrow> covered (insert_outage out db) o'"
  by (simp add: covered_def latest_insert(1))

lemma record_step:
  assumes "follows_rows db (fst st)"
  shows "follows_rows db (fst (record_outage (known_outages db) out st))"
    and "covered (fst (record_outage (known_outages db) out st)) out"
    and "og_started o' \<noteq> og_started out \<Longrightarrow> covered (fst st) o' \<Longrightarrow> covered (fst (record_outage (known_outages db) out st)) o'"
proof -
  obtain db' k where st: "st = (db', k)" by (cases st)
  show "follows_rows db (fst (record_outage (known_outages db) out st))"
    using assms follows_close [of db db'] follows_insert [of db db' out]
    by (auto simp: st record_outage_def known_lookup split: option.split)
  show "covered (fst (record_outage (known_outages db) out st)) out"
  proof (cases "latest_row db (og_started out)")
    case None
    then show ?thesis
      using latest_insert(2) [of out db'] by (auto simp: st record_outage_def known_lookup covered_def)
  next
    case (Some r)
    then obtain r' where "latest_row db' (og_started out) = Some r'" "or_id r' = or_id r" "or_ended r \<noteq> None \<longrightarrow> or_ended r' \<noteq> None"
      using assms unfolding follows_rows_def st by (metis fst_conv)
    with Some show ?thesis
      by (auto simp: st record_outage_def known_lookup covered_def latest_close split: option.split)
  qed
  show "covered (fst (record_outage (known_outages db) out st)) o'" if "og_started o' \<noteq> og_started out" "covered (fst st) o'"
    using that covered_close [of db' o'] covered_insert [of db' o' out]
    by (auto simp: st record_outage_def split: option.split)
qed

lemma record_detected_covers:
  assumes "distinct (map og_started detected)"
  shows "list_all (covered (fst (record_detected detected db))) detected"
proof -
  have "follows_rows db (fst (fold (record_outage (known_outages db)) outs (db, 0)))
      \<and> list_all (covered (fst (fold (record_outage (known_outages db)) outs (db, 0)))) outs"
    if "distinct (map og_started outs)" for outs
    using that
  proof (induction outs rule: rev_induct)
    case Nil
    then show ?case by (simp add: follows_rows_def)
  next
    case (snoc out outs)
    let ?st = "fold (record_outage (known_outages db)) outs (db, 0)"
    have ih: "follows_rows db (fst ?st)" "list_all (covered (fst ?st)) outs" using snoc by auto
    have "og_started o' \<noteq> og_started out" if "o' \<in> set outs" for o' using snoc(2) that by auto (metis image_eqI)
    then show ?case using record_step [OF ih(1)] ih(2) by (auto simp: list_all_iff)
  qed
  with assms show ?thesis by (simp add: record_detected_def)
qed

lemma covered_no_change: "covered db out \<Longrightarrow> record_outage (known_outages db) out (db, k) = (db, k)"
  by (auto simp: covered_def record_outage_def known_lookup split: option.split)

lemma record_detected_again:
  assumes "distinct (map og_started detected)"
  shows "record_detected detected (fst (record_detected detected db)) = (fst (record_detected detected db), 0)"
proof -
  let ?db = "fst (record_detected detected db)"
  have "fold (record_outage (known_outages ?db)) outs (?db, 0) = (?db, 0)" if "list_all (covered ?db) outs" for outs
    using that by (induction outs) (auto simp: covered_no_change)
  with record_detected_covers [OF assms] show ?thesis by (simp add: record_detected_def [of detected ?db])
qed

text \<open>The starts of what is detected are the starts of different cycles.\<close>

lemma detected_starts: "distinct (map og_started (detect_outages interval window_seconds min_members kinds gateway rows))"
proof -
  let ?cycles = "discovery_cycles interval rows"
  have "map og_started (List.map_filter (dense_at ?cycles present interval kinds gateway m) ks) =
      map (\<lambda>i. cy_start (?cycles ! i)) (filter (\<lambda>i. dense_at ?cycles present interval kinds gateway m i \<noteq> None) ks)" for present m ks
    by (induction ks) (auto simp: dense_at_def make_outage_def Let_def case_prod_unfold List.map_filter_def)
  moreover have "inj_on (\<lambda>i. cy_start (?cycles ! i)) {..<length ?cycles}"
    by (rule linorder_inj_onI) (auto dest: timed_nth(1) [OF discovery_cycles_timed])
  moreover have "distinct (map (\<lambda>i. cy_start (?cycles ! i)) (filter P [1..<length ?cycles]))" for P
    using calculation(2) by (auto simp: distinct_map intro: inj_on_subset)
  ultimately show ?thesis
    unfolding detect_refines_dense dense_detect_def Let_def by (simp add: if_distrib [of "map og_started"] if_distrib [of distinct])
qed

section \<open>Co-drop counts\<close>

lemma dwf_count_up: "dwf (fold count_up xs [])"
  by (induction xs rule: rev_induct) (simp_all add: count_up_def)

lemma fold_count_up: "dget (fold count_up xs []) k = (if k \<in> set xs then Some (count_list xs k) else None)"
  by (induction xs rule: rev_induct) (auto simp: count_up_def)

lemma count_list_concat: "count_list (concat xss) x = sum_list (map (\<lambda>xs. count_list xs x) xss)"
  by (induction xss) simp_all

lemma count_list_distinct: "distinct xs \<Longrightarrow> count_list xs x = (if x \<in> set xs then 1 else 0)"
  by (induction xs) auto

lemma sum_list_indicator: "sum_list (map (\<lambda>x. if P x then 1 else 0) xs) = length (filter P xs)"
  by (induction xs) auto

lemma pairs_of_in: "(a, b) \<in> set (pairs_of members) \<longleftrightarrow> a \<in> set members \<and> b \<in> set members \<and> a \<noteq> b"
  by (auto simp: pairs_of_def)

lemma distinct_pairs_of: "distinct members \<Longrightarrow> distinct (pairs_of members)"
  by (simp add: pairs_of_def distinct_product)

definition outages_with :: "member_row list \<Rightarrow> nat \<Rightarrow> nat set" where
  "outages_with ms d = set (map mr_outage (filter (\<lambda>m. mr_device m = d) ms))"

lemma card_keys: "dwf d \<Longrightarrow> card (fst ` set d) = length d"
  unfolding dwf_def dkeys_def by (metis distinct_card length_map set_map)

lemma outage_sets_count:
  "length (filter (\<lambda>s. P (set s)) (outage_sets ms)) =
     card {i \<in> mr_outage ` set ms. P {d. i \<in> outages_with ms d}}"
proof -
  let ?G = "group_by mr_outage ms"
  have rows: "(i, rows) \<in> set ?G \<Longrightarrow> rows = filter (\<lambda>m. mr_outage m = i) ms \<and> i \<in> mr_outage ` set ms" for i rows
    using dget_in_dwf [OF dwf_group_by] by (fastforce simp: dget_group_by split: if_splits)
  have dev: "mr_device ` set (filter (\<lambda>m. mr_outage m = i) ms) = {d. i \<in> outages_with ms d}" for i
    by (auto simp: outages_with_def)
  have "length (filter (\<lambda>s. P (set s)) (outage_sets ms)) = length (filter (\<lambda>(i, rows). P {d. i \<in> outages_with ms d}) ?G)"
    unfolding outage_sets_def filter_map length_map
  proof (rule arg_cong [where f = length], rule filter_cong)
    fix x assume x: "x \<in> set ?G"
    obtain i rs where xi: "x = (i, rs)" by (rule prod.exhaust)
    from rows [OF x [unfolded xi]] have "rs = filter (\<lambda>m. mr_outage m = i) ms" by (rule conjunct1)
    then have "set (remdups (map mr_device rs)) = {d. i \<in> outages_with ms d}" using dev [of i] by (simp only: set_remdups set_map)
    then show "((\<lambda>s. P (set s)) \<circ> (\<lambda>(i, rows). remdups (map mr_device rows))) x = (case x of (i, rows) \<Rightarrow> P {d. i \<in> outages_with ms d})"
      by (simp only: xi comp_def prod.case)
  qed simp
  also have "\<dots> = card (fst ` set (filter (\<lambda>(i, rows). P {d. i \<in> outages_with ms d}) ?G))"
    by (rule card_keys [symmetric], rule dwf_filter, rule dwf_group_by)
  also have "fst ` set (filter (\<lambda>(i, rows). P {d. i \<in> outages_with ms d}) ?G) = {i \<in> mr_outage ` set ms. P {d. i \<in> outages_with ms d}}"
    using dkeys_group_by [of mr_outage ms] by (force simp: dkeys_def)
  finally show ?thesis .
qed

lemma outages_with_sub: "i \<in> outages_with ms d \<Longrightarrow> i \<in> mr_outage ` set ms"
  by (auto simp: outages_with_def)

lemma distinct_outage_sets: "\<forall>s\<in>set (outage_sets ms). distinct s"
  by (auto simp: outage_sets_def)

lemma count_totals: "count_list (concat (outage_sets ms)) a = card (outages_with ms a)"
proof -
  have "count_list (concat (outage_sets ms)) a = length (filter (\<lambda>s. a \<in> set s) (outage_sets ms))"
    using distinct_outage_sets [of ms]
    by (simp add: count_list_concat sum_list_indicator [symmetric] count_list_distinct cong: map_cong)
  also have "\<dots> = card (outages_with ms a)"
    unfolding outage_sets_count [where P = "\<lambda>s. a \<in> s"]
    by (rule arg_cong [where f = card]) (auto dest: outages_with_sub)
  finally show ?thesis .
qed

lemma count_together:
  "count_list (concat (map pairs_of (outage_sets ms))) (a, b) = (if a \<noteq> b then card (outages_with ms a \<inter> outages_with ms b) else 0)"
proof -
  have "count_list (concat (map pairs_of (outage_sets ms))) (a, b) = length (filter (\<lambda>s. (a, b) \<in> set (pairs_of s)) (outage_sets ms))"
    using distinct_outage_sets [of ms]
    by (simp add: count_list_concat sum_list_indicator [symmetric] count_list_distinct distinct_pairs_of comp_def cong: map_cong)
  also have "\<dots> = (if a \<noteq> b then card (outages_with ms a \<inter> outages_with ms b) else 0)"
    unfolding pairs_of_in outage_sets_count [where P = "\<lambda>s. a \<in> s \<and> b \<in> s \<and> a \<noteq> b"]
    by (auto intro!: arg_cong [where f = card] dest: outages_with_sub)
  finally show ?thesis .
qed

lemma dget_sort_filter_map:
  assumes "dwf d"
  shows "dget (map (\<lambda>(p, n). (p, g p n)) (filter (\<lambda>(p, n). P p n) (sort_key fst d))) k =
    (case dget d k of None \<Rightarrow> None | Some n \<Rightarrow> if P k n then Some (g k n) else None)"
proof -
  have wf: "dwf (map (\<lambda>(p, n). (p, g p n)) (filter (\<lambda>(p, n). P p n) (sort_key fst d)))"
  proof -
    have "dwf (sort_key fst d)"
      using assms unfolding dwf_def dkeys_def by (metis distinct_map distinct_sort set_sort)
    then have "dwf (filter (\<lambda>(p, n). P p n) (sort_key fst d))" by (rule dwf_filter)
    then show ?thesis by (simp add: dwf_def dkeys_def comp_def case_prod_unfold)
  qed
  show ?thesis
  proof (cases "dget d k")
    case None
    then have "k \<notin> fst ` set d" by (simp add: dget_None_iff dkeys_def)
    then have "k \<notin> set (dkeys (map (\<lambda>(p, n). (p, g p n)) (filter (\<lambda>(p, n). P p n) (sort_key fst d))))"
      by (force simp: dkeys_def)
    then have "dget (map (\<lambda>(p, n). (p, g p n)) (filter (\<lambda>(p, n). P p n) (sort_key fst d))) k = None" unfolding dget_None_iff .
    with None show ?thesis by simp
  next
    case (Some n)
    then have mem: "(k, n) \<in> set d" by (rule dget_Some_in)
    have uniq: "(k, m) \<in> set d \<Longrightarrow> m = n" for m using dget_in_dwf [OF assms] Some by fastforce
    show ?thesis
    proof (cases "P k n")
      case True
      then have "(k, g k n) \<in> set (map (\<lambda>(p, n). (p, g p n)) (filter (\<lambda>(p, n). P p n) (sort_key fst d)))"
        using mem by force
      with dget_in_dwf [OF wf] Some True show ?thesis by simp
    next
      case False
      then have "k \<notin> set (dkeys (map (\<lambda>(p, n). (p, g p n)) (filter (\<lambda>(p, n). P p n) (sort_key fst d))))"
        using uniq by (auto simp: dkeys_def)
      with Some False show ?thesis by (simp add: dget_None_iff)
    qed
  qed
qed

lemma mem_count_list: "x \<in> set xs \<longleftrightarrow> count_list xs x \<noteq> 0"
  by (simp add: count_list_0_iff)

lemma co_drop_lookup:
  "dget (co_drop_matrix k ms) (a, b) =
     (let n = card (outages_with ms a \<inter> outages_with ms b)
      in if a \<noteq> b \<and> max 1 k \<le> int n then Some (real n / real (card (outages_with ms a))) else None)"
proof -
  let ?n = "card (outages_with ms a \<inter> outages_with ms b)"
  have fin: "finite (outages_with ms a)" by (simp add: outages_with_def)
  have le: "?n \<le> card (outages_with ms a)" by (rule card_mono [OF fin]) simp
  have tot: "(case dget (co_totals (outage_sets ms)) a of Some n \<Rightarrow> n | None \<Rightarrow> 0) = card (outages_with ms a)" for a
    unfolding co_totals_def fold_count_up mem_count_list count_totals by simp
  have tog: "dget (co_together (outage_sets ms)) (a, b) = (if a \<noteq> b \<and> ?n \<noteq> 0 then Some ?n else None)"
    unfolding co_together_def fold_count_up mem_count_list count_together by simp
  have wf: "dwf (co_together (outage_sets ms))" by (simp add: co_together_def dwf_count_up)
  show ?thesis
    unfolding co_drop_matrix_def Let_def dget_sort_filter_map [OF wf, where P = "\<lambda>p n. max 1 k \<le> int n \<and> _ p"]
    using le by (auto simp: tog tot)
qed

section \<open>Properties\<close>

text \<open>
  When the ids are distinct (the primary key), a recording keeps every outage row, in place, the
  same up to an ending filled in where there was none, keeps every member row the same up to a return
  filled in where there was none, and gives new member rows only to outages that were not on record.
\<close>

theorem outage_history_kept:
  assumes "distinct (map or_id (od_outages db))"
  shows "history_kept db (fst (record_outages interval window_seconds min_members kinds gateway rows db))"
  unfolding record_outages_def by (rule record_detected_kept [OF assms detected_starts])

theorem outage_history_kept_witness:
  "history_kept \<lparr>od_outages = [\<lparr>or_id = 4, or_started = 900, or_ended = None, or_cycle_seconds = 600, or_trigger = None,
       or_kind = ''unknown'', or_count = 2\<rparr>], od_members = [\<lparr>mr_outage = 4, mr_device = 7, mr_dropped = 900, mr_returned = None\<rparr>]\<rparr>
     (fst (record_outages 600 None 3 (\<lambda>_. ''phone'') None [(0, 7), (600, 7)] \<lparr>od_outages = [\<lparr>or_id = 4, or_started = 900, or_ended = None,
        or_cycle_seconds = 600, or_trigger = None, or_kind = ''unknown'', or_count = 2\<rparr>],
        od_members = [\<lparr>mr_outage = 4, mr_device = 7, mr_dropped = 900, mr_returned = None\<rparr>]\<rparr>))"
  by (rule outage_history_kept) simp

text \<open>
  Recording is idempotent: after a recording, recording the same history again adds nothing and
  leaves both tables as they are.
\<close>

theorem recording_idempotent:
  "(let db' = fst (record_outages interval window_seconds min_members kinds gateway rows db)
    in record_outages interval window_seconds min_members kinds gateway rows db' = (db', 0))"
  unfolding record_outages_def Let_def by (rule record_detected_again [OF detected_starts])

text \<open>
  The entry of the co-drop matrix for two devices is the number of recorded outages both were in
  over the number the first was in, present exactly when the devices differ and shared at least
  \<open>max(1, min_outages)\<close> outages.
\<close>

theorem co_drop_exact:
  "dget (co_drop_matrix min_outages ms) (a, b) =
     (let n = card (outages_with ms a \<inter> outages_with ms b)
      in if a \<noteq> b \<and> max 1 min_outages \<le> int n then Some (real n / real (card (outages_with ms a))) else None)"
  by (rule co_drop_lookup)

end
