(* ===== verification/Topo_Graph.thy ===== *)
theory Topo_Graph
  imports Topo_Record Py_Net
begin

text \<open>
  The dependency graph (\<open>homesoc/topology/graph.py\<close>): building the node and edge lists, who depends
  on a node (the traversal and the one-pass counts), criticality, blast radius and the \<open>dep_edges\<close>
  cache. What \<open>infer.py\<close> infers, the device rows with their display names, the hubs, the phrases
  of the providers and the recorded outages are arguments.
\<close>

section \<open>Nodes and edges\<close>

record node =
  nd_id :: str
  nd_kind :: str
  nd_label :: str
  nd_sublabel :: "str option"
  nd_device :: "nat option"
  nd_criticality :: nat
  nd_severity :: "str option"
  nd_online :: bool

record edge =
  ed_src :: str
  ed_dst :: str
  ed_type :: str
  ed_protocol :: "str option"
  ed_confidence :: str
  ed_evidence :: str
  ed_count :: nat

definition CONFIDENCES :: "str list" where
  "CONFIDENCES = [''assumed'', ''inferred'', ''observed'']"

definition NODE_KINDS :: "str list" where
  "NODE_KINDS = [''internet'', ''resolver'', ''provider'', ''device'', ''cloud'']"

definition DEPENDENCY_EDGE_TYPES :: "str list" where
  "DEPENDENCY_EDGE_TYPES = [''gateway'', ''internet'', ''dns'', ''cloud'', ''uses'', ''hosted_by'']"

definition edge_key :: "edge \<Rightarrow> str \<times> str \<times> str" where
  "edge_key e = (ed_src e, ed_dst e, ed_type e)"

definition device_node_id :: "nat \<Rightarrow> str" where
  "device_node_id d = ''device:'' @ dec_digits d"

definition is_device_id :: "str \<Rightarrow> bool" where
  "is_device_id n \<longleftrightarrow> prefix ''device:'' n"

text \<open>The sort key of a node: rank of its kind, then the address plan for devices and the label otherwise.\<close>

definition KIND_RANK :: "str \<Rightarrow> nat" where
  "KIND_RANK k = length (takeWhile (\<lambda>x. x \<noteq> k) NODE_KINDS)"

definition ip_key :: "str \<Rightarrow> nat list" where
  "ip_key t = (let parts = split_on CHR ''.'' t
     in if length parts = 4 \<and> list_all all_digits parts then map dec_val parts else [999, 999, 999, 999])"

definition node_sort_key :: "node \<Rightarrow> nat \<times> nat list \<times> str" where
  "node_sort_key n = (case nd_sublabel n of
       Some s \<Rightarrow> if nd_kind n = ''device'' \<and> s \<noteq> [] then (0, ip_key (hd (split_on CHR '' '' s)), []) else (1, [], lower (nd_label n))
     | None \<Rightarrow> (1, [], lower (nd_label n)))"

definition sorted_nodes :: "node list \<Rightarrow> node list" where
  "sorted_nodes = sort_key (\<lambda>n. (KIND_RANK (nd_kind n), node_sort_key n, nd_id n))"

section \<open>Reachability\<close>

definition reverse_adjacency :: "edge list \<Rightarrow> (str, str list) dict" where
  "reverse_adjacency edges =
     fold (\<lambda>e. dappend (ed_dst e) (ed_src e)) (filter (\<lambda>e. ed_type e \<in> set DEPENDENCY_EDGE_TYPES) edges) []"

definition sources_of :: "(str, str list) dict \<Rightarrow> str \<Rightarrow> str list" where
  "sources_of reverse n = (case dget reverse n of Some l \<Rightarrow> l | None \<Rightarrow> [])"

text \<open>\<open>while stack\<close>: the stack is kept with its top first, so \<open>extend\<close> puts the reversed sources in front.\<close>

function walk_back :: "(str, str list) dict \<Rightarrow> str \<Rightarrow> str list \<Rightarrow> str list \<Rightarrow> str list" where
  "walk_back reverse target seen [] = seen"
| "walk_back reverse target seen (c # stack) =
     (if c \<in> set seen \<or> c = target then walk_back reverse target seen stack
      else walk_back reverse target (c # seen) (rev (sources_of reverse c) @ stack))"
  by pat_completeness auto

definition all_sources :: "(str, str list) dict \<Rightarrow> str set" where
  "all_sources reverse = \<Union> (set ` snd ` set reverse)"

lemma sources_of_subset: "set (sources_of reverse n) \<subseteq> all_sources reverse"
proof (cases "dget reverse n")
  case (Some l)
  then have "(n, l) \<in> set reverse" by (rule dget_Some_in)
  then show ?thesis using Some by (force simp: sources_of_def all_sources_def)
qed (simp add: sources_of_def)

lemma finite_all_sources [simp]: "finite (all_sources reverse)"
  by (simp add: all_sources_def)

termination walk_back
proof (relation "inv_image (finite_psubset <*lex*> less_than)
    (\<lambda>(reverse, target, seen, stack). ((all_sources reverse \<union> set stack) - set seen, length stack))")
  fix reverse and target c :: str and seen stack
  assume "c \<in> set seen \<or> c = target"
  show "((reverse, target, seen, stack), reverse, target, seen, c # stack) \<in> inv_image (finite_psubset <*lex*> less_than)
      (\<lambda>(reverse, target, seen, stack). ((all_sources reverse \<union> set stack) - set seen, length stack))"
    by (auto simp: finite_psubset_def)
next
  fix reverse and target c :: str and seen stack
  assume "\<not> (c \<in> set seen \<or> c = target)"
  then show "((reverse, target, c # seen, rev (sources_of reverse c) @ stack), reverse, target, seen, c # stack)
      \<in> inv_image (finite_psubset <*lex*> less_than)
      (\<lambda>(reverse, target, seen, stack). ((all_sources reverse \<union> set stack) - set seen, length stack))"
    using sources_of_subset [of reverse c] by (auto simp: finite_psubset_def)
qed auto

declare walk_back.simps(2) [simp del]

definition dependents :: "edge list \<Rightarrow> str \<Rightarrow> str list" where
  "dependents edges n = (let reverse = reverse_adjacency edges
     in sort (walk_back reverse n [] (rev (sources_of reverse n))))"

text \<open>The relation the edges denote, and what the traversal returns.\<close>

definition depends :: "edge list \<Rightarrow> (str \<times> str) set" where
  "depends edges = (\<lambda>e. (ed_src e, ed_dst e)) ` {e \<in> set edges. ed_type e \<in> set DEPENDENCY_EDGE_TYPES}"

lemma fold_dappend:
  "dget (fold (\<lambda>x. dappend (f x) (g x)) xs []) k =
     (if k \<in> f ` set xs then Some (map g (filter (\<lambda>x. f x = k) xs)) else None)"
proof (induction xs rule: rev_induct)
  case (snoc x xs)
  have "k \<notin> f ` set xs \<Longrightarrow> filter (\<lambda>x. f x = k) xs = []" by (auto simp: filter_empty_conv)
  with snoc show ?case by (auto simp: dappend_def)
qed simp

lemma set_sources_of: "m \<in> set (sources_of (reverse_adjacency edges) n) \<longleftrightarrow> (m, n) \<in> depends edges"
  by (auto simp: sources_of_def reverse_adjacency_def fold_dappend depends_def)

definition back_edges :: "(str, str list) dict \<Rightarrow> (str \<times> str) set" where
  "back_edges reverse = {(m, n). m \<in> set (sources_of reverse n)}"

lemma walk_back_sound:
  "x \<in> set (walk_back reverse target seen stack) \<Longrightarrow>
     x \<in> set seen \<or> x \<noteq> target \<and> (\<exists>s\<in>set stack. (x, s) \<in> (back_edges reverse)\<^sup>*)"
proof (induction reverse target seen stack rule: walk_back.induct)
  case (2 reverse target seen c stack)
  show ?case
  proof (cases "c \<in> set seen \<or> c = target")
    case True
    with 2 show ?thesis by (auto simp: walk_back.simps(2))
  next
    case False
    with 2 have "x \<in> set (c # seen) \<or> x \<noteq> target \<and> (\<exists>s\<in>set (rev (sources_of reverse c) @ stack). (x, s) \<in> (back_edges reverse)\<^sup>*)"
      by (simp add: walk_back.simps(2))
    moreover have "(x, s) \<in> (back_edges reverse)\<^sup>* \<Longrightarrow> s \<in> set (sources_of reverse c) \<Longrightarrow> (x, c) \<in> (back_edges reverse)\<^sup>*" for s
      by (rule rtrancl_into_rtrancl) (auto simp: back_edges_def)
    ultimately show ?thesis using False by auto
  qed
qed simp

lemma walk_back_closed:
  assumes "\<forall>x\<in>set seen. set (sources_of reverse x) \<subseteq> set seen \<union> set stack \<union> {target}"
  shows "set seen \<union> set stack \<subseteq> set (walk_back reverse target seen stack) \<union> {target}
    \<and> (\<forall>x\<in>set (walk_back reverse target seen stack). set (sources_of reverse x) \<subseteq> set (walk_back reverse target seen stack) \<union> {target})
    \<and> (distinct seen \<longrightarrow> distinct (walk_back reverse target seen stack))"
  using assms
proof (induction reverse target seen stack rule: walk_back.induct)
  case (2 reverse target seen c stack)
  show ?case
  proof (cases "c \<in> set seen \<or> c = target")
    case True
    moreover have "\<forall>x\<in>set seen. set (sources_of reverse x) \<subseteq> set seen \<union> set stack \<union> {target}" using 2(3) True by auto
    ultimately show ?thesis using 2(1) by (auto simp: walk_back.simps(2))
  next
    case False
    moreover have "\<forall>x\<in>set (c # seen). set (sources_of reverse x) \<subseteq> set (c # seen) \<union> set (rev (sources_of reverse c) @ stack) \<union> {target}"
      using 2(3) by auto
    ultimately show ?thesis using 2(2) by (auto simp: walk_back.simps(2))
  qed
qed auto

lemma set_dependents: "set (dependents edges n) = {m. m \<noteq> n \<and> (m, n) \<in> (depends edges)\<^sup>+}"
proof -
  define S where "S = set (walk_back (reverse_adjacency edges) n [] (rev (sources_of (reverse_adjacency edges) n)))"
  have eq: "back_edges (reverse_adjacency edges) = depends edges" by (auto simp: back_edges_def set_sources_of)
  have sound: "x \<noteq> n \<and> (x, n) \<in> (depends edges)\<^sup>+" if "x \<in> S" for x
  proof -
    from walk_back_sound [OF that [unfolded S_def]] obtain s where "x \<noteq> n" "(x, s) \<in> (depends edges)\<^sup>*" "(s, n) \<in> depends edges"
      by (auto simp: eq set_sources_of)
    then show ?thesis by (meson rtrancl_into_trancl1)
  qed
  have start: "(m, n) \<in> depends edges \<Longrightarrow> m \<noteq> n \<Longrightarrow> m \<in> S" for m
    using walk_back_closed [of "[]" "reverse_adjacency edges" "rev (sources_of (reverse_adjacency edges) n)" n]
    by (auto simp: S_def set_sources_of subset_iff)
  have closed: "y \<in> S \<Longrightarrow> (m, y) \<in> depends edges \<Longrightarrow> m \<noteq> n \<Longrightarrow> m \<in> S" for y m
    using walk_back_closed [of "[]" "reverse_adjacency edges" "rev (sources_of (reverse_adjacency edges) n)" n]
    by (auto simp: S_def set_sources_of subset_iff)
  have "(m, n) \<in> (depends edges)\<^sup>+ \<Longrightarrow> m \<noteq> n \<longrightarrow> m \<in> S" for m
    by (induction rule: converse_trancl_induct) (metis start closed)+
  with sound show ?thesis by (auto simp: dependents_def Let_def S_def)
qed

lemma distinct_dependents: "distinct (dependents edges n)"
  using walk_back_closed [of "[]" "reverse_adjacency edges" _ n] by (simp add: dependents_def Let_def)

end
