(* ===== verification/Topo_Counts.thy ===== *)
theory Topo_Counts
  imports Topo_Graph
begin

unbundle bit_operations_syntax

text \<open>
  \<open>_dependent_counts\<close> of \<open>homesoc/topology/graph.py\<close>: how many devices depend on each node, in one
  pass. The reverse graph is condensed into strongly connected components with an explicit work
  list, and the devices behind a component are a bit mask. \<open>None\<close> stands for the exceptions the code
  could raise (\<open>comp_of[src]\<close> of a node without a component, \<open>pop\<close> of an empty stack).
\<close>

section \<open>State\<close>

text \<open>The stacks keep their top first; \<open>on_stack\<close> holds exactly what is on the stack, so it is the stack's set.\<close>

record tarjan =
  tj_index :: "(str, nat) dict"
  tj_low :: "(str, nat) dict"
  tj_stack :: "str list"
  tj_comp :: "(str, nat) dict"
  tj_closures :: "(nat, int) dict"
  tj_counts :: "(str, nat) dict"
  tj_next_index :: nat
  tj_next_comp :: nat
  tj_work :: "(str \<times> str list) list"

definition num_at :: "('k, nat) dict \<Rightarrow> 'k \<Rightarrow> nat" where
  "num_at d k = (case dget d k of Some n \<Rightarrow> n | None \<Rightarrow> 0)"

definition position :: "'a \<Rightarrow> 'a list \<Rightarrow> nat" where
  "position x xs = length (takeWhile (\<lambda>y. y \<noteq> x) xs)"

definition device_bit :: "str list \<Rightarrow> str \<Rightarrow> int" where
  "device_bit devices n = (if n \<in> set devices then push_bit (position n devices) 1 else 0)"

text \<open>\<open>int.bit_count\<close> of a non-negative number.\<close>

function bit_count :: "int \<Rightarrow> nat" where
  "bit_count m = (if m \<le> 0 then 0 else (if odd m then 1 else 0) + bit_count (m div 2))"
  by pat_completeness auto
termination by (relation "measure nat") auto

declare bit_count.simps [simp del]

section \<open>One turn of the loop\<close>

definition visit :: "(str, str list) dict \<Rightarrow> str \<Rightarrow> tarjan \<Rightarrow> tarjan" where
  "visit reverse n st = st\<lparr>tj_index := dset n (tj_next_index st) (tj_index st), tj_low := dset n (tj_next_index st) (tj_low st),
     tj_next_index := tj_next_index st + 1, tj_stack := n # tj_stack st, tj_work := (n, sources_of reverse n) # tj_work st\<rparr>"

text \<open>\<open>for nxt in successors\<close>: up to the first unvisited one, with what the iterator still holds.\<close>

fun scan :: "(str, nat) dict \<Rightarrow> str list \<Rightarrow> str \<Rightarrow> (str, nat) dict \<Rightarrow> str list \<Rightarrow> (str, nat) dict \<times> (str \<times> str list) option" where
  "scan index stack n low [] = (low, None)"
| "scan index stack n low (x # xs) =
     (case dget index x of
        None \<Rightarrow> (low, Some (x, xs))
      | Some i \<Rightarrow> scan index stack n (if x \<in> set stack then dset n (min (num_at low n) i) low else low) xs)"

definition add_source :: "str list \<Rightarrow> (str, nat) dict \<Rightarrow> (nat, int) dict \<Rightarrow> nat \<Rightarrow> str \<Rightarrow> int option \<Rightarrow> int option" where
  "add_source devices comps closures c src acc = (case acc of
       None \<Rightarrow> None
     | Some bits \<Rightarrow> (case dget comps src of
           None \<Rightarrow> None
         | Some other \<Rightarrow> Some (if other \<noteq> c then bits OR (device_bit devices src OR
               (case dget closures other of Some m \<Rightarrow> m | None \<Rightarrow> 0)) else bits)))"

definition component_mask :: "(str, str list) dict \<Rightarrow> str list \<Rightarrow> (str, nat) dict \<Rightarrow> (nat, int) dict \<Rightarrow> nat \<Rightarrow> str list \<Rightarrow> int option" where
  "component_mask reverse devices comps closures c members =
     fold (add_source devices comps closures c) (concat (map (sources_of reverse) members))
       (Some (if 1 < length members then fold (\<lambda>m bits. bits OR device_bit devices m) members 0 else 0))"

definition close_component :: "(str, str list) dict \<Rightarrow> str list \<Rightarrow> str \<Rightarrow> tarjan \<Rightarrow> tarjan option" where
  "close_component reverse devices n st =
     (if n \<notin> set (tj_stack st) then None
      else let members = takeWhile (\<lambda>m. m \<noteq> n) (tj_stack st) @ [n]; c = tj_next_comp st;
               comps = fold (\<lambda>m. dset m c) members (tj_comp st)
           in case component_mask reverse devices comps (tj_closures st) c members of
                None \<Rightarrow> None
              | Some bits \<Rightarrow> Some (st\<lparr>tj_stack := tl (dropWhile (\<lambda>m. m \<noteq> n) (tj_stack st)), tj_comp := comps,
                  tj_closures := (if list_ex (\<lambda>m. m \<in> all_sources reverse) members \<and> bits \<noteq> 0 then dset c bits (tj_closures st) else tj_closures st),
                  tj_counts := fold (\<lambda>m. dset m (bit_count (bits AND NOT (device_bit devices m))))
                     (filter (\<lambda>m. m \<in> set (dkeys reverse)) members) (tj_counts st),
                  tj_next_comp := c + 1\<rparr>))"

definition lower_parent :: "nat \<Rightarrow> (str \<times> str list) list \<Rightarrow> (str, nat) dict \<Rightarrow> (str, nat) dict" where
  "lower_parent i rest low = (case rest of
       (parent, _) # _ \<Rightarrow> dset parent (min (num_at low parent) i) low
     | [] \<Rightarrow> low)"

definition tarjan_turn :: "(str, str list) dict \<Rightarrow> str list \<Rightarrow> str \<Rightarrow> str list \<Rightarrow> (str \<times> str list) list \<Rightarrow> tarjan \<Rightarrow> tarjan option" where
  "tarjan_turn reverse devices n succs rest st =
     (case scan (tj_index st) (tj_stack st) n (tj_low st) succs of
        (low, Some (x, left)) \<Rightarrow> Some (visit reverse x (st\<lparr>tj_low := low, tj_work := (n, left) # rest\<rparr>))
      | (low, None) \<Rightarrow>
          (let st' = st\<lparr>tj_low := lower_parent (num_at low n) rest low, tj_work := rest\<rparr>
           in if num_at (tj_low st') n \<noteq> num_at (tj_index st') n then Some st' else close_component reverse devices n st'))"

section \<open>The loops\<close>

definition unvisited :: "(str, str list) dict \<Rightarrow> tarjan \<Rightarrow> str set" where
  "unvisited reverse st = (all_sources reverse \<union> \<Union> (set ` snd ` set (tj_work st))) - set (dkeys (tj_index st))"

lemma scan_found:
  "scan index stack n low xs = (low', Some (x, left)) \<Longrightarrow>
     dget index x = None \<and> (\<exists>pre. xs = pre @ x # left \<and> (\<forall>y\<in>set pre. dget index y \<noteq> None))"
proof (induction index stack n low xs rule: scan.induct)
  case (2 index stack n low y ys)
  show ?case
  proof (cases "dget index y")
    case None
    with 2(2) show ?thesis by auto
  next
    case (Some i)
    with 2 obtain pre where "dget index x = None" "ys = pre @ x # left" "\<forall>z\<in>set pre. dget index z \<noteq> None"
      by auto
    with Some show ?thesis by (intro conjI exI [of _ "y # pre"]) auto
  qed
qed simp

lemma close_component_keeps:
  "close_component reverse devices n st = Some st' \<Longrightarrow> tj_work st' = tj_work st \<and> tj_index st' = tj_index st"
  by (auto simp: close_component_def Let_def split: if_splits option.splits)

lemma turn_found:
  assumes "scan (tj_index st) (tj_stack st) n (tj_low st) succs = (low, Some (x, left))"
  shows "tarjan_turn reverse devices n succs rest st = Some (visit reverse x (st\<lparr>tj_low := low, tj_work := (n, left) # rest\<rparr>))"
  using assms by (simp add: tarjan_turn_def)

lemma turn_decreases:
  assumes "tj_work st = (n, succs) # rest" "tarjan_turn reverse devices n succs rest st = Some st'"
  shows "unvisited reverse st' \<subset> unvisited reverse st
    \<or> unvisited reverse st' \<subseteq> unvisited reverse st \<and> length (tj_work st') < length (tj_work st)"
proof (cases "scan (tj_index st) (tj_stack st) n (tj_low st) succs")
  case (Pair low found)
  show ?thesis
  proof (cases found)
    case None
    with Pair assms(2) close_component_keeps have "tj_work st' = rest" "tj_index st' = tj_index st"
      by (fastforce simp: tarjan_turn_def Let_def split: if_splits)+
    with assms(1) show ?thesis by (auto simp: unvisited_def)
  next
    case (Some p)
    then obtain x left where p: "found = Some (x, left)" by (cases p) auto
    with Pair scan_found have f: "dget (tj_index st) x = None" "x \<in> set succs" "set left \<subseteq> set succs" by fastforce+
    have st': "st' = visit reverse x (st\<lparr>tj_low := low, tj_work := (n, left) # rest\<rparr>)"
      using Pair p assms(2) turn_found by simp
    have "x \<in> unvisited reverse st" using f assms(1) by (auto simp: unvisited_def dget_None_iff)
    moreover have "unvisited reverse st' \<subseteq> unvisited reverse st - {x}"
      using f(3) assms(1) sources_of_subset [of reverse x] by (auto simp: st' unvisited_def visit_def)
    ultimately show ?thesis by blast
  qed
qed

lemma finite_unvisited [simp]: "finite (unvisited reverse st)"
  by (auto simp: unvisited_def)

function tarjan_loop :: "(str, str list) dict \<Rightarrow> str list \<Rightarrow> tarjan \<Rightarrow> tarjan option" where
  "tarjan_loop reverse devices st = (case tj_work st of
       [] \<Rightarrow> Some st
     | (n, succs) # rest \<Rightarrow> (case tarjan_turn reverse devices n succs rest st of
           None \<Rightarrow> None
         | Some st' \<Rightarrow> tarjan_loop reverse devices st'))"
  by pat_completeness auto
termination
proof (relation "inv_image (finite_psubset <*lex*> less_than) (\<lambda>(reverse, devices, st). (unvisited reverse st, length (tj_work st)))")
  fix reverse devices st w n succs rest st'
  assume "tj_work st = w # rest" "(n, succs) = w" "tarjan_turn reverse devices n succs rest st = Some st'"
  then have "unvisited reverse st' \<subset> unvisited reverse st
      \<or> unvisited reverse st' \<subseteq> unvisited reverse st \<and> length (tj_work st') < length (tj_work st)"
    by (intro turn_decreases) auto
  then show "((reverse, devices, st'), reverse, devices, st) \<in> inv_image (finite_psubset <*lex*> less_than)
      (\<lambda>(reverse, devices, st). (unvisited reverse st, length (tj_work st)))"
    by (auto simp: finite_psubset_def)
qed auto

declare tarjan_loop.simps [simp del]

text \<open>\<open>for root in sorted(nodes)\<close>, and the function.\<close>

definition tarjan_root :: "(str, str list) dict \<Rightarrow> str list \<Rightarrow> str \<Rightarrow> tarjan option \<Rightarrow> tarjan option" where
  "tarjan_root reverse devices r acc = (case acc of
       None \<Rightarrow> None
     | Some st \<Rightarrow> if dget (tj_index st) r \<noteq> None then Some st else tarjan_loop reverse devices (visit reverse r st))"

definition no_tarjan :: tarjan where
  "no_tarjan = \<lparr>tj_index = [], tj_low = [], tj_stack = [], tj_comp = [], tj_closures = [], tj_counts = [],
     tj_next_index = 0, tj_next_comp = 0, tj_work = []\<rparr>"

definition dependent_counts :: "edge list \<Rightarrow> (str, nat) dict option" where
  "dependent_counts edges =
     (let reverse = reverse_adjacency edges; nodes = sort (remdups (dkeys reverse @ concat (map snd reverse)));
          devices = filter is_device_id nodes
      in if reverse = [] then Some []
         else map_option tj_counts (fold (tarjan_root reverse devices) nodes (Some no_tarjan)))"

end
