(* ===== verification/Topo_Tarjan.thy ===== *)
theory Topo_Tarjan
  imports Topo_Counts
begin

text \<open>
  The one-pass counts are the counts of the traversal. The invariant cuts the stack into one segment
  per node of the work list; a segment is mutually reachable, the low number of its node bounds every
  edge that leaves it, and what has been popped is closed under the edges and carries the mask of the
  devices behind it.
\<close>

section \<open>Masks of devices\<close>

definition bits_for :: "str list \<Rightarrow> int \<Rightarrow> str set \<Rightarrow> bool" where
  "bits_for devices m D \<longleftrightarrow> 0 \<le> m \<and> D \<subseteq> set devices \<and> (\<forall>i. bit m i \<longleftrightarrow> (\<exists>n\<in>D. i = position n devices))"

lemma position_nth: "x \<in> set xs \<Longrightarrow> xs ! position x xs = x"
  by (induction xs) (auto simp: position_def)

lemma position_eq: "x \<in> set xs \<Longrightarrow> y \<in> set xs \<Longrightarrow> position x xs = position y xs \<longleftrightarrow> x = y"
  by (metis position_nth)

lemma bits_for_0 [simp]: "bits_for devices 0 {}"
  by (simp add: bits_for_def)

lemma bits_for_or: "bits_for devices a A \<Longrightarrow> bits_for devices b B \<Longrightarrow> bits_for devices (a OR b) (A \<union> B)"
  by (auto simp: bits_for_def bit_or_iff)

lemma bits_for_device: "bits_for devices (device_bit devices n) ({n} \<inter> set devices)"
  by (auto simp: bits_for_def device_bit_def bit_exp_iff)

lemma bits_for_clear: "bits_for devices m D \<Longrightarrow> bits_for devices (m AND NOT (device_bit devices n)) (D - {n})"
  by (auto simp: bits_for_def device_bit_def bit_and_iff bit_not_iff bit_exp_iff position_eq subset_iff)

lemma bit_count_card: "0 \<le> m \<Longrightarrow> finite {i. bit m i} \<and> bit_count m = card {i. bit m i}"
proof (induction m rule: bit_count.induct)
  case (1 m)
  show ?case
  proof (cases "m \<le> 0")
    case True
    with 1 have "m = 0" by simp
    then show ?thesis by (simp add: bit_count.simps [of 0])
  next
    case False
    then have ih: "finite {i. bit (m div 2) i}" "bit_count (m div 2) = card {i. bit (m div 2) i}" using 1 by auto
    have split: "{i. bit m i} = (if odd m then {0} else {}) \<union> Suc ` {i. bit (m div 2) i}"
    proof (rule set_eqI)
      fix i show "i \<in> {i. bit m i} \<longleftrightarrow> i \<in> (if odd m then {0} else {}) \<union> Suc ` {i. bit (m div 2) i}"
        by (cases i) (auto simp: bit_0 bit_Suc)
    qed
    have "card (Suc ` {i. bit (m div 2) i}) = card {i. bit (m div 2) i}" by (simp add: card_image)
    moreover have "card ({0} \<union> Suc ` {i. bit (m div 2) i}) = 1 + card (Suc ` {i. bit (m div 2) i})"
      using ih(1) by (simp add: card_insert_if image_iff)
    ultimately show ?thesis
      using ih False by (simp add: split bit_count.simps [of m])
  qed
qed

lemma bits_for_count: "bits_for devices m D \<Longrightarrow> bit_count m = card D"
proof -
  assume b: "bits_for devices m D"
  then have "{i. bit m i} = (\<lambda>n. position n devices) ` D" by (auto simp: bits_for_def)
  moreover have "inj_on (\<lambda>n. position n devices) D"
    using b by (auto simp: bits_for_def inj_on_def position_eq subset_iff)
  ultimately show ?thesis using b by (simp add: bits_for_def bit_count_card card_image)
qed

lemma bits_for_eq_0: "bits_for devices 0 D \<Longrightarrow> D = {}"
  by (auto simp: bits_for_def)

section \<open>Reachability and components\<close>

definition fwd :: "(str, str list) dict \<Rightarrow> (str \<times> str) set" where
  "fwd reverse = {(v, w). w \<in> set (sources_of reverse v)}"

definition behind :: "(str, str list) dict \<Rightarrow> str \<Rightarrow> str set" where
  "behind reverse n = (fwd reverse)\<^sup>* `` {n}"

lemma behind_component:
  assumes "\<forall>a\<in>M. \<forall>b\<in>M. (a, b) \<in> (fwd reverse)\<^sup>*" "m \<in> M"
  shows "behind reverse m = M \<union> (\<Union>x\<in>fwd reverse `` M - M. behind reverse x)"
proof
  show "behind reverse m \<subseteq> M \<union> (\<Union>x\<in>fwd reverse `` M - M. behind reverse x)"
  proof
    fix y assume "y \<in> behind reverse m"
    then have "(m, y) \<in> (fwd reverse)\<^sup>*" by (simp add: behind_def)
    then show "y \<in> M \<union> (\<Union>x\<in>fwd reverse `` M - M. behind reverse x)"
    proof (induction rule: rtrancl_induct)
      case base
      show ?case using assms(2) by simp
    next
      case (step y z)
      show ?case
      proof (cases "y \<in> M")
        case True
        then show ?thesis using step(2) by (cases "z \<in> M") (auto simp: behind_def)
      next
        case False
        then obtain x where "x \<in> fwd reverse `` M - M" "y \<in> behind reverse x" using step(3) by blast
        moreover have "z \<in> behind reverse x" using calculation(2) step(2) by (auto simp: behind_def)
        ultimately show ?thesis by blast
      qed
    qed
  qed
  show "M \<union> (\<Union>x\<in>fwd reverse `` M - M. behind reverse x) \<subseteq> behind reverse m"
  proof
    fix y assume "y \<in> M \<union> (\<Union>x\<in>fwd reverse `` M - M. behind reverse x)"
    then consider "y \<in> M" | a x where "a \<in> M" "(a, x) \<in> fwd reverse" "(x, y) \<in> (fwd reverse)\<^sup>*"
      by (auto simp: behind_def)
    then show "y \<in> behind reverse m"
    proof cases
      case 2
      then have "(m, x) \<in> (fwd reverse)\<^sup>*" using assms by (meson rtrancl_into_rtrancl)
      with 2(3) show ?thesis by (simp add: behind_def)
    qed (use assms in \<open>simp add: behind_def\<close>)
  qed
qed

section \<open>The invariant\<close>

definition edge_done :: "(str, nat) dict \<Rightarrow> str list \<Rightarrow> nat \<Rightarrow> str \<Rightarrow> bool" where
  "edge_done index stack b t \<longleftrightarrow> dget index t \<noteq> None \<and> (t \<in> set stack \<longrightarrow> b \<le> num_at index t)"

definition low_ok :: "(str, str list) dict \<Rightarrow> (str, nat) dict \<Rightarrow> str list \<Rightarrow> (str, nat) dict \<Rightarrow> str \<Rightarrow> bool" where
  "low_ok reverse index stack low n \<longleftrightarrow> num_at low n \<le> num_at index n
     \<and> (\<exists>t\<in>set stack. num_at index t = num_at low n \<and> (n, t) \<in> (fwd reverse)\<^sup>*)"

definition seg_ok :: "(str, str list) dict \<Rightarrow> (str, nat) dict \<Rightarrow> str list \<Rightarrow> (str, nat) dict \<Rightarrow> str \<times> str list \<Rightarrow> str list \<Rightarrow> bool" where
  "seg_ok reverse index stack low = (\<lambda>(n, left) seg. seg \<noteq> [] \<and> last seg = n \<and> low_ok reverse index stack low n
     \<and> (\<exists>pre. sources_of reverse n = pre @ left \<and> (\<forall>t\<in>set pre. edge_done index stack (num_at low n) t))
     \<and> (\<forall>s\<in>set (butlast seg). \<forall>t\<in>set (sources_of reverse s). edge_done index stack (num_at low n) t)
     \<and> (\<forall>s\<in>set seg. (s, n) \<in> (fwd reverse)\<^sup>* \<and> (n, s) \<in> (fwd reverse)\<^sup>*))"

definition stack_ok :: "(str, str list) dict \<Rightarrow> tarjan \<Rightarrow> str list list \<Rightarrow> bool" where
  "stack_ok reverse st segs \<longleftrightarrow>
     list_all2 (seg_ok reverse (tj_index st) (tj_stack st) (tj_low st)) (tj_work st) segs
     \<and> concat segs = tj_stack st \<and> sorted_wrt (\<lambda>a b. num_at (tj_index st) b < num_at (tj_index st) a) (tj_stack st)
     \<and> sorted_wrt (\<lambda>c p. (fst p, fst c) \<in> (fwd reverse)\<^sup>*) (tj_work st)"

definition visited_ok :: "(str, str list) dict \<Rightarrow> tarjan \<Rightarrow> bool" where
  "visited_ok reverse st \<longleftrightarrow>
     set (dkeys (tj_index st)) = set (tj_stack st) \<union> set (dkeys (tj_comp st))
     \<and> set (tj_stack st) \<inter> set (dkeys (tj_comp st)) = {}
     \<and> (\<forall>v\<in>set (dkeys (tj_comp st)). set (sources_of reverse v) \<subseteq> set (dkeys (tj_comp st)))
     \<and> (\<forall>n i. dget (tj_index st) n = Some i \<longrightarrow> i < tj_next_index st)"

definition closure_of :: "(nat, int) dict \<Rightarrow> nat \<Rightarrow> int" where
  "closure_of closures c = (case dget closures c of Some m \<Rightarrow> m | None \<Rightarrow> 0)"

definition masks_ok :: "(str, str list) dict \<Rightarrow> str list \<Rightarrow> tarjan \<Rightarrow> bool" where
  "masks_ok reverse devices st \<longleftrightarrow>
     (\<forall>m c. dget (tj_comp st) m = Some c \<longrightarrow> c < tj_next_comp st)
     \<and> (\<forall>c b. dget (tj_closures st) c = Some b \<longrightarrow> c < tj_next_comp st)
     \<and> (\<forall>m c. dget (tj_comp st) m = Some c \<and> m \<in> all_sources reverse \<longrightarrow>
          (\<exists>D. bits_for devices (closure_of (tj_closures st) c) D \<and> D \<union> ({m} \<inter> set devices) = behind reverse m \<inter> set devices))
     \<and> (\<forall>m. dget (tj_counts st) m = (if m \<in> set (dkeys (tj_comp st)) \<and> m \<in> set (dkeys reverse)
          then Some (card (behind reverse m \<inter> set devices - {m})) else None))"

section \<open>Scanning\<close>

lemma edge_done_mono: "edge_done index stack b t \<Longrightarrow> b' \<le> b \<Longrightarrow> edge_done index stack b' t"
  by (auto simp: edge_done_def)

lemma num_at_dset [simp]: "num_at (dset k v d) x = (if x = k then v else num_at d x)"
  by (auto simp: num_at_def)

lemma scan_ok:
  assumes "scan index stack n low xs = (low', found)" "low_ok reverse index stack low n" "sources_of reverse n = pre @ xs"
    "\<forall>t\<in>set pre. edge_done index stack (num_at low n) t"
  shows "low_ok reverse index stack low' n \<and> (\<forall>k. k \<noteq> n \<longrightarrow> num_at low' k = num_at low k) \<and> num_at low' n \<le> num_at low n
    \<and> (\<exists>pre' left'. sources_of reverse n = pre' @ left' \<and> (\<forall>t\<in>set pre'. edge_done index stack (num_at low' n) t)
        \<and> (case found of None \<Rightarrow> left' = [] | Some (x, left) \<Rightarrow> left' = x # left \<and> dget index x = None))"
  using assms
proof (induction index stack n low xs arbitrary: pre rule: scan.induct)
  case (1 index stack n low)
  then show ?case by auto
next
  case (2 index stack n low x xs)
  show ?case
  proof (cases "dget index x")
    case None
    with 2(2-) show ?thesis by auto
  next
    case (Some i)
    let ?low = "if x \<in> set stack then dset n (min (num_at low n) i) low else low"
    have i: "num_at index x = i" using Some by (simp add: num_at_def)
    have step: "(n, x) \<in> fwd reverse" using 2(4) by (simp add: fwd_def)
    have le: "num_at ?low n \<le> num_at low n" by simp
    have "low_ok reverse index stack ?low n"
      using 2(3) i step unfolding low_ok_def by (auto simp: min_def split: if_splits intro: r_into_rtrancl)
    moreover have "\<forall>t\<in>set (pre @ [x]). edge_done index stack (num_at ?low n) t"
      using 2(5) le Some i by (auto simp: edge_done_def)
    moreover have "sources_of reverse n = (pre @ [x]) @ xs" using 2(4) by simp
    moreover have "scan index stack n ?low xs = (low', found)" using 2(2) Some by simp
    ultimately have "low_ok reverse index stack low' n \<and> (\<forall>k. k \<noteq> n \<longrightarrow> num_at low' k = num_at ?low k) \<and> num_at low' n \<le> num_at ?low n
      \<and> (\<exists>pre' left'. sources_of reverse n = pre' @ left' \<and> (\<forall>t\<in>set pre'. edge_done index stack (num_at low' n) t)
        \<and> (case found of None \<Rightarrow> left' = [] | Some (x, left) \<Rightarrow> left' = x # left \<and> dget index x = None))"
      using 2(1) Some by blast
    then show ?thesis using le by (auto split: if_splits)
  qed
qed

section \<open>Visiting a node\<close>

lemma seg_last: "seg_ok reverse index stack low w seg \<Longrightarrow> fst w \<in> set seg"
  unfolding seg_ok_def case_prod_unfold by (metis last_in_set)

lemma stack_ok_nodes:
  assumes "stack_ok reverse st segs"
  shows "fst ` set (tj_work st) \<subseteq> set (tj_stack st)"
proof
  fix n assume "n \<in> fst ` set (tj_work st)"
  then obtain i where i: "i < length (tj_work st)" "fst (tj_work st ! i) = n" by (auto simp: in_set_conv_nth)
  moreover have "list_all2 (seg_ok reverse (tj_index st) (tj_stack st) (tj_low st)) (tj_work st) segs" "concat segs = tj_stack st"
    using assms by (simp_all add: stack_ok_def)
  ultimately have "i < length segs" "seg_ok reverse (tj_index st) (tj_stack st) (tj_low st) (tj_work st ! i) (segs ! i)"
    by (auto simp: list_all2_conv_all_nth)
  then have "n \<in> set (segs ! i)" "segs ! i \<in> set segs" using i(2) seg_last [of reverse "tj_index st" "tj_stack st" "tj_low st" "tj_work st ! i"] by simp_all
  then have "n \<in> set (concat segs)" by auto
  then show "n \<in> set (tj_stack st)" using \<open>concat segs = tj_stack st\<close> by simp
qed

lemma seg_visit:
  assumes "seg_ok reverse index stack low w seg" "dget index x = None" "\<forall>t\<in>set stack. dget index t \<noteq> None" "fst w \<in> set stack"
  shows "seg_ok reverse (dset x i index) (x # stack) (dset x i low) w seg"
proof -
  have x: "x \<notin> set stack" "x \<noteq> fst w" using assms(2-4) by auto
  have e: "edge_done index stack b t \<Longrightarrow> edge_done (dset x i index) (x # stack) b t" for b t
    using assms(2) by (auto simp: edge_done_def)
  have low: "low_ok reverse (dset x i index) (x # stack) (dset x i low) (fst w)"
  proof -
    have "low_ok reverse index stack low (fst w)" using assms(1) by (simp add: seg_ok_def case_prod_unfold)
    then obtain t where "t \<in> set stack" "num_at index t = num_at low (fst w)" "(fst w, t) \<in> (fwd reverse)\<^sup>*" "num_at low (fst w) \<le> num_at index (fst w)"
      by (auto simp: low_ok_def)
    with x show ?thesis unfolding low_ok_def by (intro conjI bexI [of _ t]) auto
  qed
  have num: "num_at (dset x i low) (fst w) = num_at low (fst w)" using x by simp
  show ?thesis
    using assms(1) unfolding seg_ok_def case_prod_unfold num
    by (elim conjE exE) (intro conjI; blast intro: low e)
qed

lemma visit_stack:
  assumes st: "stack_ok reverse st segs" "visited_ok reverse st" and x: "dget (tj_index st) x = None"
    and top: "\<forall>w\<in>set (tj_work st). (fst w, x) \<in> (fwd reverse)\<^sup>*"
  shows "stack_ok reverse (visit reverse x st) ([x] # segs)"
proof -
  let ?i = "tj_next_index st"
  have known: "\<forall>t\<in>set (tj_stack st). dget (tj_index st) t \<noteq> None"
    using st(2) by (auto simp: visited_ok_def dget_None_iff)
  then have "x \<notin> set (tj_stack st)" using x by auto
  have "list_all2 (seg_ok reverse (tj_index st) (tj_stack st) (tj_low st)) (tj_work st) segs"
    using st(1) by (simp add: stack_ok_def)
  then have "list_all2 (seg_ok reverse (dset x ?i (tj_index st)) (x # tj_stack st) (dset x ?i (tj_low st))) (tj_work st) segs"
    by (rule list.rel_mono_strong) (use stack_ok_nodes [OF st(1)] known x in \<open>auto intro!: seg_visit\<close>)
  moreover have "seg_ok reverse (dset x ?i (tj_index st)) (x # tj_stack st) (dset x ?i (tj_low st)) (x, sources_of reverse x) [x]"
    by (simp add: seg_ok_def low_ok_def)
  moreover have "num_at (tj_index st) t < ?i" if "t \<in> set (tj_stack st)" for t
    using known that st(2) by (fastforce simp: visited_ok_def num_at_def)
  moreover have "sorted_wrt (\<lambda>a b. num_at (dset x ?i (tj_index st)) b < num_at (dset x ?i (tj_index st)) a) (tj_stack st)"
  proof (rule sorted_wrt_mono_rel [where P = "\<lambda>a b. num_at (tj_index st) b < num_at (tj_index st) a"])
    show "sorted_wrt (\<lambda>a b. num_at (tj_index st) b < num_at (tj_index st) a) (tj_stack st)"
      using st(1) by (simp add: stack_ok_def)
  qed (use \<open>x \<notin> set (tj_stack st)\<close> in auto)
  ultimately show ?thesis
    using st(1) top \<open>x \<notin> set (tj_stack st)\<close> by (auto simp: stack_ok_def visit_def)
qed

lemma visit_visited:
  assumes "visited_ok reverse st" "dget (tj_index st) x = None"
  shows "visited_ok reverse (visit reverse x st)"
  using assms by (auto simp: visited_ok_def visit_def dget_None_iff less_Suc_eq split: if_splits)

lemma visit_masks: "masks_ok reverse devices st \<Longrightarrow> masks_ok reverse devices (visit reverse x st)"
  by (simp add: masks_ok_def visit_def)

section \<open>A node whose successors are not exhausted\<close>

lemma low_change:
  assumes "seg_ok reverse index stack low w seg" "num_at low' (fst w) = num_at low (fst w)"
  shows "seg_ok reverse index stack low' w seg"
  using assms by (simp add: seg_ok_def case_prod_unfold low_ok_def)

lemma stack_distinct: "stack_ok reverse st segs \<Longrightarrow> distinct (tj_stack st)"
  unfolding stack_ok_def distinct_conv_nth sorted_wrt_iff_nth_less by (metis less_irrefl linorder_neqE_nat)

lemma work_distinct:
  assumes "stack_ok reverse st segs" "tj_work st = (n, succs) # rest" "w \<in> set rest"
  shows "fst w \<noteq> n"
proof -
  obtain seg segs' where segs: "segs = seg # segs'" "seg_ok reverse (tj_index st) (tj_stack st) (tj_low st) (n, succs) seg"
      "list_all2 (seg_ok reverse (tj_index st) (tj_stack st) (tj_low st)) rest segs'"
    using assms(1,2) by (auto simp: stack_ok_def list_all2_Cons1)
  obtain i where i: "i < length rest" "rest ! i = w" using assms(3) by (auto simp: in_set_conv_nth)
  with segs(3) have "i < length segs'" "seg_ok reverse (tj_index st) (tj_stack st) (tj_low st) w (segs' ! i)"
    by (auto simp: list_all2_conv_all_nth)
  then have "fst w \<in> set (segs' ! i)" "segs' ! i \<in> set segs'" using seg_last [of reverse "tj_index st" "tj_stack st" "tj_low st" w] by simp_all
  moreover have "n \<in> set seg" using seg_last [OF segs(2)] by simp
  moreover have "set seg \<inter> set (concat segs') = {}"
  proof -
    have "seg @ concat segs' = tj_stack st" using assms(1) segs(1) by (simp add: stack_ok_def)
    with stack_distinct [OF assms(1)] show ?thesis by (metis distinct_append)
  qed
  ultimately show ?thesis by auto
qed

lemma list_all2_low:
  assumes "list_all2 (seg_ok reverse index stack low) rest segs" "\<forall>w\<in>set rest. num_at low' (fst w) = num_at low (fst w)"
  shows "list_all2 (seg_ok reverse index stack low') rest segs"
  by (rule list.rel_mono_strong [OF assms(1)]) (use assms(2) in \<open>auto intro: low_change\<close>)

lemma descend_ok:
  assumes st: "stack_ok reverse st segs" "visited_ok reverse st" and work: "tj_work st = (n, succs) # rest"
    and scan: "scan (tj_index st) (tj_stack st) n (tj_low st) succs = (low, Some (x, left))"
  shows "stack_ok reverse (visit reverse x (st\<lparr>tj_low := low, tj_work := (n, left) # rest\<rparr>)) ([x] # segs)"
    and "dget (tj_index st) x = None"
proof -
  obtain seg segs' where segs: "segs = seg # segs'" and seg: "seg_ok reverse (tj_index st) (tj_stack st) (tj_low st) (n, succs) seg"
      and rest: "list_all2 (seg_ok reverse (tj_index st) (tj_stack st) (tj_low st)) rest segs'"
    using st(1) work by (auto simp: stack_ok_def list_all2_Cons1)
  obtain pre where pre: "sources_of reverse n = pre @ succs" "\<forall>t\<in>set pre. edge_done (tj_index st) (tj_stack st) (num_at (tj_low st) n) t"
    using seg by (auto simp: seg_ok_def)
  have low: "low_ok reverse (tj_index st) (tj_stack st) (tj_low st) n" using seg by (simp add: seg_ok_def)
  from scan_ok [OF scan low pre] obtain pre' where
    s: "low_ok reverse (tj_index st) (tj_stack st) low n" "\<forall>k. k \<noteq> n \<longrightarrow> num_at low k = num_at (tj_low st) k"
      "num_at low n \<le> num_at (tj_low st) n" "sources_of reverse n = pre' @ x # left"
      "\<forall>t\<in>set pre'. edge_done (tj_index st) (tj_stack st) (num_at low n) t" and x: "dget (tj_index st) x = None"
    by auto
  show "dget (tj_index st) x = None" by (rule x)
  have nx: "(n, x) \<in> fwd reverse" using s(4) by (simp add: fwd_def)
  let ?st = "st\<lparr>tj_low := low, tj_work := (n, x # left) # rest\<rparr>"
  have "seg_ok reverse (tj_index st) (tj_stack st) low (n, x # left) seg"
    using seg s edge_done_mono [OF _ s(3)] by (auto simp: seg_ok_def)
  moreover have "list_all2 (seg_ok reverse (tj_index st) (tj_stack st) low) rest segs'"
    by (rule list_all2_low [OF rest]) (use work_distinct [OF st(1) work] s(2) in auto)
  ultimately have ok: "stack_ok reverse ?st segs"
    using st(1) work by (simp add: stack_ok_def segs)
  have "visited_ok reverse ?st" using st(2) by (simp add: visited_ok_def)
  moreover have "\<forall>w\<in>set (tj_work ?st). (fst w, x) \<in> (fwd reverse)\<^sup>*"
    using st(1) work nx by (auto simp: stack_ok_def intro: rtrancl_into_rtrancl)
  ultimately have v: "stack_ok reverse (visit reverse x ?st) ([x] # segs)" using ok x by (intro visit_stack) auto
  have "edge_done (dset x (tj_next_index st) (tj_index st)) (x # tj_stack st) (num_at low n) x"
  proof -
    have "num_at low n \<le> num_at (tj_index st) n" using s(1) by (simp add: low_ok_def)
    also have "num_at (tj_index st) n < tj_next_index st"
      using stack_ok_nodes [OF st(1)] st(2) work by (fastforce simp: visited_ok_def num_at_def dget_None_iff split: option.split)
    finally show ?thesis by (simp add: edge_done_def)
  qed
  moreover have "n \<noteq> x" using stack_ok_nodes [OF st(1)] work x st(2) by (auto simp: visited_ok_def dget_None_iff)
  ultimately have "seg_ok reverse (dset x (tj_next_index st) (tj_index st)) (x # tj_stack st) (dset x (tj_next_index st) low) (n, left) seg"
    using v s(4) by (auto simp: stack_ok_def visit_def segs seg_ok_def intro!: exI [of _ "pre' @ [x]"])
  with v show "stack_ok reverse (visit reverse x (st\<lparr>tj_low := low, tj_work := (n, left) # rest\<rparr>)) ([x] # segs)"
    by (simp add: stack_ok_def visit_def segs)
qed

section \<open>A node whose successors are exhausted\<close>

lemma seg_order:
  assumes "sorted_wrt (\<lambda>a b. num_at index b < num_at index a) (seg @ tail)" "seg \<noteq> []" "last seg = n"
  shows "\<forall>s\<in>set seg. num_at index n \<le> num_at index s" "\<forall>t\<in>set tail. num_at index t < num_at index n"
proof -
  have "seg = butlast seg @ [n]" using assms(2,3) by (metis append_butlast_last_id)
  then obtain l where "seg = l @ [n]" by blast
  with assms(1) show "\<forall>s\<in>set seg. num_at index n \<le> num_at index s" "\<forall>t\<in>set tail. num_at index t < num_at index n"
    by (auto simp: sorted_wrt_append less_imp_le)
qed

text \<open>What the scan leaves when it reaches the end: the top segment with every edge accounted for.\<close>

definition top_done :: "(str, str list) dict \<Rightarrow> tarjan \<Rightarrow> (str, nat) dict \<Rightarrow> str \<Rightarrow> (str \<times> str list) list \<Rightarrow> str list \<Rightarrow> str list list \<Rightarrow> bool" where
  "top_done reverse st low n rest seg segs \<longleftrightarrow> seg \<noteq> [] \<and> last seg = n \<and> low_ok reverse (tj_index st) (tj_stack st) low n
     \<and> (\<forall>s\<in>set seg. \<forall>t\<in>set (sources_of reverse s). edge_done (tj_index st) (tj_stack st) (num_at low n) t)
     \<and> (\<forall>s\<in>set seg. (s, n) \<in> (fwd reverse)\<^sup>* \<and> (n, s) \<in> (fwd reverse)\<^sup>*)
     \<and> list_all2 (seg_ok reverse (tj_index st) (tj_stack st) low) rest segs
     \<and> seg @ concat segs = tj_stack st \<and> sorted_wrt (\<lambda>a b. num_at (tj_index st) b < num_at (tj_index st) a) (tj_stack st)
     \<and> sorted_wrt (\<lambda>c p. (fst p, fst c) \<in> (fwd reverse)\<^sup>*) rest \<and> (\<forall>w\<in>set rest. fst w \<noteq> n \<and> (fst w, n) \<in> (fwd reverse)\<^sup>*)"

lemma scan_end:
  assumes st: "stack_ok reverse st segs" and work: "tj_work st = (n, succs) # rest"
    and scan: "scan (tj_index st) (tj_stack st) n (tj_low st) succs = (low, None)"
  shows "\<exists>seg segs'. segs = seg # segs' \<and> top_done reverse st low n rest seg segs'"
proof -
  obtain seg segs' where segs: "segs = seg # segs'" and seg: "seg_ok reverse (tj_index st) (tj_stack st) (tj_low st) (n, succs) seg"
      and rest: "list_all2 (seg_ok reverse (tj_index st) (tj_stack st) (tj_low st)) rest segs'"
    using st work by (auto simp: stack_ok_def list_all2_Cons1)
  obtain pre where pre: "sources_of reverse n = pre @ succs" "\<forall>t\<in>set pre. edge_done (tj_index st) (tj_stack st) (num_at (tj_low st) n) t"
    using seg by (auto simp: seg_ok_def)
  have low0: "low_ok reverse (tj_index st) (tj_stack st) (tj_low st) n" using seg by (simp add: seg_ok_def)
  from scan_ok [OF scan low0 pre]
  have s: "low_ok reverse (tj_index st) (tj_stack st) low n" "\<forall>k. k \<noteq> n \<longrightarrow> num_at low k = num_at (tj_low st) k"
      "num_at low n \<le> num_at (tj_low st) n" "\<forall>t\<in>set (sources_of reverse n). edge_done (tj_index st) (tj_stack st) (num_at low n) t"
    by auto
  have split: "seg = butlast seg @ [n]" using seg by (auto simp: seg_ok_def)
  have "edge_done (tj_index st) (tj_stack st) (num_at low n) t" if "a \<in> set seg" "t \<in> set (sources_of reverse a)" for a t
  proof (cases "a = n")
    case False
    then have "a \<in> set (butlast seg)" using that(1) by (subst (asm) split) auto
    then have "edge_done (tj_index st) (tj_stack st) (num_at (tj_low st) n) t" using seg that(2) by (auto simp: seg_ok_def)
    then show ?thesis using s(3) by (rule edge_done_mono)
  qed (use s(4) that(2) in simp)
  moreover have "list_all2 (seg_ok reverse (tj_index st) (tj_stack st) low) rest segs'"
    by (rule list_all2_low [OF rest]) (use work_distinct [OF st work] s(2) in auto)
  ultimately have "top_done reverse st low n rest seg segs'"
    using seg s(1) st segs work work_distinct [OF st work] by (auto simp: top_done_def seg_ok_def stack_ok_def)
  with segs show ?thesis by blast
qed

lemma merge_ok:
  assumes td: "top_done reverse st low n rest seg segs" and neq: "num_at low n \<noteq> num_at (tj_index st) n"
  shows "\<exists>segs'. stack_ok reverse (st\<lparr>tj_low := lower_parent (num_at low n) rest low, tj_work := rest\<rparr>) segs'"
proof -
  let ?I = "tj_index st" and ?S = "tj_stack st"
  obtain t where t: "t \<in> set ?S" "num_at ?I t = num_at low n" "(n, t) \<in> (fwd reverse)\<^sup>*" and lt: "num_at low n < num_at ?I n"
    using td neq by (auto simp: top_done_def low_ok_def)
  have ord: "\<forall>s\<in>set seg. num_at ?I n \<le> num_at ?I s"
    by (rule seg_order(1) [of ?I seg "concat segs"]) (use td in \<open>auto simp: top_done_def\<close>)
  have "t \<notin> set seg" using ord t(2) lt by auto
  then have "t \<in> set (concat segs)" using td t(1) by (auto simp: top_done_def) (metis UnE set_append set_concat UN_E)
  then obtain sg where "sg \<in> set segs" "t \<in> set sg" by auto
  then obtain j where j: "j < length segs" "t \<in> set (segs ! j)" by (metis in_set_conv_nth)
  have len: "length rest = length segs" using td by (auto simp: top_done_def dest: list_all2_lengthD)
  obtain p left rest' segp segs' where r: "rest = (p, left) # rest'" "segs = segp # segs'"
    using j len by (cases rest; cases segs) auto
  have segp: "seg_ok reverse ?I ?S low (p, left) segp" and others: "list_all2 (seg_ok reverse ?I ?S low) rest' segs'"
    using td by (auto simp: top_done_def r)
  have np: "(n, p) \<in> (fwd reverse)\<^sup>*" and pn: "(p, n) \<in> (fwd reverse)\<^sup>*"
  proof -
    have "seg_ok reverse ?I ?S low (rest ! j) (segs ! j)"
      using td j(1) by (auto simp: top_done_def list_all2_conv_all_nth)
    then have "(t, fst (rest ! j)) \<in> (fwd reverse)\<^sup>*" using j(2) by (auto simp: seg_ok_def case_prod_unfold)
    moreover have "(fst (rest ! j), p) \<in> (fwd reverse)\<^sup>*"
      using td j len r by (cases j) (auto simp: top_done_def)
    ultimately show "(n, p) \<in> (fwd reverse)\<^sup>*" using t(3) by simp
    show "(p, n) \<in> (fwd reverse)\<^sup>*" using td by (simp add: top_done_def r)
  qed
  define low' where "low' = dset p (min (num_at low p) (num_at low n)) low"
  have lp: "num_at low' p = min (num_at low p) (num_at low n)" by (simp add: low'_def)
  have "low_ok reverse ?I ?S low p" using segp by (simp add: seg_ok_def)
  then have lowp: "low_ok reverse ?I ?S low' p"
    using t np pn unfolding low_ok_def lp by (auto simp: min_def intro: rtrancl_trans)
  have weak: "edge_done ?I ?S (num_at low p) x \<Longrightarrow> edge_done ?I ?S (num_at low' p) x"
    "edge_done ?I ?S (num_at low n) x \<Longrightarrow> edge_done ?I ?S (num_at low' p) x" for x
    by (auto simp: lp elim: edge_done_mono)
  have "seg_ok reverse ?I ?S low' (p, left) (seg @ segp)"
  proof -
    have ne: "segp \<noteq> []" "last segp = p" using segp by (simp_all add: seg_ok_def)
    have mutual: "\<forall>s\<in>set (seg @ segp). (s, p) \<in> (fwd reverse)\<^sup>* \<and> (p, s) \<in> (fwd reverse)\<^sup>*"
      using td segp np pn unfolding top_done_def seg_ok_def by (auto intro: rtrancl_trans)
    have edges: "\<forall>s\<in>set (butlast (seg @ segp)). \<forall>x\<in>set (sources_of reverse s). edge_done ?I ?S (num_at low' p) x"
      using td segp ne weak by (auto simp: butlast_append top_done_def seg_ok_def)
    obtain pre where "sources_of reverse p = pre @ left" "\<forall>x\<in>set pre. edge_done ?I ?S (num_at low p) x"
      using segp by (auto simp: seg_ok_def)
    then show ?thesis using ne mutual edges lowp weak unfolding seg_ok_def by auto
  qed
  moreover have "list_all2 (seg_ok reverse ?I ?S low') rest' segs'"
  proof (rule list_all2_low [OF others])
    have "distinct ?S"
      using td unfolding top_done_def distinct_conv_nth sorted_wrt_iff_nth_less by (metis less_irrefl linorder_neqE_nat)
    then have disj: "set segp \<inter> set (concat segs') = {}"
      using td unfolding top_done_def r by (metis concat.simps(2) distinct_append)
    show "\<forall>w\<in>set rest'. num_at low' (fst w) = num_at low (fst w)"
    proof
      fix w assume "w \<in> set rest'"
      then obtain i where i: "i < length rest'" "rest' ! i = w" by (auto simp: in_set_conv_nth)
      with others have "i < length segs'" "seg_ok reverse ?I ?S low w (segs' ! i)" by (auto simp: list_all2_conv_all_nth)
      then have "fst w \<in> set (concat segs')" using seg_last [of reverse ?I ?S low w "segs' ! i"] nth_mem by fastforce
      moreover have "p \<in> set segp" using seg_last [OF segp] by simp
      ultimately show "num_at low' (fst w) = num_at low (fst w)" using disj by (auto simp: low'_def)
    qed
  qed
  moreover have "lower_parent (num_at low n) rest low = low'" by (simp add: lower_parent_def r low'_def)
  ultimately have "stack_ok reverse (st\<lparr>tj_low := lower_parent (num_at low n) rest low, tj_work := rest\<rparr>) ((seg @ segp) # segs')"
    using td by (auto simp: stack_ok_def r top_done_def)
  then show ?thesis by blast
qed

section \<open>Closing a component\<close>

lemma dget_fold_dset: "dget (fold (\<lambda>m. dset m (f m)) ms d) k = (if k \<in> set ms then Some (f k) else dget d k)"
  by (induction ms arbitrary: d) auto

lemma set_dkeys_fold: "set (dkeys (fold (\<lambda>m. dset m (f m)) ms d)) = set ms \<union> set (dkeys d)"
  by (induction ms arbitrary: d) auto

lemma cycle_bits: "bits_for devices b B \<Longrightarrow> bits_for devices (fold (\<lambda>m bits. bits OR device_bit devices m) ms b) (B \<union> (set ms \<inter> set devices))"
proof (induction ms arbitrary: b B)
  case (Cons m ms)
  have "B \<union> ({m} \<inter> set devices) \<union> (set ms \<inter> set devices) = B \<union> (set (m # ms) \<inter> set devices)" by auto
  with Cons.IH [OF bits_for_or [OF Cons.prems bits_for_device [of devices m]]] show ?case by simp
qed simp

text \<open>The masks of the sources outside the component are all there and add up what is behind them.\<close>

lemma sources_bits:
  assumes "bits_for devices b B" "\<forall>x\<in>set srcs. \<exists>c'. dget comps x = Some c'"
    "\<forall>x\<in>set srcs. dget comps x \<noteq> Some c \<longrightarrow> (\<exists>D. bits_for devices (closure_of closures (the (dget comps x))) D \<and> D \<union> ({x} \<inter> set devices) = G x)"
  shows "\<exists>m. fold (add_source devices comps closures c) srcs (Some b) = Some m
    \<and> bits_for devices m (B \<union> (\<Union>x\<in>{x \<in> set srcs. dget comps x \<noteq> Some c}. G x))"
  using assms
proof (induction srcs arbitrary: b B)
  case (Cons x srcs)
  obtain c' where c': "dget comps x = Some c'" using Cons.prems(2) by auto
  show ?case
  proof (cases "c' = c")
    case True
    then have "add_source devices comps closures c x (Some b) = Some b" using c' by (simp add: add_source_def)
    moreover have "{y \<in> set (x # srcs). dget comps y \<noteq> Some c} = {y \<in> set srcs. dget comps y \<noteq> Some c}" using True c' by auto
    moreover have "\<exists>m. fold (add_source devices comps closures c) srcs (Some b) = Some m
        \<and> bits_for devices m (B \<union> (\<Union>x\<in>{x \<in> set srcs. dget comps x \<noteq> Some c}. G x))"
      using Cons.prems by (intro Cons.IH) auto
    ultimately show ?thesis by simp
  next
    case False
    then obtain D where D: "bits_for devices (closure_of closures c') D" "D \<union> ({x} \<inter> set devices) = G x"
      using Cons.prems(3) c' by auto
    let ?b = "b OR (device_bit devices x OR closure_of closures c')"
    have step: "add_source devices comps closures c x (Some b) = Some ?b"
      using c' False by (simp add: add_source_def closure_of_def)
    have "bits_for devices ?b (B \<union> (({x} \<inter> set devices) \<union> D))"
      by (intro bits_for_or bits_for_device Cons.prems(1) D(1))
    then have "bits_for devices ?b (B \<union> G x)" using D(2) by (simp add: Un_commute)
    then have "\<exists>m. fold (add_source devices comps closures c) srcs (Some ?b) = Some m
        \<and> bits_for devices m ((B \<union> G x) \<union> (\<Union>x\<in>{x \<in> set srcs. dget comps x \<noteq> Some c}. G x))"
      using Cons.prems by (intro Cons.IH) auto
    moreover have "(B \<union> G x) \<union> (\<Union>x\<in>{x \<in> set srcs. dget comps x \<noteq> Some c}. G x)
        = B \<union> (\<Union>y\<in>{y \<in> set (x # srcs). dget comps y \<noteq> Some c}. G y)"
      using c' False by auto
    ultimately show ?thesis by (simp add: step)
  qed
qed simp

text \<open>What is behind the members of a finished segment, as the mask the code builds.\<close>

lemma component_bits:
  assumes mutual: "\<forall>a\<in>set ms. \<forall>b\<in>set ms. (a, b) \<in> (fwd reverse)\<^sup>*" and ne: "distinct ms"
    and comps: "\<forall>x. dget comps x = Some c \<longleftrightarrow> x \<in> set ms"
    and srcs: "\<forall>m\<in>set ms. \<forall>x\<in>set (sources_of reverse m). dget comps x \<noteq> None"
    and masks: "\<forall>x c'. dget comps x = Some c' \<and> c' \<noteq> c \<and> x \<in> all_sources reverse \<longrightarrow>
      (\<exists>D. bits_for devices (closure_of closures c') D \<and> D \<union> ({x} \<inter> set devices) = behind reverse x \<inter> set devices)"
  shows "\<exists>bits D. component_mask reverse devices comps closures c ms = Some bits \<and> bits_for devices bits D
    \<and> (\<forall>m\<in>set ms. D \<union> ({m} \<inter> set devices) = behind reverse m \<inter> set devices)"
proof -
  let ?srcs = "concat (map (sources_of reverse) ms)"
  let ?B = "if 1 < length ms then set ms \<inter> set devices else {}"
  let ?D = "?B \<union> (\<Union>x\<in>{x \<in> set ?srcs. dget comps x \<noteq> Some c}. behind reverse x \<inter> set devices)"
  have start: "bits_for devices (if 1 < length ms then fold (\<lambda>m bits. bits OR device_bit devices m) ms 0 else 0) ?B"
    using cycle_bits [OF bits_for_0, of devices ms] by simp
  have all: "x \<in> all_sources reverse" if "x \<in> set ?srcs" for x
    using that sources_of_subset [of reverse] by auto
  have "\<exists>bits. fold (add_source devices comps closures c) ?srcs
      (Some (if 1 < length ms then fold (\<lambda>m bits. bits OR device_bit devices m) ms 0 else 0)) = Some bits \<and> bits_for devices bits ?D"
  proof (rule sources_bits [OF start])
    show known: "\<forall>x\<in>set ?srcs. \<exists>c'. dget comps x = Some c'" using srcs by fastforce
    show "\<forall>x\<in>set ?srcs. dget comps x \<noteq> Some c \<longrightarrow>
        (\<exists>D. bits_for devices (closure_of closures (the (dget comps x))) D \<and> D \<union> ({x} \<inter> set devices) = behind reverse x \<inter> set devices)"
    proof (intro ballI impI)
      fix x assume x: "x \<in> set ?srcs" "dget comps x \<noteq> Some c"
      then obtain c' where "dget comps x = Some c'" using known by blast
      with x masks all show "\<exists>D. bits_for devices (closure_of closures (the (dget comps x))) D \<and> D \<union> ({x} \<inter> set devices) = behind reverse x \<inter> set devices"
        by auto
    qed
  qed
  then obtain bits where bits: "component_mask reverse devices comps closures c ms = Some bits" "bits_for devices bits ?D"
    unfolding component_mask_def by blast
  have out: "{x \<in> set ?srcs. dget comps x \<noteq> Some c} = fwd reverse `` set ms - set ms"
    using comps by (auto simp: fwd_def)
  have "?D \<union> ({m} \<inter> set devices) = behind reverse m \<inter> set devices" if m: "m \<in> set ms" for m
  proof -
    have "behind reverse m = set ms \<union> (\<Union>x\<in>fwd reverse `` set ms - set ms. behind reverse x)"
      by (rule behind_component [OF mutual m])
    moreover have "\<not> 1 < length ms \<Longrightarrow> set ms = {m}" using m by (cases ms) auto
    ultimately show ?thesis unfolding out using m by (cases "1 < length ms") auto
  qed
  with bits show ?thesis by blast
qed

lemma seg_shrink:
  assumes "seg_ok reverse index (seg @ tail) low w sg" "\<forall>s\<in>set seg. num_at index (fst w) < num_at index s"
    "\<forall>k. num_at low' k = num_at low k"
  shows "seg_ok reverse index tail low' w sg"
proof -
  have low: "low_ok reverse index tail low' (fst w)"
  proof -
    have "low_ok reverse index (seg @ tail) low (fst w)" using assms(1) by (simp add: seg_ok_def case_prod_unfold)
    then obtain t where t: "t \<in> set (seg @ tail)" "num_at index t = num_at low (fst w)" "(fst w, t) \<in> (fwd reverse)\<^sup>*"
        "num_at low (fst w) \<le> num_at index (fst w)"
      by (auto simp: low_ok_def)
    moreover have "t \<notin> set seg" using t(2,4) assms(2) by fastforce
    ultimately show ?thesis using assms(3) unfolding low_ok_def by auto
  qed
  have e: "edge_done index (seg @ tail) b t \<Longrightarrow> edge_done index tail b t" for b t by (simp add: edge_done_def)
  show ?thesis
    using assms(1) low unfolding seg_ok_def case_prod_unfold assms(3) [rule_format]
    by (elim conjE exE) (intro conjI; blast intro: e)
qed

lemma close_ok:
  fixes reverse devices st low n rest
  defines "st' \<equiv> st\<lparr>tj_low := lower_parent (num_at low n) rest low, tj_work := rest\<rparr>"
  assumes td: "top_done reverse st low n rest seg segs" and eq: "num_at low n = num_at (tj_index st) n"
    and vis: "visited_ok reverse st" and masks: "masks_ok reverse devices st"
  shows "\<exists>st''. close_component reverse devices n st' = Some st'' \<and> stack_ok reverse st'' segs \<and> visited_ok reverse st''
    \<and> masks_ok reverse devices st''"
proof -
  let ?I = "tj_index st" and ?S = "tj_stack st" and ?c = "tj_next_comp st"
  have stack: "seg @ concat segs = ?S" and ne: "seg \<noteq> []" "last seg = n"
    and sorted: "sorted_wrt (\<lambda>a b. num_at ?I b < num_at ?I a) ?S"
    using td by (simp_all add: top_done_def)
  have dist: "distinct ?S"
    using sorted unfolding distinct_conv_nth sorted_wrt_iff_nth_less by (metis less_irrefl linorder_neqE_nat)
  have ord: "\<forall>s\<in>set seg. num_at ?I n \<le> num_at ?I s" "\<forall>t\<in>set (concat segs). num_at ?I t < num_at ?I n"
    by (rule seg_order [of ?I seg "concat segs"]; use stack ne sorted in simp)+
  obtain l where l: "seg = l @ [n]" using ne by (metis append_butlast_last_id)
  have nl: "n \<notin> set l" using dist l stack by (metis Un_iff distinct.simps(2) distinct_append not_distinct_conv_prefix append.assoc append_Cons append_Nil)
  have take: "takeWhile (\<lambda>m. m \<noteq> n) ?S @ [n] = seg" and drop: "tl (dropWhile (\<lambda>m. m \<noteq> n) ?S) = concat segs"
    using nl by (simp_all add: stack [symmetric] l takeWhile_append dropWhile_append)
  define comps where "comps = fold (\<lambda>m. dset m ?c) seg (tj_comp st)"
  have dc: "dget comps x = (if x \<in> set seg then Some ?c else dget (tj_comp st) x)" for x
    by (simp add: comps_def dget_fold_dset)
  have old: "dget (tj_comp st) x = Some c' \<Longrightarrow> c' < ?c" for x c' using masks by (simp add: masks_ok_def)
  have inS: "set seg \<subseteq> set ?S" using stack by (metis set_append Un_upper1)
  have closed: "x \<in> set seg \<union> set (dkeys (tj_comp st))" if "m \<in> set seg" "x \<in> set (sources_of reverse m)" for m x
  proof -
    have e: "edge_done ?I ?S (num_at low n) x" using td that by (simp add: top_done_def)
    show ?thesis
    proof (cases "x \<in> set ?S")
      case True
      then have "num_at ?I n \<le> num_at ?I x" using e eq by (simp add: edge_done_def)
      then have "x \<notin> set (concat segs)" using ord(2) by (meson not_less)
      then show ?thesis using True stack by (metis Un_iff set_append)
    next
      case False
      then show ?thesis using e vis by (auto simp: edge_done_def visited_ok_def dget_None_iff)
    qed
  qed
  have mutual: "\<forall>a\<in>set seg. \<forall>b\<in>set seg. (a, b) \<in> (fwd reverse)\<^sup>*"
    using td unfolding top_done_def by (meson rtrancl_trans)
  have "\<exists>bits D. component_mask reverse devices comps (tj_closures st) ?c seg = Some bits \<and> bits_for devices bits D
    \<and> (\<forall>m\<in>set seg. D \<union> ({m} \<inter> set devices) = behind reverse m \<inter> set devices)"
  proof (rule component_bits [OF mutual])
    show "distinct seg" using dist stack by (metis distinct_append)
    show "\<forall>x. dget comps x = Some ?c \<longleftrightarrow> x \<in> set seg" using old by (auto simp: dc)
    show "\<forall>m\<in>set seg. \<forall>x\<in>set (sources_of reverse m). dget comps x \<noteq> None"
    proof (intro ballI)
      fix m x assume "m \<in> set seg" "x \<in> set (sources_of reverse m)"
      from closed [OF this] show "dget comps x \<noteq> None" unfolding dc using dget_None_iff [of "tj_comp st" x] by auto
    qed
    show "\<forall>x c'. dget comps x = Some c' \<and> c' \<noteq> ?c \<and> x \<in> all_sources reverse \<longrightarrow>
      (\<exists>D. bits_for devices (closure_of (tj_closures st) c') D \<and> D \<union> ({x} \<inter> set devices) = behind reverse x \<inter> set devices)"
      using masks by (auto simp: dc masks_ok_def split: if_splits)
  qed
  then obtain bits D where bits: "component_mask reverse devices comps (tj_closures st) ?c seg = Some bits" "bits_for devices bits D"
      and D: "\<forall>m\<in>set seg. D \<union> ({m} \<inter> set devices) = behind reverse m \<inter> set devices" by blast
  define closures where "closures = (if list_ex (\<lambda>m. m \<in> all_sources reverse) seg \<and> bits \<noteq> 0 then dset ?c bits (tj_closures st) else tj_closures st)"
  define counts where "counts = fold (\<lambda>m. dset m (bit_count (bits AND NOT (device_bit devices m)))) (filter (\<lambda>m. m \<in> set (dkeys reverse)) seg) (tj_counts st)"
  define st'' where "st'' = st'\<lparr>tj_stack := concat segs, tj_comp := comps, tj_closures := closures, tj_counts := counts, tj_next_comp := ?c + 1\<rparr>"
  have n_in: "n \<in> set ?S" using inS l by auto
  have "close_component reverse devices n st' = Some st''"
    using n_in bits(1) by (simp add: close_component_def st'_def st''_def Let_def take drop comps_def closures_def counts_def)
  moreover have "stack_ok reverse st'' segs"
  proof -
    have same: "\<forall>k. num_at (lower_parent (num_at low n) rest low) k = num_at low k"
    proof (cases rest)
      case (Cons w rest')
      then obtain sg where sg: "seg_ok reverse ?I ?S low w sg" "sg \<in> set segs" using td by (auto simp: top_done_def list_all2_Cons1)
      then have "fst w \<in> set (concat segs)" using seg_last [OF sg(1)] by auto
      then have "num_at ?I (fst w) < num_at ?I n" using ord(2) by blast
      moreover have "num_at low (fst w) \<le> num_at ?I (fst w)" using sg(1) by (simp add: seg_ok_def low_ok_def case_prod_unfold)
      ultimately show ?thesis using Cons eq by (auto simp: lower_parent_def case_prod_unfold)
    qed (simp add: lower_parent_def)
    have "list_all2 (seg_ok reverse ?I ?S low) rest segs" using td by (simp add: top_done_def)
    then have "list_all2 (seg_ok reverse ?I (concat segs) (lower_parent (num_at low n) rest low)) rest segs"
    proof (rule list.rel_mono_strong)
      fix w sg assume w: "w \<in> set rest" "sg \<in> set segs" "seg_ok reverse ?I ?S low w sg"
      then have "fst w \<in> set (concat segs)" using seg_last [OF w(3)] by auto
      then have "\<forall>s\<in>set seg. num_at ?I (fst w) < num_at ?I s" using ord by (meson less_le_trans)
      then show "seg_ok reverse ?I (concat segs) (lower_parent (num_at low n) rest low) w sg"
        by (rule seg_shrink [OF w(3) [folded stack] _ same])
    qed
    then show ?thesis
      using td by (auto simp: stack_ok_def st''_def st'_def top_done_def stack [symmetric] sorted_wrt_append)
  qed
  moreover have "visited_ok reverse st''"
  proof -
    have k: "set (dkeys comps) = set seg \<union> set (dkeys (tj_comp st))" by (simp add: comps_def set_dkeys_fold)
    have disj: "set seg \<inter> set (concat segs) = {}" using dist stack by (metis distinct_append)
    have un: "set ?S = set seg \<union> set (concat segs)" using stack by (metis set_append)
    have "set (dkeys ?I) = set (concat segs) \<union> set (dkeys comps)" "set (concat segs) \<inter> set (dkeys comps) = {}"
      using vis disj un by (auto simp: visited_ok_def k simp del: set_concat)
    moreover have "\<forall>v\<in>set (dkeys comps). set (sources_of reverse v) \<subseteq> set (dkeys comps)"
    proof (intro ballI subsetI)
      fix v x assume v: "v \<in> set (dkeys comps)" and x: "x \<in> set (sources_of reverse v)"
      show "x \<in> set (dkeys comps)"
      proof (cases "v \<in> set seg")
        case True
        from closed [OF this x] show ?thesis by (simp add: k)
      next
        case False
        with v x vis show ?thesis by (auto simp: visited_ok_def k)
      qed
    qed
    ultimately show ?thesis
      using vis unfolding visited_ok_def by (simp add: st''_def st'_def del: set_concat)
  qed
  moreover have "masks_ok reverse devices st''"
  proof -
    have keys: "dget (tj_closures st) c' = Some b \<Longrightarrow> c' < ?c" for c' b using masks by (simp add: masks_ok_def)
    have new: "closure_of closures ?c = bits" if "list_ex (\<lambda>m. m \<in> all_sources reverse) seg"
      using that keys [of ?c] by (cases "dget (tj_closures st) ?c") (auto simp: closures_def closure_of_def)
    have older: "c' < ?c \<Longrightarrow> closure_of closures c' = closure_of (tj_closures st) c'" for c'
      by (simp add: closures_def closure_of_def)
    have cnt: "bit_count (bits AND NOT (device_bit devices m)) = card (behind reverse m \<inter> set devices - {m})" if "m \<in> set seg" for m
    proof -
      have "D - {m} = behind reverse m \<inter> set devices - {m}" using D that by blast
      then show ?thesis using bits_for_count [OF bits_for_clear [OF bits(2), of m]] by simp
    qed
    have "dget counts m = (if m \<in> set seg \<and> m \<in> set (dkeys reverse) then Some (card (behind reverse m \<inter> set devices - {m})) else dget (tj_counts st) m)" for m
      using cnt by (simp add: counts_def dget_fold_dset)
    moreover have "m \<in> set seg \<Longrightarrow> m \<notin> set (dkeys (tj_comp st))" for m using vis inS by (auto simp: visited_ok_def)
    moreover have "set (dkeys comps) = set seg \<union> set (dkeys (tj_comp st))" by (simp add: comps_def set_dkeys_fold)
    ultimately have "\<forall>m. dget counts m = (if m \<in> set (dkeys comps) \<and> m \<in> set (dkeys reverse)
        then Some (card (behind reverse m \<inter> set devices - {m})) else None)"
      using masks by (auto simp: masks_ok_def)
    moreover have "\<exists>D. bits_for devices (closure_of closures c') D \<and> D \<union> ({m} \<inter> set devices) = behind reverse m \<inter> set devices"
      if "dget comps m = Some c'" "m \<in> all_sources reverse" for m c'
    proof (cases "m \<in> set seg")
      case True
      then have "closure_of closures c' = bits" using that new by (auto simp: dc list_ex_iff)
      with bits(2) D True show ?thesis by blast
    next
      case False
      with that have "dget (tj_comp st) m = Some c'" by (simp add: dc)
      with older old that(2) masks show ?thesis by (auto simp: masks_ok_def)
    qed
    moreover have "dget comps m = Some c' \<Longrightarrow> c' < ?c + 1" for m c' using old by (fastforce simp: dc split: if_splits)
    moreover have "dget closures c' = Some b \<Longrightarrow> c' < ?c + 1" for c' b using keys by (fastforce simp: closures_def split: if_splits)
    ultimately show ?thesis by (simp add: masks_ok_def st''_def st'_def)
  qed
  ultimately show ?thesis by blast
qed

section \<open>The loops\<close>

definition tarjan_ok :: "(str, str list) dict \<Rightarrow> str list \<Rightarrow> tarjan \<Rightarrow> bool" where
  "tarjan_ok reverse devices st \<longleftrightarrow> (\<exists>segs. stack_ok reverse st segs) \<and> visited_ok reverse st \<and> masks_ok reverse devices st"

lemma turn_ok:
  assumes ok: "tarjan_ok reverse devices st" and work: "tj_work st = (n, succs) # rest"
  shows "\<exists>st'. tarjan_turn reverse devices n succs rest st = Some st' \<and> tarjan_ok reverse devices st'
    \<and> set (dkeys (tj_index st)) \<subseteq> set (dkeys (tj_index st'))"
proof -
  obtain segs where st: "stack_ok reverse st segs" "visited_ok reverse st" "masks_ok reverse devices st"
    using ok by (auto simp: tarjan_ok_def)
  obtain low found where scan: "scan (tj_index st) (tj_stack st) n (tj_low st) succs = (low, found)" by (rule prod.exhaust)
  show ?thesis
  proof (cases found)
    case (Some p)
    obtain x left where p: "p = (x, left)" by (rule prod.exhaust)
    let ?st = "visit reverse x (st\<lparr>tj_low := low, tj_work := (n, left) # rest\<rparr>)"
    note scan' = scan [unfolded Some p]
    note d = descend_ok [OF st(1,2) work scan']
    have "visited_ok reverse ?st" by (rule visit_visited) (use st(2) d(2) in \<open>simp_all add: visited_ok_def\<close>)
    moreover have "masks_ok reverse devices ?st" by (rule visit_masks) (use st(3) in \<open>simp add: masks_ok_def\<close>)
    ultimately have "tarjan_ok reverse devices ?st" using d(1) by (auto simp: tarjan_ok_def)
    then show ?thesis using turn_found [OF scan'] by (auto simp: visit_def)
  next
    case None
    from scan_end [OF st(1) work scan [unfolded None]] obtain seg segs' where td: "top_done reverse st low n rest seg segs'" by blast
    let ?st = "st\<lparr>tj_low := lower_parent (num_at low n) rest low, tj_work := rest\<rparr>"
    have low: "num_at (lower_parent (num_at low n) rest low) n = num_at low n"
      using td by (cases rest) (auto simp: lower_parent_def top_done_def)
    have turn: "tarjan_turn reverse devices n succs rest st =
        (if num_at low n \<noteq> num_at (tj_index st) n then Some ?st else close_component reverse devices n ?st)"
      using scan None low by (simp add: tarjan_turn_def)
    show ?thesis
    proof (cases "num_at low n = num_at (tj_index st) n")
      case True
      from close_ok [OF td True st(2,3)] obtain st'' where
        "close_component reverse devices n ?st = Some st''" "stack_ok reverse st'' segs'" "visited_ok reverse st''" "masks_ok reverse devices st''"
        by blast
      moreover have "tj_index st'' = tj_index st" using close_component_keeps [OF calculation(1)] by simp
      ultimately show ?thesis using turn True by (auto simp: tarjan_ok_def)
    next
      case False
      have "visited_ok reverse ?st" "masks_ok reverse devices ?st" using st(2,3) by (simp_all add: visited_ok_def masks_ok_def)
      then show ?thesis using merge_ok [OF td False] turn False by (auto simp: tarjan_ok_def)
    qed
  qed
qed

lemma loop_ok:
  "tarjan_ok reverse devices st \<Longrightarrow> \<exists>st'. tarjan_loop reverse devices st = Some st' \<and> tarjan_ok reverse devices st' \<and> tj_work st' = []
     \<and> set (dkeys (tj_index st)) \<subseteq> set (dkeys (tj_index st'))"
proof (induction reverse devices st rule: tarjan_loop.induct)
  case (1 reverse devices st)
  show ?case
  proof (cases "tj_work st")
    case Nil
    then show ?thesis using 1(2) by (auto simp: tarjan_loop.simps [of reverse devices st])
  next
    case (Cons w rest)
    obtain n succs where w: "w = (n, succs)" by (rule prod.exhaust)
    from turn_ok [OF 1(2) Cons [unfolded w]] obtain st' where st': "tarjan_turn reverse devices n succs rest st = Some st'"
      "tarjan_ok reverse devices st'" "set (dkeys (tj_index st)) \<subseteq> set (dkeys (tj_index st'))" by blast
    from 1(1) [OF Cons w [symmetric] st'(1,2)] st'(1,3) Cons w show ?thesis
      by (auto simp: tarjan_loop.simps [of reverse devices st])
  qed
qed

lemma root_ok:
  assumes "tarjan_ok reverse devices st" "tj_work st = []"
  shows "\<exists>st'. tarjan_root reverse devices r (Some st) = Some st' \<and> tarjan_ok reverse devices st' \<and> tj_work st' = []
     \<and> insert r (set (dkeys (tj_index st))) \<subseteq> set (dkeys (tj_index st'))"
proof (cases "dget (tj_index st) r")
  case None
  obtain segs where st: "stack_ok reverse st segs" "visited_ok reverse st" "masks_ok reverse devices st"
    using assms(1) by (auto simp: tarjan_ok_def)
  have "tarjan_ok reverse devices (visit reverse r st)"
    unfolding tarjan_ok_def using visit_stack [OF st(1,2) None] visit_visited [OF st(2) None] visit_masks [OF st(3)] assms(2) by auto
  from loop_ok [OF this] show ?thesis using None by (auto simp: tarjan_root_def visit_def)
next
  case (Some i)
  then have "r \<in> set (dkeys (tj_index st))" by (metis dget_None_iff option.distinct(1))
  with Some assms show ?thesis by (auto simp: tarjan_root_def)
qed

lemma roots_ok:
  assumes "tarjan_ok reverse devices st" "tj_work st = []"
  shows "\<exists>st'. fold (tarjan_root reverse devices) roots (Some st) = Some st' \<and> tarjan_ok reverse devices st' \<and> tj_work st' = []
     \<and> set roots \<union> set (dkeys (tj_index st)) \<subseteq> set (dkeys (tj_index st'))"
  using assms
proof (induction roots arbitrary: st)
  case (Cons r roots)
  from root_ok [OF Cons.prems] obtain st1 where st1: "tarjan_root reverse devices r (Some st) = Some st1" "tarjan_ok reverse devices st1"
    "tj_work st1 = []" "insert r (set (dkeys (tj_index st))) \<subseteq> set (dkeys (tj_index st1))" by blast
  from Cons.IH [OF st1(2,3)] st1 show ?case by auto
qed simp

lemma no_tarjan_ok: "tarjan_ok reverse devices no_tarjan"
  by (auto simp: tarjan_ok_def stack_ok_def visited_ok_def masks_ok_def no_tarjan_def dkeys_def intro: exI [of _ "[]"])

section \<open>Counts are the sizes of the traversals\<close>

lemma fwd_depends: "fwd (reverse_adjacency edges) = (depends edges)\<inverse>"
  by (auto simp: fwd_def set_sources_of)

lemma keys_reverse: "n \<in> set (dkeys (reverse_adjacency edges)) \<longleftrightarrow> (\<exists>m. (m, n) \<in> depends edges)"
proof -
  have "n \<in> set (dkeys (reverse_adjacency edges)) \<longleftrightarrow> dget (reverse_adjacency edges) n \<noteq> None" by (simp add: dget_None_iff)
  also have "\<dots> \<longleftrightarrow> (\<exists>m. (m, n) \<in> depends edges)"
    by (auto simp: reverse_adjacency_def fold_dappend depends_def)
  finally show ?thesis .
qed

lemma behind_dependents: "behind (reverse_adjacency edges) n - {n} = set (dependents edges n)"
proof -
  have "m \<noteq> n \<Longrightarrow> (n, m) \<in> ((depends edges)\<inverse>)\<^sup>* \<longleftrightarrow> (m, n) \<in> (depends edges)\<^sup>+" for m
    by (metis rtrancl_converse rtrancl_eq_or_trancl converse_iff)
  then show ?thesis by (auto simp: behind_def fwd_depends set_dependents)
qed

lemma dependents_known:
  assumes "m \<in> set (dependents edges n)"
  shows "m \<in> all_sources (reverse_adjacency edges)"
proof -
  have "(m, n) \<in> (depends edges)\<^sup>+" using assms by (simp add: set_dependents)
  then obtain k where "(m, k) \<in> depends edges" by (meson tranclD)
  then show ?thesis using sources_of_subset [of "reverse_adjacency edges" k] by (auto simp: set_sources_of subset_iff)
qed

lemma dependent_counts_lookup:
  "\<exists>counts. dependent_counts edges = Some counts \<and>
     (\<forall>n. dget counts n = (if \<exists>m. (m, n) \<in> depends edges then Some (length (filter is_device_id (dependents edges n))) else None))"
proof (cases "reverse_adjacency edges = []")
  case True
  then have "\<not> (\<exists>m. (m, n) \<in> depends edges)" for n by (simp add: keys_reverse [symmetric] dkeys_def)
  with True show ?thesis by (simp add: dependent_counts_def)
next
  case False
  define reverse where "reverse = reverse_adjacency edges"
  define nodes where "nodes = sort (remdups (dkeys reverse @ concat (map snd reverse)))"
  define devices where "devices = filter is_device_id nodes"
  from roots_ok [OF no_tarjan_ok [of reverse devices], of nodes] obtain st where
    st: "fold (tarjan_root reverse devices) nodes (Some no_tarjan) = Some st" "tarjan_ok reverse devices st" "tj_work st = []"
      "set nodes \<subseteq> set (dkeys (tj_index st))"
    by (auto simp: no_tarjan_def)
  then have "tj_stack st = []" by (auto simp: tarjan_ok_def stack_ok_def)
  with st have finished: "set nodes \<subseteq> set (dkeys (tj_comp st))" by (auto simp: tarjan_ok_def visited_ok_def)
  have counts: "dget (tj_counts st) n = (if n \<in> set (dkeys reverse) then Some (card (behind reverse n \<inter> set devices - {n})) else None)" for n
    using st(2) finished by (auto simp: tarjan_ok_def masks_ok_def nodes_def)
  have "behind reverse n \<inter> set devices - {n} = set (filter is_device_id (dependents edges n))" for n
  proof -
    have "m \<in> set nodes" if "m \<in> set (dependents edges n)" for m
      using dependents_known [OF that] by (auto simp: nodes_def reverse_def all_sources_def)
    then show ?thesis using behind_dependents [of edges n] by (auto simp: devices_def reverse_def)
  qed
  moreover have "card (set (filter is_device_id (dependents edges n))) = length (filter is_device_id (dependents edges n))" for n
    by (rule distinct_card) (simp add: distinct_dependents)
  ultimately have "dget (tj_counts st) n = (if \<exists>m. (m, n) \<in> depends edges then Some (length (filter is_device_id (dependents edges n))) else None)" for n
    using counts [of n] keys_reverse [of n edges] by (simp add: reverse_def)
  moreover have "dependent_counts edges = Some (tj_counts st)"
    using False st(1) by (simp add: dependent_counts_def Let_def reverse_def nodes_def devices_def)
  ultimately show ?thesis by blast
qed

end
