(* ===== verification/Topo_Impact.thy ===== *)
theory Topo_Impact
  imports Topo_Tarjan
begin

text \<open>
  The rest of \<open>homesoc/topology/graph.py\<close>: the node list with its criticalities, the ranking of
  load-bearing devices, the blast radius of one device with its sentences, and the \<open>dep_edges\<close>
  cache. \<open>None\<close> is the empty dictionary the code returns for a device that does not exist.
\<close>

section \<open>Building\<close>

record graph_device =
  gd_id :: nat
  gd_mac :: "str option"
  gd_ip :: "str option"
  gd_kind :: "str option"
  gd_label :: str
  gd_online :: bool

definition or_str :: "str option \<Rightarrow> str \<Rightarrow> str" where
  "or_str s d = (case s of Some t \<Rightarrow> if t = [] then d else t | None \<Rightarrow> d)"

definition severity_order :: "str \<Rightarrow> nat" where
  "severity_order s = (case map_of [(''critical'', 0), (''high'', 1), (''medium'', 2), (''low'', 3), (''info'', 4)] s of
     Some n \<Rightarrow> n | None \<Rightarrow> 9)"

definition worst_severities :: "(nat \<times> str option) list \<Rightarrow> (nat, str) dict" where
  "worst_severities rows = fold (\<lambda>(d, s) out.
     let sev = lower (or_str s ''info'') in case dget out d of
       None \<Rightarrow> dset d sev out
     | Some cur \<Rightarrow> if severity_order sev < severity_order cur then dset d sev out else out) rows []"

text \<open>The address line of a hub ends in a middle dot (U+00B7) and the word hub.\<close>

definition device_sublabel :: "nat list \<Rightarrow> graph_device \<Rightarrow> str option" where
  "device_sublabel hubs row =
     (let addr = or_str (gd_ip row) (or_str (gd_mac row) []);
          junk = (\<lambda>c. c = CHR '' '' \<or> c = CHR 0xB7);
          sub = (if gd_id row \<in> set hubs then rstrip_by junk (lstrip_by junk (addr @ [CHR '' '', CHR 0xB7] @ '' hub'')) else addr)
      in if sub = [] then None else Some sub)"

definition device_node :: "nat list \<Rightarrow> (nat, str) dict \<Rightarrow> (str, nat) dict \<Rightarrow> graph_device \<Rightarrow> node" where
  "device_node hubs severities counts row =
     \<lparr>nd_id = device_node_id (gd_id row), nd_kind = ''device'', nd_label = gd_label row, nd_sublabel = device_sublabel hubs row,
      nd_device = Some (gd_id row), nd_criticality = num_at counts (device_node_id (gd_id row)),
      nd_severity = dget severities (gd_id row), nd_online = gd_online row\<rparr>"

definition build_graph :: "graph_device list \<Rightarrow> nat list \<Rightarrow> (nat \<times> str option) list \<Rightarrow> node list \<Rightarrow> edge list \<Rightarrow> (node list \<times> edge list) option" where
  "build_graph rows hubs findings inferred_nodes inferred_edges =
     (case dependent_counts inferred_edges of
        None \<Rightarrow> None
      | Some counts \<Rightarrow>
          (let nodes = sorted_nodes (map (device_node hubs (worst_severities findings) counts) (sort_key gd_id rows) @ inferred_nodes);
               edges = sort_key edge_key inferred_edges; known = map nd_id nodes
           in Some (nodes, filter (\<lambda>e. ed_src e \<in> set known \<and> ed_dst e \<in> set known) edges)))"

section \<open>Criticality\<close>

record critical_item =
  ci_device :: nat
  ci_label :: str
  ci_dependents :: nat
  ci_weight :: nat
  ci_why :: str

definition plural :: "nat \<Rightarrow> str" where
  "plural n = (if n = 1 then [] else ''s'')"

definition capitalize :: "str \<Rightarrow> str" where
  "capitalize s = (case s of [] \<Rightarrow> [] | c # cs \<Rightarrow> upper_char c # lower cs)"

fun join_str :: "str \<Rightarrow> str list \<Rightarrow> str" where
  "join_str sep [] = []"
| "join_str sep [s] = s"
| "join_str sep (s # ss) = s @ sep @ join_str sep ss"

definition why_critical :: "nat \<Rightarrow> nat \<Rightarrow> nat \<Rightarrow> str \<Rightarrow> str" where
  "why_critical count outages consumers kind =
     (let bits = (if count \<noteq> 0 then [dec_digits count @ '' device'' @ plural count @ '' depend'' @ (if count = 1 then ''s'' else []) @ '' on it''] else [])
        @ (if consumers \<noteq> 0 then [dec_digits consumers @ '' confirmed consumer'' @ plural consumers @ '' of a service it offers''] else [])
        @ (if outages \<noteq> 0 then [''it dropped with other devices in '' @ dec_digits outages @ '' recorded outage'' @ plural outages] else []);
          bits = (if bits = [] then [''nothing else is known to depend on it''] else bits);
          bits = (if kind \<in> {''router'', ''gateway''} then ''it is the way off the local network'' # bits else bits)
      in capitalize (join_str ''; '' bits))"

definition consumers_of :: "edge list \<Rightarrow> str \<Rightarrow> str list" where
  "consumers_of edges n =
     (let providers = map ed_src (filter (\<lambda>e. ed_type e = ''hosted_by'' \<and> ed_dst e = n) edges)
      in remdups (map ed_src (filter (\<lambda>e. ed_type e = ''uses'' \<and> ed_dst e \<in> set providers) edges)))"

definition critical_weight :: "nat \<Rightarrow> nat \<Rightarrow> nat \<Rightarrow> nat" where
  "critical_weight count outages consumers =
     count + (if 2 \<le> outages then 5 else if outages \<noteq> 0 then 2 else 0) + (if consumers \<noteq> 0 then 3 else 0)"

definition critical_item_of :: "(str, nat) dict \<Rightarrow> (nat, nat) dict \<Rightarrow> edge list \<Rightarrow> graph_device \<Rightarrow> critical_item option" where
  "critical_item_of counts triggered edges row =
     (let count = num_at counts (device_node_id (gd_id row)); outages = num_at triggered (gd_id row);
          consumers = length (consumers_of edges (device_node_id (gd_id row)))
      in if count = 0 \<and> outages = 0 then None
         else Some \<lparr>ci_device = gd_id row, ci_label = gd_label row, ci_dependents = count,
           ci_weight = critical_weight count outages consumers, ci_why = why_critical count outages consumers (or_str (gd_kind row) [])\<rparr>)"

definition criticality :: "graph_device list \<Rightarrow> (nat, nat) dict \<Rightarrow> edge list \<Rightarrow> critical_item list option" where
  "criticality rows triggered graph_edges =
     (let edges = filter (\<lambda>e. ed_type e \<notin> {''cloud'', ''cloud_blocked''}) graph_edges
      in case dependent_counts edges of
           None \<Rightarrow> None
         | Some counts \<Rightarrow> Some (sort_key (\<lambda>i. (- int (ci_weight i), - int (ci_dependents i), ci_device i))
             (List.map_filter (critical_item_of counts triggered edges) (sort_key gd_id rows))))"

section \<open>Sentences\<close>

definition count_words :: "nat \<Rightarrow> str" where
  "count_words n = (if n = 1 then ''1 device'' else dec_digits n @ '' devices'')"

definition verb :: "nat \<Rightarrow> str \<Rightarrow> str \<Rightarrow> str" where
  "verb n singular many = (if n = 1 then singular else many)"

text \<open>\<open>s.split(sep)[0]\<close>.\<close>

fun before_str :: "str \<Rightarrow> str \<Rightarrow> str" where
  "before_str sep [] = []"
| "before_str sep (c # s) = (if prefix sep (c # s) then [] else c # before_str sep s)"

definition headline :: "str \<Rightarrow> bool \<Rightarrow> nat \<Rightarrow> nat \<Rightarrow> nat \<Rightarrow> str list \<Rightarrow> str" where
  "headline label is_gateway degraded offline unaffected services =
     (let name = (if strip label = [] then ''this device'' else strip label)
      in if is_gateway \<and> degraded \<noteq> 0 then
           ''If '' @ name @ '' fails, '' @ count_words degraded @ '' '' @ verb degraded ''loses'' ''lose'' @ '' ''
           @ verb degraded ''its'' ''their'' @ '' internet connection. '' @ verb degraded ''It'' ''They'' @ '' ''
           @ verb degraded ''stays'' ''stay'' @ '' on the local network and can still reach ''
           @ (if degraded \<noteq> 1 then ''the others'' else ''other devices here'') @ ''.''
           @ (if unaffected \<noteq> 0 then '' '' @ capitalize (count_words unaffected) @ '' '' @ verb unaffected ''keeps'' ''keep'' @ '' working on the local network.'' else [])
         else if offline \<noteq> 0 \<and> degraded \<noteq> 0 then
           ''If '' @ name @ '' fails, '' @ count_words offline @ '' '' @ verb offline ''goes'' ''go'' @ '' offline and ''
           @ count_words degraded @ '' '' @ verb degraded ''loses'' ''lose'' @ '' a service, based on what has been recorded.''
         else if offline \<noteq> 0 then
           ''If '' @ name @ '' fails, '' @ count_words offline @ '' '' @ verb offline ''goes'' ''go'' @ '' offline with it, based on what has been recorded.''
         else if degraded \<noteq> 0 then
           (case List.find (sublist '' for '') services of
              Some s \<Rightarrow> ''If '' @ name @ '' fails, '' @ count_words degraded @ '' '' @ verb degraded ''loses'' ''lose'' @ '' '' @ before_str '' for '' s
                @ ''. Everything else keeps working.''
            | None \<Rightarrow> ''If '' @ name @ '' fails, '' @ count_words degraded @ '' may be affected: '' @ verb degraded ''it has'' ''they have''
                @ '' been recorded going offline in the same discovery cycle as it, though what connects them is not known.'')
         else case services of
           s # _ \<Rightarrow> ''If '' @ name @ '' fails, the network loses '' @ before_str '' ('' s @ '', but nothing has been seen using it, so no other device is known to be affected.''
         | [] \<Rightarrow> ''If '' @ name @ '' fails, nothing else on the network is known to stop working - only '' @ name @ '' itself goes offline.'')"

definition mixed_confidence :: "str list \<Rightarrow> str" where
  "mixed_confidence used =
     (if used = [] then ''inferred'' else if set used = {''observed''} then ''observed''
      else if ''observed'' \<in> set used then ''mixed'' else if ''inferred'' \<in> set used then ''inferred'' else ''assumed'')"

definition dedupe_keep_order :: "str list \<Rightarrow> str list" where
  "dedupe_keep_order items = fold (\<lambda>x out. if x \<in> set out then out else out @ [x]) items []"

section \<open>Blast radius\<close>

definition CO_DROP_CONFIRMED :: real where "CO_DROP_CONFIRMED = 3 / 4"
definition CO_DROP_MIN_OUTAGES :: nat where "CO_DROP_MIN_OUTAGES = 2"

record affected =
  af_device :: nat
  af_label :: str
  af_why :: str

text \<open>What the function accumulates: the two dictionaries, the services and the confidences used.\<close>

record impact =
  im_degraded :: "(nat, affected) dict"
  im_offline :: "(nat, affected) dict"
  im_services :: "str list"
  im_used :: "str list"

definition no_impact :: impact where
  "no_impact = \<lparr>im_degraded = [], im_offline = [], im_services = [], im_used = []\<rparr>"

definition nodes_by_id :: "node list \<Rightarrow> (str, node) dict" where
  "nodes_by_id nodes = fold (\<lambda>n. dset (nd_id n) n) nodes []"

definition node_at :: "node list \<Rightarrow> str \<Rightarrow> (nat \<times> str) option" where
  "node_at nodes n = (case dget (nodes_by_id nodes) n of
       None \<Rightarrow> None
     | Some nd \<Rightarrow> map_option (\<lambda>d. (d, nd_label nd)) (nd_device nd))"

text \<open>Step 1: the gateway degrades every device that routes through it.\<close>

definition lose_internet :: "node list \<Rightarrow> str list \<Rightarrow> edge \<Rightarrow> impact \<Rightarrow> impact" where
  "lose_internet nodes seen_using e im = (case node_at nodes (ed_src e) of
       None \<Rightarrow> im
     | Some (d, label) \<Rightarrow> im\<lparr>im_degraded := dset d \<lparr>af_device = d, af_label = label, af_why =
           (if ed_src e \<in> set seen_using
            then ''loses its internet connection; it stays on the local network and can still reach devices here''
            else ''loses its route to the internet, though it has never been seen using it; it stays on the local network'')\<rparr> (im_degraded im),
         im_used := im_used im @ [ed_confidence e]\<rparr>)"

definition gateway_step :: "node list \<Rightarrow> edge list \<Rightarrow> str \<Rightarrow> impact \<Rightarrow> impact" where
  "gateway_step nodes edges node_id im =
     (let seen_using = map ed_src (filter (\<lambda>e. ed_type e \<in> {''dns'', ''cloud''}) edges);
          losers = filter (\<lambda>e. ed_type e = ''gateway'' \<and> ed_dst e = node_id) edges;
          im = fold (lose_internet nodes seen_using) (sort_key ed_src losers) im;
          n = length (im_degraded im);
          im = (if losers \<noteq> [] then im\<lparr>im_services := im_services im @ [''internet access for '' @ dec_digits n @ '' device'' @ plural n]\<rparr> else im);
          users = length (remdups (map ed_src (filter (\<lambda>e. ed_type e = ''dns'') edges)))
      in if users \<noteq> 0 \<and> list_ex (\<lambda>e. ed_src e = ''resolver'' \<and> ed_type e = ''internet'') edges
         then im\<lparr>im_services := im_services im @ [''DNS for '' @ dec_digits users @ '' device'' @ plural users]\<rparr> else im)"

text \<open>Step 2: the services it hosts degrade their confirmed consumers.\<close>

definition lose_service :: "node list \<Rightarrow> nat \<Rightarrow> str \<Rightarrow> edge \<Rightarrow> impact \<Rightarrow> impact" where
  "lose_service nodes device phrase c im = (case node_at nodes (ed_src c) of
       None \<Rightarrow> im
     | Some (d, label) \<Rightarrow> if d = device then im
         else im\<lparr>im_used := im_used im @ [ed_confidence c],
           im_degraded := (case dget (im_degraded im) d of
               Some a \<Rightarrow> dset d (a\<lparr>af_why := af_why a @ ''; also loses '' @ phrase\<rparr>) (im_degraded im)
             | None \<Rightarrow> dset d \<lparr>af_device = d, af_label = label, af_why = ''loses '' @ phrase\<rparr> (im_degraded im))\<rparr>)"

definition phrase_of :: "(str, str) dict \<Rightarrow> node \<Rightarrow> str" where
  "phrase_of phrases p = (case dget phrases (nd_id p) of
       Some t \<Rightarrow> t
     | None \<Rightarrow> if suffix '':hub'' (nd_id p) then ''the hub it runs'' else nd_label p)"

definition hosted_step :: "node list \<Rightarrow> edge list \<Rightarrow> (str, str) dict \<Rightarrow> nat \<Rightarrow> edge \<Rightarrow> impact \<Rightarrow> impact" where
  "hosted_step nodes edges phrases device e im = (case dget (nodes_by_id nodes) (ed_src e) of
       None \<Rightarrow> im
     | Some p \<Rightarrow>
         (let phrase = phrase_of phrases p;
              consumers = sort_key ed_src (filter (\<lambda>c. ed_type c = ''uses'' \<and> ed_dst c = nd_id p) edges);
              im = fold (lose_service nodes device phrase) consumers im; n = length consumers
          in im\<lparr>im_services := im_services im @ [if consumers \<noteq> [] then phrase @ '' for '' @ dec_digits n @ '' device'' @ plural n
               else phrase @ '' (no confirmed consumers)'']\<rparr>))"

text \<open>Step 3: devices recorded dropping with it, offline only where the failing box severs the path.\<close>

definition lose_observed :: "bool \<Rightarrow> nat \<Rightarrow> co_member \<Rightarrow> impact \<Rightarrow> impact" where
  "lose_observed severs device m im =
     (let d = co_device m; times = dec_digits (co_count m) @ '' recorded outage'' @ plural (co_count m)
      in if d = device \<or> dget (im_degraded im) d \<noteq> None \<or> dget (im_offline im) d \<noteq> None then im
         else if co_probability m < CO_DROP_CONFIRMED \<or> co_count m < CO_DROP_MIN_OUTAGES then im
         else (if severs
           then im\<lparr>im_offline := dset d \<lparr>af_device = d, af_label = co_label m, af_why =
                ''reaches the network through this device, and went offline in the same discovery cycle as it in '' @ times\<rparr> (im_offline im)\<rparr>
           else im\<lparr>im_degraded := dset d \<lparr>af_device = d, af_label = co_label m, af_why =
                ''dropped in the same discovery cycle as this device in '' @ times @ ''; what connects them has not been established - they may share power or a switch''\<rparr>
                (im_degraded im)\<rparr>)\<lparr>im_used := im_used im @ [''observed'']\<rparr>)"

definition severs_the_path :: "graph_device \<Rightarrow> bool \<Rightarrow> bool" where
  "severs_the_path row is_hub \<longleftrightarrow> lower (or_str (gd_kind row) []) \<in> {''ap'', ''access_point'', ''switch''} \<or> is_hub"

definition is_gateway_node :: "edge list \<Rightarrow> str \<Rightarrow> bool" where
  "is_gateway_node edges n \<longleftrightarrow> list_ex (\<lambda>e. ed_src e = n \<and> ed_type e = ''internet'') edges"

definition impact_of :: "node list \<Rightarrow> edge list \<Rightarrow> (str, str) dict \<Rightarrow> graph_device \<Rightarrow> bool \<Rightarrow> nat \<Rightarrow> co_member list \<Rightarrow> impact" where
  "impact_of nodes edges phrases row is_hub triggered co_triggered =
     (let device = gd_id row; node_id = device_node_id device; gateway = is_gateway_node edges node_id;
          im = (if gateway then gateway_step nodes edges node_id no_impact else no_impact);
          im = fold (hosted_step nodes edges phrases device)
                 (sort_key ed_src (filter (\<lambda>e. ed_type e = ''hosted_by'' \<and> ed_dst e = node_id) edges)) im;
          im = (if triggered \<noteq> 0 then im\<lparr>im_used := im_used im @ [''observed'']\<rparr> else im)
      in if gateway then im else fold (lose_observed (severs_the_path row is_hub) device) co_triggered im)"

record radius =
  rd_device :: nat
  rd_is_gateway :: bool
  rd_offline :: "affected list"
  rd_degraded :: "affected list"
  rd_unaffected :: "(nat \<times> str) list"
  rd_services :: "str list"
  rd_headline :: str
  rd_confidence :: str
  rd_cycle_seconds :: "int option"

definition unaffected_nodes :: "node list \<Rightarrow> impact \<Rightarrow> nat \<Rightarrow> (nat \<times> str) list" where
  "unaffected_nodes nodes im device = List.map_filter (\<lambda>n. case nd_device n of
       None \<Rightarrow> None
     | Some d \<Rightarrow> if nd_kind n = ''device'' \<and> dget (im_degraded im) d = None \<and> dget (im_offline im) d = None \<and> d \<noteq> device
         then Some (d, nd_label n) else None) nodes"

text \<open>\<open>spoken\<close> is the name \<open>_spoken_name\<close> gives the device in a sentence.\<close>

definition radius_of :: "node list \<Rightarrow> edge list \<Rightarrow> (nat \<Rightarrow> str) \<Rightarrow> 'd blast_radius \<Rightarrow> impact \<Rightarrow> nat \<Rightarrow> radius" where
  "radius_of nodes edges spoken obs im d =
     (let unaffected = unaffected_nodes nodes im d; gateway = is_gateway_node edges (device_node_id d)
      in \<lparr>rd_device = d, rd_is_gateway = gateway,
          rd_offline = sort_key (\<lambda>a. lower (af_label a)) (map snd (im_offline im)),
          rd_degraded = sort_key (\<lambda>a. lower (af_label a)) (map snd (im_degraded im)),
          rd_unaffected = sort_key (\<lambda>(_, l). lower l) unaffected, rd_services = dedupe_keep_order (im_services im),
          rd_headline = headline (spoken d) gateway (length (im_degraded im)) (length (im_offline im)) (length unaffected) (im_services im),
          rd_confidence = mixed_confidence (im_used im), rd_cycle_seconds = (if br_triggered obs \<noteq> 0 then br_cycle_seconds obs else None)\<rparr>)"

definition blast_radius_of :: "node list \<Rightarrow> edge list \<Rightarrow> (str, str) dict \<Rightarrow> graph_device list \<Rightarrow> (nat \<Rightarrow> bool) \<Rightarrow> (nat \<Rightarrow> str) \<Rightarrow>
    (nat \<Rightarrow> 'd blast_radius) \<Rightarrow> int \<Rightarrow> radius option" where
  "blast_radius_of nodes edges phrases rows is_hub spoken observed device_id =
     (if \<not> (0 < device_id \<and> device_id \<le> 2 ^ 63 - 1) then None
      else case List.find (\<lambda>r. gd_id r = nat device_id) rows of
        None \<Rightarrow> None
      | Some row \<Rightarrow>
          (let d = gd_id row; obs = observed d;
               im = impact_of nodes edges phrases row (is_hub d) (br_triggered obs) (br_co_triggered obs)
           in Some (radius_of nodes edges spoken obs im d)))"

section \<open>The cache\<close>

record dep_row =
  dr_edge :: edge
  dr_first :: str
  dr_last :: str

definition first_seen_map :: "dep_row list \<Rightarrow> (str \<times> str \<times> str, str) dict" where
  "first_seen_map table = fold (\<lambda>r. dset (edge_key (dr_edge r)) (dr_first r)) table []"

text \<open>The table has a UNIQUE key: a repeated one makes the transaction fail and changes nothing.\<close>

definition store_edges :: "str \<Rightarrow> edge list \<Rightarrow> dep_row list \<Rightarrow> dep_row list option" where
  "store_edges now edges table =
     (if distinct (map edge_key edges)
      then Some (map (\<lambda>e. \<lparr>dr_edge = e, dr_first = (case dget (first_seen_map table) (edge_key e) of Some t \<Rightarrow> t | None \<Rightarrow> now), dr_last = now\<rparr>) edges)
      else None)"

definition by_confidence :: "edge list \<Rightarrow> (str \<times> nat) list" where
  "by_confidence edges = map (\<lambda>c. (c, length (filter (\<lambda>e. ed_confidence e = c) edges))) CONFIDENCES"

definition stored_edges :: "dep_row list \<Rightarrow> edge list" where
  "stored_edges table = sort_key edge_key (map dr_edge table)"

section \<open>What the blast radius may claim\<close>

definition keyed :: "(nat, affected) dict \<Rightarrow> bool" where
  "keyed d \<longleftrightarrow> (\<forall>(k, a)\<in>set d. af_device a = k)"

lemma keyed_dset: "keyed d \<Longrightarrow> af_device a = k \<Longrightarrow> keyed (dset k a d)"
  using set_dset_subset [of k a d] by (auto simp: keyed_def)

lemma keyed_ids: "keyed d \<Longrightarrow> af_device ` set (map snd d) = set (dkeys d)"
  by (force simp: keyed_def dkeys_def)

lemma keyed_dget: "keyed d \<Longrightarrow> dget d k = Some a \<Longrightarrow> af_device a = k"
  using dget_Some_in by (fastforce simp: keyed_def)

text \<open>The first two steps classify nothing as offline.\<close>

definition only_degrades :: "impact \<Rightarrow> bool" where
  "only_degrades im \<longleftrightarrow> im_offline im = [] \<and> keyed (im_degraded im)"

lemma fold_keeps: "(\<And>x s. x \<in> set xs \<Longrightarrow> P s \<Longrightarrow> P (f x s)) \<Longrightarrow> P s \<Longrightarrow> P (fold f xs s)"
  by (induction xs arbitrary: s) auto

lemma lose_internet_only: "only_degrades im \<Longrightarrow> only_degrades (lose_internet nodes seen_using e im)"
  by (auto simp: lose_internet_def only_degrades_def keyed_dset split: option.split)

lemma gateway_step_only: "only_degrades im \<Longrightarrow> only_degrades (gateway_step nodes edges n im)"
proof -
  assume "only_degrades im"
  then have "only_degrades (fold (lose_internet nodes seen_using) es im)" for seen_using es
    by (rule fold_keeps [of _ only_degrades, rotated]) (rule lose_internet_only)
  then show ?thesis using \<open>only_degrades im\<close> by (simp add: gateway_step_def Let_def only_degrades_def)
qed

lemma lose_service_only: "only_degrades im \<Longrightarrow> only_degrades (lose_service nodes d phrase c im)"
  by (auto simp: lose_service_def only_degrades_def keyed_dget intro!: keyed_dset split: option.split)

lemma hosted_step_only: "only_degrades im \<Longrightarrow> only_degrades (hosted_step nodes edges phrases d e im)"
proof -
  assume "only_degrades im"
  then have "only_degrades (fold (lose_service nodes d phrase) cs im)" for phrase cs
    by (rule fold_keeps [of _ only_degrades, rotated]) (rule lose_service_only)
  then show ?thesis using \<open>only_degrades im\<close> by (simp add: hosted_step_def Let_def only_degrades_def split: option.split)
qed

text \<open>The third only adds devices that were free, and offline ones with the recorded evidence.\<close>

definition confirmed_drops :: "co_member list \<Rightarrow> nat set" where
  "confirmed_drops ms = co_device ` {m \<in> set ms. CO_DROP_CONFIRMED \<le> co_probability m \<and> CO_DROP_MIN_OUTAGES \<le> co_count m}"

definition split_impact :: "nat set \<Rightarrow> impact \<Rightarrow> bool" where
  "split_impact allowed im \<longleftrightarrow> keyed (im_degraded im) \<and> keyed (im_offline im)
     \<and> set (dkeys (im_degraded im)) \<inter> set (dkeys (im_offline im)) = {} \<and> set (dkeys (im_offline im)) \<subseteq> allowed"

lemma lose_observed_split:
  assumes "split_impact (if severs then confirmed_drops ms else {}) im" "m \<in> set ms"
  shows "split_impact (if severs then confirmed_drops ms else {}) (lose_observed severs d m im)"
  using assms by (auto simp: lose_observed_def Let_def split_impact_def keyed_dset dget_None_iff confirmed_drops_def not_less)

lemma impact_split:
  "split_impact (if \<not> is_gateway_node edges (device_node_id (gd_id row)) \<and> severs_the_path row is_hub then confirmed_drops co else {})
     (impact_of nodes edges phrases row is_hub triggered co)"
proof -
  let ?n = "device_node_id (gd_id row)"
  let ?im1 = "if is_gateway_node edges ?n then gateway_step nodes edges ?n no_impact else no_impact"
  let ?im2 = "fold (hosted_step nodes edges phrases (gd_id row)) (sort_key ed_src (filter (\<lambda>e. ed_type e = ''hosted_by'' \<and> ed_dst e = ?n) edges)) ?im1"
  let ?im3 = "if triggered \<noteq> 0 then ?im2\<lparr>im_used := im_used ?im2 @ [''observed'']\<rparr> else ?im2"
  have "only_degrades no_impact" by (simp add: only_degrades_def no_impact_def keyed_def)
  then have "only_degrades ?im1" by (simp add: gateway_step_only)
  then have "only_degrades ?im2" by (rule fold_keeps [of _ only_degrades, rotated]) (rule hosted_step_only)
  then have im3: "only_degrades ?im3" by (simp add: only_degrades_def)
  then have base: "split_impact allowed ?im3" for allowed by (auto simp: only_degrades_def split_impact_def keyed_def dkeys_def)
  have "split_impact (if severs_the_path row is_hub then confirmed_drops co else {}) (fold (lose_observed (severs_the_path row is_hub) (gd_id row)) co ?im3)"
    by (rule fold_keeps [of _ "split_impact _"], rule lose_observed_split) (use base in auto)
  with base show ?thesis by (simp add: impact_of_def Let_def)
qed

definition device_ids :: "node list \<Rightarrow> nat set" where
  "device_ids nodes = {d. \<exists>n\<in>set nodes. nd_kind n = ''device'' \<and> nd_device n = Some d}"

lemma unaffected_ids:
  "fst ` set (unaffected_nodes nodes im d) = device_ids nodes - set (dkeys (im_degraded im)) - set (dkeys (im_offline im)) - {d}"
proof -
  have mf: "set (List.map_filter f xs) = {y. \<exists>x\<in>set xs. f x = Some y}" for f :: "node \<Rightarrow> (nat \<times> str) option" and xs
    by (induction xs) (auto simp: List.map_filter_def)
  have "(case nd_device n of None \<Rightarrow> None
     | Some d' \<Rightarrow> if nd_kind n = ''device'' \<and> dget (im_degraded im) d' = None \<and> dget (im_offline im) d' = None \<and> d' \<noteq> d
         then Some (d', nd_label n) else None) = Some y \<longleftrightarrow>
     nd_kind n = ''device'' \<and> nd_device n = Some (fst y) \<and> snd y = nd_label n \<and> fst y \<notin> set (dkeys (im_degraded im))
       \<and> fst y \<notin> set (dkeys (im_offline im)) \<and> fst y \<noteq> d" for n y
    by (cases y) (auto simp: dget_None_iff split: option.split)
  note iff = this
  have set: "set (unaffected_nodes nodes im d) = {y. \<exists>n\<in>set nodes. nd_kind n = ''device'' \<and> nd_device n = Some (fst y)
       \<and> snd y = nd_label n \<and> fst y \<notin> set (dkeys (im_degraded im)) \<and> fst y \<notin> set (dkeys (im_offline im)) \<and> fst y \<noteq> d}"
    unfolding unaffected_nodes_def mf by (intro Collect_cong bex_cong refl iff)
  show ?thesis unfolding set device_ids_def by (auto simp: image_iff)
qed

lemma radius_classifies:
  assumes "blast_radius_of nodes edges phrases rows is_hub spoken observed device_id = Some r"
  shows "af_device ` set (rd_offline r) \<inter> af_device ` set (rd_degraded r) = {}
    \<and> fst ` set (rd_unaffected r) = device_ids nodes - af_device ` set (rd_offline r) - af_device ` set (rd_degraded r) - {rd_device r}
    \<and> (\<exists>row\<in>set rows. gd_id row = rd_device r \<and> af_device ` set (rd_offline r) \<subseteq>
         (if \<not> rd_is_gateway r \<and> severs_the_path row (is_hub (rd_device r)) then confirmed_drops (br_co_triggered (observed (rd_device r))) else {}))"
proof -
  obtain row where row: "List.find (\<lambda>r. gd_id r = nat device_id) rows = Some row"
    using assms by (auto simp: blast_radius_of_def Let_def split: if_splits option.splits)
  let ?d = "gd_id row"
  let ?im = "impact_of nodes edges phrases row (is_hub ?d) (br_triggered (observed ?d)) (br_co_triggered (observed ?d))"
  have "r = radius_of nodes edges spoken (observed ?d) ?im ?d"
    using assms row by (auto simp: blast_radius_of_def Let_def split: if_splits)
  then have r: "set (rd_offline r) = set (map snd (im_offline ?im))" "set (rd_degraded r) = set (map snd (im_degraded ?im))"
      "set (rd_unaffected r) = set (unaffected_nodes nodes ?im ?d)" "rd_device r = ?d" "rd_is_gateway r = is_gateway_node edges (device_node_id ?d)"
    by (simp_all add: radius_of_def Let_def)
  have split: "split_impact (if \<not> is_gateway_node edges (device_node_id ?d) \<and> severs_the_path row (is_hub ?d)
      then confirmed_drops (br_co_triggered (observed ?d)) else {}) ?im"
    by (rule impact_split)
  then have k: "keyed (im_offline ?im)" "keyed (im_degraded ?im)" by (simp_all add: split_impact_def)
  have ids: "af_device ` set (rd_offline r) = set (dkeys (im_offline ?im))" "af_device ` set (rd_degraded r) = set (dkeys (im_degraded ?im))"
    unfolding r(1,2) keyed_ids [OF k(1)] keyed_ids [OF k(2)] by (rule refl)+
  have "row \<in> set rows" using find_Some_D [OF row] by simp
  then have "\<exists>row\<in>set rows. gd_id row = ?d \<and> set (dkeys (im_offline ?im)) \<subseteq>
         (if \<not> is_gateway_node edges (device_node_id ?d) \<and> severs_the_path row (is_hub ?d) then confirmed_drops (br_co_triggered (observed ?d)) else {})"
    using split by (intro bexI [of _ row]) (simp_all add: split_impact_def)
  moreover have "set (dkeys (im_offline ?im)) \<inter> set (dkeys (im_degraded ?im)) = {}" using split by (auto simp: split_impact_def)
  moreover have "fst ` set (rd_unaffected r) = device_ids nodes - set (dkeys (im_offline ?im)) - set (dkeys (im_degraded ?im)) - {?d}"
    unfolding r(3) unaffected_ids by auto
  ultimately show ?thesis unfolding ids r(4,5) by simp
qed

section \<open>Properties\<close>

text \<open>
  C17. The traversal ends on every edge list, cycles and repeated edges included, and returns, without
  repetition and in order, exactly the other nodes from which a chain of dependency edges leads to the
  node.
\<close>

theorem dependents_exact:
  "set (dependents edges n) = {m. m \<noteq> n \<and> (m, n) \<in> (depends edges)\<^sup>+} \<and> distinct (dependents edges n) \<and> sorted (dependents edges n)"
  by (simp add: set_dependents distinct_dependents) (simp add: dependents_def Let_def)

text \<open>
  C18. The one-pass counts never raise and are the counts of the traversal: a node has an entry exactly
  when some dependency edge points at it, and the entry is the number of devices the traversal from it
  finds.
\<close>

theorem dependent_counts_exact:
  "\<exists>counts. dependent_counts edges = Some counts \<and>
     (\<forall>n. dget counts n = (if \<exists>m. (m, n) \<in> depends edges then Some (length (filter is_device_id (dependents edges n))) else None))"
  by (rule dependent_counts_lookup)

text \<open>
  C19. A blast radius puts no device in two classes and leaves none out: the unaffected devices are the
  device nodes that are neither offline nor degraded nor the failing device itself. Nothing is called
  offline when a gateway fails or when the box does not sever a path, and otherwise only devices that
  dropped with it in at least two of its own outages and in three quarters of them.
\<close>

theorem blast_radius_classifies:
  assumes "blast_radius_of nodes edges phrases rows is_hub spoken observed device_id = Some r"
  shows "af_device ` set (rd_offline r) \<inter> af_device ` set (rd_degraded r) = {}
    \<and> fst ` set (rd_unaffected r) = device_ids nodes - af_device ` set (rd_offline r) - af_device ` set (rd_degraded r) - {rd_device r}
    \<and> (\<exists>row\<in>set rows. gd_id row = rd_device r \<and> af_device ` set (rd_offline r) \<subseteq>
         (if \<not> rd_is_gateway r \<and> severs_the_path row (is_hub (rd_device r)) then confirmed_drops (br_co_triggered (observed (rd_device r))) else {}))"
  by (rule radius_classifies [OF assms])

definition sample_switch :: graph_device where
  "sample_switch = \<lparr>gd_id = 3, gd_mac = None, gd_ip = Some ''10.0.0.3'', gd_kind = Some ''switch'', gd_label = ''switch'', gd_online = True\<rparr>"

definition sample_observed :: "nat \<Rightarrow> int blast_radius" where
  "sample_observed d = \<lparr>br_outages = 2, br_triggered = 2, br_dates = [], br_cycle_seconds = Some 600, br_member_count = 1,
     br_co_members = [], br_co_triggered = [\<lparr>co_device = 4, co_label = ''tv'', co_count = 2, co_probability = 1\<rparr>],
     br_attended = 0, br_attended_dates = [], br_attended_count = 2\<rparr>"

definition sample_radius :: "radius" where
  "sample_radius = radius_of [] [] (\<lambda>_. ''the switch'') (sample_observed 3)
     (impact_of [] [] [] sample_switch False 2 (br_co_triggered (sample_observed 3))) 3"

theorem blast_radius_classifies_witness:
  "af_device ` set (rd_offline sample_radius) = {4} \<and> af_device ` set (rd_offline sample_radius) \<inter> af_device ` set (rd_degraded sample_radius) = {}"
proof -
  have "blast_radius_of [] [] [] [sample_switch] (\<lambda>_. False) (\<lambda>_. ''the switch'') sample_observed 3 = Some sample_radius"
    by (simp add: blast_radius_of_def sample_switch_def sample_radius_def sample_observed_def)
  from blast_radius_classifies [OF this]
  have "af_device ` set (rd_offline sample_radius) \<inter> af_device ` set (rd_degraded sample_radius) = {}" by (rule conjunct1)
  moreover have "af_device ` set (rd_offline sample_radius) = {4}"
    by (simp add: sample_radius_def radius_of_def impact_of_def Let_def is_gateway_node_def no_impact_def sample_observed_def
        lose_observed_def CO_DROP_CONFIRMED_def CO_DROP_MIN_OUTAGES_def severs_the_path_def sample_switch_def or_str_def lower_def)
      (simp add: lower_char_def is_upper_def code_of_def)?
  ultimately show ?thesis by simp
qed

end
