(* ===== verification/Topo_Evidence.thy ===== *)
theory Topo_Evidence
  imports Topo_Impact Feeds_Parsers
begin

text \<open>
  What the dependency graph may be built from (first half of \<open>homesoc/topology/infer.py\<close>): the text
  of labels, registrable domains, the services a device was seen offering, the hub signal, and who
  held which address when.

  Rows are records; a stored JSON text is read by the argument \<open>json_loads\<close> (\<open>None\<close>: it raises) and
  Python's \<open>str()\<close> on a JSON value is the argument \<open>py_str\<close>. Stamps are the stored ISO texts, which
  the code compares as strings.
\<close>

section \<open>Text\<close>

definition MAX_LABEL :: nat where "MAX_LABEL = 48"
definition MAX_CLOUD_PER_DEVICE :: nat where "MAX_CLOUD_PER_DEVICE = 6"
definition MIN_CLOUD_QUERIES :: nat where "MIN_CLOUD_QUERIES = 5"
definition MIN_CONSUMER_OUTAGES :: nat where "MIN_CONSUMER_OUTAGES = 2"
definition MIN_CONSUMER_RATIO :: real where "MIN_CONSUMER_RATIO = 3 / 4"
definition MAX_DOMAIN :: nat where "MAX_DOMAIN = 253"

definition unsafe_text :: "char \<Rightarrow> bool" where
  "unsafe_text c \<longleftrightarrow> code_of c \<le> 31 \<or> (127 \<le> code_of c \<and> code_of c \<le> 159)"

definition invisible_text :: "char \<Rightarrow> bool" where
  "invisible_text c \<longleftrightarrow> code_of c = 173"

text \<open>\<open>UNSAFE_TEXT.sub(" ", s)\<close>: every maximal run becomes one space; \<open>r\<close> says that one was just written.\<close>

fun unsafe_to_space :: "bool \<Rightarrow> str \<Rightarrow> str" where
  "unsafe_to_space r [] = []"
| "unsafe_to_space r (c # cs) =
     (if unsafe_text c then (if r then [] else '' '') @ unsafe_to_space True cs else c # unsafe_to_space False cs)"

definition safe_one_line :: "str \<Rightarrow> str" where
  "safe_one_line s = filter (\<lambda>c. \<not> invisible_text c) (unsafe_to_space False s)"

definition clean_text :: "str option \<Rightarrow> str" where
  "clean_text v = strip (take MAX_LABEL (strip (safe_one_line (or_str v []))))"

record device_info =
  dv_id :: nat
  dv_mac :: "str option"
  dv_ip :: "str option"
  dv_hostname :: "str option"
  dv_nickname :: "str option"
  dv_vendor :: "str option"
  dv_kind :: "str option"
  dv_online :: bool
  dv_mdns :: "str option"

definition display_name :: "device_info \<Rightarrow> str" where
  "display_name row =
     (case first_some (\<lambda>v. let t = clean_text v in if t = [] then None else Some t)
             [dv_nickname row, dv_hostname row, dv_ip row, dv_mac row] of
        Some t \<Rightarrow> t | None \<Rightarrow> ''unknown device'')"

text \<open>Every label is one printable line of at most 48 characters, and never empty.\<close>

lemma unsafe_to_space_safe: "c \<in> set (unsafe_to_space r s) \<Longrightarrow> \<not> unsafe_text c"
  by (induction r s rule: unsafe_to_space.induct) (auto simp: unsafe_text_def code_of_def split: if_splits)

lemma clean_text_printable: "c \<in> set (clean_text v) \<Longrightarrow> \<not> unsafe_text c \<and> \<not> invisible_text c"
  using set_strip [of "take MAX_LABEL (strip (safe_one_line (or_str v [])))"] set_strip [of "safe_one_line (or_str v [])"]
  by (auto simp: clean_text_def safe_one_line_def dest!: unsafe_to_space_safe subsetD in_set_takeD)

lemma length_strip: "length (strip s) \<le> length s"
  unfolding strip_def lstrip_by_def using prefix_length_le [OF rstrip_by_prefix] length_dropWhile_le
  by (metis le_trans)

lemma length_clean_text: "length (clean_text v) \<le> MAX_LABEL"
  using length_strip [of "take MAX_LABEL (strip (safe_one_line (or_str v [])))"] by (simp add: clean_text_def)

lemma display_name_label:
  "display_name row \<noteq> [] \<and> length (display_name row) \<le> MAX_LABEL \<and> (\<forall>c\<in>set (display_name row). \<not> unsafe_text c)"
proof (cases "first_some (\<lambda>v. let t = clean_text v in if t = [] then None else Some t)
             [dv_nickname row, dv_hostname row, dv_ip row, dv_mac row]")
  case None
  then show ?thesis by (simp add: display_name_def MAX_LABEL_def unsafe_text_def code_of_def)
next
  case (Some t)
  then obtain v where "t = clean_text v" "t \<noteq> []" by (auto dest!: first_some_in simp: Let_def split: if_splits)
  with Some show ?thesis by (simp add: display_name_def length_clean_text clean_text_printable)
qed

section \<open>Domains\<close>

definition MAP_TWO_LEVEL_SUFFIXES :: "str set" where
  "MAP_TWO_LEVEL_SUFFIXES = {
    ''co.uk'', ''org.uk'', ''ac.uk'', ''gov.uk'', ''me.uk'', ''net.uk'', ''sch.uk'',
    ''com.au'', ''net.au'', ''org.au'', ''co.nz'', ''co.jp'', ''co.kr'', ''co.in'', ''co.za'',
    ''com.br'', ''com.mx'', ''com.cn'', ''com.tr'', ''com.sg'', ''com.hk'', ''com.tw''}"

definition domain_char :: "char \<Rightarrow> bool" where
  "domain_char c \<longleftrightarrow> is_lower c \<or> is_digit c \<or> c \<in> {CHR ''_'', CHR ''.'', CHR ''-''}"

definition asked_domain :: "str \<Rightarrow> str" where
  "asked_domain name =
     (let is_dot = (\<lambda>c. c = CHR ''.''); t = lower (rstrip_by is_dot (lstrip_by is_dot (strip name)))
      in if MAX_DOMAIN < length t \<or> t = [] \<or> \<not> list_all domain_char t then []
         else
           (let labels = filter (\<lambda>p. p \<noteq> []) (split_on CHR ''.'' t);
                final = (\<lambda>n. join_with CHR ''.'' (drop (length labels - n) labels))
            in if length labels \<le> 2 then join_with CHR ''.'' labels
               else if final 2 \<in> MAP_TWO_LEVEL_SUFFIXES \<and> 3 \<le> length labels then final 3
               else final 2))"

definition VENDOR_LABELS :: "(str, str) dict" where
  "VENDOR_LABELS = [
    (''amazon.com'', ''Amazon''), (''amazonaws.com'', ''Amazon Web Services''), (''amazontrust.com'', ''Amazon''),
    (''apple.com'', ''Apple''), (''icloud.com'', ''Apple iCloud''), (''mzstatic.com'', ''Apple''),
    (''epson.com'', ''Epson''), (''github.com'', ''GitHub''),
    (''google.com'', ''Google''), (''googleapis.com'', ''Google''), (''gstatic.com'', ''Google''), (''youtube.com'', ''YouTube''),
    (''microsoft.com'', ''Microsoft''), (''office365.com'', ''Microsoft 365''), (''windowsupdate.com'', ''Windows Update''),
    (''netflix.com'', ''Netflix''), (''nflxvideo.net'', ''Netflix''), (''nintendo.net'', ''Nintendo''),
    (''ring.com'', ''Ring''), (''samsungqbe.com'', ''Samsung''), (''samsungcloudsolution.com'', ''Samsung''),
    (''sonos.com'', ''Sonos''), (''spotify.com'', ''Spotify''), (''whatsapp.net'', ''WhatsApp''),
    (''tuya.com'', ''Tuya''), (''tuyaus.com'', ''Tuya''), (''espressif.com'', ''Espressif'')]"

definition cloud_label :: "str \<Rightarrow> str" where
  "cloud_label domain = (case dget VENDOR_LABELS domain of Some l \<Rightarrow> l | None \<Rightarrow> domain)"

lemma set_join_with: "set (join_with c ps) \<subseteq> insert c (\<Union> (set ` set ps))"
  by (induction c ps rule: join_with.induct) auto

text \<open>The name came in a packet: whatever was asked for, a domain on the map has host name characters only.\<close>

lemma asked_domain_chars: "c \<in> set (asked_domain name) \<Longrightarrow> domain_char c"
proof -
  define t where "t = lower (rstrip_by (\<lambda>c. c = CHR ''.'') (lstrip_by (\<lambda>c. c = CHR ''.'') (strip name)))"
  define labels where "labels = filter (\<lambda>p. p \<noteq> []) (split_on CHR ''.'' t)"
  assume c: "c \<in> set (asked_domain name)"
  have "p \<in> set labels \<Longrightarrow> set p \<subseteq> set t" for p unfolding labels_def using set_split_on by fastforce
  then have j: "set (join_with CHR ''.'' (drop n labels)) \<subseteq> insert CHR ''.'' (set t)" for n
    using set_join_with [of "CHR ''.''" "drop n labels"] by (force dest: in_set_dropD)
  from c j [of 0] j [of "length labels - 2"] j [of "length labels - 3"]
  have "list_all domain_char t \<and> c \<in> insert CHR ''.'' (set t)"
    unfolding asked_domain_def t_def [symmetric] labels_def [symmetric] Let_def
    by (auto split: if_splits)
  then show "domain_char c" by (auto simp: list_all_iff domain_char_def)
qed

section \<open>Services a device was seen offering\<close>

record provider =
  pv_device :: nat
  pv_key :: str
  pv_label :: str
  pv_phrase :: str
  pv_protocol :: "str option"
  pv_evidence :: str

definition service_node_id :: "nat \<Rightarrow> str \<Rightarrow> str" where
  "service_node_id d key = ''provider:'' @ dec_digits d @ '':'' @ key"

definition provider_node_id :: "provider \<Rightarrow> str" where
  "provider_node_id p = service_node_id (pv_device p) (pv_key p)"

text \<open>A rule gives key, label, phrase and protocol.\<close>

type_synonym provider_rule = "str \<times> str \<times> str \<times> str"

definition MDNS_PROVIDERS :: "(str, provider_rule) dict" where
  "MDNS_PROVIDERS = [
    (''_printer._tcp'', (''printing'', ''Printing'', ''printing'', ''lpd'')),
    (''_pdl-datastream._tcp'', (''printing'', ''Printing'', ''printing'', ''raw'')),
    (''_ipp._tcp'', (''printing'', ''Printing'', ''printing'', ''ipp'')),
    (''_ipps._tcp'', (''printing'', ''Printing'', ''printing'', ''ipps'')),
    (''_scanner._tcp'', (''scanning'', ''Scanning'', ''scanning'', ''mdns'')),
    (''_uscan._tcp'', (''scanning'', ''Scanning'', ''scanning'', ''esclp'')),
    (''_uscans._tcp'', (''scanning'', ''Scanning'', ''scanning'', ''esclp'')),
    (''_smb._tcp'', (''file_sharing'', ''File sharing'', ''file sharing'', ''smb'')),
    (''_afpovertcp._tcp'', (''file_sharing'', ''File sharing'', ''file sharing'', ''afp'')),
    (''_nfs._tcp'', (''file_sharing'', ''File sharing'', ''file sharing'', ''nfs'')),
    (''_airplay._tcp'', (''airplay'', ''AirPlay'', ''AirPlay'', ''airplay'')),
    (''_raop._tcp'', (''airplay'', ''AirPlay audio'', ''AirPlay audio'', ''raop'')),
    (''_googlecast._tcp'', (''cast'', ''Google Cast'', ''Google Cast'', ''cast'')),
    (''_spotify-connect._tcp'', (''spotify'', ''Spotify Connect'', ''Spotify Connect'', ''spotify'')),
    (''_sonos._tcp'', (''sonos'', ''Sonos playback'', ''Sonos playback'', ''sonos'')),
    (''_ssh._tcp'', (''ssh'', ''SSH access'', ''SSH access'', ''ssh'')),
    (''_sftp-ssh._tcp'', (''ssh'', ''SSH access'', ''SSH access'', ''sftp'')),
    (''_rfb._tcp'', (''remote_desktop'', ''Remote desktop'', ''remote desktop'', ''vnc''))]"

definition PORT_PROVIDERS :: "(nat \<times> str, provider_rule) dict" where
  "PORT_PROVIDERS = [
    ((515, ''tcp''), (''printing'', ''Printing'', ''printing'', ''lpd'')),
    ((631, ''tcp''), (''printing'', ''Printing'', ''printing'', ''ipp'')),
    ((9100, ''tcp''), (''printing'', ''Printing'', ''printing'', ''raw'')),
    ((445, ''tcp''), (''file_sharing'', ''File sharing'', ''file sharing'', ''smb'')),
    ((548, ''tcp''), (''file_sharing'', ''File sharing'', ''file sharing'', ''afp'')),
    ((2049, ''tcp''), (''file_sharing'', ''File sharing'', ''file sharing'', ''nfs'')),
    ((53, ''udp''), (''dns'', ''DNS resolution'', ''DNS resolution'', ''dns'')),
    ((53, ''tcp''), (''dns'', ''DNS resolution'', ''DNS resolution'', ''dns'')),
    ((554, ''tcp''), (''camera_stream'', ''Camera stream'', ''the camera stream'', ''rtsp'')),
    ((3389, ''tcp''), (''remote_desktop'', ''Remote desktop'', ''remote desktop'', ''rdp'')),
    ((5900, ''tcp''), (''remote_desktop'', ''Remote desktop'', ''remote desktop'', ''vnc'')),
    ((1883, ''tcp''), (''mqtt'', ''MQTT messaging'', ''MQTT messaging'', ''mqtt'')),
    ((8883, ''tcp''), (''mqtt'', ''MQTT messaging'', ''MQTT messaging'', ''mqtts''))]"

definition HUB_MDNS :: "str set" where
  "HUB_MDNS = {''_hap._tcp'', ''_hue._tcp'', ''_matter._tcp'', ''_matterc._udp'', ''_zigbee._tcp''}"

definition HUB_NAME_HINTS :: "str list" where
  "HUB_NAME_HINTS = [
    ''hue'', ''bridge'', ''smartthings'', ''hubitat'', ''deconz'', ''conbee'', ''zigbee'', ''zwave'', ''z-wave'',
    ''aqara'', ''lutron'', ''caseta'', ''homey'', ''bond'', ''harmony hub'']"

text \<open>\<open>_HUB_NAME_RE.search\<close>, on the text in lower case (the expression ignores case): a hint as a whole word.\<close>

definition word_char :: "char \<Rightarrow> bool" where
  "word_char c \<longleftrightarrow> is_lower c \<or> is_digit c"

fun hint_from :: "bool \<Rightarrow> str \<Rightarrow> bool" where
  "hint_from inside s =
     ((\<not> inside \<and> list_ex (\<lambda>h. prefix h s \<and> (case drop (length h) s of [] \<Rightarrow> True | c # _ \<Rightarrow> \<not> word_char c)) HUB_NAME_HINTS)
      \<or> (case s of [] \<Rightarrow> False | c # cs \<Rightarrow> hint_from (word_char c) cs))"

declare hint_from.simps [simp del]

definition hub_name :: "str \<Rightarrow> bool" where
  "hub_name haystack = hint_from False (lower haystack)"

text \<open>\<open>text.replace(".local", "")\<close>: leftmost occurrences first, without overlap.\<close>

function drop_text :: "str \<Rightarrow> str \<Rightarrow> str" where
  "drop_text pat [] = []"
| "drop_text pat (c # cs) =
     (if pat \<noteq> [] \<and> prefix pat (c # cs) then drop_text pat (drop (length pat) (c # cs)) else c # drop_text pat cs)"
  by pat_completeness auto
termination
  by (relation "measure (length \<circ> snd)") auto

definition service_type :: "str \<Rightarrow> str" where
  "service_type item = drop_text ''.local'' (rstrip_by (\<lambda>c. c = CHR ''.'') (lower (strip item)))"

definition mdns_types :: "(str \<Rightarrow> json option) \<Rightarrow> (json \<Rightarrow> str) \<Rightarrow> str option \<Rightarrow> str list" where
  "mdns_types json_loads py_str stored =
     (case stored of
        None \<Rightarrow> []
      | Some raw \<Rightarrow>
          if raw = [] then []
          else
            (let data = json_loads raw;
                 data = (case data of
                     Some (JObj d) \<Rightarrow> (case dget d ''mdns'' of Some j \<Rightarrow> if py_falsy j then None else Some j | None \<Rightarrow> None)
                   | _ \<Rightarrow> data)
             in case data of
                  Some (JList items) \<Rightarrow>
                    sort (remdups (filter (\<lambda>t. t \<noteq> []) (map (\<lambda>i. service_type (str_or py_str (Some i))) items)))
                | _ \<Rightarrow> []))"

definition HUB_EVIDENCE :: "str \<Rightarrow> str" where
  "HUB_EVIDENCE signal = (if signal = ''observed'' then ''advertises itself as a bridge or hub''
     else ''its vendor or hostname suggests a hub; nothing it advertised confirms it'')"

definition hub_signal :: "(str \<Rightarrow> json option) \<Rightarrow> (json \<Rightarrow> str) \<Rightarrow> device_info \<Rightarrow> str option" where
  "hub_signal json_loads py_str row =
     (if list_ex (\<lambda>t. t \<in> HUB_MDNS) (mdns_types json_loads py_str (dv_mdns row)) then Some ''observed''
      else if hub_name (join_with CHR '' '' (map (\<lambda>v. or_str v []) [dv_hostname row, dv_nickname row, dv_vendor row]))
           then Some ''assumed'' else None)"

definition hub_device_ids :: "(str \<Rightarrow> json option) \<Rightarrow> (json \<Rightarrow> str) \<Rightarrow> device_info list \<Rightarrow> nat list" where
  "hub_device_ids json_loads py_str rows = map dv_id (filter (\<lambda>r. hub_signal json_loads py_str r \<noteq> None) rows)"

record open_service =
  os_device :: nat
  os_port :: nat
  os_proto :: str
  os_state :: str

text \<open>\<open>add\<close>: label and phrase are those of the first sighting; protocols and evidence are gathered without repeats.\<close>

record provider_entry =
  pe_label :: str
  pe_phrase :: str
  pe_protocols :: "str list"
  pe_evidence :: "str list"

definition add_once :: "'a \<Rightarrow> 'a list \<Rightarrow> 'a list" where
  "add_once x xs = (if x \<in> set xs then xs else xs @ [x])"

definition add_provider :: "nat \<times> provider_rule \<times> str \<Rightarrow> (nat \<times> str, provider_entry) dict \<Rightarrow> (nat \<times> str, provider_entry) dict" where
  "add_provider seen found = (case seen of (d, (key, label, phrase, protocol), evidence) \<Rightarrow>
     (let entry = (case dget found (d, key) of Some e \<Rightarrow> e
          | None \<Rightarrow> \<lparr>pe_label = label, pe_phrase = phrase, pe_protocols = [], pe_evidence = []\<rparr>)
      in dset (d, key) (entry\<lparr>pe_protocols := add_once protocol (pe_protocols entry),
                               pe_evidence := add_once evidence (pe_evidence entry)\<rparr>) found))"

definition advertised :: "(str \<Rightarrow> json option) \<Rightarrow> (json \<Rightarrow> str) \<Rightarrow> device_info \<Rightarrow> (nat \<times> provider_rule \<times> str) list" where
  "advertised json_loads py_str row =
     List.map_filter (\<lambda>t. map_option (\<lambda>rule. (dv_id row, rule, ''advertises '' @ t)) (dget MDNS_PROVIDERS t))
       (mdns_types json_loads py_str (dv_mdns row))"

definition listening :: "open_service \<Rightarrow> (nat \<times> provider_rule \<times> str) option" where
  "listening s =
     map_option (\<lambda>rule. (os_device s, rule, ''listens on '' @ os_proto s @ ''/'' @ dec_digits (os_port s)))
       (dget PORT_PROVIDERS (os_port s, lower (if os_proto s = [] then ''tcp'' else os_proto s)))"

definition seen_services ::
  "(str \<Rightarrow> json option) \<Rightarrow> (json \<Rightarrow> str) \<Rightarrow> device_info list \<Rightarrow> open_service list \<Rightarrow> (nat \<times> provider_rule \<times> str) list" where
  "seen_services json_loads py_str rows services =
     concat (map (advertised json_loads py_str) (sort_key dv_id rows)) @
     List.map_filter listening
       (sort_key (\<lambda>s. (os_device s, os_port s, os_proto s)) (filter (\<lambda>s. os_state s = ''open'') services))"

definition provider_of :: "(nat \<times> str) \<times> provider_entry \<Rightarrow> provider" where
  "provider_of e = (case e of ((d, key), entry) \<Rightarrow>
     \<lparr>pv_device = d, pv_key = key, pv_label = pe_label entry, pv_phrase = pe_phrase entry,
      pv_protocol = (if pe_protocols entry = [] then None else Some (hd (sort (pe_protocols entry)))),
      pv_evidence = join_str '' and '' (pe_evidence entry)\<rparr>)"

definition providers ::
  "(str \<Rightarrow> json option) \<Rightarrow> (json \<Rightarrow> str) \<Rightarrow> device_info list \<Rightarrow> open_service list \<Rightarrow> provider list" where
  "providers json_loads py_str rows services =
     map provider_of (sort_key fst (fold add_provider (seen_services json_loads py_str rows services) []))"

end
