(* ===== verification/Topo_Owners.thy ===== *)
theory Topo_Owners
  imports Topo_Evidence
begin

text \<open>
  Who held which address, and when (\<open>AddressOwners\<close> and \<open>_address_owners\<close> in
  \<open>homesoc/topology/infer.py\<close>): the lease timeline DNS queries are attributed with, and what an
  attribution means. The index \<open>_index\<close> only remembers what \<open>owner_at\<close> computes from the spans.
\<close>

section \<open>The timeline\<close>

record sighting =
  sg_device :: nat
  sg_ip :: "str option"
  sg_at :: str

type_synonym run = "str \<times> str \<times> nat"

record lease_table =
  ow_spans :: "(str, run list) dict"
  ow_current :: "(str, nat) dict"

definition overlapping :: "run list \<Rightarrow> bool" where
  "overlapping runs = list_ex (\<lambda>(r, r'). fst r' \<le> fst (snd r)) (zip runs (tl runs))"

text \<open>\<open>bisect.bisect_right\<close> on an ascending list.\<close>

definition bisect_right :: "str list \<Rightarrow> str \<Rightarrow> nat" where
  "bisect_right items x = length (takeWhile (\<lambda>i. i \<le> x) items)"

definition owner_at :: "lease_table \<Rightarrow> str \<Rightarrow> str \<Rightarrow> nat option" where
  "owner_at ow address ts =
     (let runs = (case dget (ow_spans ow) address of Some rs \<Rightarrow> rs | None \<Rightarrow> [])
      in if runs = [] then dget (ow_current ow) address
         else if length runs = 1 then Some (snd (snd (hd runs)))
         else if overlapping runs then None
         else
           (let position = bisect_right (map fst runs) ts
            in if position = 0 then None else Some (snd (snd (runs ! (position - 1))))))"

definition holders :: "lease_table \<Rightarrow> str \<Rightarrow> nat set" where
  "holders ow address = (\<lambda>r. snd (snd r)) ` set (case dget (ow_spans ow) address of Some rs \<Rightarrow> rs | None \<Rightarrow> [])"

text \<open>The grouped query: the sightings of one address in the window, and its runs.\<close>

definition seen_at :: "str \<Rightarrow> sighting list \<Rightarrow> str \<Rightarrow> (nat \<times> str) list" where
  "seen_at since sightings address =
     map (\<lambda>s. (sg_device s, sg_at s)) (filter (\<lambda>s. since \<le> sg_at s \<and> sg_ip s = Some address) sightings)"

definition stamps_of :: "(nat \<times> str) list \<Rightarrow> nat \<Rightarrow> str set" where
  "stamps_of seen d = snd ` set (filter (\<lambda>x. fst x = d) seen)"

definition runs_of :: "(nat \<times> str) list \<Rightarrow> run list" where
  "runs_of seen = sort (map (\<lambda>d. (Min (stamps_of seen d), Max (stamps_of seen d), d)) (remdups (map fst seen)))"

definition address_owners :: "str \<Rightarrow> sighting list \<Rightarrow> device_info list \<Rightarrow> lease_table" where
  "address_owners since sightings rows =
     (let used = (\<lambda>v. case v of Some t \<Rightarrow> t \<noteq> [] | None \<Rightarrow> False)
      in \<lparr>ow_spans = map (\<lambda>a. (a, runs_of (seen_at since sightings a)))
            (sort (remdups (map (\<lambda>s. the (sg_ip s)) (filter (\<lambda>s. since \<le> sg_at s \<and> used (sg_ip s)) sightings)))),
          ow_current = fold (\<lambda>r. dset (the (dv_ip r)) (dv_id r)) (filter (\<lambda>r. used (dv_ip r)) (sort_key dv_id rows)) []\<rparr>)"

definition device_ip_map :: "lease_table \<Rightarrow> (str, nat) dict" where
  "device_ip_map ow =
     fold (\<lambda>(a, d). dset a d) (ow_current ow)
       (fold (\<lambda>(a, rs) out. if rs = [] then out else dset a (snd (snd (last rs))) out) (ow_spans ow) [])"

section \<open>What an attribution means\<close>

text \<open>Two holders can be told apart when one had its last sighting before the other had its first.\<close>

definition told_apart :: "(nat \<times> str) set \<Rightarrow> bool" where
  "told_apart S \<longleftrightarrow> (\<forall>d d'. d \<noteq> d' \<longrightarrow>
     (\<forall>x y. (d, x) \<in> S \<longrightarrow> (d', y) \<in> S \<longrightarrow> x < y) \<or> (\<forall>x y. (d, x) \<in> S \<longrightarrow> (d', y) \<in> S \<longrightarrow> y < x))"

text \<open>The lease at \<open>ts\<close>: seen by then, and every other holder was seen only before it or after \<open>ts\<close>.\<close>

definition leased_to :: "(nat \<times> str) set \<Rightarrow> nat \<Rightarrow> str \<Rightarrow> bool" where
  "leased_to S d ts \<longleftrightarrow> (\<exists>x. (d, x) \<in> S \<and> x \<le> ts) \<and>
     (\<forall>d' y. (d', y) \<in> S \<longrightarrow> d' \<noteq> d \<longrightarrow> (\<forall>x. (d, x) \<in> S \<longrightarrow> y < x) \<or> ts < y)"

lemma overlapping_Cons:
  "overlapping (r # r' # rs) \<longleftrightarrow> fst r' \<le> fst (snd r) \<or> overlapping (r' # rs)" "\<not> overlapping [r]" "\<not> overlapping []"
  by (simp_all add: overlapping_def)

lemma apart_chain:
  assumes "\<not> overlapping runs" and "\<forall>r\<in>set runs. fst r \<le> fst (snd r)"
  shows "sorted_wrt (\<lambda>r r'. fst (snd r) < fst r') runs"
  using assms
proof (induction runs rule: induct_list012)
  case (3 r r' rs)
  then have chain: "sorted_wrt (\<lambda>r r'. fst (snd r) < fst r') (r' # rs)" and "fst (snd r) < fst r'"
    by (auto simp: overlapping_Cons)
  moreover have "fst (snd r) < fst q" if "q \<in> set rs" for q
  proof -
    have "fst r' \<le> fst (snd r')" using 3(4) by simp
    also have "fst (snd r') < fst q" using chain that by simp
    finally show ?thesis using \<open>fst (snd r) < fst r'\<close> by simp
  qed
  ultimately show ?case by auto
qed auto

lemma overlap_pair:
  "overlapping runs \<Longrightarrow> \<exists>i. Suc i < length runs \<and> fst (runs ! Suc i) \<le> fst (snd (runs ! i))"
proof -
  assume "overlapping runs"
  then obtain n where "n < length runs" "n < length (tl runs)" "fst (tl runs ! n) \<le> fst (snd (runs ! n))"
    by (auto simp: overlapping_def list_ex_iff in_set_zip)
  then show ?thesis by (intro exI [of _ n]) (simp add: nth_tl)
qed

lemma finite_stamps [simp]: "finite (stamps_of seen d)" and stamps_iff: "x \<in> stamps_of seen d \<longleftrightarrow> (d, x) \<in> set seen"
  by (force simp: stamps_of_def)+

lemma set_runs: "set (runs_of seen) = (\<lambda>d. (Min (stamps_of seen d), Max (stamps_of seen d), d)) ` fst ` set seen"
  by (simp add: runs_of_def)

lemma run_bounds:
  assumes "(f, t, d) \<in> set (runs_of seen)"
  shows "(d, f) \<in> set seen" and "(d, t) \<in> set seen" and "(d, x) \<in> set seen \<Longrightarrow> f \<le> x \<and> x \<le> t"
proof -
  have e: "f = Min (stamps_of seen d)" "t = Max (stamps_of seen d)" and "d \<in> fst ` set seen" using assms by (auto simp: set_runs)
  then have "stamps_of seen d \<noteq> {}" by (force simp: stamps_iff)
  then show "(d, f) \<in> set seen" "(d, t) \<in> set seen"
    using Min_in [of "stamps_of seen d"] Max_in [of "stamps_of seen d"] by (simp_all add: e stamps_iff [symmetric])
  show "(d, x) \<in> set seen \<Longrightarrow> f \<le> x \<and> x \<le> t" by (simp add: e stamps_iff [symmetric])
qed

lemma run_device_inj:
  assumes "i < length (runs_of seen)" "j < length (runs_of seen)" "snd (snd (runs_of seen ! i)) = snd (snd (runs_of seen ! j))"
  shows "i = j"
proof -
  have "distinct (map (\<lambda>r. snd (snd r)) (map (\<lambda>d. (Min (stamps_of seen d), Max (stamps_of seen d), d)) (remdups (map fst seen))))"
    by (simp add: comp_def)
  then have "distinct (map (\<lambda>r. snd (snd r)) (runs_of seen))"
    unfolding runs_of_def by (simp only: distinct_map distinct_sort set_sort)
  with assms show ?thesis by (metis length_map nth_eq_iff_index_eq nth_map)
qed

lemma run_of_device:
  assumes "(d, x) \<in> set seen"
  obtains i f t where "i < length (runs_of seen)" "runs_of seen ! i = (f, t, d)" "f \<le> x" "x \<le> t"
proof -
  have "d \<in> fst ` set seen" using assms by force
  then obtain f t where "(f, t, d) \<in> set (runs_of seen)" by (auto simp: set_runs)
  with run_bounds(3) [OF this assms] show thesis using that by (metis in_set_conv_nth)
qed

lemma runs_told_apart: "told_apart (set seen) \<longleftrightarrow> \<not> overlapping (runs_of seen)"
proof
  assume apart: "told_apart (set seen)"
  show "\<not> overlapping (runs_of seen)"
  proof
    assume "overlapping (runs_of seen)"
    then obtain i where i: "Suc i < length (runs_of seen)" "fst (runs_of seen ! Suc i) \<le> fst (snd (runs_of seen ! i))"
      using overlap_pair by blast
    obtain f t d f' t' d' where r: "runs_of seen ! i = (f, t, d)" "runs_of seen ! Suc i = (f', t', d')" by (metis prod_cases3)
    have "sorted (runs_of seen)" by (simp add: runs_of_def)
    then have "runs_of seen ! i \<le> runs_of seen ! Suc i" using i(1) by (simp add: sorted_iff_nth_mono)
    then have ff: "f \<le> f'" using r by (auto simp: less_eq_prod_def)
    have "d \<noteq> d'" using run_device_inj [of i seen "Suc i"] i(1) r by auto
    moreover have "(d, f) \<in> set seen" "(d, t) \<in> set seen" "(d', f') \<in> set seen"
      using run_bounds(1,2) [of f t d seen] run_bounds(1) [of f' t' d' seen] i(1) r by (metis Suc_lessD nth_mem)+
    ultimately have "t < f' \<or> f' < f" using apart unfolding told_apart_def by blast
    with i(2) ff r show False by auto
  qed
next
  assume "\<not> overlapping (runs_of seen)"
  moreover have "\<forall>r\<in>set (runs_of seen). fst r \<le> fst (snd r)" using run_bounds(2,3) by fastforce
  ultimately have chain: "sorted_wrt (\<lambda>r r'. fst (snd r) < fst r') (runs_of seen)" by (rule apart_chain)
  show "told_apart (set seen)"
    unfolding told_apart_def
  proof (intro allI impI)
    fix d d' :: nat assume "d \<noteq> d'"
    have before: "x < y" if "i < j" "j < length (runs_of seen)" "runs_of seen ! i = (f, t, d1)" "runs_of seen ! j = (f', t', d2)"
      "(d1, x) \<in> set seen" "(d2, y) \<in> set seen" for i j f t d1 f' t' d2 x y
    proof -
      have "t < f'" using sorted_wrt_nth_less [OF chain that(1,2)] that(3,4) by simp
      moreover have "x \<le> t" "f' \<le> y" using run_bounds(3) that by (metis less_trans nth_mem)+
      ultimately show ?thesis by simp
    qed
    show "(\<forall>x y. (d, x) \<in> set seen \<longrightarrow> (d', y) \<in> set seen \<longrightarrow> x < y) \<or> (\<forall>x y. (d, x) \<in> set seen \<longrightarrow> (d', y) \<in> set seen \<longrightarrow> y < x)"
    proof (cases "(\<exists>x. (d, x) \<in> set seen) \<and> (\<exists>y. (d', y) \<in> set seen)")
      case True
      then obtain i f t j f' t' where r: "i < length (runs_of seen)" "runs_of seen ! i = (f, t, d)"
        "j < length (runs_of seen)" "runs_of seen ! j = (f', t', d')" by (metis run_of_device)
      then have "i \<noteq> j" using \<open>d \<noteq> d'\<close> by auto
      then consider "i < j" | "j < i" by linarith
      then show ?thesis using before r by cases blast+
    qed auto
  qed
qed

text \<open>The run \<open>bisect\<close> picks is the lease at \<open>ts\<close>.\<close>

lemma bisect_right_bounds:
  assumes "sorted starts"
  shows "k < bisect_right starts ts \<longleftrightarrow> k < length starts \<and> starts ! k \<le> ts"
proof -
  have "k < length starts \<and> starts ! k \<le> ts \<Longrightarrow> \<forall>i\<le>k. starts ! i \<le> ts"
    using assms by (meson le_less_trans order_trans sorted_nth_mono)
  moreover have "k < length (takeWhile (\<lambda>i. i \<le> ts) starts) \<Longrightarrow> k < length starts \<and> starts ! k \<le> ts"
    by (metis length_takeWhile_le less_le_trans nth_mem set_takeWhileD takeWhile_nth)
  moreover have "k < length starts \<Longrightarrow> \<forall>i\<le>k. starts ! i \<le> ts \<Longrightarrow> k < length (takeWhile (\<lambda>i. i \<le> ts) starts)"
    by (metis leD le_less_linear nth_length_takeWhile order_le_less_trans)
  ultimately show ?thesis unfolding bisect_right_def by blast
qed

lemma leased_to_picked:
  assumes apart: "told_apart (set seen)" and "\<not> overlapping (runs_of seen)"
  shows "leased_to (set seen) d ts \<longleftrightarrow>
     (let p = bisect_right (map fst (runs_of seen)) ts in p \<noteq> 0 \<and> snd (snd (runs_of seen ! (p - 1))) = d)"
proof -
  let ?runs = "runs_of seen" and ?p = "bisect_right (map fst (runs_of seen)) ts"
  have mono: "sorted (map fst ?runs)"
  proof -
    have "sorted ?runs" by (simp add: runs_of_def)
    then show ?thesis by (auto simp: sorted_iff_nth_mono less_eq_prod_def) (metis le_less order_less_imp_le)
  qed
  note pick = bisect_right_bounds [OF mono, of _ ts]
  have chain: "sorted_wrt (\<lambda>r r'. fst (snd r) < fst r') ?runs"
    using assms(2) run_bounds(2,3) by (intro apart_chain) fastforce+
  have before: "y < x" if "i < j" "j < length ?runs" "?runs ! i = (f, t, d1)" "?runs ! j = (f', t', d2)"
      "(d1, y) \<in> set seen" "(d2, x) \<in> set seen" for i j f t d1 f' t' d2 x y
  proof -
    have "t < f'" using sorted_wrt_nth_less [OF chain that(1,2)] that(3,4) by simp
    moreover have "y \<le> t" "f' \<le> x" using run_bounds(3) that by (metis less_trans nth_mem)+
    ultimately show ?thesis by simp
  qed
  show ?thesis
  proof
    assume leased: "leased_to (set seen) d ts"
    then obtain x where x: "(d, x) \<in> set seen" "x \<le> ts" by (auto simp: leased_to_def)
    obtain k f t where k: "k < length ?runs" "?runs ! k = (f, t, d)" "f \<le> x" using x(1) by (rule run_of_device)
    then have "k < ?p" using x(2) by (simp add: pick)
    moreover have "\<not> Suc k < ?p"
    proof
      assume "Suc k < ?p"
      then have "Suc k < length (map fst ?runs) \<and> map fst ?runs ! Suc k \<le> ts" by (simp only: pick)
      then have j: "Suc k < length ?runs" "fst (?runs ! Suc k) \<le> ts" by auto
      obtain f' t' d' where r: "?runs ! Suc k = (f', t', d')" by (metis prod_cases3)
      have seen': "(d', f') \<in> set seen" using run_bounds(1) r j(1) by (metis nth_mem)
      have "d' \<noteq> d" using run_device_inj [of "Suc k" seen k] r k(1,2) j(1) by auto
      then have "f' < x \<or> ts < f'" using leased seen' x(1) unfolding leased_to_def by blast
      moreover have "x < f'" using before [of k "Suc k" f t d f' t' d'] j(1) k(2) r x(1) seen' by simp
      ultimately show False using j(2) r by auto
    qed
    ultimately have "?p = Suc k" by simp
    with k(2) show "let p = ?p in p \<noteq> 0 \<and> snd (snd (?runs ! (p - 1))) = d" by simp
  next
    assume "let p = ?p in p \<noteq> 0 \<and> snd (snd (?runs ! (p - 1))) = d"
    then have p: "?p \<noteq> 0" "snd (snd (?runs ! (?p - 1))) = d" by (simp_all add: Let_def)
    then have k: "?p - 1 < length ?runs" "fst (?runs ! (?p - 1)) \<le> ts" using pick [of "?p - 1"] by auto
    obtain f t where r: "?runs ! (?p - 1) = (f, t, d)" using p(2) by (metis prod.collapse)
    have f: "(d, f) \<in> set seen" using run_bounds(1) r k(1) by (metis nth_mem)
    show "leased_to (set seen) d ts"
      unfolding leased_to_def
    proof (intro conjI allI impI)
      show "\<exists>x. (d, x) \<in> set seen \<and> x \<le> ts" using f k(2) r by auto
      fix d' y assume y: "(d', y) \<in> set seen" "d' \<noteq> d"
      obtain j f' t' where j: "j < length ?runs" "?runs ! j = (f', t', d')" "f' \<le> y" using y(1) by (rule run_of_device)
      have "j \<noteq> ?p - 1" using j(2) r y(2) by auto
      then consider "j < ?p - 1" | "?p \<le> j" by linarith
      then show "(\<forall>x. (d, x) \<in> set seen \<longrightarrow> y < x) \<or> ts < y"
      proof cases
        case 1
        then show ?thesis using before [of j "?p - 1" f' t' d' f t d] k(1) j(2) r y(1) by blast
      next
        case 2
        then have "\<not> fst (?runs ! j) \<le> ts" using pick [of j] j(1) by auto
        then have "ts < y" using j(2,3) by auto
        then show ?thesis ..
      qed
    qed
  qed
qed

lemma length_runs: "length (runs_of seen) = card (fst ` set seen)"
  by (simp add: runs_of_def length_remdups_card_conv)

lemma runs_Nil [simp]: "runs_of seen = [] \<longleftrightarrow> seen = []"
  using length_runs [of seen] by (metis List.finite_set card_0_eq finite_imageI image_is_empty length_0_conv set_empty)

lemma runs_of_Nil [simp]: "runs_of [] = []"
  by simp

lemma spans_lookup:
  assumes "address \<noteq> []"
  shows "(case dget (ow_spans (address_owners since sightings rows)) address of Some rs \<Rightarrow> rs | None \<Rightarrow> []) =
     runs_of (seen_at since sightings address)"
proof -
  have m: "dget (map (\<lambda>a. (a, g a)) as) a = (if a \<in> set as then Some (g a) else None)" for as :: "str list" and a and g :: "str \<Rightarrow> run list"
    by (induction as) (auto simp: dget_Cons)
  have "seen_at since sightings address = []" if "address \<notin>
      (\<lambda>s. the (sg_ip s)) ` {s \<in> set sightings. since \<le> sg_at s \<and> (case sg_ip s of None \<Rightarrow> False | Some t \<Rightarrow> t \<noteq> [])}"
    using that assms by (force simp: seen_at_def filter_empty_conv)
  then show ?thesis by (auto simp: address_owners_def m Let_def)
qed

text \<open>One holder owns the address; several own it exactly as the leases say; none leaves today's holder.\<close>

lemma owner_cases:
  fixes since :: str and sightings :: "sighting list" and rows :: "device_info list"
  assumes "address \<noteq> []"
  defines "ow \<equiv> address_owners since sightings rows" and "seen \<equiv> seen_at since sightings address"
  shows "owner_at ow address ts =
     (if seen = [] then dget (ow_current ow) address
      else if card (fst ` set seen) = 1 then Some (fst (hd seen))
      else if told_apart (set seen) \<and> (\<exists>d. leased_to (set seen) d ts) then Some (THE d. leased_to (set seen) d ts)
      else None)"
proof -
  let ?runs = "runs_of seen"
  have runs: "(case dget (ow_spans ow) address of Some rs \<Rightarrow> rs | None \<Rightarrow> []) = ?runs"
    unfolding ow_def seen_def by (rule spans_lookup [OF assms(1)])
  note len = length_runs [of seen]
  show ?thesis
  proof (cases "seen = []")
    case True
    then show ?thesis by (simp add: owner_at_def runs Let_def)
  next
    case False
    then have ne: "?runs \<noteq> []" by simp
    show ?thesis
    proof (cases "length ?runs = 1")
      case True
      then obtain f t d where r: "?runs = [(f, t, d)]" by (metis One_nat_def length_0_conv length_Suc_conv prod_cases3)
      have "(fst (hd seen), snd (hd seen)) \<in> set seen" using False by simp
      then obtain i f' t' where "i < length ?runs" "?runs ! i = (f', t', fst (hd seen))" by (rule run_of_device)
      then have "fst (hd seen) = d" using r by simp
      then show ?thesis using False True len ne r by (simp add: owner_at_def runs Let_def)
    next
      case several: False
      show ?thesis
      proof (cases "told_apart (set seen)")
        case True
        then have apart: "\<not> overlapping ?runs" by (simp add: runs_told_apart)
        note picked = leased_to_picked [OF True apart, of _ ts, unfolded Let_def]
        show ?thesis
          using False True several ne len apart by (simp add: owner_at_def runs Let_def picked)
      next
        case same: False
        then have "overlapping ?runs" by (simp add: runs_told_apart)
        then show ?thesis using False several ne len same by (simp add: owner_at_def runs Let_def)
      qed
    qed
  qed
qed


definition example_sightings :: "sighting list" where
  "example_sightings =
     [\<lparr>sg_device = 1, sg_ip = Some ''10.0.0.5'', sg_at = ''2026-09-13T20:05:00Z''\<rparr>,
      \<lparr>sg_device = 2, sg_ip = Some ''10.0.0.5'', sg_at = ''2026-09-13T21:10:00Z''\<rparr>]"

lemma example_owner:
  "owner_at (address_owners ''2026-09-10'' example_sightings []) ''10.0.0.5'' ''2026-09-13T21:50:00Z'' = Some 2"
  "owner_at (address_owners ''2026-09-10'' example_sightings []) ''10.0.0.5'' ''2026-09-13T21'' = Some 1"
  "set (seen_at ''2026-09-10'' example_sightings ''10.0.0.5'') = {(1, ''2026-09-13T20:05:00Z''), (2, ''2026-09-13T21:10:00Z'')}"
  by code_simp+

lemma example_leased: "leased_to (set (seen_at ''2026-09-10'' example_sightings ''10.0.0.5'')) 2 ''2026-09-13T21:50:00Z''"
proof -
  have "''2026-09-13T20:05:00Z'' < ''2026-09-13T21:10:00Z''" and "''2026-09-13T21:10:00Z'' \<le> ''2026-09-13T21:50:00Z''" by code_simp+
  then show ?thesis by (auto simp: leased_to_def example_owner(3))
qed


end
