(* ===== verification/Topo_Infer.thy ===== *)
theory Topo_Infer
  imports Topo_Owners
begin

text \<open>
  Where edges come from (second half of \<open>homesoc/topology/infer.py\<close>): the shared context, the six
  edge sources, the merge every edge goes through, the nodes that are not devices, and \<open>infer_all\<close>.

  The tables read are the arguments collected in \<open>topo_db\<close>; \<open>tp_config_gateway\<close> and
  \<open>tp_config_cidr\<close> are what the loaded configuration says (\<open>None\<close>: loading it raised). The em
  dash of labels and evidence is written as a hyphen.
\<close>

section \<open>The context\<close>

record dns_row =
  dq_ts :: str
  dq_client :: str
  dq_qname :: str
  dq_action :: str

record topo_db =
  tp_devices :: "device_info list"
  tp_sightings :: "sighting list"
  tp_services :: "open_service list"
  tp_queries :: "dns_row list"
  tp_settings :: "(str, str) dict"
  tp_config_gateway :: "str option"
  tp_config_cidr :: "str option"
  tp_outages :: outage_db
  tp_loads :: "str \<Rightarrow> json option"
  tp_py_str :: "json \<Rightarrow> str"

definition get_setting :: "(str, str) dict \<Rightarrow> str \<Rightarrow> str" where
  "get_setting settings key = (case dget settings key of Some v \<Rightarrow> v | None \<Rightarrow> [])"

definition not_auto :: "str \<Rightarrow> bool" where
  "not_auto s \<longleftrightarrow> s \<noteq> [] \<and> lower s \<noteq> ''auto''"

text \<open>\<open>gateway_device\<close> on the rows ordered by id.\<close>

definition configured_gateway :: "topo_db \<Rightarrow> str" where
  "configured_gateway db =
     (let c = (case tp_config_gateway db of
          None \<Rightarrow> []
        | Some g \<Rightarrow> (let raw = strip (if g = [] then ''auto'' else g) in if lower raw \<noteq> ''auto'' then raw else []))
      in if c = [] then strip (get_setting (tp_settings db) ''network.gateway'') else c)"

definition gateway_device :: "topo_db \<Rightarrow> device_info option \<times> str" where
  "gateway_device db =
     (let rows = sort_key dv_id (tp_devices db); c = configured_gateway db;
          routed = (if not_auto c then List.find (\<lambda>r. or_str (dv_ip r) [] = c) rows else None)
      in case routed of
           Some r \<Rightarrow> (Some r, ''inferred'')
         | None \<Rightarrow> (List.find (\<lambda>r. lower (or_str (dv_kind r) []) \<in> {''router'', ''gateway''}) rows, ''assumed''))"

record infer_ctx =
  ic_hours :: int
  ic_cloud :: bool
  ic_since :: str
  ic_gateway :: "nat option"
  ic_confidence :: str
  ic_owners :: lease_table
  ic_rows :: "device_info list"
  ic_providers :: "provider list"
  ic_resolver :: bool
  ic_triggers :: "(nat \<times> nat, nat) dict"
  ic_trigger_counts :: "(nat, nat) dict"

definition build_context :: "topo_db \<Rightarrow> int \<Rightarrow> bool \<Rightarrow> str \<Rightarrow> infer_ctx" where
  "build_context db hours include_cloud since =
     (let (gateway, confidence) = gateway_device db;
          dns_enabled = lower (get_setting (tp_settings db) ''dns.enabled'') \<in> {''1'', ''true'', ''yes'', ''on''};
          has_queries = list_ex (\<lambda>q. since \<le> dq_ts q) (tp_queries db)
      in \<lparr>ic_hours = hours, ic_cloud = include_cloud, ic_since = since,
          ic_gateway = map_option dv_id gateway, ic_confidence = confidence,
          ic_owners = address_owners since (tp_sightings db) (tp_devices db),
          ic_rows = sort_key dv_id (tp_devices db),
          ic_providers = providers (tp_loads db) (tp_py_str db) (tp_devices db) (tp_services db),
          ic_resolver = has_queries \<or> dns_enabled,
          ic_triggers = trigger_members True (tp_outages db),
          ic_trigger_counts = trigger_counts True (tp_outages db)\<rparr>)"

section \<open>The subnet of the gateway\<close>

datatype ip_net = Net4 nat nat | Net6 nat nat

text \<open>\<open>ipaddress.ip_network(text, strict=False)\<close>; \<open>None\<close>: it raises.\<close>

definition ip_network :: "str \<Rightarrow> ip_net option" where
  "ip_network text =
     (case ip_network_v4 text of
        Some (b, l) \<Rightarrow> Some (Net4 b l)
      | None \<Rightarrow> (case split_on CHR ''/'' text of
            [a] \<Rightarrow> map_option (\<lambda>v. Net6 v 128) (parse_ipv6 a)
          | [a, m] \<Rightarrow> (if m \<noteq> [] \<and> list_all is_digit m \<and> dec_val m \<le> 128
              then map_option (\<lambda>v. Net6 (v div 2 ^ (128 - dec_val m) * 2 ^ (128 - dec_val m)) (dec_val m)) (parse_ipv6 a)
              else None)
          | _ \<Rightarrow> None))"

definition in_network :: "ip \<Rightarrow> ip_net \<Rightarrow> bool" where
  "in_network x n = (case (x, n) of
     (V4 a, Net4 b l) \<Rightarrow> in_net 32 b l a | (V6 a, Net6 b l) \<Rightarrow> in_net 128 b l a | _ \<Rightarrow> False)"

definition own_network :: "ip \<Rightarrow> ip_net" where
  "own_network x = (case x of V4 a \<Rightarrow> Net4 (a div 2 ^ 8 * 2 ^ 8) 24 | V6 a \<Rightarrow> Net6 (a div 2 ^ 64 * 2 ^ 64) 64)"

definition gateway_subnet :: "topo_db \<Rightarrow> infer_ctx \<Rightarrow> ip_net option" where
  "gateway_subnet db ctx =
     (let stored = strip (get_setting (tp_settings db) ''network.cidr'');
          configured = (if stored = [] then (case tp_config_cidr db of Some c \<Rightarrow> strip c | None \<Rightarrow> []) else stored)
      in case (if not_auto configured then ip_network configured else None) of
           Some n \<Rightarrow> Some n
         | None \<Rightarrow> (case List.find (\<lambda>r. Some (dv_id r) = ic_gateway ctx) (ic_rows ctx) of
               None \<Rightarrow> None
             | Some row \<Rightarrow> map_option own_network (ip_address (or_str (dv_ip row) []))))"

definition shares_subnet :: "str \<Rightarrow> ip_net option \<Rightarrow> bool" where
  "shares_subnet ip subnet =
     (case ip_address ip of
        None \<Rightarrow> False
      | Some a \<Rightarrow>
          if ip_is_loopback a \<or> (case a of V4 n \<Rightarrow> n = 0 | V6 n \<Rightarrow> n = 0) \<or> ip_is_multicast a then False
          else (case subnet of None \<Rightarrow> True | Some n \<Rightarrow> in_network a n))"

section \<open>Edge sources\<close>

definition INTERNET_ID :: str where "INTERNET_ID = ''internet''"
definition RESOLVER_ID :: str where "RESOLVER_ID = ''resolver''"
definition BUCKET_CHARS :: nat where "BUCKET_CHARS = 13"

definition cloud_node_id :: "str \<Rightarrow> str" where
  "cloud_node_id domain = ''cloud:'' @ domain"

definition gateway_evidence :: "str \<Rightarrow> str" where
  "gateway_evidence confidence = (if confidence = ''inferred'' then ''the default route for this subnet''
     else ''the only device on this subnet that identifies itself as a router'')"

definition gateway_edges :: "topo_db \<Rightarrow> infer_ctx \<Rightarrow> edge list" where
  "gateway_edges db ctx =
     (case ic_gateway ctx of
        None \<Rightarrow> []
      | Some g \<Rightarrow>
          (let subnet = gateway_subnet db ctx
           in map (\<lambda>r. \<lparr>ed_src = device_node_id (dv_id r), ed_dst = device_node_id g, ed_type = ''gateway'', ed_protocol = None,
                ed_confidence = ic_confidence ctx, ed_evidence = gateway_evidence (ic_confidence ctx), ed_count = 0\<rparr>)
              (filter (\<lambda>r. dv_id r \<noteq> g \<and> shares_subnet (or_str (dv_ip r) []) subnet) (ic_rows ctx))))"

definition internet_edges :: "topo_db \<Rightarrow> infer_ctx \<Rightarrow> edge list" where
  "internet_edges db ctx =
     (case ic_gateway ctx of
        None \<Rightarrow> []
      | Some g \<Rightarrow> [\<lparr>ed_src = device_node_id g, ed_dst = INTERNET_ID, ed_type = ''internet'', ed_protocol = None,
          ed_confidence = ''inferred'', ed_evidence = ''devices reach the internet only through the gateway'', ed_count = 0\<rparr>]) @
     (if ic_resolver ctx then [\<lparr>ed_src = RESOLVER_ID, ed_dst = INTERNET_ID, ed_type = ''internet'', ed_protocol = Some ''dns'',
          ed_confidence = ''inferred'',
          ed_evidence = ''the resolver forwards anything it cannot answer to its upstreams'', ed_count = 0\<rparr>]
      else [])"

definition window_words :: "int \<Rightarrow> str" where
  "window_words hours =
     (let h = nat (max 1 hours) in if h < 48 then dec_digits h @ '' hours'' else dec_digits (h div 24) @ '' days'')"

text \<open>\<open>GROUP BY ... ORDER BY\<close> with \<open>COUNT(*)\<close>: the distinct keys in order, with their multiplicity.\<close>

definition group_counts :: "'k::linorder list \<Rightarrow> ('k \<times> nat) list" where
  "group_counts keys = map (\<lambda>k. (k, count_list keys k)) (sort (remdups keys))"

definition hour_bucket :: "dns_row \<Rightarrow> str" where
  "hour_bucket q = take BUCKET_CHARS (dq_ts q)"

definition in_window :: "str \<Rightarrow> dns_row list \<Rightarrow> dns_row list" where
  "in_window since queries = filter (\<lambda>q. since \<le> dq_ts q) queries"

definition client_buckets :: "str \<Rightarrow> dns_row list \<Rightarrow> ((str \<times> str) \<times> nat) list" where
  "client_buckets since queries = group_counts (map (\<lambda>q. (dq_client q, hour_bucket q)) (in_window since queries))"

definition add_count :: "'k \<Rightarrow> nat \<Rightarrow> ('k, nat) dict \<Rightarrow> ('k, nat) dict" where
  "add_count k n d = dset k (num_at d k + n) d"

definition dns_edge :: "int \<Rightarrow> nat \<times> nat \<Rightarrow> edge" where
  "dns_edge hours dn = (case dn of (d, n) \<Rightarrow>
     \<lparr>ed_src = device_node_id d, ed_dst = RESOLVER_ID, ed_type = ''dns'', ed_protocol = Some ''dns'', ed_confidence = ''observed'',
      ed_evidence = dec_digits n @ '' DNS quer'' @ (if n = 1 then ''y'' else ''ies'') @ '' in the last '' @ window_words hours,
      ed_count = n\<rparr>)"

definition client_counts :: "infer_ctx \<Rightarrow> dns_row list \<Rightarrow> (nat, nat) dict" where
  "client_counts ctx queries =
     fold (\<lambda>((client, bucket), n) counts. case owner_at (ic_owners ctx) client bucket of
         None \<Rightarrow> counts | Some d \<Rightarrow> add_count d n counts) (client_buckets (ic_since ctx) queries) []"

definition dns_edges :: "topo_db \<Rightarrow> infer_ctx \<Rightarrow> edge list" where
  "dns_edges db ctx =
     (if \<not> ic_resolver ctx then []
      else map (dns_edge (ic_hours ctx)) (sort_key fst (client_counts ctx (tp_queries db))))"

text \<open>\<open>cloud_edges\<close>: a tally entry is (answered, blocked).\<close>

definition tally_query :: "lease_table \<Rightarrow> (str \<times> str \<times> str \<times> str) \<times> nat \<Rightarrow> (nat \<times> str, nat \<times> nat) dict \<Rightarrow> (nat \<times> str, nat \<times> nat) dict" where
  "tally_query ow row tab = (case row of ((client, bucket, qname, action), n) \<Rightarrow>
     (case owner_at ow client bucket of
        None \<Rightarrow> tab
      | Some d \<Rightarrow>
          (let domain = asked_domain qname
           in if domain = [] \<or> CHR ''.'' \<notin> set domain then tab
              else
                (let (allowed, blocked) = (case dget tab (d, domain) of Some ab \<Rightarrow> ab | None \<Rightarrow> (0, 0))
                 in dset (d, domain)
                      (if action = ''block'' then (allowed, blocked + n)
                       else if action \<in> {''allow'', ''cache''} then (allowed + n, blocked) else (allowed, blocked)) tab))))"

definition query_groups :: "str \<Rightarrow> dns_row list \<Rightarrow> ((str \<times> str \<times> str \<times> str) \<times> nat) list" where
  "query_groups since queries =
     group_counts (map (\<lambda>q. (dq_client q, hour_bucket q, dq_qname q, dq_action q)) (in_window since queries))"

definition cloud_tally :: "infer_ctx \<Rightarrow> dns_row list \<Rightarrow> (nat \<times> str, nat \<times> nat) dict" where
  "cloud_tally ctx queries = fold (tally_query (ic_owners ctx)) (query_groups (ic_since ctx) queries) []"

definition cloud_edge :: "int \<Rightarrow> nat \<Rightarrow> str \<times> nat \<times> nat \<Rightarrow> edge" where
  "cloud_edge hours d entry = (case entry of (domain, allowed, blocked) \<Rightarrow>
     \<lparr>ed_src = device_node_id d, ed_dst = cloud_node_id domain,
      ed_type = (if allowed \<noteq> 0 then ''cloud'' else ''cloud_blocked''), ed_protocol = Some ''dns'', ed_confidence = ''observed'',
      ed_evidence =
        (if allowed \<noteq> 0
         then dec_digits allowed @ '' lookups answered in the last '' @ window_words hours @
              (if blocked \<noteq> 0 then ''; '' @ dec_digits blocked @ '' more under the same name refused - asked for, not depended on'' else [])
         else dec_digits blocked @ '' lookups in the last '' @ window_words hours @
              '', all blocked by the DNS filter - asked for, not depended on''),
      ed_count = (if allowed \<noteq> 0 then allowed else blocked)\<rparr>)"

definition device_cloud :: "(nat \<times> str, nat \<times> nat) dict \<Rightarrow> nat \<Rightarrow> (str \<times> nat \<times> nat) list" where
  "device_cloud tab d =
     (let entries = map (\<lambda>((d, domain), counts). (domain, counts)) (filter (\<lambda>((d', domain), counts). d' = d) tab)
      in filter (\<lambda>(domain, a, b). MIN_CLOUD_QUERIES \<le> a + b)
           (take MAX_CLOUD_PER_DEVICE (sort_key (\<lambda>(domain, a, b). (- int (a + b), domain)) entries)))"

definition cloud_edges :: "topo_db \<Rightarrow> infer_ctx \<Rightarrow> edge list" where
  "cloud_edges db ctx =
     (if \<not> ic_cloud ctx then []
      else
        (let tab = cloud_tally ctx (tp_queries db)
         in concat (map (\<lambda>d. map (cloud_edge (ic_hours ctx) d) (device_cloud tab d))
              (sort (remdups (map fst (dkeys tab)))))))"

definition provider_edges :: "topo_db \<Rightarrow> infer_ctx \<Rightarrow> edge list" where
  "provider_edges db ctx =
     map (\<lambda>p. \<lparr>ed_src = provider_node_id p, ed_dst = device_node_id (pv_device p), ed_type = ''hosted_by'',
        ed_protocol = pv_protocol p, ed_confidence = ''observed'', ed_evidence = pv_evidence p, ed_count = 0\<rparr>) (ic_providers ctx) @
     List.map_filter (\<lambda>r. map_option (\<lambda>signal. \<lparr>ed_src = service_node_id (dv_id r) ''hub'', ed_dst = device_node_id (dv_id r),
        ed_type = ''hosted_by'', ed_protocol = None, ed_confidence = signal, ed_evidence = HUB_EVIDENCE signal, ed_count = 0\<rparr>)
        (hub_signal (tp_loads db) (tp_py_str db) r)) (ic_rows ctx)"

text \<open>\<open>consumer_edges\<close>: for one offering device, with the services it offers.\<close>

definition consumers_seen :: "infer_ctx \<Rightarrow> nat \<Rightarrow> (nat \<times> nat) list" where
  "consumers_seen ctx d =
     (let n = num_at (ic_trigger_counts ctx) d;
          together = sort_key fst (map (\<lambda>((t, m), hits). (m, hits)) (filter (\<lambda>((t, m), hits). t = d) (ic_triggers ctx)))
      in if n < MIN_CONSUMER_OUTAGES then []
         else filter (\<lambda>(m, hits). m \<noteq> d \<and> MIN_CONSUMER_OUTAGES \<le> hits \<and> MIN_CONSUMER_RATIO \<le> real hits / real n) together)"

definition uses_edge :: "infer_ctx \<Rightarrow> provider list \<Rightarrow> nat \<Rightarrow> nat \<times> nat \<Rightarrow> edge" where
  "uses_edge ctx offered d mh = (case mh of (m, hits) \<Rightarrow>
     (let seen = ''went offline in the same discovery cycle as this device in '' @ dec_digits hits @ '' of '' @
            dec_digits (num_at (ic_trigger_counts ctx) d) @ '' recorded outages''
      in case offered of
           [only] \<Rightarrow> \<lparr>ed_src = device_node_id m, ed_dst = provider_node_id only, ed_type = ''uses'', ed_protocol = pv_protocol only,
             ed_confidence = ''observed'', ed_evidence = seen @ ''; '' @ pv_phrase only @ '' is the only service this device offers'',
             ed_count = hits\<rparr>
         | _ \<Rightarrow> \<lparr>ed_src = device_node_id m, ed_dst = device_node_id d, ed_type = ''uses'', ed_protocol = None,
             ed_confidence = ''observed'', ed_evidence = seen @ ''; which of the '' @ dec_digits (length offered) @
               '' services it offers was involved, if any, is not known - they may simply share power or a switch'',
             ed_count = hits\<rparr>))"

definition consumer_edges :: "topo_db \<Rightarrow> infer_ctx \<Rightarrow> edge list" where
  "consumer_edges db ctx =
     concat (map (\<lambda>(d, ps). map (uses_edge ctx (sort_key pv_key ps) d) (consumers_seen ctx d))
       (sort_key fst (group_by pv_device (ic_providers ctx))))"

section \<open>The registry and the merge\<close>

text \<open>A source is named; \<open>None\<close>: it raised.\<close>

type_synonym edge_source = "topo_db \<Rightarrow> infer_ctx \<Rightarrow> edge list option"

definition EDGE_SOURCES :: "(str \<times> edge_source) list" where
  "EDGE_SOURCES = [
    (''gateway'', \<lambda>db ctx. Some (gateway_edges db ctx)), (''internet'', \<lambda>db ctx. Some (internet_edges db ctx)),
    (''dns'', \<lambda>db ctx. Some (dns_edges db ctx)), (''cloud'', \<lambda>db ctx. Some (cloud_edges db ctx)),
    (''providers'', \<lambda>db ctx. Some (provider_edges db ctx)), (''consumers'', \<lambda>db ctx. Some (consumer_edges db ctx))]"

definition register_source :: "str \<Rightarrow> edge_source \<Rightarrow> (str \<times> edge_source) list \<Rightarrow> (str \<times> edge_source) list" where
  "register_source name source sources = filter (\<lambda>ns. fst ns \<noteq> name) sources @ [(name, source)]"

definition CONFIDENCE_RANK :: "str \<Rightarrow> nat" where
  "CONFIDENCE_RANK c = (case map_of [(''assumed'', 0), (''inferred'', 1), (''observed'', 2)] c of Some n \<Rightarrow> n | None \<Rightarrow> 0)"

definition or_opt :: "str option \<Rightarrow> str option \<Rightarrow> str option" where
  "or_opt a b = (if a = None \<or> a = Some [] then b else a)"

definition merge_edge :: "edge \<Rightarrow> edge \<Rightarrow> edge" where
  "merge_edge current e =
     (let stronger = CONFIDENCE_RANK (ed_confidence current) < CONFIDENCE_RANK (ed_confidence e)
      in current\<lparr>
           ed_protocol := or_opt (or_opt (ed_protocol (if stronger then e else current)) (ed_protocol current)) (ed_protocol e),
           ed_confidence := ed_confidence (if stronger then e else current),
           ed_evidence := (if ed_evidence e = ed_evidence current then ed_evidence current
             else join_str ''; '' (filter (\<lambda>p. p \<noteq> [])
               (if stronger then [ed_evidence e, ed_evidence current] else [ed_evidence current, ed_evidence e]))),
           ed_count := max (ed_count current) (ed_count e)\<rparr>)"

definition merge_step :: "edge \<Rightarrow> (str \<times> str \<times> str, edge) dict \<Rightarrow> (str \<times> str \<times> str, edge) dict" where
  "merge_step e merged = dset (edge_key e) (case dget merged (edge_key e) of None \<Rightarrow> e | Some c \<Rightarrow> merge_edge c e) merged"

text \<open>\<open>order\<close> lists the keys as they entered \<open>merged\<close>, which is the order of the dictionary itself.\<close>

definition merge_edges :: "edge list \<Rightarrow> edge list" where
  "merge_edges edges = map snd (fold merge_step edges [])"

section \<open>The nodes that are not devices\<close>

definition hub_node :: "topo_db \<Rightarrow> infer_ctx \<Rightarrow> device_info \<Rightarrow> node option" where
  "hub_node db ctx row =
     map_option (\<lambda>signal. \<lparr>nd_id = service_node_id (dv_id row) ''hub'', nd_kind = ''provider'',
        nd_label = (if signal = ''observed'' then ''Hub (Zigbee / Z-Wave / Thread)'' else ''Possible hub''),
        nd_sublabel = Some (''on '' @ display_name row @ '' - '' @
          (if signal = ''observed'' then ''devices behind it are invisible to Home SOC, so how many there are is unknown''
           else ''its name suggests a hub; nothing it advertised confirms it, so what is behind it - if anything - is unknown'')),
        nd_device = Some (dv_id row), nd_criticality = 0, nd_severity = None, nd_online = True\<rparr>)
       (hub_signal (tp_loads db) (tp_py_str db) row)"

definition provider_node :: "infer_ctx \<Rightarrow> (str, nat) dict \<Rightarrow> provider \<Rightarrow> node" where
  "provider_node ctx consumers p =
     (let n = num_at consumers (provider_node_id p);
          host = (case List.find (\<lambda>r. dv_id r = pv_device p) (rev (ic_rows ctx)) of Some r \<Rightarrow> display_name r | None \<Rightarrow> ''a device'')
      in \<lparr>nd_id = provider_node_id p, nd_kind = ''provider'', nd_label = pv_label p,
          nd_sublabel = Some (''on '' @ host @ '' - '' @
            (if n \<noteq> 0 then dec_digits n @ '' confirmed consumer'' @ plural n else ''no confirmed consumers'')),
          nd_device = Some (pv_device p), nd_criticality = n, nd_severity = None, nd_online = True\<rparr>)"

definition cloud_node :: "edge list \<Rightarrow> (str, nat) dict \<Rightarrow> str \<Rightarrow> node" where
  "cloud_node edges reach i =
     (let domain = drop 6 i; into = filter (\<lambda>e. ed_dst e = i) edges;
          blocked = list_all (\<lambda>e. ed_type e = ''cloud_blocked'') into
      in \<lparr>nd_id = cloud_node_id domain, nd_kind = ''cloud'', nd_label = cloud_label domain,
          nd_sublabel = Some (if blocked then domain @ '' - blocked by the DNS filter'' else domain), nd_device = None,
          nd_criticality = (if blocked then 0 else (case dget reach i of Some n \<Rightarrow> n | None \<Rightarrow> length into)),
          nd_severity = None, nd_online = True\<rparr>)"

definition support_nodes :: "topo_db \<Rightarrow> infer_ctx \<Rightarrow> edge list \<Rightarrow> node list option" where
  "support_nodes db ctx edges =
     (case dependent_counts edges of
        None \<Rightarrow> None
      | Some reach \<Rightarrow>
          (let consumers = fold (\<lambda>e. add_count (ed_dst e) 1) (filter (\<lambda>e. ed_type e = ''uses'') edges) [];
               users = length (filter (\<lambda>e. ed_type e = ''dns'') edges)
           in Some (
             (if list_ex (\<lambda>e. ed_dst e = INTERNET_ID) edges
              then [\<lparr>nd_id = INTERNET_ID, nd_kind = ''internet'', nd_label = ''The internet'',
                     nd_sublabel = Some ''everything beyond the router'', nd_device = None,
                     nd_criticality = num_at reach INTERNET_ID, nd_severity = None, nd_online = True\<rparr>] else []) @
             (if ic_resolver ctx
              then [\<lparr>nd_id = RESOLVER_ID, nd_kind = ''resolver'', nd_label = ''Home SOC DNS filter'',
                     nd_sublabel = Some (dec_digits users @ '' device'' @ plural users @ '' seen using it''), nd_device = None,
                     nd_criticality = (case dget reach RESOLVER_ID of Some n \<Rightarrow> n | None \<Rightarrow> users),
                     nd_severity = None, nd_online = True\<rparr>] else []) @
             map (provider_node ctx consumers) (ic_providers ctx) @
             List.map_filter (hub_node db ctx) (ic_rows ctx) @
             map (cloud_node edges reach)
               (map cloud_node_id (sort (map (drop 6) (remdups (filter (prefix ''cloud:'') (map ed_dst edges)))))))))"

section \<open>Putting it together\<close>

definition run_sources :: "(str \<times> edge_source) list \<Rightarrow> topo_db \<Rightarrow> infer_ctx \<Rightarrow> (str \<times> int) list \<times> edge list" where
  "run_sources sources db ctx =
     (map (\<lambda>(n, s). (n, case s db ctx of None \<Rightarrow> - 1 | Some es \<Rightarrow> int (length es))) sources,
      concat (map (\<lambda>(n, s). case s db ctx of None \<Rightarrow> [] | Some es \<Rightarrow> es) sources))"

definition infer_all :: "(str \<times> edge_source) list \<Rightarrow> topo_db \<Rightarrow> int \<Rightarrow> bool \<Rightarrow> str \<Rightarrow> (node list \<times> edge list) option" where
  "infer_all sources db hours include_cloud since =
     (let ctx = build_context db hours include_cloud since; edges = merge_edges (snd (run_sources sources db ctx))
      in map_option (\<lambda>nodes. (nodes, edges)) (support_nodes db ctx edges))"

end
