(* ===== verification/Topo_Claims.thy ===== *)
theory Topo_Claims
  imports Topo_Infer
begin

text \<open>
  What the dependency map promises: the merge keeps the strongest claim, the counts are those of the
  recorded rows, every edge said to be observed rests on rows in the database, and the edges never
  point at a node that is not there.
\<close>

section \<open>The merge\<close>

definition merge_all :: "edge \<Rightarrow> edge list \<Rightarrow> edge" where
  "merge_all e es = fold (\<lambda>x c. merge_edge c x) es e"

lemma merge_all_simps [simp]: "merge_all e [] = e" "merge_all e (es @ [x]) = merge_edge (merge_all e es) x"
  by (simp_all add: merge_all_def)

lemma merge_edge_fields [simp]:
  "edge_key (merge_edge c e) = edge_key c"
  "ed_count (merge_edge c e) = max (ed_count c) (ed_count e)"
  "ed_confidence (merge_edge c e) = (if CONFIDENCE_RANK (ed_confidence c) < CONFIDENCE_RANK (ed_confidence e)
     then ed_confidence e else ed_confidence c)"
  by (simp_all add: merge_edge_def Let_def edge_key_def)

lemma merge_all_key [simp]: "edge_key (merge_all e es) = edge_key e"
  by (induction es rule: rev_induct) simp_all

lemma merge_all_count: "ed_count (merge_all e es) = Max (ed_count ` set (e # es))"
  by (induction es rule: rev_induct) (simp_all add: insert_commute max.commute)

lemma merge_all_rank:
  "CONFIDENCE_RANK (ed_confidence (merge_all e es)) = Max (CONFIDENCE_RANK ` ed_confidence ` set (e # es))"
proof (induction es rule: rev_induct)
  case (snoc x es)
  have "CONFIDENCE_RANK (ed_confidence (merge_edge c x)) = max (CONFIDENCE_RANK (ed_confidence c)) (CONFIDENCE_RANK (ed_confidence x))" for c
    by (simp add: max_def)
  moreover have "set (e # es @ [x]) = insert x (set (e # es))" by auto
  ultimately show ?case using snoc by (simp del: merge_edge_fields(3) list.set set_append add: max.commute)
qed simp

lemma merge_all_confidence: "ed_confidence (merge_all e es) \<in> ed_confidence ` set (e # es)"
  by (induction es rule: rev_induct) auto

definition with_key :: "str \<times> str \<times> str \<Rightarrow> edge list \<Rightarrow> edge list" where
  "with_key k es = filter (\<lambda>e. edge_key e = k) es"

lemma merge_fold_lookup:
  "dget (fold merge_step es []) k = (case with_key k es of [] \<Rightarrow> None | e # rest \<Rightarrow> Some (merge_all e rest))"
proof (induction es rule: rev_induct)
  case (snoc x es)
  then show ?case by (auto simp: merge_step_def with_key_def split: list.splits option.splits simp flip: merge_all_simps(2))
qed (simp add: with_key_def)

lemma merge_fold_dwf [simp]: "dwf (fold merge_step es [])"
  by (induction es rule: rev_induct) (simp_all add: merge_step_def)

lemma merge_fold_key: "dget (fold merge_step es []) k = Some m \<Longrightarrow> edge_key m = k"
  by (cases "with_key k es") (auto simp: merge_fold_lookup with_key_def filter_eq_Cons_iff)

lemma merged_iff:
  "m \<in> set (merge_edges es) \<longleftrightarrow> (\<exists>e rest. with_key (edge_key m) es = e # rest \<and> m = merge_all e rest)"
proof
  assume "m \<in> set (merge_edges es)"
  then obtain k where "(k, m) \<in> set (fold merge_step es [])" by (auto simp: merge_edges_def)
  then have "dget (fold merge_step es []) k = Some m" by (rule dget_in_dwf [OF merge_fold_dwf])
  then obtain e rest where "with_key k es = e # rest" "m = merge_all e rest"
    by (auto simp: merge_fold_lookup split: list.splits)
  moreover from this have "edge_key m = k" by (auto simp: with_key_def filter_eq_Cons_iff)
  ultimately show "\<exists>e rest. with_key (edge_key m) es = e # rest \<and> m = merge_all e rest" by blast
next
  assume "\<exists>e rest. with_key (edge_key m) es = e # rest \<and> m = merge_all e rest"
  then have "dget (fold merge_step es []) (edge_key m) = Some m" by (auto simp: merge_fold_lookup)
  then show "m \<in> set (merge_edges es)" unfolding merge_edges_def by (force dest: dget_Some_in)
qed

lemma merged_fields:
  assumes "m \<in> set (merge_edges es)"
  shows "ed_count m = Max (ed_count ` set (with_key (edge_key m) es))"
    and "CONFIDENCE_RANK (ed_confidence m) = Max (CONFIDENCE_RANK ` ed_confidence ` set (with_key (edge_key m) es))"
    and "ed_confidence m \<in> ed_confidence ` set (with_key (edge_key m) es)" and "with_key (edge_key m) es \<noteq> []"
  using assms merge_all_count merge_all_rank merge_all_confidence unfolding merged_iff by fastforce+

lemma merged_exists: "e \<in> set es \<Longrightarrow> \<exists>m\<in>set (merge_edges es). edge_key m = edge_key e"
proof -
  assume "e \<in> set es"
  then obtain x rest where x: "with_key (edge_key e) es = x # rest" by (cases "with_key (edge_key e) es") (auto simp: with_key_def filter_empty_conv)
  then have "edge_key x = edge_key e" by (auto simp: with_key_def filter_eq_Cons_iff)
  then have "merge_all x rest \<in> set (merge_edges es)" unfolding merged_iff using x by auto
  with \<open>edge_key x = edge_key e\<close> show ?thesis by (metis merge_all_key)
qed

lemma distinct_merged: "distinct (map edge_key (merge_edges es))"
proof -
  have "map edge_key (map snd (fold merge_step es [])) = dkeys (fold merge_step es [])"
    unfolding dkeys_def map_map
  proof (rule map_cong [OF refl])
    fix p assume "p \<in> set (fold merge_step es [])"
    then have "dget (fold merge_step es []) (fst p) = Some (snd p)" using dget_in_dwf [OF merge_fold_dwf, of "fst p" "snd p" es] by simp
    then show "(edge_key \<circ> snd) p = fst p"
      by (simp add: merge_fold_key)
  qed
  then show ?thesis using merge_fold_dwf [of es] by (simp add: merge_edges_def dwf_def)
qed

text \<open>What a merged edge says of counts and confidence was said by some source of the same link.\<close>

lemma merged_source:
  assumes "m \<in> set (merge_edges es)"
  shows "\<exists>e\<in>set es. edge_key e = edge_key m \<and> ed_count e = ed_count m"
    and "\<exists>e\<in>set es. edge_key e = edge_key m \<and> ed_confidence e = ed_confidence m"
proof -
  have "ed_count m \<in> ed_count ` set (with_key (edge_key m) es)"
    unfolding merged_fields(1) [OF assms] using merged_fields(4) [OF assms] by (intro Max_in) auto
  then show "\<exists>e\<in>set es. edge_key e = edge_key m \<and> ed_count e = ed_count m" by (auto simp: with_key_def)
  show "\<exists>e\<in>set es. edge_key e = edge_key m \<and> ed_confidence e = ed_confidence m"
    using merged_fields(3) [OF assms] by (auto simp: with_key_def)
qed

section \<open>Counting\<close>

lemma group_counts_sum: "sum_list (map snd (filter (\<lambda>(k, n). P k) (group_counts keys))) = length (filter P keys)"
proof -
  have "sum_list (map snd (filter (\<lambda>(k, n). P k) (group_counts keys))) =
      sum_list (map (count_list (filter P keys)) (filter P (sort (remdups keys))))"
    by (auto simp: group_counts_def filter_map comp_def count_list_eq_length_filter intro!: arg_cong [of _ _ sum_list] map_cong
      arg_cong [of _ _ length] filter_cong)
  also have "\<dots> = sum (count_list (filter P keys)) (set (filter P keys))"
    by (subst sum_list_distinct_conv_sum_set) (auto intro: arg_cong [of _ _ "sum _"])
  finally show ?thesis by (simp add: sum_count_set)
qed

lemma group_counts_pos: "(k, n) \<in> set (group_counts keys) \<Longrightarrow> 0 < n \<and> k \<in> set keys"
  by (auto simp: group_counts_def count_list_0_iff intro: Nat.gr0I)

lemma group_counts_in: "k \<in> set keys \<Longrightarrow> \<exists>n. (k, n) \<in> set (group_counts keys)"
  by (force simp: group_counts_def)

lemma dwf_sort_key: "dwf d \<Longrightarrow> dwf (sort_key fst d)"
  by (simp add: dwf_def dkeys_def distinct_map)

lemma dget_sort_key: "dwf d \<Longrightarrow> dget (sort_key fst d) k = dget d k"
  using dwf_sort_key [of d] by (metis dget_Some_in dget_in_dwf not_None_eq set_sort)

text \<open>Adding the counts of the rows an owner is known for.\<close>

lemma fold_add_counts:
  "dget (fold (\<lambda>(k, n) c. case f k of None \<Rightarrow> c | Some d \<Rightarrow> add_count d n c) rows []) d =
     (if \<exists>(k, n)\<in>set rows. f k = Some d then Some (sum_list (map snd (filter (\<lambda>(k, n). f k = Some d) rows))) else None)"
proof (induction rows rule: rev_induct)
  case (snoc r rows)
  obtain k n where r: "r = (k, n)" by force
  have "\<not> (\<exists>(k, n)\<in>set rows. f k = Some d) \<Longrightarrow> filter (\<lambda>(k, n). f k = Some d) rows = []"
    by (auto simp: filter_empty_conv)
  with snoc show ?case by (auto simp: r add_count_def num_at_def split: option.split)
qed simp

lemma dwf_add_counts [simp]:
  "dwf (fold (\<lambda>(k, n) c. case f k of None \<Rightarrow> c | Some d \<Rightarrow> add_count d n c) rows [])"
  by (induction rows rule: rev_induct) (auto simp: add_count_def split: option.splits)

section \<open>The recorded rows\<close>

definition asked_by :: "lease_table \<Rightarrow> str \<Rightarrow> dns_row list \<Rightarrow> nat \<Rightarrow> dns_row list" where
  "asked_by ow since queries d = filter (\<lambda>q. owner_at ow (dq_client q) (hour_bucket q) = Some d) (in_window since queries)"

definition asked_for :: "lease_table \<Rightarrow> str \<Rightarrow> dns_row list \<Rightarrow> nat \<Rightarrow> str \<Rightarrow> str set \<Rightarrow> nat" where
  "asked_for ow since queries d domain actions =
     length (filter (\<lambda>q. asked_domain (dq_qname q) = domain \<and> dq_action q \<in> actions) (asked_by ow since queries d))"

lemma client_counts_lookup:
  "dget (client_counts ctx queries) d =
     (let n = length (asked_by (ic_owners ctx) (ic_since ctx) queries d) in if n = 0 then None else Some n)"
proof -
  let ?f = "\<lambda>(client, bucket). owner_at (ic_owners ctx) client bucket"
  let ?keys = "map (\<lambda>q. (dq_client q, hour_bucket q)) (in_window (ic_since ctx) queries)"
  have eq: "client_counts ctx queries =
      fold (\<lambda>(k, n) c. case ?f k of None \<Rightarrow> c | Some d \<Rightarrow> add_count d n c) (group_counts ?keys) []"
    unfolding client_counts_def client_buckets_def by (intro arg_cong2 [of _ _ _ _ "\<lambda>f x. fold f x []"]) (auto simp: fun_eq_iff)
  have sum: "sum_list (map snd (filter (\<lambda>(k, n). ?f k = Some d) (group_counts ?keys))) =
      length (asked_by (ic_owners ctx) (ic_since ctx) queries d)"
    using group_counts_sum [of "\<lambda>k. ?f k = Some d" ?keys] by (simp add: asked_by_def filter_map comp_def)
  have "(\<exists>(k, n)\<in>set (group_counts ?keys). ?f k = Some d) \<longleftrightarrow> asked_by (ic_owners ctx) (ic_since ctx) queries d \<noteq> []"
    unfolding asked_by_def filter_empty_conv using group_counts_pos [of _ _ ?keys] group_counts_in [of _ ?keys] by fastforce
  then show ?thesis unfolding eq fold_add_counts sum by (simp add: Let_def)
qed

lemma dwf_client_counts: "dwf (client_counts ctx queries)"
proof -
  have "client_counts ctx queries = fold (\<lambda>(k, n) c. case (\<lambda>(client, bucket). owner_at (ic_owners ctx) client bucket) k of
      None \<Rightarrow> c | Some d \<Rightarrow> add_count d n c) (client_buckets (ic_since ctx) queries) []"
    unfolding client_counts_def by (intro arg_cong2 [of _ _ _ _ "\<lambda>f x. fold f x []"]) (auto simp: fun_eq_iff)
  then show ?thesis by simp
qed

text \<open>The tally of one device and domain.\<close>

definition tallied :: "lease_table \<Rightarrow> nat \<Rightarrow> str \<Rightarrow> str \<times> str \<times> str \<times> str \<Rightarrow> bool" where
  "tallied ow d domain k = (case k of (client, bucket, qname, action) \<Rightarrow>
     owner_at ow client bucket = Some d \<and> asked_domain qname = domain)"

lemma tally_fold:
  assumes "domain \<noteq> []" "CHR ''.'' \<in> set domain"
  shows "dget (fold (tally_query ow) rows []) (d, domain) =
    (if \<exists>(k, n)\<in>set rows. tallied ow d domain k
     then Some (sum_list (map snd (filter (\<lambda>(k, n). tallied ow d domain k \<and> snd (snd (snd k)) \<in> {''allow'', ''cache''}) rows)),
                sum_list (map snd (filter (\<lambda>(k, n). tallied ow d domain k \<and> snd (snd (snd k)) = ''block'') rows)))
     else None)"
proof (induction rows rule: rev_induct)
  case (snoc r rows)
  obtain client bucket qname action n where r: "r = ((client, bucket, qname, action), n)" by (metis prod_cases5 surj_pair)
  have none: "\<not> (\<exists>(k, n)\<in>set rows. tallied ow d domain k) \<Longrightarrow>
      filter (\<lambda>(k, n). tallied ow d domain k \<and> P k) rows = []" for P
    by (auto simp: filter_empty_conv)
  show ?case
  proof (cases "tallied ow d domain (client, bucket, qname, action)")
    case True
    then have "owner_at ow client bucket = Some d" "asked_domain qname = domain" by (simp_all add: tallied_def)
    with True assms snoc none show ?thesis by (auto simp: r tally_query_def Let_def)
  next
    case False
    then have "dget (tally_query ow r t) (d, domain) = dget t (d, domain)" for t
      by (auto simp: r tally_query_def tallied_def Let_def split: option.split prod.split)
    with False snoc show ?thesis by (auto simp: r)
  qed
qed simp

lemma tally_domains: "(d, domain) \<in> set (dkeys (fold (tally_query ow) rows [])) \<Longrightarrow> domain \<noteq> [] \<and> CHR ''.'' \<in> set domain"
proof (induction rows rule: rev_induct)
  case (snoc r rows)
  then show ?case by (auto simp: tally_query_def Let_def split: option.splits prod.splits if_splits)
qed (simp add: dkeys_def)

lemma dwf_tally [simp]: "dwf (fold (tally_query ow) rows [])"
  by (induction rows rule: rev_induct) (auto simp: tally_query_def Let_def split: option.splits prod.splits)

lemma group_counts_cond:
  "sum_list (map snd (filter (\<lambda>(k, n). P k) (group_counts (map f qs)))) = length (filter (\<lambda>q. P (f q)) qs)"
  by (simp add: group_counts_sum filter_map comp_def)

lemma cloud_tally_lookup:
  assumes "domain \<noteq> []" "CHR ''.'' \<in> set domain"
  shows "dget (cloud_tally ctx queries) (d, domain) =
    (if asked_for (ic_owners ctx) (ic_since ctx) queries d domain UNIV = 0 then None
     else Some (asked_for (ic_owners ctx) (ic_since ctx) queries d domain {''allow'', ''cache''},
                asked_for (ic_owners ctx) (ic_since ctx) queries d domain {''block''}))"
proof -
  let ?ow = "ic_owners ctx" and ?qs = "in_window (ic_since ctx) queries"
  let ?key = "\<lambda>q. (dq_client q, hour_bucket q, dq_qname q, dq_action q)"
  have count: "sum_list (map snd (filter (\<lambda>(k, n). tallied ?ow d domain k \<and> Q (snd (snd (snd k)))) (query_groups (ic_since ctx) queries))) =
      asked_for ?ow (ic_since ctx) queries d domain {a. Q a}" for Q
    unfolding query_groups_def group_counts_cond
    by (simp add: asked_for_def asked_by_def tallied_def filter_filter conj_ac)
  have any: "(\<exists>(k, n)\<in>set (query_groups (ic_since ctx) queries). tallied ?ow d domain k) \<longleftrightarrow>
      asked_for ?ow (ic_since ctx) queries d domain UNIV \<noteq> 0"
  proof -
    have "(\<exists>(k, n)\<in>set (group_counts ks). R k) \<longleftrightarrow> (\<exists>k\<in>set ks. R k)" for ks :: "(str \<times> str \<times> str \<times> str) list" and R
      using group_counts_pos [of _ _ ks] group_counts_in [of _ ks] by fastforce
    then show ?thesis
      by (auto simp: query_groups_def asked_for_def asked_by_def tallied_def filter_empty_conv)
  qed
  show ?thesis
    using count [of "\<lambda>a. a \<in> {''allow'', ''cache''}", unfolded Collect_mem_eq] count [of "\<lambda>a. a = ''block''"]
    by (simp add: cloud_tally_def tally_fold [OF assms] any)
qed

lemma device_cloud_member:
  assumes "(domain, a, b) \<in> set (device_cloud (cloud_tally ctx queries) d)"
  shows "a = asked_for (ic_owners ctx) (ic_since ctx) queries d domain {''allow'', ''cache''}"
    and "b = asked_for (ic_owners ctx) (ic_since ctx) queries d domain {''block''}" and "MIN_CLOUD_QUERIES \<le> a + b"
proof -
  have "((d, domain), a, b) \<in> set (cloud_tally ctx queries)" and m: "MIN_CLOUD_QUERIES \<le> a + b"
    using assms by (auto simp: device_cloud_def Let_def dest!: in_set_takeD)
  from this(1) have look: "dget (cloud_tally ctx queries) (d, domain) = Some (a, b)" and "(d, domain) \<in> set (dkeys (cloud_tally ctx queries))"
    by (simp add: dget_in_dwf cloud_tally_def) (use \<open>((d, domain), a, b) \<in> _\<close> in \<open>force simp: dkeys_def\<close>)
  then have "domain \<noteq> [] \<and> CHR ''.'' \<in> set domain" unfolding cloud_tally_def using tally_domains by blast
  with look m show "a = asked_for (ic_owners ctx) (ic_since ctx) queries d domain {''allow'', ''cache''}"
    "b = asked_for (ic_owners ctx) (ic_since ctx) queries d domain {''block''}" "MIN_CLOUD_QUERIES \<le> a + b"
    by (auto simp: cloud_tally_lookup split: if_splits)
qed

text \<open>Outages counted for a trigger, and how often another device dropped in them.\<close>

definition triggered :: "outage_db \<Rightarrow> nat \<Rightarrow> nat" where
  "triggered db d = length (filter (\<lambda>r. counted_trigger True r = Some d) (od_outages db))"

definition dropped_with :: "outage_db \<Rightarrow> nat \<Rightarrow> nat \<Rightarrow> nat" where
  "dropped_with db d m = length (filter (\<lambda>(r, k). counted_trigger True r = Some d \<and> mr_outage k = or_id r \<and> mr_device k = m)
     (List.product (od_outages db) (od_members db)))"

lemma count_list_map_filter: "count_list (List.map_filter f xs) y = length (filter (\<lambda>x. f x = Some y) xs)"
  by (induction xs) (auto simp: List.map_filter_simps split: option.split)

lemma trigger_counts_lookup: "num_at (trigger_counts True db) d = triggered db d"
proof -
  have "num_at (trigger_counts True db) d = count_list (List.map_filter (counted_trigger True) (od_outages db)) d"
    unfolding trigger_counts_def num_at_def dget_sort_key [OF dwf_count_up] fold_count_up
    by (simp add: count_list_0_iff [symmetric])
  then show ?thesis by (simp add: count_list_map_filter triggered_def)
qed

lemma trigger_members_lookup:
  assumes "((d, m), hits) \<in> set (trigger_members True db)"
  shows "hits = dropped_with db d m"
proof -
  let ?xs = "concat (map (\<lambda>r. case counted_trigger True r of None \<Rightarrow> []
         | Some t \<Rightarrow> map (\<lambda>m. (t, mr_device m)) (filter (\<lambda>m. mr_outage m = or_id r) (od_members db))) (od_outages db))"
  have "dget (fold count_up ?xs []) (d, m) = Some hits"
    using assms dget_in_dwf [OF dwf_count_up] by (simp add: trigger_members_def)
  then have "hits = count_list ?xs (d, m)" by (simp add: fold_count_up split: if_splits)
  also have "\<dots> = dropped_with db d m"
  proof -
    have one: "count_list (case counted_trigger True r of None \<Rightarrow> []
         | Some t \<Rightarrow> map (\<lambda>m. (t, mr_device m)) (filter (\<lambda>m. mr_outage m = or_id r) ms)) (d, m) =
       length (filter (\<lambda>k. counted_trigger True r = Some d \<and> mr_outage k = or_id r \<and> mr_device k = m) ms)"
      for r :: outage_row and ms :: "member_row list"
      by (induction ms) (auto split: option.split)
    have "count_list (concat (map (\<lambda>r. case counted_trigger True r of None \<Rightarrow> []
         | Some t \<Rightarrow> map (\<lambda>m. (t, mr_device m)) (filter (\<lambda>m. mr_outage m = or_id r) ms)) rs)) (d, m) =
       length (filter (\<lambda>(r, k). counted_trigger True r = Some d \<and> mr_outage k = or_id r \<and> mr_device k = m) (List.product rs ms))"
      for rs :: "outage_row list" and ms :: "member_row list"
    proof (induction rs)
      case (Cons r rs)
      then show ?case using one [of r ms] by (simp add: filter_map comp_def)
    qed simp
    then show ?thesis by (simp add: dropped_with_def)
  qed
  finally show ?thesis .
qed

section \<open>Providers\<close>

definition db_services :: "topo_db \<Rightarrow> (nat \<times> provider_rule \<times> str) list" where
  "db_services db = seen_services (tp_loads db) (tp_py_str db) (tp_devices db) (tp_services db)"

definition offered_keys :: "topo_db \<Rightarrow> nat \<Rightarrow> str set" where
  "offered_keys db d = {key. \<exists>rule evidence. (d, (key, rule), evidence) \<in> set (db_services db)}"

lemma providers_fold:
  "dwf (fold add_provider seen []) \<and> set (dkeys (fold add_provider seen [])) = (\<lambda>x. (fst x, fst (fst (snd x)))) ` set seen"
proof (induction seen rule: rev_induct)
  case (snoc x seen)
  then show ?case by (auto simp: add_provider_def Let_def split: prod.splits)
qed (simp add: dkeys_def)

lemma providers_keys:
  fixes db :: topo_db
  defines "ps \<equiv> providers (tp_loads db) (tp_py_str db) (tp_devices db) (tp_services db)"
  shows "distinct (map (\<lambda>p. (pv_device p, pv_key p)) ps)"
    and "(d, key) \<in> (\<lambda>p. (pv_device p, pv_key p)) ` set ps \<longleftrightarrow> key \<in> offered_keys db d"
proof -
  let ?found = "fold add_provider (db_services db) []"
  have ps: "ps = map provider_of (sort_key fst ?found)" by (simp add: ps_def providers_def db_services_def)
  have key: "(\<lambda>p. (pv_device p, pv_key p)) (provider_of e) = fst e" for e by (simp add: provider_of_def split: prod.split)
  then have "map (\<lambda>p. (pv_device p, pv_key p)) ps = map fst (sort_key fst ?found)" by (simp add: ps comp_def)
  moreover have "distinct (map fst (sort_key fst ?found))"
    using dwf_sort_key [of ?found] providers_fold [of "db_services db"] by (simp add: dwf_def dkeys_def)
  ultimately show "distinct (map (\<lambda>p. (pv_device p, pv_key p)) ps)" by simp
  have "(\<lambda>p. (pv_device p, pv_key p)) ` set ps = set (dkeys ?found)"
    by (simp add: ps image_image key dkeys_def)
  also have "\<dots> = (\<lambda>x. (fst x, fst (fst (snd x)))) ` set (db_services db)" using providers_fold by blast
  also have "(d, key) \<in> \<dots> \<longleftrightarrow> key \<in> offered_keys db d"
  proof
    assume "key \<in> offered_keys db d"
    then obtain rule evidence where "(d, (key, rule), evidence) \<in> set (db_services db)" by (auto simp: offered_keys_def)
    from imageI [OF this, of "\<lambda>x. (fst x, fst (fst (snd x)))"]
    show "(d, key) \<in> (\<lambda>x. (fst x, fst (fst (snd x)))) ` set (db_services db)" by simp
  qed (clarsimp simp: offered_keys_def, blast)
  finally show "(d, key) \<in> (\<lambda>p. (pv_device p, pv_key p)) ` set ps \<longleftrightarrow> key \<in> offered_keys db d" .
qed

section \<open>Nothing is observed without a record\<close>

definition db_owners :: "topo_db \<Rightarrow> str \<Rightarrow> lease_table" where
  "db_owners db since = address_owners since (tp_sightings db) (tp_devices db)"

definition dns_recorded :: "topo_db \<Rightarrow> str \<Rightarrow> edge \<Rightarrow> bool" where
  "dns_recorded db since e \<longleftrightarrow> ed_type e = ''dns'' \<and> ed_dst e = RESOLVER_ID \<and>
     (\<exists>d. ed_src e = device_node_id d \<and> 0 < ed_count e \<and>
        ed_count e = length (asked_by (db_owners db since) since (tp_queries db) d))"

definition cloud_recorded :: "topo_db \<Rightarrow> str \<Rightarrow> edge \<Rightarrow> bool" where
  "cloud_recorded db since e \<longleftrightarrow> (\<exists>d domain. ed_src e = device_node_id d \<and> ed_dst e = cloud_node_id domain \<and>
     (let answered = asked_for (db_owners db since) since (tp_queries db) d domain {''allow'', ''cache''};
          blocked = asked_for (db_owners db since) since (tp_queries db) d domain {''block''}
      in 5 \<le> answered + blocked \<and>
         (ed_type e = ''cloud'' \<and> 0 < answered \<and> ed_count e = answered \<or>
          ed_type e = ''cloud_blocked'' \<and> answered = 0 \<and> ed_count e = blocked)))"

definition service_recorded :: "topo_db \<Rightarrow> edge \<Rightarrow> bool" where
  "service_recorded db e \<longleftrightarrow> ed_type e = ''hosted_by'' \<and> (\<exists>d. ed_dst e = device_node_id d \<and>
     ((\<exists>key\<in>offered_keys db d. ed_src e = service_node_id d key) \<or>
      ed_src e = service_node_id d ''hub'' \<and> (\<exists>r\<in>set (tp_devices db). dv_id r = d \<and>
        (\<exists>t\<in>set (mdns_types (tp_loads db) (tp_py_str db) (dv_mdns r)). t \<in> HUB_MDNS))))"

definition uses_recorded :: "topo_db \<Rightarrow> edge \<Rightarrow> bool" where
  "uses_recorded db e \<longleftrightarrow> ed_type e = ''uses'' \<and> (\<exists>d m. m \<noteq> d \<and> ed_src e = device_node_id m \<and>
     (ed_dst e = device_node_id d \<or> (\<exists>key. ed_dst e = service_node_id d key \<and> offered_keys db d = {key})) \<and>
     2 \<le> triggered (tp_outages db) d \<and> 2 \<le> ed_count e \<and> ed_count e = dropped_with (tp_outages db) d m \<and>
     3 * triggered (tp_outages db) d \<le> 4 * ed_count e)"

lemmas recorded_defs = dns_recorded_def cloud_recorded_def service_recorded_def uses_recorded_def

lemma context_fields [simp]:
  "ic_owners (build_context db hours cloud since) = db_owners db since"
  "ic_since (build_context db hours cloud since) = since"
  "ic_providers (build_context db hours cloud since) = providers (tp_loads db) (tp_py_str db) (tp_devices db) (tp_services db)"
  "ic_rows (build_context db hours cloud since) = sort_key dv_id (tp_devices db)"
  "ic_triggers (build_context db hours cloud since) = trigger_members True (tp_outages db)"
  "ic_trigger_counts (build_context db hours cloud since) = trigger_counts True (tp_outages db)"
  "ic_hours (build_context db hours cloud since) = hours"
  "ic_confidence (build_context db hours cloud since) = snd (gateway_device db)"
  "ic_gateway (build_context db hours cloud since) = map_option dv_id (fst (gateway_device db))"
  by (simp_all add: build_context_def db_owners_def split: prod.split)

lemma dns_edges_recorded:
  assumes "e \<in> set (dns_edges db (build_context db hours cloud since))"
  shows "dns_recorded db since e"
proof -
  let ?ctx = "build_context db hours cloud since"
  from assms obtain d n where e: "e = dns_edge hours (d, n)" and "(d, n) \<in> set (client_counts ?ctx (tp_queries db))"
    by (auto simp: dns_edges_def split: if_splits)
  then have "dget (client_counts ?ctx (tp_queries db)) d = Some n" by (simp add: dget_in_dwf dwf_client_counts)
  then show ?thesis unfolding client_counts_lookup
    by (auto simp: e dns_edge_def dns_recorded_def Let_def split: if_splits)
qed

lemma cloud_edges_recorded:
  assumes "e \<in> set (cloud_edges db (build_context db hours cloud since))"
  shows "cloud_recorded db since e"
proof -
  let ?ctx = "build_context db hours cloud since"
  from assms obtain d domain a b where e: "e = cloud_edge hours d (domain, a, b)"
    and m: "(domain, a, b) \<in> set (device_cloud (cloud_tally ?ctx (tp_queries db)) d)"
    by (auto simp: cloud_edges_def Let_def split: if_splits)
  from device_cloud_member [OF m] show ?thesis
    unfolding cloud_recorded_def
    by (intro exI [of _ d] exI [of _ domain]) (auto simp: e cloud_edge_def Let_def MIN_CLOUD_QUERIES_def)
qed

lemma gateway_conf: "snd (gateway_device db) \<in> {''inferred'', ''assumed''}"
  by (simp add: gateway_device_def Let_def split: option.split)

lemma gateway_edges_type:
  "e \<in> set (gateway_edges db (build_context db hours cloud since)) \<Longrightarrow> ed_type e = ''gateway'' \<and> ed_confidence e \<noteq> ''observed''"
  using gateway_conf [of db] by (auto simp: gateway_edges_def Let_def split: option.splits)

lemma internet_edges_type:
  "e \<in> set (internet_edges db ctx) \<Longrightarrow> ed_type e = ''internet'' \<and> ed_confidence e = ''inferred''"
  by (auto simp: internet_edges_def split: option.splits if_splits)

lemma map_filter_member: "y \<in> set (List.map_filter f xs) \<longleftrightarrow> (\<exists>x\<in>set xs. f x = Some y)"
  by (force simp: List.map_filter_def image_iff)

lemma provider_edges_recorded:
  assumes "e \<in> set (provider_edges db (build_context db hours cloud since))"
  shows "ed_type e = ''hosted_by''" and "ed_confidence e = ''observed'' \<Longrightarrow> service_recorded db e"
proof -
  let ?ps = "providers (tp_loads db) (tp_py_str db) (tp_devices db) (tp_services db)"
  have off: "p \<in> set ?ps \<Longrightarrow> pv_key p \<in> offered_keys db (pv_device p)" for p
    using providers_keys(2) [of "pv_device p" "pv_key p" db] by blast
  show "ed_type e = ''hosted_by''" using assms by (auto simp: provider_edges_def map_filter_member)
  show "service_recorded db e" if "ed_confidence e = ''observed''"
  proof -
    from assms consider (service) p where "p \<in> set ?ps" "ed_src e = provider_node_id p" "ed_dst e = device_node_id (pv_device p)"
        "ed_type e = ''hosted_by''"
      | (hub) r signal where "r \<in> set (tp_devices db)" "hub_signal (tp_loads db) (tp_py_str db) r = Some signal" "ed_confidence e = signal"
        "ed_src e = service_node_id (dv_id r) ''hub''" "ed_dst e = device_node_id (dv_id r)" "ed_type e = ''hosted_by''"
      by (auto simp: provider_edges_def map_filter_member)
    then show ?thesis
    proof cases
      case service
      with off show ?thesis unfolding service_recorded_def provider_node_id_def by blast
    next
      case hub
      then have "\<exists>t\<in>set (mdns_types (tp_loads db) (tp_py_str db) (dv_mdns r)). t \<in> HUB_MDNS"
        using that by (auto simp: hub_signal_def list_ex_iff split: if_splits)
      with hub show ?thesis unfolding service_recorded_def by blast
    qed
  qed
qed

lemma consumer_edges_recorded:
  assumes "e \<in> set (consumer_edges db (build_context db hours cloud since))"
  shows "uses_recorded db e" and "ed_confidence e = ''observed''"
proof -
  let ?ctx = "build_context db hours cloud since"
  let ?ps = "providers (tp_loads db) (tp_py_str db) (tp_devices db) (tp_services db)"
  from assms obtain d ps m hits where e: "e = uses_edge ?ctx (sort_key pv_key ps) d (m, hits)"
    and ps: "(d, ps) \<in> set (group_by pv_device ?ps)" and mem: "(m, hits) \<in> set (consumers_seen ?ctx d)"
    by (auto simp: consumer_edges_def)
  from ps have "dget (group_by pv_device ?ps) d = Some ps" by (simp add: dget_in_dwf)
  then have ps: "ps = filter (\<lambda>p. pv_device p = d) ?ps" by (simp add: dget_group_by split: if_splits)
  have only: "offered_keys db d = {pv_key p} \<and> pv_device p = d" if "sort_key pv_key ps = [p]" for p
  proof -
    have "set ps = {p}" by (metis that list.set(1,2) set_sort)
    then have "{q \<in> set ?ps. pv_device q = d} = {p}" by (simp add: ps)
    then have "pv_device p = d" and "key \<in> pv_key ` {q \<in> set ?ps. pv_device q = d} \<longleftrightarrow> key = pv_key p" for key by auto
    moreover have "key \<in> pv_key ` {q \<in> set ?ps. pv_device q = d} \<longleftrightarrow> key \<in> offered_keys db d" for key
      unfolding providers_keys(2) [of d key db, symmetric] by auto
    ultimately show ?thesis by auto
  qed
  have "((d, m), hits) \<in> set (trigger_members True (tp_outages db))" and mc: "m \<noteq> d" "2 \<le> hits"
    "2 \<le> triggered (tp_outages db) d" "3 / 4 \<le> real hits / real (triggered (tp_outages db) d)"
    using mem by (auto simp: consumers_seen_def Let_def trigger_counts_lookup MIN_CONSUMER_OUTAGES_def MIN_CONSUMER_RATIO_def
      split: if_splits)
  then have hits: "hits = dropped_with (tp_outages db) d m" by (simp add: trigger_members_lookup)
  have ratio: "3 * triggered (tp_outages db) d \<le> 4 * hits" using mc by (simp add: field_simps)
  show "ed_confidence e = ''observed''" by (simp add: e uses_edge_def Let_def split: list.split)
  have "ed_type e = ''uses''" "ed_src e = device_node_id m" "ed_count e = hits"
    by (simp_all add: e uses_edge_def Let_def split: list.split)
  moreover have "ed_dst e = device_node_id d \<or> (\<exists>key. ed_dst e = service_node_id d key \<and> offered_keys db d = {key})"
  proof (cases "\<exists>p. sort_key pv_key ps = [p]")
    case True
    then obtain p where p: "sort_key pv_key ps = [p]" by blast
    from only [OF p] show ?thesis by (simp add: e p uses_edge_def Let_def provider_node_id_def)
  next
    case False
    then show ?thesis by (auto simp: e uses_edge_def Let_def split: list.split)
  qed
  ultimately show "uses_recorded db e" unfolding uses_recorded_def using mc ratio hits by auto
qed

definition built_in_edges :: "topo_db \<Rightarrow> infer_ctx \<Rightarrow> edge list" where
  "built_in_edges db ctx = gateway_edges db ctx @ internet_edges db ctx @ dns_edges db ctx @ cloud_edges db ctx @
     provider_edges db ctx @ consumer_edges db ctx"

lemma run_built_in: "snd (run_sources EDGE_SOURCES db ctx) = built_in_edges db ctx"
  by (simp add: run_sources_def EDGE_SOURCES_def built_in_edges_def)

lemma infer_all_edges:
  "\<exists>nodes. infer_all sources db hours cloud since =
     Some (nodes, merge_edges (snd (run_sources sources db (build_context db hours cloud since))))
   \<and> support_nodes db (build_context db hours cloud since)
       (merge_edges (snd (run_sources sources db (build_context db hours cloud since)))) = Some nodes"
  using dependent_counts_lookup [of "merge_edges (snd (run_sources sources db (build_context db hours cloud since)))"]
  by (auto simp: infer_all_def support_nodes_def Let_def)

lemma built_in_recorded:
  assumes "e \<in> set (built_in_edges db (build_context db hours cloud since))"
  shows "ed_type e \<in> {''gateway'', ''internet''} \<and> ed_confidence e \<noteq> ''observed'' \<or>
     dns_recorded db since e \<or> cloud_recorded db since e \<or>
     ed_type e = ''hosted_by'' \<and> (ed_confidence e = ''observed'' \<longrightarrow> service_recorded db e) \<or> uses_recorded db e"
  using assms gateway_edges_type [of e db hours cloud since] internet_edges_type [of e db "build_context db hours cloud since"]
    dns_edges_recorded [of e db hours cloud since] cloud_edges_recorded [of e db hours cloud since]
    provider_edges_recorded [of e db hours cloud since] consumer_edges_recorded [of e db hours cloud since]
  unfolding built_in_edges_def by auto

lemma recorded_types:
  "dns_recorded db since e \<Longrightarrow> ed_type e = ''dns''" "cloud_recorded db since e \<Longrightarrow> ed_type e \<in> {''cloud'', ''cloud_blocked''}"
  "service_recorded db e \<Longrightarrow> ed_type e = ''hosted_by''" "uses_recorded db e \<Longrightarrow> ed_type e = ''uses''"
  by (auto simp: recorded_defs Let_def)

lemma recorded_cong:
  assumes "edge_key e = edge_key m"
  shows "ed_count e = ed_count m \<Longrightarrow> dns_recorded db since e = dns_recorded db since m"
    and "ed_count e = ed_count m \<Longrightarrow> cloud_recorded db since e = cloud_recorded db since m"
    and "ed_count e = ed_count m \<Longrightarrow> uses_recorded db e = uses_recorded db m"
    and "service_recorded db e = service_recorded db m"
  using assms by (simp_all add: recorded_defs edge_key_def)

lemma key_type: "edge_key e = edge_key m \<Longrightarrow> ed_type e = ed_type m"
  by (simp add: edge_key_def)


text \<open>
  Registering another evidence source can only add links and strengthen them: every link of the map
  stays, with a confidence and a count at least as high.
\<close>

theorem new_source_only_strengthens:
  assumes "infer_all sources db hours cloud since = Some (nodes, edges)" and "name \<notin> fst ` set sources"
    and "infer_all (register_source name source sources) db hours cloud since = Some (nodes', edges')" and "e \<in> set edges"
  shows "\<exists>e'\<in>set edges'. edge_key e' = edge_key e \<and>
    CONFIDENCE_RANK (ed_confidence e) \<le> CONFIDENCE_RANK (ed_confidence e') \<and> ed_count e \<le> ed_count e'"
proof -
  let ?ctx = "build_context db hours cloud since"
  let ?old = "snd (run_sources sources db ?ctx)" and ?new = "case source db ?ctx of None \<Rightarrow> [] | Some es \<Rightarrow> es"
  have "filter (\<lambda>ns. fst ns \<noteq> name) sources = sources" using assms(2) by (auto simp: filter_id_conv)
  then have run: "snd (run_sources (register_source name source sources) db ?ctx) = ?old @ ?new"
    by (simp add: register_source_def run_sources_def)
  have edges: "edges = merge_edges ?old" "edges' = merge_edges (?old @ ?new)"
    using assms(1,3) infer_all_edges [of sources db hours cloud since]
      infer_all_edges [of "register_source name source sources" db hours cloud since] by (auto simp: run)
  have e: "e \<in> set (merge_edges ?old)" using assms(4) edges(1) by simp
  from merged_source(1) [OF e] obtain x where "x \<in> set (?old @ ?new)" "edge_key x = edge_key e" by auto
  with merged_exists obtain e' where e': "e' \<in> set (merge_edges (?old @ ?new))" "edge_key e' = edge_key e" by metis
  have sub: "set (with_key (edge_key e) ?old) \<subseteq> set (with_key (edge_key e) (?old @ ?new))" by (auto simp: with_key_def)
  have "ed_count e \<le> ed_count e'"
    unfolding merged_fields(1) [OF e] merged_fields(1) [OF e'(1)] e'(2)
    using sub merged_fields(4) [OF e] by (intro Max_mono image_mono) auto
  moreover have "CONFIDENCE_RANK (ed_confidence e) \<le> CONFIDENCE_RANK (ed_confidence e')"
    unfolding merged_fields(2) [OF e] merged_fields(2) [OF e'(1)] e'(2)
    using sub merged_fields(4) [OF e] by (intro Max_mono image_mono) auto
  ultimately show ?thesis using e' edges(2) by blast
qed

section \<open>No link points nowhere\<close>

definition graph_row :: "device_info \<Rightarrow> graph_device" where
  "graph_row r = \<lparr>gd_id = dv_id r, gd_mac = dv_mac r, gd_ip = dv_ip r, gd_kind = dv_kind r,
     gd_label = display_name r, gd_online = dv_online r\<rparr>"

text \<open>\<open>build_graph(conn, hours, include_cloud)\<close>: what was inferred together with the device nodes.\<close>

definition dependency_map ::
  "(str \<times> edge_source) list \<Rightarrow> topo_db \<Rightarrow> int \<Rightarrow> bool \<Rightarrow> str \<Rightarrow> (nat \<times> str option) list \<Rightarrow> (node list \<times> edge list) option" where
  "dependency_map sources db hours include_cloud since findings =
     (case infer_all sources db hours include_cloud since of
        None \<Rightarrow> None
      | Some (nodes, edges) \<Rightarrow>
          build_graph (map graph_row (tp_devices db)) (hub_device_ids (tp_loads db) (tp_py_str db) (tp_devices db)) findings nodes edges)"

text \<open>The foreign keys of the tables: every device a row names exists.\<close>

definition keys_ok :: "topo_db \<Rightarrow> bool" where
  "keys_ok db \<longleftrightarrow> sg_device ` set (tp_sightings db) \<subseteq> dv_id ` set (tp_devices db) \<and>
     os_device ` set (tp_services db) \<subseteq> dv_id ` set (tp_devices db) \<and>
     mr_device ` set (od_members (tp_outages db)) \<subseteq> dv_id ` set (tp_devices db)"

lemma owner_known:
  assumes "owner_at (address_owners since sightings rows) a ts = Some d"
  shows "d \<in> sg_device ` set sightings \<union> dv_id ` set rows"
proof -
  let ?ow = "address_owners since sightings rows"
  define runs where "runs = (case dget (ow_spans ?ow) a of Some rs \<Rightarrow> rs | None \<Rightarrow> [])"
  have run: "snd (snd r) \<in> sg_device ` set sightings" if r: "r \<in> set runs" for r
  proof -
    obtain rs where "dget (ow_spans ?ow) a = Some rs" "r \<in> set rs" using r by (cases "dget (ow_spans ?ow) a") (auto simp: runs_def)
    then have "r \<in> set (runs_of (seen_at since sightings a))" by (auto simp: address_owners_def Let_def dest: dget_Some_in)
    then show ?thesis by (auto simp: set_runs seen_at_def)
  qed
  have current: "dget (fold (\<lambda>r. dset (the (dv_ip r)) (dv_id r)) rs []) a = Some d \<Longrightarrow> d \<in> dv_id ` set rs" for rs
    by (induction rs rule: rev_induct) (auto split: if_splits)
  consider "runs = []" "dget (ow_current ?ow) a = Some d" | "runs \<noteq> []" "d = snd (snd (hd runs))"
    | p where "p \<noteq> 0" "p = bisect_right (map fst runs) ts" "d = snd (snd (runs ! (p - 1)))"
    using assms by (auto simp: owner_at_def runs_def [symmetric] Let_def split: if_splits)
  then show ?thesis
  proof cases
    case 1
    then show ?thesis using current [of "filter (\<lambda>r. case dv_ip r of Some t \<Rightarrow> t \<noteq> [] | None \<Rightarrow> False) (sort_key dv_id rows)"]
      by (auto simp: address_owners_def Let_def)
  next
    case 2
    then show ?thesis using run [of "hd runs"] by simp
  next
    case 3
    have "p \<le> length runs" unfolding 3(2) bisect_right_def using length_takeWhile_le [of "\<lambda>i. i \<le> ts" "map fst runs"] by simp
    then show ?thesis using run [of "runs ! (p - 1)"] 3 by simp
  qed
qed

lemma asked_known: "asked_by (db_owners db since) since queries d \<noteq> [] \<Longrightarrow> keys_ok db \<Longrightarrow> d \<in> dv_id ` set (tp_devices db)"
  by (auto simp: asked_by_def filter_empty_conv db_owners_def keys_ok_def dest!: owner_known)

lemma asked_for_pos: "0 < asked_for ow since queries d domain actions \<Longrightarrow> asked_by ow since queries d \<noteq> []"
  by (auto simp: asked_for_def)

lemma service_known:
  assumes "(d, rule, evidence) \<in> set (db_services db)" "keys_ok db"
  shows "d \<in> dv_id ` set (tp_devices db)"
  using assms by (auto simp: db_services_def seen_services_def advertised_def map_filter_member listening_def keys_ok_def)

lemma provider_known:
  assumes "p \<in> set (providers (tp_loads db) (tp_py_str db) (tp_devices db) (tp_services db))" "keys_ok db"
  shows "pv_device p \<in> dv_id ` set (tp_devices db)"
proof -
  have "pv_key p \<in> offered_keys db (pv_device p)" using assms(1) providers_keys(2) [of "pv_device p" "pv_key p" db] by blast
  then show ?thesis using service_known assms(2) by (auto simp: offered_keys_def)
qed

text \<open>The end points of the links each source makes.\<close>

definition end_points :: "topo_db \<Rightarrow> infer_ctx \<Rightarrow> str set" where
  "end_points db ctx = device_node_id ` dv_id ` set (tp_devices db) \<union> provider_node_id ` set (ic_providers ctx) \<union>
     (if ic_resolver ctx then {RESOLVER_ID} else {}) \<union>
     {service_node_id (dv_id r) ''hub'' | r. r \<in> set (ic_rows ctx) \<and> hub_signal (tp_loads db) (tp_py_str db) r \<noteq> None}"

lemma gateway_known: "fst (gateway_device db) = Some r \<Longrightarrow> r \<in> set (tp_devices db)"
  by (auto simp: gateway_device_def Let_def dest!: find_Some_D split: option.splits if_splits)

lemma built_in_ends:
  assumes "keys_ok db" and "e \<in> set (built_in_edges db (build_context db hours cloud since))"
  shows "ed_src e \<in> end_points db (build_context db hours cloud since)"
    and "ed_dst e \<in> end_points db (build_context db hours cloud since) \<union> {INTERNET_ID} \<union> range cloud_node_id"
proof -
  let ?ctx = "build_context db hours cloud since" and ?ids = "dv_id ` set (tp_devices db)"
  let ?ps = "providers (tp_loads db) (tp_py_str db) (tp_devices db) (tp_services db)"
  have dev: "d \<in> ?ids \<Longrightarrow> device_node_id d \<in> end_points db ?ctx" for d by (auto simp: end_points_def)
  have "ed_src e \<in> end_points db ?ctx \<and> ed_dst e \<in> end_points db ?ctx \<union> {INTERNET_ID} \<union> range cloud_node_id"
  proof -
    consider (gateway) "e \<in> set (gateway_edges db ?ctx)" | (internet) "e \<in> set (internet_edges db ?ctx)"
      | (dns) "e \<in> set (dns_edges db ?ctx)" | (cloud) "e \<in> set (cloud_edges db ?ctx)"
      | (provider) "e \<in> set (provider_edges db ?ctx)" | (consumer) "e \<in> set (consumer_edges db ?ctx)"
      using assms(2) by (auto simp: built_in_edges_def)
    then show ?thesis
    proof cases
      case gateway
      then show ?thesis using gateway_known [of db] dev by (auto simp: gateway_edges_def Let_def split: option.splits)
    next
      case internet
      then show ?thesis using gateway_known [of db] dev
        by (auto simp: internet_edges_def end_points_def split: option.splits if_splits)
    next
      case dns
      then have "ed_dst e = RESOLVER_ID" "ic_resolver ?ctx" and "dns_recorded db since e"
        using dns_edges_recorded [OF dns] by (auto simp: dns_edges_def dns_edge_def split: if_splits)
      then show ?thesis using asked_known [OF _ assms(1)] dev by (auto simp: dns_recorded_def end_points_def)
    next
      case cloud
      from cloud_edges_recorded [OF this] obtain d domain where "ed_src e = device_node_id d" "ed_dst e = cloud_node_id domain"
        "0 < asked_for (db_owners db since) since (tp_queries db) d domain {''allow'', ''cache''} \<or>
         0 < asked_for (db_owners db since) since (tp_queries db) d domain {''block''}"
        by (auto simp: cloud_recorded_def Let_def)
      moreover from this(3) have "asked_by (db_owners db since) since (tp_queries db) d \<noteq> []" using asked_for_pos by blast
      then have "d \<in> ?ids" using assms(1) by (rule asked_known)
      ultimately show ?thesis using dev by auto
    next
      case provider
      then show ?thesis
        using dev provider_known [OF _ assms(1)] by (auto simp: provider_edges_def map_filter_member end_points_def)
    next
      case consumer
      then obtain d ps m hits where e: "e = uses_edge ?ctx (sort_key pv_key ps) d (m, hits)"
        and ps: "(d, ps) \<in> set (group_by pv_device ?ps)" and mem: "(m, hits) \<in> set (consumers_seen ?ctx d)"
        by (auto simp: consumer_edges_def)
      from ps have look: "dget (group_by pv_device ?ps) d = Some ps" by (simp add: dget_in_dwf)
      then have "ps \<noteq> []" and sub: "set ps \<subseteq> set ?ps" and d: "\<forall>p\<in>set ps. pv_device p = d"
        by (auto simp: dget_group_by filter_empty_conv split: if_splits)
      then have "device_node_id d \<in> end_points db ?ctx" using provider_known [OF _ assms(1)] dev by (cases ps) auto
      moreover have "provider_node_id p \<in> end_points db ?ctx" if "sort_key pv_key ps = [p]" for p
      proof -
        have "p \<in> set ps" by (metis that list.set_intros(1) set_sort)
        then show ?thesis using sub by (auto simp: end_points_def)
      qed
      ultimately have "ed_dst e \<in> end_points db ?ctx" by (auto simp: e uses_edge_def Let_def split: list.split)
      moreover have "((d, m), hits) \<in> set (trigger_members True (tp_outages db))"
        using mem by (auto simp: consumers_seen_def Let_def split: if_splits)
      then have "dget (trigger_members True (tp_outages db)) (d, m) = Some hits"
        unfolding trigger_members_def by (intro dget_in_dwf dwf_sort_key dwf_count_up)
      then have "m \<in> mr_device ` set (od_members (tp_outages db))"
        unfolding trigger_members_def dget_sort_key [OF dwf_count_up] fold_count_up
        by (auto split: if_splits option.splits)
      then have "ed_src e \<in> end_points db ?ctx"
        using dev assms(1) by (auto simp: e uses_edge_def Let_def keys_ok_def split: list.split)
      ultimately show ?thesis by simp
    qed
  qed
  then show "ed_src e \<in> end_points db ?ctx" "ed_dst e \<in> end_points db ?ctx \<union> {INTERNET_ID} \<union> range cloud_node_id" by auto
qed

text \<open>The nodes of the map: the device nodes and the inferred ones.\<close>

lemma support_ids:
  assumes "support_nodes db ctx edges = Some nodes"
  shows "nd_id ` set nodes = (if INTERNET_ID \<in> ed_dst ` set edges then {INTERNET_ID} else {}) \<union>
     (if ic_resolver ctx then {RESOLVER_ID} else {}) \<union> provider_node_id ` set (ic_providers ctx) \<union>
     {service_node_id (dv_id r) ''hub'' | r. r \<in> set (ic_rows ctx) \<and> hub_signal (tp_loads db) (tp_py_str db) r \<noteq> None} \<union>
     {i. i \<in> ed_dst ` set edges \<and> prefix ''cloud:'' i}"
proof -
  have cloud: "(\<lambda>i. nd_id (cloud_node edges reach i)) ` cloud_node_id ` drop 6 ` {i. i \<in> S \<and> prefix ''cloud:'' i} =
      {i. i \<in> S \<and> prefix ''cloud:'' i}" for S reach
  proof -
    have "nd_id (cloud_node edges reach (cloud_node_id (drop 6 i))) = i" if "prefix ''cloud:'' i" for i
      using that by (auto simp: cloud_node_def cloud_node_id_def prefix_def Let_def)
    then show ?thesis by (force simp: image_iff)
  qed
  have hubs: "nd_id ` set (List.map_filter (hub_node db ctx) rows) =
      {service_node_id (dv_id r) ''hub'' | r. r \<in> set rows \<and> hub_signal (tp_loads db) (tp_py_str db) r \<noteq> None}" for rows
  proof -
    have none: "hub_node db ctx r = None \<longleftrightarrow> hub_signal (tp_loads db) (tp_py_str db) r = None" for r by (simp add: hub_node_def)
    have some: "hub_node db ctx r = Some n \<Longrightarrow> nd_id n = service_node_id (dv_id r) ''hub''" for r n by (auto simp: hub_node_def)
    have "i \<in> nd_id ` set (List.map_filter (hub_node db ctx) rows) \<longleftrightarrow> (\<exists>r\<in>set rows. \<exists>n. hub_node db ctx r = Some n \<and> i = nd_id n)" for i
      unfolding image_iff Bex_def map_filter_member by blast
    also have "\<dots> i \<longleftrightarrow> (\<exists>r. i = service_node_id (dv_id r) ''hub'' \<and> r \<in> set rows \<and> hub_signal (tp_loads db) (tp_py_str db) r \<noteq> None)" for i
      unfolding none [symmetric] using some by (metis not_None_eq)
    finally show ?thesis by blast
  qed
  have prov: "nd_id (provider_node ctx c p) = provider_node_id p" for c p by (simp add: provider_node_def Let_def)
  from assms obtain reach where nodes: "dependent_counts edges = Some reach" by (auto simp: support_nodes_def split: option.splits)
  have dsts: "list_ex (\<lambda>e. ed_dst e = INTERNET_ID) edges \<longleftrightarrow> INTERNET_ID \<in> ed_dst ` set edges"
    unfolding list_ex_iff image_iff by metis
  have set_cloud: "set (filter (prefix ''cloud:'') (map ed_dst edges)) = {i. i \<in> ed_dst ` set edges \<and> prefix ''cloud:'' i}" by auto
  have tail: "nd_id ` set (map (cloud_node edges reach) (map cloud_node_id (sort (map (drop 6)
      (remdups (filter (prefix ''cloud:'') (map ed_dst edges))))))) = {i. i \<in> ed_dst ` set edges \<and> prefix ''cloud:'' i}"
    using cloud [where S = "ed_dst ` set edges" and reach = reach] by (simp only: set_map set_sort set_remdups image_image set_cloud)
  show ?thesis
    using assms unfolding support_nodes_def nodes option.case Let_def option.inject
  proof (elim subst, unfold set_append image_Un tail hubs Un_assoc [symmetric], intro arg_cong2 [of _ _ _ _ "(\<union>)"] refl)
  qed (simp_all add: dsts prov image_image)
qed

lemma set_sorted_nodes [simp]: "set (sorted_nodes ns) = set ns"
  by (simp add: sorted_nodes_def)

text \<open>
  C28. When the rows of the database name existing devices, building the map drops no link: all ends of all
  inferred links are nodes of the map.
\<close>

theorem map_has_no_dangling_links:
  assumes "keys_ok db"
  shows "\<exists>inferred links nodes. infer_all EDGE_SOURCES db hours cloud since = Some (inferred, links) \<and>
    dependency_map EDGE_SOURCES db hours cloud since findings = Some (nodes, sort_key edge_key links) \<and>
    (\<forall>e\<in>set links. ed_src e \<in> nd_id ` set nodes \<and> ed_dst e \<in> nd_id ` set nodes)"
proof -
  let ?ctx = "build_context db hours cloud since"
  obtain inferred links where all: "infer_all EDGE_SOURCES db hours cloud since = Some (inferred, links)"
    and links: "links = merge_edges (built_in_edges db ?ctx)" and support: "support_nodes db ?ctx links = Some inferred"
    using infer_all_edges [of EDGE_SOURCES db hours cloud since] by (auto simp: run_built_in)
  obtain counts where counts: "dependent_counts links = Some counts" using dependent_counts_lookup by blast
  define nodes where "nodes = sorted_nodes (map (device_node (hub_device_ids (tp_loads db) (tp_py_str db) (tp_devices db))
      (worst_severities findings) counts) (sort_key gd_id (map graph_row (tp_devices db))) @ inferred)"
  have ids: "nd_id ` set nodes = device_node_id ` dv_id ` set (tp_devices db) \<union> nd_id ` set inferred"
    by (simp add: nodes_def image_Un image_image device_node_def graph_row_def)
  have ends: "ed_src e \<in> nd_id ` set nodes \<and> ed_dst e \<in> nd_id ` set nodes" if e: "e \<in> set links" for e
  proof -
    obtain x where x: "x \<in> set (built_in_edges db ?ctx)" "edge_key x = edge_key e"
      using merged_source(1) e links by blast
    then have same: "ed_src x = ed_src e" "ed_dst x = ed_dst e" by (simp_all add: edge_key_def)
    have inner: "end_points db ?ctx \<subseteq> nd_id ` set nodes"
      unfolding ids support_ids [OF support] end_points_def by blast
    have "i \<in> nd_id ` set nodes" if "i \<in> ed_dst ` set links" "i \<in> {INTERNET_ID} \<union> range cloud_node_id" for i
    proof (cases "i = INTERNET_ID")
      case True
      then show ?thesis using that(1) unfolding ids support_ids [OF support] by simp
    next
      case False
      then have "prefix ''cloud:'' i" using that(2) by (auto simp: cloud_node_id_def)
      then show ?thesis using that(1) unfolding ids support_ids [OF support] by blast
    qed
    then show ?thesis using built_in_ends [OF assms x(1)] same inner e by auto
  qed
  have "filter (\<lambda>e. ed_src e \<in> set (map nd_id nodes) \<and> ed_dst e \<in> set (map nd_id nodes)) (sort_key edge_key links) = sort_key edge_key links"
    using ends by (simp add: filter_id_conv)
  then have "dependency_map EDGE_SOURCES db hours cloud since findings = Some (nodes, sort_key edge_key links)"
    by (simp add: dependency_map_def all build_graph_def counts nodes_def [symmetric] Let_def)
  with all ends show ?thesis by blast
qed

section \<open>An example\<close>

definition example_db :: topo_db where
  "example_db = \<lparr>
     tp_devices = [\<lparr>dv_id = 1, dv_mac = None, dv_ip = Some ''10.0.0.5'', dv_hostname = None, dv_nickname = None, dv_vendor = None,
        dv_kind = None, dv_online = True, dv_mdns = None\<rparr>,
       \<lparr>dv_id = 2, dv_mac = None, dv_ip = None, dv_hostname = None, dv_nickname = None, dv_vendor = None,
        dv_kind = None, dv_online = True, dv_mdns = None\<rparr>],
     tp_sightings = example_sightings, tp_services = [],
     tp_queries = [\<lparr>dq_ts = ''2026-09-13T21:50:00Z'', dq_client = ''10.0.0.5'', dq_qname = ''a.example.com'', dq_action = ''allow''\<rparr>],
     tp_settings = [], tp_config_gateway = None, tp_config_cidr = None,
     tp_outages = \<lparr>od_outages = [], od_members = []\<rparr>, tp_loads = Map.empty, tp_py_str = (\<lambda>_. [])\<rparr>"

lemma example_keys: "keys_ok example_db"
  by (simp add: keys_ok_def example_db_def example_sightings_def)

lemma example_asked:
  "client_counts (build_context example_db 168 False ''2026-09-10'') (tp_queries example_db) = [(1, 1)]"
  by code_simp

lemma example_built_in:
  "built_in_edges example_db (build_context example_db 168 False ''2026-09-10'') =
     [\<lparr>ed_src = RESOLVER_ID, ed_dst = INTERNET_ID, ed_type = ''internet'', ed_protocol = Some ''dns'', ed_confidence = ''inferred'',
        ed_evidence = ''the resolver forwards anything it cannot answer to its upstreams'', ed_count = 0\<rparr>,
      dns_edge 168 (1, 1)]"
  by code_simp

theorem map_has_no_dangling_links_witness:
  "\<exists>inferred links nodes. infer_all EDGE_SOURCES example_db 168 False ''2026-09-10'' = Some (inferred, links) \<and>
    dependency_map EDGE_SOURCES example_db 168 False ''2026-09-10'' [] = Some (nodes, sort_key edge_key links) \<and>
    (\<forall>e\<in>set links. ed_src e \<in> nd_id ` set nodes \<and> ed_dst e \<in> nd_id ` set nodes)"
  by (rule map_has_no_dangling_links [OF example_keys])

lemma example_edges: "\<exists>nodes. infer_all EDGE_SOURCES example_db 168 False ''2026-09-10'' =
    Some (nodes, merge_edges (built_in_edges example_db (build_context example_db 168 False ''2026-09-10'')))"
  using infer_all_edges [of EDGE_SOURCES example_db 168 False "''2026-09-10''"] by (auto simp: run_built_in)

lemma example_merged: "dns_edge 168 (1, 1) \<in> set (merge_edges (built_in_edges example_db (build_context example_db 168 False ''2026-09-10'')))"
  unfolding example_built_in by (simp add: merge_edges_def merge_step_def edge_key_def dns_edge_def dget_Cons)


theorem new_source_only_strengthens_witness:
  "\<exists>nodes' edges'. infer_all (register_source ''flows'' (\<lambda>db ctx. Some []) EDGE_SOURCES) example_db 168 False ''2026-09-10'' = Some (nodes', edges')
     \<and> (\<exists>e'\<in>set edges'. edge_key e' = edge_key (dns_edge 168 (1, 1)) \<and> 1 \<le> ed_count e')"
proof -
  obtain nodes where old: "infer_all EDGE_SOURCES example_db 168 False ''2026-09-10'' =
      Some (nodes, merge_edges (built_in_edges example_db (build_context example_db 168 False ''2026-09-10'')))"
    using example_edges by blast
  obtain nodes' edges' where new: "infer_all (register_source ''flows'' (\<lambda>db ctx. Some []) EDGE_SOURCES) example_db 168 False ''2026-09-10'' = Some (nodes', edges')"
    using infer_all_edges by blast
  have "''flows'' \<notin> fst ` set EDGE_SOURCES" by (simp add: EDGE_SOURCES_def)
  from new_source_only_strengthens [OF old this new example_merged] show ?thesis using new by (auto simp: dns_edge_def)
qed

text \<open>
  The hour bucket sorts before every stamp of its hour: device 2 has held the address since 21:10 and
  device 1 was last seen on it at 20:05, yet the query made at 21:50 is counted, as observed, for device 1.
\<close>

theorem lease_hour_credits_previous_holder:
  "leased_to (set (seen_at ''2026-09-10'' (tp_sightings example_db) ''10.0.0.5'')) 2 ''2026-09-13T21:50:00Z''"
  "dns_edges example_db (build_context example_db 168 False ''2026-09-10'') = [dns_edge 168 (1, 1)]"
proof -
  show "leased_to (set (seen_at ''2026-09-10'' (tp_sightings example_db) ''10.0.0.5'')) 2 ''2026-09-13T21:50:00Z''"
    using example_leased by (simp add: example_db_def)
  have "ic_resolver (build_context example_db 168 False ''2026-09-10'')" by code_simp
  then show "dns_edges example_db (build_context example_db 168 False ''2026-09-10'') = [dns_edge 168 (1, 1)]"
    by (simp add: dns_edges_def example_asked)
qed

end
