(* ===== verification/Rate_Windows.thy ===== *)
theory Rate_Windows
  imports Soc_Prelude
begin

text \<open>
  Counting events in fixed windows. A limiter that starts a new window only when the old one is over, and lets
  at most \<open>L\<close> events pass in each, lets at most \<open>2 * L\<close> pass in any stretch as long as a window: that is
  \<open>windows_ok\<close>, kept by a further event of the same window and by the start of a new one.
\<close>

definition between :: "real \<Rightarrow> real \<Rightarrow> real list \<Rightarrow> nat" where
  "between a b A = length (filter (\<lambda>x. a \<le> x \<and> x < b) A)"

definition since :: "real \<Rightarrow> real list \<Rightarrow> nat" where
  "since a A = length (filter (\<lambda>x. a \<le> x) A)"

lemma since_mono: "a \<le> b \<Longrightarrow> since b A \<le> since a A"
  by (induction A) (auto simp: since_def)

lemma between_since: "between a b A \<le> since a A"
  by (induction A) (auto simp: between_def since_def)

lemma since_none: "(\<forall>x\<in>set A. x < a) \<Longrightarrow> since a A = 0"
  by (induction A) (auto simp: since_def)

lemma recent_split: "a \<ge> b - w \<Longrightarrow> length (filter (\<lambda>x. a \<le> x \<and> x \<le> c) A) \<le> between (b - w) b A + since b A"
  by (induction A) (auto simp: between_def since_def)

lemma append_counts [simp]:
  "since a (A @ [t]) = since a A + of_bool (a \<le> t)" "between a b (A @ [t]) = between a b A + of_bool (a \<le> t \<and> t < b)"
  by (simp_all add: since_def between_def)

definition never_more_than :: "nat \<Rightarrow> real \<Rightarrow> real list \<Rightarrow> bool" where
  "never_more_than n w A \<longleftrightarrow> (\<forall>a. length (filter (\<lambda>x. a \<le> x \<and> x \<le> a + w) A) \<le> n)"

definition windows_ok :: "nat \<Rightarrow> real \<Rightarrow> real list \<Rightarrow> real \<Rightarrow> bool" where
  "windows_ok L w A start \<longleftrightarrow> never_more_than (2 * L) w A \<and> since start A \<le> L \<and> between (start - w) start A \<le> L"

lemma windows_Nil [simp]: "windows_ok L w [] start"
  by (simp add: windows_ok_def never_more_than_def since_def between_def)

lemma windows_more: "windows_ok L w A start \<Longrightarrow> never_more_than (2 * L) w A"
  by (simp add: windows_ok_def)

text \<open>One more event in the running window, which still has room.\<close>

lemma windows_event:
  assumes ok: "windows_ok L w A start" and room: "since start A < L" and t: "start \<le> t"
  shows "windows_ok L w (A @ [t]) start"
proof -
  have "length (filter (\<lambda>x. a \<le> x \<and> x \<le> a + w) (A @ [t])) \<le> 2 * L" for a
  proof (cases "a \<le> t \<and> t \<le> a + w")
    case True
    then have "start - w \<le> a" using t by linarith
    from recent_split [OF this, of "a + w" A] True ok room show ?thesis by (auto simp: windows_ok_def)
  qed (use ok in \<open>auto simp: windows_ok_def never_more_than_def\<close>)
  then show ?thesis using ok room t by (auto simp: windows_ok_def never_more_than_def)
qed

text \<open>A new window, whose predecessor \<open>start\<close> is at least \<open>w\<close> older and has no events any more.\<close>

lemma windows_next:
  assumes ok: "windows_ok L w A start" and old: "\<forall>x\<in>set A. x < start'" and gap: "start + w \<le> start'"
  shows "windows_ok L w A start'"
proof -
  have "between (start' - w) start' A \<le> since start A"
    using between_since [of "start' - w" start' A] since_mono [of start "start' - w" A] gap by linarith
  then show ?thesis using ok since_none [OF old] by (auto simp: windows_ok_def)
qed

end
