(* ===== verification/Lens_Db.thy ===== *)
theory Lens_Db
  imports Topo_Evidence Rate_Windows
begin

text \<open>
  Paired phones and pairing codes (the \<open>lens_*\<close> functions of \<open>homesoc/db.py\<close>): minting, verifying and
  revoking tokens, single-use pairing codes, and the rate limit of claims.

  The tables are the record \<open>lens_db\<close>; the settings \<open>lens.pairing.*\<close> and \<open>lens.claim.*\<close>, whose values
  are JSON texts of exactly these fields, are the dictionaries \<open>ld_codes\<close> and \<open>ld_claims\<close>. SHA-256 is the
  argument \<open>sha\<close>; the secrets drawn by \<open>secrets\<close> are arguments. Stored stamps are whole seconds
  (\<open>stamp t\<close>), the clock \<open>t\<close> of a call is a real. A function that holds the write lock is one step.
\<close>

definition LENS_PAIRING_TTL_SECONDS :: int where "LENS_PAIRING_TTL_SECONDS = 300"
definition LENS_CLAIM_LIMIT :: nat where "LENS_CLAIM_LIMIT = 10"
definition LENS_CLAIM_WINDOW_SECONDS :: int where "LENS_CLAIM_WINDOW_SECONDS = 3600"
definition LENS_SCOPES :: "str list" where "LENS_SCOPES = [''read'', ''act'']"

section \<open>The tables\<close>

record token_row =
  tk_id :: nat
  tk_hash :: str
  tk_label :: str
  tk_scopes :: str
  tk_created :: int
  tk_seen :: "int option"
  tk_ip :: "str option"
  tk_expires :: "int option"
  tk_revoked :: "int option"

record claim_state =
  cs_start :: int
  cs_count :: nat
  cs_blocked :: "int option"

datatype lens_event =
    PairedDevice nat str
  | RevokedToken nat
  | RevokedAll nat
  | TooManyAttempts str nat
  | AttemptRefused str

record lens_db =
  ld_tokens :: "token_row list"
  ld_codes :: "(str, int) dict"
  ld_claims :: "(str, claim_state) dict"
  ld_events :: "lens_event list"

definition stamp :: "real \<Rightarrow> int" where
  "stamp t = \<lfloor>t\<rfloor>"

definition record_lens_event :: "lens_event \<Rightarrow> lens_db \<Rightarrow> lens_db" where
  "record_lens_event e db = db\<lparr>ld_events := ld_events db @ [e]\<rparr>"

section \<open>Scopes\<close>

text \<open>Scopes arrive as one text here; \<open>read\<close> is always among them.\<close>

definition lens_normalise_scopes :: "str \<Rightarrow> str" where
  "lens_normalise_scopes scopes =
     (let parts = map (\<lambda>p. lower (strip p)) (split_on CHR '','' (map (\<lambda>c. if c = CHR '' '' then CHR '','' else c) scopes));
          kept = filter (\<lambda>s. s \<in> set parts) LENS_SCOPES
      in join_with CHR '','' (if ''read'' \<in> set kept then kept else ''read'' # kept))"

definition lens_has_scope :: "str \<Rightarrow> str \<Rightarrow> bool" where
  "lens_has_scope scopes scope \<longleftrightarrow> scope \<in> set (split_on CHR '','' (lens_normalise_scopes scopes))"

section \<open>Tokens\<close>

definition lens_expired :: "int option \<Rightarrow> real \<Rightarrow> bool" where
  "lens_expired expires t = (case expires of None \<Rightarrow> False | Some e \<Rightarrow> e \<le> stamp t)"

definition token_active :: "real \<Rightarrow> token_row \<Rightarrow> bool" where
  "token_active t r \<longleftrightarrow> tk_revoked r = None \<and> \<not> lens_expired (tk_expires r) t"

definition lens_active_tokens :: "real \<Rightarrow> lens_db \<Rightarrow> token_row list" where
  "lens_active_tokens t db = filter (token_active t) (ld_tokens db)"

definition lens_list_tokens :: "bool \<Rightarrow> lens_db \<Rightarrow> token_row list" where
  "lens_list_tokens include_revoked db = filter (\<lambda>r. include_revoked \<or> tk_revoked r = None) (ld_tokens db)"

text \<open>The label a phone sends, without control characters, or \<open>phone\<close>.\<close>

definition clean_label :: "str \<Rightarrow> str" where
  "clean_label label =
     (let a = strip (filter (\<lambda>c. \<not> unsafe_text c) label);
          b = strip (take 64 (if a = [] then ''phone'' else a))
      in if b = [] then ''phone'' else b)"

definition next_token_id :: "lens_db \<Rightarrow> nat" where
  "next_token_id db = fold max (map tk_id (ld_tokens db)) 0 + 1"

datatype mint_result = Minted token_row | TokenLimit | DuplicateHash

text \<open>One \<open>INSERT ... SELECT ... WHERE count < limit\<close>; the column \<open>token_hash\<close> is \<open>UNIQUE\<close>.\<close>

definition lens_mint_token :: "(str \<Rightarrow> str) \<Rightarrow> str \<Rightarrow> str \<Rightarrow> str \<Rightarrow> int \<Rightarrow> int \<Rightarrow> real \<Rightarrow> lens_db \<Rightarrow> mint_result \<times> lens_db" where
  "lens_mint_token sha token label scopes ttl_days max_tokens t db =
     (let limit = max 1 max_tokens;
          row = \<lparr>tk_id = next_token_id db, tk_hash = sha token, tk_label = clean_label label, tk_scopes = lens_normalise_scopes scopes,
                 tk_created = stamp t, tk_seen = None, tk_ip = None,
                 tk_expires = (if 0 < ttl_days then Some (stamp t + ttl_days * 86400) else None), tk_revoked = None\<rparr>
      in if limit \<le> int (length (lens_active_tokens t db)) then (TokenLimit, db)
         else if sha token \<in> tk_hash ` set (ld_tokens db) then (DuplicateHash, db)
         else (Minted row, record_lens_event (PairedDevice (tk_id row) (tk_label row)) (db\<lparr>ld_tokens := ld_tokens db @ [row]\<rparr>)))"

definition touch_row :: "real \<Rightarrow> str option \<Rightarrow> token_row \<Rightarrow> token_row" where
  "touch_row t ip r = r\<lparr>tk_seen := Some (stamp t), tk_ip := (case ip of None \<Rightarrow> tk_ip r | Some a \<Rightarrow> if a = [] then tk_ip r else Some (take 45 a))\<rparr>"

definition lens_verify_token :: "(str \<Rightarrow> str) \<Rightarrow> str \<Rightarrow> str option \<Rightarrow> real \<Rightarrow> lens_db \<Rightarrow> token_row option \<times> lens_db" where
  "lens_verify_token sha token ip t db =
     (let presented = strip token
      in if presented = [] \<or> 512 < length presented then (None, db)
         else case List.find (\<lambda>r. tk_hash r = sha presented) (ld_tokens db) of
           None \<Rightarrow> (None, db)
         | Some r \<Rightarrow>
             if \<not> token_active t r then (None, db)
             else (Some (touch_row t ip r), db\<lparr>ld_tokens := map (\<lambda>q. if tk_id q = tk_id r then touch_row t ip q else q) (ld_tokens db)\<rparr>))"

definition revoke_row :: "real \<Rightarrow> token_row \<Rightarrow> token_row" where
  "revoke_row t r = (if tk_revoked r = None then r\<lparr>tk_revoked := Some (stamp t)\<rparr> else r)"

definition lens_revoke_token :: "nat \<Rightarrow> real \<Rightarrow> lens_db \<Rightarrow> bool \<times> lens_db" where
  "lens_revoke_token i t db =
     (if list_ex (\<lambda>r. tk_id r = i \<and> tk_revoked r = None) (ld_tokens db)
      then (True, record_lens_event (RevokedToken i)
              (db\<lparr>ld_tokens := map (\<lambda>r. if tk_id r = i then revoke_row t r else r) (ld_tokens db)\<rparr>))
      else (False, db))"

definition lens_revoke_all_tokens :: "real \<Rightarrow> lens_db \<Rightarrow> nat \<times> lens_db" where
  "lens_revoke_all_tokens t db =
     (let changed = length (filter (\<lambda>r. tk_revoked r = None) (ld_tokens db));
          db' = db\<lparr>ld_tokens := map (revoke_row t) (ld_tokens db)\<rparr>
      in (changed, if 0 < changed then record_lens_event (RevokedAll changed) db' else db'))"

section \<open>Pairing codes\<close>

definition lens_clear_pairing_codes :: "lens_db \<Rightarrow> nat \<times> lens_db" where
  "lens_clear_pairing_codes db = (length (ld_codes db), db\<lparr>ld_codes := []\<rparr>)"

definition lens_new_pairing_code :: "(str \<Rightarrow> str) \<Rightarrow> str \<Rightarrow> int \<Rightarrow> real \<Rightarrow> lens_db \<Rightarrow> lens_db" where
  "lens_new_pairing_code sha code ttl t db =
     (let db = snd (lens_clear_pairing_codes db) in db\<lparr>ld_codes := dset (sha code) (stamp t + max 1 ttl) (ld_codes db)\<rparr>)"

definition lens_normalise_pairing_code :: "str \<Rightarrow> str" where
  "lens_normalise_pairing_code code =
     take 32 (upper (strip (filter (\<lambda>c. c \<notin> {CHR '' '', CHR 0x09, CHR ''-'', CHR ''_''}) code)))"

text \<open>Expired codes go first; the row count of the last \<open>DELETE\<close> decides.\<close>

definition lens_consume_pairing_code :: "(str \<Rightarrow> str) \<Rightarrow> str \<Rightarrow> real \<Rightarrow> lens_db \<Rightarrow> bool \<times> lens_db" where
  "lens_consume_pairing_code sha code t db =
     (let presented = lens_normalise_pairing_code code
      in if presented = [] then (False, db)
         else
           (let live = filter (\<lambda>(h, expires). \<not> expires \<le> stamp t) (ld_codes db)
            in (dget live (sha presented) \<noteq> None, db\<lparr>ld_codes := ddel (sha presented) live\<rparr>)))"

datatype pair_result = Paired token_row | AtCeiling | WrongCode | PairCrashed

definition lens_pair_with_code :: "(str \<Rightarrow> str) \<Rightarrow> str \<Rightarrow> str \<Rightarrow> str \<Rightarrow> str \<Rightarrow> int \<Rightarrow> int \<Rightarrow> real \<Rightarrow> lens_db \<Rightarrow> pair_result \<times> lens_db" where
  "lens_pair_with_code sha token code label scopes ttl_days max_tokens t db =
     (let limit = max 1 max_tokens
      in if limit \<le> int (length (lens_active_tokens t db)) then (AtCeiling, db)
         else
           (let (spent, db1) = lens_consume_pairing_code sha code t db
            in if \<not> spent then (WrongCode, db1)
               else (case lens_mint_token sha token label scopes ttl_days limit t db1 of
                   (Minted r, db2) \<Rightarrow> (Paired r, db2)
                 | (TokenLimit, db2) \<Rightarrow> (AtCeiling, db2)
                 | (DuplicateHash, db2) \<Rightarrow> (PairCrashed, db2))))"

section \<open>The rate limit of claims\<close>

text \<open>An IPv6 source counts per /64, an IPv4-mapped one as its IPv4 address.\<close>

definition lens_claim_source :: "str \<Rightarrow> str" where
  "lens_claim_source ip =
     (let raw = take 64 (strip (if ip = [] then ''unknown'' else ip))
      in case ip_address (before CHR ''%'' raw) of
        None \<Rightarrow> (if raw = [] then ''unknown'' else take 45 raw)
      | Some (V4 a) \<Rightarrow> v4_text a
      | Some (V6 a) \<Rightarrow> (case v6_ipv4_mapped a of Some v \<Rightarrow> v4_text v | None \<Rightarrow> network_text (V6 a) 64))"

definition lens_claim_key :: "(str \<Rightarrow> str) \<Rightarrow> str \<Rightarrow> str" where
  "lens_claim_key sha ip = take 16 (sha (lens_claim_source ip))"

definition seconds_until :: "int \<Rightarrow> real \<Rightarrow> int" where
  "seconds_until s t = float_int (of_int s - t)"

text \<open>One source: its counter before and after, whether the attempt is allowed, and the seconds to wait.\<close>

definition claim_blocked :: "claim_state option \<Rightarrow> real \<Rightarrow> int option" where
  "claim_blocked s t = (case s of None \<Rightarrow> None
     | Some s \<Rightarrow> (case cs_blocked s of None \<Rightarrow> None | Some b \<Rightarrow> if stamp t < b then Some b else None))"

definition claim_window :: "int \<Rightarrow> claim_state option \<Rightarrow> real \<Rightarrow> int \<times> nat" where
  "claim_window window s t = (case s of None \<Rightarrow> (stamp t, 0)
     | Some s \<Rightarrow> if seconds_until (cs_start s) t < - window then (stamp t, 0) else (cs_start s, cs_count s))"

definition lens_claim_attempt :: "(str \<Rightarrow> str) \<Rightarrow> nat \<Rightarrow> int \<Rightarrow> str \<Rightarrow> real \<Rightarrow> lens_db \<Rightarrow> (bool \<times> int) \<times> lens_db" where
  "lens_claim_attempt sha limit window ip t db =
     (let key = lens_claim_key sha ip; s = dget (ld_claims db) key
      in case claim_blocked s t of
        Some b \<Rightarrow> ((False, max 1 (seconds_until b t)), db)
      | None \<Rightarrow>
          (let (start, n) = claim_window window s t
           in if max 1 limit < n + 1
              then ((False, window),
                record_lens_event (TooManyAttempts (lens_claim_source ip) (n + 1))
                  (db\<lparr>ld_claims := dset key \<lparr>cs_start = start, cs_count = n + 1, cs_blocked = Some (stamp t + window)\<rparr> (ld_claims db)\<rparr>))
              else ((True, 0), db\<lparr>ld_claims := dset key \<lparr>cs_start = start, cs_count = n + 1, cs_blocked = None\<rparr> (ld_claims db)\<rparr>)))"

definition lens_claim_reset :: "(str \<Rightarrow> str) \<Rightarrow> str \<Rightarrow> lens_db \<Rightarrow> lens_db" where
  "lens_claim_reset sha ip db = db\<lparr>ld_claims := ddel (lens_claim_key sha ip) (ld_claims db)\<rparr>"

definition lens_purge_claim_counters :: "int \<Rightarrow> real \<Rightarrow> lens_db \<Rightarrow> nat \<times> lens_db" where
  "lens_purge_claim_counters older_than t db =
     (let kept = filter (\<lambda>(k, s). \<not> (cs_start s < stamp (t - of_int older_than) \<and>
                  (case cs_blocked s of None \<Rightarrow> True | Some b \<Rightarrow> b < stamp (t - of_int older_than)))) (ld_claims db)
      in (length (ld_claims db) - length kept, db\<lparr>ld_claims := kept\<rparr>))"

end
