(* ===== verification/Lens_Api.thy ===== *)
theory Lens_Api
  imports Lens_Db
begin

text \<open>
  The claim endpoint and the credential check of Lens (\<open>homesoc/web/lens.py\<close>, \<open>homesoc/web/api.py\<close>):
  exchanging a pairing code for a token, who a request comes from and whether it may act, and runs of
  these operations with their outcomes.
\<close>

record lens_cfg =
  lc_enabled :: bool
  lc_allow_actions :: bool
  lc_ttl_days :: int
  lc_max_tokens :: int

definition max_tokens_of :: "lens_cfg \<Rightarrow> int" where
  "max_tokens_of cfg = (if lc_max_tokens cfg = 0 then 10 else lc_max_tokens cfg)"

section \<open>Claiming\<close>

definition parse_scopes :: "str \<Rightarrow> str list" where
  "parse_scopes v = (let raw = split_ws (map (\<lambda>c. if c = CHR '','' then CHR '' '' else c) v) in filter (\<lambda>s. s \<in> set raw) [''read'', ''act''])"

datatype claim_result = ClaimBad | ClaimFull | ClaimPaired token_row

text \<open>
  \<open>lens.claim\<close>: the ceiling is looked at before the code is spent, then again with it. The label is
  trimmed to sixty characters on its way in.
\<close>

definition lens_claim :: "(str \<Rightarrow> str) \<Rightarrow> lens_cfg \<Rightarrow> str \<Rightarrow> str \<Rightarrow> str \<Rightarrow> real \<Rightarrow> lens_db \<Rightarrow> claim_result \<times> lens_db" where
  "lens_claim sha cfg token code label t db =
     (let presented = strip code
      in if presented = [] \<or> 64 < length presented then (ClaimBad, db)
         else
           (let limit = max 1 (max_tokens_of cfg)
            in if limit \<le> int (length (lens_active_tokens t db)) then (ClaimFull, db)
               else
                 (let l = take 60 (strip (take 60 label));
                      name = (if l = [] then ''paired phone'' else l);
                      scopes = (if lc_allow_actions cfg then ''read,act'' else ''read'')
                  in case lens_pair_with_code sha token presented name scopes (lc_ttl_days cfg) limit t db of
                       (Paired r, db') \<Rightarrow> (ClaimPaired r, db')
                     | (AtCeiling, db') \<Rightarrow> (ClaimFull, db')
                     | (WrongCode, db') \<Rightarrow> (ClaimBad, db')
                     | (PairCrashed, db') \<Rightarrow> (ClaimBad, db'))))"

datatype claim_response = ClaimNotFound | ClaimRateLimited int | ClaimRefused | ClaimOk token_row

definition client_ip :: "str option \<Rightarrow> str" where
  "client_ip remote = take 45 (case remote of None \<Rightarrow> ''unknown'' | Some a \<Rightarrow> if a = [] then ''unknown'' else a)"

definition api_lens_claim :: "(str \<Rightarrow> str) \<Rightarrow> lens_cfg \<Rightarrow> str option \<Rightarrow> str \<Rightarrow> str \<Rightarrow> str \<Rightarrow> real \<Rightarrow> lens_db \<Rightarrow> claim_response \<times> lens_db" where
  "api_lens_claim sha cfg remote token code label t db =
     (if \<not> lc_enabled cfg then (ClaimNotFound, db)
      else
        (let ip = client_ip remote;
             ((allowed, retry), db) = lens_claim_attempt sha LENS_CLAIM_LIMIT LENS_CLAIM_WINDOW_SECONDS ip t db
         in if \<not> allowed then (ClaimRateLimited (if retry = 0 then 3600 else retry), db)
            else (case lens_claim sha cfg token code label t db of
                (ClaimPaired r, db) \<Rightarrow> (ClaimOk r, lens_claim_reset sha ip db)
              | (_, db) \<Rightarrow> (ClaimRefused, record_lens_event (AttemptRefused ip) db))))"

section \<open>Who is asking\<close>

datatype principal = LensPhone nat "str list" | Dashboard

datatype principal_error = LensNotFound | Unpaired | NoToken

text \<open>
  \<open>lens_principal\<close>: a token that is presented decides alone; only without one is the dashboard's own
  credential (\<open>dashboard\<close>) looked at.
\<close>

definition lens_principal :: "(str \<Rightarrow> str) \<Rightarrow> lens_cfg \<Rightarrow> str option \<Rightarrow> str option \<Rightarrow> bool \<Rightarrow> real \<Rightarrow> lens_db \<Rightarrow> (principal_error + principal) \<times> lens_db" where
  "lens_principal sha cfg token remote dashboard t db =
     (if \<not> lc_enabled cfg then (Inl LensNotFound, db)
      else case token of
        Some p \<Rightarrow>
          if p = [] then (if dashboard then Inr Dashboard else Inl NoToken, db)
          else (case lens_verify_token sha p (Some (client_ip remote)) t db of
              (None, db') \<Rightarrow> (Inl Unpaired, db')
            | (Some r, db') \<Rightarrow> (let s = parse_scopes (lens_normalise_scopes (tk_scopes r)) in (Inr (LensPhone (tk_id r) (if s = [] then [''read''] else s)), db')))
      | None \<Rightarrow> (if dashboard then Inr Dashboard else Inl NoToken, db))"

definition scopes_of :: "principal \<Rightarrow> str list" where
  "scopes_of p = (case p of LensPhone _ s \<Rightarrow> s | Dashboard \<Rightarrow> [''read'', ''act''])"

definition lens_can_act :: "lens_cfg \<Rightarrow> principal \<Rightarrow> bool" where
  "lens_can_act cfg p \<longleftrightarrow> lc_allow_actions cfg \<and> ''act'' \<in> set (scopes_of p)"

datatype act_denial = ActionsDisabled | MissingScope

definition lens_act_denial :: "lens_cfg \<Rightarrow> principal \<Rightarrow> act_denial option" where
  "lens_act_denial cfg p =
     (if \<not> lc_allow_actions cfg then Some ActionsDisabled
      else if ''act'' \<notin> set (scopes_of p) then Some MissingScope else None)"

section \<open>Runs\<close>

text \<open>
  What happens to the tables over time: the owner opens the pairing page, a phone claims, a request is
  checked, tokens are revoked one by one or all (which also clears the codes), the program starts with Lens
  switched off, and housekeeping purges counters.
\<close>

datatype lens_op =
    NewCode str
  | Claim "str option" str str str
  | Request "str option" "str option" bool
  | Revoke nat
  | RevokeAll
  | LensOff
  | Purge

datatype lens_outcome = Claimed claim_response | Asked "principal_error + principal" | Done

definition lens_step :: "(str \<Rightarrow> str) \<Rightarrow> lens_cfg \<Rightarrow> lens_op \<Rightarrow> real \<Rightarrow> lens_db \<Rightarrow> lens_outcome \<times> lens_db" where
  "lens_step sha cfg op t db = (case op of
     NewCode code \<Rightarrow> (Done, lens_new_pairing_code sha code LENS_PAIRING_TTL_SECONDS t db)
   | Claim remote token code label \<Rightarrow> (case api_lens_claim sha cfg remote token code label t db of (r, db') \<Rightarrow> (Claimed r, db'))
   | Request token remote dashboard \<Rightarrow> (case lens_principal sha cfg token remote dashboard t db of (p, db') \<Rightarrow> (Asked p, db'))
   | Revoke i \<Rightarrow> (Done, snd (lens_revoke_token i t db))
   | RevokeAll \<Rightarrow> (Done, snd (lens_clear_pairing_codes (snd (lens_revoke_all_tokens t db))))
   | LensOff \<Rightarrow> (Done, snd (lens_clear_pairing_codes db))
   | Purge \<Rightarrow> (Done, snd (lens_purge_claim_counters (2 * LENS_CLAIM_WINDOW_SECONDS) t db)))"

type_synonym lens_call = "lens_cfg \<times> lens_op \<times> real"

fun lens_run :: "(str \<Rightarrow> str) \<Rightarrow> lens_call list \<Rightarrow> lens_db \<Rightarrow> (lens_call \<times> lens_outcome) list \<times> lens_db" where
  "lens_run sha [] db = ([], db)"
| "lens_run sha ((cfg, op, t) # calls) db =
     (case lens_step sha cfg op t db of (out, db1) \<Rightarrow>
        (case lens_run sha calls db1 of (tr, db2) \<Rightarrow> (((cfg, op, t), out) # tr, db2)))"

definition no_phones :: lens_db where
  "no_phones = \<lparr>ld_tokens = [], ld_codes = [], ld_claims = [], ld_events = []\<rparr>"

section \<open>Facts about one step\<close>

lemma lens_frame [simp]:
  "ld_tokens (record_lens_event e db) = ld_tokens db" "ld_codes (record_lens_event e db) = ld_codes db" "ld_claims (record_lens_event e db) = ld_claims db"
  "ld_tokens (snd (lens_claim_attempt sha limit w ip t db)) = ld_tokens db" "ld_codes (snd (lens_claim_attempt sha limit w ip t db)) = ld_codes db"
  "ld_tokens (lens_claim_reset sha ip db) = ld_tokens db" "ld_codes (lens_claim_reset sha ip db) = ld_codes db"
  "ld_tokens (snd (lens_clear_pairing_codes db)) = ld_tokens db" "ld_codes (snd (lens_clear_pairing_codes db)) = []"
  "ld_claims (snd (lens_clear_pairing_codes db)) = ld_claims db"
  by (simp_all add: record_lens_event_def lens_claim_attempt_def lens_claim_reset_def lens_clear_pairing_codes_def Let_def split: option.split prod.split)

lemma active_frame: "ld_tokens db' = ld_tokens db \<Longrightarrow> lens_active_tokens t db' = lens_active_tokens t db"
  by (simp add: lens_active_tokens_def)

text \<open>What is left of the codes: no new ones.\<close>

definition fewer :: "'a list \<Rightarrow> 'a list \<Rightarrow> bool" where
  "fewer xs ys \<longleftrightarrow> set xs \<subseteq> set ys \<and> length xs \<le> length ys"

lemma fewer_refl [simp]: "fewer xs xs" and fewer_Nil [simp]: "fewer [] xs"
  by (simp_all add: fewer_def)

lemma fewer_filter: "fewer (filter P xs) xs"
  by (simp add: fewer_def)

definition live_codes :: "real \<Rightarrow> lens_db \<Rightarrow> (str, int) dict" where
  "live_codes t db = filter (\<lambda>(h, expires). \<not> expires \<le> stamp t) (ld_codes db)"

definition new_phone :: "(str \<Rightarrow> str) \<Rightarrow> lens_cfg \<Rightarrow> str \<Rightarrow> str \<Rightarrow> real \<Rightarrow> lens_db \<Rightarrow> lens_db \<Rightarrow> token_row \<Rightarrow> bool" where
  "new_phone sha cfg token code t db db' r \<longleftrightarrow>
     ld_tokens db' = ld_tokens db @ [r] \<and> tk_id r = next_token_id db \<and> tk_hash r = sha token \<and> tk_revoked r = None \<and>
     tk_scopes r = lens_normalise_scopes (if lc_allow_actions cfg then ''read,act'' else ''read'') \<and>
     int (length (lens_active_tokens t db)) < max 1 (max_tokens_of cfg) \<and>
     dget (live_codes t db) (sha (lens_normalise_pairing_code (strip code))) \<noteq> None \<and>
     ld_codes db' = ddel (sha (lens_normalise_pairing_code (strip code))) (live_codes t db)"

lemma mint_cases:
  assumes "lens_mint_token sha token label scopes ttl limit t db = (res, db')"
  obtains r where "res = Minted r" "ld_tokens db' = ld_tokens db @ [r]" "ld_codes db' = ld_codes db" "ld_claims db' = ld_claims db"
      "tk_id r = next_token_id db" "tk_hash r = sha token" "tk_revoked r = None" "tk_scopes r = lens_normalise_scopes scopes"
      "int (length (lens_active_tokens t db)) < max 1 limit"
    | "res = TokenLimit" "db' = db" | "res = DuplicateHash" "db' = db"
  using assms by (auto simp: lens_mint_token_def Let_def split: if_splits)

lemma consume_facts:
  assumes "lens_consume_pairing_code sha code t db = (spent, db')"
  shows "ld_tokens db' = ld_tokens db" and "ld_claims db' = ld_claims db" and "fewer (ld_codes db') (ld_codes db)"
    and "spent \<Longrightarrow> dget (live_codes t db) (sha (lens_normalise_pairing_code code)) \<noteq> None"
    and "spent \<Longrightarrow> ld_codes db' = ddel (sha (lens_normalise_pairing_code code)) (live_codes t db)"
  using assms by (auto simp: lens_consume_pairing_code_def Let_def live_codes_def ddel_def fewer_filter split: if_splits)

lemma pair_cases:
  assumes "lens_pair_with_code sha token code label scopes ttl limit t db = (res, db')"
  obtains (paired) r where "res = Paired r" "ld_tokens db' = ld_tokens db @ [r]" "ld_claims db' = ld_claims db"
      "tk_id r = next_token_id db" "tk_hash r = sha token" "tk_revoked r = None" "tk_scopes r = lens_normalise_scopes scopes"
      "int (length (lens_active_tokens t db)) < max 1 limit"
      "dget (live_codes t db) (sha (lens_normalise_pairing_code code)) \<noteq> None"
      "ld_codes db' = ddel (sha (lens_normalise_pairing_code code)) (live_codes t db)"
    | (refused) "\<And>r. res \<noteq> Paired r" "ld_tokens db' = ld_tokens db" "ld_claims db' = ld_claims db" "fewer (ld_codes db') (ld_codes db)"
proof (cases "max 1 limit \<le> int (length (lens_active_tokens t db))")
  case True
  with assms show thesis by (intro refused) (auto simp: lens_pair_with_code_def)
next
  case False
  obtain spent db1 where c: "lens_consume_pairing_code sha code t db = (spent, db1)" by fastforce
  note f = consume_facts [OF c]
  show thesis
  proof (cases spent)
    case False
    with assms c \<open>\<not> max 1 limit \<le> _\<close> have "res = WrongCode" "db' = db1" by (auto simp: lens_pair_with_code_def)
    with f show thesis by (intro refused) auto
  next
    case True
    obtain m db2 where m: "lens_mint_token sha token label scopes ttl (max 1 limit) t db1 = (m, db2)" by fastforce
    have p: "lens_pair_with_code sha token code label scopes ttl limit t db =
        (case m of Minted r \<Rightarrow> Paired r | TokenLimit \<Rightarrow> AtCeiling | DuplicateHash \<Rightarrow> PairCrashed, db2)"
      using True m
      by (simp only: lens_pair_with_code_def Let_def False c if_False prod.case not_True_eq_False) (simp split: mint_result.split)
    from m show thesis
    proof (cases rule: mint_cases)
      case (1 r)
      have n: "next_token_id db1 = next_token_id db" using f(1) by (simp add: next_token_id_def)
      show thesis using p assms 1 f False True n by (intro paired [of r]) auto
    qed (use p assms f in \<open>auto intro!: refused\<close>)
  qed
qed

lemma claim_cases:
  assumes "lens_claim sha cfg token code label t db = (res, db')"
  obtains (paired) r where "res = ClaimPaired r" "new_phone sha cfg token code t db db' r" "ld_claims db' = ld_claims db"
    | (refused) "\<And>r. res \<noteq> ClaimPaired r" "ld_tokens db' = ld_tokens db" "ld_claims db' = ld_claims db" "fewer (ld_codes db') (ld_codes db)"
proof -
  let ?limit = "max 1 (max_tokens_of cfg)"
  let ?l = "take 60 (strip (take 60 label))"
  let ?p = "lens_pair_with_code sha token (strip code) (if ?l = [] then ''paired phone'' else ?l)
      (if lc_allow_actions cfg then ''read,act'' else ''read'') (lc_ttl_days cfg) ?limit t db"
  show thesis
  proof (cases "strip code = [] \<or> 64 < length (strip code) \<or> ?limit \<le> int (length (lens_active_tokens t db))")
    case True
    with assms have "(res, db') = (ClaimBad, db) \<or> (res, db') = (ClaimFull, db)" by (auto simp: lens_claim_def Let_def split: if_splits)
    then show thesis by (intro refused) auto
  next
    case False
    then have n: "\<not> (strip code = [] \<or> 64 < length (strip code))" "\<not> ?limit \<le> int (length (lens_active_tokens t db))" by blast+
    obtain pr db1 where p: "?p = (pr, db1)" by fastforce
    have e: "(res, db') = (case pr of Paired r \<Rightarrow> ClaimPaired r | AtCeiling \<Rightarrow> ClaimFull | WrongCode \<Rightarrow> ClaimBad | PairCrashed \<Rightarrow> ClaimBad, db1)"
      using assms [symmetric]
      by (simp only: lens_claim_def Let_def n p if_False prod.case) (simp split: pair_result.splits)
    from p show thesis
    proof (cases rule: pair_cases)
      case (paired r)
      with e show thesis by (intro that(1) [of r]) (auto simp: new_phone_def)
    next
      case refused
      with e show thesis by (intro that(2)) (auto split: pair_result.splits)
    qed
  qed
qed

lemma attempt_claims:
  "dget (ld_claims (snd (lens_claim_attempt sha limit w ip t db))) k = dget (ld_claims db) k" if "k \<noteq> lens_claim_key sha ip"
  using that by (auto simp: lens_claim_attempt_def Let_def record_lens_event_def split: option.splits prod.splits)

lemma api_claim_cases:
  assumes "api_lens_claim sha cfg remote token code label t db = (res, db')"
  obtains (paired) r where "res = ClaimOk r" "lc_enabled cfg" "new_phone sha cfg token code t db db' r"
        "ld_claims db' = ddel (lens_claim_key sha (client_ip remote))
           (ld_claims (snd (lens_claim_attempt sha LENS_CLAIM_LIMIT LENS_CLAIM_WINDOW_SECONDS (client_ip remote) t db)))"
    | (refused) "\<And>r. res \<noteq> ClaimOk r" "ld_tokens db' = ld_tokens db" "fewer (ld_codes db') (ld_codes db)"
        "ld_claims db' = ld_claims (if lc_enabled cfg
           then snd (lens_claim_attempt sha LENS_CLAIM_LIMIT LENS_CLAIM_WINDOW_SECONDS (client_ip remote) t db) else db)"
        "lc_enabled cfg \<Longrightarrow> res = ClaimRefused \<longleftrightarrow>
           fst (fst (lens_claim_attempt sha LENS_CLAIM_LIMIT LENS_CLAIM_WINDOW_SECONDS (client_ip remote) t db))"
        "\<not> lc_enabled cfg \<Longrightarrow> res = ClaimNotFound"
proof (cases "lc_enabled cfg")
  case False
  with assms show thesis by (intro refused) (auto simp: api_lens_claim_def)
next
  case True
  let ?att = "lens_claim_attempt sha LENS_CLAIM_LIMIT LENS_CLAIM_WINDOW_SECONDS (client_ip remote) t db"
  obtain allowed retry db1 where a: "?att = ((allowed, retry), db1)" by (metis prod.exhaust)
  have same: "ld_tokens db1 = ld_tokens db" "ld_codes db1 = ld_codes db"
    using lens_frame(4,5) [of sha LENS_CLAIM_LIMIT LENS_CLAIM_WINDOW_SECONDS "client_ip remote" t db] a by simp_all
  show thesis
  proof (cases allowed)
    case False
    with assms True a have r: "res = ClaimRateLimited (if retry = 0 then 3600 else retry)" "db' = db1" by (auto simp: api_lens_claim_def)
    show thesis using r same True a False by (intro refused) auto
  next
    case allowed: True
    obtain cr db2 where c: "lens_claim sha cfg token code label t db1 = (cr, db2)" by fastforce
    have e: "(res, db') = (case cr of ClaimPaired r \<Rightarrow> (ClaimOk r, lens_claim_reset sha (client_ip remote) db2)
        | _ \<Rightarrow> (ClaimRefused, record_lens_event (AttemptRefused (client_ip remote)) db2))"
      using assms True a allowed c by (simp add: api_lens_claim_def Let_def split: claim_result.splits)
    from c show thesis
    proof (cases rule: claim_cases)
      case (paired r)
      have "new_phone sha cfg token code t db db' r"
        using paired(1,2) e same by (simp add: new_phone_def next_token_id_def live_codes_def lens_active_tokens_def)
      with e paired(1,3) True a show thesis by (intro that(1)) (auto simp: lens_claim_reset_def)
    next
      case refused
      with e have r: "res = ClaimRefused" "db' = record_lens_event (AttemptRefused (client_ip remote)) db2" by (auto split: claim_result.splits)
      show thesis using r refused same True a allowed by (intro that(2)) auto
    qed
  qed
qed

definition token_kept :: "token_row \<Rightarrow> token_row \<Rightarrow> bool" where
  "token_kept r r' \<longleftrightarrow> tk_id r' = tk_id r \<and> tk_hash r' = tk_hash r \<and> tk_scopes r' = tk_scopes r \<and> tk_expires r' = tk_expires r
     \<and> (tk_revoked r \<noteq> None \<longrightarrow> tk_revoked r' = tk_revoked r)"

lemma token_kept_refl [simp]: "token_kept r r"
  by (simp add: token_kept_def)

lemma kept_refl [simp]: "list_all2 token_kept rs rs"
  by (simp add: list_all2_same)

lemma kept_map: "(\<And>r. token_kept r (f r)) \<Longrightarrow> list_all2 token_kept rs (map f rs)"
  by (simp add: list_all2_map2 list_all2_same)

lemma touch_kept [simp]: "token_kept r (touch_row t ip r)" and revoke_kept [simp]: "token_kept r (revoke_row t r)"
  by (simp_all add: token_kept_def touch_row_def revoke_row_def)

lemma verify_kept:
  "lens_verify_token sha token ip t db = (res, db') \<Longrightarrow> list_all2 token_kept (ld_tokens db) (ld_tokens db') \<and> ld_codes db' = ld_codes db \<and> ld_claims db' = ld_claims db"
  by (auto simp: lens_verify_token_def Let_def intro!: kept_map split: if_splits option.splits)

lemma step_cases:
  assumes "lens_step sha cfg op t db = (out, db')"
  obtains (phone) remote token code label r where "op = Claim remote token code label" "out = Claimed (ClaimOk r)" "lc_enabled cfg"
      "new_phone sha cfg token code t db db' r"
    | (quiet) "\<And>r. out \<noteq> Claimed (ClaimOk r)" "list_all2 token_kept (ld_tokens db) (ld_tokens db')"
        "(\<exists>c. op = NewCode c \<and> ld_codes db' = [(sha c, stamp t + 300)]) \<or> (\<nexists>c. op = NewCode c) \<and> fewer (ld_codes db') (ld_codes db)"
        "op \<in> {RevokeAll, LensOff} \<Longrightarrow> ld_codes db' = []"
proof (cases op)
  case (Claim remote token code label)
  then obtain res where c: "api_lens_claim sha cfg remote token code label t db = (res, db')" and out: "out = Claimed res"
    using assms by (auto simp: lens_step_def split: prod.splits)
  from c show thesis
  proof (cases rule: api_claim_cases)
    case (paired r)
    then show thesis using Claim out by (intro phone) auto
  next
    case refused
    then show thesis using Claim out by (intro quiet) auto
  qed
next
  case (Request token remote dashboard)
  then obtain p where p: "lens_principal sha cfg token remote dashboard t db = (p, db')" "out = Asked p"
    using assms by (auto simp: lens_step_def split: prod.splits)
  have "list_all2 token_kept (ld_tokens db) (ld_tokens db') \<and> ld_codes db' = ld_codes db"
    using p(1) by (auto simp: lens_principal_def Let_def dest: verify_kept split: if_splits option.splits prod.splits)
  then show thesis using Request p(2) by (intro quiet) auto
qed (use assms in \<open>auto intro!: quiet kept_map simp: lens_step_def lens_new_pairing_code_def LENS_PAIRING_TTL_SECONDS_def
       lens_revoke_token_def lens_revoke_all_tokens_def lens_purge_claim_counters_def lens_clear_pairing_codes_def Let_def
       record_lens_event_def split: if_splits\<close>)

lemma lens_run_snoc:
  "lens_run sha (calls @ [(cfg, op, t)]) db =
     (let (tr, db1) = lens_run sha calls db; (out, db2) = lens_step sha cfg op t db1 in (tr @ [((cfg, op, t), out)], db2))"
  by (induction calls arbitrary: db) (auto simp: Let_def split: prod.splits)

section \<open>The ceiling\<close>

abbreviation call_times :: "lens_call list \<Rightarrow> real list" where
  "call_times calls \<equiv> map (\<lambda>(cfg, op, t). t) calls"

lemma expired_later: "t \<le> t' \<Longrightarrow> lens_expired e t \<Longrightarrow> lens_expired e t'"
  by (auto simp: lens_expired_def stamp_def split: option.splits) (meson floor_mono order_trans)

lemma active_earlier: "token_kept r r' \<Longrightarrow> t \<le> t' \<Longrightarrow> token_active t' r' \<Longrightarrow> token_active t r"
  using expired_later [of t t' "tk_expires r"] by (auto simp: token_kept_def token_active_def)

lemma kept_active: "list_all2 token_kept rs rs' \<Longrightarrow> t \<le> t' \<Longrightarrow> length (filter (token_active t') rs') \<le> length (filter (token_active t) rs)"
  by (induction rule: list_all2_induct) (auto dest: active_earlier)

lemma step_active:
  assumes "lens_step sha cfg op t db = (out, db')" and "t \<le> t'" and "max 1 (max_tokens_of cfg) \<le> int N" and "length (lens_active_tokens t db) \<le> N"
  shows "length (lens_active_tokens t' db') \<le> N"
  using assms(1)
proof (cases rule: step_cases)
  case (phone remote token code label r)
  have "length (lens_active_tokens t' db') \<le> length (lens_active_tokens t db) + 1"
    using phone(4) kept_active [OF kept_refl assms(2), of "ld_tokens db"] by (auto simp: new_phone_def lens_active_tokens_def)
  moreover have "int (length (lens_active_tokens t db)) < int N" using phone(4) assms(3) by (auto simp: new_phone_def)
  ultimately show ?thesis by linarith
next
  case quiet
  then show ?thesis using kept_active [OF quiet(2) assms(2)] assms(4) by (simp add: lens_active_tokens_def)
qed

lemma ceiling_run:
  assumes "sorted (call_times calls)" and "\<forall>(cfg, op, t)\<in>set calls. max 1 (max_tokens_of cfg) \<le> int N \<and> t \<le> now"
  shows "length (lens_active_tokens now (snd (lens_run sha calls no_phones))) \<le> N"
  using assms
proof (induction calls arbitrary: now rule: rev_induct)
  case Nil
  then show ?case by (simp add: no_phones_def lens_active_tokens_def)
next
  case (snoc call calls)
  obtain cfg op t where call: "call = (cfg, op, t)" by (cases call)
  obtain tr db where run: "lens_run sha calls no_phones = (tr, db)" by fastforce
  obtain out db' where step: "lens_step sha cfg op t db = (out, db')" by fastforce
  have "length (lens_active_tokens t db) \<le> N"
    using snoc.IH [of t] snoc.prems run call by (fastforce simp: sorted_append)
  then have "length (lens_active_tokens now db') \<le> N"
    using step_active [OF step, of now N] snoc.prems(2) call by auto
  then show ?case using run step by (simp add: call lens_run_snoc)
qed

section \<open>Where a token comes from\<close>

definition keeps_code :: "lens_op \<Rightarrow> bool" where
  "keeps_code op \<longleftrightarrow> op \<noteq> RevokeAll \<and> op \<noteq> LensOff \<and> (\<forall>c. op \<noteq> NewCode c)"

definition pairs :: "lens_outcome \<Rightarrow> bool" where
  "pairs out \<longleftrightarrow> (\<exists>r. out = Claimed (ClaimOk r))"

text \<open>The code \<open>c\<close> was shown at \<open>s\<close>, is the last one shown, was not withdrawn, and no phone was paired since.\<close>

definition code_standing :: "lens_call list \<Rightarrow> (lens_call \<times> lens_outcome) list \<Rightarrow> str \<Rightarrow> real \<Rightarrow> bool" where
  "code_standing calls tr c s \<longleftrightarrow> (\<exists>pre cfg post. calls = pre @ (cfg, NewCode c, s) # post \<and>
     (\<forall>(cfg', op, u)\<in>set post. keeps_code op) \<and> (\<forall>(call, out)\<in>set (drop (length pre) tr). \<not> pairs out))"

lemma run_length: "lens_run sha calls db = (tr, db') \<Longrightarrow> length tr = length calls"
  by (induction calls arbitrary: db tr db') (auto split: prod.splits)

lemma standing_snoc:
  assumes "code_standing calls tr c s" and "length tr = length calls" and "keeps_code op" and "\<not> pairs out"
  shows "code_standing (calls @ [(cfg, op, t)]) (tr @ [((cfg, op, t), out)]) c s"
proof -
  from assms(1) obtain pre cfg0 post where p: "calls = pre @ (cfg0, NewCode c, s) # post"
    and q: "\<forall>(cfg', op, u)\<in>set post. keeps_code op" "\<forall>(call, out)\<in>set (drop (length pre) tr). \<not> pairs out"
    unfolding code_standing_def by blast
  have "length pre \<le> length tr" using p assms(2) by simp
  then show ?thesis unfolding code_standing_def using p q assms(3,4)
    by (intro exI [of _ pre] exI [of _ cfg0] exI [of _ "post @ [(cfg, op, t)]"]) auto
qed

lemma codes_standing:
  assumes "lens_run sha calls no_phones = (tr, db)"
  shows "length (ld_codes db) \<le> 1 \<and> (\<forall>(h, e)\<in>set (ld_codes db). \<exists>c s. h = sha c \<and> e = stamp s + 300 \<and> code_standing calls tr c s)"
  using assms
proof (induction calls arbitrary: tr db rule: rev_induct)
  case Nil
  then show ?case by (auto simp: no_phones_def)
next
  case (snoc call calls)
  obtain cfg op t where call: "call = (cfg, op, t)" by (cases call)
  obtain tr0 db0 where run: "lens_run sha calls no_phones = (tr0, db0)" by fastforce
  obtain out db' where step: "lens_step sha cfg op t db0 = (out, db')" by fastforce
  have tr: "tr = tr0 @ [((cfg, op, t), out)]" and db: "db = db'" using snoc.prems run step by (simp_all add: call lens_run_snoc)
  note ih = snoc.IH [OF run]
  from step show ?case
  proof (cases rule: step_cases)
    case (phone remote token code label r)
    let ?h = "sha (lens_normalise_pairing_code (strip code))"
    have "length (live_codes t db0) \<le> 1" using ih unfolding live_codes_def by (meson length_filter_le order_trans)
    moreover have "dget (live_codes t db0) ?h \<noteq> None" using phone(4) by (simp add: new_phone_def)
    ultimately have "ddel ?h (live_codes t db0) = []" by (cases "live_codes t db0") (auto simp: ddel_def dget_Cons split: if_splits)
    then show ?thesis using phone(4) by (simp add: db new_phone_def)
  next
    case quiet
    have len: "length tr0 = length calls" using run_length [OF run] .
    show ?thesis
    proof (cases "\<exists>c. op = NewCode c")
      case True
      then obtain c where c: "op = NewCode c" "ld_codes db' = [(sha c, stamp t + 300)]" using quiet(3) by blast
      have "code_standing (calls @ [(cfg, NewCode c, t)]) (tr0 @ [((cfg, NewCode c, t), out)]) c t"
        unfolding code_standing_def using len quiet(1) by (intro exI [of _ calls] exI [of _ cfg] exI [of _ "[]"]) (auto simp: pairs_def)
      then show ?thesis using c by (auto simp: db call tr)
    next
      case False
      with quiet(3) have sub: "fewer (ld_codes db') (ld_codes db0)" by blast
      show ?thesis
      proof (cases "keeps_code op")
        case True
        have "code_standing (calls @ [call]) tr c s" if "code_standing calls tr0 c s" for c s
          unfolding call tr using standing_snoc [OF that len True] quiet(1) by (auto simp: pairs_def)
        then have "\<forall>(h, e)\<in>set (ld_codes db). \<exists>c s. h = sha c \<and> e = stamp s + 300 \<and> code_standing (calls @ [call]) tr c s"
          using ih sub db by (fastforce simp: fewer_def)
        moreover have "length (ld_codes db) \<le> 1" using ih sub db by (auto simp: fewer_def)
        ultimately show ?thesis by blast
      next
        case False
        with quiet(4) \<open>\<nexists>c. op = NewCode c\<close> have "ld_codes db' = []" by (auto simp: keeps_code_def)
        then show ?thesis by (simp add: db)
      qed
    qed
  qed
qed

section \<open>A revoked phone\<close>

definition phone_out :: "nat \<Rightarrow> lens_db \<Rightarrow> bool" where
  "phone_out i db \<longleftrightarrow> i \<in> tk_id ` set (ld_tokens db) \<and> (\<forall>r\<in>set (ld_tokens db). tk_id r = i \<longrightarrow> tk_revoked r \<noteq> None)"

lemma fold_max_ge: "x \<in> set xs \<Longrightarrow> x \<le> fold max xs (m::nat)" and fold_max_init: "m \<le> fold max xs (m::nat)"
proof -
  have "m \<le> fold max xs m \<and> (\<forall>x\<in>set xs. x \<le> fold max xs m)" for m :: nat
  proof (induction xs arbitrary: m)
    case (Cons a xs)
    from Cons [of "max a m"] show ?case by auto
  qed simp
  then show "x \<in> set xs \<Longrightarrow> x \<le> fold max xs (m::nat)" "m \<le> fold max xs (m::nat)" by auto
qed

lemma next_token_fresh: "r \<in> set (ld_tokens db) \<Longrightarrow> tk_id r < next_token_id db"
  using fold_max_ge [of "tk_id r" "map tk_id (ld_tokens db)" 0] by (simp add: next_token_id_def less_Suc_eq_le)

lemma revoke_row_simps [simp]: "tk_id (revoke_row t r) = tk_id r" "tk_revoked (revoke_row t r) \<noteq> None"
  by (simp_all add: revoke_row_def)

lemma revoke_puts_out:
  assumes "lens_revoke_token i t db = (True, db')" shows "phone_out i db'"
proof -
  let ?f = "\<lambda>r. if tk_id r = i then revoke_row t r else r"
  have toks: "ld_tokens db' = map ?f (ld_tokens db)" and "list_ex (\<lambda>r. tk_id r = i \<and> tk_revoked r = None) (ld_tokens db)"
    using assms by (auto simp: lens_revoke_token_def split: if_splits)
  then obtain r where r: "r \<in> set (ld_tokens db)" "tk_id r = i" by (auto simp: list_ex_iff)
  then have "?f r \<in> set (ld_tokens db')" "tk_id (?f r) = i" by (simp_all add: toks)
  then have "i \<in> tk_id ` set (ld_tokens db')" by (metis image_eqI)
  moreover have "tk_revoked q \<noteq> None" if q: "q \<in> set (ld_tokens db')" "tk_id q = i" for q
  proof -
    obtain p where "q = ?f p" using q(1) unfolding toks set_map by (rule imageE)
    then show ?thesis using q(2) by (cases "tk_revoked p") (auto simp: revoke_row_def split: if_splits)
  qed
  ultimately show ?thesis by (simp add: phone_out_def)
qed

lemma kept_out:
  assumes "list_all2 token_kept rs rs'" and "i \<in> tk_id ` set rs" and "\<forall>r\<in>set rs. tk_id r = i \<longrightarrow> tk_revoked r \<noteq> None"
  shows "i \<in> tk_id ` set rs' \<and> (\<forall>r\<in>set rs'. tk_id r = i \<longrightarrow> tk_revoked r \<noteq> None)"
proof -
  have len: "length rs = length rs'" and nth: "token_kept (rs ! k) (rs' ! k)" if "k < length rs" for k
    using assms(1) that by (auto simp: list_all2_conv_all_nth)
  from assms(2) obtain k where k: "k < length rs" "tk_id (rs ! k) = i" by (auto simp: in_set_conv_nth)
  have l: "length rs = length rs'" using assms(1) by (rule list_all2_lengthD)
  have "tk_id (rs' ! k) = i" "rs' ! k \<in> set rs'" using k nth [OF k(1)] l by (auto simp: token_kept_def)
  then have "i \<in> tk_id ` set rs'" by (metis image_eqI)
  moreover have "tk_revoked r \<noteq> None" if r: "r \<in> set rs'" "tk_id r = i" for r
  proof -
    obtain j where j: "j < length rs'" "r = rs' ! j" using r(1) by (auto simp: in_set_conv_nth)
    with l nth [of j] have "token_kept (rs ! j) r" "rs ! j \<in> set rs" by auto
    with assms(3) r(2) show ?thesis by (auto simp: token_kept_def)
  qed
  ultimately show ?thesis by blast
qed

lemma step_out:
  assumes "lens_step sha cfg op t db = (out, db')" and "phone_out i db"
  shows "phone_out i db'" and "out \<noteq> Asked (Inr (LensPhone i s))"
proof -
  from assms(1) show "phone_out i db'"
  proof (cases rule: step_cases)
    case (phone remote token code label r)
    have "i < next_token_id db" using assms(2) next_token_fresh by (auto simp: phone_out_def)
    then show ?thesis using phone(4) assms(2) by (auto simp: new_phone_def phone_out_def)
  next
    case quiet
    then show ?thesis using kept_out [OF quiet(2), of i] assms(2) by (auto simp: phone_out_def)
  qed
  show "out \<noteq> Asked (Inr (LensPhone i s))"
  proof
    assume "out = Asked (Inr (LensPhone i s))"
    then obtain token remote dashboard where "lens_principal sha cfg token remote dashboard t db = (Inr (LensPhone i s), db')"
      using assms(1) by (auto simp: lens_step_def split: lens_op.splits prod.splits)
    then obtain p r where v: "lens_verify_token sha p (Some (client_ip remote)) t db = (Some r, db')" and i: "tk_id r = i"
      by (auto simp: lens_principal_def Let_def split: if_splits option.splits prod.splits)
    from v obtain q where "List.find (\<lambda>r. tk_hash r = sha (strip p)) (ld_tokens db) = Some q" "token_active t q" "r = touch_row t (Some (client_ip remote)) q"
      by (auto simp: lens_verify_token_def Let_def split: if_splits option.splits)
    then have "q \<in> set (ld_tokens db)" "tk_id q = i" "tk_revoked q = None"
      using i by (auto simp: touch_row_def token_active_def dest: find_Some_D)
    then show False using assms(2) by (auto simp: phone_out_def)
  qed
qed

lemma run_out: "lens_run sha calls db = (tr, db') \<Longrightarrow> phone_out i db \<Longrightarrow> (call, Asked (Inr (LensPhone i s))) \<notin> set tr"
proof (induction calls arbitrary: db tr)
  case (Cons c calls)
  obtain cfg op t where c: "c = (cfg, op, t)" by (cases c)
  obtain out db1 where step: "lens_step sha cfg op t db = (out, db1)" by fastforce
  obtain tr1 db2 where run: "lens_run sha calls db1 = (tr1, db2)" by fastforce
  have "tr = ((cfg, op, t), out) # tr1" using Cons.prems(1) step run c by simp
  moreover have "db' = db2" using Cons.prems(1) step run c by simp
  ultimately show ?case using Cons.IH [of db1 tr1] run step_out [OF step Cons.prems(2)] by auto
qed simp

section \<open>Guessing pairing codes\<close>

text \<open>What the counter of one source says about the times \<open>A\<close> of its allowed attempts so far.\<close>

definition bucket_ok :: "nat \<Rightarrow> real list \<Rightarrow> real \<Rightarrow> claim_state option \<Rightarrow> bool" where
  "bucket_ok L A now s \<longleftrightarrow> (case s of
     None \<Rightarrow> (\<exists>start. start + 7200 \<le> now \<and> windows_ok L 3601 A start \<and> (\<forall>x\<in>set A. x < start + 3601))
   | Some s \<Rightarrow> of_int (cs_start s) \<le> now \<and> windows_ok L 3601 A (of_int (cs_start s)) \<and> (\<forall>x\<in>set A. x < of_int (cs_start s) + 3601) \<and>
       since (of_int (cs_start s)) A \<le> cs_count s)"

lemma bucket_more: "bucket_ok L A now s \<Longrightarrow> never_more_than (2 * L) 3601 A"
  by (auto simp: bucket_ok_def windows_ok_def split: option.splits)

lemma bucket_later: "bucket_ok L A now s \<Longrightarrow> now \<le> t \<Longrightarrow> bucket_ok L A t s"
  by (auto simp: bucket_ok_def split: option.splits) force


lemma seconds_until_past: "of_int s \<le> t \<Longrightarrow> seconds_until s t < - 3600 \<longleftrightarrow> of_int s + 3601 \<le> t"
  by (auto simp: seconds_until_def float_int_def; linarith)

lemma window_ok:
  assumes "bucket_ok L A t s" and "claim_window 3600 s t = (start, n)"
  shows "of_int start \<le> t \<and> t < of_int start + 3601 \<and> (\<forall>x\<in>set A. x < of_int start + 3601) \<and> windows_ok L 3601 A (of_int start) \<and>
    since (of_int start) A \<le> n"
proof -
  have fresh: "of_int \<lfloor>t\<rfloor> \<le> t \<and> t < of_int \<lfloor>t\<rfloor> + 3601 \<and> (\<forall>x\<in>set A. x < of_int \<lfloor>t\<rfloor> + 3601) \<and> windows_ok L 3601 A (of_int \<lfloor>t\<rfloor>) \<and>
      since (of_int \<lfloor>t\<rfloor>) A \<le> 0" if "windows_ok L 3601 A u" "\<forall>x\<in>set A. x < u + 3601" "u + 3601 \<le> of_int \<lfloor>t\<rfloor>" for u
  proof -
    have old: "\<forall>x\<in>set A. x < of_int \<lfloor>t\<rfloor>" using that(2,3) by fastforce
    then have "\<forall>x\<in>set A. x < of_int \<lfloor>t\<rfloor> + 3601" by fastforce
    moreover have "of_int \<lfloor>t\<rfloor> \<le> t" "t < of_int \<lfloor>t\<rfloor> + 3601" by linarith+
    moreover have "since (of_int \<lfloor>t\<rfloor>) A \<le> 0" using since_none [OF old] by simp
    ultimately show ?thesis using windows_next [OF that(1) old that(3)] by blast
  qed
  show ?thesis
  proof (cases s)
    case None
    have st: "start = \<lfloor>t\<rfloor>" "n = 0" using assms(2) None by (auto simp: claim_window_def stamp_def)
    obtain u where u: "u + 7200 \<le> t" "windows_ok L 3601 A u" "\<forall>x\<in>set A. x < u + 3601" using assms(1) None by (auto simp: bucket_ok_def)
    have "u + 3601 \<le> of_int \<lfloor>t\<rfloor>" using u(1) by linarith
    from fresh [OF u(2,3) this] show ?thesis unfolding st .
  next
    case (Some c)
    have c: "of_int (cs_start c) \<le> t" "windows_ok L 3601 A (of_int (cs_start c))" "\<forall>x\<in>set A. x < of_int (cs_start c) + 3601"
      "since (of_int (cs_start c)) A \<le> cs_count c" using assms(1) Some by (auto simp: bucket_ok_def)
    show ?thesis
    proof (cases "seconds_until (cs_start c) t < - 3600")
      case False
      then have "start = cs_start c" "n = cs_count c" using assms(2) Some by (auto simp: claim_window_def)
      then show ?thesis using c False seconds_until_past [OF c(1)] by auto
    next
      case True
      have st: "start = \<lfloor>t\<rfloor>" "n = 0" using assms(2) Some True by (auto simp: claim_window_def stamp_def)
      have "of_int (cs_start c) + 3601 \<le> t" using True seconds_until_past [OF c(1)] by blast
      then have "cs_start c + 3601 \<le> \<lfloor>t\<rfloor>" by (simp add: le_floor_iff)
      then have "of_int (cs_start c) + 3601 \<le> (of_int \<lfloor>t\<rfloor> :: real)" by linarith
      from fresh [OF c(2,3) this] show ?thesis unfolding st .
    qed
  qed
qed

lemma attempt_bucket:
  fixes limit defines "L \<equiv> max 1 limit"
  assumes ok: "bucket_ok L A now (dget (ld_claims db) (lens_claim_key sha ip))" and later: "now \<le> t"
    and att: "lens_claim_attempt sha limit 3600 ip t db = ((allowed, retry), db')"
  shows "bucket_ok L (if allowed then A @ [t] else A) t (dget (ld_claims db') (lens_claim_key sha ip))"
proof -
  let ?s = "dget (ld_claims db) (lens_claim_key sha ip)"
  have b: "bucket_ok L A t ?s" using bucket_later [OF ok later] .
  show ?thesis
  proof (cases "claim_blocked ?s t")
    case (Some u)
    then show ?thesis using att b by (auto simp: lens_claim_attempt_def Let_def)
  next
    case None
    obtain start n where w: "claim_window 3600 ?s t = (start, n)" by fastforce
    note win = window_ok [OF b w]
    show ?thesis
    proof (cases "L < n + 1")
      case True
      then have "\<not> allowed" "dget (ld_claims db') (lens_claim_key sha ip) = Some \<lparr>cs_start = start, cs_count = n + 1, cs_blocked = Some (stamp t + 3600)\<rparr>"
        using att None w by (auto simp: lens_claim_attempt_def Let_def L_def)
      then show ?thesis using win by (auto simp: bucket_ok_def)
    next
      case False
      then have a: "allowed" "dget (ld_claims db') (lens_claim_key sha ip) = Some \<lparr>cs_start = start, cs_count = n + 1, cs_blocked = None\<rparr>"
        using att None w by (auto simp: lens_claim_attempt_def Let_def L_def)
      have "windows_ok L 3601 (A @ [t]) (of_int start)" using win False by (intro windows_event) auto
      then show ?thesis using a win False by (auto simp: bucket_ok_def)
    qed
  qed
qed

lemma purge_bucket:
  assumes "bucket_ok L A now (dget (ld_claims db) k)" and "now \<le> t" and "dwf (ld_claims db)"
  shows "bucket_ok L A t (dget (ld_claims (snd (lens_purge_claim_counters 7200 t db))) k)"
proof -
  let ?P = "\<lambda>(k, s). \<not> (cs_start s < stamp (t - of_int 7200) \<and> (case cs_blocked s of None \<Rightarrow> True | Some b \<Rightarrow> b < stamp (t - of_int 7200)))"
  have b: "bucket_ok L A t (dget (ld_claims db) k)" using bucket_later [OF assms(1,2)] .
  have d: "ld_claims (snd (lens_purge_claim_counters 7200 t db)) = filter ?P (ld_claims db)"
    by (simp add: lens_purge_claim_counters_def Let_def)
  show ?thesis
  proof (cases "dget (filter ?P (ld_claims db)) k")
    case (Some s)
    then have "(k, s) \<in> set (ld_claims db)" by (auto simp: dget_def dest: map_of_SomeD)
    then have "dget (ld_claims db) k = Some s" using dget_in_dwf [OF assms(3)] by blast
    then show ?thesis using b Some d by simp
  next
    case None
    show ?thesis
    proof (cases "dget (ld_claims db) k")
      case None
      then show ?thesis using b d \<open>dget (filter ?P (ld_claims db)) k = None\<close> by simp
    next
      case (Some s)
      have "(k, s) \<notin> set (filter ?P (ld_claims db))" using None by (auto simp: dget_None_iff dkeys_def image_iff)
      moreover have "(k, s) \<in> set (ld_claims db)" using Some by (auto simp: dget_def dest: map_of_SomeD)
      ultimately have "cs_start s < stamp (t - 7200)" by auto
      then have "cs_start s + 1 \<le> \<lfloor>t - 7200\<rfloor>" by (simp add: stamp_def)
      then have old: "of_int (cs_start s) + 1 \<le> t - 7200" by (metis add.commute le_floor_iff of_int_1 of_int_add)
      have "windows_ok L 3601 A (of_int (cs_start s))" "\<forall>x\<in>set A. x < of_int (cs_start s) + 3601" using b Some by (auto simp: bucket_ok_def)
      then have "bucket_ok L A t None" using old unfolding bucket_ok_def option.case by (intro exI [of _ "of_int (cs_start s)"]) auto
      then show ?thesis using None d by simp
    qed
  qed
qed

definition claims_as :: "(str \<Rightarrow> str) \<Rightarrow> str \<Rightarrow> lens_op \<Rightarrow> bool" where
  "claims_as sha k op = (case op of Claim remote _ _ _ \<Rightarrow> lens_claim_key sha (client_ip remote) = k | _ \<Rightarrow> False)"

definition wrong_guess :: "(str \<Rightarrow> str) \<Rightarrow> str \<Rightarrow> lens_call \<times> lens_outcome \<Rightarrow> bool" where
  "wrong_guess sha k e = (case e of ((cfg, op, t), out) \<Rightarrow> claims_as sha k op \<and> out = Claimed ClaimRefused)"

definition right_guess :: "(str \<Rightarrow> str) \<Rightarrow> str \<Rightarrow> lens_call \<times> lens_outcome \<Rightarrow> bool" where
  "right_guess sha k e = (case e of ((cfg, op, t), out) \<Rightarrow> claims_as sha k op \<and> pairs out)"

definition guess_times :: "(str \<Rightarrow> str) \<Rightarrow> str \<Rightarrow> (lens_call \<times> lens_outcome) list \<Rightarrow> real list" where
  "guess_times sha k tr = map (\<lambda>((cfg, op, t), out). t) (filter (wrong_guess sha k) tr)"

lemma attempt_dwf: "dwf (ld_claims db) \<Longrightarrow> dwf (ld_claims (snd (lens_claim_attempt sha limit w ip t db)))"
  by (auto simp: lens_claim_attempt_def Let_def split: option.split prod.split)

lemma verify_claims: "lens_principal sha cfg token remote dashboard t db = (p, db') \<Longrightarrow> ld_claims db' = ld_claims db"
  by (auto simp: lens_principal_def Let_def dest: verify_kept split: if_splits option.splits prod.splits)

lemma guess_step:
  assumes step: "lens_step sha cfg op t db = (out, db')" and "\<not> right_guess sha k ((cfg, op, t), out)" and later: "now \<le> t"
    and ok: "bucket_ok LENS_CLAIM_LIMIT A now (dget (ld_claims db) k)" and wf: "dwf (ld_claims db)"
  shows "dwf (ld_claims db') \<and>
    bucket_ok LENS_CLAIM_LIMIT (if wrong_guess sha k ((cfg, op, t), out) then A @ [t] else A) t (dget (ld_claims db') k)"
proof (cases op)
  case (Claim remote token code label)
  let ?key = "lens_claim_key sha (client_ip remote)"
  let ?att = "lens_claim_attempt sha LENS_CLAIM_LIMIT LENS_CLAIM_WINDOW_SECONDS (client_ip remote) t db"
  obtain res where c: "api_lens_claim sha cfg remote token code label t db = (res, db')" and out: "out = Claimed res"
    using step Claim by (auto simp: lens_step_def split: prod.splits)
  have wg: "wrong_guess sha k ((cfg, op, t), out) \<longleftrightarrow> ?key = k \<and> res = ClaimRefused"
    by (simp add: wrong_guess_def claims_as_def Claim out)
  have others: "dget (ld_claims (snd ?att)) k = dget (ld_claims db) k" if "?key \<noteq> k" using attempt_claims that by metis
  from c show ?thesis
  proof (cases rule: api_claim_cases)
    case (paired r)
    have "?key \<noteq> k" using assms(2) paired(1) out Claim by (auto simp: right_guess_def claims_as_def pairs_def)
    then show ?thesis using paired(1,4) attempt_dwf [OF wf] others bucket_later [OF ok later] by (simp add: wg dwf_ddel)
  next
    case refused
    show ?thesis
    proof (cases "lc_enabled cfg")
      case False
      then show ?thesis using refused wf bucket_later [OF ok later] by (simp add: wg)
    next
      case True
      note claims = refused(4) [unfolded if_P [OF True]] and ref = refused(5) [OF True]
      show ?thesis
      proof (cases "?key = k")
        case False
        then show ?thesis using claims attempt_dwf [OF wf] others bucket_later [OF ok later] by (simp add: wg)
      next
        case same: True
        obtain allowed retry db1 where a: "?att = ((allowed, retry), db1)" by (metis prod.exhaust)
        have "bucket_ok (max 1 LENS_CLAIM_LIMIT) (if allowed then A @ [t] else A) t (dget (ld_claims db1) ?key)"
          using ok same later a by (intro attempt_bucket) (auto simp: LENS_CLAIM_LIMIT_def LENS_CLAIM_WINDOW_SECONDS_def)
        moreover have "max 1 LENS_CLAIM_LIMIT = LENS_CLAIM_LIMIT" by (simp add: LENS_CLAIM_LIMIT_def)
        moreover have "dwf (ld_claims db1)"
          using attempt_dwf [OF wf, of sha LENS_CLAIM_LIMIT LENS_CLAIM_WINDOW_SECONDS "client_ip remote" t] a by simp
        ultimately show ?thesis using claims ref a same by (simp add: wg)
      qed
    qed
  qed
next
  case Purge
  have "db' = snd (lens_purge_claim_counters 7200 t db)" using step Purge by (simp add: lens_step_def LENS_CLAIM_WINDOW_SECONDS_def)
  then show ?thesis using purge_bucket [OF ok later wf] wf Purge
    by (auto simp: wrong_guess_def claims_as_def lens_purge_claim_counters_def Let_def)
next
  case (Request token remote dashboard)
  then have "ld_claims db' = ld_claims db" using step by (auto simp: lens_step_def split: prod.splits dest: verify_claims)
  then show ?thesis using wf bucket_later [OF ok later] Request by (simp add: wrong_guess_def claims_as_def)
qed (use step wf bucket_later [OF ok later] in \<open>auto simp: lens_step_def wrong_guess_def claims_as_def lens_new_pairing_code_def
   lens_revoke_token_def lens_revoke_all_tokens_def Let_def split: if_splits\<close>)

lemma guess_run:
  assumes "sorted (call_times calls)" and "lens_run sha calls no_phones = (tr, db)" and "\<forall>e\<in>set tr. \<not> right_guess sha k e"
    and "\<forall>t\<in>set (call_times calls). t \<le> now"
  shows "dwf (ld_claims db) \<and> bucket_ok LENS_CLAIM_LIMIT (guess_times sha k tr) now (dget (ld_claims db) k)"
  using assms
proof (induction calls arbitrary: tr db now rule: rev_induct)
  case Nil
  have "bucket_ok LENS_CLAIM_LIMIT [] now None" unfolding bucket_ok_def option.case by (intro exI [of _ "now - 7200"]) simp
  with Nil show ?case by (auto simp: no_phones_def guess_times_def)
next
  case (snoc call calls)
  obtain cfg op t where call: "call = (cfg, op, t)" by (cases call)
  obtain tr0 db0 where run: "lens_run sha calls no_phones = (tr0, db0)" by fastforce
  obtain out db' where step: "lens_step sha cfg op t db0 = (out, db')" by fastforce
  have tr: "tr = tr0 @ [((cfg, op, t), out)]" and db: "db = db'" using snoc.prems(2) run step by (simp_all add: call lens_run_snoc)
  have "sorted (call_times calls)" "\<forall>u\<in>set (call_times calls). u \<le> t" "t \<le> now" using snoc.prems(1,4) call by (auto simp: sorted_append)
  then have ih: "dwf (ld_claims db0) \<and> bucket_ok LENS_CLAIM_LIMIT (guess_times sha k tr0) t (dget (ld_claims db0) k)"
    using snoc.IH run snoc.prems(3) tr by auto
  have "dwf (ld_claims db') \<and> bucket_ok LENS_CLAIM_LIMIT
      (if wrong_guess sha k ((cfg, op, t), out) then guess_times sha k tr0 @ [t] else guess_times sha k tr0) t (dget (ld_claims db') k)"
    using ih snoc.prems(3) tr by (intro guess_step [OF step]) auto
  then show ?case using bucket_later \<open>t \<le> now\<close> by (auto simp: guess_times_def tr db split: if_splits)
qed

section \<open>Properties\<close>

text \<open>
  C33. However phones claim, codes are shown and tokens are revoked over time, there are never more phones that
  can authenticate than the configured ceiling.
\<close>

theorem phones_within_ceiling:
  assumes "sorted (call_times calls)" and "\<forall>(cfg, op, t)\<in>set calls. max 1 (max_tokens_of cfg) \<le> int N \<and> t \<le> now"
  shows "length (lens_active_tokens now (snd (lens_run sha calls no_phones))) \<le> N"
  using assms by (rule ceiling_run)

text \<open>
  C34. A phone is paired only by the code shown last: within five minutes of being shown, not withdrawn by
  revoking everything or switching Lens off, and not used for another phone since.
\<close>

theorem pairing_code_single_use:
  assumes "lens_run sha calls no_phones = (tr, db)" and "lens_step sha cfg (Claim remote token code label) t db = (Claimed (ClaimOk r), db')"
  shows "\<exists>c s. sha c = sha (lens_normalise_pairing_code (strip code)) \<and> stamp t < stamp s + 300 \<and> code_standing calls tr c s"
  using assms(2)
proof (cases rule: step_cases)
  case (phone remote' token' code' label' r')
  let ?h = "sha (lens_normalise_pairing_code (strip code))"
  have "dget (live_codes t db) ?h \<noteq> None" using phone by (simp add: new_phone_def)
  then obtain e where "(?h, e) \<in> set (live_codes t db)" unfolding dget_def by (meson map_of_SomeD option.exhaust)
  then have "(?h, e) \<in> set (ld_codes db)" "stamp t < e" by (auto simp: live_codes_def)
  with codes_standing [OF assms(1)] show ?thesis by fastforce
next
  case quiet
  from quiet(1) [of r] show ?thesis by simp
qed

text \<open>
  C35. A phone that was revoked is never recognised again, whatever is presented and whatever happens
  afterwards.
\<close>

theorem revoked_phone_stays_out:
  assumes "lens_revoke_token i t db = (True, db')" and "lens_run sha calls db' = (tr, db'')"
  shows "(call, Asked (Inr (LensPhone i s))) \<notin> set tr"
  using run_out [OF assms(2) revoke_puts_out [OF assms(1)]] .

text \<open>
  C36. Someone who does not hold a pairing code gets at most twenty guesses from one source within any hour,
  whatever else happens: ten in each of the two counting windows an hour can touch.
\<close>

theorem pairing_guesses_limited:
  assumes "sorted (call_times calls)" and "lens_run sha calls no_phones = (tr, db)" and "\<forall>e\<in>set tr. \<not> right_guess sha k e"
  shows "length (filter (\<lambda>t. a \<le> t \<and> t \<le> a + 3600) (guess_times sha k tr)) \<le> 20"
proof -
  let ?now = "Max (insert 0 (set (call_times calls)))"
  have "\<forall>t\<in>set (call_times calls). t \<le> ?now" by (auto intro: Max_ge)
  from bucket_more [OF conjunct2 [OF guess_run [OF assms this]]]
  have "length (filter (\<lambda>t. a \<le> t \<and> t \<le> a + 3601) (guess_times sha k tr)) \<le> 20" by (simp add: never_more_than_def LENS_CLAIM_LIMIT_def)
  moreover have "length (filter (\<lambda>t. a \<le> t \<and> t \<le> a + 3600) A) \<le> length (filter (\<lambda>t. a \<le> t \<and> t \<le> a + 3601) A)" for A :: "real list"
    by (induction A) auto
  ultimately show ?thesis by (rule order_trans [rotated])
qed

text \<open>All addresses of one IPv6 /64 share a counter, and an IPv4-mapped address has that of its IPv4 address.\<close>

lemma ipv6_counts_per_64:
  assumes "ip_address (before CHR ''%'' (take 64 (strip ip))) = Some (V6 a)" and "ip_address (before CHR ''%'' (take 64 (strip ip'))) = Some (V6 b)"
    and "ip \<noteq> []" and "ip' \<noteq> []" and "v6_ipv4_mapped a = None" and "v6_ipv4_mapped b = None" and "a div 2 ^ 64 = b div 2 ^ 64"
  shows "lens_claim_key sha ip = lens_claim_key sha ip'"
  using assms by (simp add: lens_claim_key_def lens_claim_source_def network_text_def)

text \<open>
  A source that makes its eleven attempts within the second is told to wait an hour; an attempt exactly then
  still counts in the old window and locks it out for another hour.
\<close>

lemma retry_after_locks_again:
  fixes sha :: "str \<Rightarrow> str"
  assumes "dget (ld_claims db) (lens_claim_key sha ip) = Some \<lparr>cs_start = s, cs_count = 10, cs_blocked = None\<rparr>"
    and "lens_claim_attempt sha 10 3600 ip (of_int s) db = ((allowed, wait), db1)"
  shows "\<not> allowed \<and> wait = 3600 \<and> fst (lens_claim_attempt sha 10 3600 ip (of_int (s + wait)) db1) = (False, 3600)"
proof -
  have "(allowed, wait) = (False, 3600) \<and> dget (ld_claims db1) (lens_claim_key sha ip) = Some \<lparr>cs_start = s, cs_count = 11, cs_blocked = Some (s + 3600)\<rparr>"
    using assms by (auto simp: lens_claim_attempt_def claim_blocked_def claim_window_def stamp_def seconds_until_def float_int_def)
  then show ?thesis
    by (simp add: lens_claim_attempt_def claim_blocked_def claim_window_def stamp_def seconds_until_def float_int_def)
qed

subsection \<open>Witnesses\<close>

definition home_cfg :: lens_cfg where
  "home_cfg = \<lparr>lc_enabled = True, lc_allow_actions = False, lc_ttl_days = 90, lc_max_tokens = 1\<rparr>"

definition same_text :: "str \<Rightarrow> str" where [simp]: "same_text s = s"

lemma phones_within_ceiling_witness:
  "length (lens_active_tokens 9 (snd (lens_run same_text
     [(home_cfg, NewCode ''ABCD2345'', 0), (home_cfg, Claim None ''s1'' ''abcd-2345'' ''phone'', 1),
      (home_cfg, NewCode ''WXYZ6789'', 2), (home_cfg, Claim None ''s2'' ''WXYZ6789'' ''other'', 3)] no_phones))) \<le> 1"
  by (rule phones_within_ceiling) (simp_all add: home_cfg_def max_tokens_of_def)

lemma unknown_source: "lens_claim_source (client_ip None) = ''unknown''"
proof -
  have s: "strip ''unknown'' = ''unknown''" "before CHR ''%'' ''unknown'' = ''unknown''" by code_simp+
  have "parse_ipv4 ''unknown'' = None" using parse_ipv4_chars [of "''unknown''"] by (cases "parse_ipv4 ''unknown''") (auto simp: is_digit_def code_of_def)
  moreover have "parse_ipv6 ''unknown'' = None" using parse_ipv6_colon [of "''unknown''"] by (cases "parse_ipv6 ''unknown''") auto
  ultimately show ?thesis by (simp add: lens_claim_source_def client_ip_def ip_address_def s)
qed

lemma sample_attempt:
  "lens_claim_attempt same_text LENS_CLAIM_LIMIT LENS_CLAIM_WINDOW_SECONDS (client_ip None) 1 (db\<lparr>ld_claims := []\<rparr>)
   = ((True, 0), db\<lparr>ld_claims := [(''unknown'', \<lparr>cs_start = 1, cs_count = 1, cs_blocked = None\<rparr>)]\<rparr>)"
  by (simp add: lens_claim_attempt_def lens_claim_key_def unknown_source claim_blocked_def claim_window_def stamp_def LENS_CLAIM_LIMIT_def)

definition shown_db :: lens_db where
  "shown_db = lens_new_pairing_code same_text ''ABCD2345'' LENS_PAIRING_TTL_SECONDS 0 no_phones"

lemma shown_codes: "shown_db = \<lparr>ld_tokens = [], ld_codes = [(''ABCD2345'', 300)], ld_claims = [], ld_events = []\<rparr>"
  by (simp add: shown_db_def lens_new_pairing_code_def lens_clear_pairing_codes_def no_phones_def stamp_def LENS_PAIRING_TTL_SECONDS_def)

lemma sample_claim:
  "\<exists>r db'. lens_step same_text home_cfg (Claim None ''s1'' ''abcd-2345'' ''phone'') 1 shown_db = (Claimed (ClaimOk r), db') \<and> tk_id r = 1"
proof -
  have code: "strip ''abcd-2345'' = ''abcd-2345''" "lens_normalise_pairing_code ''abcd-2345'' = ''ABCD2345''" by code_simp+
  let ?db = "shown_db\<lparr>ld_claims := [(''unknown'', \<lparr>cs_start = 1, cs_count = 1, cs_blocked = None\<rparr>)]\<rparr>"
  have att: "lens_claim_attempt same_text LENS_CLAIM_LIMIT LENS_CLAIM_WINDOW_SECONDS (client_ip None) 1 shown_db = ((True, 0), ?db)"
    using sample_attempt [of shown_db] by (simp add: shown_codes)
  have "\<exists>r db'. lens_claim same_text home_cfg ''s1'' ''abcd-2345'' ''phone'' 1 ?db = (ClaimPaired r, db') \<and> tk_id r = 1"
    by (simp add: home_cfg_def lens_claim_def code max_tokens_of_def lens_active_tokens_def shown_codes
        lens_pair_with_code_def lens_consume_pairing_code_def Let_def stamp_def dget_Cons lens_mint_token_def next_token_id_def)
  then obtain r db' where c: "lens_claim same_text home_cfg ''s1'' ''abcd-2345'' ''phone'' 1 ?db = (ClaimPaired r, db')" "tk_id r = 1" by blast
  have "lc_enabled home_cfg" by (simp add: home_cfg_def)
  then show ?thesis using c by (simp add: lens_step_def api_lens_claim_def att Let_def)
qed

lemma pairing_code_single_use_witness:
  "\<exists>tr c s. fst (lens_run same_text [(home_cfg, NewCode ''ABCD2345'', 0)] no_phones) = tr \<and>
     c = ''ABCD2345'' \<and> (1::int) < stamp s + 300 \<and> code_standing [(home_cfg, NewCode ''ABCD2345'', 0)] tr c s"
proof -
  obtain r db' where c: "lens_step same_text home_cfg (Claim None ''s1'' ''abcd-2345'' ''phone'') 1 shown_db = (Claimed (ClaimOk r), db')"
    using sample_claim by blast
  have run: "lens_run same_text [(home_cfg, NewCode ''ABCD2345'', 0)] no_phones = ([((home_cfg, NewCode ''ABCD2345'', 0), Done)], shown_db)"
    by (simp add: lens_step_def shown_db_def)
  have "lens_normalise_pairing_code (strip ''abcd-2345'') = ''ABCD2345''" by code_simp
  with pairing_code_single_use [OF run c] run show ?thesis by (auto simp: stamp_def)
qed

definition one_phone :: lens_db where
  "one_phone = no_phones\<lparr>ld_tokens := [\<lparr>tk_id = 1, tk_hash = ''s1'', tk_label = ''phone'', tk_scopes = ''read'', tk_created = 0,
     tk_seen = None, tk_ip = None, tk_expires = None, tk_revoked = None\<rparr>]\<rparr>"

lemma revoked_phone_stays_out_witness:
  "\<exists>tr db. lens_run same_text [(home_cfg, Request (Some ''s1'') None False, 5)] (snd (lens_revoke_token 1 4 one_phone)) = (tr, db) \<and>
     fst (lens_principal same_text home_cfg (Some ''s1'') None False 3 one_phone) = Inr (LensPhone 1 [''read'']) \<and>
     ((home_cfg, Request (Some ''s1'') None False, 5), Asked (Inr (LensPhone 1 [''read'']))) \<notin> set tr"
proof -
  obtain db' where r: "lens_revoke_token 1 4 one_phone = (True, db')" by (auto simp: lens_revoke_token_def one_phone_def)
  obtain tr db where run: "lens_run same_text [(home_cfg, Request (Some ''s1'') None False, 5)] db' = (tr, db)" by fastforce
  have scopes: "parse_scopes (lens_normalise_scopes ''read'') = [''read'']" "strip ''s1'' = ''s1''" by code_simp+
  have "fst (lens_principal same_text home_cfg (Some ''s1'') None False 3 one_phone) = Inr (LensPhone 1 [''read''])"
    by (simp add: lens_principal_def home_cfg_def lens_verify_token_def one_phone_def scopes token_active_def lens_expired_def touch_row_def Let_def)
  with revoked_phone_stays_out [OF r run] r run show ?thesis by auto
qed

lemma pairing_guesses_limited_witness:
  "length (filter (\<lambda>t. 0 \<le> t \<and> t \<le> 0 + 3600)
     (guess_times same_text ''unknown'' (fst (lens_run same_text [(home_cfg, NewCode ''ABCD2345'', 0)] no_phones)))) \<le> 20"
proof -
  have run: "lens_run same_text [(home_cfg, NewCode ''ABCD2345'', 0)] no_phones = ([((home_cfg, NewCode ''ABCD2345'', 0), Done)], shown_db)"
    by (simp add: lens_step_def shown_db_def)
  have "length (filter (\<lambda>t. 0 \<le> t \<and> t \<le> 0 + 3600) (guess_times same_text ''unknown'' [((home_cfg, NewCode ''ABCD2345'', 0), Done)])) \<le> 20"
    by (rule pairing_guesses_limited [OF _ run]) (simp_all add: right_guess_def claims_as_def)
  then show ?thesis by (simp only: run fst_conv)
qed

end
