(* ===== verification/Web_Sessions.thy ===== *)
theory Web_Sessions
  imports Py_Net Rate_Windows "HOL-Library.Product_Lexorder"
begin

text \<open>
  The dashboard's credential (\<open>homesoc/web/api.py\<close>): browser sessions, the check that signs every browser out
  when \<open>web.token\<close> changes, and the limit on guessing the token.

  Sessions are the settings \<open>websession.<sha>\<close>, whose values are JSON texts of two stamps; the dictionary maps
  the hash to them. SHA-256 and the slow fingerprint of the token are arguments. The guess counters are in
  memory: window start, failures, blocked until, on the monotonic clock.
\<close>

definition SESSION_TTL_SECONDS :: int where "SESSION_TTL_SECONDS = 7 * 86400"
definition SESSION_RENEW_AFTER_SECONDS :: int where "SESSION_RENEW_AFTER_SECONDS = 86400"
definition SESSION_MAX :: nat where "SESSION_MAX = 20"
definition TOKEN_GUESS_LIMIT :: nat where "TOKEN_GUESS_LIMIT = 10"
definition TOKEN_GUESS_GLOBAL_LIMIT :: nat where "TOKEN_GUESS_GLOBAL_LIMIT = 100"
definition TOKEN_GUESS_WINDOW_SECONDS :: real where "TOKEN_GUESS_WINDOW_SECONDS = 600"
definition TOKEN_GUESS_LOCKOUT_SECONDS :: real where "TOKEN_GUESS_LOCKOUT_SECONDS = 900"
definition GLOBAL_GUESSES :: str where "GLOBAL_GUESSES = ''*''"

section \<open>Sessions\<close>

record web_session =
  ws_created :: int
  ws_expires :: int

record session_db =
  sd_sessions :: "(str, web_session) dict"
  sd_check :: "(str \<times> str) option"

definition session_create :: "(str \<Rightarrow> str) \<Rightarrow> str \<Rightarrow> real \<Rightarrow> session_db \<Rightarrow> session_db" where
  "session_create sha sid t db =
     (let live = filter (\<lambda>(k, s). \<not> ws_expires s \<le> \<lfloor>t\<rfloor>) (sd_sessions db);
          oldest = take (length live + 1 - SESSION_MAX) (sort (map (\<lambda>(k, s). (ws_created s, k)) live));
          kept = filter (\<lambda>(k, s). k \<notin> snd ` set oldest) live
      in db\<lparr>sd_sessions := dset (sha sid) \<lparr>ws_created = \<lfloor>t\<rfloor>, ws_expires = \<lfloor>t\<rfloor> + SESSION_TTL_SECONDS\<rparr> kept\<rparr>)"

datatype session_state = SessionOk | SessionRenewed

definition session_check :: "(str \<Rightarrow> str) \<Rightarrow> str option \<Rightarrow> real \<Rightarrow> session_db \<Rightarrow> session_state option \<times> session_db" where
  "session_check sha sid t db = (case sid of
     None \<Rightarrow> (None, db)
   | Some i \<Rightarrow>
       if i = [] \<or> 128 < length i then (None, db)
       else (case dget (sd_sessions db) (sha i) of
           None \<Rightarrow> (None, db)
         | Some s \<Rightarrow>
             if of_int (ws_expires s) \<le> t then (None, db\<lparr>sd_sessions := ddel (sha i) (sd_sessions db)\<rparr>)
             else if of_int (ws_expires s) - t < of_int (SESSION_TTL_SECONDS - SESSION_RENEW_AFTER_SECONDS)
             then (Some SessionRenewed,
               db\<lparr>sd_sessions := dset (sha i) (s\<lparr>ws_expires := \<lfloor>t\<rfloor> + SESSION_TTL_SECONDS\<rparr>) (sd_sessions db)\<rparr>)
             else (Some SessionOk, db)))"

definition session_revoke :: "(str \<Rightarrow> str) \<Rightarrow> str option \<Rightarrow> session_db \<Rightarrow> session_db" where
  "session_revoke sha sid db = (case sid of
     None \<Rightarrow> db
   | Some i \<Rightarrow> if i = [] \<or> 128 < length i then db else db\<lparr>sd_sessions := ddel (sha i) (sd_sessions db)\<rparr>)"

definition sessions_revoke_all :: "session_db \<Rightarrow> nat \<times> session_db" where
  "sessions_revoke_all db = (length (sd_sessions db), db\<lparr>sd_sessions := []\<rparr>)"

text \<open>At start: \<open>kdf token salt\<close> is the fingerprint, \<open>salt\<close> the one drawn for a new check.\<close>

definition sessions_sync_token :: "(str \<Rightarrow> str \<Rightarrow> str) \<Rightarrow> str \<Rightarrow> str \<Rightarrow> session_db \<Rightarrow> session_db" where
  "sessions_sync_token kdf salt token db =
     (if token \<noteq> [] \<and> (case sd_check db of None \<Rightarrow> False | Some (s, d) \<Rightarrow> kdf token s = d) then db
      else (snd (sessions_revoke_all db))\<lparr>sd_check := (if token \<noteq> [] then Some (salt, kdf token salt) else None)\<rparr>)"

section \<open>Guessing the token\<close>

type_synonym guess_state = "real \<times> nat \<times> real"
type_synonym guesses = "(str, guess_state) dict"

definition guess_source_is_loopback :: "str \<Rightarrow> bool" where
  "guess_source_is_loopback ip = (case ip_address (before CHR ''%'' ip) of
     None \<Rightarrow> False
   | Some (V4 a) \<Rightarrow> v4_is_loopback a
   | Some (V6 a) \<Rightarrow> (case v6_ipv4_mapped a of Some v \<Rightarrow> v4_is_loopback v | None \<Rightarrow> a = 1))"

definition blocked_until :: "guesses \<Rightarrow> str \<Rightarrow> real option" where
  "blocked_until g k = map_option (\<lambda>(start, n, until). until) (dget g k)"

definition is_blocked :: "guesses \<Rightarrow> str \<Rightarrow> real \<Rightarrow> bool" where
  "is_blocked g k t = (case blocked_until g k of None \<Rightarrow> False | Some until \<Rightarrow> t < until)"

definition guess_keys :: "str \<Rightarrow> str list" where
  "guess_keys ip = (if guess_source_is_loopback ip then [ip] else [ip, GLOBAL_GUESSES])"

definition token_guess_retry_after :: "str \<Rightarrow> real \<Rightarrow> guesses \<Rightarrow> int" where
  "token_guess_retry_after ip t g =
     (let waits = map (\<lambda>k. the (blocked_until g k) - t) (filter (\<lambda>k. is_blocked g k t) (guess_keys ip))
      in if waits = [] then 0 else \<lfloor>Max (set waits)\<rfloor> + 1)"

definition count_guess :: "str \<Rightarrow> nat \<Rightarrow> real \<Rightarrow> guesses \<Rightarrow> guesses" where
  "count_guess k limit t g =
     (let (start, n, until) = (case dget g k of None \<Rightarrow> (t, 0, 0) | Some s \<Rightarrow> s);
          (start, n) = (if TOKEN_GUESS_WINDOW_SECONDS < t - start then (t, 0) else (start, n))
      in dset k (start, n + 1, if limit \<le> n + 1 \<and> until \<le> t then t + TOKEN_GUESS_LOCKOUT_SECONDS else until) g)"

definition shed_guesses :: "real \<Rightarrow> guesses \<Rightarrow> guesses" where
  "shed_guesses t g =
     (if length g \<le> 4096 then g
      else let g = filter (\<lambda>(k, start, n, until). \<not> (until \<le> t \<and> TOKEN_GUESS_WINDOW_SECONDS < t - start)) g
           in if 4096 < length g then [] else g)"

definition token_guess_failed :: "str \<Rightarrow> real \<Rightarrow> guesses \<Rightarrow> guesses" where
  "token_guess_failed ip t g =
     count_guess GLOBAL_GUESSES TOKEN_GUESS_GLOBAL_LIMIT t (count_guess ip TOKEN_GUESS_LIMIT t (shed_guesses t g))"

definition token_guess_reset :: "str \<Rightarrow> guesses \<Rightarrow> guesses" where
  "token_guess_reset ip g = ddel ip g"

definition check_token_guess :: "str \<Rightarrow> str option \<Rightarrow> str \<Rightarrow> real \<Rightarrow> guesses \<Rightarrow> bool \<times> guesses" where
  "check_token_guess expected presented ip t g = (case presented of
     None \<Rightarrow> (False, g)
   | Some p \<Rightarrow>
       if p = [] \<or> expected = [] then (False, g)
       else if token_guess_retry_after ip t g \<noteq> 0 then (False, g)
       else if p = expected then (True, g)
       else (False, token_guess_failed ip t g))"

section \<open>Runs of sessions\<close>

text \<open>
  Signing in revokes the session the browser presents and makes a new one; requests check theirs; signing out,
  changing the token in the settings and starting the program end sessions.
\<close>

datatype session_op =
    SignIn "str option" str
  | UseSession "str option"
  | SignOut "str option"
  | AllOut
  | Start str str

definition session_step :: "(str \<Rightarrow> str) \<Rightarrow> (str \<Rightarrow> str \<Rightarrow> str) \<Rightarrow> session_op \<Rightarrow> real \<Rightarrow> session_db \<Rightarrow> session_db" where
  "session_step sha kdf op t db = (case op of
     SignIn old new \<Rightarrow> session_create sha new t (session_revoke sha old db)
   | UseSession sid \<Rightarrow> snd (session_check sha sid t db)
   | SignOut sid \<Rightarrow> session_revoke sha sid db
   | AllOut \<Rightarrow> snd (sessions_revoke_all db)
   | Start token salt \<Rightarrow> sessions_sync_token kdf salt token db)"

definition session_run :: "(str \<Rightarrow> str) \<Rightarrow> (str \<Rightarrow> str \<Rightarrow> str) \<Rightarrow> (session_op \<times> real) list \<Rightarrow> session_db \<Rightarrow> session_db" where
  "session_run sha kdf ops db = fold (\<lambda>(op, t). session_step sha kdf op t) ops db"

definition no_sessions :: session_db where
  "no_sessions = \<lparr>sd_sessions = [], sd_check = None\<rparr>"

lemma session_run_snoc: "session_run sha kdf (ops @ [(op, t)]) db = session_step sha kdf op t (session_run sha kdf ops db)"
  by (simp add: session_run_def)

definition kept_sessions :: "real \<Rightarrow> (str, web_session) dict \<Rightarrow> (str, web_session) dict" where
  "kept_sessions t d =
     (let live = filter (\<lambda>(k, s). \<not> ws_expires s \<le> \<lfloor>t\<rfloor>) d;
          oldest = take (length live + 1 - SESSION_MAX) (sort (map (\<lambda>(k, s). (ws_created s, k)) live))
      in filter (\<lambda>(k, s). k \<notin> snd ` set oldest) live)"

lemma create_sessions:
  "session_create sha sid t db = db\<lparr>sd_sessions :=
     dset (sha sid) \<lparr>ws_created = \<lfloor>t\<rfloor>, ws_expires = \<lfloor>t\<rfloor> + SESSION_TTL_SECONDS\<rparr> (kept_sessions t (sd_sessions db))\<rparr>"
  by (simp add: session_create_def kept_sessions_def Let_def)

lemma kept_subset: "set (kept_sessions t d) \<subseteq> set d"
  by (auto simp: kept_sessions_def Let_def)

lemma kept_dwf: "dwf d \<Longrightarrow> dwf (kept_sessions t d)"
  by (auto simp: kept_sessions_def Let_def intro!: dwf_filter)

lemma filter_keys_length:
  assumes "distinct (map fst d)" and "K \<subseteq> set (map fst d)"
  shows "length (filter (\<lambda>(k, s). k \<notin> K) d) + card K = length d"
proof -
  have "length (filter (\<lambda>(k, s). k \<in> K) d) = card K"
  proof -
    have "distinct (map fst (filter (\<lambda>(k, s). k \<in> K) d))" using assms(1) by (rule distinct_map_filter)
    then have "length (filter (\<lambda>(k, s). k \<in> K) d) = card (set (map fst (filter (\<lambda>(k, s). k \<in> K) d)))"
      by (metis distinct_card length_map)
    also have "set (map fst (filter (\<lambda>(k, s). k \<in> K) d)) = K" using assms(2) by force
    finally show ?thesis .
  qed
  moreover have "length (filter (\<lambda>(k, s). k \<in> K) d) + length (filter (\<lambda>(k, s). k \<notin> K) d) = length d"
    using sum_length_filter_compl [of "\<lambda>(k, s). k \<in> K" d] by (simp add: case_prod_unfold)
  ultimately show ?thesis by linarith
qed

lemma kept_length:
  assumes "dwf d" shows "length (kept_sessions t d) < SESSION_MAX"
proof -
  let ?live = "filter (\<lambda>(k, s). \<not> ws_expires s \<le> \<lfloor>t\<rfloor>) d"
  let ?pairs = "map (\<lambda>(k, s). (ws_created s, k)) ?live"
  let ?m = "length ?live + 1 - SESSION_MAX"
  let ?K = "snd ` set (take ?m (sort ?pairs))"
  have d: "distinct (map fst ?live)" using dwf_filter [OF assms] by (simp add: dwf_def dkeys_def)
  have keys: "map snd ?pairs = map fst ?live" by (simp add: case_prod_unfold comp_def)
  have "distinct (map snd ?pairs)" unfolding keys by (rule d)
  then have ds: "distinct (map snd (sort ?pairs))" by (simp only: distinct_map distinct_sort set_sort)
  then have "distinct (map snd (take ?m (sort ?pairs)))" unfolding take_map [symmetric] by (rule distinct_take)
  then have "card ?K = length (take ?m (sort ?pairs))" using distinct_card by (fastforce simp only: set_map length_map)
  then have card: "card ?K = min (length ?live) ?m" by simp
  have "?K \<subseteq> snd ` set (sort ?pairs)" by (intro image_mono set_take_subset)
  then have "?K \<subseteq> set (map fst ?live)" by (simp only: set_sort keys [symmetric] set_map)
  from filter_keys_length [OF d this] have "length (filter (\<lambda>(k, s). k \<notin> ?K) ?live) + card ?K = length ?live" .
  moreover have "kept_sessions t d = filter (\<lambda>(k, s). k \<notin> ?K) ?live" by (simp only: kept_sessions_def Let_def)
  ultimately show ?thesis using card by (auto simp: SESSION_MAX_def)
qed

lemma dset_grows_by_one: "length (dset k v d) \<le> length d + 1"
  by (induction k v d rule: dset.induct) auto

lemma length_dset_present: "dget d k = Some u \<Longrightarrow> length (dset k v d) = length d"
  by (induction k v d rule: dset.induct) (auto simp: dget_Cons split: if_splits)

lemma ddel_shrinks: "length (ddel k d) \<le> length d"
  by (simp add: ddel_def)

definition sessions_ok :: "session_db \<Rightarrow> bool" where
  "sessions_ok db \<longleftrightarrow> dwf (sd_sessions db) \<and> length (sd_sessions db) \<le> SESSION_MAX"

lemma revoke_sessions_ok: "sessions_ok db \<Longrightarrow> sessions_ok (session_revoke sha sid db)"
  using ddel_shrinks by (fastforce simp: sessions_ok_def session_revoke_def split: option.split intro: order_trans)

lemma session_step_ok:
  assumes "sessions_ok db" shows "sessions_ok (session_step sha kdf op t db)"
proof (cases op)
  case (SignIn old new)
  have "dwf (sd_sessions (session_revoke sha old db))" using revoke_sessions_ok [OF assms] by (simp add: sessions_ok_def)
  note k = kept_dwf [OF this] kept_length [OF this, of t]
  have "length (dset (sha new) s (kept_sessions t (sd_sessions (session_revoke sha old db)))) \<le> SESSION_MAX" for s
    using dset_grows_by_one [of "sha new" s "kept_sessions t (sd_sessions (session_revoke sha old db))"] k(2) by linarith
  then show ?thesis using k(1) by (simp add: SignIn session_step_def create_sessions sessions_ok_def)
next
  case (UseSession sid)
  then show ?thesis using assms ddel_shrinks [of _ "sd_sessions db"]
    by (auto simp: session_step_def session_check_def sessions_ok_def length_dset_present split: option.splits intro: order_trans)
qed (use assms revoke_sessions_ok in \<open>auto simp: session_step_def sessions_revoke_all_def sessions_sync_token_def sessions_ok_def\<close>)

section \<open>Where a session comes from\<close>

definition ends_session :: "(str \<Rightarrow> str) \<Rightarrow> str \<Rightarrow> session_op \<Rightarrow> bool" where
  "ends_session sha h op = (case op of
     SignIn (Some i) _ \<Rightarrow> i \<noteq> [] \<and> length i \<le> 128 \<and> sha i = h
   | SignOut (Some i) \<Rightarrow> i \<noteq> [] \<and> length i \<le> 128 \<and> sha i = h
   | AllOut \<Rightarrow> True
   | _ \<Rightarrow> False)"

definition uses_session :: "(str \<Rightarrow> str) \<Rightarrow> str \<Rightarrow> session_op \<Rightarrow> bool" where
  "uses_session sha h op = (case op of SignIn _ new \<Rightarrow> sha new = h | UseSession (Some i) \<Rightarrow> sha i = h | _ \<Rightarrow> False)"

text \<open>
  The session \<open>h\<close> was made by signing in at the head of \<open>later\<close>, nothing ended it since, the token check is
  still the one it was made under, and it was used at \<open>v\<close>.
\<close>

definition session_from :: "(str \<Rightarrow> str) \<Rightarrow> (str \<Rightarrow> str \<Rightarrow> str) \<Rightarrow> (session_op \<times> real) list \<Rightarrow> str \<Rightarrow> real \<Rightarrow> bool" where
  "session_from sha kdf ops h v \<longleftrightarrow> (\<exists>pre old sid u later. ops = pre @ (SignIn old sid, u) # later \<and> sha sid = h \<and>
     sd_check (session_run sha kdf pre no_sessions) = sd_check (session_run sha kdf ops no_sessions) \<and>
     (\<forall>(op, w)\<in>set later. \<not> ends_session sha h op) \<and> (\<exists>(op, w)\<in>set ((SignIn old sid, u) # later). uses_session sha h op \<and> w = v))"

lemma from_snoc:
  assumes "session_from sha kdf ops h v" and "\<not> ends_session sha h op"
    and "sd_check (session_run sha kdf (ops @ [(op, t)]) no_sessions) = sd_check (session_run sha kdf ops no_sessions)"
  shows "session_from sha kdf (ops @ [(op, t)]) h v" and "uses_session sha h op \<Longrightarrow> session_from sha kdf (ops @ [(op, t)]) h t"
proof -
  from assms(1) obtain pre old sid u later where p: "ops = pre @ (SignIn old sid, u) # later" "sha sid = h"
    "sd_check (session_run sha kdf pre no_sessions) = sd_check (session_run sha kdf ops no_sessions)"
    "\<forall>(op, w)\<in>set later. \<not> ends_session sha h op" "\<exists>(op, w)\<in>set ((SignIn old sid, u) # later). uses_session sha h op \<and> w = v"
    unfolding session_from_def by blast
  show "session_from sha kdf (ops @ [(op, t)]) h v"
    unfolding session_from_def using p assms(2,3)
    by (intro exI [of _ pre] exI [of _ old] exI [of _ sid] exI [of _ u] exI [of _ "later @ [(op, t)]"]) auto
  show "uses_session sha h op \<Longrightarrow> session_from sha kdf (ops @ [(op, t)]) h t"
    unfolding session_from_def using p assms(2,3)
    by (intro exI [of _ pre] exI [of _ old] exI [of _ sid] exI [of _ u] exI [of _ "later @ [(op, t)]"]) auto
qed

lemma check_frame [simp]: "sd_check (session_revoke sha sid db) = sd_check db" "sd_check (snd (session_check sha sid t db)) = sd_check db"
  "sd_check (session_create sha new t db) = sd_check db"
  by (auto simp: session_revoke_def session_check_def create_sessions split: option.split)

lemma revoke_sessions:
  "(h, s) \<in> set (sd_sessions (session_revoke sha sid db)) \<Longrightarrow>
     (h, s) \<in> set (sd_sessions db) \<and> (\<forall>i. sid = Some i \<and> i \<noteq> [] \<and> length i \<le> 128 \<longrightarrow> sha i \<noteq> h)"
  by (auto simp: session_revoke_def ddel_def split: option.splits if_splits)

lemma in_dset: "(h, s) \<in> set (dset k v d) \<Longrightarrow> (h, s) = (k, v) \<or> (h, s) \<in> set d"
  by (induction k v d rule: dset.induct) (auto split: if_splits)

lemma session_provenance:
  assumes "(h, s) \<in> set (sd_sessions (session_run sha kdf ops no_sessions))"
  shows "\<exists>v. ws_expires s = \<lfloor>v\<rfloor> + SESSION_TTL_SECONDS \<and> session_from sha kdf ops h v"
  using assms
proof (induction ops arbitrary: h s rule: rev_induct)
  case Nil
  then show ?case by (simp add: session_run_def no_sessions_def)
next
  case (snoc call ops)
  obtain op t where call: "call = (op, t)" by fastforce
  let ?db = "session_run sha kdf ops no_sessions"
  let ?db' = "session_run sha kdf (ops @ [(op, t)]) no_sessions"
  have db': "?db' = session_step sha kdf op t ?db" by (rule session_run_snoc)
  have h: "(h, s) \<in> set (sd_sessions ?db')" using snoc.prems call by simp
  have carry: ?case if "(h, s) \<in> set (sd_sessions ?db)" "\<not> ends_session sha h op" "sd_check ?db' = sd_check ?db"
    using snoc.IH [OF that(1)] from_snoc(1) [OF _ that(2,3)] call by blast
  show ?case
  proof (cases op)
    case (SignIn old new)
    let ?kept = "kept_sessions t (sd_sessions (session_revoke sha old ?db))"
    have check: "sd_check ?db' = sd_check ?db" using db' by (simp add: SignIn session_step_def)
    have "(h, s) = (sha new, \<lparr>ws_created = \<lfloor>t\<rfloor>, ws_expires = \<lfloor>t\<rfloor> + SESSION_TTL_SECONDS\<rparr>) \<or> (h, s) \<in> set ?kept"
      using h db' by (auto simp: SignIn session_step_def create_sessions dest: in_dset)
    then show ?thesis
    proof
      assume "(h, s) = (sha new, \<lparr>ws_created = \<lfloor>t\<rfloor>, ws_expires = \<lfloor>t\<rfloor> + SESSION_TTL_SECONDS\<rparr>)"
      moreover have "session_from sha kdf (ops @ [(SignIn old new, t)]) (sha new) t"
        unfolding session_from_def using check SignIn
        by (intro exI [of _ ops] exI [of _ old] exI [of _ new] exI [of _ t] exI [of _ "[]"]) (auto simp: uses_session_def)
      ultimately show ?thesis using call SignIn by auto
    next
      assume "(h, s) \<in> set ?kept"
      then have "(h, s) \<in> set (sd_sessions (session_revoke sha old ?db))" using kept_subset by blast
      from revoke_sessions [OF this] have "(h, s) \<in> set (sd_sessions ?db)" "\<not> ends_session sha h op"
        by (auto simp: SignIn ends_session_def split: option.splits)
      then show ?thesis using carry check by blast
    qed
  next
    case (UseSession sid)
    have check: "sd_check ?db' = sd_check ?db" and no: "\<not> ends_session sha h op"
      using db' by (simp_all add: UseSession session_step_def ends_session_def)
    show ?thesis
    proof (cases "(h, s) \<in> set (sd_sessions ?db)")
      case True
      then show ?thesis using carry check no by blast
    next
      case False
      then obtain i s0 where i: "sid = Some i" "dget (sd_sessions ?db) (sha i) = Some s0" "(h, s) = (sha i, s0\<lparr>ws_expires := \<lfloor>t\<rfloor> + SESSION_TTL_SECONDS\<rparr>)"
        using h db'
        by (auto simp: UseSession session_step_def session_check_def ddel_def dest: in_dset split: option.splits if_splits)
      then have "(h, s0) \<in> set (sd_sessions ?db)" by (auto simp: dget_def dest: map_of_SomeD)
      from snoc.IH [OF this] obtain v where "session_from sha kdf ops h v" by blast
      from from_snoc(2) [OF this no check] show ?thesis using i call UseSession by (auto simp: uses_session_def)
    qed
  next
    case (SignOut sid)
    have "sd_check ?db' = sd_check ?db" using db' by (simp add: SignOut session_step_def)
    moreover have "(h, s) \<in> set (sd_sessions ?db)" "\<not> ends_session sha h op"
      using revoke_sessions [of h s sha sid ?db] h db' by (auto simp: SignOut session_step_def ends_session_def split: option.splits)
    ultimately show ?thesis using carry by blast
  next
    case AllOut
    then show ?thesis using h db' by (simp add: session_step_def sessions_revoke_all_def)
  next
    case (Start token salt)
    have "(h, s) \<in> set (sd_sessions ?db)" "sd_check ?db' = sd_check ?db"
      using h db' by (auto simp: Start session_step_def sessions_sync_token_def sessions_revoke_all_def split: if_splits)
    then show ?thesis using carry by (simp add: Start ends_session_def)
  qed
qed

section \<open>Runs of guesses\<close>

text \<open>
  A presented token, from where, whether a right one signs in (which forgets the source's failures), and when.
  \<open>wrong_try\<close>: the token was really compared, and was wrong.
\<close>

type_synonym guess = "str \<times> str option \<times> bool \<times> real"

definition wrong_try :: "str \<Rightarrow> guess \<Rightarrow> guesses \<Rightarrow> bool" where
  "wrong_try expected x g = (case x of (ip, presented, signs_in, t) \<Rightarrow>
     presented \<notin> {None, Some [], Some expected} \<and> expected \<noteq> [] \<and> token_guess_retry_after ip t g = 0)"

definition guess_step :: "str \<Rightarrow> guess \<Rightarrow> guesses \<Rightarrow> guesses" where
  "guess_step expected x g = (case x of (ip, presented, signs_in, t) \<Rightarrow>
     (case check_token_guess expected presented ip t g of (ok, g') \<Rightarrow> if ok \<and> signs_in then token_guess_reset ip g' else g'))"

fun wrong_tries :: "str \<Rightarrow> guess list \<Rightarrow> guesses \<Rightarrow> guess list \<times> guesses" where
  "wrong_tries expected [] g = ([], g)"
| "wrong_tries expected (x # xs) g =
     (case wrong_tries expected xs (guess_step expected x g) of (tries, g') \<Rightarrow> (if wrong_try expected x g then x # tries else tries, g'))"

lemma wrong_tries_snoc:
  "wrong_tries expected (xs @ [x]) g =
     (case wrong_tries expected xs g of (tries, g') \<Rightarrow> (if wrong_try expected x g' then tries @ [x] else tries, guess_step expected x g'))"
  by (induction xs arbitrary: g) (auto split: prod.splits)

lemma retry_zero: "token_guess_retry_after ip t g = 0 \<longleftrightarrow> (\<forall>k\<in>set (guess_keys ip). \<not> is_blocked g k t)"
proof -
  define ks where "ks = filter (\<lambda>k. is_blocked g k t) (guess_keys ip)"
  define f where "f = (\<lambda>k. the (blocked_until g k) - t)"
  have v: "token_guess_retry_after ip t g = (if ks = [] then 0 else \<lfloor>Max (set (map f ks))\<rfloor> + 1)"
    by (simp add: token_guess_retry_after_def Let_def ks_def f_def)
  define m where "m = \<lfloor>Max (set (map f ks))\<rfloor>"
  note v = v [folded m_def]
  have e: "ks = [] \<longleftrightarrow> (\<forall>k\<in>set (guess_keys ip). \<not> is_blocked g k t)" by (simp add: ks_def filter_empty_conv)
  show ?thesis
  proof (cases ks)
    case (Cons k rest)
    then have "k \<in> set ks" by simp
    then have "is_blocked g k t" by (simp add: ks_def)
    then have "0 < f k" by (auto simp: f_def is_blocked_def split: option.splits)
    moreover have "f k \<le> Max (set (map f ks))" using Cons by (intro Max_ge) auto
    ultimately have "0 \<le> m" unfolding m_def by linarith
    then have "token_guess_retry_after ip t g \<noteq> 0" "ks \<noteq> []" using v Cons by auto
    then show ?thesis using e by blast
  qed (use v e in simp)
qed

text \<open>One counter, with the times \<open>A\<close> of the events it is asked about.\<close>

definition counter_ok :: "nat \<Rightarrow> real list \<Rightarrow> real \<Rightarrow> guess_state option \<Rightarrow> bool" where
  "counter_ok L A now s = (case s of None \<Rightarrow> A = []
     | Some (start, n, until) \<Rightarrow> windows_ok L 600 A start \<and> start \<le> now \<and> (\<forall>x\<in>set A. x \<le> start + 600 \<and> x \<le> now) \<and>
         (n < L \<longrightarrow> since start A \<le> n) \<and> (L \<le> n \<longrightarrow> start + 600 < until \<or> since start A = 0) \<and>
         (until \<le> start + 600 \<longrightarrow> (\<forall>x\<in>set A. start \<le> x \<longrightarrow> until \<le> x)))"

lemma since_zero: "since a A = 0 \<longleftrightarrow> (\<forall>x\<in>set A. x < a)"
  by (auto simp: since_def filter_empty_conv not_le)

text \<open>A failure is counted; when it is one of the events, the counter was not blocked.\<close>

lemma counter_failure:
  assumes ok: "counter_ok L A now (dget g k)" and later: "now \<le> t" and L: "0 < L" and ev: "e \<Longrightarrow> \<not> is_blocked g k t" and t0: "0 \<le> t"
  shows "counter_ok L (if e then A @ [t] else A) t (dget (count_guess k L t g) k)"
proof -
  obtain start n until where s: "(start, n, until) = (case dget g k of None \<Rightarrow> (t, 0, 0) | Some s \<Rightarrow> s)" by (metis prod_cases3)
  have free: "e \<Longrightarrow> until \<le> t" using ev s t0 by (auto simp: is_blocked_def blocked_until_def split: option.splits)
  have c: "counter_ok L A t (Some (start, n, until))"
    using ok later s by (cases "dget g k") (auto simp: counter_ok_def since_def)
  show ?thesis
  proof (cases "600 < t - start")
    case True
    have ends: "\<forall>x\<in>set A. x \<le> start + 600" and win: "windows_ok L 600 A start" using c by (simp_all add: counter_ok_def)
    have old: "\<forall>x\<in>set A. x < t"
    proof
      fix x assume "x \<in> set A"
      then have "x \<le> start + 600" using ends by blast
      then show "x < t" using True by linarith
    qed
    have w: "windows_ok L 600 A t" using True by (intro windows_next [OF win old]) linarith
    have z: "since t A = 0" using old by (simp add: since_zero)
    have w': "windows_ok L 600 (if e then A @ [t] else A) t" using w z L windows_event [OF w, of t] by auto
    have state: "dget (count_guess k L t g) k = Some (t, 1, if L \<le> 1 \<and> until \<le> t then t + 900 else until)"
      using s True by (auto simp: count_guess_def Let_def TOKEN_GUESS_WINDOW_SECONDS_def TOKEN_GUESS_LOCKOUT_SECONDS_def split: prod.splits)
    let ?A = "if e then A @ [t] else A" and ?u = "if L \<le> 1 \<and> until \<le> t then t + 900 else until"
    have "\<forall>x\<in>set ?A. x \<le> t" using old by (auto simp: less_imp_le)
    then have a: "\<forall>x\<in>set ?A. x \<le> t + 600 \<and> x \<le> t" by fastforce
    have one: "since t ?A = (if e then 1 else 0)" using z by simp
    have b: "L \<le> 1 \<longrightarrow> t + 600 < ?u \<or> since t ?A = 0" using one free by auto
    have d: "?u \<le> t + 600 \<longrightarrow> (\<forall>x\<in>set ?A. t \<le> x \<longrightarrow> ?u \<le> x)" using old free by auto
    show ?thesis unfolding state counter_ok_def option.case prod.case using w' a one b d by auto
  next
    case False
    have state: "dget (count_guess k L t g) k = Some (start, n + 1, if L \<le> n + 1 \<and> until \<le> t then t + 900 else until)"
      using s False by (auto simp: count_guess_def Let_def TOKEN_GUESS_WINDOW_SECONDS_def TOKEN_GUESS_LOCKOUT_SECONDS_def split: prod.splits)
    have st: "start \<le> t" using c by (auto simp: counter_ok_def)
    show ?thesis
    proof (cases e)
      case True
      have room: "since start A < L"
      proof (cases "n < L")
        case False
        then have "since start A = 0" using c free [OF True] \<open>\<not> 600 < t - start\<close> by (auto simp: counter_ok_def)
        then show ?thesis using L by simp
      qed (use c in \<open>auto simp: counter_ok_def\<close>)
      have w: "windows_ok L 600 (A @ [t]) start" using c room st by (intro windows_event) (auto simp: counter_ok_def)
      have "since start A \<le> n" if "n < L" using c that by (auto simp: counter_ok_def)
      then show ?thesis unfolding state counter_ok_def option.case prod.case
        using w c True free [OF True] st False L by (auto simp: counter_ok_def)
    next
      case e: False
      have "start + 600 < until \<or> since start A = 0" if "L \<le> n + 1" "\<not> until \<le> t"
      proof (cases "until \<le> start + 600")
        case True
        then have "\<forall>x\<in>set A. start \<le> x \<longrightarrow> until \<le> x" "\<forall>x\<in>set A. x \<le> t" using c by (auto simp: counter_ok_def)
        then have "\<forall>x\<in>set A. x < start" using that(2) by fastforce
        then show ?thesis by (simp add: since_zero)
      qed simp
      then show ?thesis unfolding state counter_ok_def option.case prod.case
        using c e st False L by (auto simp: counter_ok_def)
    qed
  qed
qed

lemma count_others: "k' \<noteq> k \<Longrightarrow> dget (count_guess k L t g) k' = dget g k'"
  by (auto simp: count_guess_def Let_def split: option.splits prod.splits)

lemma count_keys: "set (dkeys (count_guess k L t g)) = insert k (set (dkeys g))" and count_dwf: "dwf g \<Longrightarrow> dwf (count_guess k L t g)"
  by (auto simp: count_guess_def Let_def split: option.splits prod.splits)

lemma guess_step_cases:
  assumes "x = (ip, presented, signs_in, t)"
  obtains (same) "guess_step expected x g = g" "\<not> wrong_try expected x g"
    | (right) "guess_step expected x g = ddel ip g" "\<not> wrong_try expected x g"
    | (wrong) "guess_step expected x g = token_guess_failed ip t g" "wrong_try expected x g" "token_guess_retry_after ip t g = 0"
proof (cases "presented \<in> {None, Some [], Some expected} \<or> expected = [] \<or> token_guess_retry_after ip t g \<noteq> 0")
  case True
  then have w: "\<not> wrong_try expected x g" by (auto simp: wrong_try_def assms)
  have "guess_step expected x g \<in> {g, ddel ip g}"
    using True by (cases presented) (auto simp: guess_step_def check_token_guess_def token_guess_reset_def assms)
  then show thesis using w same right by blast
next
  case False
  then show thesis by (intro wrong) (auto simp: wrong_try_def guess_step_def check_token_guess_def assms split: if_splits)
qed

definition guess_ip :: "guess \<Rightarrow> str" where "guess_ip x = fst x"
definition guess_time :: "guess \<Rightarrow> real" where "guess_time x = snd (snd (snd x))"

definition net_times :: "guess list \<Rightarrow> real list" where
  "net_times tries = map guess_time (filter (\<lambda>x. \<not> guess_source_is_loopback (guess_ip x)) tries)"

lemma shed_few: "dwf g \<Longrightarrow> card (set (dkeys g)) \<le> 4096 \<Longrightarrow> shed_guesses t g = g"
  using distinct_card [of "dkeys g"] by (simp add: shed_guesses_def dwf_def) (simp add: dkeys_def)

lemma guesses_run:
  assumes "sorted (map guess_time xs)" and "\<forall>x\<in>set xs. guess_ip x \<noteq> GLOBAL_GUESSES \<and> 0 \<le> guess_time x" and "card (guess_ip ` set xs) < 4096"
    and "wrong_tries expected xs [] = (tries, g)" and "\<forall>x\<in>set xs. guess_time x \<le> now"
  shows "dwf g \<and> set (dkeys g) \<subseteq> insert GLOBAL_GUESSES (guess_ip ` set xs) \<and>
    counter_ok TOKEN_GUESS_GLOBAL_LIMIT (net_times tries) now (dget g GLOBAL_GUESSES)"
  using assms
proof (induction xs arbitrary: tries g now rule: rev_induct)
  case Nil
  then show ?case by (simp add: net_times_def counter_ok_def dkeys_def)
next
  case (snoc x xs)
  obtain ip presented signs_in t where x: "x = (ip, presented, signs_in, t)" by (cases x)
  obtain tries0 g0 where run: "wrong_tries expected xs [] = (tries0, g0)" by fastforce
  have g: "g = guess_step expected x g0" and tries: "tries = (if wrong_try expected x g0 then tries0 @ [x] else tries0)"
    using snoc.prems(4) run by (auto simp: wrong_tries_snoc)
  have few: "card (guess_ip ` set xs) < 4096"
  proof -
    have "card (guess_ip ` set xs) \<le> card (guess_ip ` set (xs @ [x]))" by (intro card_mono) auto
    then show ?thesis using snoc.prems(3) by linarith
  qed
  have past: "\<forall>y\<in>set xs. guess_time y \<le> t" "t \<le> now" "0 \<le> t" and ip: "ip \<noteq> GLOBAL_GUESSES"
    using snoc.prems(1,2,5) x by (auto simp: sorted_append guess_time_def guess_ip_def)
  have ih: "dwf g0" "set (dkeys g0) \<subseteq> insert GLOBAL_GUESSES (guess_ip ` set xs)"
      "counter_ok TOKEN_GUESS_GLOBAL_LIMIT (net_times tries0) t (dget g0 GLOBAL_GUESSES)"
    using snoc.IH [OF _ _ few run past(1)] snoc.prems(1,2) by (auto simp: sorted_append)
  have later: "counter_ok L A now s" if "counter_ok L A t s" for L A s
    using that past(2) by (fastforce simp: counter_ok_def split: option.splits)
  from x show ?case
  proof (cases rule: guess_step_cases [where expected = expected and g = g0])
    case same
    then show ?thesis using ih later g tries by auto
  next
    case right
    have "dget (ddel ip g0) GLOBAL_GUESSES = dget g0 GLOBAL_GUESSES" using ip by simp
    moreover have "set (dkeys (ddel ip g0)) \<subseteq> set (dkeys g0)" by (auto simp: dkeys_ddel)
    ultimately show ?thesis using ih later g tries right by (auto simp: dwf_ddel)
  next
    case wrong
    let ?e = "\<not> guess_source_is_loopback ip"
    let ?g1 = "count_guess ip TOKEN_GUESS_LIMIT t g0"
    have "card (set (dkeys g0)) \<le> card (insert GLOBAL_GUESSES (guess_ip ` set xs))" using ih(2) by (intro card_mono) auto
    also have "\<dots> \<le> 4096" using few by (simp add: card_insert_if)
    finally have "shed_guesses t g0 = g0" using shed_few ih(1) by blast
    then have g': "g = count_guess GLOBAL_GUESSES TOKEN_GUESS_GLOBAL_LIMIT t ?g1" using g wrong(1) by (simp add: token_guess_failed_def)
    have same: "dget ?g1 GLOBAL_GUESSES = dget g0 GLOBAL_GUESSES" using ip by (intro count_others) auto
    have free: "\<not> is_blocked ?g1 GLOBAL_GUESSES t" if ?e
      using wrong(3) that by (auto simp: retry_zero guess_keys_def is_blocked_def blocked_until_def same)
    have "counter_ok TOKEN_GUESS_GLOBAL_LIMIT (if ?e then net_times tries0 @ [t] else net_times tries0) t (dget g GLOBAL_GUESSES)"
      unfolding g' using ih(3) past(3) free by (intro counter_failure [where now = t]) (auto simp: same TOKEN_GUESS_GLOBAL_LIMIT_def)
    moreover have "net_times tries = (if ?e then net_times tries0 @ [t] else net_times tries0)"
      using tries wrong(2) x by (simp add: net_times_def guess_ip_def guess_time_def)
    moreover have "set (dkeys g) \<subseteq> insert GLOBAL_GUESSES (guess_ip ` set (xs @ [x]))"
      using ih(2) x by (auto simp: g' count_keys guess_ip_def)
    moreover have "dwf g" using ih(1) by (simp add: g' count_dwf)
    ultimately show ?thesis using later by simp
  qed
qed

text \<open>Each address of this machine's own loopback network is a source of its own, under no common limit.\<close>

lemma star_no_loopback: "guess_source_is_loopback ip \<Longrightarrow> ip \<noteq> GLOBAL_GUESSES"
proof
  assume l: "guess_source_is_loopback ip" and "ip = GLOBAL_GUESSES"
  then have ip: "before CHR ''%'' ip = ''*''" by (simp add: GLOBAL_GUESSES_def before_def)
  have "parse_ipv4 ''*'' = None" using parse_ipv4_chars [of "''*''"] by (cases "parse_ipv4 ''*''") (auto simp: is_digit_def code_of_def)
  moreover have "parse_ipv6 ''*'' = None" using parse_ipv6_colon [of "''*''"] by (cases "parse_ipv6 ''*''") auto
  ultimately show False using l by (simp add: guess_source_is_loopback_def ip ip_address_def)
qed

lemma shed_keys: "set (dkeys (shed_guesses t g)) \<subseteq> set (dkeys g)"
  by (auto simp: shed_guesses_def Let_def dkeys_def)

lemma loopback_guesses_not_limited:
  assumes "distinct (map fst sources)" and "\<forall>(ip, t)\<in>set sources. guess_source_is_loopback ip" and "expected \<noteq> []" and "p \<noteq> []" and "p \<noteq> expected"
  shows "fst (wrong_tries expected (map (\<lambda>(ip, t). (ip, Some p, False, t)) sources) []) = map (\<lambda>(ip, t). (ip, Some p, False, t)) sources"
proof -
  let ?xs = "\<lambda>sources. map (\<lambda>(ip, t). (ip, Some p, False, t)) sources"
  have "fst (wrong_tries expected (?xs sources) []) = ?xs sources \<and>
      set (dkeys (snd (wrong_tries expected (?xs sources) []))) \<subseteq> insert GLOBAL_GUESSES (fst ` set sources)"
    using assms(1,2)
  proof (induction sources rule: rev_induct)
    case Nil
    then show ?case by (simp add: dkeys_def)
  next
    case (snoc s sources)
    obtain ip t where s: "s = (ip, t)" by fastforce
    obtain tries g where run: "wrong_tries expected (?xs sources) [] = (tries, g)" by fastforce
    have ih: "tries = ?xs sources" "set (dkeys g) \<subseteq> insert GLOBAL_GUESSES (fst ` set sources)" using snoc run by auto
    have l: "guess_source_is_loopback ip" and "ip \<notin> fst ` set sources" using snoc.prems s by auto
    then have "ip \<notin> set (dkeys g)" using ih(2) star_no_loopback by blast
    then have "token_guess_retry_after ip t g = 0"
      using l by (auto simp: retry_zero guess_keys_def is_blocked_def blocked_until_def dget_None_iff [symmetric])
    then have w: "wrong_try expected (ip, Some p, False, t) g" and step: "guess_step expected (ip, Some p, False, t) g = token_guess_failed ip t g"
      using assms(3-5) by (auto simp: wrong_try_def guess_step_def check_token_guess_def)
    have "set (dkeys (token_guess_failed ip t g)) \<subseteq> insert GLOBAL_GUESSES (fst ` set (sources @ [s]))"
      using shed_keys [of t g] ih(2) s by (auto simp: token_guess_failed_def count_keys)
    then show ?case using run ih(1) w step by (simp add: wrong_tries_snoc s)
  qed
  then show ?thesis by blast
qed

text \<open>Past 4096 sources that cannot be dropped one by one, the counter of all addresses together is dropped too.\<close>

lemma flood_forgets_global:
  assumes "4096 < length (filter (\<lambda>(k, start, n, until). \<not> (until \<le> t \<and> TOKEN_GUESS_WINDOW_SECONDS < t - start)) g)"
    and "ip \<noteq> GLOBAL_GUESSES" and "0 \<le> t"
  shows "dget (token_guess_failed ip t g) GLOBAL_GUESSES = Some (t, 1, 0)"
proof -
  have "4096 < length g" using assms(1) length_filter_le by (meson less_le_trans)
  then have "shed_guesses t g = []" using assms(1) by (simp add: shed_guesses_def)
  then show ?thesis using assms(2,3)
    by (simp add: token_guess_failed_def count_guess_def TOKEN_GUESS_WINDOW_SECONDS_def TOKEN_GUESS_GLOBAL_LIMIT_def TOKEN_GUESS_LIMIT_def dget_Cons)
qed

text \<open>A session that a check accepts, with where it comes from.\<close>

lemma checked_session:
  assumes "fst (session_check sha sid t (session_run sha kdf ops no_sessions)) \<noteq> None"
  shows "\<exists>i v. sid = Some i \<and> t < v + 7 * 86400 \<and> session_from sha kdf ops (sha i) v"
proof -
  let ?db = "session_run sha kdf ops no_sessions"
  from assms obtain i s where i: "sid = Some i" and s: "dget (sd_sessions ?db) (sha i) = Some s" "t < of_int (ws_expires s)"
    by (auto simp: session_check_def split: if_splits option.splits)
  then have "(sha i, s) \<in> set (sd_sessions ?db)" by (auto simp: dget_def dest: map_of_SomeD)
  from session_provenance [OF this] obtain v where v: "ws_expires s = \<lfloor>v\<rfloor> + SESSION_TTL_SECONDS" "session_from sha kdf ops (sha i) v" by blast
  have "of_int (ws_expires s) \<le> v + 7 * 86400" using v(1) of_int_floor_le [of v] by (simp add: SESSION_TTL_SECONDS_def)
  then show ?thesis using i s(2) v(2) by (intro exI [of _ i] exI [of _ v]) linarith
qed

section \<open>Properties\<close>

text \<open>
  C99. A session the dashboard accepts was made by signing in, under the token check that is still in force; no
  sign-out, sign-in over it or sign-out of all browsers came after, and it was used less than seven days ago.
\<close>

theorem sessions_come_from_sign_in:
  assumes "fst (session_check sha (Some sid) t (session_run sha kdf ops no_sessions)) \<noteq> None"
  shows "\<exists>v. t < v + 7 * 86400 \<and> session_from sha kdf ops (sha sid) v"
  using checked_session [OF assms] by auto

text \<open>There are never more than twenty sessions, one per hash, whatever signs in and out.\<close>

theorem sessions_bounded:
  "dwf (sd_sessions (session_run sha kdf ops no_sessions)) \<and> length (sd_sessions (session_run sha kdf ops no_sessions)) \<le> 20"
proof -
  have "sessions_ok (session_run sha kdf ops no_sessions)"
  proof (induction ops rule: rev_induct)
    case Nil
    then show ?case by (simp add: session_run_def no_sessions_def sessions_ok_def)
  next
    case (snoc call ops)
    then show ?case using session_step_ok by (cases call) (simp add: session_run_snoc)
  qed
  then show ?thesis by (simp add: sessions_ok_def SESSION_MAX_def)
qed


subsection \<open>Witnesses\<close>

lemma sessions_come_from_sign_in_witness:
  "fst (session_check (\<lambda>s. s) (Some ''sid'') 9 (session_run (\<lambda>s. s) (\<lambda>t s. t) [(SignIn None ''sid'', 5)] no_sessions)) = Some SessionOk \<and>
   (\<exists>v. 9 < v + 7 * 86400 \<and> session_from (\<lambda>s. s) (\<lambda>t s. t) [(SignIn None ''sid'', 5)] ''sid'' v)"
proof -
  have "fst (session_check (\<lambda>s. s) (Some ''sid'') 9 (session_run (\<lambda>s. s) (\<lambda>t s. t) [(SignIn None ''sid'', 5)] no_sessions)) = Some SessionOk"
    by (simp add: session_run_def session_step_def session_revoke_def create_sessions no_sessions_def kept_sessions_def session_check_def dget_Cons
        SESSION_TTL_SECONDS_def SESSION_RENEW_AFTER_SECONDS_def)
  with sessions_come_from_sign_in [of "\<lambda>s. s" "''sid''" 9 "\<lambda>t s. t" "[(SignIn None ''sid'', 5)]"] show ?thesis by simp
qed


end
