(* ===== verification/Web_Gate.thy ===== *)
theory Web_Gate
  imports Web_Sessions
begin

text \<open>
  The gate in front of every page and API call (\<open>_auth_and_csrf\<close> and what it calls in
  \<open>homesoc/web/app.py\<close>): plain HTTP to Lens, the Host header, requests other sites start, a dashboard without
  a password, the credential, and the header that mutating requests carry.

  A request is the record of what the gate reads of it. The clocks, the id drawn for a new session and what
  the machine answers about its own addresses are arguments.
\<close>

record request =
  rq_method :: str
  rq_path :: str
  rq_secure :: bool
  rq_scheme :: str
  rq_host :: str
  rq_remote :: "str option"
  rq_site :: "str option"
  rq_origin :: "str option"
  rq_mode :: "str option"
  rq_token :: "str option"
  rq_query :: "str option"
  rq_session :: "str option"
  rq_with :: "str option"

record gate_cfg =
  gc_token :: str
  gc_lens :: bool
  gc_require_https :: bool
  gc_hosts :: "str list"
  gc_tls_hosts :: "str list"

definition LENS_SHELL_PATHS :: "str list" where "LENS_SHELL_PATHS = [''/lens'', ''/lens/claim'', ''/lens-sw.js'']"
definition LENS_API_PREFIX :: str where "LENS_API_PREFIX = ''/api/lens/''"
definition STATE_CHANGING_PAGES :: "str list" where "STATE_CHANGING_PAGES = [''/lens/pair'', ''/lens/stickers'', ''/logout'']"
definition FORM_POST_PAGES :: "str list" where "FORM_POST_PAGES = [''/lens/pair'', ''/lens/stickers'']"
definition MUTATING :: "str list" where "MUTATING = [''POST'', ''PUT'', ''PATCH'', ''DELETE'']"

definition text_or_empty :: "str option \<Rightarrow> str" where
  "text_or_empty v = (case v of None \<Rightarrow> [] | Some s \<Rightarrow> s)"

section \<open>Addresses of this machine\<close>

definition unbracket :: "str \<Rightarrow> str" where
  "unbracket s = (if prefix ''['' s \<and> suffix '']'' s then butlast (tl s) else s)"

definition ip_literal :: "str \<Rightarrow> str option" where
  "ip_literal v = (let l = before CHR ''%'' (unbracket (strip v)) in if ip_address l = None then None else Some l)"

definition is_loopback_host :: "str \<Rightarrow> bool" where
  "is_loopback_host host =
     (let v = strip host
      in if v = [] then False
         else if lower v = ''localhost'' then True
         else (case ip_address (before CHR ''%'' (unbracket v)) of None \<Rightarrow> False | Some (V4 a) \<Rightarrow> v4_is_loopback a | Some (V6 a) \<Rightarrow> a = 1))"

definition peer_is_loopback :: "str option \<Rightarrow> bool" where
  "peer_is_loopback remote =
     (let peer = lower (strip (text_or_empty remote))
      in is_loopback_host (if prefix ''::ffff:'' peer then drop 7 peer else peer))"

definition is_loopback_text :: "str \<Rightarrow> bool" where
  "is_loopback_text host \<longleftrightarrow> lower host \<in> {''127.0.0.1'', ''localhost'', ''::1'', ''[::1]''} \<or> prefix ''127.'' host"

text \<open>\<open>interface\<close>: the default interface's address; \<open>name\<close>: the host name; \<open>addrs\<close>: what the name resolves to.\<close>

definition trusted_hosts :: "str \<Rightarrow> bool \<Rightarrow> str \<Rightarrow> str \<Rightarrow> str list \<Rightarrow> str list" where
  "trusted_hosts bind_host include_names interface name addrs =
     (let hosts = [''127.0.0.1'', ''localhost'', ''::1'', ''[::1]'']; bind = strip bind_host; literal = ip_literal bind
      in if is_loopback_host bind
         then map lower (filter (\<lambda>h. h \<noteq> []) (hosts @ (case literal of Some l \<Rightarrow> [l] | None \<Rightarrow> [])))
         else
           (let hosts = hosts @
                  (case literal of
                     Some l \<Rightarrow> if bind \<notin> {''0.0.0.0'', ''::'', ''[::]''} then l # (if CHR '':'' \<in> set l then [''['' @ l @ '']''] else []) else []
                   | None \<Rightarrow> if bind \<noteq> [] \<and> include_names then [bind] else []);
                hosts = hosts @ [interface] @
                  (if name = [] then [] else (if include_names then [name, name @ ''.local''] else []) @ map (before CHR ''%'') (filter (\<lambda>a. a \<noteq> []) addrs))
            in map lower (filter (\<lambda>h. h \<noteq> [] \<and> (include_names \<or> ip_literal h \<noteq> None \<or> h = ''localhost'')) hosts)))"

section \<open>The refusals\<close>

definition host_header_name :: "str \<Rightarrow> str" where
  "host_header_name host =
     (if prefix ''['' host then before CHR '']'' host @ '']''
      else if count_list host CHR '':'' = 1 then before CHR '':'' host else host)"

definition is_static :: "str \<Rightarrow> bool" where "is_static path \<longleftrightarrow> prefix ''/static/'' path"
definition is_api :: "str \<Rightarrow> bool" where "is_api path \<longleftrightarrow> prefix ''/api/'' path"

definition lens_path :: "str \<Rightarrow> bool" where
  "lens_path path \<longleftrightarrow> path \<in> set LENS_SHELL_PATHS \<or> prefix LENS_API_PREFIX path"

definition lens_https_refusal :: "gate_cfg \<Rightarrow> request \<Rightarrow> bool" where
  "lens_https_refusal cfg rq \<longleftrightarrow>
     \<not> rq_secure rq \<and> lens_path (rq_path rq) \<and> gc_lens cfg \<and> gc_require_https cfg \<and> \<not> is_loopback_text (text_or_empty (rq_remote rq))"

definition origin_of :: "request \<Rightarrow> str" where
  "origin_of rq = rq_scheme rq @ ''://'' @ rq_host rq"

definition foreign_request :: "request \<Rightarrow> bool" where
  "foreign_request rq =
     (let site = lower (text_or_empty (rq_site rq))
      in if site \<noteq> [] then site \<notin> {''same-origin'', ''none''}
         else case rq_origin rq of None \<Rightarrow> False | Some origin \<Rightarrow> origin \<noteq> origin_of rq)"

definition same_origin_form :: "request \<Rightarrow> bool" where
  "same_origin_form rq =
     (let site = lower (text_or_empty (rq_site rq))
      in if site \<noteq> [] then site = ''same-origin'' else rq_origin rq = Some (origin_of rq))"

definition navigates :: "request \<Rightarrow> bool" where
  "navigates rq \<longleftrightarrow> lower (if text_or_empty (rq_mode rq) = [] then ''navigate'' else text_or_empty (rq_mode rq)) = ''navigate''"

definition cross_site_refusal :: "request \<Rightarrow> bool" where
  "cross_site_refusal rq \<longleftrightarrow> foreign_request rq \<and> \<not> is_static (rq_path rq) \<and>
     \<not> (rq_method rq \<in> {''GET'', ''HEAD''} \<and> navigates rq \<and> rq_path rq \<notin> set STATE_CHANGING_PAGES \<and> \<not> is_api (rq_path rq))"

definition self_authenticating :: "gate_cfg \<Rightarrow> str \<Rightarrow> bool" where
  "self_authenticating cfg path \<longleftrightarrow> gc_lens cfg \<and> lens_path path"

section \<open>The credential and the gate\<close>

record web_state =
  wb_guesses :: guesses
  wb_sessions :: session_db

definition gate_client :: "request \<Rightarrow> str" where
  "gate_client rq = take 45 (if text_or_empty (rq_remote rq) = [] then ''unknown'' else text_or_empty (rq_remote rq))"

definition token_ok :: "(str \<Rightarrow> str) \<Rightarrow> gate_cfg \<Rightarrow> request \<Rightarrow> real \<Rightarrow> real \<Rightarrow> web_state \<Rightarrow> bool \<times> web_state" where
  "token_ok sha cfg rq tm tw w =
     (if text_or_empty (rq_token rq) \<noteq> []
      then (case check_token_guess (gc_token cfg) (rq_token rq) (gate_client rq) tm (wb_guesses w) of (ok, g) \<Rightarrow> (ok, w\<lparr>wb_guesses := g\<rparr>))
      else (case session_check sha (rq_session rq) tw (wb_sessions w) of (s, db) \<Rightarrow> (s \<noteq> None, w\<lparr>wb_sessions := db\<rparr>)))"

definition signed_in :: "(str \<Rightarrow> str) \<Rightarrow> request \<Rightarrow> str \<Rightarrow> real \<Rightarrow> web_state \<Rightarrow> web_state" where
  "signed_in sha rq sid tw w =
     w\<lparr>wb_guesses := token_guess_reset (gate_client rq) (wb_guesses w),
       wb_sessions := session_create sha sid tw (session_revoke sha (rq_session rq) (wb_sessions w))\<rparr>"

datatype gate_verdict = HttpsRequired | BadHost | CrossSite | NoPassword | SignedIn | Unauthorized | MissingHeader | Admitted

definition header_ok :: "request \<Rightarrow> bool" where
  "header_ok rq \<longleftrightarrow> rq_method rq \<notin> set MUTATING \<or> rq_path rq = ''/login'' \<and> rq_method rq = ''POST'' \<or>
     rq_method rq = ''POST'' \<and> rq_path rq \<in> set FORM_POST_PAGES \<and> same_origin_form rq \<or> rq_with rq = Some ''fetch''"

definition auth_and_csrf :: "(str \<Rightarrow> str) \<Rightarrow> gate_cfg \<Rightarrow> request \<Rightarrow> str \<Rightarrow> real \<Rightarrow> real \<Rightarrow> web_state \<Rightarrow> gate_verdict \<times> web_state" where
  "auth_and_csrf sha cfg rq sid tm tw w =
     (let path = rq_path rq; host = lower (host_header_name (rq_host rq));
          finish = (\<lambda>w. (if header_ok rq then Admitted else MissingHeader, w))
      in if lens_https_refusal cfg rq then (HttpsRequired, w)
         else if gc_hosts cfg \<noteq> [] \<and> host \<notin> set (gc_hosts cfg) \<and> \<not> (rq_secure rq \<and> host \<in> set (gc_tls_hosts cfg)) then (BadHost, w)
         else if cross_site_refusal rq then (CrossSite, w)
         else if gc_token cfg = [] \<and> \<not> is_static path \<and> path \<notin> set LENS_SHELL_PATHS \<and> \<not> self_authenticating cfg path \<and>
                 \<not> peer_is_loopback (rq_remote rq) then (NoPassword, w)
         else if gc_token cfg \<noteq> [] \<and> \<not> (path = ''/login'' \<or> is_static path \<or> self_authenticating cfg path)
         then
           (let query = (if foreign_request rq then None else rq_query rq);
                (ok, g) = (if text_or_empty query \<noteq> [] \<and> rq_method rq = ''GET''
                           then check_token_guess (gc_token cfg) query (gate_client rq) tm (wb_guesses w) else (False, wb_guesses w));
                w = w\<lparr>wb_guesses := g\<rparr>
            in if ok then (SignedIn, signed_in sha rq sid tw w)
               else (case token_ok sha cfg rq tm tw w of (True, w) \<Rightarrow> finish w | (False, w) \<Rightarrow> (Unauthorized, w)))
         else finish w)"


section \<open>What the gate lets through\<close>

text \<open>Where the gate ends, by cases on the request.\<close>

lemma admitted_cases:
  assumes "auth_and_csrf sha cfg rq sid tm tw w = (Admitted, w')"
  shows "\<not> lens_https_refusal cfg rq" and "\<not> cross_site_refusal rq" and "header_ok rq"
    and "gc_hosts cfg \<noteq> [] \<Longrightarrow> lower (host_header_name (rq_host rq)) \<in> set (gc_hosts cfg) \<or>
           rq_secure rq \<and> lower (host_header_name (rq_host rq)) \<in> set (gc_tls_hosts cfg)"
    and "gc_token cfg = [] \<Longrightarrow> is_static (rq_path rq) \<or> lens_path (rq_path rq) \<or> peer_is_loopback (rq_remote rq)"
  using assms by (auto simp: auth_and_csrf_def Let_def self_authenticating_def lens_path_def split: if_splits prod.splits bool.splits)

lemma guess_kept_when_blocked:
  "token_guess_retry_after ip tm g \<noteq> 0 \<Longrightarrow> check_token_guess expected presented ip tm g = (False, g)"
  by (simp add: check_token_guess_def split: option.splits)

lemma guess_right:
  "check_token_guess expected presented ip tm g = (True, g') \<Longrightarrow>
     presented = Some expected \<and> expected \<noteq> [] \<and> token_guess_retry_after ip tm g = 0"
  by (auto simp: check_token_guess_def split: option.splits if_splits)

lemma token_ok_cases:
  assumes "token_ok sha cfg rq tm tw w = (True, w')"
  shows "rq_token rq = Some (gc_token cfg) \<and> token_guess_retry_after (gate_client rq) tm (wb_guesses w) = 0 \<or>
     text_or_empty (rq_token rq) = [] \<and> fst (session_check sha (rq_session rq) tw (wb_sessions w)) \<noteq> None"
  using assms guess_right [of "gc_token cfg" "rq_token rq" "gate_client rq" tm "wb_guesses w"]
  by (auto simp: token_ok_def split: if_splits prod.splits)

lemma admitted_credential:
  assumes "auth_and_csrf sha cfg rq sid tm tw w = (Admitted, w')" and "gc_token cfg \<noteq> []"
    and "\<not> is_static (rq_path rq)" and "rq_path rq \<noteq> ''/login''" and "\<not> self_authenticating cfg (rq_path rq)"
  shows "rq_token rq = Some (gc_token cfg) \<and> token_guess_retry_after (gate_client rq) tm (wb_guesses w) = 0 \<or>
     text_or_empty (rq_token rq) = [] \<and> fst (session_check sha (rq_session rq) tw (wb_sessions w)) \<noteq> None"
proof -
  define query where "query = (if foreign_request rq then None else rq_query rq)"
  obtain ok g where tried: "(if text_or_empty query \<noteq> [] \<and> rq_method rq = ''GET''
      then check_token_guess (gc_token cfg) query (gate_client rq) tm (wb_guesses w) else (False, wb_guesses w)) = (ok, g)" by fastforce
  have "\<exists>w''. token_ok sha cfg rq tm tw (w\<lparr>wb_guesses := g\<rparr>) = (True, w'')"
    using assms tried unfolding auth_and_csrf_def query_def [symmetric] by (auto simp: Let_def split: if_splits prod.splits bool.splits)
  then have "rq_token rq = Some (gc_token cfg) \<and> token_guess_retry_after (gate_client rq) tm g = 0 \<or>
     text_or_empty (rq_token rq) = [] \<and> fst (session_check sha (rq_session rq) tw (wb_sessions w)) \<noteq> None"
    using token_ok_cases by fastforce
  moreover have "token_guess_retry_after (gate_client rq) tm (wb_guesses w) = 0" if "token_guess_retry_after (gate_client rq) tm g = 0"
    using that tried guess_kept_when_blocked [of "gate_client rq" tm "wb_guesses w"] by (cases "token_guess_retry_after (gate_client rq) tm (wb_guesses w) = 0") (auto split: if_splits)
  ultimately show ?thesis by blast
qed


text \<open>Without names in the list, a Host header that is accepted is an address or \<open>localhost\<close>.\<close>

definition address_host :: "str \<Rightarrow> bool" where
  "address_host x \<longleftrightarrow> x \<in> {''127.0.0.1'', ''localhost'', ''::1'', ''[::1]''} \<or> ip_address x \<noteq> None \<or> ip_literal x \<noteq> None"

lemma filtered_image: "h \<in> set (map f (filter P xs)) \<Longrightarrow> \<exists>x. h = f x \<and> x \<in> set xs \<and> P x"
  by auto

lemma literal_address: "ip_literal b = Some l \<Longrightarrow> ip_address l \<noteq> None"
  by (auto simp: ip_literal_def Let_def split: if_splits)

lemma plain_hosts:
  assumes "h \<in> set (trusted_hosts bind False interface name addrs)"
  shows "\<exists>x. h = lower x \<and> address_host x"
proof (cases "is_loopback_host (strip bind)")
  case True
  from assms obtain x where x: "h = lower x"
    "x \<in> set ([''127.0.0.1'', ''localhost'', ''::1'', ''[::1]''] @ (case ip_literal (strip bind) of Some l \<Rightarrow> [l] | None \<Rightarrow> []))"
    unfolding trusted_hosts_def Let_def if_P [OF True] by (blast dest!: filtered_image)
  have "x \<in> {''127.0.0.1'', ''localhost'', ''::1'', ''[::1]''} \<or> ip_literal (strip bind) = Some x"
    using x(2) by (cases "ip_literal (strip bind)") (simp, simp, blast)
  then show ?thesis using x(1) literal_address [of "strip bind" x] unfolding address_host_def by blast
next
  case False
  from assms obtain x where x: "h = lower x" "x \<noteq> []" "False \<or> ip_literal x \<noteq> None \<or> x = ''localhost''"
    unfolding trusted_hosts_def Let_def if_not_P [OF False] by (blast dest!: filtered_image)
  then show ?thesis unfolding address_host_def by blast
qed

lemma localhost_trusted: "lower ''localhost'' \<in> set (trusted_hosts bind inc interface name addrs)"
proof -
  have member: "lower x \<in> set (map lower (filter P ((xs @ ys) @ zs)))" "lower x \<in> set (map lower (filter P (xs @ ys)))"
    "lower x \<in> set (map lower (filter P (((xs @ ys) @ zs) @ us)))"
    if "x \<in> set xs" "P x" for x :: str and P and xs ys zs us using that by auto
  have l: "''localhost'' \<in> set [''127.0.0.1'', ''localhost'', ''::1'', ''[::1]'']" by simp
  show ?thesis
    by (cases "is_loopback_host (strip bind)") (simp_all only: trusted_hosts_def Let_def if_True if_False append_assoc, (rule member [OF l, unfolded append_assoc], simp)+)
qed

section \<open>Properties\<close>

text \<open>
  C37. A request the gate lets through to a page or call that does not authenticate itself carries the credential:
  with no password set it comes from this machine; with one, it has the password in \<open>X-Token\<close> and its source is
  not locked out, or it has no such header and its session was made by a sign-in that nothing has ended, under the
  password check in force, and was used within the last seven days.
\<close>

theorem admitted_requests_authorised:
  assumes "fst (auth_and_csrf sha cfg rq new tm tw w) = Admitted" and "wb_sessions w = session_run sha kdf ops no_sessions"
    and "\<not> is_static (rq_path rq)" and "rq_path rq \<noteq> ''/login''" and "\<not> lens_path (rq_path rq)"
  shows "if gc_token cfg = [] then peer_is_loopback (rq_remote rq)
     else rq_token rq = Some (gc_token cfg) \<and> token_guess_retry_after (gate_client rq) tm (wb_guesses w) = 0 \<or>
       text_or_empty (rq_token rq) = [] \<and>
       (\<exists>sid v. rq_session rq = Some sid \<and> tw < v + 7 * 86400 \<and> session_from sha kdf ops (sha sid) v)"
proof -
  obtain w' where a: "auth_and_csrf sha cfg rq new tm tw w = (Admitted, w')" using assms(1) by (metis prod.collapse)
  show ?thesis
  proof (cases "gc_token cfg = []")
    case True
    then show ?thesis using admitted_cases(5) [OF a] assms(3,5) by simp
  next
    case False
    have "\<not> self_authenticating cfg (rq_path rq)" using assms(5) by (simp add: self_authenticating_def)
    from admitted_credential [OF a False assms(3,4) this] show ?thesis
      using checked_session [of sha "rq_session rq" tw kdf ops] False assms(2) by auto
  qed
qed

text \<open>
  C38. What another site makes the browser send is let through only for a static file, or for a GET or HEAD that
  navigates to a page that changes no state and is no API call; and nothing that mutates is let through without the
  header a page of another origin cannot set, but the sign-in form and the two forms the browser vouches for.
\<close>

theorem cross_site_cannot_act:
  assumes "fst (auth_and_csrf sha cfg rq new tm tw w) = Admitted"
  shows "(foreign_request rq \<and> \<not> is_static (rq_path rq) \<longrightarrow>
       rq_method rq \<in> {''GET'', ''HEAD''} \<and> navigates rq \<and> rq_path rq \<notin> set STATE_CHANGING_PAGES \<and> \<not> is_api (rq_path rq)) \<and>
     (rq_method rq \<in> set MUTATING \<longrightarrow> rq_with rq = Some ''fetch'' \<or> rq_method rq = ''POST'' \<and>
       (rq_path rq = ''/login'' \<or> rq_path rq \<in> set FORM_POST_PAGES \<and> same_origin_form rq))"
proof -
  obtain w' where a: "auth_and_csrf sha cfg rq new tm tw w = (Admitted, w')" using assms by (metis prod.collapse)
  show ?thesis using admitted_cases(2,3) [OF a] by (auto simp: cross_site_refusal_def header_ok_def)
qed



subsection \<open>Witnesses\<close>

definition script_request :: request where
  "script_request = \<lparr>rq_method = ''POST'', rq_path = ''/api/scan'', rq_secure = False, rq_scheme = ''http'', rq_host = ''localhost'',
     rq_remote = Some ''laptop'', rq_site = None, rq_origin = None, rq_mode = None, rq_token = Some ''secret'', rq_query = None,
     rq_session = None, rq_with = Some ''fetch''\<rparr>"

definition sample_gate :: "str list \<Rightarrow> gate_cfg" where
  "sample_gate hosts = \<lparr>gc_token = ''secret'', gc_lens = False, gc_require_https = True, gc_hosts = hosts, gc_tls_hosts = []\<rparr>"

definition sample_web :: web_state where
  "sample_web = \<lparr>wb_guesses = [], wb_sessions = session_run (\<lambda>s. s) (\<lambda>t s. t) [] no_sessions\<rparr>"

lemma script_admitted:
  assumes "hosts = [] \<or> lower ''localhost'' \<in> set hosts"
  shows "fst (auth_and_csrf (\<lambda>s. s) (sample_gate hosts) script_request new tm tw sample_web) = Admitted"
proof -
  have "token_guess_retry_after (gate_client script_request) tm [] = 0" by (simp add: retry_zero is_blocked_def blocked_until_def)
  then have t: "token_ok (\<lambda>s. s) (sample_gate hosts) script_request tm tw sample_web = (True, sample_web)"
    by (simp add: token_ok_def check_token_guess_def sample_gate_def script_request_def sample_web_def text_or_empty_def)
  have shape: "\<not> lens_https_refusal (sample_gate hosts) script_request" "\<not> foreign_request script_request" "header_ok script_request"
    "\<not> cross_site_refusal script_request" "host_header_name (rq_host script_request) = ''localhost''" "\<not> is_static (rq_path script_request)"
    by (simp_all add: lens_https_refusal_def sample_gate_def foreign_request_def script_request_def text_or_empty_def header_ok_def
        cross_site_refusal_def host_header_name_def is_static_def lower_def)
  have "rq_path script_request = ''/api/scan''" "rq_query script_request = None" "gc_token (sample_gate hosts) = ''secret''" "gc_hosts (sample_gate hosts) = hosts"
    "gc_lens (sample_gate hosts) = False" by (simp_all add: script_request_def sample_gate_def)
  then show ?thesis using assms shape t
    by (auto simp: auth_and_csrf_def Let_def text_or_empty_def self_authenticating_def)
qed

lemma admitted_requests_authorised_witness:
  "fst (auth_and_csrf (\<lambda>s. s) (sample_gate []) script_request ''new'' 5 5 sample_web) = Admitted \<and>
   (if gc_token (sample_gate []) = [] then peer_is_loopback (rq_remote script_request)
    else rq_token script_request = Some (gc_token (sample_gate [])) \<and> token_guess_retry_after (gate_client script_request) 5 (wb_guesses sample_web) = 0 \<or>
      text_or_empty (rq_token script_request) = [] \<and>
      (\<exists>sid v. rq_session script_request = Some sid \<and> 5 < v + 7 * 86400 \<and> session_from (\<lambda>s. s) (\<lambda>t s. t) [] sid v))"
  using admitted_requests_authorised [OF script_admitted [of "[]" "''new''" 5 5], of "\<lambda>t s. t" "[]"] script_admitted [of "[]" "''new''" 5 5]
  by (simp add: sample_web_def script_request_def is_static_def lens_path_def LENS_SHELL_PATHS_def LENS_API_PREFIX_def)

lemma cross_site_cannot_act_witness:
  "fst (auth_and_csrf (\<lambda>s. s) (sample_gate []) script_request ''new'' 5 5 sample_web) = Admitted \<and> rq_method script_request \<in> set MUTATING \<and>
   \<not> foreign_request script_request \<and> rq_with script_request = Some ''fetch''"
  using cross_site_cannot_act [OF script_admitted [of "[]" "''new''" 5 5]] script_admitted [of "[]" "''new''" 5 5]
  by (simp add: script_request_def MUTATING_def foreign_request_def text_or_empty_def)


end
