(* ===== verification/Spec2Isabelle.thy ===== *)
theory Spec2Isabelle
  imports Dns_Server Dns_Tcp Feeds_Updater Findings_Score Qr_Scan Sched_Runs Vulns_Matcher Topo_Claims Lens_Api Web_Gate
begin

text \<open>
  A verification library for Home SOC (\<open>src/homesoc\<close>), a security monitor for one home: a filtering
  DNS resolver, scanners whose drafts become findings with a score, threat feeds and vulnerability
  matching, a map of what depends on what, and a scheduler that runs all of it in one process.

  How the parts interact, and which theory models which. Scanners hand drafts to the findings engine
  (\<open>Findings_Engine\<close>), which keeps one row per dedupe key and an event trail; the score
  (\<open>Findings_Score\<close>) reads those rows. The scheduler (\<open>Job_Scheduler\<close>, \<open>Sched_Runs\<close>) runs scanners,
  feed updates and maintenance. The resolver (\<open>Dns_Server\<close>) asks the policy (\<open>Dns_Policy\<close>, which reads
  the block lists the feed parsers produce, \<open>Feeds_Parsers\<close> and \<open>Feeds_Registry\<close>), then the cache
  (\<open>Dns_Cache\<close>), then the upstreams (\<open>Dns_Upstream\<close>) under a guard (\<open>Dns_Guard\<close>); limits per client are
  in \<open>Dns_Limits\<close>, the TCP connection table in \<open>Dns_Tcp\<close>, the bytes it writes by hand in \<open>Dns_Wire\<close>,
  the query log in \<open>Dns_Querylog\<close>, and new domains go to the reputation worker (\<open>Dns_Reputation\<close>),
  whose verdicts come back into the policy. The lists are downloaded by the updater
  (\<open>Feeds_Updater\<close>) under the socket guard (\<open>Feeds_Netguard\<close>). Open services are matched against KEV, EPSS and NVD
  (\<open>Vulns_Cpe\<close>, \<open>Vulns_Enrich\<close>, \<open>Vulns_Matcher\<close>). Discovery sightings become outages (\<open>Topo_Outages\<close>,
  \<open>Topo_Tracks\<close>, \<open>Topo_Baseline\<close>, \<open>Topo_Detect\<close>, \<open>Topo_Record\<close>); sightings, queries, services and
  outages become the dependency map (\<open>Topo_Evidence\<close>, \<open>Topo_Owners\<close>, \<open>Topo_Infer\<close>, \<open>Topo_Claims\<close>), on
  which \<open>Topo_Graph\<close>, \<open>Topo_Counts\<close>, \<open>Topo_Tarjan\<close> and \<open>Topo_Impact\<close> compute dependents and blast
  radii. \<open>Qr_Gf\<close>, \<open>Qr_Bits\<close>, \<open>Qr_Matrix\<close> and \<open>Qr_Scan\<close> are the QR encoder of the pairing page.
  The dashboard's gate (\<open>Web_Gate\<close>) checks the credential of \<open>Web_Sessions\<close>; phones pair and authenticate
  through \<open>Lens_Db\<close> (the tables in \<open>db.py\<close>) and \<open>Lens_Api\<close> (the calls). \<open>Rate_Windows\<close> counts events in windows.
  \<open>Soc_Prelude\<close> holds strings, insertion-ordered dictionaries and rounding, \<open>Py_Net\<close> the parts of
  \<open>ipaddress\<close> and \<open>urllib\<close> the source uses.

  How state corresponds to the code. A class with state is a record and each method a definition on it
  that returns the new record; a table is the list of its rows in rowid order (or a dictionary by its
  key) and each SQL statement the list operation it denotes; a Python dictionary is an association list
  in insertion order (\<open>dget\<close>, \<open>dset\<close>, \<open>ddel\<close>); an exception or early return is a branch of an option
  or a sum. Threads are the steps of a machine: \<open>Sched_Runs.step\<close> for the scheduler,
  \<open>Dns_Server.srv_step\<close> for the resolver, whose steps are the sections between two locks. A call that
  runs under one lock is one step; \<open>enqueue\<close> of the reputation worker, which takes its lock twice,
  is also taken as one.

  What the groups of lemmas show. Policy: which names are blocked and that an override or a verdict
  takes effect; cache: bounds, freshness and exact replay; server: in every reachable interleaving the
  guard counts exactly the queries in flight and every table stays bounded, and a malicious domain is
  no longer resolved; log and reputation: budgets, exact aggregates, quotas. Findings: the effect of a
  scan on every key, user decisions survive, the audit trail explains every status. Score: equality
  with the documented formula, bounds and monotony. QR: encoding followed by scanning returns the
  payload. Scheduler: mutual exclusion per job, progress. Vulnerabilities: exactness of KEV matching,
  history is kept, the request rate is kept. Feeds: requests reach public addresses only, only complete
  lists are installed, a failing feed is left alone, an expired fetch is cut. Outages: the sparse detection refines the dense one,
  recording keeps history. Map: nothing is called observed without recorded rows, no link dangles,
  the one-pass counts equal the traversals, and a blast radius partitions the devices. Lens: phones stay
  within the ceiling, a code pairs once, a revoked phone stays out, guesses are limited. Dashboard: what the
  gate lets through carries a credential that is still good, other sites cannot act, guessing is limited.

  Parameters, each an argument of the definitions that use it: the dnslib operations (record
  \<open>dnslib\<close>), what sockets and HTTP requests answer (\<open>uw_net\<close>, \<open>NoResponse\<close> and \<open>Response\<close>;
  \<open>fetch_world\<close> for a download, with gzip), SHA-256 and scrypt (\<open>sha\<close>, \<open>kdf\<close>), the drawn secrets, file contents and stamps, the local time zone, the finding catalogue, \<open>json.loads\<close>, \<open>str\<close> of JSON values,
  \<open>float\<close> of text and \<open>csv\<close> rows. None of them carries an assumption beyond the named hypotheses of
  the theorems.

  Bounds, fuel and representation. No definition uses fuel: loops are structural or have a termination
  proof (\<open>walk_back\<close>, \<open>tarjan_loop\<close>, \<open>name_end\<close>, the parsers). Strings are lists of ASCII
  characters, so \<open>lower\<close>, \<open>strip\<close> and the regular expressions are Python's on ASCII text; an em dash in
  a label or sentence is written as a hyphen. Stored stamps are whole seconds, except where the code
  compares their texts (\<open>Topo_Owners\<close>, \<open>Topo_Infer\<close>); the scheduler counts microseconds and monotonic
  clocks are reals. Floating point numbers are reals, so \<open>round(x, 3)\<close> may differ next to a tie. GF(256)
  arithmetic is on 8-bit words; Python integers are \<open>int\<close> or \<open>nat\<close>. The score property is stated up
  to 512 findings per type, beyond which further terms are below half a point. Addresses mapped into
  IPv6 are classified as in \<open>ipaddress\<close> before version 3.13.

  Not modelled. Pure input and output: sockets, TLS, subprocesses, sqlite itself, terminal and HTML
  output. The pages and JSON behind the gate (they query tables and shape text), device cards, stickers
  and guides of Lens, the command line, the scanners that parse command output, the notification
  transports, configuration loading, the text of the finding catalogue, and the video tooling
  under \<open>src/video\<close> (it renders a film and shares no state with the program). In modelled parts:
  starting and stopping the DNS server and its metrics, TLS pinning and the bootstrap of DNS over HTTPS
  addresses, the flush thread of the query log and the log messages.
\<close>

end
